(* ===== verification/Luma_Prelude.thy ===== *)
theory Luma_Prelude
  imports Main "HOL-Library.Word"
begin

text \<open>
  Shared vocabulary of the development: the machine types of the C++ sources, the fragments
  of \<^verbatim>\<open>std::format\<close> the sources use to build messages, and generic lemmas on lists and
  maps.  \<open>std::size_t\<close> and container sizes are natural numbers (64-bit builds never reach
  the wrap-around with in-memory byte vectors); every narrower integer keeps its width.
\<close>

section \<open>Machine types\<close>

type_synonym byte = "8 word"
type_synonym u16 = "16 word"
type_synonym u32 = "32 word"
type_synonym u64 = "64 word"

named_theorems luma_defs \<open>constants of the limit structs, unfolded by evaluation\<close>
named_theorems size_simps \<open>lengths of the byte sequences the writers produce\<close>
named_theorems reader_simps \<open>how the reader advances over what the writer produced\<close>

section \<open>Decimal and hexadecimal formatting\<close>

definition digit_char :: "nat \<Rightarrow> char" where
  "digit_char d = (if d < 10 then char_of (48 + d) else char_of (55 + d))"

function show_nat :: "nat \<Rightarrow> string" where
  "show_nat n = (if n < 10 then [digit_char n] else show_nat (n div 10) @ [digit_char (n mod 10)])"
  by pat_completeness auto
termination
  by (relation "measure id") auto

declare show_nat.simps [simp del]

definition show_int :: "int \<Rightarrow> string" where
  "show_int i = (if i < 0 then CHR ''-'' # show_nat (nat (- i)) else show_nat (nat i))"

text \<open>\<^verbatim>\<open>{:02X}\<close> of a byte, \<^verbatim>\<open>{:04d}\<close> of an offset and \<^verbatim>\<open>{:<20s}\<close> of a name.\<close>

definition show_hex2 :: "byte \<Rightarrow> string" where
  "show_hex2 b = [digit_char (unat b div 16), digit_char (unat b mod 16)]"

definition show_nat_04 :: "nat \<Rightarrow> string" where
  "show_nat_04 n = (let s = show_nat n in replicate (4 - length s) (CHR ''0'') @ s)"

definition pad_20 :: "string \<Rightarrow> string" where
  "pad_20 s = s @ replicate (20 - length s) (CHR '' '')"

lemma show_nat_not_Nil [simp]: "show_nat n \<noteq> []"
  by (subst show_nat.simps) simp

section \<open>Strings as byte sequences\<close>

definition bytes_of_string :: "string \<Rightarrow> byte list" where
  "bytes_of_string s = map of_char s"

definition string_of_bytes :: "byte list \<Rightarrow> string" where
  "string_of_bytes bs = map (char_of \<circ> unat) bs"

lemma length_bytes_of_string [simp, size_simps]: "length (bytes_of_string s) = length s"
  by (simp add: bytes_of_string_def)

lemma char_of_unat_of_char [simp]: "char_of (unat (of_char c :: byte)) = c"
proof -
  have "unat (of_nat (of_char c) :: byte) = of_char c"
    by (simp add: unat_of_nat)
  then show ?thesis by (simp add: of_nat_of_char)
qed

lemma string_of_bytes_of_string [simp]: "string_of_bytes (bytes_of_string s) = s"
  by (simp add: string_of_bytes_def bytes_of_string_def comp_def map_idI)

section \<open>Lists\<close>

lemma sorted_wrt_less_snoc:
  "sorted_wrt (<) xs \<Longrightarrow> (\<And>x. x \<in> set xs \<Longrightarrow> x < (y::'a::linorder)) \<Longrightarrow> sorted_wrt (<) (xs @ [y])"
  by (simp add: sorted_wrt_append)

lemma list_all_nth_iff: "list_all P xs \<longleftrightarrow> (\<forall>i < length xs. P (xs ! i))"
  by (auto simp: list_all_length)

section \<open>Words as indices\<close>

lemma unat_word_of_nat_bound: "n < 2 ^ LENGTH('a) \<Longrightarrow> unat (word_of_nat n :: 'a::len word) = n"
  by (simp add: unat_of_nat)

lemma eq_word_of_nat_iff:
  "n < 2 ^ LENGTH('a) \<Longrightarrow> word_of_nat n = (i :: 'a::len word) \<longleftrightarrow> unat i = n"
  by (auto simp: unat_word_of_nat_bound)

end
