(* ===== verification/Byte_Utils.thy ===== *)
theory Byte_Utils
  imports Luma_Prelude
begin

text \<open>
  Byte-level helpers of \<^verbatim>\<open>core/common\<close>: the big- and little-endian integer codecs and
  bounds checks of \<^verbatim>\<open>byte_utils.hpp\<close>, the FNV-1a hash of \<^verbatim>\<open>hash.hpp\<close> and the
  table-driven CRC-32 of \<^verbatim>\<open>crc32.hpp\<close>.  A raw pointer into a buffer is the suffix of
  the byte list that starts there; reading past the end is undefined behaviour in the source and an
  unspecified element here, so every theorem that reads carries the bound.
\<close>

unbundle bit_operations_syntax

section \<open>Big-endian integers of arbitrary width\<close>

definition read_int_be :: "byte list \<Rightarrow> 'a::len word" where
  "read_int_be data =
     fold (\<lambda>i value. (push_bit 8 value) OR (ucast (data ! i))) [0..<LENGTH('a) div 8] 0"

definition write_int_be :: "byte list \<Rightarrow> 'a::len word \<Rightarrow> byte list" where
  "write_int_be buffer value =
     buffer @ map (\<lambda>i. ucast (drop_bit (8 * i) value AND 0xFF)) (rev [0..<LENGTH('a) div 8])"

section \<open>Fixed-width helpers\<close>

definition read_u16_be :: "byte list \<Rightarrow> u16" where
  "read_u16_be data = (push_bit 8 (ucast (data ! 0))) OR (ucast (data ! 1))"

definition read_u32_be :: "byte list \<Rightarrow> u32" where
  "read_u32_be data =
     (push_bit 24 (ucast (data ! 0))) OR (push_bit 16 (ucast (data ! 1))) OR
     (push_bit 8 (ucast (data ! 2))) OR (ucast (data ! 3))"

definition u16_bytes :: "u16 \<Rightarrow> byte list" where
  "u16_bytes value = [ucast (drop_bit 8 value AND 0xFF), ucast (value AND 0xFF)]"

definition u32_bytes :: "u32 \<Rightarrow> byte list" where
  "u32_bytes value =
     [ucast (drop_bit 24 value AND 0xFF), ucast (drop_bit 16 value AND 0xFF),
      ucast (drop_bit 8 value AND 0xFF), ucast (value AND 0xFF)]"

definition write_u16_be :: "byte list \<Rightarrow> u16 \<Rightarrow> byte list" where
  "write_u16_be buffer value = buffer @ u16_bytes value"

definition write_u32_be :: "byte list \<Rightarrow> u32 \<Rightarrow> byte list" where
  "write_u32_be buffer value = buffer @ u32_bytes value"

text \<open>\<^verbatim>\<open>patch_u16_be(&code[dest], value)\<close>: stores through the pointer, in place.\<close>

definition patch_u16_be :: "byte list \<Rightarrow> nat \<Rightarrow> u16 \<Rightarrow> byte list" where
  "patch_u16_be code dest value =
     (let bs = u16_bytes value in code[dest := bs ! 0, dest + 1 := bs ! 1])"

definition patch_u32_be :: "byte list \<Rightarrow> nat \<Rightarrow> u32 \<Rightarrow> byte list" where
  "patch_u32_be code dest value =
     (let bs = u32_bytes value
      in code[dest := bs ! 0, dest + 1 := bs ! 1, dest + 2 := bs ! 2, dest + 3 := bs ! 3])"

section \<open>Little-endian integers\<close>

definition read_int_le :: "byte list \<Rightarrow> 'a::len word" where
  "read_int_le data =
     fold (\<lambda>i value. value OR (push_bit (8 * i) (ucast (data ! i)))) [0..<LENGTH('a) div 8] 0"

definition write_int_le :: "byte list \<Rightarrow> 'a::len word \<Rightarrow> byte list" where
  "write_int_le sink value =
     sink @ map (\<lambda>i. ucast (drop_bit (8 * i) value AND 0xFF)) [0..<LENGTH('a) div 8]"

definition read_u32_le :: "byte list \<Rightarrow> u32" where
  "read_u32_le data = read_int_le data"

definition write_u32_le :: "byte list \<Rightarrow> u32 \<Rightarrow> byte list" where
  "write_u32_le sink value = write_int_le sink value"

section \<open>Bounds-checked access\<close>

definition read_u8_checked :: "byte list \<Rightarrow> nat \<Rightarrow> byte \<Rightarrow> byte" where
  "read_u8_checked code offset default_val =
     (if offset < length code then code ! offset else default_val)"

definition in_bounds :: "byte list \<Rightarrow> nat \<Rightarrow> nat \<Rightarrow> bool" where
  "in_bounds code offset sz \<longleftrightarrow> offset \<le> length code \<and> sz \<le> length code - offset"

section \<open>FNV-1a and CRC-32\<close>

definition fnv1a_hash :: "string \<Rightarrow> u64" where
  "fnv1a_hash data =
     fold (\<lambda>c hash. (hash XOR of_char c) * 1099511628211) data 14695981039346656037"

fun crc_entry_bits :: "nat \<Rightarrow> u32 \<Rightarrow> u32" where
  "crc_entry_bits 0 crc = crc"
| "crc_entry_bits (Suc j) crc =
     crc_entry_bits j (if crc AND 1 \<noteq> 0 then (drop_bit 1 crc) XOR 0xEDB88320 else drop_bit 1 crc)"

definition crc32_make_table :: "u32 list" where
  "crc32_make_table = map (\<lambda>i. crc_entry_bits 8 (of_nat i)) [0..<256]"

definition crc32_hash :: "string \<Rightarrow> u32" where
  "crc32_hash data =
     (fold (\<lambda>c crc. (crc32_make_table ! unat ((crc XOR of_char c) AND 0xFF)) XOR (drop_bit 8 crc))
        data 0xFFFFFFFF) XOR 0xFFFFFFFF"

section \<open>Lemmas: lengths\<close>

lemma length_u16_bytes [simp, size_simps]: "length (u16_bytes v) = 2"
  by (simp add: u16_bytes_def)

lemma length_u32_bytes [simp, size_simps]: "length (u32_bytes v) = 4"
  by (simp add: u32_bytes_def)

lemma length_write_int_be [simp, size_simps]:
  "length (write_int_be buffer (v :: 'a::len word)) = length buffer + LENGTH('a) div 8"
  by (simp add: write_int_be_def)

lemma length_patch_u16_be [simp]: "length (patch_u16_be code dest v) = length code"
  by (simp add: patch_u16_be_def Let_def)

lemma length_patch_u32_be [simp]: "length (patch_u32_be code dest v) = length code"
  by (simp add: patch_u32_be_def Let_def)

lemma in_bounds_iff: "in_bounds code offset sz \<longleftrightarrow> offset + sz \<le> length code"
  by (auto simp: in_bounds_def)

section \<open>Lemmas: the big-endian round trip\<close>

text \<open>One step of the read loop: the bytes read so far are the high bits of the value.\<close>

lemma and_0xFF: "w AND 0xFF = (take_bit 8 w :: 'a::len word)"
  by (simp add: take_bit_eq_mask mask_eq_exp_minus_1)

lemma byte_of_word_bits: "ucast (ucast (take_bit 8 w) :: byte) = (take_bit 8 w :: 'a::len word)"
  by (rule bit_word_eqI) (auto simp: bit_simps)

lemma read_step_bits:
  "push_bit 8 (drop_bit (8 * Suc m) v) OR take_bit 8 (drop_bit (8 * m) v) =
     (drop_bit (8 * m) v :: 'a::len word)"
  by (rule bit_word_eqI) (auto simp: bit_simps add.commute not_less intro: arg_cong)

lemma nth_write_int_be:
  assumes "i < LENGTH('a) div 8"
  shows "write_int_be [] (v :: 'a::len word) ! i =
           ucast (take_bit 8 (drop_bit (8 * (LENGTH('a) div 8 - Suc i)) v))"
  using assms by (simp add: write_int_be_def rev_nth and_0xFF)

lemma write_int_be_append: "write_int_be buffer v = buffer @ write_int_be [] v"
  by (simp add: write_int_be_def)

lemma read_loop_invariant:
  fixes v :: "'a::len word"
  assumes "k \<le> LENGTH('a) div 8" and "8 dvd LENGTH('a)"
  shows "fold (\<lambda>i value. (push_bit 8 value) OR (ucast ((write_int_be [] v @ rest) ! i))) [0..<k] 0 =
           drop_bit (8 * (LENGTH('a) div 8 - k)) v"
  using assms(1)
proof (induction k)
  case 0
  have "8 * (LENGTH('a) div 8) = LENGTH('a)" using assms(2) by simp
  then show ?case by (simp add: drop_bit_eq_div)
next
  case (Suc k)
  let ?m = "LENGTH('a) div 8 - Suc k"
  from Suc.prems have m: "LENGTH('a) div 8 - k = Suc ?m" by simp
  from Suc.prems have "(write_int_be [] v @ rest) ! k = ucast (take_bit 8 (drop_bit (8 * ?m) v))"
    by (simp add: nth_append nth_write_int_be)
  with Suc m show ?case
    by (simp add: byte_of_word_bits read_step_bits del: mult_Suc_right)
qed

theorem read_write_int_be:
  fixes v :: "'a::len word"
  assumes "8 dvd LENGTH('a)"
  shows "read_int_be (write_int_be [] v @ rest) = v"
  unfolding read_int_be_def using read_loop_invariant [OF le_refl assms] by simp

section \<open>Lemmas: the fixed-width helpers are instances of the generic loops\<close>

lemma u16_bytes_eq: "u16_bytes v = write_int_be [] v"
  by (simp add: u16_bytes_def write_int_be_def upt_rec numeral_2_eq_2)

lemma upt_4: "[0..<4] = [0, 1, 2, 3 :: nat]"
  by (simp add: upt_rec)

lemma u32_bytes_eq: "u32_bytes v = write_int_be [] v"
  by (simp add: u32_bytes_def write_int_be_def upt_4)

lemma read_u16_be_eq: "read_u16_be data = read_int_be data"
  by (simp add: read_u16_be_def read_int_be_def upt_rec numeral_2_eq_2)

lemma push_bit_8_or: "push_bit 8 (a OR b) = (push_bit 8 a OR push_bit 8 b :: 'a::len word)"
  by (rule bit_word_eqI) (auto simp: bit_simps)

lemma read_u32_be_eq: "read_u32_be data = read_int_be data"
  by (simp add: read_u32_be_def read_int_be_def upt_4 push_bit_8_or or.assoc push_bit_push_bit)

lemma read_u16_of_bytes [simp]: "read_u16_be (u16_bytes v @ rest) = v"
  by (simp add: read_u16_be_eq u16_bytes_eq read_write_int_be)

lemma read_u32_of_bytes [simp]: "read_u32_be (u32_bytes v @ rest) = v"
  by (simp add: read_u32_be_eq u32_bytes_eq read_write_int_be)

text \<open>Patching replaces exactly the operand bytes and leaves the rest of the code in place.\<close>

lemma patch_u16_be_decomp:
  assumes "dest + 2 \<le> length code"
  shows "patch_u16_be code dest v = take dest code @ u16_bytes v @ drop (dest + 2) code"
proof (rule nth_equalityI)
  show "length (patch_u16_be code dest v) = length (take dest code @ u16_bytes v @ drop (dest + 2) code)"
    using assms by simp
next
  fix i assume "i < length (patch_u16_be code dest v)"
  then consider "i < dest" | "i = dest" | "i = dest + 1"
    | j where "i = dest + 2 + j" "i < length code"
    by (metis add.commute le_Suc_ex less_Suc_eq not_less numeral_2_eq_2 Suc_eq_plus1 add_2_eq_Suc'
        length_patch_u16_be)
  then show "patch_u16_be code dest v ! i =
      (take dest code @ u16_bytes v @ drop (dest + 2) code) ! i"
    using assms
    by cases (auto simp: patch_u16_be_def Let_def nth_append nth_list_update)
qed

lemma patch_u32_be_decomp:
  assumes "dest + 4 \<le> length code"
  shows "patch_u32_be code dest v = take dest code @ u32_bytes v @ drop (dest + 4) code"
proof (rule nth_equalityI)
  show "length (patch_u32_be code dest v) = length (take dest code @ u32_bytes v @ drop (dest + 4) code)"
    using assms by simp
next
  fix i assume "i < length (patch_u32_be code dest v)"
  then consider "i < dest" | "i = dest" | "i = dest + 1" | "i = dest + 2" | "i = dest + 3"
    | "dest + 4 \<le> i" "i < length code"
    by force
  then show "patch_u32_be code dest v ! i =
      (take dest code @ u32_bytes v @ drop (dest + 4) code) ! i"
    using assms
    by cases (auto simp: patch_u32_be_def Let_def nth_append nth_list_update)
qed

lemma read_patch_u32_be [simp]:
  assumes "dest + 4 \<le> length code"
  shows "read_u32_be (drop dest (patch_u32_be code dest v)) = v"
  using assms by (simp add: patch_u32_be_decomp)

lemma read_patch_u16_be [simp]:
  assumes "dest + 2 \<le> length code"
  shows "read_u16_be (drop dest (patch_u16_be code dest v)) = v"
  using assms by (simp add: patch_u16_be_decomp)

lemma nth_patch_u32_be:
  assumes "dest + 4 \<le> length code" and "i < dest \<or> dest + 4 \<le> i"
  shows "patch_u32_be code dest v ! i = code ! i"
  using assms by (auto simp: patch_u32_be_def Let_def nth_list_update)

lemma nth_patch_u16_be:
  assumes "dest + 2 \<le> length code" and "i < dest \<or> dest + 2 \<le> i"
  shows "patch_u16_be code dest v ! i = code ! i"
  using assms by (auto simp: patch_u16_be_def Let_def nth_list_update)

lemma read_u32_be_cong:
  assumes "\<And>i. i < 4 \<Longrightarrow> xs ! i = ys ! i"
  shows "read_u32_be xs = read_u32_be ys"
  using assms by (simp add: read_u32_be_def)

lemma read_u16_be_cong:
  assumes "\<And>i. i < 2 \<Longrightarrow> xs ! i = ys ! i"
  shows "read_u16_be xs = read_u16_be ys"
  using assms by (simp add: read_u16_be_def)

section \<open>Lemmas: little-endian round trip\<close>

lemma write_step_bits_le:
  "take_bit (8 * k) v OR push_bit (8 * k) (take_bit 8 (drop_bit (8 * k) v)) =
     (take_bit (8 * Suc k) v :: 'a::len word)"
  by (rule bit_word_eqI) (auto simp: bit_simps)

lemma read_loop_invariant_le:
  fixes v :: "'a::len word"
  assumes "k \<le> LENGTH('a) div 8"
  shows "fold (\<lambda>i value. value OR (push_bit (8 * i) (ucast ((write_int_le [] v @ rest) ! i))))
           [0..<k] 0 = take_bit (8 * k) v"
  using assms
proof (induction k)
  case 0
  then show ?case by simp
next
  case (Suc k)
  then have "(write_int_le [] v @ rest) ! k = ucast (take_bit 8 (drop_bit (8 * k) v))"
    by (simp add: write_int_le_def nth_append and_0xFF)
  with Suc show ?case
    by (simp add: byte_of_word_bits write_step_bits_le del: mult_Suc_right)
qed

lemma read_write_int_le:
  fixes v :: "'a::len word"
  assumes "8 dvd LENGTH('a)"
  shows "read_int_le (write_int_le [] v @ rest) = v"
proof -
  have "8 * (LENGTH('a) div 8) = LENGTH('a)" using assms by simp
  then show ?thesis
    unfolding read_int_le_def using read_loop_invariant_le [OF le_refl, of v rest] by simp
qed

lemma read_write_u32_le: "read_u32_le (write_u32_le [] v) = v"
  using read_write_int_le [of v "[]"] by (simp add: read_u32_le_def write_u32_le_def)

end
