(* ===== verification/Opcode.thy ===== *)
theory Opcode
  imports Byte_Utils
begin

text \<open>
  The opcode enumeration and its metadata (\<^verbatim>\<open>core/runtime/compiler/opcode.hpp\<close>,
  \<^verbatim>\<open>opcode_metadata.hpp\<close>).  \<^verbatim>\<open>enum class Op : std::uint8_t\<close> is a byte with named
  values, and \<^verbatim>\<open>static_cast<Op>(byte)\<close> is the identity on bytes, valid or not; so an
  opcode is a byte here too and the enumerators are abbreviations for their values, in the order of the
  enum.  The lemmas reduce the table lookup to one indexed access and state, for every byte, what the
  projections of the table return.
\<close>

unbundle bit_operations_syntax

section \<open>The enumeration\<close>

type_synonym op = byte

abbreviation Op_Constant :: op where "Op_Constant \<equiv> 0"
abbreviation Op_ConstantLong :: op where "Op_ConstantLong \<equiv> 1"
abbreviation Op_Pop :: op where "Op_Pop \<equiv> 2"
abbreviation Op_Dup :: op where "Op_Dup \<equiv> 3"
abbreviation Op_Dup2 :: op where "Op_Dup2 \<equiv> 4"
abbreviation Op_Swap :: op where "Op_Swap \<equiv> 5"
abbreviation Op_GetLocal :: op where "Op_GetLocal \<equiv> 6"
abbreviation Op_SetLocal :: op where "Op_SetLocal \<equiv> 7"
abbreviation Op_GetUpvalue :: op where "Op_GetUpvalue \<equiv> 8"
abbreviation Op_SetUpvalue :: op where "Op_SetUpvalue \<equiv> 9"
abbreviation Op_GetGlobal :: op where "Op_GetGlobal \<equiv> 10"
abbreviation Op_SetGlobal :: op where "Op_SetGlobal \<equiv> 11"
abbreviation Op_None :: op where "Op_None \<equiv> 12"
abbreviation Op_True :: op where "Op_True \<equiv> 13"
abbreviation Op_False :: op where "Op_False \<equiv> 14"
abbreviation Op_Zero :: op where "Op_Zero \<equiv> 15"
abbreviation Op_One :: op where "Op_One \<equiv> 16"
abbreviation Op_Add :: op where "Op_Add \<equiv> 17"
abbreviation Op_Subtract :: op where "Op_Subtract \<equiv> 18"
abbreviation Op_Multiply :: op where "Op_Multiply \<equiv> 19"
abbreviation Op_Divide :: op where "Op_Divide \<equiv> 20"
abbreviation Op_IntDivide :: op where "Op_IntDivide \<equiv> 21"
abbreviation Op_Modulo :: op where "Op_Modulo \<equiv> 22"
abbreviation Op_Negate :: op where "Op_Negate \<equiv> 23"
abbreviation Op_Increment :: op where "Op_Increment \<equiv> 24"
abbreviation Op_Decrement :: op where "Op_Decrement \<equiv> 25"
abbreviation Op_Equal :: op where "Op_Equal \<equiv> 26"
abbreviation Op_NotEqual :: op where "Op_NotEqual \<equiv> 27"
abbreviation Op_Less :: op where "Op_Less \<equiv> 28"
abbreviation Op_LessEqual :: op where "Op_LessEqual \<equiv> 29"
abbreviation Op_Greater :: op where "Op_Greater \<equiv> 30"
abbreviation Op_GreaterEqual :: op where "Op_GreaterEqual \<equiv> 31"
abbreviation Op_Not :: op where "Op_Not \<equiv> 32"
abbreviation Op_And :: op where "Op_And \<equiv> 33"
abbreviation Op_Or :: op where "Op_Or \<equiv> 34"
abbreviation Op_Concatenate :: op where "Op_Concatenate \<equiv> 35"
abbreviation Op_Interpolate :: op where "Op_Interpolate \<equiv> 36"
abbreviation Op_MakeArray :: op where "Op_MakeArray \<equiv> 37"
abbreviation Op_MakeDict :: op where "Op_MakeDict \<equiv> 38"
abbreviation Op_MakeTuple :: op where "Op_MakeTuple \<equiv> 39"
abbreviation Op_MakeRange :: op where "Op_MakeRange \<equiv> 40"
abbreviation Op_MakeRangeInc :: op where "Op_MakeRangeInc \<equiv> 41"
abbreviation Op_IndexGet :: op where "Op_IndexGet \<equiv> 42"
abbreviation Op_IndexSet :: op where "Op_IndexSet \<equiv> 43"
abbreviation Op_IndexGetOpt :: op where "Op_IndexGetOpt \<equiv> 44"
abbreviation Op_MakeRecord :: op where "Op_MakeRecord \<equiv> 45"
abbreviation Op_GetField :: op where "Op_GetField \<equiv> 46"
abbreviation Op_SetField :: op where "Op_SetField \<equiv> 47"
abbreviation Op_GetFieldOpt :: op where "Op_GetFieldOpt \<equiv> 48"
abbreviation Op_RecordWith :: op where "Op_RecordWith \<equiv> 49"
abbreviation Op_MakeChoice :: op where "Op_MakeChoice \<equiv> 50"
abbreviation Op_MakeChoiceConstructor :: op where "Op_MakeChoiceConstructor \<equiv> 51"
abbreviation Op_MakeSuccess :: op where "Op_MakeSuccess \<equiv> 52"
abbreviation Op_MakeFailure :: op where "Op_MakeFailure \<equiv> 53"
abbreviation Op_MakeSome :: op where "Op_MakeSome \<equiv> 54"
abbreviation Op_Unwrap :: op where "Op_Unwrap \<equiv> 55"
abbreviation Op_ResultInner :: op where "Op_ResultInner \<equiv> 56"
abbreviation Op_IsSuccess :: op where "Op_IsSuccess \<equiv> 57"
abbreviation Op_IsSome :: op where "Op_IsSome \<equiv> 58"
abbreviation Op_EnsureSuccess :: op where "Op_EnsureSuccess \<equiv> 59"
abbreviation Op_Downcast :: op where "Op_Downcast \<equiv> 60"
abbreviation Op_TrustedDowncast :: op where "Op_TrustedDowncast \<equiv> 61"
abbreviation Op_IsType :: op where "Op_IsType \<equiv> 62"
abbreviation Op_Jump :: op where "Op_Jump \<equiv> 63"
abbreviation Op_JumpIfFalse :: op where "Op_JumpIfFalse \<equiv> 64"
abbreviation Op_JumpIfTrue :: op where "Op_JumpIfTrue \<equiv> 65"
abbreviation Op_Loop :: op where "Op_Loop \<equiv> 66"
abbreviation Op_NullCoalesce :: op where "Op_NullCoalesce \<equiv> 67"
abbreviation Op_Call :: op where "Op_Call \<equiv> 68"
abbreviation Op_CallNamed :: op where "Op_CallNamed \<equiv> 69"
abbreviation Op_TailCall :: op where "Op_TailCall \<equiv> 70"
abbreviation Op_Return :: op where "Op_Return \<equiv> 71"
abbreviation Op_MakeClosure :: op where "Op_MakeClosure \<equiv> 72"
abbreviation Op_Pipe :: op where "Op_Pipe \<equiv> 73"
abbreviation Op_ErrorPipe :: op where "Op_ErrorPipe \<equiv> 74"
abbreviation Op_TryCatch :: op where "Op_TryCatch \<equiv> 75"
abbreviation Op_TryEnd :: op where "Op_TryEnd \<equiv> 76"
abbreviation Op_Rethrow :: op where "Op_Rethrow \<equiv> 77"
abbreviation Op_MatchStart :: op where "Op_MatchStart \<equiv> 78"
abbreviation Op_MatchArm :: op where "Op_MatchArm \<equiv> 79"
abbreviation Op_MatchEnd :: op where "Op_MatchEnd \<equiv> 80"
abbreviation Op_Contains :: op where "Op_Contains \<equiv> 81"
abbreviation Op_Spawn :: op where "Op_Spawn \<equiv> 82"
abbreviation Op_Await :: op where "Op_Await \<equiv> 83"
abbreviation Op_TaskScopeBegin :: op where "Op_TaskScopeBegin \<equiv> 84"
abbreviation Op_TaskScopeEnd :: op where "Op_TaskScopeEnd \<equiv> 85"
abbreviation Op_ForIterInit :: op where "Op_ForIterInit \<equiv> 86"
abbreviation Op_ForIterStep :: op where "Op_ForIterStep \<equiv> 87"
abbreviation Op_ForIterStepKV :: op where "Op_ForIterStepKV \<equiv> 88"
abbreviation Op_Print :: op where "Op_Print \<equiv> 89"
abbreviation Op_Assert :: op where "Op_Assert \<equiv> 90"
abbreviation Op_TypeOf :: op where "Op_TypeOf \<equiv> 91"
abbreviation Op_IncrementLocal :: op where "Op_IncrementLocal \<equiv> 92"
abbreviation Op_DecrementLocal :: op where "Op_DecrementLocal \<equiv> 93"
abbreviation Op_SetLocalPop :: op where "Op_SetLocalPop \<equiv> 94"
abbreviation Op_GetLocalReturn :: op where "Op_GetLocalReturn \<equiv> 95"
abbreviation Op_IntToNumber :: op where "Op_IntToNumber \<equiv> 96"
abbreviation Op_WidenNumber :: op where "Op_WidenNumber \<equiv> 97"
abbreviation Op_Clone :: op where "Op_Clone \<equiv> 98"
abbreviation Op_UniqueLocal :: op where "Op_UniqueLocal \<equiv> 99"
abbreviation Op_UniqueUpvalue :: op where "Op_UniqueUpvalue \<equiv> 100"
abbreviation Op_UniqueGlobal :: op where "Op_UniqueGlobal \<equiv> 101"
abbreviation Op_GetFieldUnique :: op where "Op_GetFieldUnique \<equiv> 102"
abbreviation Op_IndexGetUnique :: op where "Op_IndexGetUnique \<equiv> 103"
abbreviation Op_EndModule :: op where "Op_EndModule \<equiv> 104"

datatype OperandCategory = Cat_None | Cat_Constant | Cat_Name | Cat_Upvalue | Cat_Local

datatype OperandLayout = Lay_Simple | Lay_U8 | Lay_U16 | Lay_U32Jump | Lay_U32Long | Lay_TwoU8
  | Lay_MakeClosure | Lay_MakeRecord | Lay_RecordWith

section \<open>Semantic-group flags\<close>

abbreviation k_arithmetic :: u16 where "k_arithmetic \<equiv> 1"
abbreviation k_comparison :: u16 where "k_comparison \<equiv> 2"
abbreviation k_stack_op :: u16 where "k_stack_op \<equiv> 4"
abbreviation k_load_store :: u16 where "k_load_store \<equiv> 8"
abbreviation k_control_flow :: u16 where "k_control_flow \<equiv> 16"
abbreviation k_terminator :: u16 where "k_terminator \<equiv> 32"
abbreviation k_forward_jump :: u16 where "k_forward_jump \<equiv> 64"
abbreviation k_jump :: u16 where "k_jump \<equiv> 128"

section \<open>The opcode table\<close>

record opcode_info =
  oi_code :: op
  oi_name :: string
  oi_base_size :: int
  oi_operand_category :: OperandCategory
  oi_operand_layout :: OperandLayout
  oi_flags :: u16
  oi_has_fixed_stack_effect :: bool
  oi_stack_effect :: int

definition opcode_enum_count :: nat where
  "opcode_enum_count = unat Op_EndModule + 1"

definition k_opcode_reserved_slots :: nat where
  "k_opcode_reserved_slots = 3"

definition opcode_count :: nat where
  "opcode_count = opcode_enum_count + k_opcode_reserved_slots"

definition k_dispatch_table_size :: nat where
  "k_dispatch_table_size = 256"

text \<open>A row of the table literal, in the column order of the source.\<close>

definition row ::
    "op \<Rightarrow> string \<Rightarrow> int \<Rightarrow> OperandCategory \<Rightarrow> OperandLayout \<Rightarrow> u16 \<Rightarrow> bool \<Rightarrow> int \<Rightarrow> opcode_info" where
  "row c n sz cat lay fl fixed eff =
     \<lparr>oi_code = c, oi_name = n, oi_base_size = sz, oi_operand_category = cat,
      oi_operand_layout = lay, oi_flags = fl, oi_has_fixed_stack_effect = fixed,
      oi_stack_effect = eff\<rparr>"

definition opcode_rows :: "opcode_info list" where
  "opcode_rows = [
     row Op_Constant ''Constant'' 3 Cat_Constant Lay_U16 k_stack_op True 1,
     row Op_ConstantLong ''ConstantLong'' 5 Cat_Constant Lay_U32Long k_stack_op True 1,
     row Op_Pop ''Pop'' 1 Cat_None Lay_Simple k_stack_op True (-1),
     row Op_Dup ''Dup'' 1 Cat_None Lay_Simple k_stack_op True 1,
     row Op_Dup2 ''Dup2'' 1 Cat_None Lay_Simple k_stack_op True 2,
     row Op_Swap ''Swap'' 1 Cat_None Lay_Simple k_stack_op False 0,
     row Op_GetLocal ''GetLocal'' 3 Cat_Local Lay_U16 k_load_store True 1,
     row Op_SetLocal ''SetLocal'' 3 Cat_Local Lay_U16 k_load_store True 0,
     row Op_GetUpvalue ''GetUpvalue'' 3 Cat_Upvalue Lay_U16 k_load_store True 1,
     row Op_SetUpvalue ''SetUpvalue'' 3 Cat_Upvalue Lay_U16 k_load_store True 0,
     row Op_GetGlobal ''GetGlobal'' 3 Cat_Name Lay_U16 k_load_store True 1,
     row Op_SetGlobal ''SetGlobal'' 3 Cat_Name Lay_U16 k_load_store True 0,
     row Op_None ''None'' 1 Cat_None Lay_Simple k_stack_op True 1,
     row Op_True ''True'' 1 Cat_None Lay_Simple k_stack_op True 1,
     row Op_False ''False'' 1 Cat_None Lay_Simple k_stack_op True 1,
     row Op_Zero ''Zero'' 1 Cat_None Lay_Simple k_stack_op True 1,
     row Op_One ''One'' 1 Cat_None Lay_Simple k_stack_op True 1,
     row Op_Add ''Add'' 1 Cat_None Lay_Simple k_arithmetic True (-1),
     row Op_Subtract ''Subtract'' 1 Cat_None Lay_Simple k_arithmetic True (-1),
     row Op_Multiply ''Multiply'' 1 Cat_None Lay_Simple k_arithmetic True (-1),
     row Op_Divide ''Divide'' 1 Cat_None Lay_Simple k_arithmetic True (-1),
     row Op_IntDivide ''IntDivide'' 1 Cat_None Lay_Simple k_arithmetic True (-1),
     row Op_Modulo ''Modulo'' 1 Cat_None Lay_Simple k_arithmetic True (-1),
     row Op_Negate ''Negate'' 1 Cat_None Lay_Simple k_arithmetic False 0,
     row Op_Increment ''Increment'' 1 Cat_None Lay_Simple k_arithmetic False 0,
     row Op_Decrement ''Decrement'' 1 Cat_None Lay_Simple k_arithmetic False 0,
     row Op_Equal ''Equal'' 1 Cat_None Lay_Simple k_comparison True (-1),
     row Op_NotEqual ''NotEqual'' 1 Cat_None Lay_Simple k_comparison True (-1),
     row Op_Less ''Less'' 1 Cat_None Lay_Simple k_comparison True (-1),
     row Op_LessEqual ''LessEqual'' 1 Cat_None Lay_Simple k_comparison True (-1),
     row Op_Greater ''Greater'' 1 Cat_None Lay_Simple k_comparison True (-1),
     row Op_GreaterEqual ''GreaterEqual'' 1 Cat_None Lay_Simple k_comparison True (-1),
     row Op_Not ''Not'' 1 Cat_None Lay_Simple 0 False 0,
     row Op_And ''And'' 1 Cat_None Lay_Simple 0 False 0,
     row Op_Or ''Or'' 1 Cat_None Lay_Simple 0 False 0,
     row Op_Concatenate ''Concatenate'' 1 Cat_None Lay_Simple 0 True (-1),
     row Op_Interpolate ''Interpolate'' 2 Cat_None Lay_U8 0 False 0,
     row Op_MakeArray ''MakeArray'' 3 Cat_None Lay_U16 0 False 0,
     row Op_MakeDict ''MakeDict'' 3 Cat_None Lay_U16 0 False 0,
     row Op_MakeTuple ''MakeTuple'' 3 Cat_None Lay_U16 0 False 0,
     row Op_MakeRange ''MakeRange'' 1 Cat_None Lay_Simple 0 True (-1),
     row Op_MakeRangeInc ''MakeRangeInc'' 1 Cat_None Lay_Simple 0 True (-1),
     row Op_IndexGet ''IndexGet'' 1 Cat_None Lay_Simple 0 True (-1),
     row Op_IndexSet ''IndexSet'' 1 Cat_None Lay_Simple 0 True (-2),
     row Op_IndexGetOpt ''IndexGetOpt'' 1 Cat_None Lay_Simple 0 False 0,
     row Op_MakeRecord ''MakeRecord'' 4 Cat_None Lay_MakeRecord 0 False 0,
     row Op_GetField ''GetField'' 3 Cat_Name Lay_U16 0 False 0,
     row Op_SetField ''SetField'' 3 Cat_Name Lay_U16 0 False 0,
     row Op_GetFieldOpt ''GetFieldOpt'' 3 Cat_Name Lay_U16 0 False 0,
     row Op_RecordWith ''RecordWith'' 2 Cat_None Lay_RecordWith 0 False 0,
     row Op_MakeChoice ''MakeChoice'' 1 Cat_None Lay_Simple 0 True (-1),
     row Op_MakeChoiceConstructor ''MakeChoiceConstructor'' 2 Cat_None Lay_U8 0 True (-1),
     row Op_MakeSuccess ''MakeSuccess'' 1 Cat_None Lay_Simple 0 False 0,
     row Op_MakeFailure ''MakeFailure'' 1 Cat_None Lay_Simple 0 False 0,
     row Op_MakeSome ''MakeSome'' 1 Cat_None Lay_Simple 0 False 0,
     row Op_Unwrap ''Unwrap'' 1 Cat_None Lay_Simple 0 False 0,
     row Op_ResultInner ''ResultInner'' 1 Cat_None Lay_Simple 0 False 0,
     row Op_IsSuccess ''IsSuccess'' 1 Cat_None Lay_Simple 0 False 0,
     row Op_IsSome ''IsSome'' 1 Cat_None Lay_Simple 0 False 0,
     row Op_EnsureSuccess ''EnsureSuccess'' 1 Cat_None Lay_Simple 0 False 0,
     row Op_Downcast ''Downcast'' 3 Cat_Name Lay_U16 0 False 0,
     row Op_TrustedDowncast ''TrustedDowncast'' 3 Cat_Name Lay_U16 0 False 0,
     row Op_IsType ''IsType'' 3 Cat_Name Lay_U16 0 False 0,
     row Op_Jump ''Jump'' 5 Cat_None Lay_U32Jump (k_control_flow OR k_terminator OR k_forward_jump OR k_jump) False 0,
     row Op_JumpIfFalse ''JumpIfFalse'' 5 Cat_None Lay_U32Jump (k_control_flow OR k_forward_jump OR k_jump) False 0,
     row Op_JumpIfTrue ''JumpIfTrue'' 5 Cat_None Lay_U32Jump (k_control_flow OR k_forward_jump OR k_jump) False 0,
     row Op_Loop ''Loop'' 5 Cat_None Lay_U32Jump (k_control_flow OR k_jump) False 0,
     row Op_NullCoalesce ''NullCoalesce'' 5 Cat_None Lay_U32Jump (k_control_flow OR k_forward_jump OR k_jump) False 0,
     row Op_Call ''Call'' 2 Cat_None Lay_U8 k_control_flow False 0,
     row Op_CallNamed ''CallNamed'' 3 Cat_None Lay_TwoU8 k_control_flow False 0,
     row Op_TailCall ''TailCall'' 2 Cat_None Lay_U8 k_control_flow False 0,
     row Op_Return ''Return'' 1 Cat_None Lay_Simple (k_control_flow OR k_terminator) True 0,
     row Op_MakeClosure ''MakeClosure'' 4 Cat_None Lay_MakeClosure 0 False 0,
     row Op_Pipe ''Pipe'' 1 Cat_None Lay_Simple k_control_flow False 0,
     row Op_ErrorPipe ''ErrorPipe'' 1 Cat_None Lay_Simple k_control_flow False 0,
     row Op_TryCatch ''TryCatch'' 5 Cat_None Lay_U32Jump (k_control_flow OR k_forward_jump OR k_jump) False 0,
     row Op_TryEnd ''TryEnd'' 1 Cat_None Lay_Simple k_control_flow False 0,
     row Op_Rethrow ''Rethrow'' 1 Cat_None Lay_Simple k_control_flow False 0,
     row Op_MatchStart ''MatchStart'' 1 Cat_None Lay_Simple k_control_flow False 0,
     row Op_MatchArm ''MatchArm'' 1 Cat_None Lay_Simple k_control_flow False 0,
     row Op_MatchEnd ''MatchEnd'' 1 Cat_None Lay_Simple k_control_flow False 0,
     row Op_Contains ''Contains'' 1 Cat_None Lay_Simple 0 True (-1),
     row Op_Spawn ''Spawn'' 2 Cat_None Lay_U8 0 False 0,
     row Op_Await ''Await'' 1 Cat_None Lay_Simple 0 False 0,
     row Op_TaskScopeBegin ''TaskScopeBegin'' 1 Cat_None Lay_Simple 0 False 0,
     row Op_TaskScopeEnd ''TaskScopeEnd'' 1 Cat_None Lay_Simple 0 False 0,
     row Op_ForIterInit ''ForIterInit'' 1 Cat_None Lay_Simple 0 False 0,
     row Op_ForIterStep ''ForIterStep'' 1 Cat_None Lay_Simple 0 False 0,
     row Op_ForIterStepKV ''ForIterStepKV'' 1 Cat_None Lay_Simple 0 False 0,
     row Op_Print ''Print'' 2 Cat_None Lay_U8 0 False 0,
     row Op_Assert ''Assert'' 2 Cat_None Lay_U8 0 False 0,
     row Op_TypeOf ''TypeOf'' 1 Cat_None Lay_Simple 0 False 0,
     row Op_IncrementLocal ''IncrementLocal'' 3 Cat_Local Lay_U16 0 False 0,
     row Op_DecrementLocal ''DecrementLocal'' 3 Cat_Local Lay_U16 0 False 0,
     row Op_SetLocalPop ''SetLocalPop'' 3 Cat_Local Lay_U16 0 True (-1),
     row Op_GetLocalReturn ''GetLocalReturn'' 3 Cat_Local Lay_U16 k_terminator True 0,
     row Op_IntToNumber ''IntToNumber'' 1 Cat_None Lay_Simple 0 False 0,
     row Op_WidenNumber ''WidenNumber'' 3 Cat_Name Lay_U16 0 False 0,
     row Op_Clone ''Clone'' 1 Cat_None Lay_Simple 0 False 0,
     row Op_UniqueLocal ''UniqueLocal'' 3 Cat_Local Lay_U16 k_load_store True 0,
     row Op_UniqueUpvalue ''UniqueUpvalue'' 3 Cat_Upvalue Lay_U16 k_load_store True 0,
     row Op_UniqueGlobal ''UniqueGlobal'' 3 Cat_Name Lay_U16 k_load_store True 0,
     row Op_GetFieldUnique ''GetFieldUnique'' 3 Cat_Name Lay_U16 0 False 0,
     row Op_IndexGetUnique ''IndexGetUnique'' 1 Cat_None Lay_Simple 0 True (-1),
     row Op_EndModule ''EndModule'' 1 Cat_None Lay_Simple 0 False 0]"

text \<open>The reserved slots at the end of the \<^verbatim>\<open>std::array\<close> are value-initialised.\<close>

definition reserved_row :: opcode_info where
  "reserved_row = row 0 [] 0 Cat_None Lay_Simple 0 False 0"

definition opcode_table :: "opcode_info list" where
  "opcode_table = opcode_rows @ replicate k_opcode_reserved_slots reserved_row"

section \<open>Table lookups\<close>

definition find_opcode_info :: "op \<Rightarrow> opcode_info option" where
  "find_opcode_info op =
     (let index = unat op
      in if index < length opcode_table \<and> oi_code (opcode_table ! index) = op
         then Some (opcode_table ! index)
         else find (\<lambda>entry. oi_code entry = op) opcode_table)"

definition opcode_name :: "op \<Rightarrow> string" where
  "opcode_name op = (case find_opcode_info op of Some info \<Rightarrow> oi_name info | None \<Rightarrow> ''Unknown'')"

definition opcode_base_size :: "op \<Rightarrow> nat" where
  "opcode_base_size op = (case find_opcode_info op of Some info \<Rightarrow> nat (oi_base_size info) | None \<Rightarrow> 1)"

definition opcode_operand_category :: "op \<Rightarrow> OperandCategory" where
  "opcode_operand_category op =
     (case find_opcode_info op of Some info \<Rightarrow> oi_operand_category info | None \<Rightarrow> Cat_None)"

definition opcode_operand_layout :: "op \<Rightarrow> OperandLayout" where
  "opcode_operand_layout op =
     (case find_opcode_info op of Some info \<Rightarrow> oi_operand_layout info | None \<Rightarrow> Lay_Simple)"

definition opcode_flags :: "op \<Rightarrow> u16" where
  "opcode_flags op = (case find_opcode_info op of Some info \<Rightarrow> oi_flags info | None \<Rightarrow> 0)"

definition opcode_fixed_stack_effect :: "op \<Rightarrow> int option" where
  "opcode_fixed_stack_effect op =
     (case find_opcode_info op of
        Some info \<Rightarrow> (if oi_has_fixed_stack_effect info then Some (oi_stack_effect info) else None)
      | None \<Rightarrow> None)"

section \<open>Metadata projections\<close>

definition operand_category :: "op \<Rightarrow> OperandCategory" where
  "operand_category op = opcode_operand_category op"

definition instruction_size :: "byte list \<Rightarrow> nat \<Rightarrow> nat" where
  "instruction_size code offset =
     (let op = code ! offset
      in if op = Op_MakeRecord then
           (if length code \<le> offset + 3 then 4 else 4 + unat (code ! (offset + 3)) * 2)
         else if op = Op_RecordWith then
           (if length code \<le> offset + 1 then 2 else 2 + unat (code ! (offset + 1)) * 2)
         else opcode_base_size op)"

definition has_operand :: "op \<Rightarrow> bool" where
  "has_operand op \<longleftrightarrow> 1 < opcode_base_size op"

definition is_forward_jump :: "op \<Rightarrow> bool" where
  "is_forward_jump op \<longleftrightarrow> opcode_flags op AND k_forward_jump \<noteq> 0"

definition is_jump :: "op \<Rightarrow> bool" where
  "is_jump op \<longleftrightarrow> opcode_flags op AND k_jump \<noteq> 0"

definition is_terminator :: "op \<Rightarrow> bool" where
  "is_terminator op \<longleftrightarrow> opcode_flags op AND k_terminator \<noteq> 0"

definition is_comparison :: "op \<Rightarrow> bool" where
  "is_comparison op \<longleftrightarrow> opcode_flags op AND k_comparison \<noteq> 0"

definition is_arithmetic :: "op \<Rightarrow> bool" where
  "is_arithmetic op \<longleftrightarrow> opcode_flags op AND k_arithmetic \<noteq> 0"

definition is_control_flow :: "op \<Rightarrow> bool" where
  "is_control_flow op \<longleftrightarrow> opcode_flags op AND k_control_flow \<noteq> 0"

definition is_stack_op :: "op \<Rightarrow> bool" where
  "is_stack_op op \<longleftrightarrow> opcode_flags op AND k_stack_op \<noteq> 0"

definition is_load_store :: "op \<Rightarrow> bool" where
  "is_load_store op \<longleftrightarrow> opcode_flags op AND k_load_store \<noteq> 0"

definition fixed_stack_effect :: "op \<Rightarrow> int option" where
  "fixed_stack_effect op = opcode_fixed_stack_effect op"

section \<open>Lemmas: the table is indexed by the enumeration\<close>

lemma length_opcode_rows [simp]: "length opcode_rows = 105"
  by (simp add: opcode_rows_def)

lemma length_opcode_table [simp]: "length opcode_table = 108"
  by (simp add: opcode_table_def k_opcode_reserved_slots_def)

lemma opcode_rows_codes: "map oi_code opcode_rows = map word_of_nat [0..<105]"
  unfolding opcode_rows_def row_def by (simp add: upt_rec)

lemma oi_code_nth:
  assumes "i < 105"
  shows "oi_code (opcode_rows ! i) = word_of_nat i"
proof -
  have "oi_code (opcode_rows ! i) = map oi_code opcode_rows ! i" using assms by simp
  also have "\<dots> = word_of_nat i" using assms by (simp add: opcode_rows_codes del: map_map)
  finally show ?thesis .
qed

lemma find_opcode_info_eq:
  "find_opcode_info op = (if unat op < 105 then Some (opcode_rows ! unat op) else None)"
proof (cases "unat op < 105")
  case True
  then show ?thesis
    by (simp add: find_opcode_info_def opcode_table_def nth_append oi_code_nth)
next
  case False
  have "oi_code r \<noteq> op" if "r \<in> set opcode_table" for r
  proof -
    from that consider i where "i < 105" "r = opcode_rows ! i" | "r = reserved_row"
      by (auto simp: opcode_table_def in_set_conv_nth k_opcode_reserved_slots_def)
    then show ?thesis
      using False by cases (auto simp: oi_code_nth unat_of_nat reserved_row_def row_def)
  qed
  then have "find (\<lambda>entry. oi_code entry = op) opcode_table = None"
    by (simp add: find_None_iff)
  moreover have "oi_code (opcode_table ! unat op) \<noteq> op" if "unat op < length opcode_table"
    using \<open>\<And>r. r \<in> set opcode_table \<Longrightarrow> oi_code r \<noteq> op\<close> that nth_mem by blast
  ultimately show ?thesis using False by (auto simp: find_opcode_info_def Let_def)
qed

text \<open>A property of every row transfers to every byte through the lookup.\<close>

lemma opcode_row_cases:
  assumes "list_all P opcode_rows"
  obtains "find_opcode_info op = None" "105 \<le> unat op"
  | r where "find_opcode_info op = Some r" "P r" "oi_code r = op" "unat op < 105"
  using assms
  by (cases "unat op < 105")
    (auto simp: find_opcode_info_eq list_all_nth_iff oi_code_nth)

section \<open>Lemmas: the projections, byte by byte\<close>

lemma rows_base_size_pos: "list_all (\<lambda>r. 1 \<le> oi_base_size r) opcode_rows"
  by (simp add: opcode_rows_def row_def)

lemma opcode_base_size_pos [simp]: "0 < opcode_base_size op"
  by (rule opcode_row_cases [OF rows_base_size_pos, of op]) (auto simp: opcode_base_size_def)

lemma instruction_size_pos [simp]: "0 < instruction_size code offset"
  by (simp add: instruction_size_def Let_def)

lemma instruction_size_not_0 [simp]: "instruction_size code offset \<noteq> 0"
  using instruction_size_pos [of code offset] by simp

lemma rows_forward_jump:
  "list_all (\<lambda>r. (oi_flags r AND k_forward_jump \<noteq> 0) =
     (oi_code r \<in> set [Op_Jump, Op_JumpIfFalse, Op_JumpIfTrue, Op_NullCoalesce, Op_TryCatch])) opcode_rows"
  by (simp add: opcode_rows_def row_def)

lemma is_forward_jump_iff:
  "is_forward_jump op \<longleftrightarrow>
     op \<in> {Op_Jump, Op_JumpIfFalse, Op_JumpIfTrue, Op_NullCoalesce, Op_TryCatch}"
  by (rule opcode_row_cases [OF rows_forward_jump, of op])
    (auto simp: is_forward_jump_def opcode_flags_def)

lemma rows_terminator:
  "list_all (\<lambda>r. (oi_flags r AND k_terminator \<noteq> 0) =
     (oi_code r \<in> set [Op_Jump, Op_Return, Op_GetLocalReturn])) opcode_rows"
  by (simp add: opcode_rows_def row_def)

lemma is_terminator_iff: "is_terminator op \<longleftrightarrow> op \<in> {Op_Jump, Op_Return, Op_GetLocalReturn}"
  by (rule opcode_row_cases [OF rows_terminator, of op])
    (auto simp: is_terminator_def opcode_flags_def)

lemma rows_comparison:
  "list_all (\<lambda>r. (oi_flags r AND k_comparison \<noteq> 0) =
     (oi_code r \<in> set [Op_Equal, Op_NotEqual, Op_Less, Op_LessEqual, Op_Greater, Op_GreaterEqual])) opcode_rows"
  by (simp add: opcode_rows_def row_def)

lemma is_comparison_iff:
  "is_comparison op \<longleftrightarrow>
     op \<in> {Op_Equal, Op_NotEqual, Op_Less, Op_LessEqual, Op_Greater, Op_GreaterEqual}"
  by (rule opcode_row_cases [OF rows_comparison, of op])
    (auto simp: is_comparison_def opcode_flags_def)

lemma rows_jump:
  "list_all (\<lambda>r. (oi_flags r AND k_jump \<noteq> 0) =
     ((oi_flags r AND k_forward_jump \<noteq> 0) \<or> oi_code r = Op_Loop)) opcode_rows"
  by (simp add: opcode_rows_def row_def)

lemma is_jump_iff: "is_jump op \<longleftrightarrow> is_forward_jump op \<or> op = Op_Loop"
  by (rule opcode_row_cases [OF rows_jump, of op])
    (auto simp: is_jump_def is_forward_jump_def opcode_flags_def)

text \<open>Operand bytes implied by a layout: what the disassembler and the VM decode.\<close>

fun layout_operand_size :: "OperandLayout \<Rightarrow> int" where
  "layout_operand_size Lay_Simple = 0"
| "layout_operand_size Lay_U8 = 1"
| "layout_operand_size Lay_U16 = 2"
| "layout_operand_size Lay_U32Jump = 4"
| "layout_operand_size Lay_U32Long = 4"
| "layout_operand_size Lay_TwoU8 = 2"
| "layout_operand_size Lay_MakeClosure = 3"
| "layout_operand_size Lay_MakeRecord = 3"
| "layout_operand_size Lay_RecordWith = 1"

lemma rows_layout: "list_all (\<lambda>r. oi_base_size r = 1 + layout_operand_size (oi_operand_layout r)) opcode_rows"
  by (simp add: opcode_rows_def row_def)

lemma rows_jump_layout:
  "list_all (\<lambda>r. (oi_operand_layout r = Lay_U32Jump) = (oi_flags r AND k_jump \<noteq> 0)) opcode_rows"
  by (simp add: opcode_rows_def row_def)

lemma rows_category_layout:
  "list_all (\<lambda>r. oi_operand_category r \<noteq> Cat_None \<longrightarrow>
     oi_operand_layout r = (if oi_code r = Op_ConstantLong then Lay_U32Long else Lay_U16)) opcode_rows"
  by (simp add: opcode_rows_def row_def)

lemma layout_operand_size_nonneg [simp]: "0 \<le> layout_operand_size lay"
  by (cases lay) simp_all

lemma opcode_base_size_layout:
  "opcode_base_size op = nat (1 + layout_operand_size (opcode_operand_layout op))"
  by (rule opcode_row_cases [OF rows_layout, of op])
    (auto simp: opcode_base_size_def opcode_operand_layout_def)

lemma jump_base_size:
  assumes "is_jump op"
  shows "opcode_base_size op = 5"
proof -
  have "opcode_operand_layout op = Lay_U32Jump"
    by (rule opcode_row_cases [OF rows_jump_layout, of op])
      (use assms in \<open>auto simp: is_jump_def opcode_flags_def opcode_operand_layout_def\<close>)
  then show ?thesis by (simp add: opcode_base_size_layout)
qed

lemma categorised_base_size:
  assumes "operand_category op \<noteq> Cat_None"
  shows "opcode_base_size op = (if op = Op_ConstantLong then 5 else 3)"
proof -
  have "opcode_operand_layout op = (if op = Op_ConstantLong then Lay_U32Long else Lay_U16)"
    by (rule opcode_row_cases [OF rows_category_layout, of op])
      (use assms in \<open>auto simp: operand_category_def opcode_operand_category_def
         opcode_operand_layout_def split: if_splits\<close>)
  then show ?thesis by (simp add: opcode_base_size_layout)
qed

lemma instruction_size_default:
  "code ! offset \<notin> {Op_MakeRecord, Op_RecordWith} \<Longrightarrow>
   instruction_size code offset = opcode_base_size (code ! offset)"
  by (simp add: instruction_size_def Let_def)

lemma opcode_base_size_variable [simp]:
  "opcode_base_size Op_MakeRecord = 4" "opcode_base_size Op_RecordWith = 2"
  by (simp_all add: opcode_base_size_def find_opcode_info_eq opcode_rows_def row_def)

lemma instruction_size_ge_base: "opcode_base_size (code ! offset) \<le> instruction_size code offset"
  by (simp add: instruction_size_def Let_def)

lemma instruction_size_jump:
  "is_jump (code ! offset) \<Longrightarrow> instruction_size code offset = 5"
  using jump_base_size [of "code ! offset"]
  by (auto simp: instruction_size_def Let_def)

end
