(* ===== verification/Intern_Table.thy ===== *)
theory Intern_Table
  imports Luma_Prelude
begin

text \<open>
  The contract shared by the tables that turn a key into a stable handle: the name table, the constant
  pool and the string interner.  Adding a key yields a handle that resolves to that key and keeps every
  earlier handle valid; a deduplicating table also returns the same handle for the same key.  The client
  lemmas, about whole sequences of additions, are proved once from these laws.
\<close>

locale intern_table =
  fixes add :: "'t \<Rightarrow> 'k \<Rightarrow> 't \<times> 'h option"
    and resolve :: "'t \<Rightarrow> 'h \<Rightarrow> 'k option"
    and inv :: "'t \<Rightarrow> bool"
  assumes add_inv: "inv t \<Longrightarrow> inv (fst (add t k))"
    and add_resolve: "inv t \<Longrightarrow> snd (add t k) = Some h \<Longrightarrow> resolve (fst (add t k)) h = Some k"
    and add_stable: "inv t \<Longrightarrow> resolve t h = Some k' \<Longrightarrow> resolve (fst (add t k)) h = Some k'"
begin

definition adds :: "'t \<Rightarrow> 'k list \<Rightarrow> 't" where
  "adds t ks = fold (\<lambda>k t. fst (add t k)) ks t"

lemma adds_Nil [simp]: "adds t [] = t"
  by (simp add: adds_def)

lemma adds_Cons [simp]: "adds t (k # ks) = adds (fst (add t k)) ks"
  by (simp add: adds_def)

lemma adds_append: "adds t (ks @ ks') = adds (adds t ks) ks'"
  by (simp add: adds_def)

lemma adds_inv: "inv t \<Longrightarrow> inv (adds t ks)"
  by (induction ks arbitrary: t) (auto intro: add_inv)

lemma adds_stable: "inv t \<Longrightarrow> resolve t h = Some k \<Longrightarrow> resolve (adds t ks) h = Some k"
  by (induction ks arbitrary: t) (auto intro: add_inv add_stable)

text \<open>A handle handed out in the middle of a sequence still resolves to its key at the end.\<close>

lemma handle_survives:
  assumes "inv t" and "snd (add (adds t ks) k) = Some h"
  shows "resolve (adds t (ks @ k # ks')) h = Some k"
proof -
  have "inv (adds t ks)" using assms(1) by (rule adds_inv)
  then have "resolve (fst (add (adds t ks) k)) h = Some k" and "inv (fst (add (adds t ks) k))"
    using assms(2) by (auto intro: add_resolve add_inv)
  then show ?thesis by (simp add: adds_append adds_stable)
qed

text \<open>Two keys never share a handle.\<close>

lemma handle_injective:
  assumes "inv t" and "snd (add (adds t ks) k) = Some h"
    and "snd (add (adds t (ks @ k # ks')) k') = Some h"
  shows "k = k'"
proof -
  let ?t = "adds t (ks @ k # ks')"
  have "inv ?t" using assms(1) by (rule adds_inv)
  then have "resolve (fst (add ?t k')) h = Some k'"
    using assms(3) by (rule add_resolve)
  moreover have "resolve (fst (add ?t k')) h = Some k"
    using handle_survives [OF assms(1,2)] \<open>inv ?t\<close> by (auto intro: add_stable)
  ultimately show ?thesis by simp
qed

end

locale dedup_table = intern_table +
  assumes add_present: "inv t \<Longrightarrow> resolve t h = Some k \<Longrightarrow> \<exists>h'. add t k = (t, Some h')"
    and handle_unique: "inv t \<Longrightarrow> resolve t h = Some k \<Longrightarrow> resolve t h' = Some k \<Longrightarrow> h = h'"
begin

text \<open>Re-adding a key changes nothing and returns the handle it already has.\<close>

lemma add_again:
  assumes "inv t" and "resolve t h = Some k"
  shows "add t k = (t, Some h)"
proof -
  obtain h' where h': "add t k = (t, Some h')" using add_present [OF assms] by blast
  then have "resolve t h' = Some k" using add_resolve [OF assms(1), of k h'] by simp
  then have "h' = h" using assms by (auto intro: handle_unique)
  with h' show ?thesis by simp
qed

lemma add_after_adds:
  assumes "inv t" and "snd (add (adds t ks) k) = Some h"
  shows "add (adds t (ks @ k # ks')) k = (adds t (ks @ k # ks'), Some h)"
  using handle_survives [OF assms] adds_inv [OF assms(1)] by (rule add_again [rotated])

end

end
