(* ===== verification/Chunk.thy ===== *)
theory Chunk
  imports Opcode Intern_Table
begin

text \<open>
  The bytecode container (\<^verbatim>\<open>chunk.hpp\<close>, \<^verbatim>\<open>constant_pool.hpp\<close>,
  \<^verbatim>\<open>name_table.hpp\<close>, \<^verbatim>\<open>source_map.hpp\<close>, \<^verbatim>\<open>string_interner.hpp\<close>,
  \<^verbatim>\<open>compiled_function.hpp\<close> under \<^verbatim>\<open>core/runtime/compiler\<close>): source locations and the
  sparse source map with its binary search, the interned name table, the deduplicating constant pool,
  the emit/patch operations of a chunk and the compiled function that wraps it.
\<close>

unbundle bit_operations_syntax

section \<open>Limits\<close>

definition k_max_locals :: u16 where "k_max_locals = 65535"
definition k_max_arguments :: nat where "k_max_arguments = 255"
definition k_max_constants :: nat where "k_max_constants = 65535"
definition k_max_upvalues :: nat where "k_max_upvalues = 255"
definition k_max_names :: nat where "k_max_names = 65535"
definition k_first_parameter_slot :: int where "k_first_parameter_slot = 1"
definition k_max_stack_depth :: int where "k_max_stack_depth = 65536"

definition k_u32_operand_size :: nat where "k_u32_operand_size = 4"
definition k_jump_instruction_size :: nat where "k_jump_instruction_size = 5"
definition k_constant_instruction_size :: nat where "k_constant_instruction_size = 3"
definition k_u8_instruction_size :: nat where "k_u8_instruction_size = 2"
definition k_make_closure_upvalue_offset :: nat where "k_make_closure_upvalue_offset = 3"

lemmas layout_defs = k_u32_operand_size_def k_jump_instruction_size_def
  k_constant_instruction_size_def k_u8_instruction_size_def k_make_closure_upvalue_offset_def

declare k_max_locals_def [luma_defs] k_max_arguments_def [luma_defs] k_max_constants_def [luma_defs]
  k_max_upvalues_def [luma_defs] k_max_names_def [luma_defs] k_first_parameter_slot_def [luma_defs]
  k_max_stack_depth_def [luma_defs] layout_defs [luma_defs]

section \<open>Source locations\<close>

record source_location =
  file_id :: int
  line :: int
  column :: int
  start_line :: int
  start_column :: int

definition default_location :: source_location where
  "default_location = \<lparr>file_id = 0, line = 1, column = 1, start_line = 0, start_column = 0\<rparr>"

definition has_start :: "source_location \<Rightarrow> bool" where
  "has_start loc \<longleftrightarrow> start_line loc > 0 \<and> start_column loc > 0"

definition loc_start :: "source_location \<Rightarrow> source_location" where
  "loc_start loc =
     (if \<not> has_start loc
      then default_location\<lparr>file_id := file_id loc, line := line loc, column := column loc\<rparr>
      else default_location\<lparr>file_id := file_id loc, line := start_line loc,
             column := start_column loc\<rparr>)"

definition is_valid :: "source_location \<Rightarrow> bool" where
  "is_valid loc \<longleftrightarrow> file_id loc \<noteq> 0 \<or> line loc \<noteq> 0"

text \<open>\<^verbatim>\<open>operator==\<close> and the order behind \<^verbatim>\<open>operator<=>\<close> ignore the start position.\<close>

definition loc_eq :: "source_location \<Rightarrow> source_location \<Rightarrow> bool" where
  "loc_eq a b \<longleftrightarrow> file_id a = file_id b \<and> line a = line b \<and> column a = column b"

definition loc_less :: "source_location \<Rightarrow> source_location \<Rightarrow> bool" where
  "loc_less a b \<longleftrightarrow>
     (if file_id a \<noteq> file_id b then file_id a < file_id b
      else if line a \<noteq> line b then line a < line b
      else column a < column b)"

section \<open>Source map\<close>

type_synonym source_map = "(nat \<times> source_location) list"

definition sm_append :: "source_map \<Rightarrow> nat \<Rightarrow> source_location \<Rightarrow> source_map" where
  "sm_append entries offset loc = entries @ [(offset, loc)]"

text \<open>
  \<^verbatim>\<open>std::upper_bound\<close>: the halving loop over \<open>[first, first + len)\<close> with the
  comparison \<open>val < entry.first\<close>.
\<close>

function upper_bound_loop :: "source_map \<Rightarrow> nat \<Rightarrow> nat \<Rightarrow> nat \<Rightarrow> nat" where
  "upper_bound_loop entries val first len =
     (if len = 0 then first
      else let half = len div 2; middle = first + half
           in if val < fst (entries ! middle) then upper_bound_loop entries val first half
              else upper_bound_loop entries val (middle + 1) (len - half - 1))"
  by pat_completeness auto
termination
  by (relation "measure (\<lambda>(_, _, _, len). len)") auto

declare upper_bound_loop.simps [simp del]

definition sm_upper_bound :: "source_map \<Rightarrow> nat \<Rightarrow> nat" where
  "sm_upper_bound entries offset = upper_bound_loop entries offset 0 (length entries)"

definition sm_location_at :: "source_map \<Rightarrow> nat \<Rightarrow> source_location" where
  "sm_location_at entries offset =
     (if entries = [] then default_location
      else let it = sm_upper_bound entries offset
           in if it = 0 then snd (entries ! 0) else snd (entries ! (it - 1)))"

section \<open>Name table\<close>

record name_table =
  nt_names :: "string list"
  nt_index :: "string \<rightharpoonup> u16"

definition empty_name_table :: name_table where
  "empty_name_table = \<lparr>nt_names = [], nt_index = Map.empty\<rparr>"

definition nt_try_add :: "name_table \<Rightarrow> string \<Rightarrow> name_table \<times> u16 option" where
  "nt_try_add t name =
     (case nt_index t name of
        Some i \<Rightarrow> (t, Some i)
      | None \<Rightarrow>
          (if k_max_names \<le> length (nt_names t) then (t, None)
           else let idx = word_of_nat (length (nt_names t))
                in (\<lparr>nt_names = nt_names t @ [name], nt_index = (nt_index t)(name \<mapsto> idx)\<rparr>,
                    Some idx)))"

datatype luma_error = Overflow_Error string

definition nt_add :: "name_table \<Rightarrow> string \<Rightarrow> luma_error + name_table \<times> u16" where
  "nt_add t name =
     (case nt_try_add t name of
        (t', Some i) \<Rightarrow> Inr (t', i)
      | (_, None) \<Rightarrow>
          Inl (Overflow_Error (''Name table overflow (more than '' @ show_nat k_max_names @ '' names)'')))"

definition nt_resolve :: "name_table \<Rightarrow> u16 \<Rightarrow> string option" where
  "nt_resolve t i = (if unat i < length (nt_names t) then Some (nt_names t ! unat i) else None)"

definition nt_inv :: "name_table \<Rightarrow> bool" where
  "nt_inv t \<longleftrightarrow>
     length (nt_names t) \<le> k_max_names \<and> distinct (nt_names t) \<and>
     (\<forall>name i. nt_index t name = Some i \<longleftrightarrow>
        unat i < length (nt_names t) \<and> nt_names t ! unat i = name)"

section \<open>Values held by a constant pool\<close>

text \<open>
  \<^verbatim>\<open>Value\<close> is a tagged variant.  The primitive alternatives carry their payload (an
  integer or a double as its 64-bit pattern); every other alternative is a \<^verbatim>\<open>shared_ptr\<close>
  to a heap object, represented by its \<^verbatim>\<open>ValueType\<close> tag and the object's identity.
\<close>

datatype value_type = VT_Null | VT_Bool | VT_Integer | VT_Number | VT_String | VT_Array
  | VT_Dictionary | VT_Tuple | VT_Result | VT_Record | VT_Range | VT_Choice | VT_Function
  | VT_NativeFunction | VT_Task | VT_Channel | VT_Socket | VT_Queue | VT_Stack | VT_Set | VT_Xml
  | VT_KeyValueStore | VT_Reference | VT_Decimal

datatype val = VNull | VBool bool | VInteger u64 | VNumber u64 | VString string
  | VObject value_type nat

section \<open>Constant pool\<close>

record constant_pool =
  cp_values :: "val list"
  cp_int_indices :: "u64 \<rightharpoonup> u16"
  cp_string_indices :: "string \<rightharpoonup> u16"
  cp_double_indices :: "u64 \<rightharpoonup> u16"

definition empty_constant_pool :: constant_pool where
  "empty_constant_pool =
     \<lparr>cp_values = [], cp_int_indices = Map.empty, cp_string_indices = Map.empty,
      cp_double_indices = Map.empty\<rparr>"

definition cp_size :: "constant_pool \<Rightarrow> nat" where
  "cp_size p = length (cp_values p)"

definition cp_is_full :: "constant_pool \<Rightarrow> bool" where
  "cp_is_full p \<longleftrightarrow> k_max_constants \<le> length (cp_values p)"

text \<open>
  \<^verbatim>\<open>add_dedup\<close>, with the deduplication map passed in and handed back updated.
\<close>

definition cp_add_dedup ::
    "constant_pool \<Rightarrow> val \<Rightarrow> 'k \<Rightarrow> ('k \<rightharpoonup> u16) \<Rightarrow> constant_pool \<times> ('k \<rightharpoonup> u16) \<times> u16 option" where
  "cp_add_dedup p value key dedup_map =
     (case dedup_map key of
        Some i \<Rightarrow> (p, dedup_map, Some i)
      | None \<Rightarrow>
          (if cp_is_full p then (p, dedup_map, None)
           else let idx = word_of_nat (length (cp_values p))
                in (p\<lparr>cp_values := cp_values p @ [value]\<rparr>, dedup_map(key \<mapsto> idx), Some idx)))"

fun cp_try_add :: "constant_pool \<Rightarrow> val \<Rightarrow> constant_pool \<times> u16 option" where
  "cp_try_add p (VInteger n) =
     (let (p', m, r) = cp_add_dedup p (VInteger n) n (cp_int_indices p)
      in (p'\<lparr>cp_int_indices := m\<rparr>, r))"
| "cp_try_add p (VString s) =
     (let (p', m, r) = cp_add_dedup p (VString s) s (cp_string_indices p)
      in (p'\<lparr>cp_string_indices := m\<rparr>, r))"
| "cp_try_add p (VNumber bits) =
     (let (p', m, r) = cp_add_dedup p (VNumber bits) bits (cp_double_indices p)
      in (p'\<lparr>cp_double_indices := m\<rparr>, r))"
| "cp_try_add p v =
     (if cp_is_full p then (p, None)
      else let p' = p\<lparr>cp_values := cp_values p @ [v]\<rparr>
           in (p', Some (word_of_nat (length (cp_values p') - 1))))"

definition pool_overflow :: luma_error where
  "pool_overflow =
     Overflow_Error (''Constant pool overflow (more than '' @ show_nat k_max_constants @ '' constants)'')"

definition cp_add :: "constant_pool \<Rightarrow> val \<Rightarrow> luma_error + constant_pool \<times> u16" where
  "cp_add p v =
     (case cp_try_add p v of (p', Some i) \<Rightarrow> Inr (p', i) | (_, None) \<Rightarrow> Inl pool_overflow)"

definition cp_push_back :: "constant_pool \<Rightarrow> val \<Rightarrow> luma_error + constant_pool" where
  "cp_push_back p v =
     (if cp_is_full p then Inl pool_overflow else Inr (p\<lparr>cp_values := cp_values p @ [v]\<rparr>))"

definition cp_resolve :: "constant_pool \<Rightarrow> u16 \<Rightarrow> val option" where
  "cp_resolve p i = (if unat i < length (cp_values p) then Some (cp_values p ! unat i) else None)"

definition cp_inv :: "constant_pool \<Rightarrow> bool" where
  "cp_inv p \<longleftrightarrow>
     length (cp_values p) \<le> k_max_constants \<and>
     (\<forall>n i. cp_int_indices p n = Some i \<longrightarrow> cp_resolve p i = Some (VInteger n)) \<and>
     (\<forall>s i. cp_string_indices p s = Some i \<longrightarrow> cp_resolve p i = Some (VString s)) \<and>
     (\<forall>b i. cp_double_indices p b = Some i \<longrightarrow> cp_resolve p i = Some (VNumber b))"

section \<open>String interner\<close>

record string_interner =
  si_strings :: "string list"
  si_lookup :: "string \<rightharpoonup> u32"

definition empty_interner :: string_interner where
  "empty_interner = \<lparr>si_strings = [[]], si_lookup = Map.empty\<rparr>"

definition si_intern :: "string_interner \<Rightarrow> string \<Rightarrow> string_interner \<times> u32" where
  "si_intern t str =
     (case si_lookup t str of
        Some i \<Rightarrow> (t, i)
      | None \<Rightarrow>
          let id = word_of_nat (length (si_strings t))
          in (\<lparr>si_strings = si_strings t @ [str], si_lookup = (si_lookup t)(str \<mapsto> id)\<rparr>, id))"

definition si_resolve :: "string_interner \<Rightarrow> u32 \<Rightarrow> string" where
  "si_resolve t i = (if unat i < length (si_strings t) then si_strings t ! unat i else [])"

definition si_size :: "string_interner \<Rightarrow> nat" where
  "si_size t = length (si_strings t) - 1"

definition si_inv :: "string_interner \<Rightarrow> bool" where
  "si_inv t \<longleftrightarrow>
     0 < length (si_strings t) \<and> si_strings t ! 0 = [] \<and> distinct (tl (si_strings t)) \<and>
     (\<forall>str i. si_lookup t str = Some i \<longleftrightarrow>
        0 < unat i \<and> unat i < length (si_strings t) \<and> si_strings t ! unat i = str)"

section \<open>Chunk\<close>

record chunk =
  ch_code :: "byte list"
  ch_constants :: constant_pool
  ch_source_map :: source_map
  ch_names :: name_table

definition empty_chunk :: chunk where
  "empty_chunk =
     \<lparr>ch_code = [], ch_constants = empty_constant_pool, ch_source_map = [],
      ch_names = empty_name_table\<rparr>"

definition k_jump_placeholder :: u32 where
  "k_jump_placeholder = 0xFFFFFFFF"

definition emit :: "chunk \<Rightarrow> op \<Rightarrow> source_location \<Rightarrow> chunk" where
  "emit c op loc =
     c\<lparr>ch_source_map := sm_append (ch_source_map c) (length (ch_code c)) loc,
       ch_code := ch_code c @ [op]\<rparr>"

definition emit_u8 :: "chunk \<Rightarrow> op \<Rightarrow> byte \<Rightarrow> source_location \<Rightarrow> chunk" where
  "emit_u8 c op operand loc =
     c\<lparr>ch_source_map := sm_append (ch_source_map c) (length (ch_code c)) loc,
       ch_code := ch_code c @ [op] @ [operand]\<rparr>"

definition emit_u16 :: "chunk \<Rightarrow> op \<Rightarrow> u16 \<Rightarrow> source_location \<Rightarrow> chunk" where
  "emit_u16 c op operand loc =
     c\<lparr>ch_source_map := sm_append (ch_source_map c) (length (ch_code c)) loc,
       ch_code := write_u16_be (ch_code c @ [op]) operand\<rparr>"

definition emit_u32 :: "chunk \<Rightarrow> op \<Rightarrow> u32 \<Rightarrow> source_location \<Rightarrow> chunk" where
  "emit_u32 c op operand loc =
     c\<lparr>ch_source_map := sm_append (ch_source_map c) (length (ch_code c)) loc,
       ch_code := write_u32_be (ch_code c @ [op]) operand\<rparr>"

definition push_u16 :: "chunk \<Rightarrow> u16 \<Rightarrow> chunk" where
  "push_u16 c v = c\<lparr>ch_code := write_u16_be (ch_code c) v\<rparr>"

definition push_u32_be :: "chunk \<Rightarrow> u32 \<Rightarrow> chunk" where
  "push_u32_be c v = c\<lparr>ch_code := write_u32_be (ch_code c) v\<rparr>"

definition add_constant :: "chunk \<Rightarrow> val \<Rightarrow> luma_error + chunk \<times> u16" where
  "add_constant c v =
     (case cp_add (ch_constants c) v of
        Inl e \<Rightarrow> Inl e
      | Inr (p, i) \<Rightarrow> Inr (c\<lparr>ch_constants := p\<rparr>, i))"

definition add_name :: "chunk \<Rightarrow> string \<Rightarrow> luma_error + chunk \<times> u16" where
  "add_name c name =
     (case nt_add (ch_names c) name of
        Inl e \<Rightarrow> Inl e
      | Inr (t, i) \<Rightarrow> Inr (c\<lparr>ch_names := t\<rparr>, i))"

definition emit_jump :: "chunk \<Rightarrow> op \<Rightarrow> source_location \<Rightarrow> chunk \<times> nat" where
  "emit_jump c op loc =
     (let c' = c\<lparr>ch_source_map := sm_append (ch_source_map c) (length (ch_code c)) loc,
                 ch_code := write_u32_be (ch_code c @ [op]) k_jump_placeholder\<rparr>
      in (c', length (ch_code c') - k_u32_operand_size))"

text \<open>
  \<^verbatim>\<open>calculate_jump_offset\<close> asserts \<open>from \<le> to\<close>; with assertions off the
  subtraction would wrap, so callers must respect it and the lemmas assume it.
\<close>

definition calculate_jump_offset :: "nat \<Rightarrow> nat \<Rightarrow> nat" where
  "calculate_jump_offset from to = to - from"

definition patch_jump :: "chunk \<Rightarrow> nat \<Rightarrow> chunk" where
  "patch_jump c offset =
     (let jump = calculate_jump_offset (offset + k_u32_operand_size) (length (ch_code c))
      in c\<lparr>ch_code := patch_u32_be (ch_code c) offset (word_of_nat jump)\<rparr>)"

definition emit_loop :: "chunk \<Rightarrow> nat \<Rightarrow> source_location \<Rightarrow> chunk" where
  "emit_loop c loop_start loc =
     (let code' = ch_code c @ [Op_Loop];
          offset = word_of_nat (length code' - loop_start + k_u32_operand_size)
      in c\<lparr>ch_source_map := sm_append (ch_source_map c) (length (ch_code c)) loc,
           ch_code := write_u32_be code' offset\<rparr>)"

definition current_offset :: "chunk \<Rightarrow> nat" where
  "current_offset c = length (ch_code c)"

definition resolve_forward_jump_target :: "nat \<Rightarrow> nat \<Rightarrow> nat" where
  "resolve_forward_jump_target instruction_offset relative =
     instruction_offset + k_jump_instruction_size + relative"

definition resolve_loop_jump_target :: "nat \<Rightarrow> nat \<Rightarrow> nat" where
  "resolve_loop_jump_target instruction_offset relative =
     instruction_offset + k_jump_instruction_size - relative"

definition location_at :: "chunk \<Rightarrow> nat \<Rightarrow> source_location" where
  "location_at c offset = sm_location_at (ch_source_map c) offset"

section \<open>Compiled functions\<close>

record function_debug_info =
  local_names :: "string list"
  local_mutable :: "bool list"

record upvalue =
  uv_index :: u16
  uv_is_local :: bool
  uv_is_mutable :: bool

record compiled_function =
  cf_name :: string
  cf_chunk :: chunk
  cf_arity :: int
  cf_required_arity :: int
  cf_upvalue_count :: int
  cf_param_names :: "string list"
  cf_param_name_index :: "string \<rightharpoonup> int"
  cf_debug_info :: function_debug_info
  cf_upvalues :: "upvalue list"
  cf_is_main :: bool
  cf_is_test :: bool
  cf_verified :: bool

definition empty_function :: compiled_function where
  "empty_function =
     \<lparr>cf_name = [], cf_chunk = empty_chunk, cf_arity = 0, cf_required_arity = 0,
      cf_upvalue_count = 0, cf_param_names = [], cf_param_name_index = Map.empty,
      cf_debug_info = \<lparr>local_names = [], local_mutable = []\<rparr>, cf_upvalues = [],
      cf_is_main = False, cf_is_test = False, cf_verified = False\<rparr>"

text \<open>\<^verbatim>\<open>emplace\<close> keeps the entry that is already there: the first parameter of a name wins.\<close>

definition build_param_name_index :: "compiled_function \<Rightarrow> compiled_function" where
  "build_param_name_index f =
     f\<lparr>cf_param_name_index :=
         fold (\<lambda>i m. let name = cf_param_names f ! i
                     in if m name = None then m(name \<mapsto> int i) else m)
           [0..<length (cf_param_names f)] Map.empty\<rparr>"

definition mark_verified :: "compiled_function \<Rightarrow> compiled_function" where
  "mark_verified f = f\<lparr>cf_verified := True\<rparr>"

definition set_is_verified :: "compiled_function \<Rightarrow> bool \<Rightarrow> compiled_function" where
  "set_is_verified f v = f\<lparr>cf_verified := v\<rparr>"

section \<open>Lemmas: interned tables\<close>

lemma unat_word_of_nat_u16: "n \<le> 65535 \<Longrightarrow> unat (word_of_nat n :: u16) = n"
  by (simp add: unat_of_nat)

lemma nt_inv_empty [simp]: "nt_inv empty_name_table"
  by (simp add: nt_inv_def empty_name_table_def)

lemma nt_resolve_iff: "nt_inv t \<Longrightarrow> nt_resolve t i = Some name \<longleftrightarrow> nt_index t name = Some i"
  by (auto simp: nt_inv_def nt_resolve_def)

lemma nt_index_nth:
  "nt_inv t \<Longrightarrow> i < length (nt_names t) \<Longrightarrow> nt_index t (nt_names t ! i) = Some (word_of_nat i)"
  by (simp add: nt_inv_def k_max_names_def unat_word_of_nat_u16)

lemma nt_index_None: "nt_inv t \<Longrightarrow> nt_index t name = None \<Longrightarrow> name \<notin> set (nt_names t)"
  by (auto simp: in_set_conv_nth nt_index_nth)

lemma nt_try_add_inv:
  assumes inv: "nt_inv t"
  shows "nt_inv (fst (nt_try_add t name))"
proof (cases "nt_index t name = None \<and> length (nt_names t) < k_max_names")
  case True
  let ?n = "length (nt_names t)"
  have idx: "word_of_nat ?n = (i::u16) \<longleftrightarrow> unat i = ?n" for i
    using True by (intro eq_word_of_nat_iff) (simp add: k_max_names_def)
  have n: "unat (word_of_nat ?n :: u16) = ?n" using idx by blast
  have fresh: "name \<notin> set (nt_names t)" using True nt_index_None [OF inv] by simp
  have t': "fst (nt_try_add t name) =
      \<lparr>nt_names = nt_names t @ [name], nt_index = (nt_index t)(name \<mapsto> word_of_nat ?n)\<rparr>"
    using True by (simp add: nt_try_add_def Let_def)
  have "((nt_index t)(name \<mapsto> word_of_nat ?n)) s = Some i \<longleftrightarrow>
      unat i < Suc ?n \<and> (nt_names t @ [name]) ! unat i = s" for s i
  proof (cases "s = name")
    case True
    then show ?thesis
      using fresh idx n by (auto simp: nth_append less_Suc_eq)
  next
    case False
    then show ?thesis
      using inv by (auto simp: nt_inv_def nth_append less_Suc_eq)
  qed
  with inv True fresh show ?thesis
    unfolding t' by (simp add: nt_inv_def)
next
  case False
  with inv show ?thesis by (auto simp: nt_try_add_def split: option.splits)
qed

lemma nt_try_add_resolve:
  assumes "nt_inv t" and "snd (nt_try_add t name) = Some h"
  shows "nt_resolve (fst (nt_try_add t name)) h = Some name"
proof (cases "nt_index t name")
  case None
  with assms show ?thesis
    by (auto simp: nt_try_add_def nt_resolve_def k_max_names_def unat_word_of_nat_u16 Let_def
        split: if_splits)
next
  case (Some i)
  with assms show ?thesis by (simp add: nt_try_add_def nt_resolve_iff)
qed

lemma nt_try_add_stable:
  "nt_resolve t h = Some k \<Longrightarrow> nt_resolve (fst (nt_try_add t name)) h = Some k"
  by (auto simp: nt_try_add_def nt_resolve_def nth_append Let_def split: option.splits if_splits)

interpretation names: dedup_table nt_try_add nt_resolve nt_inv
proof
  show "nt_inv (fst (nt_try_add t k))" if "nt_inv t" for t k
    using that by (rule nt_try_add_inv)
  show "nt_resolve (fst (nt_try_add t k)) h = Some k"
    if "nt_inv t" "snd (nt_try_add t k) = Some h" for t k h
    using that by (rule nt_try_add_resolve)
  show "nt_resolve (fst (nt_try_add t k)) h = Some k'"
    if "nt_inv t" "nt_resolve t h = Some k'" for t h k' k
    using that(2) by (rule nt_try_add_stable)
  show "\<exists>h'. nt_try_add t k = (t, Some h')" if "nt_inv t" "nt_resolve t h = Some k" for t h k
    using that by (simp add: nt_resolve_iff nt_try_add_def)
  show "h = h'" if "nt_inv t" "nt_resolve t h = Some k" "nt_resolve t h' = Some k" for t h k h'
    using that by (simp add: nt_resolve_iff)
qed

lemma cp_inv_empty [simp]: "cp_inv empty_constant_pool"
  by (simp add: cp_inv_def empty_constant_pool_def)

lemma cp_resolve_snoc:
  "cp_resolve p i = Some v \<Longrightarrow> cp_resolve (p\<lparr>cp_values := cp_values p @ [w]\<rparr>) i = Some v"
  by (auto simp: cp_resolve_def nth_append split: if_splits)

lemma cp_resolve_upd [simp]:
  "cp_resolve (p\<lparr>cp_int_indices := m\<rparr>) = cp_resolve p"
  "cp_resolve (p\<lparr>cp_string_indices := ms\<rparr>) = cp_resolve p"
  "cp_resolve (p\<lparr>cp_double_indices := md\<rparr>) = cp_resolve p"
  by (simp_all add: cp_resolve_def fun_eq_iff)

lemma cp_resolve_new:
  "length (cp_values p) < k_max_constants \<Longrightarrow>
   cp_resolve (p\<lparr>cp_values := cp_values p @ [w]\<rparr>) (word_of_nat (length (cp_values p))) = Some w"
  by (simp add: cp_resolve_def k_max_constants_def unat_word_of_nat_u16)

lemma cp_try_add_inv: "cp_inv p \<Longrightarrow> cp_inv (fst (cp_try_add p v))"
  by (cases v)
    (auto simp: cp_inv_def cp_add_dedup_def cp_is_full_def cp_resolve_new Let_def
      intro: cp_resolve_snoc split: option.splits)

lemma cp_try_add_resolve:
  "cp_inv p \<Longrightarrow> snd (cp_try_add p v) = Some h \<Longrightarrow> cp_resolve (fst (cp_try_add p v)) h = Some v"
  by (cases v)
    (auto simp: cp_inv_def cp_add_dedup_def cp_is_full_def cp_resolve_new Let_def
      split: option.splits if_splits)

lemma cp_try_add_stable:
  "cp_resolve p h = Some k \<Longrightarrow> cp_resolve (fst (cp_try_add p v)) h = Some k"
  by (cases v)
    (auto simp: cp_add_dedup_def Let_def intro: cp_resolve_snoc split: option.splits)

interpretation pool: intern_table cp_try_add cp_resolve cp_inv
proof
  show "cp_inv (fst (cp_try_add t k))" if "cp_inv t" for t k
    using that by (rule cp_try_add_inv)
  show "cp_resolve (fst (cp_try_add t k)) h = Some k"
    if "cp_inv t" "snd (cp_try_add t k) = Some h" for t k h
    using that by (rule cp_try_add_resolve)
  show "cp_resolve (fst (cp_try_add t k)) h = Some k'"
    if "cp_inv t" "cp_resolve t h = Some k'" for t h k' k
    using that(2) by (rule cp_try_add_stable)
qed

text \<open>The values the pool deduplicates: a second addition of the same literal finds the first.\<close>

fun cp_dedups :: "val \<Rightarrow> bool" where
  "cp_dedups (VInteger _) = True"
| "cp_dedups (VString _) = True"
| "cp_dedups (VNumber _) = True"
| "cp_dedups _ = False"

lemma cp_try_add_again:
  assumes "cp_dedups v" and "snd (cp_try_add p v) = Some h"
  shows "cp_try_add (fst (cp_try_add p v)) v = (fst (cp_try_add p v), Some h)"
  using assms
  by (cases v) (auto simp: cp_add_dedup_def Let_def split: option.splits if_splits)

lemma cp_try_add_length:
  "length (cp_values (fst (cp_try_add p v))) \<le> length (cp_values p) + 1"
  by (cases v) (auto simp: cp_add_dedup_def Let_def split: option.splits)

lemma cp_try_add_None: "snd (cp_try_add p v) = None \<Longrightarrow> k_max_constants \<le> length (cp_values p)"
  by (cases v) (auto simp: cp_add_dedup_def cp_is_full_def Let_def split: option.splits if_splits)

section \<open>Lemmas: string interner\<close>

lemma si_inv_empty [simp]: "si_inv empty_interner"
  by (auto simp: si_inv_def empty_interner_def)

lemma si_lookup_None:
  assumes "si_inv t" "length (si_strings t) \<le> 2 ^ 32" "si_lookup t str = None"
  shows "str \<notin> set (tl (si_strings t))"
proof
  assume "str \<in> set (tl (si_strings t))"
  then obtain i where i: "i < length (tl (si_strings t))" "tl (si_strings t) ! i = str"
    by (auto simp: in_set_conv_nth)
  then have j: "Suc i < length (si_strings t)" "si_strings t ! Suc i = str"
    by (auto simp: nth_tl)
  with assms(2) have "unat (word_of_nat (Suc i) :: u32) = Suc i"
    by (intro unat_word_of_nat_bound) simp
  with j assms(1) have "si_lookup t str = Some (word_of_nat (Suc i))"
    by (simp add: si_inv_def)
  with assms(3) show False by simp
qed

lemma si_intern_inv:
  assumes inv: "si_inv t" and sz: "length (si_strings t) < 2 ^ 32"
  shows "si_inv (fst (si_intern t str))"
proof (cases "si_lookup t str")
  case None
  let ?n = "length (si_strings t)"
  have idx: "word_of_nat ?n = i \<longleftrightarrow> unat i = ?n" for i :: u32
    using sz by (intro eq_word_of_nat_iff) simp
  have n: "unat (word_of_nat ?n :: u32) = ?n" using idx by blast
  have fresh: "str \<notin> set (tl (si_strings t))"
    using inv sz None by (intro si_lookup_None) auto
  have t': "fst (si_intern t str) =
      \<lparr>si_strings = si_strings t @ [str], si_lookup = (si_lookup t)(str \<mapsto> word_of_nat ?n)\<rparr>"
    using None by (simp add: si_intern_def Let_def)
  have pos: "0 < ?n" using inv by (simp add: si_inv_def)
  have old: "si_strings t ! j \<noteq> str" if "0 < j" "j < ?n" for j
    using that fresh nth_mem [of "j - 1" "tl (si_strings t)"] by (auto simp: nth_tl)
  have "((si_lookup t)(str \<mapsto> word_of_nat ?n)) s = Some i \<longleftrightarrow>
      0 < unat i \<and> unat i < Suc ?n \<and> (si_strings t @ [str]) ! unat i = s" for s i
  proof (cases "s = str")
    case True
    then show ?thesis
      using idx n pos old by (auto simp: nth_append less_Suc_eq)
  next
    case False
    then show ?thesis
      using inv by (auto simp: si_inv_def nth_append less_Suc_eq)
  qed
  with inv fresh pos show ?thesis
    unfolding t' by (auto simp: si_inv_def nth_append)
next
  case (Some i)
  with inv show ?thesis by (simp add: si_intern_def)
qed

lemma si_resolve_intern:
  assumes "si_inv t" and "length (si_strings t) < 2 ^ 32"
  shows "si_resolve (fst (si_intern t str)) (snd (si_intern t str)) = str"
  using assms
  by (auto simp: si_intern_def si_resolve_def si_inv_def unat_of_nat Let_def split: option.splits)

section \<open>Lemmas: the source map's binary search\<close>

definition sm_sorted :: "source_map \<Rightarrow> bool" where
  "sm_sorted entries \<longleftrightarrow> sorted_wrt (<) (map fst entries)"

lemma sm_sorted_nth: "sm_sorted es \<Longrightarrow> i < j \<Longrightarrow> j < length es \<Longrightarrow> fst (es ! i) < fst (es ! j)"
  by (auto simp: sm_sorted_def sorted_wrt_iff_nth_less)

lemma sm_sorted_nth_le:
  "sm_sorted es \<Longrightarrow> i \<le> j \<Longrightarrow> j < length es \<Longrightarrow> fst (es ! i) \<le> fst (es ! j)"
  using sm_sorted_nth [of es i j] by (cases "i = j") auto

text \<open>
  Loop invariant of the halving search: everything before the window is at most the key, everything
  from its end on is greater.
\<close>

lemma upper_bound_loop_correct:
  assumes "sm_sorted es" and "first + len \<le> length es"
    and "\<forall>i < first. fst (es ! i) \<le> key"
    and "\<forall>i. first + len \<le> i \<and> i < length es \<longrightarrow> key < fst (es ! i)"
  defines "r \<equiv> upper_bound_loop es key first len"
  shows "r \<le> length es \<and> (\<forall>i < r. fst (es ! i) \<le> key) \<and>
         (\<forall>i. r \<le> i \<and> i < length es \<longrightarrow> key < fst (es ! i))"
  using assms(1-4) unfolding r_def
proof (induction es key first len rule: upper_bound_loop.induct)
  case (1 es key first len)
  let ?m = "first + len div 2"
  show ?case
  proof (cases "len = 0")
    case True
    with "1.prems" show ?thesis by (simp add: upper_bound_loop.simps [of es key first 0])
  next
    case False
    then have m: "?m < length es" using "1.prems"(2) by simp
    show ?thesis
    proof (cases "key < fst (es ! ?m)")
      case True
      have "key < fst (es ! i)" if "?m \<le> i" "i < length es" for i
        using True sm_sorted_nth_le [OF "1.prems"(1) that] by simp
      with "1.IH"(1) [of "len div 2" ?m] True False "1.prems" m show ?thesis
        by (simp add: upper_bound_loop.simps [of es key first len] Let_def)
    next
      case False
      have "fst (es ! i) \<le> key" if "i < Suc ?m" for i
        using False that m sm_sorted_nth_le [OF "1.prems"(1), of i ?m] by simp
      with "1.IH"(2) [of "len div 2" ?m] False \<open>len \<noteq> 0\<close> "1.prems" m show ?thesis
        by (simp add: upper_bound_loop.simps [of es key first len] Let_def)
    qed
  qed
qed

lemma sm_location_at_entry:
  assumes "sm_sorted es" and "i < length es" and "fst (es ! i) \<le> offset"
    and "Suc i < length es \<Longrightarrow> offset < fst (es ! Suc i)"
  shows "sm_location_at es offset = snd (es ! i)"
proof -
  let ?r = "sm_upper_bound es offset"
  have r: "?r \<le> length es" "\<forall>j < ?r. fst (es ! j) \<le> offset"
      "\<forall>j. ?r \<le> j \<and> j < length es \<longrightarrow> offset < fst (es ! j)"
    using upper_bound_loop_correct [OF assms(1), of 0 "length es" offset]
    by (simp_all add: sm_upper_bound_def)
  have "i < ?r" using r(3) assms(2,3) by (metis not_less)
  moreover have "\<not> Suc i < ?r"
    using r(1,2) assms(4) by (meson less_le_trans not_less)
  ultimately have "?r = Suc i" by simp
  then show ?thesis using assms(2) by (auto simp: sm_location_at_def)
qed

section \<open>Lemmas: emission\<close>

text \<open>
  The invariant of a chunk under construction: its tables are consistent and the source map lists
  strictly increasing offsets inside the code.
\<close>

definition chunk_inv :: "chunk \<Rightarrow> bool" where
  "chunk_inv c \<longleftrightarrow>
     cp_inv (ch_constants c) \<and> nt_inv (ch_names c) \<and> sm_sorted (ch_source_map c) \<and>
     (\<forall>entry \<in> set (ch_source_map c). fst entry < length (ch_code c))"

lemma chunk_inv_empty [simp]: "chunk_inv empty_chunk"
  by (simp add: chunk_inv_def empty_chunk_def sm_sorted_def)

text \<open>Appending one source-map entry at the old end of the code and at least one byte keeps it.\<close>

lemma chunk_inv_emit_bytes:
  assumes "chunk_inv c" and "bs \<noteq> []"
  shows "chunk_inv (c\<lparr>ch_source_map := sm_append (ch_source_map c) (length (ch_code c)) loc,
                     ch_code := ch_code c @ bs\<rparr>)"
  using assms
  by (fastforce simp: chunk_inv_def sm_append_def sm_sorted_def sorted_wrt_append)

lemma chunk_inv_push_bytes: "chunk_inv c \<Longrightarrow> chunk_inv (c\<lparr>ch_code := ch_code c @ bs\<rparr>)"
  by (fastforce simp: chunk_inv_def)

lemma chunk_inv_same_length:
  "chunk_inv c \<Longrightarrow> length code = length (ch_code c) \<Longrightarrow> chunk_inv (c\<lparr>ch_code := code\<rparr>)"
  by (simp add: chunk_inv_def)

lemma chunk_inv_emit: "chunk_inv c \<Longrightarrow> chunk_inv (emit c op loc)"
  by (simp add: emit_def chunk_inv_emit_bytes)

lemma chunk_inv_emit_u8: "chunk_inv c \<Longrightarrow> chunk_inv (emit_u8 c op operand loc)"
  by (simp add: emit_u8_def chunk_inv_emit_bytes)

lemma chunk_inv_emit_u16: "chunk_inv c \<Longrightarrow> chunk_inv (emit_u16 c op operand loc)"
  by (simp add: emit_u16_def write_u16_be_def chunk_inv_emit_bytes)

lemma chunk_inv_emit_u32: "chunk_inv c \<Longrightarrow> chunk_inv (emit_u32 c op operand32 loc)"
  by (simp add: emit_u32_def write_u32_be_def chunk_inv_emit_bytes)

lemma chunk_inv_push_u16: "chunk_inv c \<Longrightarrow> chunk_inv (push_u16 c v)"
  by (simp add: push_u16_def write_u16_be_def chunk_inv_push_bytes)

lemma chunk_inv_push_u32: "chunk_inv c \<Longrightarrow> chunk_inv (push_u32_be c v)"
  by (simp add: push_u32_be_def write_u32_be_def chunk_inv_push_bytes)

lemma chunk_inv_emit_jump: "chunk_inv c \<Longrightarrow> chunk_inv (fst (emit_jump c op loc))"
  by (simp add: emit_jump_def write_u32_be_def chunk_inv_emit_bytes Let_def)

lemma chunk_inv_emit_loop: "chunk_inv c \<Longrightarrow> chunk_inv (emit_loop c loop_start loc)"
  by (simp add: emit_loop_def write_u32_be_def chunk_inv_emit_bytes Let_def)

lemma chunk_inv_patch_jump: "chunk_inv c \<Longrightarrow> chunk_inv (patch_jump c offset)"
  by (simp add: patch_jump_def chunk_inv_same_length Let_def)

lemma chunk_inv_add_constant:
  assumes "chunk_inv c" and "add_constant c v = Inr (c', i)"
  shows "chunk_inv c'"
  using assms pool.add_inv [of "ch_constants c" v]
  by (force simp: add_constant_def cp_add_def chunk_inv_def split: sum.splits option.splits
      prod.split_asm)

lemma chunk_inv_add_name:
  assumes "chunk_inv c" and "add_name c name = Inr (c', i)"
  shows "chunk_inv c'"
  using assms names.add_inv [of "ch_names c" name]
  by (force simp: add_name_def nt_add_def chunk_inv_def split: sum.splits option.splits
      prod.split_asm)

lemmas chunk_inv_ops = chunk_inv_emit chunk_inv_emit_u8 chunk_inv_emit_u16 chunk_inv_emit_u32
  chunk_inv_push_u16 chunk_inv_push_u32 chunk_inv_emit_jump chunk_inv_emit_loop
  chunk_inv_patch_jump chunk_inv_add_constant chunk_inv_add_name

section \<open>Lemmas: jumps\<close>

lemma emit_jump_offset: "snd (emit_jump c op loc) = length (ch_code c) + 1"
  by (simp add: emit_jump_def Let_def write_u32_be_def k_u32_operand_size_def)

lemma length_emit_jump: "length (ch_code (fst (emit_jump c op loc))) = length (ch_code c) + 5"
  by (simp add: emit_jump_def Let_def write_u32_be_def)

lemma unat_word_of_nat_u32: "n < 2 ^ 32 \<Longrightarrow> unat (word_of_nat n :: u32) = n"
  by (simp add: unat_of_nat)

text \<open>A patched forward jump lands on the offset that was current when it was patched.\<close>

lemma patch_jump_target:
  assumes "at + 5 \<le> length (ch_code c)" and "length (ch_code c) < 2 ^ 32"
  shows "resolve_forward_jump_target at
           (unat (read_u32_be (drop (at + 1) (ch_code (patch_jump c (at + 1)))))) = current_offset c"
proof -
  have "drop (at + 1) (ch_code (patch_jump c (at + 1))) =
      u32_bytes (word_of_nat (length (ch_code c) - (at + 5))) @ drop (at + 5) (ch_code c)"
    using assms(1)
    by (simp add: patch_jump_def patch_u32_be_decomp calculate_jump_offset_def k_u32_operand_size_def
        Let_def add.commute del: of_nat_diff)
  then show ?thesis
    using assms unat_word_of_nat_u32 [of "length (ch_code c) - (at + 5)"]
    by (simp only: read_u32_of_bytes)
      (simp add: resolve_forward_jump_target_def k_jump_instruction_size_def current_offset_def)
qed

lemma emit_loop_target:
  assumes "loop_start \<le> length (ch_code c)" and "length (ch_code c) + 5 < 2 ^ 32"
  shows "resolve_loop_jump_target (length (ch_code c))
           (unat (read_u32_be (drop (length (ch_code c) + 1) (ch_code (emit_loop c loop_start loc))))) =
         loop_start"
proof -
  have "drop (length (ch_code c) + 1) (ch_code (emit_loop c loop_start loc)) =
      u32_bytes (word_of_nat (length (ch_code c) + 1 - loop_start + 4)) @ []"
    by (simp add: emit_loop_def write_u32_be_def Let_def k_u32_operand_size_def)
  then show ?thesis
    using assms unat_word_of_nat_u32 [of "length (ch_code c) + 1 - loop_start + 4"]
    by (simp only: read_u32_of_bytes) (simp add: resolve_loop_jump_target_def k_jump_instruction_size_def)
qed

end
