(* ===== verification/Verifier.thy ===== *)
theory Verifier
  imports Chunk
begin

text \<open>
  The bytecode verifier (\<^verbatim>\<open>core/runtime/compiler/verifier.cpp\<close>): the linear pass with its
  operand-bounds checks, the deferred jump-target validation and the stack-depth walk over the control
  flow graph.  An error list is threaded the way the C++ code threads its \<^verbatim>\<open>errors\<close> vector;
  the worklist \<^verbatim>\<open>pending\<close> keeps its back at the head of the list.
  \<^verbatim>\<open>std::ranges::binary_search\<close> and \<^verbatim>\<open>lower_bound\<close> run on the strictly increasing
  \<^verbatim>\<open>boundaries\<close> and are their specifications: membership and the number of smaller elements.
  The result is \<^verbatim>\<open>None\<close> where the C++ code reads past its \<^verbatim>\<open>deepest\<close> vector.
\<close>

unbundle bit_operations_syntax

section \<open>Errors\<close>

record verify_error =
  ve_offset :: nat
  ve_message :: string

record jump_record =
  jr_offset :: nat
  jr_target :: nat
  jr_is_loop :: bool

definition verify_error_at :: "nat \<Rightarrow> string \<Rightarrow> verify_error" where
  "verify_error_at offset message = \<lparr>ve_offset = offset, ve_message = message\<rparr>"

definition constant_long_out_of_bounds :: "nat \<Rightarrow> u32 \<Rightarrow> nat \<Rightarrow> verify_error" where
  "constant_long_out_of_bounds offset idx pool_size = verify_error_at offset
     (''constant long index '' @ show_nat (unat idx) @ '' at offset '' @ show_nat offset @
      '' exceeds pool size '' @ show_nat pool_size)"

definition constant_out_of_bounds :: "nat \<Rightarrow> u16 \<Rightarrow> nat \<Rightarrow> verify_error" where
  "constant_out_of_bounds offset idx pool_size = verify_error_at offset
     (''constant index '' @ show_nat (unat idx) @ '' at offset '' @ show_nat offset @
      '' exceeds pool size '' @ show_nat pool_size)"

definition name_out_of_bounds :: "nat \<Rightarrow> op \<Rightarrow> u16 \<Rightarrow> nat \<Rightarrow> verify_error" where
  "name_out_of_bounds offset op idx names_size = verify_error_at offset
     (''name index '' @ show_nat (unat idx) @ '' at offset '' @ show_nat offset @ '' for '' @
      opcode_name op @ '' exceeds name table size '' @ show_nat names_size)"

definition upvalue_out_of_bounds :: "nat \<Rightarrow> op \<Rightarrow> u16 \<Rightarrow> int \<Rightarrow> verify_error" where
  "upvalue_out_of_bounds offset op idx upvalue_count = verify_error_at offset
     (''upvalue index '' @ show_nat (unat idx) @ '' at offset '' @ show_nat offset @ '' for '' @
      opcode_name op @ '' exceeds upvalue count '' @ show_int upvalue_count)"

definition local_out_of_bounds :: "nat \<Rightarrow> op \<Rightarrow> u16 \<Rightarrow> verify_error" where
  "local_out_of_bounds offset op idx = verify_error_at offset
     (''local slot '' @ show_nat (unat idx) @ '' at offset '' @ show_nat offset @ '' for '' @
      opcode_name op @ '' exceeds maximum slot index '' @ show_nat (unat k_max_locals - 1))"

definition jump_target_beyond_code :: "nat \<Rightarrow> nat \<Rightarrow> nat \<Rightarrow> verify_error" where
  "jump_target_beyond_code offset target code_size = verify_error_at offset
     (''jump at offset '' @ show_nat offset @ '' targets offset '' @ show_nat target @
      '' which is at or beyond code size '' @ show_nat code_size)"

definition falls_off_end_error :: "nat \<Rightarrow> nat \<Rightarrow> verify_error" where
  "falls_off_end_error offset code_size = verify_error_at offset
     (''control flow from offset '' @ show_nat offset @ '' falls off the end of the code (size '' @
      show_nat code_size @ '') without a Return'')"

definition loop_underflow :: "nat \<Rightarrow> nat \<Rightarrow> verify_error" where
  "loop_underflow offset loop_offset = verify_error_at offset
     (''loop at offset '' @ show_nat offset @ '' jumps back '' @ show_nat loop_offset @
      '' bytes which underflows to before code start'')"

definition stack_underflow_error :: "nat \<Rightarrow> op \<Rightarrow> verify_error" where
  "stack_underflow_error offset op = verify_error_at offset
     (''stack underflow at offset '' @ show_nat offset @ '' after '' @ opcode_name op)"

definition stack_overflow_error :: "nat \<Rightarrow> int \<Rightarrow> verify_error" where
  "stack_overflow_error offset max_depth = verify_error_at offset
     (''stack depth '' @ show_int max_depth @ '' exceeds maximum allowed ('' @
      show_int k_max_stack_depth @ '')'')"

definition empty_bytecode_error :: verify_error where
  "empty_bytecode_error = verify_error_at 0 ''empty bytecode chunk''"

definition invalid_opcode_error :: "nat \<Rightarrow> byte \<Rightarrow> verify_error" where
  "invalid_opcode_error offset b = verify_error_at offset (''invalid opcode byte: 0x'' @ show_hex2 b)"

definition instruction_truncated_error :: "nat \<Rightarrow> op \<Rightarrow> nat \<Rightarrow> nat \<Rightarrow> verify_error" where
  "instruction_truncated_error offset op sz remaining = verify_error_at offset
     (''instruction '' @ opcode_name op @ '' at offset '' @ show_nat offset @ '' truncated: needs '' @
      show_nat sz @ '' bytes but only '' @ show_nat remaining @ '' remain'')"

definition jump_not_on_boundary :: "nat \<Rightarrow> nat \<Rightarrow> bool \<Rightarrow> verify_error" where
  "jump_not_on_boundary offset target is_loop = verify_error_at offset
     ((if is_loop then ''loop'' else ''jump'') @ '' at offset '' @ show_nat offset @
      '' targets offset '' @ show_nat target @ '' which is not an instruction boundary'')"

definition loop_stack_growth_error :: "nat \<Rightarrow> int \<Rightarrow> verify_error" where
  "loop_stack_growth_error offset growth = verify_error_at offset
     (''stack grows by '' @ show_int growth @ '' on every iteration of the loop at offset '' @
      show_nat offset)"

definition stack_analysis_budget_error :: "nat \<Rightarrow> verify_error" where
  "stack_analysis_budget_error offset = verify_error_at offset
     (''stack depth analysis exceeded its step budget at offset '' @ show_nat offset)"

section \<open>Operand bounds\<close>

definition check_constant_long_bounds :: "chunk \<Rightarrow> nat \<Rightarrow> byte list \<Rightarrow> verify_error list \<Rightarrow> verify_error list" where
  "check_constant_long_bounds c offset code errors =
     (if \<not> in_bounds code offset (k_u32_operand_size + 1) then errors
      else let idx = read_u32_be (drop (offset + 1) code)
           in if cp_size (ch_constants c) \<le> unat idx
              then errors @ [constant_long_out_of_bounds offset idx (cp_size (ch_constants c))]
              else errors)"

definition check_constant_bounds :: "chunk \<Rightarrow> nat \<Rightarrow> u16 \<Rightarrow> verify_error list \<Rightarrow> verify_error list" where
  "check_constant_bounds c offset idx errors =
     (if cp_size (ch_constants c) \<le> unat idx
      then errors @ [constant_out_of_bounds offset idx (cp_size (ch_constants c))] else errors)"

definition check_name_bounds :: "chunk \<Rightarrow> op \<Rightarrow> nat \<Rightarrow> u16 \<Rightarrow> verify_error list \<Rightarrow> verify_error list" where
  "check_name_bounds c op offset idx errors =
     (if length (nt_names (ch_names c)) \<le> unat idx
      then errors @ [name_out_of_bounds offset op idx (length (nt_names (ch_names c)))] else errors)"

definition check_upvalue_bounds :: "op \<Rightarrow> nat \<Rightarrow> u16 \<Rightarrow> int \<Rightarrow> verify_error list \<Rightarrow> verify_error list" where
  "check_upvalue_bounds op offset idx upvalue_count errors =
     (if word_of_int upvalue_count \<le> idx
      then errors @ [upvalue_out_of_bounds offset op idx upvalue_count] else errors)"

definition check_local_bounds :: "op \<Rightarrow> nat \<Rightarrow> u16 \<Rightarrow> verify_error list \<Rightarrow> verify_error list" where
  "check_local_bounds op offset idx errors =
     (if k_max_locals \<le> idx then errors @ [local_out_of_bounds offset op idx] else errors)"

definition check_operand_bounds ::
    "chunk \<Rightarrow> op \<Rightarrow> nat \<Rightarrow> int \<Rightarrow> byte list \<Rightarrow> verify_error list \<Rightarrow> verify_error list" where
  "check_operand_bounds c op offset upvalue_count code errors =
     (let category = operand_category op
      in if category = Cat_None then errors
         else if op = Op_ConstantLong then check_constant_long_bounds c offset code errors
         else if \<not> in_bounds code offset 3 then errors
         else let idx = read_u16_be (drop (offset + 1) code)
              in case category of
                   Cat_Constant \<Rightarrow> check_constant_bounds c offset idx errors
                 | Cat_Name \<Rightarrow> check_name_bounds c op offset idx errors
                 | Cat_Upvalue \<Rightarrow> check_upvalue_bounds op offset idx upvalue_count errors
                 | Cat_Local \<Rightarrow> check_local_bounds op offset idx errors
                 | Cat_None \<Rightarrow> errors)"

section \<open>Jump collection\<close>

text \<open>\<^verbatim>\<open>static_cast<std::size_t>(read_u32_be(&code[offset + 1]))\<close>\<close>

definition jump_operand :: "byte list \<Rightarrow> nat \<Rightarrow> nat" where
  "jump_operand code offset = unat (read_u32_be (drop (offset + 1) code))"

definition collect_jumps ::
    "op \<Rightarrow> nat \<Rightarrow> byte list \<Rightarrow> jump_record list \<Rightarrow> verify_error list \<Rightarrow>
     jump_record list \<times> verify_error list" where
  "collect_jumps op offset code jumps errors =
     (if is_forward_jump op then
        (if \<not> in_bounds code offset k_jump_instruction_size then (jumps, errors)
         else let jump_offset = jump_operand code offset;
                  target = resolve_forward_jump_target offset jump_offset
              in if length code \<le> target
                 then (jumps, errors @ [jump_target_beyond_code offset target (length code)])
                 else (jumps @ [\<lparr>jr_offset = offset, jr_target = target, jr_is_loop = False\<rparr>], errors))
      else if op = Op_Loop then
        (if \<not> in_bounds code offset k_jump_instruction_size then (jumps, errors)
         else let loop_offset = jump_operand code offset
              in if offset + k_jump_instruction_size < loop_offset
                 then (jumps, errors @ [loop_underflow offset loop_offset])
                 else (jumps @ [\<lparr>jr_offset = offset,
                                  jr_target = resolve_loop_jump_target offset loop_offset,
                                  jr_is_loop = True\<rparr>], errors))
      else (jumps, errors))"

section \<open>Stack effects\<close>

record stack_effect =
  pops :: int
  pushes :: int

definition eff :: "int \<Rightarrow> int \<Rightarrow> stack_effect" where
  "eff a b = \<lparr>pops = a, pushes = b\<rparr>"

definition instruction_stack_effect :: "byte list \<Rightarrow> nat \<Rightarrow> stack_effect" where
  "instruction_stack_effect code offset =
     (let u8_operand = (\<lambda>i. int (unat (code ! (offset + i))));
          u16_operand = (\<lambda>i. int (unat (read_u16_be (drop (offset + i) code))));
          op = code ! offset
      in if op \<in> {Op_Constant, Op_ConstantLong, Op_GetLocal, Op_GetUpvalue, Op_GetGlobal, Op_None,
                   Op_True, Op_False, Op_Zero, Op_One, Op_MakeClosure, Op_TaskScopeEnd} then eff 0 1
         else if op \<in> {Op_Pop, Op_SetLocalPop, Op_Return, Op_Rethrow} then eff 1 0
         else if op = Op_Dup then eff 1 2
         else if op = Op_Dup2 then eff 2 4
         else if op = Op_Swap then eff 2 2
         else if op \<in> {Op_SetLocal, Op_SetUpvalue, Op_SetGlobal, Op_Negate, Op_Increment,
                        Op_Decrement, Op_Not, Op_MakeSuccess, Op_MakeFailure, Op_MakeSome, Op_Unwrap,
                        Op_ResultInner, Op_IsSuccess, Op_IsSome, Op_EnsureSuccess, Op_Downcast,
                        Op_TrustedDowncast, Op_IsType, Op_JumpIfFalse, Op_JumpIfTrue,
                        Op_NullCoalesce, Op_GetField, Op_GetFieldOpt, Op_GetFieldUnique, Op_Await,
                        Op_ForIterInit, Op_TypeOf, Op_IntToNumber, Op_WidenNumber, Op_Clone} then eff 1 1
         else if op \<in> {Op_Add, Op_Subtract, Op_Multiply, Op_Divide, Op_IntDivide, Op_Modulo,
                        Op_Equal, Op_NotEqual, Op_Less, Op_LessEqual, Op_Greater, Op_GreaterEqual,
                        Op_And, Op_Or, Op_Concatenate, Op_MakeRange, Op_MakeRangeInc, Op_IndexGet,
                        Op_IndexGetOpt, Op_IndexGetUnique, Op_SetField, Op_MakeChoice,
                        Op_MakeChoiceConstructor, Op_Pipe, Op_ErrorPipe, Op_Contains} then eff 2 1
         else if op = Op_IndexSet then eff 3 1
         else if op \<in> {Op_Interpolate, Op_Print, Op_Assert} then eff (u8_operand 1) 1
         else if op \<in> {Op_MakeArray, Op_MakeTuple} then eff (u16_operand 1) 1
         else if op = Op_MakeDict then eff (2 * u16_operand 1) 1
         else if op = Op_MakeRecord then eff (u8_operand 3) 1
         else if op \<in> {Op_RecordWith, Op_Call, Op_TailCall, Op_Spawn} then eff (u8_operand 1 + 1) 1
         else if op = Op_CallNamed then eff (u8_operand 1 + 2 * u8_operand 2 + 1) 1
         else if op = Op_ForIterStep then eff 1 2
         else if op = Op_ForIterStepKV then eff 1 3
         else eff 0 0)"

section \<open>The stack-depth walk\<close>

definition k_max_visits_per_instruction :: nat where
  "k_max_visits_per_instruction = 64"

definition values_missing_when_exhausted :: "op \<Rightarrow> int" where
  "values_missing_when_exhausted op =
     (if op = Op_ForIterStep then 1 else if op = Op_ForIterStepKV then 2 else 0)"

definition previous_op :: "byte list \<Rightarrow> nat list \<Rightarrow> nat \<Rightarrow> op option" where
  "previous_op code boundaries offset =
     (let it = length (takeWhile (\<lambda>b. b < offset) boundaries)
      in if it = 0 then None else Some (code ! (boundaries ! (it - 1))))"

definition always_transfers :: "op \<Rightarrow> bool" where
  "always_transfers op \<longleftrightarrow>
     op = Op_Return \<or> op = Op_GetLocalReturn \<or> op = Op_Rethrow \<or> op = Op_EndModule \<or>
     op = Op_Jump \<or> op = Op_Loop"

text \<open>
  One visit of the walk, after \<^verbatim>\<open>deepest[offset] = depth\<close>: the error that ends the walk, or
  the entries pushed on \<^verbatim>\<open>pending\<close>, in push order.  The \<^verbatim>\<open>Loop\<close> case reads
  \<^verbatim>\<open>deepest[target]\<close> without a check; \<^verbatim>\<open>None\<close> is that read past the end of the
  vector, whose behaviour C++ leaves undefined.
\<close>

definition depth_visit ::
    "byte list \<Rightarrow> nat list \<Rightarrow> int list \<Rightarrow> nat \<Rightarrow> int \<Rightarrow>
     (verify_error + (nat \<times> int) list) option" where
  "depth_visit code boundaries deepest offset depth =
     (let op = code ! offset;
          effect = instruction_stack_effect code offset
      in if depth < pops effect then Some (Inl (stack_underflow_error offset op))
         else let after = depth - pops effect + pushes effect
         in if k_max_stack_depth < after then Some (Inl (stack_overflow_error offset after))
         else let next = offset + instruction_size code offset
         in if \<not> always_transfers op \<and> length code \<le> next
            then Some (Inl (falls_off_end_error offset (length code)))
         else if op \<in> {Op_Return, Op_GetLocalReturn, Op_Rethrow, Op_EndModule} then Some (Inr [])
         else if op = Op_Jump
         then Some (Inr [(resolve_forward_jump_target offset (jump_operand code offset), after)])
         else if op = Op_Loop then
           (if jump_operand code offset \<le> next then
              let target = resolve_loop_jump_target offset (jump_operand code offset)
              in if length deepest \<le> target then None
                 else if 0 \<le> deepest ! target \<and> deepest ! target < after
                 then Some (Inl (loop_stack_growth_error offset (after - deepest ! target)))
                 else Some (Inr [(target, after)])
            else Some (Inr []))
         else if op \<in> {Op_JumpIfFalse, Op_JumpIfTrue, Op_NullCoalesce} then
           (let missing = (case previous_op code boundaries offset of
                             Some previous \<Rightarrow>
                               if op = Op_JumpIfFalse then values_missing_when_exhausted previous else 0
                           | None \<Rightarrow> 0)
            in if after < missing then Some (Inl (stack_underflow_error offset op))
               else Some (Inr [(next, after),
                 (resolve_forward_jump_target offset (jump_operand code offset), after - missing)]))
         else if op = Op_TryCatch then
           Some (Inr [(next, after),
             (resolve_forward_jump_target offset (jump_operand code offset), after + 1)])
         else Some (Inr [(next, after)]))"

lemma depth_visit_length: "depth_visit code bs deepest offset depth = Some (Inr ps) \<Longrightarrow> length ps \<le> 2"
  by (auto simp: depth_visit_def Let_def split: if_splits option.splits)

text \<open>
  The \<^verbatim>\<open>while (!pending.empty())\<close> loop; it returns the errors and the final
  \<^verbatim>\<open>deepest\<close> vector, or \<^verbatim>\<open>None\<close> when a visit reads past the vector.  Every visit
  spends one step of the budget and adds at most one entry net, every skip removes one, so the loop ends.
\<close>

function depth_walk ::
    "byte list \<Rightarrow> nat list \<Rightarrow> nat \<Rightarrow> nat \<Rightarrow> int list \<Rightarrow> (nat \<times> int) list \<Rightarrow> verify_error list \<Rightarrow>
     (verify_error list \<times> int list) option" where
  "depth_walk code boundaries step_budget steps deepest [] errors = Some (errors, deepest)"
| "depth_walk code boundaries step_budget steps deepest ((offset, depth) # pending) errors =
     (if length code \<le> offset \<or> offset \<notin> set boundaries \<or> depth \<le> deepest ! offset
      then depth_walk code boundaries step_budget steps deepest pending errors
      else if Op_EndModule < code ! offset \<or> length code < offset + instruction_size code offset
      then depth_walk code boundaries step_budget steps deepest pending errors
      else if step_budget < Suc steps
      then Some (errors @ [stack_analysis_budget_error offset], deepest)
      else let deepest' = deepest[offset := depth]
           in case depth_visit code boundaries deepest' offset depth of
                None \<Rightarrow> None
              | Some (Inl e) \<Rightarrow> Some (errors @ [e], deepest')
              | Some (Inr pushed) \<Rightarrow>
                  depth_walk code boundaries step_budget (Suc steps) deepest' (rev pushed @ pending) errors)"
  by pat_completeness auto
termination
  by (relation "measure (\<lambda>(_, _, budget, steps, _, pending, _). 2 * (budget - steps) + length pending)")
    (auto dest: depth_visit_length)

definition check_stack_depths ::
    "compiled_function \<Rightarrow> nat list \<Rightarrow> verify_error list \<Rightarrow> verify_error list option" where
  "check_stack_depths func boundaries errors =
     (let code = ch_code (cf_chunk func);
          deepest = replicate (length code) (- 1);
          pending = [(0, cf_arity func + k_first_parameter_slot)];
          step_budget = length boundaries * k_max_visits_per_instruction + 1
      in map_option fst (depth_walk code boundaries step_budget 0 deepest pending errors))"

section \<open>Verification\<close>

function verify_scan ::
    "compiled_function \<Rightarrow> nat \<Rightarrow> nat list \<Rightarrow> jump_record list \<Rightarrow> verify_error list \<Rightarrow>
     nat list \<times> jump_record list \<times> verify_error list" where
  "verify_scan func offset boundaries jumps errors =
     (let code = ch_code (cf_chunk func)
      in if offset < length code then
           let boundaries = boundaries @ [offset]; b = code ! offset
           in if Op_EndModule < b then (boundaries, jumps, errors @ [invalid_opcode_error offset b])
              else let size = instruction_size code offset
              in if length code < offset + size
                 then (boundaries, jumps,
                       errors @ [instruction_truncated_error offset b size (length code - offset)])
                 else let errors = check_operand_bounds (cf_chunk func) b offset
                                     (cf_upvalue_count func) code errors;
                          (jumps, errors) = collect_jumps b offset code jumps errors
                      in verify_scan func (offset + size) boundaries jumps errors
         else (boundaries, jumps, errors))"
  by pat_completeness auto
termination
  by (relation "measure (\<lambda>(func, offset, _). length (ch_code (cf_chunk func)) - offset)")
    (auto simp: diff_less_mono2)

declare verify_scan.simps [simp del]

definition check_jump_targets ::
    "byte list \<Rightarrow> nat list \<Rightarrow> jump_record list \<Rightarrow> verify_error list \<Rightarrow> verify_error list" where
  "check_jump_targets code boundaries jumps errors =
     fold (\<lambda>j es. if jr_target j < length code \<and> jr_target j \<notin> set boundaries
                  then es @ [jump_not_on_boundary (jr_offset j) (jr_target j) (jr_is_loop j)]
                  else es) jumps errors"

text \<open>
  The error list of a function, or \<^verbatim>\<open>None\<close> where the stack-depth walk reads past its vector
  and the source has no defined result.
\<close>

definition verify :: "compiled_function \<Rightarrow> verify_error list option" where
  "verify func =
     (let code = ch_code (cf_chunk func)
      in if code = [] then Some [empty_bytecode_error]
         else let (boundaries, jumps, errors) = verify_scan func 0 [] [] [];
                  errors = check_jump_targets code boundaries jumps errors
              in check_stack_depths func boundaries errors)"

end
