(* ===== verification/Verifier_Sound.thy ===== *)
theory Verifier_Sound
  imports Verifier
begin

text \<open>
  What an empty error list of the verifier guarantees.  The reference notions come first: the
  instruction starts of a code vector, when an instruction's operands index existing entries, and the
  control-flow relation with the stack depth each edge leaves.  The linear pass is then shown to check
  exactly the per-instruction conditions, and the worklist walk to compute an upper bound of the depth
  of every reachable configuration (the invariant is the one of a data-flow analysis: every successor of
  a visited instruction is covered by the recorded depth or still pending).
\<close>

section \<open>Reference: instruction starts and operand validity\<close>

function instr_starts :: "byte list \<Rightarrow> nat \<Rightarrow> nat list" where
  "instr_starts code offset =
     (if offset < length code then offset # instr_starts code (offset + instruction_size code offset)
      else [])"
  by pat_completeness auto
termination
  by (relation "measure (\<lambda>(code, offset). length code - offset)") (auto simp: diff_less_mono2)

declare instr_starts.simps [simp del]

definition instruction_fits :: "byte list \<Rightarrow> nat \<Rightarrow> bool" where
  "instruction_fits code offset \<longleftrightarrow>
     code ! offset \<le> Op_EndModule \<and> offset + instruction_size code offset \<le> length code"

definition operand_ok :: "compiled_function \<Rightarrow> nat \<Rightarrow> bool" where
  "operand_ok func offset \<longleftrightarrow>
     (let code = ch_code (cf_chunk func); op = code ! offset;
          idx = read_u16_be (drop (offset + 1) code)
      in if op = Op_ConstantLong
         then unat (read_u32_be (drop (offset + 1) code)) < cp_size (ch_constants (cf_chunk func))
         else case operand_category op of
                Cat_None \<Rightarrow> True
              | Cat_Constant \<Rightarrow> unat idx < cp_size (ch_constants (cf_chunk func))
              | Cat_Name \<Rightarrow> unat idx < length (nt_names (ch_names (cf_chunk func)))
              | Cat_Upvalue \<Rightarrow> idx < word_of_int (cf_upvalue_count func)
              | Cat_Local \<Rightarrow> idx < k_max_locals)"

text \<open>The target of a jump instruction, when it has one.\<close>

definition jump_target :: "byte list \<Rightarrow> nat \<Rightarrow> nat option" where
  "jump_target code offset =
     (if is_forward_jump (code ! offset)
      then Some (resolve_forward_jump_target offset (jump_operand code offset))
      else if code ! offset = Op_Loop
      then Some (resolve_loop_jump_target offset (jump_operand code offset))
      else None)"

text \<open>A backward jump of length 0 that is the last instruction: its target is the end of the code.\<close>

definition loops_at_end :: "byte list \<Rightarrow> nat \<Rightarrow> bool" where
  "loops_at_end code s \<longleftrightarrow> s + 5 = length code \<and> code ! s = Op_Loop \<and> jump_operand code s = 0"

section \<open>Lemmas: instruction starts\<close>

lemma instr_starts_bounds: "s \<in> set (instr_starts code offset) \<Longrightarrow> offset \<le> s \<and> s < length code"
proof (induction code offset rule: instr_starts.induct)
  case (1 code offset)
  then show ?case
    by (subst (asm) instr_starts.simps) (force split: if_splits)
qed

lemma instr_starts_sorted: "sorted_wrt (<) (instr_starts code offset)"
proof (induction code offset rule: instr_starts.induct)
  case (1 code offset)
  show ?case
  proof (cases "offset < length code")
    case True
    have "offset < s" if "s \<in> set (instr_starts code (offset + instruction_size code offset))" for s
      using instr_starts_bounds [OF that] instruction_size_pos [of code offset] by linarith
    with 1 True show ?thesis by (subst instr_starts.simps) simp
  qed (subst instr_starts.simps, simp)
qed

lemma instr_starts_first: "offset < length code \<Longrightarrow> offset \<in> set (instr_starts code offset)"
  by (subst instr_starts.simps) simp

text \<open>The instruction after a start is a start again, unless the code ends there.\<close>

lemma instr_starts_next:
  assumes "s \<in> set (instr_starts code offset)" and "s + instruction_size code s < length code"
  shows "s + instruction_size code s \<in> set (instr_starts code offset)"
  using assms
proof (induction code offset rule: instr_starts.induct)
  case (1 code offset)
  show ?case
  proof (cases "offset < length code")
    case True
    then have starts: "instr_starts code offset =
        offset # instr_starts code (offset + instruction_size code offset)"
      by (subst instr_starts.simps) simp
    from "1.prems"(1) consider "s = offset"
      | "s \<in> set (instr_starts code (offset + instruction_size code offset))"
      unfolding starts by auto
    then show ?thesis
    proof cases
      case 1
      with "1.prems"(2) show ?thesis by (simp add: starts instr_starts_first)
    next
      case 2
      with "1.IH" True "1.prems"(2) show ?thesis by (simp add: starts)
    qed
  next
    case False
    with "1.prems" show ?thesis by (subst (asm) instr_starts.simps) simp
  qed
qed

section \<open>Lemmas: the linear pass\<close>

text \<open>Checks only append: an empty list at the end was empty all along.\<close>

lemma check_operand_bounds_Nil:
  assumes "offset + instruction_size code offset \<le> length code" and "code = ch_code (cf_chunk func)"
  shows "check_operand_bounds (cf_chunk func) (code ! offset) offset (cf_upvalue_count func) code es = [] \<longleftrightarrow>
         es = [] \<and> operand_ok func offset"
proof (cases "operand_category (code ! offset) = Cat_None")
  case True
  have "operand_category Op_ConstantLong \<noteq> Cat_None"
    by (simp add: operand_category_def opcode_operand_category_def find_opcode_info_eq opcode_rows_def row_def)
  with True assms(2) show ?thesis
    by (auto simp: check_operand_bounds_def operand_ok_def Let_def)
next
  case False
  note size = categorised_base_size [OF False] instruction_size_ge_base [of code offset] assms(1)
  show ?thesis
  proof (cases "code ! offset = Op_ConstantLong")
    case True
    with size have "in_bounds code offset 5" by (simp add: in_bounds_iff)
    with False True show ?thesis
      by (simp add: check_operand_bounds_def operand_ok_def check_constant_long_bounds_def
          k_u32_operand_size_def Let_def not_le flip: assms(2))
  next
    case not_long: False
    with size have "in_bounds code offset 3" by (simp add: in_bounds_iff)
    with False not_long show ?thesis
      by (cases "operand_category (code ! offset)")
        (auto simp add: check_operand_bounds_def operand_ok_def check_constant_bounds_def
          check_name_bounds_def check_upvalue_bounds_def check_local_bounds_def Let_def
          simp flip: assms(2))
  qed
qed

lemma collect_jumps_Nil:
  assumes "offset + instruction_size code offset \<le> length code"
  shows "snd (collect_jumps (code ! offset) offset code js es) = [] \<longleftrightarrow>
         es = [] \<and>
         (is_forward_jump (code ! offset) \<longrightarrow>
            resolve_forward_jump_target offset (jump_operand code offset) < length code) \<and>
         (code ! offset = Op_Loop \<longrightarrow> jump_operand code offset \<le> offset + 5)"
proof -
  have "in_bounds code offset 5" if "is_forward_jump (code ! offset) \<or> code ! offset = Op_Loop"
    using that assms instruction_size_jump [of code offset] by (simp add: is_jump_iff in_bounds_iff)
  moreover have "\<not> is_forward_jump Op_Loop" by (simp add: is_forward_jump_iff)
  ultimately show ?thesis
    by (auto simp: collect_jumps_def Let_def k_jump_instruction_size_def not_le)
qed

lemma collect_jumps_records:
  assumes "offset + instruction_size code offset \<le> length code"
    and "snd (collect_jumps (code ! offset) offset code js es) = []"
  shows "map jr_target (fst (collect_jumps (code ! offset) offset code js es)) =
         map jr_target js @ (case jump_target code offset of None \<Rightarrow> [] | Some t \<Rightarrow> [t])"
proof -
  have "in_bounds code offset 5" if "is_forward_jump (code ! offset) \<or> code ! offset = Op_Loop"
    using that assms(1) instruction_size_jump [of code offset] by (simp add: is_jump_iff in_bounds_iff)
  with assms(2) show ?thesis
    by (auto simp: collect_jumps_def jump_target_def Let_def k_jump_instruction_size_def
        split: if_splits)
qed

text \<open>
  What the linear pass has established when it reports nothing: the boundaries are the instruction
  starts, every instruction is well formed, and every jump was recorded.
\<close>

definition linear_ok :: "compiled_function \<Rightarrow> nat \<Rightarrow> bool" where
  "linear_ok func offset \<longleftrightarrow>
     (let code = ch_code (cf_chunk func)
      in instruction_fits code offset \<and> operand_ok func offset \<and>
         (is_forward_jump (code ! offset) \<longrightarrow>
            resolve_forward_jump_target offset (jump_operand code offset) < length code) \<and>
         (code ! offset = Op_Loop \<longrightarrow> jump_operand code offset \<le> offset + 5))"

lemma verify_scan_sound:
  assumes "verify_scan func offset bs js es = (bs', js', [])"
  shows "es = [] \<and> bs' = bs @ instr_starts (ch_code (cf_chunk func)) offset \<and>
         (\<forall>s \<in> set (instr_starts (ch_code (cf_chunk func)) offset). linear_ok func s \<and>
            (\<forall>t. jump_target (ch_code (cf_chunk func)) s = Some t \<longrightarrow> t \<in> jr_target ` set js')) \<and>
         jr_target ` set js \<subseteq> jr_target ` set js'"
  using assms
proof (induction func offset bs js es rule: verify_scan.induct)
  case (1 func offset bs js es)
  let ?code = "ch_code (cf_chunk func)"
  let ?size = "instruction_size ?code offset"
  show ?case
  proof (cases "offset < length ?code")
    case False
    with "1.prems" show ?thesis
      by (simp add: verify_scan.simps [of func offset] instr_starts.simps [of ?code offset])
  next
    case True
    with "1.prems" have valid: "?code ! offset \<le> Op_EndModule" and fits: "offset + ?size \<le> length ?code"
      by (auto simp: verify_scan.simps [of func offset] Let_def split: if_splits)
    define es1 where "es1 = check_operand_bounds (cf_chunk func) (?code ! offset) offset
        (cf_upvalue_count func) ?code es"
    obtain js2 es2 where cj: "collect_jumps (?code ! offset) offset ?code js es1 = (js2, es2)"
      by (cases "collect_jumps (?code ! offset) offset ?code js es1")
    have nv: "\<not> Op_EndModule < ?code ! offset" and nf: "\<not> length ?code < offset + ?size"
      using valid fits by auto
    have rec: "verify_scan func (offset + ?size) (bs @ [offset]) js2 es2 = (bs', js', [])"
      using "1.prems" True cj unfolding verify_scan.simps [of func offset bs js es] Let_def es1_def
      by (simp only: nv nf if_True if_False) simp
    note IH = "1.IH" [OF refl True refl refl _ refl _ es1_def cj [symmetric] refl rec]
    have IH': "es2 = [] \<and> bs' = (bs @ [offset]) @ instr_starts ?code (offset + ?size) \<and>
         (\<forall>s \<in> set (instr_starts ?code (offset + ?size)). linear_ok func s \<and>
            (\<forall>t. jump_target ?code s = Some t \<longrightarrow> t \<in> jr_target ` set js')) \<and>
         jr_target ` set js2 \<subseteq> jr_target ` set js'"
      using IH valid fits by (simp add: not_less)
    then have "es2 = []" by simp
    then have ok: "es1 = []" "linear_ok func offset" "es = []"
      using collect_jumps_Nil [OF fits, of js es1] check_operand_bounds_Nil [OF fits refl, of es]
        cj valid fits
      by (auto simp: linear_ok_def instruction_fits_def es1_def Let_def)
    have "map jr_target js2 = map jr_target js @ (case jump_target ?code offset of None \<Rightarrow> [] | Some t \<Rightarrow> [t])"
      using collect_jumps_records [OF fits, of js es1] cj \<open>es2 = []\<close> by simp
    then have "jr_target ` set js2 =
        jr_target ` set js \<union> (case jump_target ?code offset of None \<Rightarrow> {} | Some t \<Rightarrow> {t})"
      by (metis (no_types, lifting) image_set set_append empty_set list.simps(15) option.case_eq_if)
    with IH' ok True show ?thesis
      by (auto simp: instr_starts.simps [of ?code offset] split: option.splits)
  qed
qed

lemma check_jump_targets_Nil:
  "check_jump_targets code bs js es = [] \<longleftrightarrow>
   es = [] \<and> (\<forall>t \<in> jr_target ` set js. t < length code \<longrightarrow> t \<in> set bs)"
  unfolding check_jump_targets_def by (induction js arbitrary: es) auto

section \<open>Reference: control flow with stack depths\<close>

text \<open>
  The edges the VM can take out of an instruction, with the change each makes to the stack depth of the
  frame (which counts the callee in slot 0 and its arguments).  An exception raised inside a try body
  enters the handler at the depth of the \<^verbatim>\<open>TryCatch\<close> plus the error value; a
  \<^verbatim>\<open>JumpIfFalse\<close> right after an iterator step is taken when the iterator is exhausted, which
  pushed less.
\<close>

definition depth_change :: "byte list \<Rightarrow> nat \<Rightarrow> int" where
  "depth_change code offset =
     pushes (instruction_stack_effect code offset) - pops (instruction_stack_effect code offset)"

definition exhausted_missing :: "byte list \<Rightarrow> nat \<Rightarrow> int" where
  "exhausted_missing code offset =
     (case previous_op code (instr_starts code 0) offset of
        Some previous \<Rightarrow>
          if code ! offset = Op_JumpIfFalse then values_missing_when_exhausted previous else 0
      | None \<Rightarrow> 0)"

inductive flow_edge :: "byte list \<Rightarrow> nat \<Rightarrow> nat \<Rightarrow> int \<Rightarrow> bool" for code where
  fall_through: "\<not> always_transfers (code ! offset) \<Longrightarrow>
     flow_edge code offset (offset + instruction_size code offset) (depth_change code offset)"
| jump: "code ! offset = Op_Jump \<Longrightarrow>
     flow_edge code offset (resolve_forward_jump_target offset (jump_operand code offset))
       (depth_change code offset)"
| loop: "code ! offset = Op_Loop \<Longrightarrow>
     flow_edge code offset (resolve_loop_jump_target offset (jump_operand code offset))
       (depth_change code offset)"
| branch: "code ! offset \<in> {Op_JumpIfFalse, Op_JumpIfTrue, Op_NullCoalesce} \<Longrightarrow>
     flow_edge code offset (resolve_forward_jump_target offset (jump_operand code offset))
       (depth_change code offset - exhausted_missing code offset)"
| handler: "code ! offset = Op_TryCatch \<Longrightarrow>
     flow_edge code offset (resolve_forward_jump_target offset (jump_operand code offset))
       (depth_change code offset + 1)"

inductive_simps flow_edge_iff: "flow_edge code offset target change"

text \<open>Configurations (offset and depth) reachable from the entry of a function.\<close>

inductive reachable :: "compiled_function \<Rightarrow> nat \<Rightarrow> int \<Rightarrow> bool" for func where
  entry: "reachable func 0 (cf_arity func + 1)"
| step: "reachable func offset d \<Longrightarrow> offset < length (ch_code (cf_chunk func)) \<Longrightarrow>
     flow_edge (ch_code (cf_chunk func)) offset target change \<Longrightarrow> reachable func target (d + change)"

section \<open>Lemmas: one visit of the walk\<close>

lemma depth_visit_edges:
  assumes "depth_visit code (instr_starts code 0) deepest offset d = Some (Inr ps)"
    and "code ! offset = Op_Loop \<longrightarrow> jump_operand code offset \<le> offset + 5"
  shows "flow_edge code offset target change \<longleftrightarrow> (target, d + change) \<in> set ps"
proof -
  have loop: "instruction_size code offset = 5" if "code ! offset = Op_Loop"
    using that by (intro instruction_size_jump) (simp add: is_jump_iff)
  let ?op = "code ! offset"
  consider "?op \<in> {Op_Return, Op_GetLocalReturn, Op_Rethrow, Op_EndModule}" | "?op = Op_Jump"
    | "?op = Op_Loop" | "?op \<in> {Op_JumpIfFalse, Op_JumpIfTrue, Op_NullCoalesce}" | "?op = Op_TryCatch"
    | "\<not> always_transfers ?op" "?op \<notin> {Op_JumpIfFalse, Op_JumpIfTrue, Op_NullCoalesce, Op_TryCatch}"
    unfolding always_transfers_def by auto
  then show ?thesis
  proof cases
    case 1
    then show ?thesis
      using assms(1) by (elim insertE) (simp_all add: depth_visit_def flow_edge_iff always_transfers_def
          Let_def split: if_splits)
  next
    case 2
    then show ?thesis
      using assms(1) by (auto simp: depth_visit_def flow_edge_iff always_transfers_def Let_def
          depth_change_def split: if_splits)
  next
    case 3
    then show ?thesis
      using assms loop by (auto simp: depth_visit_def flow_edge_iff always_transfers_def Let_def
          depth_change_def split: if_splits)
  next
    case 4
    then have nt: "\<not> always_transfers ?op" by (auto simp: always_transfers_def)
    let ?after = "d + depth_change code offset"
    have ps: "ps = [(offset + instruction_size code offset, ?after),
        (resolve_forward_jump_target offset (jump_operand code offset),
         ?after - exhausted_missing code offset)]"
      using 4 assms(1)
      by (elim insertE) (auto simp: depth_visit_def always_transfers_def Let_def depth_change_def
          exhausted_missing_def split: if_splits option.splits)
    have "flow_edge code offset target change \<longleftrightarrow>
        target = offset + instruction_size code offset \<and> change = depth_change code offset \<or>
        target = resolve_forward_jump_target offset (jump_operand code offset) \<and>
        change = depth_change code offset - exhausted_missing code offset"
      using 4 nt by (elim insertE) (auto simp: flow_edge_iff)
    then show ?thesis by (auto simp: ps)
  next
    case 5
    then show ?thesis
      using assms(1) by (auto simp: depth_visit_def flow_edge_iff always_transfers_def Let_def
          depth_change_def split: if_splits)
  next
    case 6
    then have "ps = [(offset + instruction_size code offset, d + depth_change code offset)]"
      using assms(1) by (auto simp: depth_visit_def always_transfers_def Let_def depth_change_def
          split: if_splits)
    with 6 show ?thesis by (auto simp: flow_edge_iff always_transfers_def)
  qed
qed

lemma depth_visit_Inr:
  assumes "depth_visit code bs deepest offset d = Some (Inr ps)"
  shows "pops (instruction_stack_effect code offset) \<le> d"
    and "d + depth_change code offset \<le> k_max_stack_depth"
    and "\<not> always_transfers (code ! offset) \<Longrightarrow> offset + instruction_size code offset < length code"
    and "code ! offset = Op_Loop \<Longrightarrow> jump_operand code offset \<le> offset + instruction_size code offset \<Longrightarrow>
           resolve_loop_jump_target offset (jump_operand code offset) < length deepest"
  using assms by (auto simp: depth_visit_def depth_change_def Let_def always_transfers_def split: if_splits)

lemma instruction_stack_effect_nonneg:
  "0 \<le> pops (instruction_stack_effect code offset)" "0 \<le> pushes (instruction_stack_effect code offset)"
  by (simp_all add: instruction_stack_effect_def eff_def Let_def)

lemma depth_visit_nonneg:
  assumes "depth_visit code bs deepest offset d = Some (Inr ps)" and "(t, d') \<in> set ps"
  shows "0 \<le> d'"
  using assms instruction_stack_effect_nonneg [of code offset]
  by (auto simp: depth_visit_def Let_def split: if_splits option.splits)

section \<open>The invariant of the walk\<close>

definition covered :: "byte list \<Rightarrow> int list \<Rightarrow> (nat \<times> int) list \<Rightarrow> nat \<Rightarrow> int \<Rightarrow> bool" where
  "covered code deepest pending offset d \<longleftrightarrow>
     offset \<notin> set (instr_starts code 0) \<or> d \<le> deepest ! offset \<or>
     (\<exists>d' \<ge> d. (offset, d') \<in> set pending)"

text \<open>What the walk has established at an instruction whose deepest depth is recorded.\<close>

definition visited_ok :: "byte list \<Rightarrow> nat \<Rightarrow> int \<Rightarrow> bool" where
  "visited_ok code offset d \<longleftrightarrow>
     pops (instruction_stack_effect code offset) \<le> d \<and>
     d + depth_change code offset \<le> k_max_stack_depth \<and>
     (\<not> always_transfers (code ! offset) \<longrightarrow> offset + instruction_size code offset < length code) \<and>
     (code ! offset = Op_Loop \<longrightarrow>
        resolve_loop_jump_target offset (jump_operand code offset) < length code) \<and>
     (\<forall>t c. flow_edge code offset t c \<longrightarrow> 0 \<le> d + c)"

definition walk_inv :: "byte list \<Rightarrow> int list \<Rightarrow> (nat \<times> int) list \<Rightarrow> bool" where
  "walk_inv code deepest pending \<longleftrightarrow>
     length deepest = length code \<and> (\<forall>(t, d) \<in> set pending. 0 \<le> d) \<and>
     (\<forall>s \<in> set (instr_starts code 0). 0 \<le> deepest ! s \<longrightarrow>
        visited_ok code s (deepest ! s) \<and>
        (\<forall>t c. flow_edge code s t c \<longrightarrow> covered code deepest pending t (deepest ! s + c)))"

lemma covered_skip:
  assumes "covered code deepest ((o', d') # pending) t d"
    and "o' \<notin> set (instr_starts code 0) \<or> d' \<le> deepest ! o'"
  shows "covered code deepest pending t d"
  using assms by (auto simp: covered_def)

lemma covered_visit:
  assumes "covered code deepest ((o', d') # pending) t d"
    and "deepest ! o' < d'" "o' < length deepest"
  shows "covered code (deepest[o' := d']) (ps @ pending) t d"
  using assms by (auto simp: covered_def nth_list_update)

lemma walk_inv_skip:
  assumes "walk_inv code deepest ((o', d') # pending)"
    and "o' \<notin> set (instr_starts code 0) \<or> d' \<le> deepest ! o'"
  shows "walk_inv code deepest pending"
  using assms covered_skip unfolding walk_inv_def by (metis list.set_intros(2))

lemma walk_inv_visit:
  assumes inv: "walk_inv code deepest ((o', d') # pending)"
    and start: "o' \<in> set (instr_starts code 0)" and deeper: "deepest ! o' < d'"
    and loops: "code ! o' = Op_Loop \<longrightarrow> jump_operand code o' \<le> o' + 5"
    and visit: "depth_visit code (instr_starts code 0) (deepest[o' := d']) o' d' = Some (Inr ps)"
  shows "walk_inv code (deepest[o' := d']) (rev ps @ pending)"
proof -
  have len: "o' < length deepest"
    using inv instr_starts_bounds [OF start] by (simp add: walk_inv_def)
  have new: "covered code (deepest[o' := d']) (rev ps @ pending) t (d' + c)" if "flow_edge code o' t c" for t c
    using that depth_visit_edges [OF visit loops] by (auto simp: covered_def)
  have backward: "jump_operand code o' \<le> o' + instruction_size code o'" if "code ! o' = Op_Loop"
    using that loops instruction_size_jump [of code o'] by (simp add: is_jump_iff)
  have ok: "visited_ok code o' d'"
    using depth_visit_Inr [OF visit] depth_visit_edges [OF visit loops] depth_visit_nonneg [OF visit] inv backward
    by (auto simp: visited_ok_def walk_inv_def)
  have old: "covered code (deepest[o' := d']) (rev ps @ pending) t d"
    if "covered code deepest ((o', d') # pending) t d" for t d
    using covered_visit [OF that deeper len] .
  show ?thesis
    unfolding walk_inv_def
  proof (intro conjI ballI impI allI)
    show "length (deepest[o' := d']) = length code" using inv by (simp add: walk_inv_def)
    show "case x of (t, d) \<Rightarrow> 0 \<le> d" if "x \<in> set (rev ps @ pending)" for x
      using that inv depth_visit_nonneg [OF visit] by (auto simp: walk_inv_def)
    fix s assume s: "s \<in> set (instr_starts code 0)" "0 \<le> deepest[o' := d'] ! s"
    show "visited_ok code s (deepest[o' := d'] ! s)"
      using s ok inv len by (cases "s = o'") (auto simp: walk_inv_def)
    fix t c assume "flow_edge code s t c"
    then show "covered code (deepest[o' := d']) (rev ps @ pending) t (deepest[o' := d'] ! s + c)"
      using s new old inv len by (cases "s = o'") (auto simp: walk_inv_def)
  qed
qed

text \<open>A walk that reports nothing leaves an invariant with nothing pending, above the entries it began with.\<close>

lemma depth_walk_sound:
  assumes "depth_walk code bs budget steps deepest pending es = Some ([], final)"
    and "bs = instr_starts code 0" and "walk_inv code deepest pending"
    and "\<forall>s \<in> set (instr_starts code 0). instruction_fits code s \<and>
           (code ! s = Op_Loop \<longrightarrow> jump_operand code s \<le> s + 5)"
  shows "es = [] \<and> walk_inv code final [] \<and>
         (\<forall>o' d. covered code deepest pending o' d \<longrightarrow> covered code final [] o' d)"
  using assms
proof (induction code bs budget steps deepest pending es rule: depth_walk.induct)
  case (1 code bs budget steps deepest es)
  then show ?case by simp
next
  case (2 code bs budget steps deepest o' d' pending es)
  note fits = "2.prems"(4)
  show ?case
  proof (cases "length code \<le> o' \<or> o' \<notin> set bs \<or> d' \<le> deepest ! o'")
    case True
    then have skip: "o' \<notin> set (instr_starts code 0) \<or> d' \<le> deepest ! o'"
      using "2.prems"(2) instr_starts_bounds by fastforce
    show ?thesis
      using "2.IH"(1) [OF True _ "2.prems"(2) walk_inv_skip [OF "2.prems"(3) skip] fits] True
        "2.prems"(1) covered_skip [OF _ skip] by auto
  next
    case False
    then have start: "o' \<in> set (instr_starts code 0)" and deeper: "deepest ! o' < d'"
      using "2.prems"(2) by auto
    then have nofail: "\<not> (Op_EndModule < code ! o' \<or> length code < o' + instruction_size code o')"
      using fits by (auto simp: instruction_fits_def)
    then obtain ps where budget: "\<not> budget < Suc steps"
      and visit: "depth_visit code bs (deepest[o' := d']) o' d' = Some (Inr ps)"
      and rec: "depth_walk code bs budget (Suc steps) (deepest[o' := d']) (rev ps @ pending) es =
                  Some ([], final)"
      using "2.prems"(1) False by (auto simp: Let_def split: if_splits sum.splits option.splits)
    have inv: "walk_inv code (deepest[o' := d']) (rev ps @ pending)"
      using walk_inv_visit [OF "2.prems"(3) start deeper] visit "2.prems"(2) fits start by auto
    have "o' < length deepest"
      using "2.prems"(3) instr_starts_bounds [OF start] by (simp add: walk_inv_def)
    then show ?thesis
      using "2.IH"(3) [OF False nofail budget refl visit refl rec "2.prems"(2) inv fits]
        covered_visit [OF _ deeper] by auto
  qed
qed

section \<open>Soundness of verification\<close>

text \<open>Jump targets of accepted code: instruction starts, or the end of the code for a backward jump of length 0.\<close>

definition targets_ok :: "byte list \<Rightarrow> bool" where
  "targets_ok code \<longleftrightarrow>
     (\<forall>s \<in> set (instr_starts code 0). \<forall>t. jump_target code s = Some t \<longrightarrow>
        t \<in> set (instr_starts code 0) \<or>
        (t = length code \<and> loops_at_end code s))"

lemma jump_target_le:
  assumes "linear_ok func s" "s < length (ch_code (cf_chunk func))"
    and "jump_target (ch_code (cf_chunk func)) s = Some t"
    and "\<not> t < length (ch_code (cf_chunk func))"
  shows "t = length (ch_code (cf_chunk func)) \<and> loops_at_end (ch_code (cf_chunk func)) s"
  using assms instruction_size_jump [of "ch_code (cf_chunk func)" s]
  by (auto simp: linear_ok_def Let_def jump_target_def instruction_fits_def is_jump_iff loops_at_end_def
      resolve_loop_jump_target_def k_jump_instruction_size_def split: if_splits)

lemma depth_walk_errors:
  "depth_walk code bs budget steps deepest pending es = Some (es', final) \<Longrightarrow> \<exists>new. es' = es @ new"
proof (induction code bs budget steps deepest pending es rule: depth_walk.induct)
  case (2 code bs budget steps deepest o' d' pending es)
  then show ?case by (auto simp: Let_def split: sum.splits option.splits if_splits)
qed simp

text \<open>The walk as \<^verbatim>\<open>check_stack_depths\<close> starts it.\<close>

abbreviation entry_walk ::
    "compiled_function \<Rightarrow> nat list \<Rightarrow> verify_error list \<Rightarrow> (verify_error list \<times> int list) option" where
  "entry_walk func bs es \<equiv>
     depth_walk (ch_code (cf_chunk func)) bs (length bs * k_max_visits_per_instruction + 1) 0
       (replicate (length (ch_code (cf_chunk func))) (- 1)) [(0, cf_arity func + 1)] es"

lemma check_stack_depths_eq: "check_stack_depths func bs es = map_option fst (entry_walk func bs es)"
  by (simp add: check_stack_depths_def k_first_parameter_slot_def Let_def del: depth_walk.simps)

lemma verify_scanned:
  assumes "ch_code (cf_chunk func) \<noteq> []" and "verify_scan func 0 [] [] [] = (bs, js, es)"
  shows "verify func =
    map_option fst (entry_walk func bs (check_jump_targets (ch_code (cf_chunk func)) bs js es))"
  using assms by (simp add: verify_def Let_def check_stack_depths_eq del: depth_walk.simps)

lemma verify_Nil:
  assumes "verify func = Some []"
  obtains js final where "ch_code (cf_chunk func) \<noteq> []"
    and "verify_scan func 0 [] [] [] = (instr_starts (ch_code (cf_chunk func)) 0, js, [])"
    and "check_jump_targets (ch_code (cf_chunk func)) (instr_starts (ch_code (cf_chunk func)) 0) js [] = []"
    and "entry_walk func (instr_starts (ch_code (cf_chunk func)) 0) [] = Some ([], final)"
proof -
  let ?code = "ch_code (cf_chunk func)"
  obtain bs js es where scan: "verify_scan func 0 [] [] [] = (bs, js, es)"
    by (cases "verify_scan func 0 [] [] []")
  have ne: "?code \<noteq> []" using assms by (auto simp: verify_def Let_def)
  from assms obtain final where walk: "entry_walk func bs (check_jump_targets ?code bs js es) = Some ([], final)"
    unfolding verify_scanned [OF ne scan] by auto
  with depth_walk_errors have targets: "check_jump_targets ?code bs js es = []" by fastforce
  then have "es = []" by (simp add: check_jump_targets_Nil)
  with scan have "bs = instr_starts ?code 0" using verify_scan_sound [of func 0 "[]" "[]" es bs js] by simp
  with scan \<open>es = []\<close> ne targets walk that show ?thesis by simp
qed

lemma verify_linear:
  assumes "verify func = Some []" and "s \<in> set (instr_starts (ch_code (cf_chunk func)) 0)"
  shows "linear_ok func s"
  using assms verify_scan_sound [of func 0 "[]" "[]" "[]"] by (elim verify_Nil) auto

lemma verify_targets:
  assumes "verify func = Some []"
  shows "targets_ok (ch_code (cf_chunk func))"
  unfolding targets_ok_def
proof (intro ballI allI impI)
  let ?code = "ch_code (cf_chunk func)"
  fix s t assume s: "s \<in> set (instr_starts ?code 0)" and t: "jump_target ?code s = Some t"
  from assms obtain js where scan: "verify_scan func 0 [] [] [] = (instr_starts ?code 0, js, [])"
    and "check_jump_targets ?code (instr_starts ?code 0) js [] = []"
    by (rule verify_Nil)
  then have "t < length ?code \<longrightarrow> t \<in> set (instr_starts ?code 0)"
    using verify_scan_sound [OF scan] s t by (auto simp: check_jump_targets_Nil)
  moreover note jump_target_le [OF verify_linear [OF assms s] _ t] instr_starts_bounds [OF s]
  ultimately show "t \<in> set (instr_starts ?code 0) \<or>
      (t = length ?code \<and> loops_at_end ?code s)"
    by blast
qed

text \<open>The result of the walk as a depth bound.\<close>

lemma verify_depths:
  assumes "verify func = Some []" and "0 \<le> cf_arity func"
  obtains final where "walk_inv (ch_code (cf_chunk func)) final []"
    and "cf_arity func + 1 \<le> final ! 0"
    and "entry_walk func (instr_starts (ch_code (cf_chunk func)) 0) [] = Some ([], final)"
proof -
  let ?code = "ch_code (cf_chunk func)"
  from assms(1) obtain final where ne: "?code \<noteq> []"
    and walk: "entry_walk func (instr_starts ?code 0) [] = Some ([], final)"
    by (rule verify_Nil)
  have "walk_inv ?code (replicate (length ?code) (- 1)) [(0, cf_arity func + 1)]"
    using assms(2) by (auto simp: walk_inv_def dest: instr_starts_bounds)
  note sound = depth_walk_sound [OF walk refl this]
  have "\<forall>s \<in> set (instr_starts ?code 0). instruction_fits ?code s \<and>
      (?code ! s = Op_Loop \<longrightarrow> jump_operand ?code s \<le> s + 5)"
    using verify_linear [OF assms(1)] by (auto simp: linear_ok_def Let_def)
  from sound [OF this] have "walk_inv ?code final []"
    and "covered ?code (replicate (length ?code) (- 1)) [(0, cf_arity func + 1)] 0 (cf_arity func + 1)
         \<longrightarrow> covered ?code final [] 0 (cf_arity func + 1)"
    by blast+
  then show ?thesis
    using that walk ne instr_starts_first [of 0 ?code]
    by (simp add: covered_def del: depth_walk.simps)
qed

text \<open>Where control can be in accepted code.\<close>

lemma flow_edge_target:
  assumes "verify func = Some []" and s: "s \<in> set (instr_starts (ch_code (cf_chunk func)) 0)"
    and edge: "flow_edge (ch_code (cf_chunk func)) s t c"
    and vis: "visited_ok (ch_code (cf_chunk func)) s d"
  shows "t \<in> set (instr_starts (ch_code (cf_chunk func)) 0)"
proof -
  let ?code = "ch_code (cf_chunk func)"
  consider "t = s + instruction_size ?code s" "\<not> always_transfers (?code ! s)"
    | "jump_target ?code s = Some t"
    using edge by (cases rule: flow_edge.cases) (auto simp: jump_target_def is_forward_jump_iff)
  then show ?thesis
  proof cases
    case 1
    with vis instr_starts_next [OF s] show ?thesis by (auto simp: visited_ok_def)
  next
    case 2
    then have "?code ! s = Op_Loop \<Longrightarrow> t < length ?code"
      using vis by (simp add: visited_ok_def jump_target_def is_forward_jump_iff)
    with 2 verify_targets [OF assms(1)] s show ?thesis by (auto simp: targets_ok_def loops_at_end_def)
  qed
qed

text \<open>Every configuration that can be reached is below the recorded depth.\<close>

lemma reachable_bounded:
  assumes "reachable func offset d" and ok: "verify func = Some []"
    and inv: "walk_inv (ch_code (cf_chunk func)) final []" "cf_arity func + 1 \<le> final ! 0"
    and arity: "0 \<le> cf_arity func"
  shows "offset \<in> set (instr_starts (ch_code (cf_chunk func)) 0) \<and> d \<le> final ! offset \<and> 0 \<le> final ! offset"
  using assms(1)
proof induction
  case entry
  show ?case using ok inv arity instr_starts_first [of 0] by (elim verify_Nil) auto
next
  case (step s d t c)
  let ?code = "ch_code (cf_chunk func)"
  from step have s: "s \<in> set (instr_starts ?code 0)" "d \<le> final ! s" "0 \<le> final ! s" by auto
  with inv step.hyps have vis: "visited_ok ?code s (final ! s)" and cov: "covered ?code final [] t (final ! s + c)"
    by (auto simp: walk_inv_def)
  have nonneg: "0 \<le> final ! s + c"
    using vis step.hyps by (auto simp: visited_ok_def)
  from flow_edge_target [OF ok s(1) step.hyps(3) vis] cov s nonneg show ?case
    by (auto simp: covered_def)
qed

section \<open>Exactness of the walk\<close>

text \<open>Recorded and pending depths are depths of real configurations.\<close>

definition exact_inv :: "compiled_function \<Rightarrow> int list \<Rightarrow> (nat \<times> int) list \<Rightarrow> bool" where
  "exact_inv func deepest pending \<longleftrightarrow>
     length deepest = length (ch_code (cf_chunk func)) \<and>
     (\<forall>(t, d) \<in> set pending. reachable func t d) \<and>
     (\<forall>s < length deepest. 0 \<le> deepest ! s \<longrightarrow> reachable func s (deepest ! s))"

text \<open>The ways a configuration can be at fault, as the walk sees them.\<close>

definition faulty :: "compiled_function \<Rightarrow> nat \<Rightarrow> int \<Rightarrow> bool" where
  "faulty func offset d \<longleftrightarrow>
     (let code = ch_code (cf_chunk func)
      in d < pops (instruction_stack_effect code offset) \<or>
         k_max_stack_depth < d + depth_change code offset \<or>
         (\<not> always_transfers (code ! offset) \<and> length code \<le> offset + instruction_size code offset) \<or>
         (code ! offset = Op_JumpIfFalse \<and> d + depth_change code offset < exhausted_missing code offset) \<or>
         (code ! offset = Op_Loop \<and>
          (\<exists>d0 < d + depth_change code offset.
             reachable func (resolve_loop_jump_target offset (jump_operand code offset)) d0)))"

text \<open>The boundaries collected so far are the first instruction starts, so the walk finds the same
  previous instruction in them.\<close>

lemma verify_scan_prefix:
  "verify_scan func offset bs js es = (bs', js', es') \<Longrightarrow>
   \<exists>new rest. bs' = bs @ new \<and> new @ rest = instr_starts (ch_code (cf_chunk func)) offset"
proof (induction func offset bs js es rule: verify_scan.induct)
  case (1 func offset bs js es)
  let ?code = "ch_code (cf_chunk func)"
  let ?size = "instruction_size ?code offset"
  note unroll = "1.prems" [unfolded verify_scan.simps [of func offset bs js es] Let_def]
  show ?case
  proof (cases "offset < length ?code")
    case False
    with unroll show ?thesis by (simp add: instr_starts.simps [of ?code offset])
  next
    case inside: True
    then have starts: "instr_starts ?code offset = offset # instr_starts ?code (offset + ?size)"
      by (subst instr_starts.simps) simp
    show ?thesis
    proof (cases "Op_EndModule < ?code ! offset \<or> length ?code < offset + ?size")
      case True
      with unroll inside starts show ?thesis by (auto split: if_splits)
    next
      case False
      define es1 where "es1 = check_operand_bounds (cf_chunk func) (?code ! offset) offset
          (cf_upvalue_count func) ?code es"
      obtain js2 es2 where cj: "collect_jumps (?code ! offset) offset ?code js es1 = (js2, es2)"
        by fastforce
      with unroll inside False
      have "verify_scan func (offset + ?size) (bs @ [offset]) js2 es2 = (bs', js', es')"
        by (simp add: es1_def)
      with False inside have "\<exists>new rest. bs' = (bs @ [offset]) @ new \<and>
          new @ rest = instr_starts ?code (offset + ?size)"
        by (intro "1.IH" [OF refl inside refl refl _ refl _ es1_def cj [symmetric] refl]) simp_all
      then obtain new rest where "bs' = (bs @ [offset]) @ new" "new @ rest = instr_starts ?code (offset + ?size)"
        by blast
      then have "bs' = bs @ (offset # new)" "(offset # new) @ rest = instr_starts ?code offset"
        by (simp_all add: starts)
      then show ?thesis by blast
    qed
  qed
qed

lemma previous_op_prefix:
  "bs @ rest = starts \<Longrightarrow> offset \<in> set bs \<Longrightarrow> previous_op code bs offset = previous_op code starts offset"
proof -
  assume starts: "bs @ rest = starts" and "offset \<in> set bs"
  then have same: "takeWhile (\<lambda>b. b < offset) starts = takeWhile (\<lambda>b. b < offset) bs"
    by (simp flip: starts add: takeWhile_append1 [where x = offset])
  have "length (takeWhile (\<lambda>b. b < offset) bs) - 1 < length bs"
    if "takeWhile (\<lambda>b. b < offset) bs \<noteq> []"
    using that length_takeWhile_le [of "\<lambda>b. b < offset" bs] by (simp add: Suc_le_eq flip: length_greater_0_conv)
  with same starts show ?thesis by (auto simp: previous_op_def Let_def nth_append)
qed

lemma depth_visit_sub_edges:
  assumes visit: "depth_visit code bs deepest offset d = Some (Inr ps)"
    and bs: "bs @ rest = instr_starts code 0" "offset \<in> set bs" and t: "(t, d') \<in> set ps"
  shows "flow_edge code offset t (d' - d)"
proof -
  have missing: "exhausted_missing code offset = (case previous_op code bs offset of
      Some previous \<Rightarrow> if code ! offset = Op_JumpIfFalse then values_missing_when_exhausted previous else 0
    | None \<Rightarrow> 0)"
    using previous_op_prefix [OF bs] by (simp add: exhausted_missing_def)
  let ?op = "code ! offset"
  consider "?op \<in> {Op_Return, Op_GetLocalReturn, Op_Rethrow, Op_EndModule}" | "?op = Op_Jump" | "?op = Op_Loop"
    | "?op \<in> {Op_JumpIfFalse, Op_JumpIfTrue, Op_NullCoalesce}" | "?op = Op_TryCatch"
    | "\<not> always_transfers ?op" "?op \<notin> {Op_JumpIfFalse, Op_JumpIfTrue, Op_NullCoalesce, Op_TryCatch}"
    unfolding always_transfers_def by auto
  then show ?thesis
  proof cases
    case 4
    then have nt: "\<not> always_transfers ?op" by (auto simp: always_transfers_def)
    let ?after = "d + depth_change code offset"
    have "ps = [(offset + instruction_size code offset, ?after),
        (resolve_forward_jump_target offset (jump_operand code offset),
         ?after - exhausted_missing code offset)]"
      using 4 visit
      by (elim insertE) (auto simp: depth_visit_def always_transfers_def Let_def depth_change_def
          missing split: if_splits option.splits)
    with t flow_edge.fall_through [OF nt] flow_edge.branch [OF 4] show ?thesis by auto
  qed (use visit t in \<open>auto simp: depth_visit_def flow_edge_iff always_transfers_def Let_def depth_change_def
      split: if_splits\<close>)
qed

lemma exact_inv_record:
  assumes "exact_inv func deepest ((o', d') # pending)"
  shows "exact_inv func (deepest[o' := d']) pending" and "exact_inv func (deepest[o' := d']) []"
    and "reachable func o' d'"
  using assms by (auto simp: exact_inv_def nth_list_update_eq [of o'] split: prod.splits)
    (metis nth_list_update_eq nth_list_update_neq)+

lemma exact_inv_visit:
  assumes inv: "exact_inv func deepest ((o', d') # pending)" and "o' < length (ch_code (cf_chunk func))"
    and bs: "bs @ rest = instr_starts (ch_code (cf_chunk func)) 0" "o' \<in> set bs"
    and visit: "depth_visit (ch_code (cf_chunk func)) bs (deepest[o' := d']) o' d' = Some (Inr ps)"
  shows "exact_inv func (deepest[o' := d']) (rev ps @ pending)"
proof -
  note here = exact_inv_record [OF inv]
  have "reachable func t d" if "(t, d) \<in> set ps" for t d
    using reachable.step [OF here(3) assms(2) depth_visit_sub_edges [OF visit bs that]] by simp
  with here(1) show ?thesis by (auto simp: exact_inv_def)
qed

lemma depth_visit_Inl_faulty:
  assumes "depth_visit (ch_code (cf_chunk func)) bs deepest offset d = Some (Inl e)"
    and bs: "bs @ rest = instr_starts (ch_code (cf_chunk func)) 0" "offset \<in> set bs"
    and reach: "exact_inv func deepest []"
  shows "faulty func offset d"
proof -
  let ?code = "ch_code (cf_chunk func)"
  have "\<exists>d0 < x. reachable func t d0" if "0 \<le> deepest ! t" "\<not> length deepest \<le> t" "deepest ! t < x" for t x
    using reach that by (auto simp: exact_inv_def intro!: exI [of _ "deepest ! t"])
  with assms(1) instruction_stack_effect_nonneg [of ?code offset] show ?thesis
    by (auto simp: depth_visit_def faulty_def depth_change_def exhausted_missing_def Let_def
        previous_op_prefix [OF bs] split: if_splits option.splits)
qed

lemma depth_visit_None:
  assumes "depth_visit code bs deepest offset d = None" and "length deepest = length code"
    and "offset + instruction_size code offset \<le> length code"
  shows "loops_at_end code offset"
proof -
  have op: "code ! offset = Op_Loop"
    and backward: "jump_operand code offset \<le> offset + instruction_size code offset"
    and target: "length code \<le> resolve_loop_jump_target offset (jump_operand code offset)"
    using assms(1,2) by (auto simp: depth_visit_def Let_def split: if_splits option.splits)
  then have "instruction_size code offset = 5" by (intro instruction_size_jump) (simp add: is_jump_iff)
  with op backward target assms(3) show ?thesis
    unfolding loops_at_end_def resolve_loop_jump_target_def k_jump_instruction_size_def by linarith
qed

text \<open>
  What the walk reports, whatever the linear pass found: without a result it has reached a backward jump
  to the end of the code; an error it adds is the exhausted budget or a fault of a reachable configuration;
  and every recorded depth is one the instruction is really reached with.
\<close>

lemma depth_walk_exact:
  assumes "depth_walk code bs budget steps deepest pending es = r"
    and "bs @ rest = instr_starts code 0" and "code = ch_code (cf_chunk func)"
    and "exact_inv func deepest pending"
  shows "case r of
      None \<Rightarrow> \<exists>o' \<in> set bs. \<exists>d'. reachable func o' d' \<and> loops_at_end code o'
    | Some (es', final) \<Rightarrow> exact_inv func final [] \<and>
        (es' \<noteq> es \<longrightarrow> (\<exists>o' \<in> set bs. es' = es @ [stack_analysis_budget_error o']) \<or>
           (\<exists>o' \<in> set bs. \<exists>d'. reachable func o' d' \<and> faulty func o' d'))"
  using assms
proof (induction code bs budget steps deepest pending es rule: depth_walk.induct)
  case (1 code bs budget steps deepest es)
  then show ?case by auto
next
  case (2 code bs budget steps deepest o' d' pending es)
  note code = "2.prems"(3)
  have tail: "exact_inv func deepest pending" using "2.prems"(4) by (auto simp: exact_inv_def)
  consider (skip) "length code \<le> o' \<or> o' \<notin> set bs \<or> d' \<le> deepest ! o'"
    | (bad) "\<not> (length code \<le> o' \<or> o' \<notin> set bs \<or> d' \<le> deepest ! o')"
        "Op_EndModule < code ! o' \<or> length code < o' + instruction_size code o'"
    | (visit) "\<not> (length code \<le> o' \<or> o' \<notin> set bs \<or> d' \<le> deepest ! o')"
        "\<not> (Op_EndModule < code ! o' \<or> length code < o' + instruction_size code o')"
    by blast
  then show ?case
  proof cases
    case skip
    then show ?thesis using "2.IH"(1) [OF skip _ "2.prems"(2) code tail] "2.prems"(1) by simp
  next
    case bad
    then show ?thesis using "2.IH"(2) [OF bad _ "2.prems"(2) code tail] "2.prems"(1) by simp
  next
    case visit
    then have o': "o' \<in> set bs" "o' < length code" "o' + instruction_size code o' \<le> length code" by auto
    note here = exact_inv_record(2,3) [OF "2.prems"(4)]
    show ?thesis
    proof (cases "budget < Suc steps")
      case True
      with "2.prems"(1) visit o' tail show ?thesis by (auto simp: exact_inv_def)
    next
      case budget: False
      show ?thesis
      proof (cases "depth_visit code bs (deepest[o' := d']) o' d'")
        case None
        have "loops_at_end code o'"
          by (rule depth_visit_None [OF None _ o'(3)]) (use here code in \<open>simp add: exact_inv_def\<close>)
        with None budget visit "2.prems"(1) here o' show ?thesis by (auto simp: Let_def)
      next
        case (Some v)
        show ?thesis
        proof (cases v)
          case (Inl e)
          have "faulty func o' d'"
            using Some Inl code "2.prems"(2) o'(1) here
            by (intro depth_visit_Inl_faulty [where deepest = "deepest[o' := d']"]) auto
          with Some Inl budget visit "2.prems"(1) here o' show ?thesis by (auto simp: Let_def)
        next
          case (Inr ps)
          have "exact_inv func (deepest[o' := d']) (rev ps @ pending)"
            using Some Inr o' code "2.prems"(2) by (intro exact_inv_visit [OF "2.prems"(4)]) auto
          from "2.IH"(3) [OF visit budget refl Some Inr _ "2.prems"(2) code this]
          show ?thesis using Some Inr budget visit "2.prems"(1) by (simp add: Let_def)
        qed
      qed
    qed
  qed
qed

lemma exact_inv_entry:
  "exact_inv func (replicate (length (ch_code (cf_chunk func))) (- 1)) [(0, cf_arity func + 1)]"
  by (simp add: exact_inv_def reachable.entry)

text \<open>
  In accepted code, the recorded depth of an instruction is the deepest depth it is reached with, and it
  is reached with it.
\<close>

lemma verify_deepest:
  assumes "verify func = Some []" and "0 \<le> cf_arity func" and "reachable func offset d"
  obtains m where "reachable func offset m" and "d \<le> m" and "visited_ok (ch_code (cf_chunk func)) offset m"
proof -
  let ?code = "ch_code (cf_chunk func)"
  from assms(1,2) obtain final where inv: "walk_inv ?code final []" "cf_arity func + 1 \<le> final ! 0"
    and walk: "entry_walk func (instr_starts ?code 0) [] = Some ([], final)"
    by (rule verify_depths)
  have bound: "offset \<in> set (instr_starts ?code 0)" "d \<le> final ! offset" "0 \<le> final ! offset"
    using reachable_bounded [OF assms(3) assms(1) inv assms(2)] by auto
  have "exact_inv func final []"
    using depth_walk_exact [OF walk _ refl exact_inv_entry, of "[]"] by simp
  then have "reachable func offset (final ! offset)"
    using bound inv instr_starts_bounds by (fastforce simp: exact_inv_def walk_inv_def)
  moreover have "visited_ok ?code offset (final ! offset)" using inv bound by (simp add: walk_inv_def)
  ultimately show ?thesis using that bound by blast
qed

text \<open>A walk without a result has reached a backward jump to the end of the code; accepted code has none.\<close>

lemma verify_undefined:
  assumes "verify func = None"
  shows "\<exists>s d. reachable func s d \<and> loops_at_end (ch_code (cf_chunk func)) s"
proof -
  let ?code = "ch_code (cf_chunk func)"
  obtain bs js es where scan: "verify_scan func 0 [] [] [] = (bs, js, es)"
    by (cases "verify_scan func 0 [] [] []")
  have "?code \<noteq> []" using assms by (auto simp: verify_def)
  with assms scan have walk: "entry_walk func bs (check_jump_targets ?code bs js es) = None"
    by (simp add: verify_scanned del: depth_walk.simps)
  from verify_scan_prefix [OF scan] obtain rest where bs: "bs @ rest = instr_starts ?code 0" by auto
  have "\<exists>s \<in> set bs. \<exists>d. reachable func s d \<and> loops_at_end ?code s"
    using depth_walk_exact [OF walk bs refl exact_inv_entry] by (simp only: option.case)
  then show ?thesis by blast
qed

lemma accepted_not_at_end:
  assumes "verify func = Some []" and "0 \<le> cf_arity func" and "reachable func s d"
  shows "\<not> loops_at_end (ch_code (cf_chunk func)) s"
proof
  assume last: "loops_at_end (ch_code (cf_chunk func)) s"
  obtain m where "visited_ok (ch_code (cf_chunk func)) s m" by (rule verify_deepest [OF assms])
  with last show False
    by (simp add: visited_ok_def loops_at_end_def resolve_loop_jump_target_def k_jump_instruction_size_def)
qed

section \<open>Sample functions\<close>

definition code_function :: "byte list \<Rightarrow> int \<Rightarrow> compiled_function" where
  "code_function code arity =
     empty_function\<lparr>cf_chunk := empty_chunk\<lparr>ch_code := code\<rparr>, cf_arity := arity\<rparr>"

text \<open>\<^verbatim>\<open>if (parameter) 1 else 0\<close>\<close>

definition choose_code :: "byte list" where
  "choose_code = [Op_GetLocal, 0, 1, Op_JumpIfFalse, 0, 0, 0, 2, Op_One, Op_Return, Op_Zero, Op_Return]"

text \<open>A merge point that the fall-through path reaches with two values less than the jump.\<close>

definition merge_code :: "byte list" where
  "merge_code = [Op_True, Op_JumpIfFalse, 0, 0, 0, 2, Op_Pop, Op_Pop, Op_Pop, Op_None, Op_Return]"

lemma code_function_simps [simp]:
  "ch_code (cf_chunk (code_function code n)) = code" "cf_arity (code_function code n) = n"
  by (simp_all add: code_function_def)

lemma verify_choose: "verify (code_function choose_code 1) = Some []"
  by code_simp

lemma verify_merge: "verify (code_function merge_code 0) = Some []"
  by code_simp

lemma reachable_fall:
  assumes "reachable func offset d" and "offset < length (ch_code (cf_chunk func))"
    and "\<not> always_transfers (ch_code (cf_chunk func) ! offset)"
    and "offset + instruction_size (ch_code (cf_chunk func)) offset = target"
    and "d + depth_change (ch_code (cf_chunk func)) offset = d'"
  shows "reachable func target d'"
  using reachable.step [OF assms(1,2) flow_edge.fall_through [OF assms(3)]] assms(4,5) by simp

lemma choose_reachable: "reachable (code_function choose_code 1) 3 3"
  by (rule reachable_fall [OF reachable.entry]) (simp_all, code_simp+)

lemma merge_reachable: "reachable (code_function merge_code 0) 8 0"
proof -
  let ?f = "code_function merge_code 0"
  have "reachable ?f 1 2" by (rule reachable_fall [OF reachable.entry]) (simp_all, code_simp+)
  then have "reachable ?f 6 2" by (rule reachable_fall) (simp_all, code_simp+)
  then have "reachable ?f 7 1" by (rule reachable_fall) (simp_all, code_simp+)
  then show ?thesis by (rule reachable_fall) (simp_all, code_simp+)
qed

lemma none_return_reachable:
  "reachable (code_function [Op_None, Op_Return] 0) offset d \<Longrightarrow> (offset, d) = (0, 1) \<or> (offset, d) = (1, 2)"
proof (induction rule: reachable.induct)
  case (step offset d target change)
  have "instruction_size [Op_None, Op_Return] 0 = 1" "depth_change [Op_None, Op_Return] 0 = 1"
    by code_simp+
  with step show ?case by (auto simp: flow_edge_iff always_transfers_def)
qed simp

section \<open>The guarantees\<close>



text \<open>C3: In a function the verifier accepts, control never leaves the code: every configuration
  reachable from the entry along fall-through, jump, loop, branch and handler edges is at an instruction
  start.\<close>

theorem verify_control_stays_inside:
  assumes "verify func = Some []" and "0 \<le> cf_arity func" and "reachable func offset d"
  shows "offset \<in> set (instr_starts (ch_code (cf_chunk func)) 0)"
  using verify_depths [OF assms(1,2)] reachable_bounded [OF assms(3,1) _ _ assms(2)] by metis

theorem verify_control_stays_inside_witness:
  "reachable (code_function choose_code 1) 3 3 \<and> 3 \<in> set (instr_starts choose_code 0)"
  using verify_control_stays_inside [OF verify_choose _ choose_reachable] choose_reachable by simp

text \<open>C28: The verifier has no defined result only where its walk reaches a backward jump of length 0 that is
  the last instruction, and then reads one element past its vector; and no accepted function reaches such
  a jump.\<close>

theorem verify_undefined_at_end_loop:
  "(verify func = None \<longrightarrow>
      (\<exists>s d. reachable func s d \<and> loops_at_end (ch_code (cf_chunk func)) s)) \<and>
   (verify func = Some [] \<and> 0 \<le> cf_arity func \<longrightarrow>
      (\<nexists>s d. reachable func s d \<and> loops_at_end (ch_code (cf_chunk func)) s))"
  using verify_undefined accepted_not_at_end by blast

theorem verify_undefined_at_end_loop_witness:
  "verify (code_function [Op_Loop, 0, 0, 0, 0] 0) = None \<and>
   (\<exists>s d. reachable (code_function [Op_Loop, 0, 0, 0, 0] 0) s d \<and> loops_at_end [Op_Loop, 0, 0, 0, 0] s)"
proof -
  have none: "verify (code_function [Op_Loop, 0, 0, 0, 0] 0) = None" by code_simp
  with verify_undefined_at_end_loop [of "code_function [Op_Loop, 0, 0, 0, 0] 0"] show ?thesis by auto
qed

text \<open>C7: The depth of a frame of an accepted function is bounded: after the effect of any reachable
  instruction it is at most \<^verbatim>\<open>k_max_stack_depth\<close> (65536), and before one it is at most that
  too, except at the function's entry (its arity plus one) and at the entry of an exception handler, where
  it can be one more: the walk does not check the value it adds for the error.\<close>

theorem verify_stack_bounded:
  assumes "verify func = Some []" and "0 \<le> cf_arity func" and "reachable func offset d"
  shows "d + depth_change (ch_code (cf_chunk func)) offset \<le> 65536 \<and>
         (d \<le> 65536 \<or> (offset = 0 \<and> d = cf_arity func + 1) \<or>
          (d = 65537 \<and> (\<exists>s. ch_code (cf_chunk func) ! s = Op_TryCatch \<and>
             jump_target (ch_code (cf_chunk func)) s = Some offset)))"
proof -
  let ?code = "ch_code (cf_chunk func)"
  have after: "d + depth_change ?code offset \<le> 65536" if reach: "reachable func offset d" for offset d
  proof -
    obtain m where "d \<le> m" "visited_ok ?code offset m"
      using verify_deepest [OF assms(1,2) reach] by blast
    then show ?thesis by (auto simp: visited_ok_def k_max_stack_depth_def)
  qed
  have missing: "0 \<le> exhausted_missing ?code s" for s
    by (simp add: exhausted_missing_def values_missing_when_exhausted_def split: option.split)
  from assms(3) show ?thesis
  proof (cases rule: reachable.cases)
    case entry
    then show ?thesis using after [OF assms(3)] by simp
  next
    case (step s d0 change)
    have "d0 + depth_change ?code s \<le> 65536" by (rule after [OF step(2)])
    moreover have "change \<le> depth_change ?code s \<or>
        change = depth_change ?code s + 1 \<and> ?code ! s = Op_TryCatch \<and> jump_target ?code s = Some offset"
      using step(4) missing [of s]
      by (cases rule: flow_edge.cases) (auto simp: jump_target_def is_forward_jump_iff)
    ultimately show ?thesis using after [OF assms(3)] step(1) by auto
  qed
qed

theorem verify_stack_bounded_witness:
  "reachable (code_function choose_code 1) 3 3 \<and> 3 + depth_change choose_code 3 \<le> 65536"
  using verify_stack_bounded [OF verify_choose _ choose_reachable] choose_reachable by simp

text \<open>The handler of an accepted function really can be entered at depth 65537.\<close>

definition deep_handler_code :: "byte list" where
  "deep_handler_code = [Op_TryCatch, 0, 0, 0, 1, Op_Return, Op_Pop, Op_Return]"

lemma verify_accepts_deep_handler:
  "verify (code_function deep_handler_code 65535) = Some [] \<and>
   reachable (code_function deep_handler_code 65535) 6 65537"
proof
  show "verify (code_function deep_handler_code 65535) = Some []" by code_simp
  let ?f = "code_function deep_handler_code 65535"
  have target: "resolve_forward_jump_target 0 (jump_operand deep_handler_code 0) = 6"
    and change: "depth_change deep_handler_code 0 = 0"
    by code_simp+
  have "reachable ?f (resolve_forward_jump_target 0 (jump_operand deep_handler_code 0))
      (cf_arity ?f + 1 + (depth_change deep_handler_code 0 + 1))"
    by (rule reachable.step [OF reachable.entry])
      (use flow_edge.handler [of deep_handler_code 0] in \<open>simp_all add: deep_handler_code_def\<close>)
  then show "reachable ?f 6 65537" by (simp add: target change)
qed

text \<open>At the deepest configuration that reaches an instruction of an accepted function, the
  instruction finds all the operands it pops; so where every path agrees on the depth, no path
  underflows.\<close>

theorem verify_deepest_never_underflows:
  assumes "verify func = Some []" and "0 \<le> cf_arity func" and "reachable func offset d"
    and "\<forall>d'. reachable func offset d' \<longrightarrow> d' \<le> d"
  shows "pops (instruction_stack_effect (ch_code (cf_chunk func)) offset) \<le> d"
proof -
  from assms(1-3) obtain m where "reachable func offset m" "d \<le> m"
    "visited_ok (ch_code (cf_chunk func)) offset m"
    by (rule verify_deepest)
  with assms(4) show ?thesis by (auto simp: visited_ok_def)
qed

theorem verify_deepest_never_underflows_witness:
  "reachable (code_function [Op_None, Op_Return] 0) 1 2 \<and>
   pops (instruction_stack_effect [Op_None, Op_Return] 1) \<le> 2"
proof -
  have ok: "verify (code_function [Op_None, Op_Return] 0) = Some []" by code_simp
  have reach: "reachable (code_function [Op_None, Op_Return] 0) 1 2"
    by (rule reachable_fall [OF reachable.entry]) (simp_all, code_simp+)
  from verify_deepest_never_underflows [OF ok _ reach] reach none_return_reachable show ?thesis
    by fastforce
qed

text \<open>C27: The stack-depth walk raises no false alarm: to the errors of the linear pass and of the jump
  targets, whatever they are, it adds nothing, or the error of an exhausted step budget, or an error when a
  configuration that is really reachable is at fault (it underflows, exceeds the maximal depth, falls off
  the end, or grows the stack around a loop).\<close>

theorem verify_reports_only_real_faults:
  assumes "ch_code (cf_chunk func) \<noteq> []" and "verify func = Some errors"
    and "verify_scan func 0 [] [] [] = (bs, js, es)"
  shows "\<exists>new. errors = check_jump_targets (ch_code (cf_chunk func)) bs js es @ new \<and>
           (new = [] \<or> (\<exists>s \<in> set bs. new = [stack_analysis_budget_error s]) \<or>
            (\<exists>s \<in> set bs. \<exists>d. reachable func s d \<and> faulty func s d))"
proof -
  let ?code = "ch_code (cf_chunk func)"
  let ?es = "check_jump_targets ?code bs js es"
  obtain final where walk: "entry_walk func bs ?es = Some (errors, final)"
    using assms(2) unfolding verify_scanned [OF assms(1,3)] by auto
  from verify_scan_prefix [OF assms(3)] obtain rest where bs: "bs @ rest = instr_starts ?code 0" by auto
  from depth_walk_errors [OF walk] obtain new where new: "errors = ?es @ new" by blast
  from depth_walk_exact [OF walk bs refl exact_inv_entry]
  have "errors \<noteq> ?es \<longrightarrow> (\<exists>s \<in> set bs. errors = ?es @ [stack_analysis_budget_error s]) \<or>
      (\<exists>s \<in> set bs. \<exists>d. reachable func s d \<and> faulty func s d)" by simp
  with new show ?thesis by auto
qed

theorem verify_reports_only_real_faults_witness:
  "let func = code_function [Op_Pop, Op_Pop, Op_Return] 0
   in verify func = Some [stack_underflow_error 1 Op_Pop] \<and>
      (\<exists>s d. reachable func s d \<and> faulty func s d)"
proof -
  let ?func = "code_function [Op_Pop, Op_Pop, Op_Return] 0"
  have scan: "verify_scan ?func 0 [] [] [] = ([0, 1, 2], [], [])" by code_simp
  have errors: "verify ?func = Some [stack_underflow_error 1 Op_Pop]" by code_simp
  have differ: "stack_underflow_error 1 Op_Pop \<noteq> stack_analysis_budget_error s" for s
    by (simp add: stack_underflow_error_def stack_analysis_budget_error_def verify_error_at_def)
  from verify_reports_only_real_faults [OF _ errors scan] differ errors show ?thesis
    by (auto simp: Let_def check_jump_targets_def)
qed

text \<open>The walk keeps only the deepest depth of each instruction, so acceptance does not exclude an
  underflow at a merge point: here an accepted function reaches a \<^verbatim>\<open>Pop\<close> with an empty
  frame.\<close>

lemma verify_accepts_shallow_underflow:
  "verify (code_function merge_code 0) = Some [] \<and> reachable (code_function merge_code 0) 8 0 \<and>
   merge_code ! 8 = Op_Pop \<and> 0 < pops (instruction_stack_effect merge_code 8)"
  using verify_merge merge_reachable by (simp, code_simp)

end
