(* ===== verification/Bytecode_Serializer.thy ===== *)
theory Bytecode_Serializer
  imports Verifier "HOL-Library.State_Monad"
begin

text \<open>
  The \<^verbatim>\<open>.lumc\<close> file format (\<^verbatim>\<open>core/runtime/compiler/bytecode_serializer.cpp\<close> and
  \<^verbatim>\<open>.hpp\<close>).  A \<^verbatim>\<open>Writer\<close> is its buffer, passed on; a \<^verbatim>\<open>Reader\<close> is a record (data,
  cursor, sticky error) threaded through the state monad in the order of the reads in the source.  A
  read past the end sets the error and yields the default value, as in the code.  Results distinguish
  an aborted read (\<^verbatim>\<open>false\<close> or \<^verbatim>\<open>nullopt\<close> in the source) from an exception of
  \<^verbatim>\<open>NameTable::add\<close> or \<^verbatim>\<open>ConstantPool::push_back\<close>.
\<close>

unbundle bit_operations_syntax

abbreviation ret :: "'a \<Rightarrow> ('s, 'a) state" where
  "ret \<equiv> State_Monad.return"

section \<open>Limits\<close>

definition k_max_code_section_bytes :: u32 where "k_max_code_section_bytes = 10000000"
definition k_max_function_count :: u32 where "k_max_function_count = 100000"
definition k_max_bytecode_file_size :: nat where "k_max_bytecode_file_size = 100000000"
definition k_source_map_entry_bytes :: nat where "k_source_map_entry_bytes = 24"
definition k_string_length_prefix_bytes :: nat where "k_string_length_prefix_bytes = 4"
definition k_local_mutable_entry_bytes :: nat where "k_local_mutable_entry_bytes = 1"
definition k_upvalue_entry_bytes :: nat where "k_upvalue_entry_bytes = 3"
definition k_min_function_bytes :: nat where "k_min_function_bytes = 31"
definition k_max_dependency_count :: u32 where "k_max_dependency_count = 10000"
definition k_min_dependency_bytes :: nat where "k_min_dependency_bytes = 12"

lemmas serializer_limits = k_max_code_section_bytes_def k_max_function_count_def
  k_max_bytecode_file_size_def k_source_map_entry_bytes_def k_string_length_prefix_bytes_def
  k_local_mutable_entry_bytes_def k_upvalue_entry_bytes_def k_min_function_bytes_def
  k_max_dependency_count_def k_min_dependency_bytes_def

section \<open>File-level types\<close>

definition k_bytecode_format_version :: u32 where
  "k_bytecode_format_version = 10"

definition k_bytecode_magic :: "byte list" where
  "k_bytecode_magic = bytes_of_string ''LUMC''"

record bytecode_header =
  hd_magic :: "byte list"
  hd_version :: u32
  hd_flags :: u32
  hd_source_hash :: u64
  hd_timestamp :: u64

text \<open>\<^verbatim>\<open>sizeof(BytecodeHeader)\<close>: 4 + 4 + 4 bytes, padded to 16 for the two u64.\<close>

definition sizeof_bytecode_header :: nat where
  "sizeof_bytecode_header = 32"

record source_dependency =
  dep_path :: string
  dep_content_hash :: u64

record deserialized_bytecode =
  db_header :: bytecode_header
  db_dependencies :: "source_dependency list"
  db_top_level :: compiled_function
  db_functions :: "compiled_function list"

datatype deserialize_error = DE_None | DE_TooSmall | DE_ReadError | DE_BadMagic | DE_VersionMismatch
  | DE_BadDependencyTable | DE_BadFunctionCount | DE_CorruptFunction | DE_FileNotFound
  | DE_FileTooLarge | DE_FileReadFailed | DE_HashMismatch

datatype deserialize_result = Deserialized deserialized_bytecode
  | Rejected deserialize_error string | Raised luma_error | Undefined_Behaviour

section \<open>Writer\<close>

definition write_string :: "byte list \<Rightarrow> string \<Rightarrow> byte list" where
  "write_string w s = write_int_be w (word_of_nat (length s) :: u32) @ bytes_of_string s"

section \<open>Reader\<close>

record reader =
  rd_data :: "byte list"
  rd_pos :: nat
  rd_error :: bool

definition new_reader :: "byte list \<Rightarrow> reader" where
  "new_reader data = \<lparr>rd_data = data, rd_pos = 0, rd_error = False\<rparr>"

definition has_remaining :: "reader \<Rightarrow> nat \<Rightarrow> bool" where
  "has_remaining r n \<longleftrightarrow> n \<le> length (rd_data r) - rd_pos r"

definition read_int :: "(reader, 'w::len word) state" where
  "read_int = State (\<lambda>r.
     if \<not> has_remaining r (LENGTH('w) div 8) then (0, r\<lparr>rd_error := True\<rparr>)
     else (read_int_be (drop (rd_pos r) (rd_data r)), r\<lparr>rd_pos := rd_pos r + LENGTH('w) div 8\<rparr>))"

abbreviation read_u8 :: "(reader, byte) state" where "read_u8 \<equiv> read_int"
abbreviation read_u16 :: "(reader, u16) state" where "read_u16 \<equiv> read_int"
abbreviation read_u32 :: "(reader, u32) state" where "read_u32 \<equiv> read_int"
abbreviation read_u64 :: "(reader, u64) state" where "read_u64 \<equiv> read_int"

definition read_string :: "(reader, string) state" where
  "read_string = do {
     len \<leftarrow> read_u32;
     State (\<lambda>r. if rd_error r \<or> \<not> has_remaining r (unat len) then ([], r\<lparr>rd_error := True\<rparr>)
                else (string_of_bytes (take (unat len) (drop (rd_pos r) (rd_data r))),
                      r\<lparr>rd_pos := rd_pos r + unat len\<rparr>))
   }"

text \<open>\<^verbatim>\<open>read_bytes\<close> leaves the destination as it was when too few bytes remain.\<close>

definition read_bytes :: "byte list \<Rightarrow> nat \<Rightarrow> (reader, byte list) state" where
  "read_bytes dest n = State (\<lambda>r.
     if \<not> has_remaining r n then (dest, r\<lparr>rd_error := True\<rparr>)
     else (take n (drop (rd_pos r) (rd_data r)), r\<lparr>rd_pos := rd_pos r + n\<rparr>))"

definition reader_error :: "(reader, bool) state" where
  "reader_error = State (\<lambda>r. (rd_error r, r))"

definition remaining :: "nat \<Rightarrow> (reader, bool) state" where
  "remaining n = State (\<lambda>r. (has_remaining r n, r))"

section \<open>Values\<close>

abbreviation SV_Null :: byte where "SV_Null \<equiv> 0"
abbreviation SV_Bool :: byte where "SV_Bool \<equiv> 1"
abbreviation SV_Integer :: byte where "SV_Integer \<equiv> 2"
abbreviation SV_Number :: byte where "SV_Number \<equiv> 3"
abbreviation SV_String :: byte where "SV_String \<equiv> 4"

fun serialize_value :: "byte list \<Rightarrow> val \<Rightarrow> byte list" where
  "serialize_value w VNull = write_int_be w SV_Null"
| "serialize_value w (VBool b) = write_int_be (write_int_be w SV_Bool) (if b then 1 else 0 :: byte)"
| "serialize_value w (VInteger n) = write_int_be (write_int_be w SV_Integer) n"
| "serialize_value w (VNumber bits) = write_int_be (write_int_be w SV_Number) bits"
| "serialize_value w (VString s) = write_string (write_int_be w SV_String) s"
| "serialize_value w (VObject _ _) = write_int_be w SV_Null"

definition deserialize_value :: "(reader, val option) state" where
  "deserialize_value = do {
     type \<leftarrow> read_u8;
     err \<leftarrow> reader_error;
     if err then ret None
     else if type = SV_Null then ret (Some VNull)
     else if type = SV_Bool then do { b \<leftarrow> read_u8; ret (Some (VBool (b \<noteq> 0))) }
     else if type = SV_Integer then do { n \<leftarrow> read_u64; ret (Some (VInteger n)) }
     else if type = SV_Number then do { n \<leftarrow> read_u64; ret (Some (VNumber n)) }
     else if type = SV_String then do { s \<leftarrow> read_string; ret (Some (VString s)) }
     else ret None
   }"

section \<open>Bounded arrays\<close>

datatype 'c outcome = Done 'c | Abort | Throw luma_error

text \<open>The element loop of \<^verbatim>\<open>read_bounded_array\<close>; the container is passed on.\<close>

fun read_elements :: "nat \<Rightarrow> ('c \<Rightarrow> (reader, 'c outcome) state) \<Rightarrow> 'c \<Rightarrow> (reader, 'c outcome) state" where
  "read_elements 0 read_element out = ret (Done out)"
| "read_elements (Suc n) read_element out = do {
     x \<leftarrow> read_element out;
     case x of Done out' \<Rightarrow> read_elements n read_element out' | _ \<Rightarrow> ret x
   }"

definition read_bounded_array ::
    "('w::len word \<Rightarrow> (reader, bool) state) \<Rightarrow> ('c \<Rightarrow> (reader, 'c outcome) state) \<Rightarrow> 'c \<Rightarrow>
     (reader, 'c outcome) state" where
  "read_bounded_array within_limit read_element out = do {
     count \<leftarrow> read_int;
     err \<leftarrow> reader_error;
     ok \<leftarrow> within_limit count;
     if err \<or> \<not> ok then ret Abort else read_elements (unat count) read_element out
   }"

section \<open>Chunks\<close>

definition serialize_location :: "byte list \<Rightarrow> nat \<times> source_location \<Rightarrow> byte list" where
  "serialize_location w e =
     (let w = write_int_be w (word_of_nat (fst e) :: u32);
          w = write_int_be w (word_of_int (file_id (snd e)) :: u32);
          w = write_int_be w (word_of_int (line (snd e)) :: u32);
          w = write_int_be w (word_of_int (column (snd e)) :: u32);
          w = write_int_be w (word_of_int (start_line (snd e)) :: u32)
      in write_int_be w (word_of_int (start_column (snd e)) :: u32))"

definition serialize_chunk :: "byte list \<Rightarrow> chunk \<Rightarrow> byte list" where
  "serialize_chunk w c =
     (let w = write_int_be w (word_of_nat (length (ch_code c)) :: u32) @ ch_code c;
          w = foldl serialize_value (write_int_be w (word_of_nat (cp_size (ch_constants c)) :: u16))
                (cp_values (ch_constants c));
          w = foldl serialize_location (write_int_be w (word_of_nat (length (ch_source_map c)) :: u32))
                (ch_source_map c)
      in foldl write_string (write_int_be w (word_of_nat (length (nt_names (ch_names c))) :: u16))
           (nt_names (ch_names c)))"

definition read_constant_element :: "constant_pool \<Rightarrow> (reader, constant_pool outcome) state" where
  "read_constant_element constants = do {
     v \<leftarrow> deserialize_value;
     err \<leftarrow> reader_error;
     ret (case v of
            None \<Rightarrow> Abort
          | Some value \<Rightarrow>
              if err then Abort
              else case cp_push_back constants value of Inl e \<Rightarrow> Throw e | Inr p \<Rightarrow> Done p)
   }"

definition read_location_element :: "source_map \<Rightarrow> (reader, source_map outcome) state" where
  "read_location_element sm = do {
     offset \<leftarrow> read_u32;
     fid \<leftarrow> read_u32;
     ln \<leftarrow> read_u32;
     col \<leftarrow> read_u32;
     sl \<leftarrow> read_u32;
     sc \<leftarrow> read_u32;
     err \<leftarrow> reader_error;
     ret (if err then Abort
          else Done (sm_append sm (unat offset)
                 \<lparr>file_id = sint fid, line = sint ln, column = sint col,
                  start_line = sint sl, start_column = sint sc\<rparr>))
   }"

definition read_name_element :: "name_table \<Rightarrow> (reader, name_table outcome) state" where
  "read_name_element names = do {
     name \<leftarrow> read_string;
     err \<leftarrow> reader_error;
     ret (if err then Abort
          else case nt_add names name of Inl e \<Rightarrow> Throw e | Inr (t, _) \<Rightarrow> Done t)
   }"

definition within_constant_limit :: "u16 \<Rightarrow> (reader, bool) state" where
  "within_constant_limit count = ret (unat count \<le> k_max_constants)"

definition within_location_limit :: "u32 \<Rightarrow> (reader, bool) state" where
  "within_location_limit count = remaining (unat count * k_source_map_entry_bytes)"

definition within_name_limit :: "u16 \<Rightarrow> (reader, bool) state" where
  "within_name_limit count = remaining (unat count * k_string_length_prefix_bytes)"

definition deserialize_chunk :: "chunk \<Rightarrow> (reader, chunk outcome) state" where
  "deserialize_chunk c = do {
     code_size \<leftarrow> read_u32;
     err \<leftarrow> reader_error;
     fits \<leftarrow> remaining (unat code_size);
     if err \<or> k_max_code_section_bytes < code_size \<or> \<not> fits then ret Abort
     else do {
       code \<leftarrow> read_bytes (replicate (unat code_size) 0) (unat code_size);
       constants \<leftarrow> read_bounded_array within_constant_limit read_constant_element (ch_constants c);
       case constants of
         Throw e \<Rightarrow> ret (Throw e)
       | Abort \<Rightarrow> ret Abort
       | Done pool \<Rightarrow> do {
           locations \<leftarrow> read_bounded_array within_location_limit read_location_element (ch_source_map c);
           case locations of
             Throw e \<Rightarrow> ret (Throw e)
           | Abort \<Rightarrow> ret Abort
           | Done sm \<Rightarrow> do {
               names \<leftarrow> read_bounded_array within_name_limit read_name_element (ch_names c);
               ret (case names of
                      Throw e \<Rightarrow> Throw e
                    | Abort \<Rightarrow> Abort
                    | Done t \<Rightarrow> Done \<lparr>ch_code = code, ch_constants = pool, ch_source_map = sm, ch_names = t\<rparr>)
             }
         }
     }
   }"

section \<open>Functions\<close>

abbreviation FF_IsMain :: byte where "FF_IsMain \<equiv> 0x01"
abbreviation FF_IsTest :: byte where "FF_IsTest \<equiv> 0x02"
abbreviation FF_IsVerified :: byte where "FF_IsVerified \<equiv> 0x04"
abbreviation UF_IsLocal :: byte where "UF_IsLocal \<equiv> 0x01"
abbreviation UF_IsMutable :: byte where "UF_IsMutable \<equiv> 0x02"

definition function_flags :: "compiled_function \<Rightarrow> byte" where
  "function_flags func =
     (let flags = 0;
          flags = (if cf_is_main func then flags OR FF_IsMain else flags);
          flags = (if cf_is_test func then flags OR FF_IsTest else flags)
      in if cf_verified func then flags OR FF_IsVerified else flags)"

definition serialize_upvalue :: "byte list \<Rightarrow> upvalue \<Rightarrow> byte list" where
  "serialize_upvalue w uv =
     write_int_be (write_int_be w (uv_index uv))
       ((if uv_is_local uv then UF_IsLocal else 0) OR (if uv_is_mutable uv then UF_IsMutable else 0))"

definition write_mutable_flag :: "byte list \<Rightarrow> bool \<Rightarrow> byte list" where
  "write_mutable_flag w m = write_int_be w (if m then 1 else 0 :: byte)"

definition serialize_function :: "byte list \<Rightarrow> compiled_function \<Rightarrow> byte list" where
  "serialize_function w func =
     (let w = write_string w (cf_name func);
          w = write_int_be w (word_of_int (cf_arity func) :: u16);
          w = write_int_be w (word_of_int (cf_required_arity func) :: u16);
          w = write_int_be w (word_of_int (cf_upvalue_count func) :: u16);
          w = write_int_be w (function_flags func);
          w = foldl write_string (write_int_be w (word_of_nat (length (cf_param_names func)) :: u16))
                (cf_param_names func);
          w = foldl write_string
                (write_int_be w (word_of_nat (length (local_names (cf_debug_info func))) :: u16))
                (local_names (cf_debug_info func));
          w = foldl write_mutable_flag
                (write_int_be w (word_of_nat (length (local_mutable (cf_debug_info func))) :: u16))
                (local_mutable (cf_debug_info func));
          w = foldl serialize_upvalue (write_int_be w (word_of_nat (length (cf_upvalues func)) :: u16))
                (cf_upvalues func)
      in serialize_chunk w (cf_chunk func))"

text \<open>A counted loop of reads without an early exit.\<close>

fun read_n :: "nat \<Rightarrow> (reader, 'a) state \<Rightarrow> 'a list \<Rightarrow> (reader, 'a list) state" where
  "read_n 0 m acc = ret acc"
| "read_n (Suc n) m acc = do { x \<leftarrow> m; read_n n m (acc @ [x]) }"

definition read_mutable_flag :: "(reader, bool) state" where
  "read_mutable_flag = do { b \<leftarrow> read_u8; ret (b \<noteq> 0) }"

definition read_upvalue :: "(reader, upvalue) state" where
  "read_upvalue = do {
     index \<leftarrow> read_u16;
     flags \<leftarrow> read_u8;
     ret \<lparr>uv_index = index, uv_is_local = (flags AND UF_IsLocal \<noteq> 0),
          uv_is_mutable = (flags AND UF_IsMutable \<noteq> 0)\<rparr>
   }"

text \<open>
  The fixed-size fields up to the flags byte (\<^verbatim>\<open>func\<close> starts default constructed), the
  schema caps, then the four counted arrays, the agreement of the two upvalue counts and the chunk.
\<close>

definition read_function_scalars :: "(reader, compiled_function) state" where
  "read_function_scalars = do {
     name \<leftarrow> read_string;
     arity \<leftarrow> read_u16;
     required_arity \<leftarrow> read_u16;
     upvalue_count \<leftarrow> read_u16;
     flags \<leftarrow> read_u8;
     ret (set_is_verified
            (empty_function\<lparr>cf_name := name, cf_arity := int (unat arity),
               cf_required_arity := int (unat required_arity),
               cf_upvalue_count := int (unat upvalue_count),
               cf_is_main := (flags AND FF_IsMain \<noteq> 0), cf_is_test := (flags AND FF_IsTest \<noteq> 0)\<rparr>)
            (flags AND FF_IsVerified \<noteq> 0))
   }"

definition function_limits_ok :: "compiled_function \<Rightarrow> bool" where
  "function_limits_ok func \<longleftrightarrow>
     \<not> (int k_max_arguments < cf_arity func \<or>
        int k_max_arguments < cf_required_arity func \<or>
        int k_max_upvalues < cf_upvalue_count func)"

definition deserialize_function_body :: "compiled_function \<Rightarrow> (reader, compiled_function outcome) state" where
  "deserialize_function_body func = do {
     param_count \<leftarrow> read_u16;
     err \<leftarrow> reader_error;
     fits \<leftarrow> remaining (unat param_count * k_string_length_prefix_bytes);
     if err \<or> \<not> fits then ret Abort
     else if cf_arity func < int (unat param_count) then ret Abort
     else do {
       param_names \<leftarrow> read_n (unat param_count) read_string [];
       local_count \<leftarrow> read_u16;
       err \<leftarrow> reader_error;
       fits \<leftarrow> remaining (unat local_count * k_string_length_prefix_bytes);
       if err \<or> \<not> fits then ret Abort
       else do {
         names \<leftarrow> read_n (unat local_count) read_string [];
         mutable_count \<leftarrow> read_u16;
         err \<leftarrow> reader_error;
         fits \<leftarrow> remaining (unat mutable_count * k_local_mutable_entry_bytes);
         if err \<or> \<not> fits then ret Abort
         else do {
           mutable_flags \<leftarrow> read_n (unat mutable_count) read_mutable_flag [];
           uv_count \<leftarrow> read_u16;
           err \<leftarrow> reader_error;
           fits \<leftarrow> remaining (unat uv_count * k_upvalue_entry_bytes);
           if k_max_upvalues < unat uv_count then ret Abort
           else if err \<or> \<not> fits then ret Abort
           else do {
             upvalues \<leftarrow> read_n (unat uv_count) read_upvalue [];
             err \<leftarrow> reader_error;
             if err then ret Abort
             else if cf_upvalue_count func \<noteq> int (length upvalues) then ret Abort
             else do {
               chunk_result \<leftarrow> deserialize_chunk empty_chunk;
               ret (case chunk_result of
                      Throw e \<Rightarrow> Throw e
                    | Abort \<Rightarrow> Abort
                    | Done c \<Rightarrow>
                        Done (build_param_name_index
                          (func\<lparr>cf_param_names := param_names,
                             cf_debug_info := \<lparr>local_names = names, local_mutable = mutable_flags\<rparr>,
                             cf_upvalues := upvalues, cf_chunk := c\<rparr>)))
             }
           }
         }
       }
     }
   }"

definition deserialize_function :: "(reader, compiled_function outcome) state" where
  "deserialize_function = do {
     func \<leftarrow> read_function_scalars;
     err \<leftarrow> reader_error;
     if err then ret Abort
     else if \<not> function_limits_ok func then ret Abort
     else deserialize_function_body func
   }"

section \<open>Whole files\<close>

definition serialize_dependency :: "byte list \<Rightarrow> source_dependency \<Rightarrow> byte list" where
  "serialize_dependency w d = write_int_be (write_string w (dep_path d)) (dep_content_hash d)"

definition serialize ::
    "compiled_function \<Rightarrow> compiled_function list \<Rightarrow> u64 \<Rightarrow> u64 \<Rightarrow> source_dependency list \<Rightarrow> byte list" where
  "serialize top_level functions source_hash timestamp dependencies =
     (let w = k_bytecode_magic;
          w = write_int_be w k_bytecode_format_version;
          w = write_int_be w (0 :: u32);
          w = write_int_be w source_hash;
          w = write_int_be w timestamp;
          w = foldl serialize_dependency (write_int_be w (word_of_nat (length dependencies) :: u32))
                dependencies;
          w = write_int_be w (word_of_nat (1 + length functions) :: u32);
          w = serialize_function w top_level
      in foldl serialize_function w functions)"

definition read_header :: "(reader, bytecode_header) state" where
  "read_header = do {
     magic \<leftarrow> read_bytes k_bytecode_magic 4;
     version \<leftarrow> read_u32;
     flags \<leftarrow> read_u32;
     source_hash \<leftarrow> read_u64;
     timestamp \<leftarrow> read_u64;
     ret \<lparr>hd_magic = magic, hd_version = version, hd_flags = flags, hd_source_hash = source_hash,
          hd_timestamp = timestamp\<rparr>
   }"

text \<open>The dependency loop: the dependencies, or the index of the first corrupt one.\<close>

fun read_dependencies ::
    "nat \<Rightarrow> nat \<Rightarrow> source_dependency list \<Rightarrow> (reader, nat + source_dependency list) state" where
  "read_dependencies 0 i acc = ret (Inr acc)"
| "read_dependencies (Suc n) i acc = do {
     path \<leftarrow> read_string;
     content_hash \<leftarrow> read_u64;
     err \<leftarrow> reader_error;
     if err then ret (Inl i)
     else read_dependencies n (Suc i) (acc @ [\<lparr>dep_path = path, dep_content_hash = content_hash\<rparr>])
   }"

text \<open>The loop over the remaining functions: the functions, or how and at which index it stopped.\<close>

fun read_functions ::
    "nat \<Rightarrow> nat \<Rightarrow> compiled_function list \<Rightarrow>
     (reader, (nat \<times> luma_error option) + compiled_function list) state" where
  "read_functions 0 i acc = ret (Inr acc)"
| "read_functions (Suc n) i acc = do {
     func \<leftarrow> deserialize_function;
     case func of
       Throw e \<Rightarrow> ret (Inl (i, Some e))
     | Abort \<Rightarrow> ret (Inl (i, None))
     | Done f \<Rightarrow> read_functions n (Suc i) (acc @ [f])
   }"

text \<open>The end of \<^verbatim>\<open>deserialize\<close>: every function gets the verdict of the verifier, which for a
  function it has no defined result for leaves the whole call undefined.\<close>

definition derive_verified :: "compiled_function \<Rightarrow> compiled_function option" where
  "derive_verified func = map_option (\<lambda>errors. set_is_verified func (errors = [])) (verify func)"

definition deserialized ::
    "bytecode_header \<Rightarrow> source_dependency list \<Rightarrow> compiled_function \<Rightarrow> compiled_function list \<Rightarrow>
     deserialize_result" where
  "deserialized header dependencies top_level functions =
     (case (derive_verified top_level, those (map derive_verified functions)) of
        (Some top_level, Some functions) \<Rightarrow>
          Deserialized \<lparr>db_header = header, db_dependencies = dependencies, db_top_level = top_level,
            db_functions = functions\<rparr>
      | _ \<Rightarrow> Undefined_Behaviour)"

definition deserialize_functions ::
    "bytecode_header \<Rightarrow> source_dependency list \<Rightarrow> u32 \<Rightarrow> (reader, deserialize_result) state" where
  "deserialize_functions header dependencies func_count = do {
     top \<leftarrow> deserialize_function;
     case top of
       Throw e \<Rightarrow> ret (Raised e)
     | Abort \<Rightarrow> ret (Rejected DE_CorruptFunction ''bytecode_serializer: corrupt top-level function'')
     | Done top_level \<Rightarrow> do {
         err \<leftarrow> reader_error;
         fits \<leftarrow> remaining ((unat func_count - 1) * k_min_function_bytes);
         if err \<or> \<not> fits
         then ret (Rejected DE_BadFunctionCount
                (''bytecode_serializer: function count '' @ show_nat (unat func_count) @
                 '' exceeds remaining input''))
         else do {
           functions \<leftarrow> read_functions (unat func_count - 1) 1 [];
           ret (case functions of
                  Inl (_, Some e) \<Rightarrow> Raised e
                | Inl (i, None) \<Rightarrow>
                    Rejected DE_CorruptFunction (''bytecode_serializer: corrupt function '' @ show_nat i)
                | Inr fs \<Rightarrow> deserialized header dependencies top_level fs)
         }
       }
   }"

definition deserialize_tables :: "bytecode_header \<Rightarrow> (reader, deserialize_result) state" where
  "deserialize_tables header = do {
     dependency_count \<leftarrow> read_u32;
     err \<leftarrow> reader_error;
     fits \<leftarrow> remaining (unat dependency_count * k_min_dependency_bytes);
     if err \<or> k_max_dependency_count < dependency_count \<or> \<not> fits
     then ret (Rejected DE_BadDependencyTable
            (''bytecode_serializer: invalid dependency count '' @ show_nat (unat dependency_count)))
     else do {
       table \<leftarrow> read_dependencies (unat dependency_count) 0 [];
       case table of
         Inl i \<Rightarrow> ret (Rejected DE_BadDependencyTable
                    (''bytecode_serializer: corrupt dependency '' @ show_nat i))
       | Inr dependencies \<Rightarrow> do {
           func_count \<leftarrow> read_u32;
           err \<leftarrow> reader_error;
           if err \<or> func_count = 0 \<or> k_max_function_count < func_count
           then ret (Rejected DE_BadFunctionCount
                  (''bytecode_serializer: invalid function count '' @ show_nat (unat func_count)))
           else deserialize_functions header dependencies func_count
         }
     }
   }"

definition deserialize :: "byte list \<Rightarrow> deserialize_result" where
  "deserialize data =
     (if length data < sizeof_bytecode_header
      then Rejected DE_TooSmall ''bytecode_serializer: buffer smaller than header''
      else fst (run_state (do {
        header \<leftarrow> read_header;
        err \<leftarrow> reader_error;
        if err then ret (Rejected DE_ReadError ''bytecode_serializer: header read failed'')
        else if hd_magic header \<noteq> k_bytecode_magic
        then ret (Rejected DE_BadMagic ''bytecode_serializer: invalid magic bytes'')
        else if hd_version header \<noteq> k_bytecode_format_version
        then ret (Rejected DE_VersionMismatch
               (''bytecode_serializer: expected version '' @ show_nat (unat k_bytecode_format_version) @
                '', got '' @ show_nat (unat (hd_version header))))
        else deserialize_tables header
      }) (new_reader data)))"

section \<open>Files\<close>

text \<open>
  What \<^verbatim>\<open>read_file\<close> observes of the input stream: whether it opened, the position reported by
  \<^verbatim>\<open>tellg\<close>, the bytes read and whether the read left it good.
\<close>

record input_file =
  in_opened :: bool
  in_size :: int
  in_bytes :: "byte list"
  in_good :: bool

definition read_file :: "string \<Rightarrow> input_file \<Rightarrow> u64 \<Rightarrow> deserialize_result" where
  "read_file path file expected_source_hash =
     (if \<not> in_opened file
      then Rejected DE_FileNotFound (''bytecode_serializer: file not found: '' @ path)
      else if in_size file \<le> 0 \<or> k_max_bytecode_file_size < nat (in_size file)
      then Rejected DE_FileTooLarge
             (''bytecode_serializer: file too large ('' @ show_int (in_size file) @ '' bytes)'')
      else if \<not> in_good file
      then Rejected DE_FileReadFailed (''bytecode_serializer: file read failed: '' @ path)
      else case deserialize (in_bytes file) of
             Deserialized result \<Rightarrow>
               if expected_source_hash \<noteq> 0 \<and> hd_source_hash (db_header result) \<noteq> expected_source_hash
               then Rejected DE_HashMismatch
                      (''bytecode_serializer: hash mismatch, expected '' @
                       show_nat (unat expected_source_hash) @ '', got '' @
                       show_nat (unat (hd_source_hash (db_header result))))
               else Deserialized result
           | failed \<Rightarrow> failed)"

definition hash_source :: "string \<Rightarrow> u64" where
  "hash_source source = fnv1a_hash source"

end
