(* ===== verification/Serializer_Round_Trip.thy ===== *)
theory Serializer_Round_Trip
  imports Bytecode_Serializer
begin

text \<open>
  Reading back what was written.  A reader that has consumed \<^verbatim>\<open>pre\<close> and has \<^verbatim>\<open>rest\<close>
  before it is \<^verbatim>\<open>rdr pre rest\<close>; a decoder inverts an encoder when it turns
  \<^verbatim>\<open>rdr pre (enc x @ rest)\<close> into \<open>x\<close> and \<^verbatim>\<open>rdr (pre @ enc x) rest\<close>.  The locales
  state this contract for plain items and for container elements and prove the counted loops once; they
  are interpreted on the strings, flags, upvalues, constants, source-map entries, names, dependencies and
  functions of the format.
\<close>

section \<open>Readers between two byte sequences\<close>

definition rdr :: "byte list \<Rightarrow> byte list \<Rightarrow> reader" where
  "rdr pre rest = \<lparr>rd_data = pre @ rest, rd_pos = length pre, rd_error = False\<rparr>"

lemma new_reader_rdr: "new_reader data = rdr [] data"
  by (simp add: new_reader_def rdr_def)

lemma reader_error_rdr [simp, reader_simps]: "run_state reader_error (rdr pre rest) = (False, rdr pre rest)"
  by (simp add: reader_error_def rdr_def)

lemma remaining_rdr [simp, reader_simps]:
  "run_state (remaining n) (rdr pre rest) = (n \<le> length rest, rdr pre rest)"
  by (simp add: remaining_def has_remaining_def rdr_def)

lemma read_int_rdr [simp, reader_simps]:
  fixes v :: "'w::len word"
  assumes "8 dvd LENGTH('w)"
  shows "run_state read_int (rdr pre (write_int_be [] v @ rest)) = (v, rdr (pre @ write_int_be [] v) rest)"
  using read_write_int_be [OF assms, of v rest] by (simp add: read_int_def rdr_def has_remaining_def)

lemma read_bytes_rdr [simp, reader_simps]:
  "n = length bs \<Longrightarrow> run_state (read_bytes dest n) (rdr pre (bs @ rest)) = (bs, rdr (pre @ bs) rest)"
  by (simp add: read_bytes_def rdr_def has_remaining_def)

section \<open>Writers append\<close>

lemma write_int_be_app: "write_int_be w v = w @ write_int_be [] v"
  by (simp add: write_int_be_def)

lemma write_string_app: "write_string w s = w @ write_string [] s"
  by (simp add: write_string_def write_int_be_def)

lemma serialize_value_app: "serialize_value w v = w @ serialize_value [] v"
  by (cases v) (simp_all add: write_int_be_def write_string_def)

lemma serialize_location_app: "serialize_location w e = w @ serialize_location [] e"
  by (simp add: serialize_location_def write_int_be_def Let_def)

lemma serialize_upvalue_app: "serialize_upvalue w uv = w @ serialize_upvalue [] uv"
  by (simp add: serialize_upvalue_def write_int_be_def)

lemma serialize_dependency_app: "serialize_dependency w d = w @ serialize_dependency [] d"
  by (simp add: serialize_dependency_def write_int_be_def write_string_def)

lemma foldl_app:
  assumes "\<And>w x. f w x = w @ f [] x"
  shows "foldl f w xs = w @ concat (map (f []) xs)"
proof (induction xs arbitrary: w)
  case (Cons x xs)
  show ?case by (simp add: Cons assms [of w x])
qed simp

section \<open>Decoders of items\<close>

locale codec =
  fixes enc :: "'a \<Rightarrow> byte list" and dec :: "(reader, 'a) state" and ok :: "'a \<Rightarrow> bool" and width :: nat
  assumes decode: "ok x \<Longrightarrow> run_state dec (rdr pre (enc x @ rest)) = (x, rdr (pre @ enc x) rest)"
    and width: "width \<le> length (enc x)"
begin

lemma read_n_decodes:
  "list_all ok xs \<Longrightarrow>
   run_state (read_n (length xs) dec acc) (rdr pre (concat (map enc xs) @ rest)) =
     (acc @ xs, rdr (pre @ concat (map enc xs)) rest)"
  by (induction xs arbitrary: acc pre) (simp_all add: decode)

lemma concat_width: "length xs * width \<le> length (concat (map enc xs))"
proof (induction xs)
  case (Cons x xs)
  then show ?case using width [of x] by simp
qed simp

end

text \<open>Elements that a loop adds to a container, as long as the container accepts them.\<close>

locale element_codec =
  fixes enc :: "'a \<Rightarrow> byte list" and step :: "'c \<Rightarrow> (reader, 'c outcome) state"
    and add :: "'c \<Rightarrow> 'a \<Rightarrow> 'c" and ok :: "'c \<Rightarrow> 'a \<Rightarrow> bool" and width :: nat
  assumes element: "ok c x \<Longrightarrow> run_state (step c) (rdr pre (enc x @ rest)) = (Done (add c x), rdr (pre @ enc x) rest)"
    and element_width: "width \<le> length (enc x)"
begin

fun all_ok :: "'c \<Rightarrow> 'a list \<Rightarrow> bool" where
  "all_ok c [] = True"
| "all_ok c (x # xs) = (ok c x \<and> all_ok (add c x) xs)"

lemma read_elements_decodes:
  "all_ok c xs \<Longrightarrow>
   run_state (read_elements (length xs) step c) (rdr pre (concat (map enc xs) @ rest)) =
     (Done (foldl add c xs), rdr (pre @ concat (map enc xs)) rest)"
  by (induction xs arbitrary: c pre) (simp_all add: element)

lemma element_concat_width: "length xs * width \<le> length (concat (map enc xs))"
proof (induction xs)
  case (Cons x xs)
  then show ?case using element_width [of x] by simp
qed simp

lemma read_bounded_array_decodes:
  assumes "all_ok c xs" and "8 dvd LENGTH('w::len)" and "length xs < 2 ^ LENGTH('w)"
    and "\<And>pre rest. length (concat (map enc xs)) \<le> length rest \<Longrightarrow>
           run_state (limit (word_of_nat (length xs) :: 'w word)) (rdr pre rest) = (True, rdr pre rest)"
  shows "run_state (read_bounded_array limit step c)
           (rdr pre (write_int_be [] (word_of_nat (length xs) :: 'w word) @ concat (map enc xs) @ rest)) =
         (Done (foldl add c xs),
          rdr (pre @ write_int_be [] (word_of_nat (length xs) :: 'w word) @ concat (map enc xs)) rest)"
  using assms read_elements_decodes [OF assms(1)]
  by (simp add: read_bounded_array_def unat_word_of_nat_bound)

end

section \<open>The items of the format\<close>

definition string_ok :: "string \<Rightarrow> bool" where
  "string_ok s \<longleftrightarrow> length s < 2 ^ 32"

lemma read_string_rdr [simp, reader_simps]:
  assumes "string_ok s"
  shows "run_state read_string (rdr pre (write_string [] s @ rest)) = (s, rdr (pre @ write_string [] s) rest)"
proof -
  have len: "unat (word_of_nat (length s) :: u32) = length s"
    using assms by (intro unat_word_of_nat_bound) (simp add: string_ok_def)
  have "run_state read_u32 (rdr pre (write_int_be [] (word_of_nat (length s) :: u32) @ bytes_of_string s @ rest)) =
      (word_of_nat (length s), rdr (pre @ write_int_be [] (word_of_nat (length s) :: u32)) (bytes_of_string s @ rest))"
    by simp
  then show ?thesis
    by (simp add: read_string_def write_string_def len) (simp add: rdr_def has_remaining_def)
qed

interpretation string: codec "write_string []" read_string string_ok 4
  by unfold_locales (simp, simp add: write_string_def)

lemma write_mutable_flag_app: "write_mutable_flag w m = w @ write_mutable_flag [] m"
  by (simp add: write_mutable_flag_def write_int_be_def)

interpretation flag: codec "write_mutable_flag []" read_mutable_flag "\<lambda>_. True" 1
proof unfold_locales
  fix x :: bool and pre rest
  show "run_state read_mutable_flag (rdr pre (write_mutable_flag [] x @ rest)) =
      (x, rdr (pre @ write_mutable_flag [] x) rest)"
    by (cases x) (simp_all add: read_mutable_flag_def write_mutable_flag_def)
qed (simp add: write_mutable_flag_def)

lemma upvalue_flag_bits:
  "((if l then UF_IsLocal else 0) OR (if m then UF_IsMutable else 0)) AND UF_IsLocal \<noteq> 0 \<longleftrightarrow> l"
  "((if l then UF_IsLocal else 0) OR (if m then UF_IsMutable else 0)) AND UF_IsMutable \<noteq> 0 \<longleftrightarrow> m"
  by (cases l; cases m; simp)+

interpretation uv: codec "serialize_upvalue []" read_upvalue "\<lambda>_. True" 3
proof unfold_locales
  fix x :: upvalue and pre rest
  show "run_state read_upvalue (rdr pre (serialize_upvalue [] x @ rest)) =
      (x, rdr (pre @ serialize_upvalue [] x) rest)"
    by (simp add: read_upvalue_def serialize_upvalue_def write_int_be_app [of "write_int_be [] (uv_index x)"]
        upvalue_flag_bits)
qed (simp add: serialize_upvalue_def)

section \<open>The elements of a chunk\<close>

fun value_ok :: "val \<Rightarrow> bool" where
  "value_ok (VString s) = string_ok s"
| "value_ok (VObject _ _) = False"
| "value_ok _ = True"

lemma deserialize_value_rdr [simp, reader_simps]:
  assumes "value_ok v"
  shows "run_state deserialize_value (rdr pre (serialize_value [] v @ rest)) =
    (Some v, rdr (pre @ serialize_value [] v) rest)"
  using assms
  by (cases v) (simp_all add: deserialize_value_def write_string_app [of "write_int_be _ _"]
      write_int_be_app [of "write_int_be _ _"])

definition pool_append :: "constant_pool \<Rightarrow> val \<Rightarrow> constant_pool" where
  "pool_append p v = p\<lparr>cp_values := cp_values p @ [v]\<rparr>"

interpretation const: element_codec "serialize_value []" read_constant_element pool_append
  "\<lambda>p v. length (cp_values p) < k_max_constants \<and> value_ok v" 1
proof unfold_locales
  show "1 \<le> length (serialize_value [] x)" for x
    by (cases x) (simp_all add: write_string_def)
qed (simp add: read_constant_element_def cp_push_back_def cp_is_full_def pool_append_def)

lemma sint_word_of_int_32: "- (2 ^ 31) \<le> i \<Longrightarrow> i < 2 ^ 31 \<Longrightarrow> sint (word_of_int i :: u32) = i"
  by (simp add: signed_of_int signed_take_bit_int_eq_self)

definition int32 :: "int \<Rightarrow> bool" where
  "int32 i \<longleftrightarrow> - (2 ^ 31) \<le> i \<and> i < 2 ^ 31"

definition location_ok :: "nat \<times> source_location \<Rightarrow> bool" where
  "location_ok e \<longleftrightarrow>
     fst e < 2 ^ 32 \<and> int32 (file_id (snd e)) \<and> int32 (line (snd e)) \<and> int32 (column (snd e)) \<and>
     int32 (start_line (snd e)) \<and> int32 (start_column (snd e))"

interpretation loc: element_codec "serialize_location []" read_location_element "\<lambda>sm e. sm @ [e]"
  "\<lambda>_. location_ok" 24
proof unfold_locales
  fix c x pre rest
  assume ok: "location_ok x"
  have enc: "serialize_location [] x = write_int_be [] (word_of_nat (fst x) :: u32) @
      write_int_be [] (word_of_int (file_id (snd x)) :: u32) @ write_int_be [] (word_of_int (line (snd x)) :: u32) @
      write_int_be [] (word_of_int (column (snd x)) :: u32) @ write_int_be [] (word_of_int (start_line (snd x)) :: u32) @
      write_int_be [] (word_of_int (start_column (snd x)) :: u32)"
    by (simp add: serialize_location_def write_int_be_def Let_def)
  show "run_state (read_location_element c) (rdr pre (serialize_location [] x @ rest)) =
      (Done (c @ [x]), rdr (pre @ serialize_location [] x) rest)"
    unfolding enc using ok
    by (cases x) (simp add: read_location_element_def location_ok_def int32_def sint_word_of_int_32
        unat_word_of_nat_bound sm_append_def)
qed (simp add: serialize_location_def)

definition name_append :: "name_table \<Rightarrow> string \<Rightarrow> name_table" where
  "name_append t name = fst (nt_try_add t name)"

interpretation name: element_codec "write_string []" read_name_element name_append
  "\<lambda>t s. string_ok s \<and> nt_inv t \<and> s \<notin> set (nt_names t) \<and> length (nt_names t) < k_max_names" 4
proof unfold_locales
  fix c x pre rest
  assume ok: "string_ok x \<and> nt_inv c \<and> x \<notin> set (nt_names c) \<and> length (nt_names c) < k_max_names"
  then have "nt_index c x = None"
    by (metis nt_inv_def nth_mem option.exhaust)
  with ok show "run_state (read_name_element c) (rdr pre (write_string [] x @ rest)) =
      (Done (name_append c x), rdr (pre @ write_string [] x) rest)"
    by (simp add: read_name_element_def nt_add_def nt_try_add_def name_append_def Let_def)
qed (simp add: write_string_def)

section \<open>Containers after their loops\<close>

lemma const_all_ok:
  "list_all value_ok xs \<Longrightarrow> length (cp_values p) + length xs \<le> k_max_constants \<Longrightarrow> const.all_ok p xs"
  by (induction xs arbitrary: p) (simp_all add: pool_append_def)

lemma foldl_pool_append: "foldl pool_append p xs = p\<lparr>cp_values := cp_values p @ xs\<rparr>"
  by (induction xs arbitrary: p) (simp_all add: pool_append_def)

lemma loc_all_ok: "list_all location_ok xs \<Longrightarrow> loc.all_ok sm xs"
  by (induction xs arbitrary: sm) simp_all

lemma foldl_snoc: "foldl (\<lambda>sm e. sm @ [e]) sm xs = sm @ xs"
  by (induction xs arbitrary: sm) simp_all

lemma name_append_new:
  assumes "nt_inv t" "name \<notin> set (nt_names t)" "length (nt_names t) < k_max_names"
  shows "nt_inv (name_append t name)" "nt_names (name_append t name) = nt_names t @ [name]"
proof -
  have "nt_index t name = None" using assms by (metis nt_inv_def nth_mem option.exhaust)
  with assms nt_try_add_inv [OF assms(1), of name]
  show "nt_inv (name_append t name)" "nt_names (name_append t name) = nt_names t @ [name]"
    by (simp_all add: name_append_def nt_try_add_def Let_def)
qed

lemma name_all_ok:
  assumes "list_all string_ok xs" "nt_inv t" "distinct (nt_names t @ xs)"
    and "length (nt_names t) + length xs \<le> k_max_names"
  shows "name.all_ok t xs \<and> nt_inv (foldl name_append t xs) \<and>
         nt_names (foldl name_append t xs) = nt_names t @ xs"
  using assms
proof (induction xs arbitrary: t)
  case (Cons x xs)
  then have "nt_inv (name_append t x)" "nt_names (name_append t x) = nt_names t @ [x]"
    using name_append_new [of t x] by simp_all
  with Cons show ?case by simp
qed simp

lemma nt_inv_unique:
  assumes "nt_inv t" "nt_inv t'" "nt_names t = nt_names t'"
  shows "t = t'"
proof -
  have "nt_index t name = nt_index t' name" for name
    using assms unfolding nt_inv_def by (metis not_None_eq)
  with assms(3) show ?thesis by (intro name_table.equality) auto
qed

lemma foldl_name_append:
  assumes "nt_inv t" "list_all string_ok (nt_names t)"
  shows "name.all_ok empty_name_table (nt_names t)" "foldl name_append empty_name_table (nt_names t) = t"
proof -
  have "name.all_ok empty_name_table (nt_names t) \<and>
      nt_inv (foldl name_append empty_name_table (nt_names t)) \<and>
      nt_names (foldl name_append empty_name_table (nt_names t)) = nt_names empty_name_table @ nt_names t"
    using assms by (intro name_all_ok) (simp_all add: nt_inv_def empty_name_table_def)
  then show "name.all_ok empty_name_table (nt_names t)" "foldl name_append empty_name_table (nt_names t) = t"
    using assms nt_inv_unique [of _ t] by (auto simp: empty_name_table_def)
qed

section \<open>Chunks\<close>

definition chunk_ok :: "chunk \<Rightarrow> bool" where
  "chunk_ok c \<longleftrightarrow>
     length (ch_code c) \<le> 10000000 \<and>
     cp_size (ch_constants c) \<le> k_max_constants \<and> list_all value_ok (cp_values (ch_constants c)) \<and>
     length (ch_source_map c) < 2 ^ 32 \<and> list_all location_ok (ch_source_map c) \<and>
     nt_inv (ch_names c) \<and> list_all string_ok (nt_names (ch_names c))"

text \<open>What a chunk becomes on disk and back: the deduplication maps of its pool are not stored.\<close>

definition reload_chunk :: "chunk \<Rightarrow> chunk" where
  "reload_chunk c = c\<lparr>ch_constants := empty_constant_pool\<lparr>cp_values := cp_values (ch_constants c)\<rparr>\<rparr>"

lemma serialize_chunk_eq:
  "serialize_chunk w c = w @
     write_int_be [] (word_of_nat (length (ch_code c)) :: u32) @ ch_code c @
     write_int_be [] (word_of_nat (length (cp_values (ch_constants c))) :: u16) @
     concat (map (serialize_value []) (cp_values (ch_constants c))) @
     write_int_be [] (word_of_nat (length (ch_source_map c)) :: u32) @
     concat (map (serialize_location []) (ch_source_map c)) @
     write_int_be [] (word_of_nat (length (nt_names (ch_names c))) :: u16) @
     concat (map (write_string []) (nt_names (ch_names c)))"
  unfolding serialize_chunk_def Let_def cp_size_def
  by (simp only: foldl_app [of serialize_value, OF serialize_value_app]
      foldl_app [of serialize_location, OF serialize_location_app]
      foldl_app [of write_string, OF write_string_app] write_int_be_def append_assoc append_Nil)

lemma constants_rdr:
  assumes "length vs \<le> k_max_constants" "list_all value_ok vs"
  shows "run_state (read_bounded_array within_constant_limit read_constant_element empty_constant_pool)
           (rdr pre (write_int_be [] (word_of_nat (length vs) :: u16) @ concat (map (serialize_value []) vs) @ rest)) =
         (Done (empty_constant_pool\<lparr>cp_values := vs\<rparr>),
          rdr (pre @ write_int_be [] (word_of_nat (length vs) :: u16) @ concat (map (serialize_value []) vs)) rest)"
proof -
  have len: "length vs < 2 ^ 16" using assms by (simp add: k_max_constants_def)
  have "const.all_ok empty_constant_pool vs"
    using assms by (intro const_all_ok) (simp_all add: empty_constant_pool_def)
  from const.read_bounded_array_decodes [OF this, where limit = within_constant_limit] len assms(1)
  show ?thesis
    by (simp add: within_constant_limit_def unat_word_of_nat_u16 foldl_pool_append empty_constant_pool_def
        k_max_constants_def)
qed

lemma locations_rdr:
  assumes "length es < 2 ^ 32" "list_all location_ok es"
  shows "run_state (read_bounded_array within_location_limit read_location_element [])
           (rdr pre (write_int_be [] (word_of_nat (length es) :: u32) @ concat (map (serialize_location []) es) @ rest)) =
         (Done es,
          rdr (pre @ write_int_be [] (word_of_nat (length es) :: u32) @ concat (map (serialize_location []) es)) rest)"
proof -
  have "length es * 24 \<le> length r" if "length (concat (map (serialize_location []) es)) \<le> length r" for r :: "byte list"
    using loc.element_concat_width [of es] that by linarith
  with loc.read_bounded_array_decodes [OF loc_all_ok [OF assms(2)], where limit = within_location_limit] assms(1)
  show ?thesis
    by (simp add: within_location_limit_def k_source_map_entry_bytes_def foldl_snoc unat_word_of_nat_u32)
qed

lemma names_rdr:
  assumes "nt_inv t" "list_all string_ok (nt_names t)"
  shows "run_state (read_bounded_array within_name_limit read_name_element empty_name_table)
           (rdr pre (write_int_be [] (word_of_nat (length (nt_names t)) :: u16) @
              concat (map (write_string []) (nt_names t)) @ rest)) =
         (Done t, rdr (pre @ write_int_be [] (word_of_nat (length (nt_names t)) :: u16) @
                        concat (map (write_string []) (nt_names t))) rest)"
proof -
  have len: "length (nt_names t) \<le> 65535" using assms(1) by (simp add: nt_inv_def k_max_names_def)
  have "length (nt_names t) * 4 \<le> length r"
    if "length (concat (map (write_string []) (nt_names t))) \<le> length r" for r :: "byte list"
    using name.element_concat_width [of "nt_names t"] that by linarith
  with name.read_bounded_array_decodes [OF foldl_name_append(1) [OF assms], where limit = within_name_limit] len
  show ?thesis
    by (simp add: within_name_limit_def k_string_length_prefix_bytes_def unat_word_of_nat_u16
        foldl_name_append(2) [OF assms])
qed

lemma deserialize_chunk_rdr [simp, reader_simps]:
  assumes "chunk_ok c"
  shows "run_state (deserialize_chunk empty_chunk) (rdr pre (serialize_chunk [] c @ rest)) =
         (Done (reload_chunk c), rdr (pre @ serialize_chunk [] c) rest)"
proof -
  from assms have len: "unat (word_of_nat (length (ch_code c)) :: u32) = length (ch_code c)"
    by (intro unat_word_of_nat_bound) (simp add: chunk_ok_def)
  then have "\<not> k_max_code_section_bytes < word_of_nat (length (ch_code c))"
    using assms by (simp add: chunk_ok_def k_max_code_section_bytes_def word_less_nat_alt)
  with assms len show ?thesis
    unfolding serialize_chunk_eq [of "[]"] deserialize_chunk_def
    by (simp add: chunk_ok_def cp_size_def constants_rdr locations_rdr names_rdr empty_chunk_def reload_chunk_def)
qed

section \<open>Functions\<close>

definition function_ok :: "compiled_function \<Rightarrow> bool" where
  "function_ok f \<longleftrightarrow>
     string_ok (cf_name f) \<and> 0 \<le> cf_arity f \<and> cf_arity f \<le> int k_max_arguments \<and>
     0 \<le> cf_required_arity f \<and> cf_required_arity f \<le> int k_max_arguments \<and>
     cf_upvalue_count f = int (length (cf_upvalues f)) \<and> length (cf_upvalues f) \<le> k_max_upvalues \<and>
     int (length (cf_param_names f)) \<le> cf_arity f \<and> list_all string_ok (cf_param_names f) \<and>
     length (local_names (cf_debug_info f)) < 2 ^ 16 \<and> list_all string_ok (local_names (cf_debug_info f)) \<and>
     length (local_mutable (cf_debug_info f)) < 2 ^ 16 \<and> chunk_ok (cf_chunk f)"

text \<open>What a function becomes on disk and back, before the verifier runs.\<close>

definition reload_function :: "compiled_function \<Rightarrow> compiled_function" where
  "reload_function f = build_param_name_index (f\<lparr>cf_chunk := reload_chunk (cf_chunk f)\<rparr>)"

lemma function_flag_bits:
  "function_flags f AND FF_IsMain \<noteq> 0 \<longleftrightarrow> cf_is_main f"
  "function_flags f AND FF_IsTest \<noteq> 0 \<longleftrightarrow> cf_is_test f"
  "function_flags f AND FF_IsVerified \<noteq> 0 \<longleftrightarrow> cf_verified f"
  by (cases "cf_is_main f"; cases "cf_is_test f"; cases "cf_verified f"; simp add: function_flags_def)+

lemma uint_word_of_int_16: "0 \<le> i \<Longrightarrow> i < 2 ^ 16 \<Longrightarrow> uint (word_of_int i :: u16) = i"
  by (simp add: unsigned_of_int take_bit_int_eq_self)

lemma serialize_function_eq:
  "serialize_function w f = w @ write_string [] (cf_name f) @
     write_int_be [] (word_of_int (cf_arity f) :: u16) @
     write_int_be [] (word_of_int (cf_required_arity f) :: u16) @
     write_int_be [] (word_of_int (cf_upvalue_count f) :: u16) @
     write_int_be [] (function_flags f) @
     write_int_be [] (word_of_nat (length (cf_param_names f)) :: u16) @
     concat (map (write_string []) (cf_param_names f)) @
     write_int_be [] (word_of_nat (length (local_names (cf_debug_info f))) :: u16) @
     concat (map (write_string []) (local_names (cf_debug_info f))) @
     write_int_be [] (word_of_nat (length (local_mutable (cf_debug_info f))) :: u16) @
     concat (map (write_mutable_flag []) (local_mutable (cf_debug_info f))) @
     write_int_be [] (word_of_nat (length (cf_upvalues f)) :: u16) @
     concat (map (serialize_upvalue []) (cf_upvalues f)) @
     serialize_chunk [] (cf_chunk f)"
  unfolding serialize_function_def Let_def serialize_chunk_eq [of "foldl _ _ _"] serialize_chunk_eq [of "[]"]
  by (simp only: foldl_app [of write_string, OF write_string_app]
      foldl_app [of serialize_upvalue, OF serialize_upvalue_app]
      foldl_app [of write_mutable_flag, OF write_mutable_flag_app]
      write_string_app [of w] write_int_be_def append_assoc append_Nil)

lemma serialize_function_app: "serialize_function w f = w @ serialize_function [] f"
  by (simp add: serialize_function_eq [of w] serialize_function_eq [of "[]"])

lemma read_function_scalars_rdr [simp, reader_simps]:
  assumes "function_ok f"
  shows "run_state read_function_scalars (rdr pre (write_string [] (cf_name f) @
      write_int_be [] (word_of_int (cf_arity f) :: u16) @
      write_int_be [] (word_of_int (cf_required_arity f) :: u16) @
      write_int_be [] (word_of_int (cf_upvalue_count f) :: u16) @
      write_int_be [] (function_flags f) @ rest)) =
    (f\<lparr>cf_chunk := empty_chunk, cf_param_names := [], cf_param_name_index := Map.empty,
       cf_debug_info := \<lparr>local_names = [], local_mutable = []\<rparr>, cf_upvalues := []\<rparr>,
     rdr (pre @ write_string [] (cf_name f) @ write_int_be [] (word_of_int (cf_arity f) :: u16) @
      write_int_be [] (word_of_int (cf_required_arity f) :: u16) @
      write_int_be [] (word_of_int (cf_upvalue_count f) :: u16) @
      write_int_be [] (function_flags f)) rest)"
proof -
  have "cf_arity f \<in> {0..<2 ^ 16}" "cf_required_arity f \<in> {0..<2 ^ 16}" "cf_upvalue_count f \<in> {0..<2 ^ 16}"
    using assms by (auto simp: function_ok_def k_max_arguments_def k_max_upvalues_def)
  then have counts: "uint (word_of_int (cf_arity f) :: u16) = cf_arity f"
    "uint (word_of_int (cf_required_arity f) :: u16) = cf_required_arity f"
    "uint (word_of_int (cf_upvalue_count f) :: u16) = cf_upvalue_count f"
    by (auto simp only: atLeastLessThan_iff intro!: uint_word_of_int_16)
  have "string_ok (cf_name f)" using assms by (simp add: function_ok_def)
  with counts show ?thesis
    by (cases f) (simp add: read_function_scalars_def function_flag_bits empty_function_def set_is_verified_def)
qed

lemma reload_function_eq:
  "build_param_name_index
     (f\<lparr>cf_param_name_index := m,
        cf_debug_info := \<lparr>local_names = local_names (cf_debug_info f), local_mutable = local_mutable (cf_debug_info f)\<rparr>,
        cf_chunk := reload_chunk (cf_chunk f)\<rparr>) = reload_function f"
  by (cases f) (simp add: reload_function_def build_param_name_index_def)

lemma deserialize_function_rdr [simp, reader_simps]:
  assumes "function_ok f"
  shows "run_state deserialize_function (rdr pre (serialize_function [] f @ rest)) =
         (Done (reload_function f), rdr (pre @ serialize_function [] f) rest)"
proof -
  let ?P = "cf_param_names f" and ?L = "local_names (cf_debug_info f)"
    and ?M = "local_mutable (cf_debug_info f)" and ?U = "cf_upvalues f"
  have counts: "unat (word_of_nat (length ?P) :: u16) = length ?P" "unat (word_of_nat (length ?L) :: u16) = length ?L"
    "unat (word_of_nat (length ?M) :: u16) = length ?M" "unat (word_of_nat (length ?U) :: u16) = length ?U"
    using assms by (auto intro!: unat_word_of_nat_bound simp: function_ok_def k_max_arguments_def k_max_upvalues_def)
  have widths: "length (concat (map (write_string []) ?P)) \<le> n \<Longrightarrow> length ?P * 4 \<le> n"
    "length (concat (map (write_string []) ?L)) \<le> n \<Longrightarrow> length ?L * 4 \<le> n"
    "length (concat (map (write_mutable_flag []) ?M)) \<le> n \<Longrightarrow> length ?M \<le> n"
    "length (concat (map (serialize_upvalue []) ?U)) \<le> n \<Longrightarrow> length ?U * 3 \<le> n" for n
    using string.concat_width [of ?P] string.concat_width [of ?L] flag.concat_width [of ?M] uv.concat_width [of ?U]
    by simp_all
  have ok: "list_all string_ok ?P" "list_all string_ok ?L" "list_all (\<lambda>_. True) ?M" "list_all (\<lambda>_. True) ?U"
    "int (length ?P) \<le> cf_arity f" "int (length ?U) = cf_upvalue_count f" "length ?U \<le> k_max_upvalues"
    "chunk_ok (cf_chunk f)"
    using assms by (simp_all add: function_ok_def list_all_iff)
  from assms have limits: "function_limits_ok (f\<lparr>cf_chunk := empty_chunk, cf_param_names := [],
      cf_param_name_index := Map.empty, cf_debug_info := \<lparr>local_names = [], local_mutable = []\<rparr>, cf_upvalues := []\<rparr>)"
    by (simp add: function_limits_ok_def function_ok_def)
  show ?thesis
    unfolding serialize_function_eq [of "[]"] deserialize_function_def deserialize_function_body_def
    using assms counts widths limits ok
    by (simp add: string.read_n_decodes flag.read_n_decodes uv.read_n_decodes
        k_string_length_prefix_bytes_def k_local_mutable_entry_bytes_def k_upvalue_entry_bytes_def
        reload_function_eq)
qed

section \<open>Whole files\<close>

definition dependency_ok :: "source_dependency \<Rightarrow> bool" where
  "dependency_ok d \<longleftrightarrow> string_ok (dep_path d)"

lemma read_dependencies_rdr:
  "list_all dependency_ok ds \<Longrightarrow>
   run_state (read_dependencies (length ds) i acc) (rdr pre (concat (map (serialize_dependency []) ds) @ rest)) =
     (Inr (acc @ ds), rdr (pre @ concat (map (serialize_dependency []) ds)) rest)"
proof (induction ds arbitrary: i acc pre)
  case (Cons d ds)
  then show ?case
    by (simp add: serialize_dependency_def [of "[]"] write_int_be_app [of "write_string _ _"] dependency_ok_def)
qed simp

lemma dependencies_width: "length ds * 12 \<le> length (concat (map (serialize_dependency []) ds))"
  by (induction ds) (simp_all add: serialize_dependency_def write_string_def)

lemma read_functions_rdr:
  "list_all function_ok fs \<Longrightarrow>
   run_state (read_functions (length fs) i acc) (rdr pre (concat (map (serialize_function []) fs) @ rest)) =
     (Inr (acc @ map reload_function fs), rdr (pre @ concat (map (serialize_function []) fs)) rest)"
  by (induction fs arbitrary: i acc pre) simp_all

lemma serialize_function_width: "31 \<le> length (serialize_function [] f)"
  by (simp add: serialize_function_eq [of "[]"] serialize_chunk_eq [of "[]"] write_string_def)

lemma functions_width: "length fs * 31 \<le> length (concat (map (serialize_function []) fs))"
proof (induction fs)
  case (Cons f fs)
  then show ?case using serialize_function_width [of f] by simp
qed simp

lemma serialize_eq:
  "serialize main fs h ts ds =
     k_bytecode_magic @ write_int_be [] k_bytecode_format_version @ write_int_be [] (0 :: u32) @
     write_int_be [] h @ write_int_be [] ts @
     write_int_be [] (word_of_nat (length ds) :: u32) @ concat (map (serialize_dependency []) ds) @
     write_int_be [] (word_of_nat (1 + length fs) :: u32) @ serialize_function [] main @
     concat (map (serialize_function []) fs)"
  unfolding serialize_def Let_def
  by (simp only: foldl_app [of serialize_dependency, OF serialize_dependency_app]
      foldl_app [of serialize_function, OF serialize_function_app] serialize_function_app [of "_ @ _"]
      write_int_be_def append_assoc append_Nil)

lemma deserialize_functions_rdr:
  assumes "function_ok main" "list_all function_ok fs" "length fs < 100000"
  shows "run_state (deserialize_functions header ds (word_of_nat (1 + length fs)))
           (rdr pre (serialize_function [] main @ concat (map (serialize_function []) fs) @ rest)) =
         (deserialized header ds (reload_function main) (map reload_function fs),
          rdr (pre @ serialize_function [] main @ concat (map (serialize_function []) fs)) rest)"
proof -
  have n: "unat (word_of_nat (Suc (length fs)) :: u32) = Suc (length fs)"
    using assms(3) by (intro unat_word_of_nat_bound) simp
  have w: "length fs * 31 \<le> length (concat (map (serialize_function []) fs)) + k" for k
    using functions_width [of fs] by linarith
  show ?thesis
    using assms(1) w n read_functions_rdr [OF assms(2)]
    by (simp add: deserialize_functions_def k_min_function_bytes_def del: of_nat_Suc)
qed

lemma deserialize_tables_rdr:
  assumes "function_ok main" "list_all function_ok fs" "length fs < 100000"
    and "list_all dependency_ok ds" "length ds \<le> 10000"
  shows "run_state (deserialize_tables header)
           (rdr pre (write_int_be [] (word_of_nat (length ds) :: u32) @ concat (map (serialize_dependency []) ds) @
              write_int_be [] (word_of_nat (1 + length fs) :: u32) @
              serialize_function [] main @ concat (map (serialize_function []) fs))) =
         (deserialized header ds (reload_function main) (map reload_function fs),
          rdr (pre @ write_int_be [] (word_of_nat (length ds) :: u32) @ concat (map (serialize_dependency []) ds) @
              write_int_be [] (word_of_nat (1 + length fs) :: u32) @
              serialize_function [] main @ concat (map (serialize_function []) fs)) [])"
proof -
  have nf: "unat (word_of_nat (1 + length fs) :: u32) = 1 + length fs"
    using assms(3) by (intro unat_word_of_nat_bound) simp
  have nd: "unat (word_of_nat (length ds) :: u32) = length ds"
    using assms(5) by (intro unat_word_of_nat_bound) simp
  have limits: "\<not> k_max_dependency_count < word_of_nat (length ds)"
    "word_of_nat (1 + length fs) \<noteq> (0 :: u32)" "\<not> k_max_function_count < word_of_nat (1 + length fs)"
    using assms(3,5) nf nd
    by (auto simp: word_less_nat_alt k_max_dependency_count_def k_max_function_count_def unat_eq_0
        simp del: of_nat_Suc of_nat_add dest: arg_cong [where f = unat])
  have w: "length ds * 12 \<le> length (concat (map (serialize_dependency []) ds)) + k" for k
    using dependencies_width [of ds] by linarith
  show ?thesis
    using w nd limits read_dependencies_rdr [OF assms(4)]
      deserialize_functions_rdr [OF assms(1-3), where rest = "[]"]
    by (simp add: deserialize_tables_def k_min_dependency_bytes_def del: of_nat_Suc of_nat_add)
qed

lemma deserialize_serialize:
  assumes "function_ok main" "list_all function_ok fs" "length fs < 100000"
    and "list_all dependency_ok ds" "length ds \<le> 10000"
  shows "deserialize (serialize main fs h ts ds) =
    deserialized \<lparr>hd_magic = k_bytecode_magic, hd_version = k_bytecode_format_version, hd_flags = 0,
        hd_source_hash = h, hd_timestamp = ts\<rparr> ds (reload_function main) (map reload_function fs)"
proof -
  have magic: "length k_bytecode_magic = 4" by (simp add: k_bytecode_magic_def bytes_of_string_def)
  then have "\<not> length (serialize main fs h ts ds) < sizeof_bytecode_header"
    by (simp add: serialize_eq sizeof_bytecode_header_def)
  with magic deserialize_tables_rdr [OF assms] show ?thesis
    unfolding deserialize_def new_reader_rdr
    by (simp add: serialize_eq read_header_def del: of_nat_Suc of_nat_add)
qed

end
