(* ===== verification/Serializer_Safe.thy ===== *)
theory Serializer_Safe
  imports Serializer_Round_Trip Verifier_Sound
begin

text \<open>
  What the deserializer guarantees for arbitrary bytes: the cursor stays inside the buffer, no exception
  escapes, the functions it returns respect the schema limits, and their verified bit is the verdict of
  the verifier.  The run is undefined exactly when the verifier's is on a function it has read.
\<close>

section \<open>The cursor stays inside the buffer\<close>

definition reader_inv :: "reader \<Rightarrow> bool" where
  "reader_inv r \<longleftrightarrow> rd_pos r \<le> length (rd_data r)"

text \<open>A computation keeps the cursor in range and never swaps the buffer.\<close>

definition keeps :: "(reader, 'a) state \<Rightarrow> bool" where
  "keeps m \<longleftrightarrow> (\<forall>r. reader_inv r \<longrightarrow>
     reader_inv (snd (run_state m r)) \<and> rd_data (snd (run_state m r)) = rd_data r \<and>
     rd_pos r \<le> rd_pos (snd (run_state m r)) \<and> (rd_error r \<longrightarrow> rd_error (snd (run_state m r))))"

named_theorems keeps_intros

lemma keeps_return [keeps_intros]: "keeps (ret x)"
  by (simp add: keeps_def)

lemma keeps_bind [keeps_intros]:
  assumes "keeps m" and "\<And>x. keeps (f x)"
  shows "keeps (State_Monad.bind m f)"
  unfolding keeps_def
proof (intro allI impI)
  fix r assume r: "reader_inv r"
  obtain x r1 where m: "run_state m r = (x, r1)" by fastforce
  obtain y r2 where f: "run_state (f x) r1 = (y, r2)" by fastforce
  from assms(1) r m have 1: "reader_inv r1" "rd_data r1 = rd_data r" "rd_pos r \<le> rd_pos r1"
    "rd_error r \<longrightarrow> rd_error r1"
    unfolding keeps_def by (metis snd_conv)+
  from assms(2) [of x] 1(1) f have 2: "reader_inv r2" "rd_data r2 = rd_data r1" "rd_pos r1 \<le> rd_pos r2"
    "rd_error r1 \<longrightarrow> rd_error r2"
    unfolding keeps_def by (metis snd_conv)+
  show "reader_inv (snd (run_state (State_Monad.bind m f) r)) \<and>
      rd_data (snd (run_state (State_Monad.bind m f) r)) = rd_data r \<and>
      rd_pos r \<le> rd_pos (snd (run_state (State_Monad.bind m f) r)) \<and>
      (rd_error r \<longrightarrow> rd_error (snd (run_state (State_Monad.bind m f) r)))"
    using 1 2 by (simp add: m f)
qed

lemma keeps_if [keeps_intros]: "keeps a \<Longrightarrow> keeps b \<Longrightarrow> keeps (if P then a else b)"
  by simp

lemma keeps_outcome [keeps_intros]:
  "(\<And>c. keeps (f c)) \<Longrightarrow> keeps a \<Longrightarrow> (\<And>e. keeps (t e)) \<Longrightarrow>
   keeps (case x of Done c \<Rightarrow> f c | Abort \<Rightarrow> a | Throw e \<Rightarrow> t e)"
  by (simp split: outcome.split)

lemma keeps_sum [keeps_intros]:
  "(\<And>a. keeps (f a)) \<Longrightarrow> (\<And>b. keeps (g b)) \<Longrightarrow> keeps (case x of Inl a \<Rightarrow> f a | Inr b \<Rightarrow> g b)"
  by (simp split: sum.split)

text \<open>Every primitive read either sets the error or moves the cursor by the bytes it checked for.\<close>

lemma keeps_advance: "keeps (State (\<lambda>r. if P r \<or> \<not> has_remaining r n then (f r, r\<lparr>rd_error := True\<rparr>)
    else (g r, r\<lparr>rd_pos := rd_pos r + n\<rparr>)))"
  by (simp add: keeps_def has_remaining_def reader_inv_def le_diff_conv2)

lemmas keeps_advance' = keeps_advance [of "\<lambda>_. False", simplified]

lemma keeps_observers [keeps_intros]: "keeps reader_error" "keeps (remaining k)"
  by (simp_all add: keeps_def reader_error_def remaining_def)

lemma keeps_read_int [keeps_intros]: "keeps read_int"
  unfolding read_int_def by (rule keeps_advance')

lemma keeps_read_bytes [keeps_intros]: "keeps (read_bytes dest n)"
  unfolding read_bytes_def by (rule keeps_advance')

lemma keeps_read_string [keeps_intros]: "keeps read_string"
  unfolding read_string_def by (intro keeps_bind keeps_read_int keeps_advance)

lemma keeps_elements [keeps_intros]:
  assumes "\<And>c. keeps (step c)"
  shows "keeps (read_elements n step c)"
  by (induction n arbitrary: c) (auto intro!: keeps_intros assms split: outcome.splits)

lemma keeps_read_n [keeps_intros]: "keeps m \<Longrightarrow> keeps (read_n n m acc)"
  by (induction n arbitrary: acc) (auto intro: keeps_intros)

lemma keeps_bounded_array [keeps_intros]:
  "(\<And>k. keeps (limit k)) \<Longrightarrow> (\<And>c. keeps (step c)) \<Longrightarrow> keeps (read_bounded_array limit step c)"
  unfolding read_bounded_array_def by (intro keeps_intros)

lemma keeps_value [keeps_intros]: "keeps deserialize_value"
  unfolding deserialize_value_def by (intro keeps_intros)

lemma keeps_chunk_elements [keeps_intros]:
  "keeps (read_constant_element p)" "keeps (read_location_element sm)" "keeps (read_name_element t)"
  "keeps (within_constant_limit k16)" "keeps (within_location_limit k32)" "keeps (within_name_limit k16)"
  unfolding read_constant_element_def read_location_element_def read_name_element_def
    within_constant_limit_def within_location_limit_def within_name_limit_def
  by (intro keeps_intros)+

lemma keeps_chunk [keeps_intros]: "keeps (deserialize_chunk c)"
  unfolding deserialize_chunk_def by (intro keeps_intros)

lemma keeps_function [keeps_intros]: "keeps deserialize_function"
  unfolding deserialize_function_def deserialize_function_body_def read_function_scalars_def
    read_upvalue_def read_mutable_flag_def
  by (intro keeps_intros)

lemma keeps_dependencies [keeps_intros]: "keeps (read_dependencies n i acc)"
  by (induction n arbitrary: i acc) (auto intro!: keeps_intros)

lemma keeps_functions [keeps_intros]: "keeps (read_functions n i acc)"
  by (induction n arbitrary: i acc) (auto intro!: keeps_intros split: outcome.splits)

section \<open>No exception escapes\<close>

text \<open>
  A loop that adds at most one entry per element cannot overfill a container that starts with room for
  all of them.
\<close>

locale bounded_elements =
  fixes step :: "'c \<Rightarrow> (reader, 'c outcome) state" and entries :: "'c \<Rightarrow> nat" and capacity :: nat
  assumes no_throw: "entries c < capacity \<Longrightarrow> fst (run_state (step c) r) \<noteq> Throw e"
    and grows: "fst (run_state (step c) r) = Done c' \<Longrightarrow> entries c' \<le> Suc (entries c)"
begin

lemma elements_no_throw:
  "entries c + n \<le> capacity \<Longrightarrow> fst (run_state (read_elements n step c) r) \<noteq> Throw e"
proof (induction n arbitrary: c r)
  case (Suc n)
  obtain x r' where x: "run_state (step c) r = (x, r')" by fastforce
  show ?case
  proof (cases x)
    case (Done c')
    with x grows [of c r c'] have "entries c' + n \<le> capacity" using Suc.prems by simp
    with Suc.IH Done x show ?thesis by simp
  qed (use x no_throw [of c r] Suc.prems in auto)
qed simp

lemma array_no_throw:
  assumes "entries c + 2 ^ LENGTH('w) \<le> Suc capacity"
  shows "fst (run_state (read_bounded_array (limit :: 'w::len word \<Rightarrow> _) step c) r) \<noteq> Throw e"
proof -
  have "entries c + unat k \<le> capacity" for k :: "'w word"
    using unsigned_less [of k, where ?'a = nat] assms(1) by linarith
  then show ?thesis
    by (simp add: read_bounded_array_def elements_no_throw split: prod.split)
qed

end

interpretation pool_loop: bounded_elements read_constant_element "\<lambda>p. length (cp_values p)" k_max_constants
proof unfold_locales
  show "length (cp_values c) < k_max_constants \<Longrightarrow> fst (run_state (read_constant_element c) r) \<noteq> Throw e" for c r e
    by (auto simp: read_constant_element_def cp_push_back_def cp_is_full_def split: prod.splits option.splits)
  show "fst (run_state (read_constant_element c) r) = Done c' \<Longrightarrow> length (cp_values c') \<le> Suc (length (cp_values c))"
    for c r c'
    by (auto simp: read_constant_element_def cp_push_back_def split: prod.splits option.splits if_splits)
qed

lemma nt_add_cases:
  assumes "length (nt_names t) < k_max_names"
  obtains t' i where "nt_add t name = Inr (t', i)"
  using assms by (cases "nt_index t name") (auto simp: nt_add_def nt_try_add_def Let_def)

lemma nt_add_length: "nt_add t name = Inr (t', i) \<Longrightarrow> length (nt_names t') \<le> Suc (length (nt_names t))"
  by (auto simp: nt_add_def nt_try_add_def Let_def split: option.splits if_splits)

interpretation name_loop: bounded_elements read_name_element "\<lambda>t. length (nt_names t)" k_max_names
proof unfold_locales
  fix c :: name_table and r e assume room: "length (nt_names c) < k_max_names"
  obtain name r1 where "run_state read_string r = (name, r1)" by fastforce
  moreover obtain t i where "nt_add c name = Inr (t, i)" using nt_add_cases [OF room] .
  ultimately show "fst (run_state (read_name_element c) r) \<noteq> Throw e"
    by (simp add: read_name_element_def split: prod.splits)
next
  show "fst (run_state (read_name_element c) r) = Done c' \<Longrightarrow> length (nt_names c') \<le> Suc (length (nt_names c))"
    for c r c'
    by (auto simp: read_name_element_def dest: nt_add_length split: prod.splits sum.splits if_splits)
qed

lemma read_location_no_throw: "fst (run_state (read_location_element sm) r) \<noteq> Throw e"
  by (simp add: read_location_element_def split: prod.split)

lemma locations_no_throw:
  "fst (run_state (read_bounded_array within_location_limit read_location_element sm) r) \<noteq> Throw e"
proof -
  have "fst (run_state (read_elements n read_location_element sm) r) \<noteq> Throw e" for n sm r
  proof (induction n arbitrary: sm r)
    case (Suc n)
    then show ?case
      using read_location_no_throw [of sm r e] by (auto split: prod.split outcome.split)
  qed simp
  then show ?thesis by (simp add: read_bounded_array_def split: prod.split)
qed

text \<open>Computations that never end in an exception, closed under the constructs of the reader.\<close>

definition quiet :: "(reader, 'a outcome) state \<Rightarrow> bool" where
  "quiet m \<longleftrightarrow> (\<forall>r e. fst (run_state m r) \<noteq> Throw e)"

lemma quiet_simple: "quiet (ret Abort)" "quiet (ret (Done x))"
  "quiet a \<Longrightarrow> quiet b \<Longrightarrow> quiet (if P then a else b)"
  "(\<And>x. quiet (f x)) \<Longrightarrow> quiet (State_Monad.bind m f)"
  by (auto simp: quiet_def split: prod.split)

lemma quiet_bind_outcome:
  assumes "quiet m" and "\<And>c. quiet (f (Done c))" and "quiet (f Abort)"
  shows "quiet (State_Monad.bind m f)"
  unfolding quiet_def
proof (intro allI)
  fix r e
  obtain x r' where "run_state m r = (x, r')" by fastforce
  with assms show "fst (run_state (State_Monad.bind m f) r) \<noteq> Throw e"
    by (cases x) (auto simp: quiet_def dest: spec [where x = r])
qed

lemma quiet_arrays:
  "quiet (read_bounded_array within_constant_limit read_constant_element empty_constant_pool)"
  "quiet (read_bounded_array within_location_limit read_location_element sm)"
  "quiet (read_bounded_array within_name_limit read_name_element empty_name_table)"
  using pool_loop.array_no_throw [where c = empty_constant_pool and limit = within_constant_limit]
    name_loop.array_no_throw [where c = empty_name_table and limit = within_name_limit] locations_no_throw
  by (simp_all add: quiet_def empty_constant_pool_def empty_name_table_def k_max_constants_def k_max_names_def)

lemma quiet_chunk: "quiet (deserialize_chunk empty_chunk)"
  unfolding deserialize_chunk_def empty_chunk_def chunk.select_convs
  by (rule quiet_simple quiet_bind_outcome [OF quiet_arrays(1)] quiet_bind_outcome [OF quiet_arrays(2)]
      quiet_bind_outcome [OF quiet_arrays(3)] | simp only: outcome.case)+

lemma quiet_function: "quiet deserialize_function"
  unfolding deserialize_function_def deserialize_function_body_def
  by (rule quiet_bind_outcome [OF quiet_chunk] quiet_simple | simp only: outcome.case)+

lemma read_functions_not_raised: "fst (run_state (read_functions n i acc) r) \<noteq> Inl (j, Some e)"
proof (induction n arbitrary: i acc r)
  case (Suc n)
  obtain x r' where x: "run_state deserialize_function r = (x, r')" by fastforce
  then have "x \<noteq> Throw e'" for e' using quiet_function by (auto simp: quiet_def dest: spec [where x = r])
  with Suc x show ?case by (cases x) simp_all
qed simp

section \<open>Schema limits\<close>

lemma read_n_length: "run_state (read_n n m acc) r = (xs, r') \<Longrightarrow> length xs = length acc + n"
  by (induction n arbitrary: acc r) (auto split: prod.splits)

lemma read_bytes_length:
  "length dest = n \<Longrightarrow> run_state (read_bytes dest n) r = (bs, r') \<Longrightarrow> length bs = n"
  by (auto simp: read_bytes_def has_remaining_def split: if_splits)

text \<open>A property of containers that every element read keeps holds after the loop.\<close>

lemma read_elements_keep:
  assumes "\<And>c r c' r'. P c \<Longrightarrow> run_state (step c) r = (Done c', r') \<Longrightarrow> P c'"
  shows "run_state (read_elements n step c) r = (Done c', r') \<Longrightarrow> P c \<Longrightarrow> P c'"
proof (induction n arbitrary: c r)
  case (Suc n)
  obtain x r1 where x: "run_state (step c) r = (x, r1)" by fastforce
  with Suc.prems(1) obtain c1 where "x = Done c1" "run_state (read_elements n step c1) r1 = (Done c', r')"
    by (cases x) auto
  with Suc.IH assms [OF Suc.prems(2)] x show ?case by blast
qed auto

lemma read_bounded_array_keep:
  assumes "\<And>c r c' r'. P c \<Longrightarrow> run_state (step c) r = (Done c', r') \<Longrightarrow> P c'"
    and "run_state (read_bounded_array limit step c) r = (Done c', r')" and "P c"
  shows "P c'"
proof -
  from assms(2) obtain n r1 where "run_state (read_elements n step c) r1 = (Done c', r')"
    by (auto simp: read_bounded_array_def split: prod.splits if_splits)
  from read_elements_keep [of P step, OF _ this assms(3)] assms(1) show ?thesis by blast
qed

definition chunk_limits :: "chunk \<Rightarrow> bool" where
  "chunk_limits c \<longleftrightarrow>
     length (ch_code c) \<le> 10000000 \<and> cp_inv (ch_constants c) \<and> nt_inv (ch_names c)"

lemma read_constant_element_inv:
  assumes "cp_inv p" and "run_state (read_constant_element p) r = (Done p', r')"
  shows "cp_inv p'"
proof -
  from assms(2) obtain v where v: "\<not> cp_is_full p" "p' = p\<lparr>cp_values := cp_values p @ [v]\<rparr>"
    by (auto simp: read_constant_element_def cp_push_back_def split: prod.splits option.splits if_splits)
  with assms(1) cp_resolve_snoc [of p] show ?thesis
    by (auto simp: cp_inv_def cp_is_full_def)
qed

lemma read_name_element_inv:
  assumes "nt_inv t" and "run_state (read_name_element t) r = (Done t', r')"
  shows "nt_inv t'"
proof -
  from assms(2) obtain name i where "nt_add t name = Inr (t', i)"
    by (auto simp: read_name_element_def split: prod.splits sum.splits if_splits)
  then have "fst (nt_try_add t name) = t'" by (auto simp: nt_add_def split: prod.splits option.splits)
  with nt_try_add_inv [OF assms(1), of name] show ?thesis by simp
qed

lemma section_results:
  "run_state (read_bounded_array within_constant_limit read_constant_element empty_constant_pool) r = (Done p, r') \<Longrightarrow>
     cp_inv p"
  "run_state (read_bounded_array within_name_limit read_name_element empty_name_table) r = (Done t, r') \<Longrightarrow>
     nt_inv t"
  "run_state (read_bytes (replicate n 0) n) r = (bs, r') \<Longrightarrow> length bs = n"
  using read_bounded_array_keep [of cp_inv read_constant_element within_constant_limit, OF read_constant_element_inv]
    read_bounded_array_keep [of nt_inv read_name_element within_name_limit, OF read_name_element_inv]
    read_bytes_length [of "replicate n 0" n] by auto

lemma deserialize_chunk_limits:
  assumes "run_state (deserialize_chunk empty_chunk) r = (Done c, r')"
  shows "chunk_limits c"
  using assms
  by (auto simp: deserialize_chunk_def empty_chunk_def chunk_limits_def k_max_code_section_bytes_def
      word_less_nat_alt dest!: section_results split: prod.splits if_splits outcome.splits)

definition function_limits :: "compiled_function \<Rightarrow> bool" where
  "function_limits f \<longleftrightarrow>
     0 \<le> cf_arity f \<and> cf_arity f \<le> 255 \<and> 0 \<le> cf_required_arity f \<and> cf_required_arity f \<le> 255 \<and>
     int (length (cf_param_names f)) \<le> cf_arity f \<and>
     cf_upvalue_count f = int (length (cf_upvalues f)) \<and> length (cf_upvalues f) \<le> 255 \<and>
     chunk_limits (cf_chunk f)"

lemma deserialize_function_body_limits:
  assumes "run_state (deserialize_function_body func) r = (Done f, r')"
    and "0 \<le> cf_arity func" "0 \<le> cf_required_arity func" "function_limits_ok func"
  shows "function_limits f"
  using assms
  by (auto simp: deserialize_function_body_def function_limits_def function_limits_ok_def
      build_param_name_index_def k_max_arguments_def k_max_upvalues_def
      dest!: read_n_length deserialize_chunk_limits split: prod.splits if_splits outcome.splits)

lemma deserialize_function_limits:
  assumes "run_state deserialize_function r = (Done f, r')"
  shows "function_limits f"
proof -
  from assms obtain func r1 r2 where "run_state read_function_scalars r = (func, r1)"
    "function_limits_ok func" "run_state (deserialize_function_body func) r2 = (Done f, r')"
    by (auto simp: deserialize_function_def split: prod.splits if_splits)
  moreover from this(1) have "0 \<le> cf_arity func" "0 \<le> cf_required_arity func"
    by (auto simp: read_function_scalars_def set_is_verified_def split: prod.splits)
  ultimately show ?thesis by (blast intro: deserialize_function_body_limits)
qed

text \<open>The functions that come out of a buffer: read there, by a cursor inside it.\<close>

definition read_from :: "byte list \<Rightarrow> compiled_function \<Rightarrow> bool" where
  "read_from data f \<longleftrightarrow>
     (\<exists>r r'. reader_inv r \<and> rd_data r = data \<and> run_state deserialize_function r = (Done f, r'))"

lemma keepsD:
  "keeps m \<Longrightarrow> run_state m r = (x, r') \<Longrightarrow> reader_inv r \<and> rd_data r = data \<Longrightarrow>
   reader_inv r' \<and> rd_data r' = data"
  unfolding keeps_def by (metis snd_conv)

lemma read_from_limits: "read_from data f \<Longrightarrow> function_limits f"
  by (auto simp: read_from_def dest: deserialize_function_limits)

lemma read_functions_from:
  "run_state (read_functions n i acc) r = (Inr fs, r') \<Longrightarrow> reader_inv r \<and> rd_data r = data \<Longrightarrow>
   list_all (read_from data) acc \<Longrightarrow> list_all (read_from data) fs \<and> length fs = length acc + n"
proof (induction n arbitrary: i acc r)
  case (Suc n)
  then obtain f r1 where f: "run_state deserialize_function r = (Done f, r1)"
    "run_state (read_functions n (Suc i) (acc @ [f])) r1 = (Inr fs, r')"
    by (auto split: prod.splits outcome.splits)
  then have "read_from data f" using Suc.prems(2) by (auto simp: read_from_def)
  with Suc.IH [OF f(2) keepsD [OF keeps_function f(1) Suc.prems(2)]] Suc.prems(3) show ?case by simp
qed simp

section \<open>Verification of reloaded functions\<close>

text \<open>The verifier looks at the code, the sizes of the two tables, the arity and the upvalue count only.\<close>

definition same_for_verifier :: "compiled_function \<Rightarrow> compiled_function \<Rightarrow> bool" where
  "same_for_verifier f g \<longleftrightarrow>
     ch_code (cf_chunk f) = ch_code (cf_chunk g) \<and>
     cp_size (ch_constants (cf_chunk f)) = cp_size (ch_constants (cf_chunk g)) \<and>
     length (nt_names (ch_names (cf_chunk f))) = length (nt_names (ch_names (cf_chunk g))) \<and>
     cf_arity f = cf_arity g \<and> cf_upvalue_count f = cf_upvalue_count g"

lemma check_operand_bounds_same:
  "same_for_verifier f g \<Longrightarrow>
   check_operand_bounds (cf_chunk f) op offset n code es = check_operand_bounds (cf_chunk g) op offset n code es"
  by (simp add: same_for_verifier_def check_operand_bounds_def check_constant_long_bounds_def
      check_constant_bounds_def check_name_bounds_def Let_def split: OperandCategory.split)

lemma verify_scan_same:
  "same_for_verifier f g \<Longrightarrow> verify_scan f offset bs js es = verify_scan g offset bs js es"
proof (induction f offset bs js es rule: verify_scan.induct)
  case (1 f offset bs js es)
  then have same: "ch_code (cf_chunk f) = ch_code (cf_chunk g)" "cf_upvalue_count f = cf_upvalue_count g"
    by (simp_all add: same_for_verifier_def)
  show ?case
    by (subst (1 2) verify_scan.simps)
      (use 1 same in \<open>simp add: Let_def check_operand_bounds_same [OF "1.prems"] split: prod.splits\<close>)
qed

lemma verify_same:
  assumes "same_for_verifier f g"
  shows "verify f = verify g"
  using assms verify_scan_same [OF assms]
  by (simp add: verify_def check_stack_depths_def same_for_verifier_def Let_def split: prod.splits)

lemma verify_reload [simp]: "verify (reload_function f) = verify f"
  by (rule verify_same)
    (simp add: same_for_verifier_def reload_function_def build_param_name_index_def reload_chunk_def cp_size_def)

lemma verify_set_is_verified [simp]: "verify (set_is_verified f b) = verify f"
  by (rule verify_same) (simp add: same_for_verifier_def set_is_verified_def)

section \<open>Results of deserialization\<close>

text \<open>A function with the bit the verifier derives for it.\<close>

definition with_verdict :: "compiled_function \<Rightarrow> compiled_function" where
  "with_verdict f = set_is_verified f (verify f = Some [])"

lemma those_derive_verified:
  "those (map derive_verified fs) =
     (if list_all (\<lambda>f. verify f \<noteq> None) fs then Some (map with_verdict fs) else None)"
  by (induction fs) (auto simp: derive_verified_def with_verdict_def split: option.split)

lemma deserialized_eq:
  "deserialized header ds t fs =
     (if list_all (\<lambda>f. verify f \<noteq> None) (t # fs)
      then Deserialized \<lparr>db_header = header, db_dependencies = ds, db_top_level = with_verdict t,
             db_functions = map with_verdict fs\<rparr>
      else Undefined_Behaviour)"
  by (auto simp: deserialized_def those_derive_verified derive_verified_def with_verdict_def split: option.split)

lemma deserialize_functions_result:
  assumes "run_state (deserialize_functions header ds n) r = (x, r')"
    and "reader_inv r \<and> rd_data r = data"
  shows "(\<exists>e detail. x = Rejected e detail) \<or>
         (\<exists>t fs. x = deserialized header ds t fs \<and> read_from data t \<and> list_all (read_from data) fs \<and>
            length fs = unat n - 1)"
proof -
  obtain top r1 where top: "run_state deserialize_function r = (top, r1)" by fastforce
  note at1 = keepsD [OF keeps_function top assms(2)]
  have "top \<noteq> Throw e" for e using quiet_function top by (auto simp: quiet_def dest: spec [where x = r])
  then consider "top = Abort" | t where "top = Done t" by (cases top) auto
  then show ?thesis
  proof cases
    case 1
    with assms(1) top show ?thesis by (auto simp: deserialize_functions_def)
  next
    case (2 t)
    then have t: "read_from data t" using top assms(2) by (auto simp: read_from_def)
    obtain fs r2 where fs: "run_state (read_functions (unat n - 1) 1 []) r1 = (fs, r2)" by fastforce
    have "fs \<noteq> Inl (i, Some e)" for i e
      using read_functions_not_raised [of "unat n - 1" 1 "[]" r1] fs by (metis fst_conv)
    moreover have "list_all (read_from data) gs \<and> length gs = unat n - 1" if "fs = Inr gs" for gs
      using read_functions_from [of _ _ _ r1 gs r2, OF _ at1] fs that by simp
    ultimately show ?thesis
      using assms(1) top 2 t fs
      by (auto simp: deserialize_functions_def reader_error_def remaining_def
          split: if_splits sum.splits option.splits)
  qed
qed

lemma deserialize_tables_result:
  assumes "run_state (deserialize_tables header) r = (x, r')" and at0: "reader_inv r \<and> rd_data r = data"
  shows "(\<exists>e detail. x = Rejected e detail) \<or>
         (\<exists>ds t fs. x = deserialized header ds t fs \<and> read_from data t \<and> list_all (read_from data) fs \<and>
            length fs < 100000)"
proof -
  obtain k :: u32 and r1 where k: "run_state read_u32 r = (k, r1)" by fastforce
  obtain table r2 where table: "run_state (read_dependencies (unat k) 0 []) r1 = (table, r2)" by fastforce
  obtain n :: u32 and r3 where n: "run_state read_u32 r2 = (n, r3)" by fastforce
  note at3 = keepsD [OF keeps_read_int n keepsD [OF keeps_dependencies table keepsD [OF keeps_read_int k at0]]]
  have "(\<exists>e detail. x = Rejected e detail) \<or>
      (\<exists>ds. run_state (deserialize_functions header ds n) r3 = (x, r') \<and> \<not> k_max_function_count < n \<and> n \<noteq> 0)"
    using assms(1) k table n
    by (auto simp: deserialize_tables_def reader_error_def remaining_def split: if_splits sum.splits)
  then consider e detail where "x = Rejected e detail"
    | ds where "run_state (deserialize_functions header ds n) r3 = (x, r')" "unat n \<le> 100000" "unat n \<noteq> 0"
    by (auto simp: k_max_function_count_def word_less_nat_alt unat_eq_0)
  then show ?thesis
  proof cases
    case (2 ds)
    with deserialize_functions_result [OF 2(1) at3] show ?thesis by fastforce
  qed simp
qed

lemma keeps_read_header: "keeps read_header"
  unfolding read_header_def by (intro keeps_intros)

text \<open>Every run ends in a rejection or in functions read from the buffer.\<close>

lemma deserialize_cases:
  obtains (rejected) e detail where "deserialize data = Rejected e detail"
  | (read) header ds t fs where "deserialize data = deserialized header ds t fs"
      "read_from data t" "list_all (read_from data) fs" "length fs < 100000"
      "hd_magic header = k_bytecode_magic" "hd_version header = k_bytecode_format_version"
proof -
  obtain header r1 where header: "run_state read_header (new_reader data) = (header, r1)" by fastforce
  have at0: "reader_inv (new_reader data) \<and> rd_data (new_reader data) = data"
    by (simp add: reader_inv_def new_reader_def)
  note at1 = keepsD [OF keeps_read_header header at0]
  have "(\<exists>e detail. deserialize data = Rejected e detail) \<or>
      (deserialize data = fst (run_state (deserialize_tables header) r1) \<and>
       hd_magic header = k_bytecode_magic \<and> hd_version header = k_bytecode_format_version)"
    using header by (simp add: deserialize_def reader_error_def)
  then consider e detail where "deserialize data = Rejected e detail"
    | x r' where "run_state (deserialize_tables header) r1 = (x, r')" "deserialize data = x"
        "hd_magic header = k_bytecode_magic" "hd_version header = k_bytecode_format_version"
    by (metis prod.collapse)
  then show thesis
  proof cases
    case (2 x r')
    with deserialize_tables_result [OF 2(1) at1] rejected read show ?thesis by blast
  qed (rule rejected)
qed

lemma deserialize_result:
  assumes "deserialize data = Deserialized b"
  obtains t fs where "db_top_level b = with_verdict t" "db_functions b = map with_verdict fs"
    "read_from data t" "list_all (read_from data) fs" "list_all (\<lambda>f. verify f \<noteq> None) (t # fs)"
    "length fs < 100000"
    "hd_magic (db_header b) = k_bytecode_magic" "hd_version (db_header b) = k_bytecode_format_version"
proof (cases rule: deserialize_cases [of data])
  case (read header ds t fs)
  with assms that show ?thesis by (auto simp: deserialized_eq split: if_splits)
qed (use assms in simp)

section \<open>A sample file\<close>

definition sample_main :: compiled_function where
  "sample_main = empty_function\<lparr>cf_name := ''main'', cf_is_main := True,
     cf_chunk := empty_chunk\<lparr>ch_code := [Op_None, Op_Return]\<rparr>\<rparr>"

definition sample_bytecode :: deserialized_bytecode where
  "sample_bytecode = \<lparr>db_header = \<lparr>hd_magic = k_bytecode_magic, hd_version = k_bytecode_format_version,
       hd_flags = 0, hd_source_hash = 7, hd_timestamp = 9\<rparr>,
     db_dependencies = [], db_top_level = set_is_verified (reload_function sample_main) True,
     db_functions = []\<rparr>"

lemma sample_main_ok: "function_ok sample_main"
  by (simp add: function_ok_def sample_main_def empty_function_def string_ok_def chunk_ok_def empty_chunk_def
      empty_constant_pool_def cp_size_def k_max_arguments_def k_max_upvalues_def)
    (simp add: empty_name_table_def)

lemma sample_main_verify: "verify sample_main = Some []"
  by code_simp

lemma sample_deserialize: "deserialize (serialize sample_main [] 7 9 []) = Deserialized sample_bytecode"
  using deserialize_serialize [OF sample_main_ok, of "[]" "[]" 7 9]
  by (simp add: sample_bytecode_def deserialized_eq with_verdict_def sample_main_verify)

text \<open>A file whose only function is a backward jump of length 0.\<close>

definition loop_main :: compiled_function where
  "loop_main = empty_function\<lparr>cf_chunk := empty_chunk\<lparr>ch_code := [Op_Loop, 0, 0, 0, 0]\<rparr>\<rparr>"

lemma loop_main_ok: "function_ok loop_main"
  by (simp add: function_ok_def loop_main_def empty_function_def string_ok_def chunk_ok_def empty_chunk_def
      empty_constant_pool_def cp_size_def k_max_arguments_def k_max_upvalues_def)
    (simp add: empty_name_table_def)

lemma loop_main_verify: "verify loop_main = None"
  by code_simp

section \<open>The guarantees\<close>

text \<open>C6: Reading back a serialized program yields the same program: header, dependencies and every
  function with its name, arities, flags, debug information, upvalues, code, constants, source map and
  names; only the deduplication maps of the pool are not kept, the parameter index is rebuilt, and the
  verified bit is what the verifier says of the function.  Where the verifier has no defined result for one
  of the functions, neither has the reader.\<close>

theorem lumc_round_trip:
  assumes "function_ok main" and "list_all function_ok fs" and "length fs < 100000"
    and "list_all dependency_ok ds" and "length ds \<le> 10000"
  shows "deserialize (serialize main fs h ts ds) =
    (if list_all (\<lambda>f. verify f \<noteq> None) (main # fs)
     then Deserialized \<lparr>db_header = \<lparr>hd_magic = k_bytecode_magic, hd_version = k_bytecode_format_version,
                          hd_flags = 0, hd_source_hash = h, hd_timestamp = ts\<rparr>,
            db_dependencies = ds,
            db_top_level = set_is_verified (reload_function main) (verify main = Some []),
            db_functions = map (\<lambda>f. set_is_verified (reload_function f) (verify f = Some [])) fs\<rparr>
     else Undefined_Behaviour)"
  using deserialize_serialize [OF assms]
  by (simp add: deserialized_eq with_verdict_def list.pred_map comp_def)

theorem lumc_round_trip_witness:
  "function_ok sample_main \<and>
   deserialize (serialize sample_main [sample_main] 7 9 []) =
    Deserialized \<lparr>db_header = \<lparr>hd_magic = k_bytecode_magic, hd_version = k_bytecode_format_version,
                    hd_flags = 0, hd_source_hash = 7, hd_timestamp = 9\<rparr>,
                  db_dependencies = [],
                  db_top_level = set_is_verified (reload_function sample_main) True,
                  db_functions = [set_is_verified (reload_function sample_main) True]\<rparr>"
  using lumc_round_trip [OF sample_main_ok, of "[sample_main]" "[]" 7 9] sample_main_ok sample_main_verify
  by simp

text \<open>C30: Whatever the bytes, no exception leaves the deserializer: the counts are bounded so that neither
  the constant pool nor the name table can overflow and throw.  It ends in a program or a typed rejection,
  except that its behaviour is undefined when one of the functions it has read from the buffer reaches a
  backward jump of length 0 at the end of its code, on which the verifier reads past its vector.\<close>

theorem deserialize_never_raises:
  "deserialize data \<noteq> Raised e \<and>
   (deserialize data = Undefined_Behaviour \<longrightarrow>
      (\<exists>f. read_from data f \<and>
         (\<exists>s d. reachable f s d \<and> loops_at_end (ch_code (cf_chunk f)) s)))"
proof (cases rule: deserialize_cases [of data])
  case (read header ds t fs)
  have "\<exists>f. read_from data f \<and> verify f = None" if "\<not> list_all (\<lambda>f. verify f \<noteq> None) (t # fs)"
    using that read(2,3) by (auto simp: list_all_iff)
  then have "\<exists>f. read_from data f \<and> (\<exists>s d. reachable f s d \<and> loops_at_end (ch_code (cf_chunk f)) s)"
    if "\<not> list_all (\<lambda>f. verify f \<noteq> None) (t # fs)"
    using that verify_undefined by blast
  then show ?thesis unfolding read(1) deserialized_eq by auto
qed simp

theorem deserialize_never_raises_witness:
  "deserialize (serialize loop_main [] 7 9 []) = Undefined_Behaviour \<and>
   (\<exists>f s d. reachable f s d \<and> loops_at_end (ch_code (cf_chunk f)) s)"
proof -
  have undefined: "deserialize (serialize loop_main [] 7 9 []) = Undefined_Behaviour"
    using deserialize_serialize [OF loop_main_ok, of "[]" "[]" 7 9] by (simp add: deserialized_eq loop_main_verify)
  with deserialize_never_raises [of "serialize loop_main [] 7 9 []"] show ?thesis by blast
qed

text \<open>C8: The verified bit of a deserialized function is the verdict of the verifier on that very
  function: the bit stored in the file is never trusted.\<close>

theorem deserialize_verified_bit:
  assumes "deserialize data = Deserialized b" and "f \<in> set (db_top_level b # db_functions b)"
  shows "(cf_verified f \<longleftrightarrow> verify f = Some []) \<and> verify f \<noteq> None"
proof -
  from assms obtain t where "f = with_verdict t" "verify t \<noteq> None"
    by (elim deserialize_result) (auto simp: list_all_iff)
  then show ?thesis by (simp add: with_verdict_def) (simp add: set_is_verified_def)
qed

theorem deserialize_verified_bit_witness:
  "deserialize (serialize sample_main [] 7 9 []) = Deserialized sample_bytecode \<and>
   (cf_verified (db_top_level sample_bytecode) \<longleftrightarrow> verify (db_top_level sample_bytecode) = Some [])"
  using deserialize_verified_bit [OF sample_deserialize] sample_deserialize by simp

text \<open>C31: What is deserialized respects the limits of the format.  Every function has arities between 0
  and 255, at most as many parameter names as the arity, an upvalue count equal to the number of upvalue
  descriptors and at most 255, at most 10,000,000 code bytes, at most 65535 constants, and a name table
  whose deduplication index agrees with its names; and a program has at most 100,000 functions, the limit
  of the format, which is above the compiler's own limit of 65,536.\<close>

theorem deserialize_respects_limits:
  assumes "deserialize data = Deserialized b" and "f \<in> set (db_top_level b # db_functions b)"
  shows "0 \<le> cf_arity f \<and> cf_arity f \<le> 255 \<and> 0 \<le> cf_required_arity f \<and> cf_required_arity f \<le> 255 \<and>
         int (length (cf_param_names f)) \<le> cf_arity f \<and>
         cf_upvalue_count f = int (length (cf_upvalues f)) \<and> length (cf_upvalues f) \<le> 255 \<and>
         length (ch_code (cf_chunk f)) \<le> 10000000 \<and> cp_size (ch_constants (cf_chunk f)) \<le> 65535 \<and>
         nt_inv (ch_names (cf_chunk f)) \<and>
         length (db_top_level b # db_functions b) \<le> 100000"
proof -
  from assms obtain t where "f = with_verdict t" "function_limits t" "length (db_functions b) < 100000"
    by (elim deserialize_result) (auto simp: list_all_iff dest: read_from_limits)
  then show ?thesis
    by (simp add: with_verdict_def set_is_verified_def function_limits_def chunk_limits_def cp_inv_def
        cp_size_def k_max_constants_def)
qed

theorem deserialize_respects_limits_witness:
  "deserialize (serialize sample_main [] 7 9 []) = Deserialized sample_bytecode \<and>
   cf_upvalue_count (db_top_level sample_bytecode) = int (length (cf_upvalues (db_top_level sample_bytecode)))"
  using deserialize_respects_limits [OF sample_deserialize, of "db_top_level sample_bytecode"] sample_deserialize
  by simp

text \<open>Reading a function keeps the cursor inside the buffer, never moves it back, never changes the
  buffer and never clears the error, so the overflow-safe form of \<^verbatim>\<open>has_remaining\<close> applies
  to every read.\<close>

theorem deserialize_function_cursor:
  assumes "rd_pos r \<le> length (rd_data r)" and "run_state deserialize_function r = (x, r')"
  shows "rd_pos r \<le> rd_pos r' \<and> rd_pos r' \<le> length (rd_data r') \<and> rd_data r' = rd_data r \<and>
         (rd_error r \<longrightarrow> rd_error r')"
  using keeps_function assms unfolding keeps_def reader_inv_def by (metis snd_conv)

theorem deserialize_function_cursor_witness:
  "let r = new_reader (serialize_function [] sample_main); r' = rdr (serialize_function [] sample_main) []
   in run_state deserialize_function r = (Done (reload_function sample_main), r') \<and>
      rd_pos r' \<le> length (rd_data r')"
proof -
  let ?r = "new_reader (serialize_function [] sample_main)" and ?r' = "rdr (serialize_function [] sample_main) []"
  have run: "run_state deserialize_function ?r = (Done (reload_function sample_main), ?r')"
    using deserialize_function_rdr [OF sample_main_ok, of "[]" "[]"] by (simp add: new_reader_rdr)
  have "rd_pos ?r \<le> length (rd_data ?r)" by (simp add: new_reader_def)
  from deserialize_function_cursor [OF this run] run show ?thesis unfolding Let_def by blast
qed

text \<open>A file with the right magic and another format version is rejected as such, whatever follows
  the header.\<close>

theorem deserialize_rejects_other_version:
  assumes "32 \<le> length data" and "take 4 data = k_bytecode_magic"
    and "read_u32_be (drop 4 data) \<noteq> k_bytecode_format_version"
  shows "\<exists>detail. deserialize data = Rejected DE_VersionMismatch detail"
proof -
  have "4 \<le> length data - 4" "4 \<le> length data - 8" "8 \<le> length data - 12" "8 \<le> length data - 20"
    using assms(1) by linarith+
  with assms show ?thesis
    by (simp add: deserialize_def sizeof_bytecode_header_def read_header_def read_bytes_def read_int_def
        has_remaining_def new_reader_def reader_error_def read_u32_be_eq)
qed

theorem deserialize_rejects_other_version_witness:
  "\<exists>detail. deserialize (k_bytecode_magic @ [0, 0, 0, 9] @ replicate 24 0) = Rejected DE_VersionMismatch detail"
proof -
  let ?data = "k_bytecode_magic @ [0, 0, 0, 9] @ replicate 24 0"
  have "read_u32_be (drop 4 ?data) \<noteq> k_bytecode_format_version" by code_simp
  moreover have "length ?data = 32" "take 4 ?data = k_bytecode_magic"
    by (simp_all add: k_bytecode_magic_def bytes_of_string_def)
  ultimately show ?thesis using deserialize_rejects_other_version [of ?data] by (metis order_refl)
qed

text \<open>Bytecode obtained from a file has at most 100,000,000 bytes and, when the caller gives a
  non-zero source hash, the recorded hash.\<close>

theorem read_file_checked:
  assumes "read_file path file expected = Deserialized b"
  shows "deserialize (in_bytes file) = Deserialized b \<and> 0 < in_size file \<and> in_size file \<le> 100000000 \<and>
         (expected \<noteq> 0 \<longrightarrow> hd_source_hash (db_header b) = expected)"
  using assms
  by (auto simp: read_file_def k_max_bytecode_file_size_def split: if_splits deserialize_result.splits)

theorem read_file_checked_witness:
  "let file = \<lparr>in_opened = True, in_size = 100, in_bytes = serialize sample_main [] 7 9 [], in_good = True\<rparr>
   in read_file ''a.lumc'' file 7 = Deserialized sample_bytecode \<and> in_size file \<le> 100000000"
proof -
  let ?file = "\<lparr>in_opened = True, in_size = 100, in_bytes = serialize sample_main [] 7 9 [], in_good = True\<rparr>"
  have "read_file ''a.lumc'' ?file 7 = Deserialized sample_bytecode"
    using sample_deserialize by (simp add: read_file_def k_max_bytecode_file_size_def sample_bytecode_def)
  from read_file_checked [OF this] this show ?thesis by simp
qed

end
