(* ===== verification/VM_Stack.thy ===== *)
theory VM_Stack
  imports Verifier
begin

text \<open>
  The value stack, call frames and operand readers of the virtual machine
  (\<^verbatim>\<open>core/runtime/vm/vm_stack.hpp\<close>, \<^verbatim>\<open>vm.cpp\<close>, \<^verbatim>\<open>vm_helpers.cpp\<close>).  The live slots
  from \<^verbatim>\<open>base\<close> to \<^verbatim>\<open>top\<close> are a list, bottom first; \<^verbatim>\<open>frames.back()\<close> is the
  last frame.  An instruction pointer is an offset into the code of its function.  Operations that throw
  yield the error together with the machine as it is when the exception leaves them.
\<close>

section \<open>State and errors\<close>

record call_frame =
  fr_function :: compiled_function
  fr_ip :: nat
  fr_slot_offset :: nat
  fr_closure :: "nat option"

text \<open>
  A function object: its code, the captured values, the shared cells of captured mutable variables and
  the function table its indices refer to.  Function objects and cells live in two heaps, addressed by
  the identity in \<^verbatim>\<open>VObject VT_Function\<close> and by cell number.
\<close>

record function_value =
  fv_name :: string
  fv_compiled :: "compiled_function option"
  fv_upvalues :: "val list"
  fv_cells :: "nat option list"
  fv_table :: "compiled_function list option"

record exception_handler =
  eh_catch_ip :: nat
  eh_frame_index :: nat
  eh_stack_depth :: nat
  eh_task_scope_depth :: nat

record cancel_shield =
  sh_frame_index :: nat
  sh_stack_depth :: nat

text \<open>Of the open task scopes only their number is kept.\<close>

record vm =
  stack :: "val list"
  frames :: "call_frame list"
  handlers :: "exception_handler list"
  shields :: "cancel_shield list"
  base_depth :: nat
  dispatch_return_value :: "val option"
  loop_iterations :: nat
  total_loop_iterations :: nat
  task_scopes :: nat
  objects :: "function_value list"
  cells :: "val list"

text \<open>A runtime error carries its message, location and hint, and the payload natives attach to it.\<close>

datatype vm_error = Runtime_Error string source_location string "val option" | Stack_Error string
  | Bytecode_Error string | Cancelled_Error string

text \<open>What a throwing operation leaves: the error and the machine at that point.\<close>

type_synonym vm_throw = "vm_error \<times> vm"

definition k_max :: nat where "k_max = 65536"

definition k_internal_error_message :: string where
  "k_internal_error_message = ''this is an internal error '' @ string_of_bytes [0xe2, 0x80, 0x94] @
     '' please report it''"

text \<open>Errors and values in sequence: the first error ends the operation.\<close>

definition and_then :: "'e + 'a \<Rightarrow> ('a \<Rightarrow> 'e + 'b) \<Rightarrow> 'e + 'b" where
  "and_then m f = (case m of Inl e \<Rightarrow> Inl e | Inr x \<Rightarrow> f x)"

lemma and_then_simps [simp]: "and_then (Inl e) f = Inl e" "and_then (Inr x) f = f x"
  by (simp_all add: and_then_def)

lemma and_then_Inr: "and_then m f = Inr y \<longleftrightarrow> (\<exists>x. m = Inr x \<and> f x = Inr y)"
  by (cases m) simp_all

definition current_location :: "vm \<Rightarrow> source_location" where
  "current_location vm =
     (if frames vm = [] then default_location
      else let frame = last (frames vm); offset = fr_ip frame
           in location_at (cf_chunk (fr_function frame)) (if 0 < offset then offset - 1 else 0))"

definition runtime_error :: "vm \<Rightarrow> string \<Rightarrow> string \<Rightarrow> vm_throw" where
  "runtime_error vm message hint = (Runtime_Error message (current_location vm) hint None, vm)"

section \<open>Messages\<close>

definition stack_overflow :: string where "stack_overflow = ''stack overflow''"
definition stack_underflow :: string where "stack_underflow = ''stack underflow''"

definition stack_overflow_detail :: "nat \<Rightarrow> nat \<Rightarrow> nat \<Rightarrow> string" where
  "stack_overflow_detail needed available max_slots =
     ''stack overflow: need '' @ show_nat needed @ '' slots but only '' @ show_nat available @ '' of '' @
     show_nat max_slots @ '' available''"

definition stack_underflow_on_peek :: "nat \<Rightarrow> nat \<Rightarrow> string" where
  "stack_underflow_on_peek distance sz =
     ''stack underflow on peek (distance '' @ show_nat distance @ '' with stack size '' @ show_nat sz @ '')''"

definition stack_underflow_depth :: "string \<Rightarrow> nat \<Rightarrow> nat \<Rightarrow> string" where
  "stack_underflow_depth context required actual =
     context @ '': stack underflow (expected '' @ show_nat required @ '' values, got '' @
     show_nat actual @ '')''"

definition constant_index_out_of_bounds :: "nat \<Rightarrow> nat \<Rightarrow> string" where
  "constant_index_out_of_bounds index sz =
     ''constant index '' @ show_nat index @ '' out of bounds (size '' @ show_nat sz @ '')''"

definition name_index_out_of_bounds :: "nat \<Rightarrow> nat \<Rightarrow> string" where
  "name_index_out_of_bounds index sz =
     ''name index '' @ show_nat index @ '' out of bounds (size '' @ show_nat sz @ '')''"

definition local_variable_out_of_bounds :: "u16 \<Rightarrow> nat \<Rightarrow> string" where
  "local_variable_out_of_bounds slot offset =
     ''local variable index out of bounds (slot '' @ show_nat (unat slot) @ '' at offset '' @
     show_nat offset @ '')''"

definition bytecode_truncated :: string where
  "bytecode_truncated = ''bytecode truncated: not enough bytes for operand''"

section \<open>Standalone stack\<close>

definition stack_size :: "val list \<Rightarrow> nat" where
  "stack_size st = length st"

text \<open>\<^verbatim>\<open>truncate_to\<close> destroys values above the new top, and fills with none below it.\<close>

definition truncate_to :: "val list \<Rightarrow> nat \<Rightarrow> val list" where
  "truncate_to st new_size = take new_size st @ replicate (new_size - length st) VNull"

definition stack_push :: "val list \<Rightarrow> val \<Rightarrow> vm_error + val list" where
  "stack_push st value = (if k_max \<le> length st then Inl (Stack_Error stack_overflow) else Inr (st @ [value]))"

definition stack_pop :: "val list \<Rightarrow> vm_error + val \<times> val list" where
  "stack_pop st = (if st = [] then Inl (Stack_Error stack_underflow) else Inr (last st, butlast st))"

definition stack_peek :: "val list \<Rightarrow> nat \<Rightarrow> vm_error + val" where
  "stack_peek st distance =
     (if stack_size st \<le> distance
      then Inl (Stack_Error (stack_underflow_on_peek distance (stack_size st)))
      else Inr (st ! (length st - 1 - distance)))"

definition stack_ensure_space :: "val list \<Rightarrow> nat \<Rightarrow> vm_error + unit" where
  "stack_ensure_space st needed =
     (let used = stack_size st
      in if k_max < used + needed
         then Inl (Stack_Error (stack_overflow_detail needed (k_max - used) k_max)) else Inr ())"

definition stack_ensure_depth :: "val list \<Rightarrow> nat \<Rightarrow> string \<Rightarrow> vm_error + unit" where
  "stack_ensure_depth st required context =
     (if stack_size st < required
      then Inl (Stack_Error (context @ '': stack underflow (expected '' @ show_nat required @
             '' values, got '' @ show_nat (stack_size st) @ '') '' @ string_of_bytes [0xe2, 0x80, 0x94] @
             '' '' @ k_internal_error_message))
      else Inr ())"

section \<open>Stack operations of the VM\<close>

definition push :: "vm \<Rightarrow> val \<Rightarrow> vm_throw + vm" where
  "push vm value =
     (if k_max \<le> length (stack vm) then Inl (runtime_error vm stack_overflow [])
      else Inr (vm\<lparr>stack := stack vm @ [value]\<rparr>))"

definition pop :: "vm \<Rightarrow> vm_throw + val \<times> vm" where
  "pop vm =
     (if stack vm = [] then Inl (runtime_error vm stack_underflow [])
      else Inr (last (stack vm), vm\<lparr>stack := butlast (stack vm)\<rparr>))"

definition peek :: "vm \<Rightarrow> nat \<Rightarrow> vm_throw + val" where
  "peek vm distance =
     (if length (stack vm) \<le> distance
      then Inl (runtime_error vm (stack_underflow_on_peek distance (length (stack vm))) [])
      else Inr (stack vm ! (length (stack vm) - 1 - distance)))"

definition validate_stack_space :: "vm \<Rightarrow> nat \<Rightarrow> vm_throw + unit" where
  "validate_stack_space vm needed =
     (let used = length (stack vm)
      in if k_max < used + needed
         then Inl (runtime_error vm (stack_overflow_detail needed (k_max - used) k_max) []) else Inr ())"

definition validate_stack_depth :: "vm \<Rightarrow> nat \<Rightarrow> string \<Rightarrow> vm_throw + unit" where
  "validate_stack_depth vm required context =
     (if length (stack vm) < required
      then Inl (runtime_error vm (stack_underflow_depth context required (length (stack vm)))
             k_internal_error_message)
      else Inr ())"

text \<open>
  \<^verbatim>\<open>pop_binary_ref\<close>: the left operand (still on the stack, as the last element of the
  returned state), the right operand, and the state.
\<close>

definition pop_binary_ref :: "vm \<Rightarrow> vm_throw + val \<times> val \<times> vm" where
  "pop_binary_ref vm =
     and_then (pop vm) (\<lambda>(b, vm).
       if stack vm = [] then Inl (runtime_error vm stack_underflow [])
       else Inr (last (stack vm), b, vm))"

text \<open>Assignment through the reference to the top slot.\<close>

definition set_top :: "vm \<Rightarrow> val \<Rightarrow> vm" where
  "set_top vm v = vm\<lparr>stack := butlast (stack vm) @ [v]\<rparr>"

section \<open>Operand readers\<close>

definition set_ip :: "vm \<Rightarrow> nat \<Rightarrow> vm" where
  "set_ip vm ip = vm\<lparr>frames := butlast (frames vm) @ [(last (frames vm))\<lparr>fr_ip := ip\<rparr>]\<rparr>"

definition ensure_bytecode_available :: "vm \<Rightarrow> call_frame \<Rightarrow> nat \<Rightarrow> vm_throw + unit" where
  "ensure_bytecode_available vm frame count =
     (if length (ch_code (cf_chunk (fr_function frame))) < fr_ip frame + count
      then Inl (runtime_error vm bytecode_truncated []) else Inr ())"

definition read_byte :: "vm \<Rightarrow> vm_throw + byte \<times> vm" where
  "read_byte vm =
     (let frame = last (frames vm); code = ch_code (cf_chunk (fr_function frame))
      in and_then (if \<not> cf_verified (fr_function frame) then ensure_bytecode_available vm frame 1 else Inr ())
           (\<lambda>_. Inr (code ! fr_ip frame, set_ip vm (fr_ip frame + 1))))"

definition vm_read_u16 :: "vm \<Rightarrow> vm_throw + u16 \<times> vm" where
  "vm_read_u16 vm =
     (let frame = last (frames vm); code = ch_code (cf_chunk (fr_function frame)); ip = fr_ip frame
      in and_then (if \<not> cf_verified (fr_function frame) then ensure_bytecode_available vm frame 2 else Inr ())
           (\<lambda>_. let hi = push_bit 8 (ucast (code ! ip) :: u16); lo = ucast (code ! (ip + 1))
                in Inr (or hi lo, set_ip vm (ip + 2))))"

definition vm_read_u32 :: "vm \<Rightarrow> vm_throw + u32 \<times> vm" where
  "vm_read_u32 vm =
     (let frame = last (frames vm); code = ch_code (cf_chunk (fr_function frame)); ip = fr_ip frame
      in and_then (if \<not> cf_verified (fr_function frame) then ensure_bytecode_available vm frame 4 else Inr ())
           (\<lambda>_. let b0 = push_bit 24 (ucast (code ! ip) :: u32); b1 = push_bit 16 (ucast (code ! (ip + 1)));
                    b2 = push_bit 8 (ucast (code ! (ip + 2))); b3 = ucast (code ! (ip + 3))
                in Inr (or (or (or b0 b1) b2) b3, set_ip vm (ip + 4))))"

definition read_constant :: "vm \<Rightarrow> vm_throw + val \<times> vm" where
  "read_constant vm =
     and_then (vm_read_u16 vm) (\<lambda>(index, vm).
       let constants = ch_constants (cf_chunk (fr_function (last (frames vm))))
       in if cp_size constants \<le> unat index
          then Inl (runtime_error vm (constant_index_out_of_bounds (unat index) (cp_size constants)) [])
          else Inr (cp_values constants ! unat index, vm))"

definition checked_name :: "vm \<Rightarrow> u16 \<Rightarrow> vm_throw + string" where
  "checked_name vm index =
     (let names = nt_names (ch_names (cf_chunk (fr_function (last (frames vm)))))
      in if length names \<le> unat index
         then Inl (runtime_error vm (name_index_out_of_bounds (unat index) (length names)) [])
         else Inr (names ! unat index))"

definition read_name :: "vm \<Rightarrow> vm_throw + string \<times> vm" where
  "read_name vm =
     and_then (vm_read_u16 vm) (\<lambda>(index, vm). and_then (checked_name vm index) (\<lambda>name. Inr (name, vm)))"

definition frame_slot_index :: "call_frame \<Rightarrow> nat \<Rightarrow> nat" where
  "frame_slot_index frame slot = fr_slot_offset frame + slot"

text \<open>\<^verbatim>\<open>get_local_slot\<close> returns a reference; here, the absolute index of the slot.\<close>

definition get_local_slot :: "vm \<Rightarrow> call_frame \<Rightarrow> u16 \<Rightarrow> vm_throw + nat" where
  "get_local_slot vm cf slot =
     (let index = frame_slot_index cf (unat slot)
      in if length (stack vm) \<le> index
         then Inl (runtime_error vm (local_variable_out_of_bounds slot (fr_slot_offset cf))
                k_internal_error_message)
         else Inr index)"

end
