(* ===== verification/Overflow.thy ===== *)
theory Overflow
  imports Luma_Prelude "HOL-Library.Signed_Division"
begin

text \<open>
  The overflow predicates of \<^verbatim>\<open>core/common/overflow.hpp\<close> at
  \<^verbatim>\<open>T = std::int64_t\<close>, over the mathematical values of the operands.  C++ division truncates
  toward zero; it is \<^verbatim>\<open>sdiv\<close> of the library.  Each predicate is shown to hold exactly when
  the mathematical result leaves the range, so the guarded operation on 64-bit words is exact.
\<close>

section \<open>The predicates\<close>

definition int64_max :: int where "int64_max = 9223372036854775807"
definition int64_min :: int where "int64_min = -9223372036854775808"

definition would_overflow_add :: "int \<Rightarrow> int \<Rightarrow> bool" where
  "would_overflow_add a b \<longleftrightarrow> (b > 0 \<and> a > int64_max - b) \<or> (b < 0 \<and> a < int64_min - b)"

definition would_overflow_sub :: "int \<Rightarrow> int \<Rightarrow> bool" where
  "would_overflow_sub a b \<longleftrightarrow> (b < 0 \<and> a > int64_max + b) \<or> (b > 0 \<and> a < int64_min + b)"

definition would_overflow_mul :: "int \<Rightarrow> int \<Rightarrow> bool" where
  "would_overflow_mul a b \<longleftrightarrow>
     (if a = 0 \<or> b = 0 then False
      else let same_sign = ((a > 0) = (b > 0))
           in if same_sign then (if a > 0 then a > int64_max sdiv b else a < int64_max sdiv b)
              else (if a > 0 then b < int64_min sdiv a else a < int64_min sdiv b))"

definition would_overflow_div :: "int \<Rightarrow> int \<Rightarrow> bool" where
  "would_overflow_div a b \<longleftrightarrow> a = int64_min \<and> b = -1"

section \<open>Exactness\<close>

definition int64 :: "int \<Rightarrow> bool" where
  "int64 i \<longleftrightarrow> int64_min \<le> i \<and> i \<le> int64_max"

lemmas int64_defs = int64_def int64_min_def int64_max_def

lemma int64_sint [simp]: "int64 (sint (w :: u64))"
  using sint_greater_eq [of w] sint_less [of w] by (simp add: int64_defs)

lemma sint_word_of_int [simp]: "int64 i \<Longrightarrow> sint (word_of_int i :: u64) = i"
  by (simp add: int64_defs signed_of_int signed_take_bit_int_eq_self)

lemma would_overflow_add_iff: "int64 a \<Longrightarrow> int64 b \<Longrightarrow> would_overflow_add a b \<longleftrightarrow> \<not> int64 (a + b)"
  by (auto simp: would_overflow_add_def int64_defs)

lemma would_overflow_sub_iff: "int64 a \<Longrightarrow> int64 b \<Longrightarrow> would_overflow_sub a b \<longleftrightarrow> \<not> int64 (a - b)"
  by (auto simp: would_overflow_sub_def int64_defs)

text \<open>Comparing an operand with a truncated quotient is comparing the product with the limit.\<close>

lemma sdiv_cases:
  fixes k l :: int
  shows "0 \<le> k \<Longrightarrow> 0 < l \<Longrightarrow> k sdiv l = k div l"
    and "0 \<le> k \<Longrightarrow> l < 0 \<Longrightarrow> k sdiv l = - (k div - l)"
    and "k \<le> 0 \<Longrightarrow> 0 < l \<Longrightarrow> k sdiv l = - (- k div l)"
    and "k \<le> 0 \<Longrightarrow> l < 0 \<Longrightarrow> k sdiv l = (- k) div (- l)"
  by (cases "k = 0"; simp add: signed_divide_int_def sgn_if)+

lemma less_div_iff:
  fixes m a c :: int
  assumes "0 < c"
  shows "m div c < a \<longleftrightarrow> m < a * c"
proof
  assume "m div c < a"
  then have "(m div c + 1) * c \<le> a * c" using assms by (intro mult_right_mono) auto
  moreover have "m < (m div c + 1) * c"
    using pos_mod_bound [OF assms, of m] div_mult_mod_eq [of m c] unfolding distrib_right by linarith
  ultimately show "m < a * c" by linarith
next
  assume "m < a * c"
  show "m div c < a"
  proof (rule ccontr)
    assume "\<not> m div c < a"
    then have "a * c \<le> (m div c) * c" using assms by (intro mult_right_mono) auto
    also have "\<dots> \<le> m" using pos_mod_sign [OF assms, of m] div_mult_mod_eq [of m c] by linarith
    finally show False using \<open>m < a * c\<close> by simp
  qed
qed

lemma would_overflow_mul_iff:
  assumes "int64 a" "int64 b"
  shows "would_overflow_mul a b \<longleftrightarrow> \<not> int64 (a * b)"
proof -
  consider "a = 0 \<or> b = 0" | "a > 0" "b > 0" | "a < 0" "b < 0" | "a > 0" "b < 0" | "a < 0" "b > 0"
    by linarith
  then show ?thesis
  proof cases
    case 2
    moreover have "int64_min < a * b"
      using mult_pos_pos [OF 2] unfolding int64_min_def by linarith
    ultimately show ?thesis
      using less_div_iff [of b int64_max a] by (auto simp: would_overflow_mul_def sdiv_cases int64_defs)
  next
    case 3
    moreover have "0 < a * b" using 3 by (simp add: mult_neg_neg)
    ultimately show ?thesis
      using less_div_iff [of "- b" int64_max "- a"] by (auto simp: would_overflow_mul_def sdiv_cases int64_defs)
  next
    case 4
    moreover have "a * b < 0" using 4 by (simp add: mult_pos_neg)
    ultimately show ?thesis
      using less_div_iff [of a "- int64_min" "- b"]
      by (auto simp: would_overflow_mul_def sdiv_cases int64_defs mult.commute)
  next
    case 5
    moreover have "a * b < 0" using 5 by (simp add: mult_neg_pos)
    ultimately show ?thesis
      using less_div_iff [of b "- int64_min" "- a"]
      by (auto simp: would_overflow_mul_def sdiv_cases int64_defs)
  qed (auto simp: would_overflow_mul_def int64_defs)
qed

lemma int64_div:
  assumes "int64 a" "b \<noteq> 0" "\<not> would_overflow_div a b"
  shows "int64 (a div b)"
proof -
  have pos: "int64 (n div c)" if "0 \<le> n" "n \<le> int64_max" "0 < c" for n c :: int
    using that zdiv_mono2 [of n 1 c] pos_imp_zdiv_nonneg_iff [of c n] by (auto simp: int64_defs)
  consider "0 \<le> a" "0 < b" | "a < 0" "0 < b" | "0 \<le> a" "b < 0" | "a < 0" "b = -1" | "a < 0" "b < -1"
    using assms(2) by linarith
  then show ?thesis
  proof cases
    case 1
    with pos [of a b] assms(1) show ?thesis by (simp add: int64_def)
  next
    case 2
    then have "a div 1 \<le> a div b" using zdiv_mono2_neg [of a 1 b] by simp
    moreover have "a div b < 0" using 2 by (simp add: pos_imp_zdiv_neg_iff)
    ultimately show ?thesis using assms(1) by (simp add: int64_defs)
  next
    case 3
    have "(- a) div 1 \<le> (- a) div (- b)"
      using 3 zdiv_mono2_neg [of "- a" 1 "- b"] by (cases "a = 0") simp_all
    moreover have "(- a) div (- b) \<le> 0" using 3 by (cases "a = 0") (simp_all add: div_nonpos_pos_le0 div_nonneg_neg_le0)
    moreover have "(- a) div (- b) = a div b" by simp
    ultimately show ?thesis using assms(1) unfolding int64_defs div_by_1 by linarith
  next
    case 4
    with assms show ?thesis by (auto simp: would_overflow_div_def int64_defs)
  next
    case 5
    have "(- a) div (- b) \<le> (- a) div 2" using 5 by (intro zdiv_mono2) auto
    moreover have "0 \<le> (- a) div (- b)" using 5 by (simp add: pos_imp_zdiv_nonneg_iff del: div_minus_minus)
    moreover have "(- a) div (- b) = a div b" by simp
    ultimately show ?thesis using assms(1) 5 by (simp add: int64_defs)
  qed
qed

section \<open>Floor division\<close>

text \<open>
  The rounding step shared by \<^verbatim>\<open>VM::handle_int_divide\<close> and
  \<^verbatim>\<open>Optimizer::try_fold_operation\<close>: the truncated quotient, decremented when a non-zero remainder
  and the divisor differ in sign.
\<close>

definition floor_quotient :: "int \<Rightarrow> int \<Rightarrow> int" where
  "floor_quotient x y =
     (let quotient = x sdiv y; remainder = x smod y
      in if remainder \<noteq> 0 \<and> ((remainder < 0) \<noteq> (y < 0)) then quotient - 1 else quotient)"

lemma smod_int_eq: "(x :: int) smod y = x - (x sdiv y) * y"
  by (rule minus_sdiv_mult_eq_smod [symmetric])

lemma floor_quotient_eq_div:
  assumes "y \<noteq> 0"
  shows "floor_quotient x y = x div y"
proof -
  consider "0 \<le> x" "0 < y" | "x < 0" "y < 0" | "0 \<le> x" "y < 0" | "x < 0" "0 < y" using assms by linarith
  then show ?thesis
  proof cases
    case 1
    then have "x smod y = x mod y" by (simp add: smod_int_eq sdiv_cases minus_div_mult_eq_mod)
    with 1 show ?thesis by (simp add: floor_quotient_def sdiv_cases not_less)
  next
    case 2
    then have "x smod y = x mod y" by (simp add: smod_int_eq sdiv_cases minus_div_mult_eq_mod)
    moreover have "x mod y = 0 \<or> x mod y < 0" using 2 neg_mod_sign [of y x] by linarith
    ultimately show ?thesis using 2 by (auto simp: floor_quotient_def sdiv_cases Let_def)
  next
    case 3
    define z where "z = - y"
    with 3 have z: "0 < z" "y = - z" by auto
    then have "x smod y = x mod z"
      using 3 minus_div_mult_eq_mod [of x z] by (simp add: smod_int_eq sdiv_cases)
    with 3 z show ?thesis
      by (auto simp: floor_quotient_def sdiv_cases zdiv_zminus2_eq_if pos_mod_sign not_less)
  next
    case 4
    define z where "z = - x"
    with 4 have z: "0 < z" "x = - z" by auto
    then have "x smod y = - (z mod y)"
      using 4 minus_div_mult_eq_mod [of z y] by (simp add: smod_int_eq sdiv_cases)
    moreover have "z mod y = 0 \<or> 0 < z mod y" using 4 pos_mod_sign [of y z] by linarith
    ultimately show ?thesis
      using 4 z by (auto simp: floor_quotient_def sdiv_cases zdiv_zminus1_eq_if Let_def)
  qed
qed

text \<open>The truncated remainder takes the sign of the dividend and stays below the divisor.\<close>

lemma smod_int_bounds:
  assumes "y \<noteq> (0 :: int)"
  shows "\<bar>x smod y\<bar> < \<bar>y\<bar>" and "x smod y \<noteq> 0 \<Longrightarrow> sgn (x smod y) = sgn x"
proof -
  show "\<bar>x smod y\<bar> < \<bar>y\<bar>" using smod_int_range [OF assms, of x] by auto
  have "0 \<le> \<bar>x\<bar> mod \<bar>y\<bar>" using assms by simp
  then show "x smod y \<noteq> 0 \<Longrightarrow> sgn (x smod y) = sgn x"
    by (auto simp: smod_int_alt_def sgn_mult sgn_if split: if_splits)
qed

end
