(* ===== verification/VM_Arithmetic.thy ===== *)
theory VM_Arithmetic
  imports VM_Stack Overflow "HOL-Library.List_Lexorder" "HOL-Library.Char_ord"
begin

text \<open>
  The arithmetic, comparison, logical and stack-manipulation handlers of the virtual machine
  (\<^verbatim>\<open>core/runtime/vm/vm_dispatch_arithmetic.cpp\<close>, the handlers of
  \<^verbatim>\<open>vm_dispatch_table.cpp\<close> that call them, and the primitive cases of
  \<^verbatim>\<open>Value::equals\<close>, \<^verbatim>\<open>is_truthy\<close> and \<^verbatim>\<open>display_type_name\<close>).

  A double is its bit pattern.  Classification, sign change and the comparisons of doubles are defined
  on the pattern; the rounding operations are a parameter, a record of type \<^verbatim>\<open>fpu\<close>.  What the
  handlers need of heap objects other than functions (their type name, string form and equality, the parts
  of a result), the native functions, the cancellation state of the task, the installed function table and
  the configurable limits come from a record of type \<^verbatim>\<open>vm_env\<close>.
\<close>

unbundle bit_operations_syntax

section \<open>Doubles\<close>

record fpu =
  fp_add :: "u64 \<Rightarrow> u64 \<Rightarrow> u64"
  fp_sub :: "u64 \<Rightarrow> u64 \<Rightarrow> u64"
  fp_mul :: "u64 \<Rightarrow> u64 \<Rightarrow> u64"
  fp_div :: "u64 \<Rightarrow> u64 \<Rightarrow> u64"
  fp_fmod :: "u64 \<Rightarrow> u64 \<Rightarrow> u64"
  fp_of_int :: "u64 \<Rightarrow> u64"

definition fp_exponent :: "u64 \<Rightarrow> nat" where
  "fp_exponent x = unat (drop_bit 52 x AND 0x7FF)"

definition fp_mantissa :: "u64 \<Rightarrow> nat" where
  "fp_mantissa x = unat (x AND 0xFFFFFFFFFFFFF)"

definition fp_isfinite :: "u64 \<Rightarrow> bool" where
  "fp_isfinite x \<longleftrightarrow> fp_exponent x \<noteq> 2047"

definition fp_isnan :: "u64 \<Rightarrow> bool" where
  "fp_isnan x \<longleftrightarrow> fp_exponent x = 2047 \<and> fp_mantissa x \<noteq> 0"

definition fp_neg :: "u64 \<Rightarrow> u64" where
  "fp_neg x = x XOR 0x8000000000000000"

text \<open>The order of the patterns that are not NaN; both zeros have key 0.\<close>

definition fp_key :: "u64 \<Rightarrow> int" where
  "fp_key x = (if x AND 0x8000000000000000 = 0 then uint x else - uint (x AND 0x7FFFFFFFFFFFFFFF))"

definition fp_eq :: "u64 \<Rightarrow> u64 \<Rightarrow> bool" where
  "fp_eq a b \<longleftrightarrow> \<not> fp_isnan a \<and> \<not> fp_isnan b \<and> fp_key a = fp_key b"

definition fp_less :: "u64 \<Rightarrow> u64 \<Rightarrow> bool" where
  "fp_less a b \<longleftrightarrow> \<not> fp_isnan a \<and> \<not> fp_isnan b \<and> fp_key a < fp_key b"

definition fp_le :: "u64 \<Rightarrow> u64 \<Rightarrow> bool" where
  "fp_le a b \<longleftrightarrow> \<not> fp_isnan a \<and> \<not> fp_isnan b \<and> fp_key a \<le> fp_key b"

text \<open>The value of a double when it is a whole number (\<^verbatim>\<open>std::trunc(x) == x\<close>).\<close>

definition fp_whole :: "u64 \<Rightarrow> int option" where
  "fp_whole x =
     (let e = fp_exponent x; m = (if e = 0 then fp_mantissa x else fp_mantissa x + 2 ^ 52);
          s = (if x AND 0x8000000000000000 = 0 then 1 else -1); e' = (if e = 0 then 1 else e)
      in if e = 2047 then None
         else if 1075 \<le> e' then Some (s * int m * 2 ^ (e' - 1075))
         else if m mod 2 ^ (1075 - e') = 0 then Some (s * int (m div 2 ^ (1075 - e'))) else None)"

section \<open>Environment\<close>

record vm_env =
  env_fpu :: fpu
  env_object_name :: "value_type \<Rightarrow> nat \<Rightarrow> string"
  env_to_string :: "val \<Rightarrow> string"
  env_object_equals :: "value_type \<Rightarrow> nat \<Rightarrow> val \<Rightarrow> bool"
  max_string_size :: nat
  max_string_repeat :: int
  env_self_cancelled :: bool
  env_native :: "nat \<Rightarrow> val list \<Rightarrow> source_location \<Rightarrow> vm_error + val"
  env_result_parts :: "nat \<Rightarrow> bool \<times> val"
  env_functions :: "compiled_function list option"
  max_while_iterations :: nat
  max_total_loop_iterations :: nat
  max_call_depth :: int

section \<open>Values\<close>

fun is_integer :: "val \<Rightarrow> bool" where
  "is_integer (VInteger _) = True" | "is_integer _ = False"

fun is_number :: "val \<Rightarrow> bool" where
  "is_number (VNumber _) = True" | "is_number _ = False"

fun display_type_name :: "vm_env \<Rightarrow> val \<Rightarrow> string" where
  "display_type_name env VNull = ''none''"
| "display_type_name env (VBool _) = ''boolean''"
| "display_type_name env (VInteger _) = ''integer''"
| "display_type_name env (VNumber _) = ''number''"
| "display_type_name env (VString _) = ''string''"
| "display_type_name env (VObject t i) = env_object_name env t i"

text \<open>The string forms of doubles and heap objects come from the environment.\<close>

fun to_string :: "vm_env \<Rightarrow> val \<Rightarrow> string" where
  "to_string env VNull = ''none''"
| "to_string env (VBool b) = (if b then ''true'' else ''false'')"
| "to_string env (VInteger n) = show_int (sint n)"
| "to_string env (VNumber x) = env_to_string env (VNumber x)"
| "to_string env (VString s) = s"
| "to_string env (VObject t i) = env_to_string env (VObject t i)"

fun is_truthy :: "val \<Rightarrow> bool" where
  "is_truthy (VBool b) = b"
| "is_truthy (VInteger n) = (n \<noteq> 0)"
| "is_truthy VNull = False"
| "is_truthy (VNumber x) = (\<not> fp_eq x 0)"
| "is_truthy (VString s) = (s \<noteq> [])"
| "is_truthy (VObject _ _) = True"

text \<open>\<^verbatim>\<open>to_numeric\<close> throws without a location for other types; the machine is the one that calls it.\<close>

fun to_numeric :: "vm_env \<Rightarrow> vm \<Rightarrow> val \<Rightarrow> vm_throw + u64" where
  "to_numeric env vm (VInteger n) = Inr (fp_of_int (env_fpu env) n)"
| "to_numeric env vm (VNumber x) = Inr x"
| "to_numeric env vm v =
     Inl (Runtime_Error (''to_numeric() called on non-numeric type: '' @ display_type_name env v)
            default_location [] None, vm)"

definition integer_equals_number :: "u64 \<Rightarrow> u64 \<Rightarrow> bool" where
  "integer_equals_number integer number =
     (case fp_whole number of
        None \<Rightarrow> False
      | Some k \<Rightarrow> int64_min \<le> k \<and> k \<le> int64_max \<and> k = sint integer)"

fun equals_numeric :: "val \<Rightarrow> val \<Rightarrow> bool" where
  "equals_numeric (VBool a) (VBool b) = (a = b)"
| "equals_numeric (VInteger a) (VInteger b) = (a = b)"
| "equals_numeric (VNumber a) (VNumber b) = (if fp_isnan a \<and> fp_isnan b then True else fp_eq a b)"
| "equals_numeric (VInteger a) (VNumber b) = integer_equals_number a b"
| "equals_numeric (VNumber a) (VInteger b) = integer_equals_number b a"
| "equals_numeric _ _ = False"

fun value_equals :: "vm_env \<Rightarrow> val \<Rightarrow> val \<Rightarrow> bool" where
  "value_equals env VNull VNull = True"
| "value_equals env VNull _ = False"
| "value_equals env _ VNull = False"
| "value_equals env (VBool a) other = (case other of VBool b \<Rightarrow> a = b | _ \<Rightarrow> False)"
| "value_equals env (VInteger a) other = equals_numeric (VInteger a) other"
| "value_equals env (VNumber a) other = equals_numeric (VNumber a) other"
| "value_equals env (VString a) other = (case other of VString b \<Rightarrow> a = b | _ \<Rightarrow> False)"
| "value_equals env (VObject t i) other = env_object_equals env t i other"

section \<open>Checked integer operations\<close>

definition checked_integer_op :: "op \<Rightarrow> u64 \<Rightarrow> u64 \<Rightarrow> u64 option" where
  "checked_integer_op op l r =
     (if op = Op_Add then (if would_overflow_add (sint l) (sint r) then None else Some (l + r))
      else if op = Op_Subtract then (if would_overflow_sub (sint l) (sint r) then None else Some (l - r))
      else if op = Op_Multiply then (if would_overflow_mul (sint l) (sint r) then None else Some (l * r))
      else None)"

definition checked_negate :: "u64 \<Rightarrow> u64 option" where
  "checked_negate n = (if sint n = int64_min then None else Some (- n))"

definition checked_increment :: "u64 \<Rightarrow> u64 option" where
  "checked_increment n = (if sint n = int64_max then None else Some (n + 1))"

definition checked_decrement :: "u64 \<Rightarrow> u64 option" where
  "checked_decrement n = (if sint n = int64_min then None else Some (n - 1))"

section \<open>Numeric helpers\<close>

fun is_numeric :: "val \<Rightarrow> bool" where
  "is_numeric (VInteger _) = True" | "is_numeric (VNumber _) = True" | "is_numeric _ = False"

definition both_numeric :: "val \<Rightarrow> val \<Rightarrow> bool" where
  "both_numeric a b \<longleftrightarrow> is_numeric a \<and> is_numeric b"

fun as_double :: "fpu \<Rightarrow> val \<Rightarrow> u64" where
  "as_double fp (VInteger n) = fp_of_int fp n"
| "as_double fp (VNumber x) = x"
| "as_double fp _ = 0"

text \<open>\<^verbatim>\<open>Value{}\<close> (null) is the sentinel the caller inspects.\<close>

definition numeric_binary :: "fpu \<Rightarrow> val \<Rightarrow> val \<Rightarrow> (u64 \<Rightarrow> u64 \<Rightarrow> u64) \<Rightarrow> val" where
  "numeric_binary fp a b dbl_op =
     (if both_numeric a b then
        let l = as_double fp a; r = as_double fp b; result = dbl_op l r
        in if fp_isfinite l \<and> fp_isfinite r \<and> \<not> fp_isfinite result then VNull else VNumber result
      else VNull)"

definition check_string_concat_size :: "vm_env \<Rightarrow> nat \<Rightarrow> nat \<Rightarrow> bool" where
  "check_string_concat_size env a_size b_size \<longleftrightarrow>
     a_size \<le> max_string_size env \<and> b_size \<le> max_string_size env - a_size"

definition numeric_add :: "vm_env \<Rightarrow> val \<Rightarrow> val \<Rightarrow> val" where
  "numeric_add env a b =
     (let result = numeric_binary (env_fpu env) a b (fp_add (env_fpu env))
      in if result \<noteq> VNull then result
         else case (a, b) of
                (VString sa, VString sb) \<Rightarrow>
                  if \<not> check_string_concat_size env (length sa) (length sb) then VNull
                  else VString (sa @ sb)
              | _ \<Rightarrow> VNull)"

definition numeric_subtract :: "vm_env \<Rightarrow> val \<Rightarrow> val \<Rightarrow> val" where
  "numeric_subtract env a b = numeric_binary (env_fpu env) a b (fp_sub (env_fpu env))"

definition numeric_multiply :: "vm_env \<Rightarrow> val \<Rightarrow> val \<Rightarrow> val" where
  "numeric_multiply env a b = numeric_binary (env_fpu env) a b (fp_mul (env_fpu env))"

section \<open>String repetition\<close>

text \<open>The doubling loop of \<^verbatim>\<open>repeat_string\<close>: append a prefix of the result to itself.\<close>

function repeat_loop :: "nat \<Rightarrow> string \<Rightarrow> string" where
  "repeat_loop total_size result =
     (if length result < total_size \<and> result \<noteq> [] then
        let chunk = min (length result) (total_size - length result)
        in repeat_loop total_size (result @ take chunk result)
      else result)"
  by pat_completeness auto
termination
  by (relation "measure (\<lambda>(total_size, result). total_size - length result)")
    (auto simp: min_def simp flip: length_greater_0_conv)

declare repeat_loop.simps [simp del]

definition repeat_string :: "string \<Rightarrow> nat \<Rightarrow> string" where
  "repeat_string text count =
     (if text = [] \<or> count = 0 then [] else repeat_loop (length text * count) text)"

datatype string_repeat_outcome = Not_Applicable | Repeated string | Repeat_Error string

definition string_repeat_count_exceeds_max :: string where
  "string_repeat_count_exceeds_max = ''string repeat count exceeds maximum''"

definition string_repetition_exceeds_max :: string where
  "string_repetition_exceeds_max = ''string repetition exceeds maximum string size''"

definition try_string_repeat :: "vm_env \<Rightarrow> val \<Rightarrow> val \<Rightarrow> string_repeat_outcome" where
  "try_string_repeat env a b =
     (let operands = (case (a, b) of
                        (VString s, VInteger n) \<Rightarrow> Some (s, sint n)
                      | (VInteger n, VString s) \<Rightarrow> Some (s, sint n)
                      | _ \<Rightarrow> None)
      in case operands of
           None \<Rightarrow> Not_Applicable
         | Some (str, count) \<Rightarrow>
             if count \<le> 0 then Repeated []
             else if max_string_repeat env < count then Repeat_Error string_repeat_count_exceeds_max
             else if str \<noteq> [] \<and> max_string_size env div length str < nat count
             then Repeat_Error string_repetition_exceeds_max
             else Repeated (repeat_string str (nat count)))"

section \<open>Error messages\<close>

definition quoted :: "string \<Rightarrow> string" where
  "quoted s = [CHR 0x27] @ s @ [CHR 0x27]"

definition op_verb :: "op \<Rightarrow> string" where
  "op_verb op = (if op = Op_Add then ''add'' else if op = Op_Subtract then ''subtract''
     else if op = Op_Multiply then ''multiply'' else ''operate on'')"

definition op_noun :: "op \<Rightarrow> string" where
  "op_noun op = (if op = Op_Add then ''addition'' else if op = Op_Subtract then ''subtraction''
     else if op = Op_Multiply then ''multiplication'' else if op = Op_Divide then ''division''
     else ''arithmetic'')"

definition integer_overflow_in :: "string \<Rightarrow> string" where
  "integer_overflow_in operation = ''integer overflow in '' @ operation"

definition number_overflow_in :: "string \<Rightarrow> string" where
  "number_overflow_in operation = ''number overflow in '' @ operation"

definition hint_integer_overflow :: string where
  "hint_integer_overflow = ''the result does not fit in a 64-bit integer '' @
     string_of_bytes [0xe2, 0x80, 0x94] @
     '' convert an operand to '' @ quoted ''number'' @ '' first if you need a floating-point result''"

definition string_concat_exceeds_max :: string where
  "string_concat_exceeds_max = ''string concatenation exceeds maximum string size''"

definition hint_reduce_repeat_count :: string where
  "hint_reduce_repeat_count = ''reduce the repeat count (limit: LUMA_LIMIT_MAX_STRING_REPEAT)''"

definition cannot_operate_on :: "string \<Rightarrow> string \<Rightarrow> string \<Rightarrow> string" where
  "cannot_operate_on verb type_a type_b =
     ''cannot '' @ verb @ '' '' @ quoted type_a @ '' and '' @ quoted type_b"

definition division_by_zero_op :: "string \<Rightarrow> string" where
  "division_by_zero_op op_name = op_name @ '': division by zero''"

definition requires_integer_or_number :: "string \<Rightarrow> string \<Rightarrow> string" where
  "requires_integer_or_number op_name type =
     op_name @ '' requires an integer or number, got '' @ quoted type"

definition hint_divisor_not_zero :: string where
  "hint_divisor_not_zero = ''the divisor must not be zero''"

definition integer_division_overflow :: string where
  "integer_division_overflow = ''integer division overflow''"

definition integer_division_requires_integers :: string where
  "integer_division_requires_integers = ''integer division requires integer operands''"

definition hint_integer_division_only :: string where
  "hint_integer_division_only = ''use '' @ quoted ''//'' @ '' only with integer values''"

definition hint_integer_division_overflow :: string where
  "hint_integer_division_overflow = ''this operation would overflow '' @
     string_of_bytes [0xe2, 0x80, 0x94] @ '' check for division of minimum integer by -1''"

definition hint_string_too_large :: string where
  "hint_string_too_large = ''the resulting string is too large '' @
     string_of_bytes [0xe2, 0x80, 0x94] @ '' consider writing to a file instead''"

section \<open>Arithmetic dispatch\<close>

definition numeric_binary_op :: "vm_env \<Rightarrow> vm \<Rightarrow> val \<Rightarrow> val \<Rightarrow> op \<Rightarrow> vm_throw + val" where
  "numeric_binary_op env vm a b op =
     (let unsupported = Inl (runtime_error vm
            (cannot_operate_on (op_verb op) (display_type_name env a) (display_type_name env b)) []);
          number_overflow = Inl (runtime_error vm (number_overflow_in (op_noun op)) [])
      in case (a, b) of
           (VInteger l, VInteger r) \<Rightarrow>
             (case checked_integer_op op l r of
                Some result \<Rightarrow> Inr (VInteger result)
              | None \<Rightarrow> Inl (runtime_error vm (integer_overflow_in (op_noun op)) hint_integer_overflow))
         | _ \<Rightarrow>
             if op = Op_Add then
               (let result = numeric_add env a b
                in if result \<noteq> VNull then Inr result
                   else case (a, b) of
                          (VString _, VString _) \<Rightarrow> Inl (runtime_error vm string_concat_exceeds_max [])
                        | _ \<Rightarrow> if both_numeric a b then number_overflow else unsupported)
             else if op = Op_Subtract then
               (let result = numeric_subtract env a b
                in if result \<noteq> VNull then Inr result
                   else if both_numeric a b then number_overflow else unsupported)
             else if op = Op_Multiply then
               (let result = numeric_multiply env a b
                in if result \<noteq> VNull then Inr result
                   else case try_string_repeat env a b of
                          Repeat_Error e \<Rightarrow> Inl (runtime_error vm e hint_reduce_repeat_count)
                        | Repeated s \<Rightarrow> Inr (VString s)
                        | Not_Applicable \<Rightarrow> if both_numeric a b then number_overflow else unsupported)
             else unsupported)"

definition apply_comparison ::
    "('a \<Rightarrow> 'a \<Rightarrow> bool) \<Rightarrow> ('a \<Rightarrow> 'a \<Rightarrow> bool) \<Rightarrow> ('a \<Rightarrow> 'a \<Rightarrow> bool) \<Rightarrow> 'a \<Rightarrow> 'a \<Rightarrow> op \<Rightarrow> bool" where
  "apply_comparison eq_op lt_op le_op left right op =
     (if op = Op_Less then lt_op left right
      else if op = Op_LessEqual then le_op left right
      else if op = Op_Greater then lt_op right left
      else if op = Op_GreaterEqual then le_op right left
      else if op = Op_Equal then eq_op left right
      else if op = Op_NotEqual then \<not> eq_op left right
      else False)"

definition compare_values :: "vm_env \<Rightarrow> vm \<Rightarrow> val \<Rightarrow> val \<Rightarrow> op \<Rightarrow> vm_throw + val" where
  "compare_values env vm a b op =
     (case (a, b) of
        (VInteger l, VInteger r) \<Rightarrow> Inr (VBool (apply_comparison (=) (<) (\<le>) (sint l) (sint r) op))
      | (VString l, VString r) \<Rightarrow> Inr (VBool (apply_comparison (=) (<) (\<le>) l r op))
      | _ \<Rightarrow> and_then (to_numeric env vm a) (\<lambda>l. and_then (to_numeric env vm b) (\<lambda>r.
               Inr (VBool (apply_comparison fp_eq fp_less fp_le l r op)))))"

section \<open>Division\<close>

definition validate_nonzero_divisor :: "vm \<Rightarrow> val \<Rightarrow> string \<Rightarrow> vm_throw + unit" where
  "validate_nonzero_divisor vm divisor op_name =
     (let is_zero = (case divisor of VInteger n \<Rightarrow> n = 0 | VNumber x \<Rightarrow> fp_eq x 0 | _ \<Rightarrow> False)
      in if is_zero then Inl (runtime_error vm (division_by_zero_op op_name) hint_divisor_not_zero)
         else Inr ())"

definition handle_divide :: "vm_env \<Rightarrow> vm \<Rightarrow> vm_throw + vm" where
  "handle_divide env vm =
     and_then (pop_binary_ref vm) (\<lambda>(a, b, vm).
       if \<not> both_numeric a b
       then Inl (runtime_error vm (cannot_operate_on ''divide'' (display_type_name env a)
              (display_type_name env b)) [])
       else and_then (validate_nonzero_divisor vm b ''Division'') (\<lambda>_.
         and_then (to_numeric env vm a) (\<lambda>l. and_then (to_numeric env vm b) (\<lambda>r.
           let result = fp_div (env_fpu env) l r
           in if fp_isfinite l \<and> fp_isfinite r \<and> \<not> fp_isfinite result
              then Inl (runtime_error vm (number_overflow_in (op_noun Op_Divide)) [])
              else Inr (set_top vm (VNumber result))))))"

definition handle_int_divide :: "vm_env \<Rightarrow> vm \<Rightarrow> vm_throw + vm" where
  "handle_int_divide env vm =
     and_then (pop_binary_ref vm) (\<lambda>(a, b, vm).
       case (a, b) of
         (VInteger x, VInteger y) \<Rightarrow>
           and_then (validate_nonzero_divisor vm b ''Integer division'') (\<lambda>_.
             if would_overflow_div (sint x) (sint y)
             then Inl (runtime_error vm integer_division_overflow hint_integer_division_overflow)
             else Inr (set_top vm (VInteger (word_of_int (floor_quotient (sint x) (sint y))))))
       | _ \<Rightarrow> Inl (runtime_error vm integer_division_requires_integers hint_integer_division_only))"

definition handle_modulo :: "vm_env \<Rightarrow> vm \<Rightarrow> vm_throw + vm" where
  "handle_modulo env vm =
     and_then (pop_binary_ref vm) (\<lambda>(a, b, vm).
       if \<not> both_numeric a b
       then Inl (runtime_error vm (cannot_operate_on ''take the remainder of'' (display_type_name env a)
              (display_type_name env b)) [])
       else and_then (validate_nonzero_divisor vm b ''Modulo'') (\<lambda>_.
         case (a, b) of
           (VInteger x, VInteger y) \<Rightarrow>
             if would_overflow_div (sint x) (sint y) then Inr (set_top vm (VInteger 0))
             else Inr (set_top vm (VInteger (word_of_int (sint x smod sint y))))
         | _ \<Rightarrow> and_then (to_numeric env vm a) (\<lambda>l. and_then (to_numeric env vm b) (\<lambda>r.
                  Inr (set_top vm (VNumber (fp_fmod (env_fpu env) l r)))))))"

section \<open>Concatenation\<close>

definition handle_concatenate :: "vm_env \<Rightarrow> vm \<Rightarrow> vm_throw + vm" where
  "handle_concatenate env vm =
     and_then (pop_binary_ref vm) (\<lambda>(a, b, vm).
       let (sa, sb) = (case (a, b) of (VString x, VString y) \<Rightarrow> (x, y)
                                    | _ \<Rightarrow> (to_string env a, to_string env b))
       in if \<not> check_string_concat_size env (length sa) (length sb)
          then Inl (runtime_error vm string_concat_exceeds_max hint_string_too_large)
          else Inr (set_top vm (VString (sa @ sb))))"

end
