(* ===== verification/VM_Dispatch.thy ===== *)
theory VM_Dispatch
  imports VM_Arithmetic
begin

text \<open>
  The opcode handlers of \<^verbatim>\<open>core/runtime/vm/vm_dispatch_table.cpp\<close> for constants, stack
  manipulation, locals, literals, arithmetic, comparison, logic, strings, jumps and the fused opcodes.
  Each takes the machine after the opcode byte was fetched and returns the next machine or the error.
\<close>

section \<open>Stack manipulation\<close>

definition op_constant :: "vm \<Rightarrow> vm_throw + vm" where
  "op_constant vm =
     and_then (vm_read_u16 vm) (\<lambda>(index, vm).
       let f = fr_function (last (frames vm)); constants = ch_constants (cf_chunk f)
       in if \<not> cf_verified f \<and> cp_size constants \<le> unat index
          then Inl (runtime_error vm (constant_index_out_of_bounds (unat index) (cp_size constants))
                 k_internal_error_message)
          else push vm (cp_values constants ! unat index))"

definition op_pop :: "vm \<Rightarrow> vm_throw + vm" where
  "op_pop vm = and_then (pop vm) (\<lambda>(_, vm). Inr vm)"

definition op_dup :: "vm \<Rightarrow> vm_throw + vm" where
  "op_dup vm = and_then (validate_stack_depth vm 1 ''Dup'') (\<lambda>_. push vm (last (stack vm)))"

definition op_dup2 :: "vm \<Rightarrow> vm_throw + vm" where
  "op_dup2 vm =
     and_then (validate_stack_depth vm 2 ''Dup2'') (\<lambda>_.
       let b = stack vm ! (length (stack vm) - 2); a = last (stack vm)
       in and_then (push vm b) (\<lambda>vm. push vm a))"

definition op_swap :: "vm \<Rightarrow> vm_throw + vm" where
  "op_swap vm =
     and_then (validate_stack_depth vm 2 ''Swap'') (\<lambda>_.
       let n = length (stack vm); a = stack vm ! (n - 1); b = stack vm ! (n - 2)
       in Inr (vm\<lparr>stack := (stack vm)[n - 1 := b, n - 2 := a]\<rparr>))"

section \<open>Locals\<close>

definition op_get_local :: "vm \<Rightarrow> vm_throw + vm" where
  "op_get_local vm =
     and_then (vm_read_u16 vm) (\<lambda>(slot, vm).
       and_then (get_local_slot vm (last (frames vm)) slot) (\<lambda>index. push vm (stack vm ! index)))"

definition op_set_local :: "vm \<Rightarrow> vm_throw + vm" where
  "op_set_local vm =
     and_then (vm_read_u16 vm) (\<lambda>(slot, vm).
       and_then (peek vm 0) (\<lambda>v. and_then (get_local_slot vm (last (frames vm)) slot) (\<lambda>index.
         Inr (vm\<lparr>stack := (stack vm)[index := v]\<rparr>))))"

text \<open>
  \<^verbatim>\<open>get_local_slot(cf, slot) = pop()\<close>: the right operand of an assignment is evaluated first,
  so the slot is checked against the stack without the popped value.
\<close>

definition op_set_local_pop :: "vm \<Rightarrow> vm_throw + vm" where
  "op_set_local_pop vm =
     and_then (vm_read_u16 vm) (\<lambda>(slot, vm).
       and_then (pop vm) (\<lambda>(v, vm). and_then (get_local_slot vm (last (frames vm)) slot) (\<lambda>index.
         Inr (vm\<lparr>stack := (stack vm)[index := v]\<rparr>))))"

section \<open>Literals\<close>

definition op_none :: "vm \<Rightarrow> vm_throw + vm" where "op_none vm = push vm VNull"
definition op_true :: "vm \<Rightarrow> vm_throw + vm" where "op_true vm = push vm (VBool True)"
definition op_false :: "vm \<Rightarrow> vm_throw + vm" where "op_false vm = push vm (VBool False)"
definition op_zero :: "vm \<Rightarrow> vm_throw + vm" where "op_zero vm = push vm (VInteger 0)"
definition op_one :: "vm \<Rightarrow> vm_throw + vm" where "op_one vm = push vm (VInteger 1)"

section \<open>Arithmetic\<close>

definition binary_op :: "vm \<Rightarrow> (vm \<Rightarrow> val \<Rightarrow> val \<Rightarrow> vm_throw + val) \<Rightarrow> vm_throw + vm" where
  "binary_op vm f =
     and_then (pop_binary_ref vm) (\<lambda>(a, b, vm). and_then (f vm a b) (\<lambda>v. Inr (set_top vm v)))"

definition op_add :: "vm_env \<Rightarrow> vm \<Rightarrow> vm_throw + vm" where
  "op_add env vm = binary_op vm (\<lambda>vm a b. numeric_binary_op env vm a b Op_Add)"

definition op_subtract :: "vm_env \<Rightarrow> vm \<Rightarrow> vm_throw + vm" where
  "op_subtract env vm = binary_op vm (\<lambda>vm a b. numeric_binary_op env vm a b Op_Subtract)"

definition op_multiply :: "vm_env \<Rightarrow> vm \<Rightarrow> vm_throw + vm" where
  "op_multiply env vm = binary_op vm (\<lambda>vm a b. numeric_binary_op env vm a b Op_Multiply)"

definition op_divide :: "vm_env \<Rightarrow> vm \<Rightarrow> vm_throw + vm" where "op_divide env vm = handle_divide env vm"
definition op_int_divide :: "vm_env \<Rightarrow> vm \<Rightarrow> vm_throw + vm" where "op_int_divide env vm = handle_int_divide env vm"
definition op_modulo :: "vm_env \<Rightarrow> vm \<Rightarrow> vm_throw + vm" where "op_modulo env vm = handle_modulo env vm"

definition handle_unary_numeric ::
    "vm_env \<Rightarrow> vm \<Rightarrow> val \<Rightarrow> (u64 \<Rightarrow> u64 option) \<Rightarrow> (u64 \<Rightarrow> u64) \<Rightarrow> string \<Rightarrow> string \<Rightarrow> vm_throw + val" where
  "handle_unary_numeric env vm v int_op num_op op_name overflow_operation =
     (case v of
        VInteger n \<Rightarrow>
          (case int_op n of
             Some result \<Rightarrow> Inr (VInteger result)
           | None \<Rightarrow> Inl (runtime_error vm (integer_overflow_in overflow_operation) hint_integer_overflow))
      | VNumber x \<Rightarrow> Inr (VNumber (num_op x))
      | _ \<Rightarrow> Inl (runtime_error vm (requires_integer_or_number op_name (display_type_name env v)) []))"

text \<open>The pattern of 1.0.\<close>

definition fp_one :: u64 where "fp_one = 0x3FF0000000000000"

definition unary_op :: "vm \<Rightarrow> string \<Rightarrow> (val \<Rightarrow> vm_throw + val) \<Rightarrow> vm_throw + vm" where
  "unary_op vm name f =
     and_then (validate_stack_depth vm 1 name) (\<lambda>_.
       and_then (f (last (stack vm))) (\<lambda>v. Inr (set_top vm v)))"

definition op_negate :: "vm_env \<Rightarrow> vm \<Rightarrow> vm_throw + vm" where
  "op_negate env vm = unary_op vm ''Negate'' (\<lambda>v.
     handle_unary_numeric env vm v checked_negate fp_neg ''Negate'' ''negation'')"

definition op_increment :: "vm_env \<Rightarrow> vm \<Rightarrow> vm_throw + vm" where
  "op_increment env vm = unary_op vm ''Increment'' (\<lambda>v.
     handle_unary_numeric env vm v checked_increment (\<lambda>x. fp_add (env_fpu env) x fp_one)
       ''Increment'' ''increment'')"

definition op_decrement :: "vm_env \<Rightarrow> vm \<Rightarrow> vm_throw + vm" where
  "op_decrement env vm = unary_op vm ''Decrement'' (\<lambda>v.
     handle_unary_numeric env vm v checked_decrement (\<lambda>x. fp_sub (env_fpu env) x fp_one)
       ''Decrement'' ''decrement'')"

section \<open>Comparison and logic\<close>

definition op_equal :: "vm_env \<Rightarrow> vm \<Rightarrow> vm_throw + vm" where
  "op_equal env vm = binary_op vm (\<lambda>vm a b. Inr (VBool (value_equals env a b)))"

definition op_not_equal :: "vm_env \<Rightarrow> vm \<Rightarrow> vm_throw + vm" where
  "op_not_equal env vm = binary_op vm (\<lambda>vm a b. Inr (VBool (\<not> value_equals env a b)))"

definition op_less :: "vm_env \<Rightarrow> vm \<Rightarrow> vm_throw + vm" where
  "op_less env vm = binary_op vm (\<lambda>vm a b. compare_values env vm a b Op_Less)"

definition op_less_equal :: "vm_env \<Rightarrow> vm \<Rightarrow> vm_throw + vm" where
  "op_less_equal env vm = binary_op vm (\<lambda>vm a b. compare_values env vm a b Op_LessEqual)"

definition op_greater :: "vm_env \<Rightarrow> vm \<Rightarrow> vm_throw + vm" where
  "op_greater env vm = binary_op vm (\<lambda>vm a b. compare_values env vm a b Op_Greater)"

definition op_greater_equal :: "vm_env \<Rightarrow> vm \<Rightarrow> vm_throw + vm" where
  "op_greater_equal env vm = binary_op vm (\<lambda>vm a b. compare_values env vm a b Op_GreaterEqual)"

definition op_not :: "vm \<Rightarrow> vm_throw + vm" where
  "op_not vm = unary_op vm ''Not'' (\<lambda>v. Inr (VBool (\<not> is_truthy v)))"

definition op_and :: "vm \<Rightarrow> vm_throw + vm" where
  "op_and vm = binary_op vm (\<lambda>vm a b. Inr (VBool (is_truthy a \<and> is_truthy b)))"

definition op_or :: "vm \<Rightarrow> vm_throw + vm" where
  "op_or vm = binary_op vm (\<lambda>vm a b. Inr (VBool (is_truthy a \<or> is_truthy b)))"

definition op_concatenate :: "vm_env \<Rightarrow> vm \<Rightarrow> vm_throw + vm" where
  "op_concatenate env vm = handle_concatenate env vm"

definition op_is_some :: "vm \<Rightarrow> vm_throw + vm" where
  "op_is_some vm = unary_op vm ''IsSome'' (\<lambda>v. Inr (VBool (v \<noteq> VNull)))"

definition op_type_of :: "vm_env \<Rightarrow> vm \<Rightarrow> vm_throw + vm" where
  "op_type_of env vm = unary_op vm ''TypeOf'' (\<lambda>v. Inr (VString (display_type_name env v)))"

definition op_int_to_number :: "vm_env \<Rightarrow> vm \<Rightarrow> vm_throw + vm" where
  "op_int_to_number env vm = unary_op vm ''IntToNumber'' (\<lambda>v.
     Inr (case v of VInteger n \<Rightarrow> VNumber (fp_of_int (env_fpu env) n) | _ \<Rightarrow> v))"

section \<open>Jumps\<close>

text \<open>\<^verbatim>\<open>validate_jump_target\<close> compares with the end of the code, inclusively.\<close>

definition jump_target_beyond_bounds :: string where
  "jump_target_beyond_bounds = ''jump target beyond bytecode bounds''"

definition validate_jump_target :: "vm \<Rightarrow> nat \<Rightarrow> nat \<Rightarrow> vm_throw + unit" where
  "validate_jump_target vm ip code_end =
     (if code_end < ip then Inl (Bytecode_Error jump_target_beyond_bounds, vm) else Inr ())"

definition advance_ip :: "vm \<Rightarrow> u32 \<Rightarrow> vm_throw + vm" where
  "advance_ip vm offset =
     (let frame = last (frames vm); ip = fr_ip frame + unat offset
      in and_then (validate_jump_target (set_ip vm ip) ip (length (ch_code (cf_chunk (fr_function frame)))))
           (\<lambda>_. Inr (set_ip vm ip)))"

definition op_jump :: "vm \<Rightarrow> vm_throw + vm" where
  "op_jump vm = and_then (vm_read_u32 vm) (\<lambda>(offset, vm). advance_ip vm offset)"

definition jump_if :: "vm \<Rightarrow> bool \<Rightarrow> vm_throw + vm" where
  "jump_if vm jump_on_truthy =
     and_then (vm_read_u32 vm) (\<lambda>(offset, vm).
       and_then (peek vm 0) (\<lambda>v. if is_truthy v = jump_on_truthy then advance_ip vm offset else Inr vm))"

definition op_jump_if_false :: "vm \<Rightarrow> vm_throw + vm" where "op_jump_if_false vm = jump_if vm False"
definition op_jump_if_true :: "vm \<Rightarrow> vm_throw + vm" where "op_jump_if_true vm = jump_if vm True"

section \<open>Fused opcodes\<close>

definition unary_local ::
    "vm_env \<Rightarrow> vm \<Rightarrow> (u64 \<Rightarrow> u64 option) \<Rightarrow> (u64 \<Rightarrow> u64) \<Rightarrow> string \<Rightarrow> string \<Rightarrow> vm_throw + vm" where
  "unary_local env vm int_op num_op op_name overflow_operation =
     and_then (vm_read_u16 vm) (\<lambda>(slot, vm).
       and_then (get_local_slot vm (last (frames vm)) slot) (\<lambda>index.
         and_then (handle_unary_numeric env vm (stack vm ! index) int_op num_op op_name overflow_operation)
           (\<lambda>v. Inr (vm\<lparr>stack := (stack vm)[index := v]\<rparr>))))"

definition op_increment_local :: "vm_env \<Rightarrow> vm \<Rightarrow> vm_throw + vm" where
  "op_increment_local env vm =
     unary_local env vm checked_increment (\<lambda>x. fp_add (env_fpu env) x fp_one) ''Increment'' ''increment''"

definition op_decrement_local :: "vm_env \<Rightarrow> vm \<Rightarrow> vm_throw + vm" where
  "op_decrement_local env vm =
     unary_local env vm checked_decrement (\<lambda>x. fp_sub (env_fpu env) x fp_one) ''Decrement'' ''decrement''"

section \<open>Dispatch\<close>

text \<open>
  One turn of the loop in \<^verbatim>\<open>VM::run\<close> for the opcodes above: fetch under the guard, advance,
  call the handler of the table.  \<^verbatim>\<open>None\<close> stands for an opcode whose handler is not modelled.
\<close>

definition modelled_handler :: "vm_env \<Rightarrow> op \<Rightarrow> (vm \<Rightarrow> vm_throw + vm) option" where
  "modelled_handler env op =
     map_of [(Op_Constant, op_constant), (Op_Pop, op_pop), (Op_Dup, op_dup), (Op_Dup2, op_dup2),
       (Op_Swap, op_swap), (Op_GetLocal, op_get_local), (Op_SetLocal, op_set_local),
       (Op_SetLocalPop, op_set_local_pop), (Op_None, op_none), (Op_True, op_true), (Op_False, op_false),
       (Op_Zero, op_zero), (Op_One, op_one), (Op_Add, op_add env), (Op_Subtract, op_subtract env),
       (Op_Multiply, op_multiply env), (Op_Divide, op_divide env), (Op_IntDivide, op_int_divide env),
       (Op_Modulo, op_modulo env), (Op_Negate, op_negate env), (Op_Increment, op_increment env),
       (Op_Decrement, op_decrement env), (Op_Equal, op_equal env), (Op_NotEqual, op_not_equal env),
       (Op_Less, op_less env), (Op_LessEqual, op_less_equal env), (Op_Greater, op_greater env),
       (Op_GreaterEqual, op_greater_equal env), (Op_Not, op_not), (Op_And, op_and), (Op_Or, op_or),
       (Op_Concatenate, op_concatenate env), (Op_IsSome, op_is_some), (Op_TypeOf, op_type_of env),
       (Op_IntToNumber, op_int_to_number env), (Op_Jump, op_jump), (Op_JumpIfFalse, op_jump_if_false),
       (Op_JumpIfTrue, op_jump_if_true), (Op_IncrementLocal, op_increment_local env),
       (Op_DecrementLocal, op_decrement_local env)] op"

definition run_once :: "vm_env \<Rightarrow> vm \<Rightarrow> (vm_throw + vm) option" where
  "run_once env vm =
     (let frame = last (frames vm); code = ch_code (cf_chunk (fr_function frame))
      in case ensure_bytecode_available vm frame 1 of
           Inl e \<Rightarrow> Some (Inl e)
         | Inr _ \<Rightarrow>
             (case modelled_handler env (code ! fr_ip frame) of
                None \<Rightarrow> None
              | Some handler \<Rightarrow> Some (handler (set_ip vm (fr_ip frame + 1)))))"

section \<open>Lemmas: the top of the stack\<close>

lemma stack_set_ip [simp]: "stack (set_ip vm ip) = stack vm"
  by (simp add: set_ip_def)

lemma stack_set_top [simp]: "stack (set_top vm v) = butlast (stack vm) @ [v]"
  by (simp add: set_top_def)

lemma pop_binary_ref_two:
  "stack vm = xs @ [a, b] \<Longrightarrow> pop_binary_ref vm = Inr (a, b, vm\<lparr>stack := xs @ [a]\<rparr>)"
  by (simp add: pop_binary_ref_def pop_def butlast_append)

lemma binary_op_two:
  "stack vm = xs @ [a, b] \<Longrightarrow>
   binary_op vm f = and_then (f (vm\<lparr>stack := xs @ [a]\<rparr>) a b) (\<lambda>v. Inr (vm\<lparr>stack := xs @ [v]\<rparr>))"
  by (simp add: binary_op_def pop_binary_ref_two set_top_def)

lemma unary_op_one:
  "stack vm = xs @ [a] \<Longrightarrow> unary_op vm name f = and_then (f a) (\<lambda>v. Inr (vm\<lparr>stack := xs @ [v]\<rparr>))"
  by (simp add: unary_op_def validate_stack_depth_def set_top_def)

section \<open>Lemmas: stack depth of the handlers\<close>

named_theorems depth_simps

lemma push_depth [depth_simps]:
  "push vm v = Inr vm' \<Longrightarrow> length (stack vm') = length (stack vm) + 1 \<and> length (stack vm') \<le> k_max"
  by (auto simp: push_def split: if_splits)

lemma pop_depth [depth_simps]: "pop vm = Inr (v, vm') \<Longrightarrow> length (stack vm) = length (stack vm') + 1"
  by (cases "stack vm" rule: rev_cases) (auto simp: pop_def)

lemma pop_binary_ref_depth [depth_simps]:
  "pop_binary_ref vm = Inr (a, b, vm') \<Longrightarrow>
   length (stack vm) = length (stack vm') + 1 \<and> stack vm' \<noteq> []"
  by (auto simp: pop_binary_ref_def and_then_Inr split: if_splits dest!: pop_depth)

lemma binary_op_depth [depth_simps]: "binary_op vm f = Inr vm' \<Longrightarrow> length (stack vm) = length (stack vm') + 1"
  by (auto simp: binary_op_def and_then_Inr dest!: pop_binary_ref_depth)

lemma unary_op_depth [depth_simps]: "unary_op vm name f = Inr vm' \<Longrightarrow> length (stack vm') = length (stack vm)"
  by (auto simp: unary_op_def and_then_Inr validate_stack_depth_def split: if_splits)

lemma readers_depth [depth_simps]:
  "vm_read_u16 vm = Inr (w16, vm') \<Longrightarrow> stack vm' = stack vm"
  "vm_read_u32 vm = Inr (w32, vm') \<Longrightarrow> stack vm' = stack vm"
  "advance_ip vm w32 = Inr vm' \<Longrightarrow> stack vm' = stack vm"
  by (auto simp: vm_read_u16_def vm_read_u32_def advance_ip_def and_then_Inr Let_def)

lemma handlers_depth_0:
  assumes "h \<in> {op_swap, op_set_local, op_negate env, op_increment env, op_decrement env, op_not, op_is_some,
             op_type_of env, op_int_to_number env, op_jump, op_jump_if_false, op_jump_if_true,
             op_increment_local env, op_decrement_local env}"
    and "h vm = Inr vm'"
  shows "length (stack vm') = length (stack vm)"
  using assms
  by (auto simp: op_swap_def op_set_local_def op_negate_def op_increment_def op_decrement_def op_not_def
      op_is_some_def op_type_of_def op_int_to_number_def op_jump_def op_jump_if_false_def op_jump_if_true_def
      op_increment_local_def op_decrement_local_def unary_local_def jump_if_def and_then_Inr Let_def
      split: if_splits dest!: depth_simps)

lemma handlers_depth_1:
  assumes "h \<in> {op_constant, op_dup, op_get_local, op_none, op_true, op_false, op_zero, op_one}"
    and "h vm = Inr vm'"
  shows "length (stack vm') = length (stack vm) + 1 \<and> length (stack vm') \<le> k_max"
  using assms
  by (auto simp: op_constant_def op_dup_def op_get_local_def op_none_def op_true_def op_false_def op_zero_def
      op_one_def and_then_Inr Let_def split: if_splits dest!: depth_simps)

lemma division_handlers_depth [depth_simps]:
  "handle_divide env vm = Inr vm' \<Longrightarrow> length (stack vm) = length (stack vm') + 1"
  "handle_int_divide env vm = Inr vm' \<Longrightarrow> length (stack vm) = length (stack vm') + 1"
  "handle_modulo env vm = Inr vm' \<Longrightarrow> length (stack vm) = length (stack vm') + 1"
  "handle_concatenate env vm = Inr vm' \<Longrightarrow> length (stack vm) = length (stack vm') + 1"
proof -
  have depth: "length (stack vm) = length (stack vm') + 1"
    if "and_then (pop_binary_ref vm) f = Inr vm'"
      and "\<And>a b vm1. f (a, b, vm1) = Inr vm' \<Longrightarrow> \<exists>v. vm' = set_top vm1 v" for f
    using that by (force simp: and_then_Inr dest: pop_binary_ref_depth)
  show "handle_divide env vm = Inr vm' \<Longrightarrow> length (stack vm) = length (stack vm') + 1"
    unfolding handle_divide_def
    by (erule depth) (auto simp: and_then_Inr Let_def split: if_splits)
  show "handle_int_divide env vm = Inr vm' \<Longrightarrow> length (stack vm) = length (stack vm') + 1"
    unfolding handle_int_divide_def
    by (erule depth, rename_tac a b vm1, case_tac a; case_tac b) (auto simp: and_then_Inr split: if_splits)
  show "handle_modulo env vm = Inr vm' \<Longrightarrow> length (stack vm) = length (stack vm') + 1"
    unfolding handle_modulo_def
    by (erule depth, rename_tac a b vm1, case_tac a; case_tac b) (auto simp: and_then_Inr split: if_splits)
  show "handle_concatenate env vm = Inr vm' \<Longrightarrow> length (stack vm) = length (stack vm') + 1"
    unfolding handle_concatenate_def
    by (erule depth) (auto simp: Let_def split: if_splits prod.splits)
qed

lemma handlers_depth_minus_1:
  assumes "h \<in> {op_pop, op_set_local_pop, op_add env, op_subtract env, op_multiply env, op_divide env,
             op_int_divide env, op_modulo env, op_equal env, op_not_equal env, op_less env, op_less_equal env,
             op_greater env, op_greater_equal env, op_and, op_or, op_concatenate env}"
    and "h vm = Inr vm'"
  shows "length (stack vm) = length (stack vm') + 1"
  using assms
  by (auto simp: op_pop_def op_set_local_pop_def op_add_def op_subtract_def op_multiply_def op_divide_def
      op_int_divide_def op_modulo_def op_equal_def op_not_equal_def op_less_def op_less_equal_def op_greater_def
      op_greater_equal_def op_and_def op_or_def op_concatenate_def and_then_Inr Let_def
      split: if_splits dest!: depth_simps)

end
