(* ===== verification/VM_Control.thy ===== *)
theory VM_Control
  imports VM_Dispatch
begin

text \<open>
  Control flow of the virtual machine: the exception-handler stack
  (\<^verbatim>\<open>vm_exception_manager.cpp\<close>), returning, calling, tail calls, closures and upvalues, loops
  and null-coalescing jumps (\<^verbatim>\<open>vm_dispatch_control_flow.cpp\<close>, \<^verbatim>\<open>vm_helpers.cpp\<close>,
  \<^verbatim>\<open>vm_dispatch_table.cpp\<close>), exception dispatch (\<^verbatim>\<open>handle_exception\<close>,
  \<^verbatim>\<open>handle_cancellation\<close>, \<^verbatim>\<open>is_cleanup_handler\<close>) and one turn of the loop in
  \<^verbatim>\<open>VM::run\<close> with its catch clauses.  Debugger hooks are taken as absent.
\<close>

section \<open>Messages\<close>

definition null_coalesce_jump_beyond_bounds :: string where
  "null_coalesce_jump_beyond_bounds = ''NullCoalesce jump target beyond bytecode bounds''"

definition try_end_without_try_catch :: string where
  "try_end_without_try_catch = ''TryEnd without matching TryCatch''"

definition loop_target_before_start :: string where
  "loop_target_before_start = ''loop target before bytecode start''"

definition try_catch_beyond_end :: string where
  "try_catch_beyond_end = ''TryCatch: catch offset points beyond bytecode end''"

definition too_many_exception_handlers :: string where
  "too_many_exception_handlers = ''too many nested exception handlers''"

definition invalid_upvalue_index :: "nat \<Rightarrow> string" where
  "invalid_upvalue_index index = ''invalid upvalue index '' @ show_nat index"

definition invalid_function_index :: "u16 \<Rightarrow> string" where
  "invalid_function_index index = ''invalid function index '' @ show_nat (unat index)"

definition loop_exceeded_max_iterations :: "nat \<Rightarrow> string" where
  "loop_exceeded_max_iterations m = ''loop exceeded maximum iteration count ('' @ show_nat m @ '')''"

definition loop_exceeded_total_iterations :: "nat \<Rightarrow> string" where
  "loop_exceeded_total_iterations m = ''loops exceeded the total iteration budget ('' @ show_nat m @ '')''"

definition hint_raise_total_loop_budget :: string where
  "hint_raise_total_loop_budget =
     ''raise LUMA_LIMIT_MAX_TOTAL_LOOP_ITERATIONS if this many loop iterations are intended''"

definition task_cancelled :: string where "task_cancelled = ''task cancelled''"

definition missing_required_arguments :: "int \<Rightarrow> int \<Rightarrow> string" where
  "missing_required_arguments required got =
     ''too few arguments: function requires at least '' @ show_int required @ '' but got '' @ show_int got"

definition too_many_arguments :: "int \<Rightarrow> int \<Rightarrow> string" where
  "too_many_arguments expected got =
     ''too many arguments: function expects '' @ show_int expected @ '' but got '' @ show_int got"

definition cannot_call :: "string \<Rightarrow> string" where
  "cannot_call type = ''cannot call '' @ quoted type"

definition call_stack_overflow_recursion :: "int \<Rightarrow> string" where
  "call_stack_overflow_recursion limit =
     ''call stack overflow: maximum recursion depth ('' @ show_int limit @ '') exceeded''"

definition hint_check_recursion :: string where
  "hint_check_recursion = ''check for infinite recursion in your function calls''"

section \<open>The exception-handler stack\<close>

definition k_max_depth :: nat where "k_max_depth = 256"

definition push_handler :: "vm \<Rightarrow> exception_handler \<Rightarrow> vm_throw + vm" where
  "push_handler vm handler =
     (if k_max_depth \<le> length (handlers vm)
      then Inl (Runtime_Error too_many_exception_handlers default_location [] None, vm)
      else Inr (vm\<lparr>handlers := handlers vm @ [handler]\<rparr>))"

definition require_non_empty :: "vm \<Rightarrow> string \<Rightarrow> vm_throw" where
  "require_non_empty vm context =
     (Runtime_Error (context @ '': exception handler stack is empty'') default_location [] None, vm)"

definition pop_handler :: "vm \<Rightarrow> vm_throw + exception_handler \<times> vm" where
  "pop_handler vm =
     (if handlers vm = [] then Inl (require_non_empty vm ''pop_handler'')
      else Inr (last (handlers vm), vm\<lparr>handlers := butlast (handlers vm)\<rparr>))"

definition pop_handler_discard :: "vm \<Rightarrow> vm_throw + vm" where
  "pop_handler_discard vm =
     (if handlers vm = [] then Inl (require_non_empty vm ''pop_handler_discard'')
      else Inr (vm\<lparr>handlers := butlast (handlers vm)\<rparr>))"

definition has_handler_for :: "vm \<Rightarrow> nat \<Rightarrow> bool" where
  "has_handler_for vm base = (handlers vm \<noteq> [] \<and> base \<le> eh_frame_index (last (handlers vm)))"

text \<open>Popping the entries at the end that satisfy a condition.\<close>

definition drop_last_while :: "('a \<Rightarrow> bool) \<Rightarrow> 'a list \<Rightarrow> 'a list" where
  "drop_last_while P xs = rev (dropWhile P (rev xs))"

definition discard_frames_from :: "vm \<Rightarrow> nat \<Rightarrow> vm" where
  "discard_frames_from vm frame_count =
     vm\<lparr>handlers := drop_last_while (\<lambda>h. frame_count \<le> eh_frame_index h) (handlers vm),
        shields := drop_last_while (\<lambda>s. frame_count \<le> sh_frame_index s) (shields vm)\<rparr>"

definition push_cancel_shield :: "vm \<Rightarrow> nat \<Rightarrow> nat \<Rightarrow> vm" where
  "push_cancel_shield vm frame_index stack_depth =
     vm\<lparr>shields := shields vm @ [\<lparr>sh_frame_index = frame_index, sh_stack_depth = stack_depth\<rparr>]\<rparr>"

definition end_cancel_shields_from :: "vm \<Rightarrow> nat \<Rightarrow> nat \<Rightarrow> vm" where
  "end_cancel_shields_from vm frame_index stack_depth =
     vm\<lparr>shields := drop_last_while
          (\<lambda>s. frame_index < sh_frame_index s \<or>
               sh_frame_index s = frame_index \<and> stack_depth \<le> sh_stack_depth s) (shields vm)\<rparr>"

definition is_cancel_shielded :: "vm \<Rightarrow> bool" where
  "is_cancel_shielded vm = (shields vm \<noteq> [])"

definition check_cancellation :: "vm_env \<Rightarrow> vm \<Rightarrow> vm_throw + unit" where
  "check_cancellation env vm =
     (if env_self_cancelled env \<and> \<not> is_cancel_shielded vm then Inl (Cancelled_Error task_cancelled, vm)
      else Inr ())"

section \<open>Returning\<close>

definition complete_return :: "vm \<Rightarrow> val \<Rightarrow> nat \<Rightarrow> vm_throw + vm" where
  "complete_return vm result callee_slot_offset =
     (let vm = vm\<lparr>frames := butlast (frames vm)\<rparr>;
          vm = vm\<lparr>stack := truncate_to (stack vm) callee_slot_offset\<rparr>;
          vm = discard_frames_from vm (length (frames vm))
      in if length (frames vm) \<le> base_depth vm
         then Inr (vm\<lparr>dispatch_return_value := Some result\<rparr>)
         else push vm result)"

definition op_return :: "vm \<Rightarrow> vm_throw + vm" where
  "op_return vm =
     and_then (pop vm) (\<lambda>(result, vm). complete_return vm result (fr_slot_offset (last (frames vm))))"

definition op_get_local_return :: "vm \<Rightarrow> vm_throw + vm" where
  "op_get_local_return vm =
     and_then (vm_read_u16 vm) (\<lambda>(slot, vm).
       and_then (get_local_slot vm (last (frames vm)) slot) (\<lambda>index.
         complete_return vm (stack vm ! index) (fr_slot_offset (last (frames vm)))))"

definition op_end_module :: "vm \<Rightarrow> vm_throw + vm" where
  "op_end_module vm = Inr (vm\<lparr>dispatch_return_value := Some VNull\<rparr>)"

section \<open>Loops and null-coalescing\<close>

definition handle_loop :: "vm_env \<Rightarrow> vm \<Rightarrow> vm_throw + vm" where
  "handle_loop env vm =
     and_then (vm_read_u32 vm) (\<lambda>(offset, vm).
       let ip = fr_ip (last (frames vm))
       in if ip < unat offset then Inl (runtime_error vm loop_target_before_start [])
          else let vm = set_ip vm (ip - unat offset)
          in and_then (check_cancellation env vm) (\<lambda>_.
            let vm = vm\<lparr>loop_iterations := loop_iterations vm + 1\<rparr>
            in if max_while_iterations env < loop_iterations vm
               then Inl (runtime_error (vm\<lparr>loop_iterations := 0\<rparr>)
                      (loop_exceeded_max_iterations (max_while_iterations env)) [])
               else let vm = vm\<lparr>total_loop_iterations := total_loop_iterations vm + 1\<rparr>
               in if max_total_loop_iterations env < total_loop_iterations vm
                  then Inl (runtime_error vm
                         (loop_exceeded_total_iterations (max_total_loop_iterations env))
                         hint_raise_total_loop_budget)
                  else Inr vm))"

definition coalesce_jump :: "vm \<Rightarrow> u32 \<Rightarrow> vm_throw + vm" where
  "coalesce_jump vm offset =
     (let frame = last (frames vm); ip = fr_ip frame + unat offset; vm = set_ip vm ip
      in if length (ch_code (cf_chunk (fr_function frame))) < ip
         then Inl (runtime_error vm null_coalesce_jump_beyond_bounds []) else Inr vm)"

definition handle_null_coalesce :: "vm_env \<Rightarrow> vm \<Rightarrow> vm_throw + vm" where
  "handle_null_coalesce env vm =
     and_then (vm_read_u32 vm) (\<lambda>(offset, vm).
       and_then (peek vm 0) (\<lambda>v.
         case v of
           VObject VT_Result i \<Rightarrow>
             (let (is_success, inner) = env_result_parts env i
              in if is_success then coalesce_jump (set_top vm inner) offset else Inr vm)
         | VNull \<Rightarrow> Inr vm
         | _ \<Rightarrow> coalesce_jump vm offset))"

section \<open>Calls\<close>

definition effective_max_call_depth :: "vm_env \<Rightarrow> nat" where
  "effective_max_call_depth env = min (nat (max (max_call_depth env) 0)) 256"

definition validate_call_depth :: "vm_env \<Rightarrow> vm \<Rightarrow> vm_throw + unit" where
  "validate_call_depth env vm =
     (let limit = effective_max_call_depth env
      in if limit \<le> length (frames vm)
         then Inl (runtime_error vm (call_stack_overflow_recursion (int limit)) hint_check_recursion)
         else Inr ())"

definition call_frame_base_slot :: "vm \<Rightarrow> nat \<Rightarrow> nat" where
  "call_frame_base_slot vm arg_count = length (stack vm) - arg_count - 1"

text \<open>The loop that pads missing optional parameters.\<close>

fun push_nones :: "vm \<Rightarrow> nat \<Rightarrow> vm_throw + vm" where
  "push_nones vm 0 = Inr vm"
| "push_nones vm (Suc n) = and_then (push vm VNull) (\<lambda>vm. push_nones vm n)"

fun pop_n :: "vm \<Rightarrow> nat \<Rightarrow> vm_throw + vm" where
  "pop_n vm 0 = Inr vm"
| "pop_n vm (Suc n) = and_then (pop vm) (\<lambda>(_, vm). pop_n vm n)"

text \<open>\<^verbatim>\<open>pop_sequence\<close> fills its result from the back.\<close>

fun pop_sequence :: "vm \<Rightarrow> nat \<Rightarrow> vm_throw + val list \<times> vm" where
  "pop_sequence vm 0 = Inr ([], vm)"
| "pop_sequence vm (Suc n) =
     and_then (pop vm) (\<lambda>(v, vm). and_then (pop_sequence vm n) (\<lambda>(vs, vm). Inr (vs @ [v], vm)))"

text \<open>The argument checks shared by \<^verbatim>\<open>call_function\<close> and \<^verbatim>\<open>handle_tail_call\<close>: the padded machine.\<close>

definition bind_arguments :: "vm \<Rightarrow> compiled_function \<Rightarrow> nat \<Rightarrow> vm_throw + vm" where
  "bind_arguments vm f arg_count =
     (if int arg_count < cf_required_arity f
      then Inl (runtime_error vm (missing_required_arguments (cf_required_arity f) (int arg_count)) [])
      else and_then (push_nones vm (nat (cf_arity f) - arg_count)) (\<lambda>vm.
        let arg_count = (if int arg_count < cf_arity f then cf_arity f else int arg_count)
        in if arg_count \<noteq> cf_arity f
           then Inl (runtime_error vm (too_many_arguments (cf_arity f) arg_count) []) else Inr vm))"

definition function_object :: "val \<Rightarrow> nat option" where
  "function_object v = (case v of VObject VT_Function i \<Rightarrow> Some i | _ \<Rightarrow> None)"

definition call_function :: "vm_env \<Rightarrow> vm \<Rightarrow> function_value \<Rightarrow> nat \<Rightarrow> vm_throw + vm" where
  "call_function env vm func arg_count =
     (case fv_compiled func of
        Some f \<Rightarrow>
          and_then (validate_call_depth env vm) (\<lambda>_. and_then (check_cancellation env vm) (\<lambda>_.
            and_then (bind_arguments vm f arg_count) (\<lambda>vm.
              let base_slot = call_frame_base_slot vm (nat (cf_arity f));
                  frame = \<lparr>fr_function = f, fr_ip = 0, fr_slot_offset = base_slot,
                    fr_closure = function_object (stack vm ! base_slot)\<rparr>
              in Inr (vm\<lparr>frames := frames vm @ [frame]\<rparr>))))
      | None \<Rightarrow>
          and_then (pop_n vm arg_count) (\<lambda>vm. and_then (pop vm) (\<lambda>(_, vm). push vm VNull)))"

definition call_native :: "vm_env \<Rightarrow> vm \<Rightarrow> nat \<Rightarrow> nat \<Rightarrow> vm_throw + vm" where
  "call_native env vm i arg_count =
     and_then (pop_sequence vm arg_count) (\<lambda>(args, vm). and_then (pop vm) (\<lambda>(_, vm).
       case env_native env i args (current_location vm) of
         Inl e \<Rightarrow> Inl (e, vm)
       | Inr result \<Rightarrow> push vm result))"

definition call_value :: "vm_env \<Rightarrow> vm \<Rightarrow> val \<Rightarrow> nat \<Rightarrow> vm_throw + vm" where
  "call_value env vm callee arg_count =
     (case callee of
        VObject VT_Function i \<Rightarrow> call_function env vm (objects vm ! i) arg_count
      | VObject VT_NativeFunction i \<Rightarrow> call_native env vm i arg_count
      | _ \<Rightarrow> Inl (runtime_error vm (cannot_call (display_type_name env callee)) []))"

definition op_call :: "vm_env \<Rightarrow> vm \<Rightarrow> vm_throw + vm" where
  "op_call env vm =
     and_then (read_byte vm) (\<lambda>(arg_count, vm).
       and_then (peek vm (unat arg_count)) (\<lambda>callee. call_value env vm callee (unat arg_count)))"

text \<open>Moving the arguments down over the slots of the frame, in ascending order.\<close>

fun move_down :: "val list \<Rightarrow> nat \<Rightarrow> nat \<Rightarrow> nat \<Rightarrow> val list" where
  "move_down st dest src 0 = st"
| "move_down st dest src (Suc n) = move_down (st[dest := st ! src]) (dest + 1) (src + 1) n"

definition tail_call_frame :: "vm \<Rightarrow> val \<Rightarrow> compiled_function \<Rightarrow> vm" where
  "tail_call_frame vm callee f =
     (let cf = last (frames vm); base = fr_slot_offset cf; count = nat (cf_arity f);
          src_base = length (stack vm) - count;
          moved = move_down ((stack vm)[base := callee]) (base + 1) src_base count;
          vm = vm\<lparr>stack := truncate_to moved (base + 1 + count)\<rparr>;
          vm = discard_frames_from vm (length (frames vm) - 1);
          cf = cf\<lparr>fr_function := f, fr_ip := 0, fr_closure := function_object callee\<rparr>
      in vm\<lparr>frames := butlast (frames vm) @ [cf]\<rparr>)"

definition handle_tail_call :: "vm_env \<Rightarrow> vm \<Rightarrow> vm_throw + vm" where
  "handle_tail_call env vm =
     and_then (read_byte vm) (\<lambda>(arg_count, vm).
       and_then (peek vm (unat arg_count)) (\<lambda>callee.
         case callee of
           VObject VT_Function i \<Rightarrow>
             (case fv_compiled (objects vm ! i) of
                Some f \<Rightarrow>
                  and_then (check_cancellation env vm) (\<lambda>_.
                    and_then (bind_arguments vm f (unat arg_count)) (\<lambda>vm.
                      Inr (tail_call_frame vm callee f)))
              | None \<Rightarrow> call_value env vm callee (unat arg_count))
         | _ \<Rightarrow> call_value env vm callee (unat arg_count)))"

definition handle_pipe :: "vm_env \<Rightarrow> vm \<Rightarrow> vm_throw + vm" where
  "handle_pipe env vm =
     and_then (pop vm) (\<lambda>(callee, vm). and_then (pop vm) (\<lambda>(v, vm).
       and_then (push vm callee) (\<lambda>vm. and_then (push vm v) (\<lambda>vm.
         and_then (peek vm 1) (\<lambda>callee. call_value env vm callee 1)))))"

definition handle_error_pipe :: "vm_env \<Rightarrow> vm \<Rightarrow> vm_throw + vm" where
  "handle_error_pipe env vm =
     and_then (pop vm) (\<lambda>(callee, vm). and_then (pop vm) (\<lambda>(v, vm).
       let call = (\<lambda>v. and_then (push vm callee) (\<lambda>vm. and_then (push vm v) (\<lambda>vm.
                         and_then (peek vm 1) (\<lambda>callee. call_value env vm callee 1))))
       in case v of
            VObject VT_Result i \<Rightarrow>
              (let (is_success, inner) = env_result_parts env i
               in if is_success then call inner else push vm v)
          | _ \<Rightarrow> call v))"

section \<open>Closures and upvalues\<close>

text \<open>The closure of a frame, when it has one.\<close>

definition frame_closure :: "vm \<Rightarrow> call_frame \<Rightarrow> function_value option" where
  "frame_closure vm cf = map_option (\<lambda>i. objects vm ! i) (fr_closure cf)"

definition validate_upvalue_index :: "vm \<Rightarrow> call_frame \<Rightarrow> nat \<Rightarrow> vm_throw + function_value" where
  "validate_upvalue_index vm cf index =
     (case frame_closure vm cf of
        None \<Rightarrow> Inl (runtime_error vm (invalid_upvalue_index index) k_internal_error_message)
      | Some closure \<Rightarrow>
          if length (fv_upvalues closure) \<le> index
          then Inl (runtime_error vm (invalid_upvalue_index index) k_internal_error_message)
          else Inr closure)"

definition get_upvalue_cell :: "function_value \<Rightarrow> nat \<Rightarrow> nat option" where
  "get_upvalue_cell closure index =
     (if index < length (fv_cells closure) then fv_cells closure ! index else None)"

definition handle_get_upvalue :: "vm \<Rightarrow> vm_throw + vm" where
  "handle_get_upvalue vm =
     and_then (vm_read_u16 vm) (\<lambda>(index, vm).
       and_then (validate_upvalue_index vm (last (frames vm)) (unat index)) (\<lambda>closure.
         case get_upvalue_cell closure (unat index) of
           Some cell \<Rightarrow> push vm (cells vm ! cell)
         | None \<Rightarrow> push vm (fv_upvalues closure ! unat index)))"

definition handle_set_upvalue :: "vm \<Rightarrow> vm_throw + vm" where
  "handle_set_upvalue vm =
     and_then (vm_read_u16 vm) (\<lambda>(index, vm).
       and_then (validate_upvalue_index vm (last (frames vm)) (unat index)) (\<lambda>closure.
         and_then (peek vm 0) (\<lambda>v.
           case get_upvalue_cell closure (unat index) of
             Some cell \<Rightarrow> Inr (vm\<lparr>cells := (cells vm)[cell := v]\<rparr>)
           | None \<Rightarrow>
               (case fr_closure (last (frames vm)) of
                  None \<Rightarrow> Inr vm
                | Some i \<Rightarrow> Inr (vm\<lparr>objects := (objects vm)[i :=
                    closure\<lparr>fv_upvalues := (fv_upvalues closure)[unat index := v]\<rparr>]\<rparr>)))))"

text \<open>One captured variable: the closure under construction and the machine, which gains a cell.\<close>

definition forward_upvalue ::
    "vm \<Rightarrow> function_value \<Rightarrow> nat \<Rightarrow> upvalue \<Rightarrow> call_frame \<Rightarrow> vm_throw + function_value \<times> vm" where
  "forward_upvalue vm target index desc cf =
     (if uv_is_local desc then
        let slot = frame_slot_index cf (unat (uv_index desc))
        in if length (stack vm) \<le> slot
           then Inl (runtime_error vm (invalid_upvalue_index (unat (uv_index desc))) k_internal_error_message)
           else if uv_is_mutable desc
           then Inr (target\<lparr>fv_cells := (fv_cells target)[index := Some (length (cells vm))]\<rparr>,
                     vm\<lparr>cells := cells vm @ [stack vm ! slot]\<rparr>)
           else Inr (target\<lparr>fv_upvalues := (fv_upvalues target)[index := stack vm ! slot]\<rparr>, vm)
      else
        and_then (validate_upvalue_index vm cf (unat (uv_index desc))) (\<lambda>closure.
          case (if uv_is_mutable desc then get_upvalue_cell closure (unat (uv_index desc)) else None) of
            Some cell \<Rightarrow> Inr (target\<lparr>fv_cells := (fv_cells target)[index := Some cell]\<rparr>, vm)
          | None \<Rightarrow>
              Inr (target\<lparr>fv_upvalues := (fv_upvalues target)[index :=
                     fv_upvalues closure ! unat (uv_index desc)]\<rparr>, vm)))"

fun forward_upvalues ::
    "vm \<Rightarrow> function_value \<Rightarrow> nat \<Rightarrow> upvalue list \<Rightarrow> call_frame \<Rightarrow> vm_throw + function_value \<times> vm" where
  "forward_upvalues vm target index [] cf = Inr (target, vm)"
| "forward_upvalues vm target index (desc # descs) cf =
     and_then (forward_upvalue vm target index desc cf) (\<lambda>(target, vm).
       forward_upvalues vm target (index + 1) descs cf)"

definition handle_make_closure :: "vm_env \<Rightarrow> vm \<Rightarrow> vm_throw + vm" where
  "handle_make_closure env vm =
     and_then (vm_read_u16 vm) (\<lambda>(func_idx, vm). and_then (read_byte vm) (\<lambda>(_, vm).
       let cf = last (frames vm);
           table = (case frame_closure vm cf of
                      Some closure \<Rightarrow> (if fv_table closure \<noteq> None then fv_table closure else env_functions env)
                    | None \<Rightarrow> env_functions env)
       in case table of
            None \<Rightarrow> Inl (runtime_error vm (invalid_function_index func_idx) [])
          | Some fs \<Rightarrow>
              if length fs \<le> unat func_idx
              then Inl (runtime_error vm (invalid_function_index func_idx) [])
              else let compiled = fs ! unat func_idx; n = length (cf_upvalues compiled);
                       func_val = \<lparr>fv_name = cf_name compiled, fv_compiled = Some compiled,
                         fv_upvalues = replicate n VNull, fv_cells = replicate n None, fv_table = Some fs\<rparr>
                   in and_then (forward_upvalues vm func_val 0 (cf_upvalues compiled) cf)
                        (\<lambda>(func_val, vm).
                          push (vm\<lparr>objects := objects vm @ [func_val]\<rparr>)
                            (VObject VT_Function (length (objects vm))))))"

section \<open>Exception dispatch\<close>

definition handle_try_catch :: "vm \<Rightarrow> vm_throw + vm" where
  "handle_try_catch vm =
     and_then (vm_read_u32 vm) (\<lambda>(catch_offset, vm).
       let frame = last (frames vm); target_ip = fr_ip frame + unat catch_offset
       in if length (ch_code (cf_chunk (fr_function frame))) < target_ip
          then Inl (runtime_error vm try_catch_beyond_end [])
          else push_handler vm \<lparr>eh_catch_ip = target_ip, eh_frame_index = length (frames vm) - 1,
                 eh_stack_depth = length (stack vm), eh_task_scope_depth = task_scopes vm\<rparr>)"

definition op_try_end :: "vm \<Rightarrow> vm_throw + vm" where
  "op_try_end vm =
     (if handlers vm = [] then Inl (runtime_error vm try_end_without_try_catch [])
      else pop_handler_discard vm)"

definition cancellation_marker :: val where "cancellation_marker = VNull"

definition is_cancellation_marker :: "val \<Rightarrow> bool" where
  "is_cancellation_marker v = (v = VNull)"

text \<open>\<^verbatim>\<open>op_rethrow\<close> always throws.\<close>

definition op_rethrow :: "vm_env \<Rightarrow> vm \<Rightarrow> vm_throw + vm" where
  "op_rethrow env vm =
     and_then (pop vm) (\<lambda>(error_value, vm).
       let vm = end_cancel_shields_from vm (length (frames vm) - 1) (length (stack vm))
       in if is_cancellation_marker error_value then Inl (Cancelled_Error task_cancelled, vm)
          else Inl (runtime_error vm (to_string env error_value) []))"

text \<open>
  \<^verbatim>\<open>is_cleanup_handler\<close>: a walk over the handler's code with a work list of (offset, depth,
  previous opcode), the last entry first.
\<close>

definition k_handler_walk_visits_per_byte :: nat where "k_handler_walk_visits_per_byte = 4"

text \<open>The entries one visit pushes, in push order.\<close>

definition handler_successors :: "byte list \<Rightarrow> nat \<Rightarrow> int \<Rightarrow> op \<Rightarrow> (nat \<times> int \<times> op) list" where
  "handler_successors code offset depth previous =
     (let op = code ! offset; effect = instruction_stack_effect code offset;
          after = depth - pops effect + pushes effect;
          next = offset + instruction_size code offset
      in if depth - pops effect < 1 then []
         else if op \<in> {Op_Return, Op_GetLocalReturn, Op_TailCall, Op_EndModule} then []
         else if op = Op_Jump
         then [(resolve_forward_jump_target offset (jump_operand code offset), after, Op_Jump)]
         else if op = Op_Loop
         then (if jump_operand code offset \<le> next
               then [(resolve_loop_jump_target offset (jump_operand code offset), after, Op_Jump)] else [])
         else if op \<in> {Op_JumpIfFalse, Op_JumpIfTrue, Op_NullCoalesce}
         then let missing = (if op = Op_JumpIfFalse then values_missing_when_exhausted previous else 0)
              in [(next, after, op),
                  (resolve_forward_jump_target offset (jump_operand code offset), after - missing, Op_Jump)]
         else [(next, after, op)])"

function handler_walk ::
    "byte list \<Rightarrow> nat \<Rightarrow> nat \<Rightarrow> int list \<Rightarrow> (nat \<times> int \<times> op) list \<Rightarrow> bool" where
  "handler_walk code step_budget steps visited_depth pending =
     (if pending = [] then False
      else let (offset, depth, previous) = last pending; pending = butlast pending
      in if depth < 1 \<or> length code \<le> offset \<or> visited_depth ! offset = depth
         then handler_walk code step_budget steps visited_depth pending
         else if Op_EndModule < code ! offset \<or> length code < offset + instruction_size code offset
         then handler_walk code step_budget steps visited_depth pending
         else if step_budget < steps + 1 then False
         else if code ! offset = Op_Rethrow
         then (if depth = 1 then True
               else handler_walk code step_budget (steps + 1) (visited_depth[offset := depth]) pending)
         else handler_walk code step_budget (steps + 1) (visited_depth[offset := depth])
                (pending @ handler_successors code offset depth previous))"
  by pat_completeness auto
termination
  by (relation "measures [\<lambda>(code, budget, steps, visited, pending). budget - steps,
        \<lambda>(code, budget, steps, visited, pending). length pending]")
    (auto simp: length_butlast split: if_splits simp flip: length_greater_0_conv)

declare handler_walk.simps [simp del]

definition is_cleanup_handler :: "byte list \<Rightarrow> nat \<Rightarrow> bool" where
  "is_cleanup_handler code catch_offset =
     handler_walk code (length code * k_handler_walk_visits_per_byte + 1) 0 (replicate (length code) (- 1))
       [(catch_offset, 1, Op_Jump)]"

definition is_cleanup :: "vm \<Rightarrow> exception_handler \<Rightarrow> bool" where
  "is_cleanup vm handler =
     is_cleanup_handler (ch_code (cf_chunk (fr_function (frames vm ! eh_frame_index handler))))
       (eh_catch_ip handler)"

definition is_valid_handler :: "vm \<Rightarrow> exception_handler \<Rightarrow> bool" where
  "is_valid_handler vm handler \<longleftrightarrow>
     \<not> (length (frames vm) \<le> eh_frame_index handler \<or> length (stack vm) < eh_stack_depth handler \<or>
        task_scopes vm < eh_task_scope_depth handler) \<and>
     eh_catch_ip handler \<le> length (ch_code (cf_chunk (fr_function (frames vm ! eh_frame_index handler))))"

definition unwind_task_scopes_to :: "vm \<Rightarrow> nat \<Rightarrow> vm" where
  "unwind_task_scopes_to vm depth = vm\<lparr>task_scopes := min (task_scopes vm) depth\<rparr>"

definition resume_at_handler :: "vm \<Rightarrow> exception_handler \<Rightarrow> val \<Rightarrow> vm_throw + vm" where
  "resume_at_handler vm handler error_value =
     (let vm = unwind_task_scopes_to vm (eh_task_scope_depth handler);
          vm = vm\<lparr>frames := take (eh_frame_index handler + 1) (frames vm)\<rparr>;
          vm = end_cancel_shields_from vm (eh_frame_index handler) (eh_stack_depth handler);
          vm = vm\<lparr>stack := truncate_to (stack vm) (eh_stack_depth handler)\<rparr>
      in and_then (push vm error_value) (\<lambda>vm. Inr (set_ip vm (eh_catch_ip handler))))"

text \<open>
  The result of exception dispatch: the machine resumed at a handler, or the machine in which the caller
  re-raises (\<^verbatim>\<open>return false\<close>).  An error raised while dispatching replaces the original.
\<close>

datatype dispatch_outcome = Resumed vm | Not_Handled vm | Raised_Again vm_throw

definition handle_exception :: "vm_env \<Rightarrow> vm \<Rightarrow> string \<Rightarrow> val option \<Rightarrow> dispatch_outcome" where
  "handle_exception env vm message error_value =
     (if \<not> has_handler_for vm (base_depth vm) then Not_Handled vm
      else let handler = last (handlers vm); vm = vm\<lparr>handlers := butlast (handlers vm)\<rparr>
      in if \<not> is_valid_handler vm handler then Not_Handled vm
         else case resume_at_handler vm handler
                     (case error_value of
                        Some (VString s) \<Rightarrow> VString s
                      | Some v \<Rightarrow> VString (to_string env v)
                      | None \<Rightarrow> VString message) of
                Inl t \<Rightarrow> Raised_Again t
              | Inr vm \<Rightarrow>
                  Resumed (if env_self_cancelled env \<and> is_cleanup vm handler
                           then push_cancel_shield vm (eh_frame_index handler) (eh_stack_depth handler)
                           else vm))"

text \<open>The search loop of \<^verbatim>\<open>handle_cancellation\<close>: the target and whether it is a cleanup handler.\<close>

function find_cancel_target :: "vm_env \<Rightarrow> vm \<Rightarrow> (exception_handler \<times> bool) option \<times> vm" where
  "find_cancel_target env vm =
     (if has_handler_for vm (base_depth vm) then
        let handler = last (handlers vm); vm' = vm\<lparr>handlers := butlast (handlers vm)\<rparr>
        in if \<not> is_valid_handler vm' handler then (None, vm')
           else if is_cleanup vm' handler \<or> \<not> env_self_cancelled env
           then (Some (handler, is_cleanup vm' handler), vm')
           else find_cancel_target env vm'
      else (None, vm))"
  by pat_completeness auto
termination
  by (relation "measure (\<lambda>(env, vm). length (handlers vm))")
    (auto simp: has_handler_for_def simp flip: length_greater_0_conv)

declare find_cancel_target.simps [simp del]

definition handle_cancellation :: "vm_env \<Rightarrow> vm \<Rightarrow> string \<Rightarrow> dispatch_outcome" where
  "handle_cancellation env vm message =
     (case find_cancel_target env vm of
        (None, vm) \<Rightarrow> Not_Handled vm
      | (Some (target, cleanup), vm) \<Rightarrow>
          case resume_at_handler vm target (if cleanup then cancellation_marker else VString message) of
            Inl t \<Rightarrow> Raised_Again t
          | Inr vm \<Rightarrow>
              Resumed (if cleanup \<and> env_self_cancelled env
                       then push_cancel_shield vm (eh_frame_index target) (eh_stack_depth target) else vm))"

section \<open>One turn of the dispatch loop\<close>

definition control_handler :: "vm_env \<Rightarrow> op \<Rightarrow> (vm \<Rightarrow> vm_throw + vm) option" where
  "control_handler env op =
     map_of [(Op_Return, op_return), (Op_GetLocalReturn, op_get_local_return), (Op_EndModule, op_end_module),
       (Op_Loop, handle_loop env), (Op_NullCoalesce, handle_null_coalesce env), (Op_Call, op_call env),
       (Op_TailCall, handle_tail_call env), (Op_Pipe, handle_pipe env), (Op_ErrorPipe, handle_error_pipe env),
       (Op_MakeClosure, handle_make_closure env), (Op_GetUpvalue, handle_get_upvalue),
       (Op_SetUpvalue, handle_set_upvalue), (Op_TryCatch, handle_try_catch), (Op_TryEnd, op_try_end),
       (Op_Rethrow, op_rethrow env)] op"

definition handler_of :: "vm_env \<Rightarrow> op \<Rightarrow> (vm \<Rightarrow> vm_throw + vm) option" where
  "handler_of env op =
     (case modelled_handler env op of Some h \<Rightarrow> Some h | None \<Rightarrow> control_handler env op)"

fun error_message :: "vm_error \<Rightarrow> string" where
  "error_message (Runtime_Error m _ _ _) = m"
| "error_message (Stack_Error m) = m"
| "error_message (Bytecode_Error m) = m"
| "error_message (Cancelled_Error m) = m"

fun error_payload :: "vm_error \<Rightarrow> val option" where
  "error_payload (Runtime_Error _ _ _ payload) = payload"
| "error_payload (Stack_Error _) = None"
| "error_payload (Bytecode_Error _) = None"
| "error_payload (Cancelled_Error _) = None"

text \<open>The three overloads of \<^verbatim>\<open>handle_exception\<close>: a cancellation, a runtime error with the
  payload it carries, any other error without one.\<close>

definition dispatch_exception :: "vm_env \<Rightarrow> vm_throw \<Rightarrow> dispatch_outcome" where
  "dispatch_exception env t =
     (case t of
        (Cancelled_Error m, vm) \<Rightarrow> handle_cancellation env vm m
      | (e, vm) \<Rightarrow> handle_exception env vm (error_message e) (error_payload e))"

text \<open>
  The outcome of a turn: go on, return from \<^verbatim>\<open>run\<close> with a value, or leave it with an
  exception, which first retires the task scopes opened since \<^verbatim>\<open>scope_base\<close>.
  \<^verbatim>\<open>Unmodelled\<close> is an opcode without a handler here.
\<close>

datatype turn = Continue vm | Finished val vm | Thrown vm_error vm | Unmodelled

definition finish_turn :: "vm \<Rightarrow> turn" where
  "finish_turn vm =
     (case dispatch_return_value vm of
        Some result \<Rightarrow> Finished result (vm\<lparr>dispatch_return_value := None\<rparr>)
      | None \<Rightarrow> Continue vm)"

definition catch_turn :: "vm_env \<Rightarrow> nat \<Rightarrow> vm_throw \<Rightarrow> turn" where
  "catch_turn env scope_base t =
     (case dispatch_exception env t of
        Resumed vm \<Rightarrow> Continue vm
      | Not_Handled vm \<Rightarrow> Thrown (fst t) (unwind_task_scopes_to vm scope_base)
      | Raised_Again (e, vm) \<Rightarrow> Thrown e vm)"

definition run_turn :: "vm_env \<Rightarrow> nat \<Rightarrow> vm \<Rightarrow> turn" where
  "run_turn env scope_base vm =
     (let frame = last (frames vm); code = ch_code (cf_chunk (fr_function frame))
      in case ensure_bytecode_available vm frame 1 of
           Inl t \<Rightarrow> catch_turn env scope_base t
         | Inr _ \<Rightarrow>
             (case handler_of env (code ! fr_ip frame) of
                None \<Rightarrow> Unmodelled
              | Some h \<Rightarrow>
                  (case h (set_ip vm (fr_ip frame + 1)) of
                     Inl t \<Rightarrow> catch_turn env scope_base t
                   | Inr vm \<Rightarrow> finish_turn vm)))"

end
