(* ===== verification/VM_Props.thy ===== *)
theory VM_Props
  imports VM_Dispatch
begin

text \<open>
  What the modelled handlers compute: exact integer arithmetic, floor division and truncated remainder,
  string repetition and the errors.
\<close>

section \<open>Lemmas: integers\<close>

lemma word_of_int_sint_ops:
  "word_of_int (sint (a :: u64) + sint b) = a + b" "word_of_int (sint a - sint b) = a - b"
  "word_of_int (sint a * sint b) = a * b" "word_of_int (- sint a) = - a"
  by simp_all

lemma checked_integer_op_eq:
  "checked_integer_op Op_Add a b =
     (if int64 (sint a + sint b) then Some (word_of_int (sint a + sint b)) else None)"
  "checked_integer_op Op_Subtract a b =
     (if int64 (sint a - sint b) then Some (word_of_int (sint a - sint b)) else None)"
  "checked_integer_op Op_Multiply a b =
     (if int64 (sint a * sint b) then Some (word_of_int (sint a * sint b)) else None)"
  by (simp_all add: checked_integer_op_def would_overflow_add_iff would_overflow_sub_iff would_overflow_mul_iff)

lemma sint_eq_0 [simp]: "sint (b :: u64) = 0 \<longleftrightarrow> b = 0"
  using signed_eq_0_iff by blast

section \<open>Lemmas: string repetition\<close>


abbreviation repeated :: "'a list \<Rightarrow> nat \<Rightarrow> 'a list" where
  "repeated text k \<equiv> concat (replicate k text)"

lemma length_repeated [simp]: "length (repeated text k) = length text * k"
  by (induction k) simp_all

lemma repeated_add: "repeated text (j + k) = repeated text j @ repeated text k"
  by (simp add: replicate_add)

lemma take_repeated: "j \<le> k \<Longrightarrow> take (length text * j) (repeated text k) = repeated text j"
  using repeated_add [of j "k - j" "text"] by simp

text \<open>One pass of the loop either doubles the number of copies or completes them.\<close>

lemma repeat_loop_copies:
  assumes "text \<noteq> []" "0 < k" "k \<le> count"
  shows "repeat_loop (length text * count) (repeated text k) = repeated text count"
  using assms(2,3)
proof (induction "count - k" arbitrary: k rule: less_induct)
  case less
  show ?case
  proof (cases "k = count")
    case True
    then show ?thesis by (subst repeat_loop.simps) simp
  next
    case False
    define j where "j = min k (count - k)"
    have j: "0 < j" "j \<le> k" "k + j \<le> count" using False less.prems by (auto simp: j_def)
    have "min (length (repeated text k)) (length text * count - length (repeated text k)) = length text * j"
      by (simp add: j_def flip: diff_mult_distrib2 nat_mult_min_right)
    moreover have "length (repeated text k) < length text * count" "repeated text k \<noteq> []"
      using False less.prems assms(1) by (auto simp: concat_eq_Nil_conv)
    ultimately have "repeat_loop (length text * count) (repeated text k) =
        repeat_loop (length text * count) (repeated text k @ take (length text * j) (repeated text k))"
      by (subst repeat_loop.simps) (simp only: Let_def if_True simp_thms)
    also have "\<dots> = repeat_loop (length text * count) (repeated text (k + j))"
      by (simp only: take_repeated [OF j(2)] repeated_add)
    also have "\<dots> = repeated text count" using j by (intro less.hyps) auto
    finally show ?thesis .
  qed
qed

lemma repeat_string_eq: "repeat_string text count = repeated text count"
  using repeat_loop_copies [of "text" 1 count] by (auto simp: repeat_string_def)

section \<open>A sample environment\<close>

text \<open>Any total functions serve as rounding operations where only integers and strings occur.\<close>

definition sample_env :: vm_env where
  "sample_env = \<lparr>env_fpu = \<lparr>fp_add = (\<lambda>x y. if fp_eq y 0 then x else y), fp_sub = (\<lambda>x y. x),
       fp_mul = (\<lambda>x y. x), fp_div = (\<lambda>x y. x), fp_fmod = (\<lambda>x y. x), fp_of_int = (\<lambda>n. if n = 0 then 0 else fp_one)\<rparr>,
     env_object_name = (\<lambda>_ _. ''object''), env_to_string = (\<lambda>_. ''value''),
     env_object_equals = (\<lambda>_ _ _. False), max_string_size = 268435456, max_string_repeat = 10000000,
     env_self_cancelled = False, env_native = (\<lambda>_ args _. Inr (case args of [] \<Rightarrow> VNull | v # _ \<Rightarrow> v)),
     env_result_parts = (\<lambda>_. (True, VNull)), env_functions = None, max_while_iterations = 10000000,
     max_total_loop_iterations = 100000000, max_call_depth = 1000\<rparr>"

definition sample_vm :: "val list \<Rightarrow> vm" where
  "sample_vm vs = \<lparr>stack = vs, frames = [], handlers = [], shields = [], base_depth = 0,
     dispatch_return_value = None, loop_iterations = 0, total_loop_iterations = 0, task_scopes = 0,
     objects = [], cells = []\<rparr>"

section \<open>The guarantees\<close>

text \<open>C32: Integer addition, subtraction and multiplication of the VM are exact: the mathematical result
  when it fits in 64 bits, otherwise the integer-overflow error, never a wrapped value and never a
  number.\<close>

theorem integer_arithmetic_exact:
  "numeric_binary_op env vm (VInteger a) (VInteger b) Op_Add =
     (if int64 (sint a + sint b) then Inr (VInteger (word_of_int (sint a + sint b)))
      else Inl (runtime_error vm (integer_overflow_in ''addition'') hint_integer_overflow)) \<and>
   numeric_binary_op env vm (VInteger a) (VInteger b) Op_Subtract =
     (if int64 (sint a - sint b) then Inr (VInteger (word_of_int (sint a - sint b)))
      else Inl (runtime_error vm (integer_overflow_in ''subtraction'') hint_integer_overflow)) \<and>
   numeric_binary_op env vm (VInteger a) (VInteger b) Op_Multiply =
     (if int64 (sint a * sint b) then Inr (VInteger (word_of_int (sint a * sint b)))
      else Inl (runtime_error vm (integer_overflow_in ''multiplication'') hint_integer_overflow))"
  by (simp add: numeric_binary_op_def checked_integer_op_eq op_noun_def)

text \<open>C33: Integer division on the VM rounds toward negative infinity and never overflows silently: with
  a non-zero divisor and other than the minimal integer by -1, the top of the stack becomes the integer
  floor quotient.\<close>

theorem int_divide_is_floor_division:
  assumes "stack vm = xs @ [VInteger a, VInteger b]" and "b \<noteq> 0"
    and "\<not> (sint a = int64_min \<and> sint b = -1)"
  shows "\<exists>q. op_int_divide env vm = Inr (vm\<lparr>stack := xs @ [VInteger q]\<rparr>) \<and> sint q = sint a div sint b"
proof -
  have "int64 (sint a div sint b)"
    using assms(2,3) by (intro int64_div) (simp_all add: would_overflow_div_def)
  with assms show ?thesis
    by (auto simp: op_int_divide_def handle_int_divide_def pop_binary_ref_two validate_nonzero_divisor_def
        would_overflow_div_def floor_quotient_eq_div set_top_def)
qed

theorem int_divide_is_floor_division_witness:
  "\<exists>q. op_int_divide sample_env (sample_vm [VInteger (-7), VInteger 2]) = Inr (sample_vm [VInteger q]) \<and>
       sint q = -4"
proof -
  have vals: "sint (-7 :: u64) = -7" "sint (2 :: u64) = 2" by simp_all
  show ?thesis
    using int_divide_is_floor_division [of "sample_vm [VInteger (-7), VInteger 2]" "[]" "-7" 2 sample_env]
    by (simp add: sample_vm_def vals int64_min_def)
qed

text \<open>The integer remainder on the VM is the truncated one: for every non-zero divisor (also for the
  minimal integer by -1) it completes the truncated quotient, is smaller than the divisor in absolute
  value and has the sign of the dividend or is zero.\<close>

theorem modulo_is_truncated_remainder:
  assumes "stack vm = xs @ [VInteger a, VInteger b]" and "b \<noteq> 0"
  shows "\<exists>r. op_modulo env vm = Inr (vm\<lparr>stack := xs @ [VInteger r]\<rparr>) \<and>
             sint r = sint a - (sint a sdiv sint b) * sint b \<and> \<bar>sint r\<bar> < \<bar>sint b\<bar> \<and>
             (sint r \<noteq> 0 \<longrightarrow> sgn (sint r) = sgn (sint a))"
proof -
  have b: "sint b \<noteq> 0" using assms(2) by simp
  note bounds = smod_int_bounds [OF b, of "sint a"]
  have "int64 (sint a smod sint b)"
    using bounds(1) int64_sint [of b] by (auto simp: int64_defs)
  then have r: "sint (word_of_int (sint a smod sint b) :: u64) = sint a smod sint b" by simp
  have zero: "sint a smod sint b = 0" if "would_overflow_div (sint a) (sint b)"
    using bounds(1) that by (simp add: would_overflow_div_def)
  have "op_modulo env vm = Inr (vm\<lparr>stack := xs @ [VInteger (word_of_int (sint a smod sint b))]\<rparr>)"
    using assms zero
    by (auto simp: op_modulo_def handle_modulo_def pop_binary_ref_two both_numeric_def
        validate_nonzero_divisor_def set_top_def)
  with r bounds show ?thesis by (metis smod_int_eq)
qed

theorem modulo_is_truncated_remainder_witness:
  "\<exists>r. op_modulo sample_env (sample_vm [VInteger (-7), VInteger 2]) = Inr (sample_vm [VInteger r]) \<and>
       sint r = -1"
proof -
  have vals: "sint (-7 :: u64) = -7" "sint (2 :: u64) = 2" by simp_all
  show ?thesis
    using modulo_is_truncated_remainder [of "sample_vm [VInteger (-7), VInteger 2]" "[]" "-7" 2 sample_env]
    by (auto simp: sample_vm_def vals signed_divide_int_def)
qed

text \<open>Division of any kind by an integer zero raises the division-by-zero error of its operation and
  never produces a value.\<close>

theorem division_by_zero_raises:
  assumes "stack vm = xs @ [VInteger a, VInteger 0]"
  shows "op_divide env vm = Inl (runtime_error (vm\<lparr>stack := xs @ [VInteger a]\<rparr>)
           ''Division: division by zero'' hint_divisor_not_zero) \<and>
         op_int_divide env vm = Inl (runtime_error (vm\<lparr>stack := xs @ [VInteger a]\<rparr>)
           ''Integer division: division by zero'' hint_divisor_not_zero) \<and>
         op_modulo env vm = Inl (runtime_error (vm\<lparr>stack := xs @ [VInteger a]\<rparr>)
           ''Modulo: division by zero'' hint_divisor_not_zero)"
  using assms
  by (simp add: op_divide_def handle_divide_def op_int_divide_def handle_int_divide_def op_modulo_def
      handle_modulo_def pop_binary_ref_two both_numeric_def validate_nonzero_divisor_def division_by_zero_op_def)

theorem division_by_zero_raises_witness:
  "op_int_divide sample_env (sample_vm [VInteger 1, VInteger 0]) =
     Inl (runtime_error (sample_vm [VInteger 1]) ''Integer division: division by zero'' hint_divisor_not_zero)"
  using division_by_zero_raises [of "sample_vm [VInteger 1, VInteger 0]" "[]" 1 sample_env]
  by (simp add: sample_vm_def)

text \<open>True division never yields an integer, not even for two integers: whatever it leaves on top of
  the stack is a number.\<close>

theorem divide_yields_number:
  assumes "op_divide env vm = Inr vm'"
  shows "\<exists>x. last (stack vm') = VNumber x \<and> length (stack vm) = length (stack vm') + 1"
  using assms division_handlers_depth(1) [of env vm vm']
  by (auto simp: op_divide_def handle_divide_def and_then_Inr Let_def set_top_def split: if_splits)

theorem divide_yields_number_witness:
  "op_divide sample_env (sample_vm [VInteger 7, VInteger 7]) = Inr (sample_vm [VNumber fp_one]) \<and>
   (\<exists>x. last (stack (sample_vm [VNumber fp_one])) = VNumber x)"
proof -
  have run: "op_divide sample_env (sample_vm [VInteger 7, VInteger 7]) = Inr (sample_vm [VNumber fp_one])"
    by (simp add: op_divide_def handle_divide_def sample_vm_def pop_binary_ref_two [where xs = "[]"]
        both_numeric_def validate_nonzero_divisor_def sample_env_def set_top_def)
  from divide_yields_number [OF this] run show ?thesis by blast
qed

text \<open>The doubling loop behind string repetition builds exactly the requested number of copies, so
  \<^verbatim>\<open>s * n\<close> is n copies of s when the limits allow it.\<close>

theorem string_repeat_copies:
  assumes "0 < sint n" and "sint n \<le> max_string_repeat env"
    and "length s * nat (sint n) \<le> max_string_size env"
  shows "repeat_string s (nat (sint n)) = concat (replicate (nat (sint n)) s) \<and>
         try_string_repeat env (VString s) (VInteger n) = Repeated (concat (replicate (nat (sint n)) s)) \<and>
         try_string_repeat env (VInteger n) (VString s) = Repeated (concat (replicate (nat (sint n)) s))"
proof -
  have "s \<noteq> [] \<longrightarrow> nat (sint n) \<le> max_string_size env div length s"
    using assms(3) by (auto simp: less_eq_div_iff_mult_less_eq mult.commute)
  with assms show ?thesis
    by (auto simp: repeat_string_eq try_string_repeat_def)
qed

theorem string_repeat_copies_witness:
  "try_string_repeat sample_env (VString ''ab'') (VInteger 3) = Repeated ''ababab''"
proof -
  have n: "sint (3 :: u64) = 3" by simp
  have limits: "3 \<le> max_string_repeat sample_env" "6 \<le> max_string_size sample_env"
    by (simp_all add: sample_env_def)
  have copies: "replicate 3 s = [s, s, s]" for s :: string by (simp add: numeral_3_eq_3)
  show ?thesis
    using string_repeat_copies [of 3 sample_env "''ab''"] by (simp add: n limits copies)
qed

end
