(* ===== verification/VM_Verified.thy ===== *)
theory VM_Verified
  imports VM_Props Verifier_Sound
begin

text \<open>
  The verifier and the virtual machine together.  Every modelled handler moves the instruction pointer
  along an edge of the verifier's flow relation and changes the stack depth by the amount on that edge, which
  \<^verbatim>\<open>VM_Machine\<close> extends to the control handlers and to whole runs; and the operand reads of verified code,
  which the VM does not check, are in bounds.
\<close>

section \<open>Executions\<close>

abbreviation vm_function :: "vm \<Rightarrow> compiled_function" where
  "vm_function vm \<equiv> fr_function (last (frames vm))"

abbreviation vm_code :: "vm \<Rightarrow> byte list" where
  "vm_code vm \<equiv> ch_code (cf_chunk (vm_function vm))"

abbreviation vm_ip :: "vm \<Rightarrow> nat" where
  "vm_ip vm \<equiv> fr_ip (last (frames vm))"

text \<open>The number of values the running frame owns.\<close>

definition frame_depth :: "vm \<Rightarrow> int" where
  "frame_depth vm = int (length (stack vm)) - int (fr_slot_offset (last (frames vm)))"

section \<open>Lemmas: the instruction pointer after a handler\<close>

lemma frames_set_ip [simp]:
  "frames (set_ip vm ip) = butlast (frames vm) @ [(last (frames vm))\<lparr>fr_ip := ip\<rparr>]"
  by (simp add: set_ip_def)

lemma set_ip_set_ip [simp]: "set_ip (set_ip vm i) j = set_ip vm j"
  by (simp add: set_ip_def)

lemma simple_frames:
  "push vm v = Inr vm' \<Longrightarrow> frames vm' = frames vm"
  "pop vm = Inr (v, vm') \<Longrightarrow> frames vm' = frames vm"
  "pop_binary_ref vm = Inr (a, b, vm') \<Longrightarrow> frames vm' = frames vm"
  by (auto simp: push_def pop_def pop_binary_ref_def and_then_Inr split: if_splits)

lemma frames_set_top [simp]: "frames (set_top vm v) = frames vm"
  by (simp add: set_top_def)

lemma op_frames:
  "binary_op vm f = Inr vm' \<Longrightarrow> frames vm' = frames vm"
  "unary_op vm name g = Inr vm' \<Longrightarrow> frames vm' = frames vm"
  by (auto simp: binary_op_def unary_op_def and_then_Inr dest!: simple_frames)

lemma division_frames:
  "handle_divide env vm = Inr vm' \<Longrightarrow> frames vm' = frames vm"
  "handle_int_divide env vm = Inr vm' \<Longrightarrow> frames vm' = frames vm"
  "handle_modulo env vm = Inr vm' \<Longrightarrow> frames vm' = frames vm"
  "handle_concatenate env vm = Inr vm' \<Longrightarrow> frames vm' = frames vm"
proof -
  have frames: "frames vm' = frames vm"
    if "and_then (pop_binary_ref vm) f = Inr vm'"
      and "\<And>a b vm1. f (a, b, vm1) = Inr vm' \<Longrightarrow> \<exists>v. vm' = set_top vm1 v" for f
    using that by (force simp: and_then_Inr dest: simple_frames)
  show "handle_divide env vm = Inr vm' \<Longrightarrow> frames vm' = frames vm"
    unfolding handle_divide_def by (erule frames) (auto simp: and_then_Inr Let_def split: if_splits)
  show "handle_int_divide env vm = Inr vm' \<Longrightarrow> frames vm' = frames vm"
    unfolding handle_int_divide_def
    by (erule frames, rename_tac a b vm1, case_tac a; case_tac b) (auto simp: and_then_Inr split: if_splits)
  show "handle_modulo env vm = Inr vm' \<Longrightarrow> frames vm' = frames vm"
    unfolding handle_modulo_def
    by (erule frames, rename_tac a b vm1, case_tac a; case_tac b) (auto simp: and_then_Inr split: if_splits)
  show "handle_concatenate env vm = Inr vm' \<Longrightarrow> frames vm' = frames vm"
    unfolding handle_concatenate_def by (erule frames) (auto simp: Let_def split: if_splits prod.splits)
qed

lemma read_u16_frames: "vm_read_u16 vm = Inr (w, vm') \<Longrightarrow> vm' = set_ip vm (vm_ip vm + 2)"
  by (auto simp: vm_read_u16_def and_then_Inr Let_def)

lemma read_u32_frames:
  "vm_read_u32 vm = Inr (w, vm') \<Longrightarrow> vm_ip vm \<le> length (vm_code vm) \<Longrightarrow>
   vm' = set_ip vm (vm_ip vm + 4) \<and> w = read_u32_be (drop (vm_ip vm) (vm_code vm))"
  by (auto simp: vm_read_u32_def and_then_Inr Let_def read_u32_be_def add.commute or.assoc)

text \<open>The handlers whose instruction is the opcode alone, and those with one 16-bit operand.\<close>

lemma frames_no_operand:
  assumes "h \<in> {op_swap, op_negate env, op_increment env, op_decrement env, op_not, op_is_some,
             op_type_of env, op_int_to_number env, op_dup, op_none, op_true, op_false, op_zero, op_one,
             op_pop, op_add env, op_subtract env, op_multiply env, op_divide env,
             op_int_divide env, op_modulo env, op_equal env, op_not_equal env, op_less env, op_less_equal env,
             op_greater env, op_greater_equal env, op_and, op_or, op_concatenate env, op_dup2}"
    and "h vm = Inr vm'"
  shows "frames vm' = frames vm"
  using assms
  by (auto simp: op_swap_def op_negate_def op_increment_def op_decrement_def op_not_def
      op_is_some_def op_type_of_def op_int_to_number_def op_dup_def op_none_def op_true_def op_false_def op_zero_def
      op_one_def op_pop_def op_add_def op_subtract_def op_multiply_def op_divide_def
      op_int_divide_def op_modulo_def op_equal_def op_not_equal_def op_less_def op_less_equal_def op_greater_def
      op_greater_equal_def op_and_def op_or_def op_concatenate_def op_dup2_def and_then_Inr Let_def
      split: if_splits dest!: op_frames division_frames simple_frames)

lemma frames_u16_operand:
  assumes "h \<in> {op_set_local, op_increment_local env, op_decrement_local env, op_constant, op_get_local,
             op_set_local_pop}"
    and "h vm = Inr vm'"
  shows "frames vm' = frames (set_ip vm (vm_ip vm + 2))"
  using assms
  by (auto simp: op_set_local_def op_increment_local_def op_decrement_local_def unary_local_def op_constant_def
      op_get_local_def op_set_local_pop_def and_then_Inr Let_def
      split: if_splits dest!: read_u16_frames simple_frames)

lemma frames_jump:
  assumes "op_jump vm = Inr vm'" and "vm_ip vm \<le> length (vm_code vm)"
  shows "frames vm' = frames (set_ip vm (vm_ip vm + 4 + unat (read_u32_be (drop (vm_ip vm) (vm_code vm)))))"
  using assms
  by (auto simp: op_jump_def advance_ip_def and_then_Inr Let_def dest!: read_u32_frames)

lemma frames_branch:
  assumes "h \<in> {op_jump_if_false, op_jump_if_true}" and "h vm = Inr vm'"
    and "vm_ip vm \<le> length (vm_code vm)"
  shows "frames vm' = frames (set_ip vm (vm_ip vm + 4)) \<or>
         frames vm' = frames (set_ip vm (vm_ip vm + 4 + unat (read_u32_be (drop (vm_ip vm) (vm_code vm)))))"
  using assms
  by (auto simp: op_jump_if_false_def op_jump_if_true_def jump_if_def advance_ip_def and_then_Inr Let_def
      split: if_splits dest!: read_u32_frames)

lemma op_dup2_depth:
  assumes "op_dup2 vm = Inr vm'"
  shows "length (stack vm') = length (stack vm) + 2 \<and> length (stack vm') \<le> k_max"
  using assms by (auto simp: op_dup2_def and_then_Inr Let_def dest!: push_depth)

section \<open>Lemmas: the verifier's view of the modelled opcodes\<close>

text \<open>The opcodes with a modelled handler, grouped by instruction size and depth change.\<close>

definition same_ops :: "op list" where
  "same_ops = [Op_Swap, Op_Negate, Op_Increment, Op_Decrement, Op_Not, Op_IsSome, Op_TypeOf, Op_IntToNumber]"

definition local_ops :: "op list" where
  "local_ops = [Op_SetLocal, Op_IncrementLocal, Op_DecrementLocal]"

definition branch_ops :: "op list" where
  "branch_ops = [Op_JumpIfFalse, Op_JumpIfTrue]"

definition push_ops :: "op list" where
  "push_ops = [Op_Dup, Op_None, Op_True, Op_False, Op_Zero, Op_One]"

definition load_ops :: "op list" where
  "load_ops = [Op_Constant, Op_GetLocal]"

definition binary_ops :: "op list" where
  "binary_ops = [Op_Pop, Op_Add, Op_Subtract, Op_Multiply, Op_Divide, Op_IntDivide, Op_Modulo, Op_Equal,
     Op_NotEqual, Op_Less, Op_LessEqual, Op_Greater, Op_GreaterEqual, Op_And, Op_Or, Op_Concatenate]"

lemmas op_group_defs = same_ops_def local_ops_def branch_ops_def push_ops_def load_ops_def binary_ops_def

lemma group_sizes:
  "list_all (\<lambda>op. opcode_base_size op = 1 \<and> op \<notin> {Op_MakeRecord, Op_RecordWith} \<and> \<not> always_transfers op)
     (same_ops @ push_ops @ binary_ops @ [Op_Dup2])"
  "list_all (\<lambda>op. opcode_base_size op = 3 \<and> op \<notin> {Op_MakeRecord, Op_RecordWith} \<and> \<not> always_transfers op)
     (local_ops @ load_ops @ [Op_SetLocalPop])"
  "list_all (\<lambda>op. opcode_base_size op = 5 \<and> op \<notin> {Op_MakeRecord, Op_RecordWith} \<and> \<not> always_transfers op)
     branch_ops"
  by code_simp+

lemma group_size:
  "code ! offset \<in> set (same_ops @ push_ops @ binary_ops @ [Op_Dup2]) \<Longrightarrow>
     instruction_size code offset = 1 \<and> \<not> always_transfers (code ! offset)"
  "code ! offset \<in> set (local_ops @ load_ops @ [Op_SetLocalPop]) \<Longrightarrow>
     instruction_size code offset = 3 \<and> \<not> always_transfers (code ! offset)"
  "code ! offset \<in> set branch_ops \<Longrightarrow>
     instruction_size code offset = 5 \<and> \<not> always_transfers (code ! offset)"
  using group_sizes unfolding list_all_iff instruction_size_def Let_def by (metis insertI1 insertI2)+

lemma group_depth:
  "code ! offset \<in> set (same_ops @ local_ops @ branch_ops @ [Op_Jump]) \<Longrightarrow> depth_change code offset = 0"
  "code ! offset \<in> set (push_ops @ load_ops) \<Longrightarrow> depth_change code offset = 1"
  "code ! offset \<in> set (binary_ops @ [Op_SetLocalPop]) \<Longrightarrow> depth_change code offset = -1"
  "code ! offset = Op_Dup2 \<Longrightarrow> depth_change code offset = 2"
  by (auto simp: op_group_defs depth_change_def instruction_stack_effect_def eff_def)

lemma modelled_handler_cases:
  assumes "modelled_handler env op = Some h"
  obtains (same) "op \<in> set same_ops"
      "h \<in> {op_swap, op_negate env, op_increment env, op_decrement env, op_not, op_is_some,
         op_type_of env, op_int_to_number env}"
    | (same_u16) "op \<in> set local_ops" "h \<in> {op_set_local, op_increment_local env, op_decrement_local env}"
    | (goes) "op = Op_Jump" "h = op_jump"
    | (branch) "op \<in> set branch_ops" "h \<in> {op_jump_if_false, op_jump_if_true}"
    | (pushes) "op \<in> set push_ops" "h \<in> {op_dup, op_none, op_true, op_false, op_zero, op_one}"
    | (pushes_u16) "op \<in> set load_ops" "h \<in> {op_constant, op_get_local}"
    | (drops) "op \<in> set binary_ops"
      "h \<in> {op_pop, op_add env, op_subtract env, op_multiply env, op_divide env,
         op_int_divide env, op_modulo env, op_equal env, op_not_equal env, op_less env, op_less_equal env,
         op_greater env, op_greater_equal env, op_and, op_or, op_concatenate env}"
    | (drops_u16) "op = Op_SetLocalPop" "h = op_set_local_pop"
    | (doubles) "op = Op_Dup2" "h = op_dup2"
proof -
  note entry = map_of_SomeD [OF assms [unfolded modelled_handler_def], unfolded list.set insert_iff prod.inject]
  show thesis
    using entry
    by (elim disjE conjE)
      (rule same same_u16 goes branch pushes pushes_u16 drops drops_u16 doubles; simp add: op_group_defs; fail)+
qed

section \<open>Lemmas: one turn of the dispatch loop\<close>

lemma run_once_Inr:
  assumes "run_once env vm = Some (Inr vm')"
  obtains h where "modelled_handler env (vm_code vm ! vm_ip vm) = Some h"
    "h (set_ip vm (vm_ip vm + 1)) = Inr vm'" "vm_ip vm < length (vm_code vm)"
  using assms that
  by (auto simp: run_once_def ensure_bytecode_available_def Let_def split: if_splits option.splits)

lemma handler_step_depth:
  assumes "modelled_handler env (code ! offset) = Some h" and "h vm = Inr vm'"
  shows "int (length (stack vm')) = int (length (stack vm)) + depth_change code offset"
    and "length (stack vm) \<le> k_max \<Longrightarrow> length (stack vm') \<le> k_max"
proof -
  note d0 = handlers_depth_0 [of h env vm vm', OF _ assms(2)] group_depth(1) [of code offset]
  note d1 = handlers_depth_1 [of h vm vm', OF _ assms(2)] group_depth(2) [of code offset]
  note d2 = handlers_depth_minus_1 [of h env vm vm', OF _ assms(2)] group_depth(3) [of code offset]
  have "int (length (stack vm')) = int (length (stack vm)) + depth_change code offset \<and>
    (length (stack vm) \<le> k_max \<longrightarrow> length (stack vm') \<le> k_max)"
    using assms(1)
  proof (cases rule: modelled_handler_cases)
    case same
    then show ?thesis using d0 by auto
  next
    case same_u16
    then show ?thesis using d0 by auto
  next
    case goes
    then show ?thesis using d0 by auto
  next
    case branch
    then show ?thesis using d0 by auto
  next
    case pushes
    then show ?thesis using d1 by auto
  next
    case pushes_u16
    then show ?thesis using d1 by auto
  next
    case drops
    then show ?thesis using d2 by auto
  next
    case drops_u16
    then show ?thesis using d2 by auto
  next
    case doubles
    then show ?thesis using op_dup2_depth [of vm vm'] group_depth(4) [of code offset] assms(2) by auto
  qed
  then show "int (length (stack vm')) = int (length (stack vm)) + depth_change code offset"
    and "length (stack vm) \<le> k_max \<Longrightarrow> length (stack vm') \<le> k_max" by auto
qed

lemma run_once_edge:
  assumes "run_once env vm = Some (Inr vm')" and "exhausted_missing (vm_code vm) (vm_ip vm) = 0"
  shows "\<exists>ip. frames vm' = frames (set_ip vm ip) \<and>
           flow_edge (vm_code vm) (vm_ip vm) ip (depth_change (vm_code vm) (vm_ip vm))"
proof -
  let ?code = "vm_code vm" and ?ip = "vm_ip vm" and ?vm = "set_ip vm (vm_ip vm + 1)"
  from assms(1) obtain h where h: "modelled_handler env (?code ! ?ip) = Some h" "h ?vm = Inr vm'"
    and inside: "?ip < length ?code" by (rule run_once_Inr)
  have fall: ?thesis if "frames vm' = frames (set_ip vm (?ip + n))" "instruction_size ?code ?ip = n"
      "\<not> always_transfers (?code ! ?ip)" for n
    using that flow_edge.fall_through [of ?code ?ip] by metis
  have one: ?thesis if "h \<in> set [op_swap, op_negate env, op_increment env, op_decrement env, op_not,
      op_is_some, op_type_of env, op_int_to_number env, op_dup, op_none, op_true, op_false, op_zero, op_one,
      op_pop, op_add env, op_subtract env, op_multiply env, op_divide env, op_int_divide env, op_modulo env,
      op_equal env, op_not_equal env, op_less env, op_less_equal env, op_greater env, op_greater_equal env,
      op_and, op_or, op_concatenate env, op_dup2]"
      "?code ! ?ip \<in> set (same_ops @ push_ops @ binary_ops @ [Op_Dup2])"
    using frames_no_operand [of h env ?vm vm'] h(2) that(1) group_size(1) [OF that(2)]
    by (intro fall [of 1]) simp_all
  have three: ?thesis if "h \<in> set [op_set_local, op_increment_local env, op_decrement_local env, op_constant,
      op_get_local, op_set_local_pop]" "?code ! ?ip \<in> set (local_ops @ load_ops @ [Op_SetLocalPop])"
    using frames_u16_operand [of h env ?vm vm'] h(2) that(1) group_size(2) [OF that(2)]
    by (intro fall [of 3]) simp_all
  have target: "?ip + 1 + 4 + unat (read_u32_be (drop (?ip + 1) ?code)) =
      resolve_forward_jump_target ?ip (jump_operand ?code ?ip)"
    by (simp add: resolve_forward_jump_target_def k_jump_instruction_size_def k_u32_operand_size_def
        jump_operand_def)
  from h(1) show ?thesis
  proof (cases rule: modelled_handler_cases)
    case goes
    have "frames vm' = frames (set_ip vm (resolve_forward_jump_target ?ip (jump_operand ?code ?ip)))"
      using frames_jump [of ?vm vm'] h(2) goes inside by (simp flip: target)
    with goes(1) flow_edge.jump [of ?code ?ip] show ?thesis by metis
  next
    case branch
    have "frames vm' = frames (set_ip vm (?ip + 5)) \<or>
        frames vm' = frames (set_ip vm (resolve_forward_jump_target ?ip (jump_operand ?code ?ip)))"
      using frames_branch [of h ?vm vm'] h(2) branch inside by (simp flip: target add: ac_simps)
    then show ?thesis
    proof
      assume "frames vm' = frames (set_ip vm (?ip + 5))"
      with branch show ?thesis using fall group_size(3) [of ?code ?ip] by blast
    next
      assume "frames vm' = frames (set_ip vm (resolve_forward_jump_target ?ip (jump_operand ?code ?ip)))"
      moreover have "?code ! ?ip \<in> {Op_JumpIfFalse, Op_JumpIfTrue, Op_NullCoalesce}"
        using branch(1) by (auto simp: branch_ops_def)
      ultimately show ?thesis using flow_edge.branch [of ?code ?ip] assms(2) by auto
    qed
  next
    case same
    then show ?thesis using one by auto
  next
    case same_u16
    then show ?thesis using three by auto
  next
    case pushes
    then show ?thesis using one by auto
  next
    case pushes_u16
    then show ?thesis using three by auto
  next
    case drops
    then show ?thesis using one by auto
  next
    case drops_u16
    then show ?thesis using three by auto
  next
    case doubles
    then show ?thesis using one by auto
  qed
qed

lemma read_u16_at:
  assumes "vm_ip vm + 2 \<le> length (vm_code vm)"
  shows "vm_read_u16 vm = Inr (read_u16_be (drop (vm_ip vm) (vm_code vm)), set_ip vm (vm_ip vm + 2))"
  using assms
  by (auto simp: vm_read_u16_def ensure_bytecode_available_def read_u16_be_def Let_def add.commute)

section \<open>The guarantees\<close>

definition sample_frame_vm :: "compiled_function \<Rightarrow> nat \<Rightarrow> val list \<Rightarrow> vm" where
  "sample_frame_vm f ip vs = (sample_vm vs)\<lparr>frames := [\<lparr>fr_function = f, fr_ip = ip, fr_slot_offset = 0, fr_closure = None\<rparr>]\<rparr>"

lemma sample_step:
  "run_once sample_env (sample_frame_vm (code_function [Op_None, Op_Return] 0) 0 [VNull]) =
     Some (Inr (sample_frame_vm (code_function [Op_None, Op_Return] 0) 1 [VNull, VNull]))"
  by (simp add: run_once_def sample_frame_vm_def sample_vm_def code_function_def ensure_bytecode_available_def
      modelled_handler_def op_none_def push_def set_ip_def k_max_def)

text \<open>The constant read the VM does not check in verified code is in bounds: at an instruction start of
  an accepted function with opcode \<^verbatim>\<open>Constant\<close>, and room on the stack, the turn succeeds and
  pushes an existing constant, the one the operand names.\<close>

theorem verified_constant_read:
  assumes "verify (vm_function vm) = Some []" and "vm_ip vm \<in> set (instr_starts (vm_code vm) 0)"
    and "vm_code vm ! vm_ip vm = Op_Constant" and "length (stack vm) < k_max"
  shows "\<exists>index < cp_size (ch_constants (cf_chunk (vm_function vm))).
           index = unat (read_u16_be (drop (vm_ip vm + 1) (vm_code vm))) \<and>
           run_once env vm = Some (Inr ((set_ip vm (vm_ip vm + 3))
             \<lparr>stack := stack vm @ [cp_values (ch_constants (cf_chunk (vm_function vm))) ! index]\<rparr>))"
proof -
  let ?code = "vm_code vm" and ?ip = "vm_ip vm"
  have "linear_ok (vm_function vm) ?ip" by (rule verify_linear [OF assms(1,2)])
  moreover have "operand_category Op_Constant = Cat_Constant" by code_simp
  moreover have "instruction_size ?code ?ip = 3"
    using assms(3) group_size(2) [of ?code ?ip] by (simp add: load_ops_def)
  ultimately have fits: "?ip + 3 \<le> length ?code"
    and index: "unat (read_u16_be (drop (?ip + 1) ?code)) < cp_size (ch_constants (cf_chunk (vm_function vm)))"
    using assms(3) by (simp_all add: linear_ok_def operand_ok_def instruction_fits_def Let_def)
  have read: "vm_read_u16 (set_ip vm (?ip + 1)) =
      Inr (read_u16_be (drop (?ip + 1) ?code), set_ip vm (?ip + 3))"
    using read_u16_at [of "set_ip vm (?ip + 1)"] fits by (simp add: numeral_3_eq_3)
  have "modelled_handler env Op_Constant = Some op_constant" by (simp add: modelled_handler_def)
  then have "run_once env vm = Some (op_constant (set_ip vm (?ip + 1)))"
    using fits assms(3) by (simp add: run_once_def ensure_bytecode_available_def Let_def)
  with index read assms(4) show ?thesis by (simp add: op_constant_def push_def Let_def)
qed


definition constant_function :: compiled_function where
  "constant_function = empty_function\<lparr>cf_chunk := empty_chunk\<lparr>ch_code := [Op_Constant, 0, 0, Op_Return],
     ch_constants := empty_constant_pool\<lparr>cp_values := [VString ''luma'']\<rparr>\<rparr>\<rparr>"

theorem verified_constant_read_witness:
  "\<exists>vm'. run_once sample_env (sample_frame_vm constant_function 0 [VNull]) = Some (Inr vm') \<and>
         stack vm' = [VNull, VString ''luma'']"
proof -
  let ?vm = "sample_frame_vm constant_function 0 [VNull]"
  have code: "ch_code (cf_chunk constant_function) = [Op_Constant, 0, 0, Op_Return]"
    by (simp add: constant_function_def)
  have vm: "vm_function ?vm = constant_function" "vm_ip ?vm = 0" "stack ?vm = [VNull]"
    by (simp_all add: sample_frame_vm_def sample_vm_def)
  have ok: "verify constant_function = Some []" by code_simp
  have start: "0 \<in> set (instr_starts [Op_Constant, 0, 0, Op_Return] 0)" by code_simp
  have index: "unat (read_u16_be [0, 0, Op_Return]) = 0" by code_simp
  have pool: "cp_values (ch_constants (cf_chunk constant_function)) ! 0 = VString ''luma''"
    by (simp add: constant_function_def)
  have room: "length [VNull] < k_max" by (simp add: k_max_def)
  have operand: "drop (0 + 1) [Op_Constant, 0, 0, Op_Return] = [0, 0, Op_Return]" by simp
  obtain i where "i = (0 :: nat)" and run: "run_once sample_env ?vm = Some (Inr ((set_ip ?vm (0 + 3))
      \<lparr>stack := [VNull] @ [cp_values (ch_constants (cf_chunk constant_function)) ! i]\<rparr>))"
    using verified_constant_read [of ?vm sample_env, unfolded vm code operand index, OF ok start _ room] by auto
  with pool show ?thesis by simp
qed

end
