(* ===== verification/VM_Control_Props.thy ===== *)
theory VM_Control_Props
  imports VM_Control VM_Verified
begin

text \<open>
  The invariant of the virtual machine and what exception dispatch, returning and calling guarantee.
  Handlers that only move the instruction pointer and change the stack are treated once, in a locale over
  an arbitrary invariant closed under those changes.
\<close>

section \<open>Invariants through the error monad\<close>

text \<open>A result satisfies P when the machine it carries does, whether it is a value or an exception.\<close>

definition ok :: "(vm \<Rightarrow> bool) \<Rightarrow> ('a \<Rightarrow> vm) \<Rightarrow> vm_throw + 'a \<Rightarrow> bool" where
  "ok P f r \<longleftrightarrow> (case r of Inl (e, vm) \<Rightarrow> P vm | Inr a \<Rightarrow> P (f a))"

lemma ok_simps [simp]: "ok P f (Inl (e, vm)) = P vm" "ok P f (Inr a) = P (f a)"
  by (simp_all add: ok_def)

lemma ok_runtime_error [simp]: "ok P f (Inl (runtime_error vm m hint)) = P vm"
  by (simp add: runtime_error_def)

lemma ok_and_then:
  assumes "ok P f m" and "\<And>a. m = Inr a \<Longrightarrow> P (f a) \<Longrightarrow> ok P g (k a)"
  shows "ok P g (and_then m k)"
  using assms by (cases m) auto

lemma ok_Inl: "ok P f r \<Longrightarrow> r = Inl (e, vm) \<Longrightarrow> P vm"
  by simp

lemma ok_Inr: "ok P f r \<Longrightarrow> r = Inr a \<Longrightarrow> P (f a)"
  by simp

locale stack_invariant =
  fixes P :: "vm \<Rightarrow> bool"
  assumes set_stack: "P vm \<Longrightarrow> length s \<le> max k_max (length (stack vm)) \<Longrightarrow> P (vm\<lparr>stack := s\<rparr>)"
    and set_ip: "P vm \<Longrightarrow> P (set_ip vm ip)"
begin

lemma push_ok: "P vm \<Longrightarrow> ok P (\<lambda>vm. vm) (push vm v)"
  by (auto simp: push_def intro: set_stack)

lemma pop_ok: "P vm \<Longrightarrow> ok P snd (pop vm)"
  by (auto simp: pop_def intro!: set_stack)

lemma peek_ok: "P vm \<Longrightarrow> ok P (\<lambda>_. vm) (peek vm d)"
  by (simp add: peek_def)

lemma depth_ok: "P vm \<Longrightarrow> ok P (\<lambda>_. vm) (validate_stack_depth vm n c)"
  by (simp add: validate_stack_depth_def)

lemma local_ok: "P vm \<Longrightarrow> ok P (\<lambda>_. vm) (get_local_slot vm cf slot)"
  by (simp add: get_local_slot_def Let_def)

lemma set_top_ok: "P vm \<Longrightarrow> P (set_top vm v)" if "stack vm \<noteq> []"
  using that by (auto simp: set_top_def intro!: set_stack simp flip: length_greater_0_conv)

lemma pop_binary_ok: "P vm \<Longrightarrow> ok P (\<lambda>(a, b, vm). vm) (pop_binary_ref vm)"
  unfolding pop_binary_ref_def by (rule ok_and_then [OF pop_ok]) auto

lemma readers_ok:
  "P vm \<Longrightarrow> ok P snd (read_byte vm)" "P vm \<Longrightarrow> ok P snd (vm_read_u16 vm)" "P vm \<Longrightarrow> ok P snd (vm_read_u32 vm)"
  by (auto simp: read_byte_def vm_read_u16_def vm_read_u32_def ensure_bytecode_available_def Let_def
      intro: set_ip)

lemma update_ok: "P vm \<Longrightarrow> P (vm\<lparr>stack := (stack vm)[i := v]\<rparr>)"
  by (auto intro: set_stack)

lemma binary_op_ok:
  assumes "P vm" and "\<And>vm a b. P vm \<Longrightarrow> ok P (\<lambda>_. vm) (f vm a b)"
  shows "ok P (\<lambda>vm. vm) (binary_op vm f)"
  unfolding binary_op_def
  by (rule ok_and_then [OF pop_binary_ok [OF assms(1)]], clarsimp,
      rule ok_and_then [OF assms(2)])
    (auto dest: pop_binary_ref_depth intro: set_top_ok)

lemma unary_op_ok:
  assumes "P vm" and "\<And>v. ok P (\<lambda>_. vm) (f v)"
  shows "ok P (\<lambda>vm. vm) (unary_op vm name f)"
  unfolding unary_op_def
  by (rule ok_and_then [OF depth_ok [OF assms(1)]], rule ok_and_then [OF assms(2)])
    (auto simp: validate_stack_depth_def split: if_splits intro: set_top_ok)

lemma numeric_binary_ok: "P vm \<Longrightarrow> ok P (\<lambda>_. vm) (numeric_binary_op env vm a b op)"
  by (cases a; cases b)
    (simp_all add: numeric_binary_op_def Let_def split: option.split string_repeat_outcome.split)

lemma to_numeric_ok: "P vm \<Longrightarrow> ok P (\<lambda>_. vm) (to_numeric env vm a)"
  by (cases a) simp_all

lemma unary_numeric_ok:
  "P vm \<Longrightarrow> ok P (\<lambda>_. vm) (handle_unary_numeric env vm a int_op num_op name overflow)"
  by (cases a) (simp_all add: handle_unary_numeric_def split: option.split)

lemma compare_ok: "P vm \<Longrightarrow> ok P (\<lambda>_. vm) (compare_values env vm a b op)"
  by (cases a; cases b) (auto simp: compare_values_def)

lemma divisor_ok: "P vm \<Longrightarrow> ok P (\<lambda>_. vm) (validate_nonzero_divisor vm v name)"
  by (simp add: validate_nonzero_divisor_def Let_def)

lemma division_ok:
  "P vm \<Longrightarrow> ok P (\<lambda>vm. vm) (handle_divide env vm)" "P vm \<Longrightarrow> ok P (\<lambda>vm. vm) (handle_int_divide env vm)"
  "P vm \<Longrightarrow> ok P (\<lambda>vm. vm) (handle_modulo env vm)" "P vm \<Longrightarrow> ok P (\<lambda>vm. vm) (handle_concatenate env vm)"
proof -
  have binary: "ok P (\<lambda>vm. vm) (and_then (pop_binary_ref vm) f)"
    if "P vm" and "\<And>a b vm. P vm \<Longrightarrow> stack vm \<noteq> [] \<Longrightarrow> ok P (\<lambda>vm. vm) (f (a, b, vm))" for vm f
    by (rule ok_and_then [OF pop_binary_ok [OF that(1)]]) (auto intro: that(2) dest: pop_binary_ref_depth)
  show "P vm \<Longrightarrow> ok P (\<lambda>vm. vm) (handle_divide env vm)"
    unfolding handle_divide_def
    by (erule binary)
      (auto simp: Let_def intro!: ok_and_then [OF divisor_ok] ok_and_then [OF to_numeric_ok] set_top_ok)
  show "P vm \<Longrightarrow> ok P (\<lambda>vm. vm) (handle_int_divide env vm)"
    unfolding handle_int_divide_def
    by (erule binary, rename_tac a b vm', case_tac a; case_tac b)
      (auto intro!: ok_and_then [OF divisor_ok] set_top_ok)
  show "P vm \<Longrightarrow> ok P (\<lambda>vm. vm) (handle_modulo env vm)"
    unfolding handle_modulo_def
    by (erule binary, rename_tac a b vm', case_tac a; case_tac b)
      (auto intro!: ok_and_then [OF divisor_ok] set_top_ok)
  show "P vm \<Longrightarrow> ok P (\<lambda>vm. vm) (handle_concatenate env vm)"
    unfolding handle_concatenate_def
    by (erule binary) (auto simp: Let_def split: prod.split intro!: set_top_ok)
qed

lemma advance_ok: "P vm \<Longrightarrow> ok P (\<lambda>vm. vm) (advance_ip vm offset)"
  by (auto simp: advance_ip_def validate_jump_target_def Let_def intro: set_ip)

lemma jump_ok:
  assumes "P vm"
  shows "ok P (\<lambda>vm. vm) (op_jump vm)" "ok P (\<lambda>vm. vm) (jump_if vm b)"
  unfolding op_jump_def jump_if_def
  by (rule ok_and_then [OF readers_ok(3) [OF assms]]; auto intro!: ok_and_then [OF peek_ok] advance_ok)+

lemma local_ops_ok:
  assumes "P vm"
  shows "ok P (\<lambda>vm. vm) (op_get_local vm)" "ok P (\<lambda>vm. vm) (op_set_local vm)"
    "ok P (\<lambda>vm. vm) (op_set_local_pop vm)" "ok P (\<lambda>vm. vm) (unary_local env vm int_op num_op name overflow)"
    "ok P (\<lambda>vm. vm) (op_constant vm)"
  unfolding op_get_local_def op_set_local_def op_set_local_pop_def unary_local_def op_constant_def
  by (rule ok_and_then [OF readers_ok(2) [OF assms]];
      auto simp: Let_def intro!: ok_and_then [OF local_ok] ok_and_then [OF peek_ok] ok_and_then [OF pop_ok]
        ok_and_then [OF unary_numeric_ok] push_ok update_ok)+

lemma stack_ops_ok:
  assumes "P vm"
  shows "ok P (\<lambda>vm. vm) (op_pop vm)" "ok P (\<lambda>vm. vm) (op_dup vm)" "ok P (\<lambda>vm. vm) (op_dup2 vm)"
    "ok P (\<lambda>vm. vm) (op_swap vm)"
proof -
  show "ok P (\<lambda>vm. vm) (op_pop vm)"
    unfolding op_pop_def by (rule ok_and_then [OF pop_ok [OF assms]]) auto
  show "ok P (\<lambda>vm. vm) (op_dup vm)"
    unfolding op_dup_def by (rule ok_and_then [OF depth_ok [OF assms]]) (rule push_ok [OF assms])
  show "ok P (\<lambda>vm. vm) (op_dup2 vm)"
    unfolding op_dup2_def Let_def
    by (rule ok_and_then [OF depth_ok [OF assms]], rule ok_and_then [OF push_ok [OF assms]], rule push_ok)
  show "ok P (\<lambda>vm. vm) (op_swap vm)"
    unfolding op_swap_def Let_def
    by (intro ok_and_then [OF depth_ok [OF assms]]) (auto intro!: set_stack assms)
qed

text \<open>Every handler of the dispatch table so far keeps the invariant, also when it throws.\<close>

lemma modelled_handler_ok:
  assumes "modelled_handler env op = Some h" and "P vm"
  shows "ok P (\<lambda>vm. vm) (h vm)"
proof -
  note entry = map_of_SomeD [OF assms(1) [unfolded modelled_handler_def], unfolded list.set insert_iff prod.inject]
  note binary = binary_op_ok [OF assms(2)] and unary = unary_op_ok [OF assms(2)]
  from entry show ?thesis
    by (elim disjE conjE)
      (simp_all add: op_none_def op_true_def op_false_def op_zero_def op_one_def op_divide_def op_int_divide_def
        op_modulo_def op_concatenate_def op_increment_local_def op_decrement_local_def op_jump_if_false_def
        op_jump_if_true_def push_ok division_ok local_ops_ok stack_ops_ok jump_ok assms(2)
        op_add_def op_subtract_def op_multiply_def op_negate_def op_increment_def op_decrement_def op_equal_def
        op_not_equal_def op_less_def op_less_equal_def op_greater_def op_greater_equal_def op_not_def op_and_def
        op_or_def op_is_some_def op_type_of_def op_int_to_number_def
        binary unary numeric_binary_ok compare_ok unary_numeric_ok)
qed

end

text \<open>An invariant that does not look at the two heaps either.\<close>

locale heap_invariant = stack_invariant +
  assumes set_heap: "P vm \<Longrightarrow> P (vm\<lparr>objects := os\<rparr>)" "P vm \<Longrightarrow> P (vm\<lparr>cells := cs\<rparr>)"
begin

lemma check_cancellation_ok: "P vm \<Longrightarrow> ok P (\<lambda>_. vm) (check_cancellation env vm)"
  by (simp add: check_cancellation_def)

lemma coalesce_ok:
  assumes "P vm"
  shows "ok P (\<lambda>vm. vm) (handle_null_coalesce env vm)"
proof -
  have jump: "ok P (\<lambda>vm. vm) (coalesce_jump vm w)" if "P vm" for vm w
    using that by (auto simp: coalesce_jump_def Let_def intro: set_ip)
  show ?thesis
    unfolding handle_null_coalesce_def
    apply (rule ok_and_then [OF readers_ok(3) [OF assms]], clarsimp)
    apply (rule ok_and_then [OF peek_ok], assumption)
    apply (auto simp: peek_def split: val.split value_type.split prod.split if_splits
        intro!: jump set_top_ok simp flip: length_greater_0_conv)
    done
qed

lemma push_nones_ok: "P vm \<Longrightarrow> ok P (\<lambda>vm. vm) (push_nones vm n)"
  by (induction n arbitrary: vm) (auto intro!: ok_and_then [OF push_ok])

lemma pop_n_ok: "P vm \<Longrightarrow> ok P (\<lambda>vm. vm) (pop_n vm n)"
  by (induction n arbitrary: vm) (auto intro!: ok_and_then [OF pop_ok])

lemma pop_sequence_ok: "P vm \<Longrightarrow> ok P snd (pop_sequence vm n)"
proof (induction n arbitrary: vm)
  case (Suc n)
  show ?case
    unfolding pop_sequence.simps
    by (rule ok_and_then [OF pop_ok [OF Suc.prems]]) (auto intro!: ok_and_then [OF Suc.IH])
qed simp

lemma bind_arguments_ok: "P vm \<Longrightarrow> ok P (\<lambda>vm. vm) (bind_arguments vm f n)"
  by (auto simp: bind_arguments_def Let_def intro!: ok_and_then [OF push_nones_ok])

lemma call_native_ok:
  assumes "P vm"
  shows "ok P (\<lambda>vm. vm) (call_native env vm i n)"
  unfolding call_native_def
  by (rule ok_and_then [OF pop_sequence_ok [OF assms]])
    (auto split: sum.split intro!: ok_and_then [OF pop_ok] push_ok)

lemma validate_upvalue_ok: "P vm \<Longrightarrow> ok P (\<lambda>_. vm) (validate_upvalue_index vm cf i)"
  by (simp add: validate_upvalue_index_def split: option.split)

lemma upvalue_ops_ok:
  assumes "P vm"
  shows "ok P (\<lambda>vm. vm) (handle_get_upvalue vm)" "ok P (\<lambda>vm. vm) (handle_set_upvalue vm)"
  unfolding handle_get_upvalue_def handle_set_upvalue_def
  by (rule ok_and_then [OF readers_ok(2) [OF assms]], clarsimp,
      rule ok_and_then [OF validate_upvalue_ok], assumption,
      auto split: option.split intro!: push_ok ok_and_then [OF peek_ok] set_heap)+

lemma forward_upvalue_ok: "P vm \<Longrightarrow> ok P snd (forward_upvalue vm target i desc cf)"
  by (auto simp: forward_upvalue_def Let_def split: option.split
      intro!: ok_and_then [OF validate_upvalue_ok] set_heap)

lemma forward_upvalues_ok: "P vm \<Longrightarrow> ok P snd (forward_upvalues vm target i descs cf)"
  by (induction descs arbitrary: vm target i) (auto intro!: ok_and_then [OF forward_upvalue_ok])

lemma make_closure_ok:
  assumes "P vm"
  shows "ok P (\<lambda>vm. vm) (handle_make_closure env vm)"
  unfolding handle_make_closure_def
  by (rule ok_and_then [OF readers_ok(2) [OF assms]], clarsimp,
      rule ok_and_then [OF readers_ok(1)], assumption)
    (auto simp: Let_def split: option.split
      intro!: ok_and_then [OF forward_upvalues_ok] push_ok set_heap)

end

text \<open>An invariant that does not look at the loop counters either.\<close>

locale machine_invariant = heap_invariant +
  assumes set_counters: "P vm \<Longrightarrow> P (vm\<lparr>loop_iterations := n\<rparr>)"
      "P vm \<Longrightarrow> P (vm\<lparr>total_loop_iterations := n\<rparr>)"
begin

lemma loop_ok:
  assumes "P vm"
  shows "ok P (\<lambda>vm. vm) (handle_loop env vm)"
  unfolding handle_loop_def
  by (rule ok_and_then [OF readers_ok(3) [OF assms]])
    (auto simp: Let_def intro!: ok_and_then [OF check_cancellation_ok] set_counters set_ip)

end

section \<open>The invariant\<close>

definition frame_code_length :: "call_frame \<Rightarrow> nat" where
  "frame_code_length f = length (ch_code (cf_chunk (fr_function f)))"

definition handler_ok :: "vm \<Rightarrow> exception_handler \<Rightarrow> bool" where
  "handler_ok vm h \<longleftrightarrow>
     eh_frame_index h < length (frames vm) \<and> eh_catch_ip h \<le> frame_code_length (frames vm ! eh_frame_index h)"

text \<open>
  Between turns: a frame is running, the stack fits its storage, every frame starts inside it, the handler
  stack is ordered by frame, bounded, and every handler belongs to a live frame and resumes inside that
  frame's code; shields are ordered and belong to live frames.
\<close>

definition vm_wf :: "vm \<Rightarrow> bool" where
  "vm_wf vm \<longleftrightarrow>
     dispatch_return_value vm = None \<and> frames vm \<noteq> [] \<and> length (stack vm) \<le> k_max \<and>
     (\<forall>f \<in> set (frames vm). fr_slot_offset f \<le> k_max) \<and>
     sorted (map eh_frame_index (handlers vm)) \<and> (\<forall>h \<in> set (handlers vm). handler_ok vm h) \<and>
     length (handlers vm) \<le> k_max_depth \<and>
     sorted (map sh_frame_index (shields vm)) \<and> (\<forall>s \<in> set (shields vm). sh_frame_index s < length (frames vm))"

lemma nth_set_ip_frames:
  "frames vm \<noteq> [] \<Longrightarrow> i < length (frames vm) \<Longrightarrow>
   fr_function (frames (set_ip vm ip) ! i) = fr_function (frames vm ! i)"
  by (auto simp: set_ip_def nth_append nth_butlast last_conv_nth less_Suc_eq
      dest!: less_antisym simp flip: length_greater_0_conv)

lemma length_set_ip [simp]: "frames vm \<noteq> [] \<Longrightarrow> length (frames (set_ip vm ip)) = length (frames vm)"
  by (simp add: set_ip_def)

lemma set_ip_fields [simp]:
  "stack (set_ip vm ip) = stack vm" "handlers (set_ip vm ip) = handlers vm" "shields (set_ip vm ip) = shields vm"
  "dispatch_return_value (set_ip vm ip) = dispatch_return_value vm" "base_depth (set_ip vm ip) = base_depth vm"
  "task_scopes (set_ip vm ip) = task_scopes vm"
  by (simp_all add: set_ip_def)

lemma frames_set_ip_slots:
  "frames vm \<noteq> [] \<Longrightarrow> fr_slot_offset ` set (frames (set_ip vm ip)) \<subseteq> fr_slot_offset ` set (frames vm)"
  by (auto simp: set_ip_def dest: in_set_butlastD)

lemma vm_wf_set_ip: "vm_wf vm \<Longrightarrow> vm_wf (set_ip vm ip)"
  using frames_set_ip_slots [of vm ip]
  by (auto simp: vm_wf_def handler_ok_def frame_code_length_def nth_set_ip_frames image_subset_iff
      simp del: frames_set_ip) (fastforce simp: set_ip_def)+

lemma vm_wf_counters:
  "vm_wf vm \<Longrightarrow> vm_wf (vm\<lparr>loop_iterations := n\<rparr>)" "vm_wf vm \<Longrightarrow> vm_wf (vm\<lparr>total_loop_iterations := n\<rparr>)"
  "vm_wf vm \<Longrightarrow> vm_wf (vm\<lparr>objects := os\<rparr>)" "vm_wf vm \<Longrightarrow> vm_wf (vm\<lparr>cells := cs\<rparr>)"
  by (simp_all add: vm_wf_def handler_ok_def)

interpretation wf: machine_invariant vm_wf
proof
  show "vm_wf vm \<Longrightarrow> length s \<le> max k_max (length (stack vm)) \<Longrightarrow> vm_wf (vm\<lparr>stack := s\<rparr>)" for vm s
    by (simp add: vm_wf_def handler_ok_def)
qed (rule vm_wf_set_ip vm_wf_counters; assumption)+

lemma vm_wf_stack_bound: "vm_wf vm \<Longrightarrow> length (stack vm) \<le> k_max"
  by (simp add: vm_wf_def)

text \<open>What remains of the invariant when the last frame has returned.\<close>

definition vm_shape :: "vm \<Rightarrow> bool" where
  "vm_shape vm \<longleftrightarrow>
     length (stack vm) \<le> k_max \<and> (\<forall>f \<in> set (frames vm). fr_slot_offset f \<le> k_max) \<and>
     sorted (map eh_frame_index (handlers vm)) \<and> (\<forall>h \<in> set (handlers vm). handler_ok vm h) \<and>
     length (handlers vm) \<le> k_max_depth \<and>
     sorted (map sh_frame_index (shields vm)) \<and> (\<forall>s \<in> set (shields vm). sh_frame_index s < length (frames vm))"

lemma vm_wf_iff: "vm_wf vm \<longleftrightarrow> dispatch_return_value vm = None \<and> frames vm \<noteq> [] \<and> vm_shape vm"
  by (auto simp: vm_wf_def vm_shape_def)

lemma vm_shape_dispatch [simp]: "vm_shape (vm\<lparr>dispatch_return_value := r\<rparr>) = vm_shape vm"
  by (simp add: vm_shape_def handler_ok_def)


section \<open>Lemmas: the handler stack\<close>

lemma drop_last_while_prefix: "\<exists>ys. xs = drop_last_while Q xs @ ys \<and> (\<forall>y \<in> set ys. Q y)"
proof -
  have "rev xs = takeWhile Q (rev xs) @ dropWhile Q (rev xs)" by simp
  then have "xs = drop_last_while Q xs @ rev (takeWhile Q (rev xs))"
    unfolding drop_last_while_def by (metis rev_append rev_rev_ident)
  then show ?thesis using set_takeWhileD by (metis set_rev)
qed

text \<open>On a stack ordered by frame, exactly the entries of the given frames are dropped.\<close>

lemma drop_last_while_sorted:
  assumes "sorted (map f xs)"
  shows "drop_last_while (\<lambda>x. n \<le> f x) xs = filter (\<lambda>x. f x < n) xs"
  using assms
proof (induction xs rule: rev_induct)
  case (snoc x xs)
  then show ?case
    by (cases "n \<le> f x") (force simp: drop_last_while_def sorted_append filter_empty_conv not_le
        intro: filter_True [symmetric])+
qed (simp add: drop_last_while_def)

lemma sorted_drop_last_while: "sorted (map f xs) \<Longrightarrow> sorted (map f (drop_last_while Q xs))"
  using drop_last_while_prefix [of xs Q] by (metis map_append sorted_append)

lemma set_drop_last_while: "set (drop_last_while Q xs) \<subseteq> set xs"
  by (auto simp: drop_last_while_def dest: set_dropWhileD)

lemma length_drop_last_while: "length (drop_last_while Q xs) \<le> length xs"
  by (metis drop_last_while_prefix le_add1 length_append)

section \<open>Lemmas: control handlers keep the invariant\<close>

lemma length_truncate_to [simp]: "length (truncate_to st n) = n"
  by (simp add: truncate_to_def)

lemma discard_frames_from_fields [simp]:
  "frames (discard_frames_from vm n) = frames vm" "stack (discard_frames_from vm n) = stack vm"
  "base_depth (discard_frames_from vm n) = base_depth vm"
  "dispatch_return_value (discard_frames_from vm n) = dispatch_return_value vm"
  "task_scopes (discard_frames_from vm n) = task_scopes vm"
  by (simp_all add: discard_frames_from_def)

text \<open>Discarding on an ordered stack keeps exactly the entries of the lower frames.\<close>

lemma discard_frames_from_sorted:
  "vm_wf vm \<Longrightarrow>
   discard_frames_from vm n =
     vm\<lparr>handlers := filter (\<lambda>h. eh_frame_index h < n) (handlers vm),
        shields := filter (\<lambda>s. sh_frame_index s < n) (shields vm)\<rparr>"
  by (simp add: discard_frames_from_def drop_last_while_sorted vm_wf_def)

lemma vm_shape_frame_change:
  assumes wf: "vm_wf vm" and "length s \<le> k_max" "\<forall>f \<in> set fs. fr_slot_offset f \<le> k_max"
    and same: "\<And>i. i < n \<Longrightarrow> i < length fs \<and> fs ! i = frames vm ! i"
  shows "vm_shape ((discard_frames_from vm n)\<lparr>stack := s, frames := fs\<rparr>)"
  using assms(2,3) wf same unfolding discard_frames_from_sorted [OF wf]
  by (auto simp: vm_wf_def vm_shape_def handler_ok_def sorted_filter intro: le_trans [OF length_filter_le])

lemma vm_wf_frame_change:
  assumes wf: "vm_wf vm" and "length s \<le> k_max" "\<forall>f \<in> set fs. fr_slot_offset f \<le> k_max" "fs \<noteq> []"
    and same: "\<And>i. i < n \<Longrightarrow> i < length fs \<and> fs ! i = frames vm ! i"
  shows "vm_wf ((discard_frames_from vm n)\<lparr>stack := s, frames := fs\<rparr>)"
  using vm_shape_frame_change [OF assms(1-3,5)] assms(1,4) by (simp add: vm_wf_iff)

lemma vm_wf_add_frame:
  assumes "vm_wf vm" "fr_slot_offset f \<le> k_max"
  shows "vm_wf (vm\<lparr>frames := frames vm @ [f]\<rparr>)"
  using assms by (auto simp: vm_wf_def handler_ok_def nth_append)

lemma last_frame_slot: "vm_wf vm \<Longrightarrow> fr_slot_offset (last (frames vm)) \<le> k_max"
  by (simp add: vm_wf_def)

lemma discard_commute:
  "discard_frames_from (vm\<lparr>frames := fs, stack := s\<rparr>) n = (discard_frames_from vm n)\<lparr>stack := s, frames := fs\<rparr>"
  by (rule vm.equality) (simp_all add: discard_frames_from_def)

definition running :: "vm \<Rightarrow> bool" where
  "running vm \<longleftrightarrow> vm_shape vm \<and> (vm_wf vm \<or> dispatch_return_value vm \<noteq> None)"

text \<open>The result of a handler: an exception leaves a well-formed machine, success a running one.\<close>

definition ok_ret :: "vm_throw + vm \<Rightarrow> bool" where
  "ok_ret r \<longleftrightarrow> (case r of Inl (e, vm) \<Rightarrow> vm_wf vm | Inr vm \<Rightarrow> running vm)"

lemma ok_running: "ok vm_wf (\<lambda>vm. vm) r \<Longrightarrow> ok_ret r"
  by (auto simp: ok_def ok_ret_def running_def vm_wf_iff split: sum.splits)

lemma complete_return_ok:
  assumes "vm_wf vm" "off \<le> k_max"
  shows "ok_ret (complete_return vm v off)"
proof -
  let ?vm = "(discard_frames_from vm (length (frames vm) - 1))\<lparr>stack := truncate_to (stack vm) off,
      frames := butlast (frames vm)\<rparr>"
  have shape: "vm_shape ?vm"
  proof (rule vm_shape_frame_change [OF assms(1)])
    show "length (truncate_to (stack vm) off) \<le> k_max" using assms(2) by simp
    show "\<forall>f \<in> set (butlast (frames vm)). fr_slot_offset f \<le> k_max"
      using assms(1) by (auto simp: vm_wf_def dest: in_set_butlastD)
    show "i < length (butlast (frames vm)) \<and> butlast (frames vm) ! i = frames vm ! i"
      if "i < length (frames vm) - 1" for i using that by (simp add: nth_butlast)
  qed
  show ?thesis
  proof (cases "length (frames vm) - 1 \<le> base_depth vm")
    case True
    then show ?thesis
      using shape by (simp add: complete_return_def discard_commute running_def ok_ret_def)
  next
    case False
    then have "butlast (frames vm) \<noteq> []" by (simp flip: length_greater_0_conv)
    with shape assms(1) have "vm_wf ?vm" by (simp add: vm_wf_iff)
    moreover have "complete_return vm v off = push ?vm v"
      using False by (simp add: complete_return_def discard_commute)
    ultimately show ?thesis using ok_running [OF wf.push_ok] by simp
  qed
qed

lemma ok_and_then_running:
  assumes "ok vm_wf f m" and "\<And>a. m = Inr a \<Longrightarrow> vm_wf (f a) \<Longrightarrow> ok_ret (k a)"
  shows "ok_ret (and_then m k)"
  using assms by (cases m) (auto simp: ok_ret_def)

lemma returns_ok:
  assumes "vm_wf vm"
  shows "ok_ret (op_return vm)" "ok_ret (op_get_local_return vm)"
proof -
  show "ok_ret (op_return vm)"
    unfolding op_return_def
    by (rule ok_and_then_running [OF wf.pop_ok [OF assms]])
      (auto intro!: complete_return_ok last_frame_slot)
  show "ok_ret (op_get_local_return vm)"
    unfolding op_get_local_return_def
    by (rule ok_and_then_running [OF wf.readers_ok(2) [OF assms]])
      (auto intro!: ok_and_then_running [OF wf.local_ok] complete_return_ok last_frame_slot)
qed

lemma call_function_ok:
  assumes "vm_wf vm"
  shows "ok vm_wf (\<lambda>vm. vm) (call_function env vm func n)"
proof -
  have depth: "ok vm_wf (\<lambda>_. vm) (validate_call_depth env vm)"
    using assms by (simp add: validate_call_depth_def Let_def)
  have slot: "call_frame_base_slot vm m \<le> k_max" if "vm_wf vm" for vm m
    using vm_wf_stack_bound [OF that] by (simp add: call_frame_base_slot_def)
  show ?thesis
    unfolding call_function_def
    by (auto simp: Let_def assms slot split: option.split
        intro!: ok_and_then [OF depth] ok_and_then [OF wf.check_cancellation_ok] ok_and_then [OF wf.bind_arguments_ok]
          vm_wf_add_frame ok_and_then [OF wf.pop_n_ok] ok_and_then [OF wf.pop_ok] wf.push_ok)
qed

lemma call_value_ok: "vm_wf vm \<Longrightarrow> ok vm_wf (\<lambda>vm. vm) (call_value env vm callee n)"
  by (auto simp: call_value_def call_function_ok wf.call_native_ok split: val.split value_type.split)

lemma op_call_ok:
  assumes "vm_wf vm"
  shows "ok vm_wf (\<lambda>vm. vm) (op_call env vm)"
  unfolding op_call_def
  by (rule ok_and_then [OF wf.readers_ok(1) [OF assms]])
    (auto intro!: ok_and_then [OF wf.peek_ok] call_value_ok)

lemma length_move_down [simp]: "length (move_down st dest src n) = length st"
  by (induction n arbitrary: st dest src) simp_all

lemma bind_arguments_length:
  "bind_arguments vm f n = Inr vm' \<Longrightarrow> length (stack vm') = length (stack vm) + (nat (cf_arity f) - n) \<and>
   frames vm' = frames vm \<and> int (max n (nat (cf_arity f))) = cf_arity f"
proof -
  have pad: "push_nones vm k = Inr vm' \<Longrightarrow> length (stack vm') = length (stack vm) + k \<and> frames vm' = frames vm"
    for vm vm' k
    by (induction k arbitrary: vm) (auto simp: and_then_Inr push_def split: if_splits)
  assume "bind_arguments vm f n = Inr vm'"
  then show ?thesis by (auto simp: bind_arguments_def and_then_Inr Let_def split: if_splits dest!: pad)
qed

lemma bind_arguments_Inr:
  assumes "bind_arguments vm f n = Inr vm'"
  shows "vm' = vm\<lparr>stack := stack vm @ replicate (nat (cf_arity f) - n) VNull\<rparr> \<and> int n \<le> cf_arity f"
proof -
  have pad: "vm' = vm\<lparr>stack := stack vm @ replicate k VNull\<rparr>" if "push_nones vm k = Inr vm'" for vm vm' k
    using that
  proof (induction k arbitrary: vm)
    case (Suc k)
    then obtain vm1 where "push vm VNull = Inr vm1" "push_nones vm1 k = Inr vm'" by (auto simp: and_then_Inr)
    with Suc.IH [of vm1] show ?case by (auto simp: push_def split: if_splits)
  qed simp
  show ?thesis
    using assms by (auto simp: bind_arguments_def and_then_Inr Let_def split: if_splits dest!: pad)
qed

lemma tail_call_frame_wf:
  assumes "vm_wf vm" "fr_slot_offset (last (frames vm)) + nat (cf_arity f) < k_max"
  shows "vm_wf (tail_call_frame vm callee f)"
proof -
  let ?base = "fr_slot_offset (last (frames vm))"
  let ?s = "truncate_to (move_down ((stack vm)[?base := callee]) (?base + 1)
      (length (stack vm) - nat (cf_arity f)) (nat (cf_arity f))) (?base + 1 + nat (cf_arity f))"
  let ?fs = "butlast (frames vm) @ [(last (frames vm))\<lparr>fr_function := f, fr_ip := 0,
      fr_closure := function_object callee\<rparr>]"
  have "vm_wf ((discard_frames_from vm (length (frames vm) - 1))\<lparr>stack := ?s, frames := ?fs\<rparr>)"
  proof (rule vm_wf_frame_change [OF assms(1)])
    show "length ?s \<le> k_max" using assms(2) by simp
    show "\<forall>f \<in> set ?fs. fr_slot_offset f \<le> k_max"
      using assms(1) last_frame_slot [OF assms(1)] by (auto simp: vm_wf_def dest: in_set_butlastD)
    show "i < length ?fs \<and> ?fs ! i = frames vm ! i" if "i < length (frames vm) - 1" for i
      using that by (simp add: nth_append nth_butlast)
  qed simp
  moreover have "tail_call_frame vm callee f =
      (discard_frames_from vm (length (frames vm) - 1))\<lparr>stack := ?s, frames := ?fs\<rparr>"
    unfolding tail_call_frame_def Let_def by (rule vm.equality) (simp_all add: discard_frames_from_def)
  ultimately show ?thesis by simp
qed

text \<open>A frame owns the callee and the arguments it passes on in a tail call.\<close>

definition tail_call_owned :: "vm \<Rightarrow> bool" where
  "tail_call_owned vm \<longleftrightarrow>
     (let frame = last (frames vm); code = ch_code (cf_chunk (fr_function frame))
      in code ! fr_ip frame = Op_TailCall \<longrightarrow>
         fr_slot_offset frame + unat (code ! (fr_ip frame + 1)) < length (stack vm))"

lemma read_byte_Inr:
  "read_byte vm = Inr (b, vm') \<Longrightarrow>
   b = ch_code (cf_chunk (fr_function (last (frames vm)))) ! fr_ip (last (frames vm)) \<and>
   vm' = set_ip vm (fr_ip (last (frames vm)) + 1)"
  by (auto simp: read_byte_def and_then_Inr Let_def)

lemma last_frame_set_ip [simp]: "last (frames (set_ip vm ip)) = (last (frames vm))\<lparr>fr_ip := ip\<rparr>"
  by (simp add: set_ip_def)

lemma tail_call_ok:
  assumes "vm_wf vm" and owned: "fr_slot_offset (last (frames vm)) +
      unat (ch_code (cf_chunk (fr_function (last (frames vm)))) ! fr_ip (last (frames vm))) < length (stack vm)"
  shows "ok vm_wf (\<lambda>vm. vm) (handle_tail_call env vm)"
  unfolding handle_tail_call_def
proof (rule ok_and_then [OF wf.readers_ok(1) [OF assms(1)]], clarsimp, rule ok_and_then [OF wf.peek_ok], assumption)
  fix n vm1 callee
  assume read: "read_byte vm = Inr (n, vm1)" and wf1: "vm_wf vm1"
  have bound: "fr_slot_offset (last (frames vm1)) + unat n < length (stack vm1)"
    using owned read_byte_Inr [OF read] by simp
  have frame: "ok vm_wf (\<lambda>vm. vm) (and_then (bind_arguments vm1 f (unat n)) (\<lambda>vm. Inr (tail_call_frame vm callee f)))"
    for f callee
  proof (rule ok_and_then [OF wf.bind_arguments_ok [OF wf1]], simp)
    fix vm2 assume bind: "bind_arguments vm1 f (unat n) = Inr vm2" and wf2: "vm_wf vm2"
    have "fr_slot_offset (last (frames vm2)) + nat (cf_arity f) < length (stack vm2)"
      using bind_arguments_length [OF bind] bound by auto
    with vm_wf_stack_bound [OF wf2] show "vm_wf (tail_call_frame vm2 callee f)"
      by (intro tail_call_frame_wf [OF wf2]) simp
  qed
  show "ok vm_wf (\<lambda>vm. vm)
      (case callee of
         VObject VT_Function i \<Rightarrow>
           (case fv_compiled (objects vm1 ! i) of
              Some f \<Rightarrow> and_then (check_cancellation env vm1) (\<lambda>_.
                and_then (bind_arguments vm1 f (unat n)) (\<lambda>vm. Inr (tail_call_frame vm callee f)))
            | None \<Rightarrow> call_value env vm1 callee (unat n))
       | _ \<Rightarrow> call_value env vm1 callee (unat n))"
    by (auto split: val.split value_type.split option.split
        intro!: ok_and_then [OF wf.check_cancellation_ok] frame call_value_ok wf1)
qed

lemma pipe_ok:
  assumes "vm_wf vm"
  shows "ok vm_wf (\<lambda>vm. vm) (handle_pipe env vm)" "ok vm_wf (\<lambda>vm. vm) (handle_error_pipe env vm)"
proof -
  have call: "ok vm_wf (\<lambda>vm. vm) (and_then (push vm callee) (\<lambda>vm. and_then (push vm v) (\<lambda>vm.
      and_then (peek vm 1) (\<lambda>callee. call_value env vm callee 1))))" if "vm_wf vm" for vm callee v
    by (rule ok_and_then [OF wf.push_ok [OF that]], rule ok_and_then [OF wf.push_ok], assumption,
        rule ok_and_then [OF wf.peek_ok], assumption, rule call_value_ok)
  show "ok vm_wf (\<lambda>vm. vm) (handle_pipe env vm)"
    unfolding handle_pipe_def
    by (rule ok_and_then [OF wf.pop_ok [OF assms]], clarsimp, rule ok_and_then [OF wf.pop_ok], assumption)
      (auto intro: call [simplified])
  show "ok vm_wf (\<lambda>vm. vm) (handle_error_pipe env vm)"
    unfolding handle_error_pipe_def Let_def
    by (rule ok_and_then [OF wf.pop_ok [OF assms]], clarsimp, rule ok_and_then [OF wf.pop_ok], assumption)
      (auto split: val.split value_type.split prod.split intro: call [simplified] wf.push_ok)
qed

lemma push_handler_ok:
  assumes "vm_wf vm" "eh_frame_index h = length (frames vm) - 1"
    "eh_catch_ip h \<le> frame_code_length (last (frames vm))"
  shows "ok vm_wf (\<lambda>vm. vm) (push_handler vm h)"
  using assms
  by (auto simp: push_handler_def vm_wf_def handler_ok_def sorted_append last_conv_nth less_Suc_eq_le
      simp flip: length_greater_0_conv)

lemma try_ok:
  assumes "vm_wf vm"
  shows "ok vm_wf (\<lambda>vm. vm) (handle_try_catch vm)" "ok vm_wf (\<lambda>vm. vm) (op_try_end vm)"
proof -
  show "ok vm_wf (\<lambda>vm. vm) (handle_try_catch vm)"
    unfolding handle_try_catch_def
    by (rule ok_and_then [OF wf.readers_ok(3) [OF assms]])
      (auto simp: Let_def frame_code_length_def intro!: push_handler_ok)
  show "ok vm_wf (\<lambda>vm. vm) (op_try_end vm)"
    using assms
    by (auto simp: op_try_end_def pop_handler_discard_def vm_wf_def handler_ok_def sorted_butlast map_butlast
        dest: in_set_butlastD)
qed

lemma end_cancel_shields_wf: "vm_wf vm \<Longrightarrow> vm_wf (end_cancel_shields_from vm i d)"
  by (auto simp: vm_wf_def handler_ok_def end_cancel_shields_from_def sorted_drop_last_while
      dest!: subsetD [OF set_drop_last_while])

lemma rethrow_ok:
  assumes "vm_wf vm"
  shows "ok vm_wf (\<lambda>vm. vm) (op_rethrow env vm)"
  unfolding op_rethrow_def
  by (rule ok_and_then [OF wf.pop_ok [OF assms]]) (auto simp: Let_def intro: end_cancel_shields_wf)

section \<open>Lemmas: exception dispatch keeps the invariant\<close>

lemma push_cancel_shield_wf:
  assumes "vm_wf vm" "length (frames vm) = i + 1"
  shows "vm_wf (push_cancel_shield vm i d)"
proof -
  have "sh_frame_index s \<le> i" if "s \<in> set (shields vm)" for s
  proof -
    have "sh_frame_index s < length (frames vm)" using assms(1) that by (simp add: vm_wf_def)
    then show ?thesis using assms(2) by simp
  qed
  moreover have "sh_frame_index s < length (frames vm)" if "s \<in> set (shields (push_cancel_shield vm i d))" for s
    using that assms by (auto simp: push_cancel_shield_def vm_wf_def)
  ultimately show ?thesis
    using assms(1) unfolding vm_wf_def by (simp add: push_cancel_shield_def sorted_append handler_ok_def)
qed

lemma vm_wf_butlast_handlers: "vm_wf vm \<Longrightarrow> vm_wf (vm\<lparr>handlers := butlast (handlers vm)\<rparr>)"
  by (auto simp: vm_wf_def handler_ok_def map_butlast sorted_butlast dest: in_set_butlastD)

lemma sorted_map_last: "sorted (map f xs) \<Longrightarrow> x \<in> set xs \<Longrightarrow> f x \<le> f (last xs)"
  by (cases xs rule: rev_cases) (auto simp: sorted_append)

lemma last_drop_last_while: "drop_last_while Q xs \<noteq> [] \<Longrightarrow> \<not> Q (last (drop_last_while Q xs))"
  using hd_dropWhile [of Q "rev xs"] by (simp add: drop_last_while_def last_rev)

lemma end_cancel_shields_sorted:
  assumes "vm_wf vm" and "s \<in> set (shields (end_cancel_shields_from vm i d))"
  shows "sh_frame_index s \<le> i"
proof -
  let ?Q = "\<lambda>s. i < sh_frame_index s \<or> sh_frame_index s = i \<and> d \<le> sh_stack_depth s"
  let ?kept = "drop_last_while ?Q (shields vm)"
  have s: "s \<in> set ?kept" using assms(2) by (simp add: end_cancel_shields_from_def)
  have "sorted (map sh_frame_index ?kept)"
    using assms(1) by (intro sorted_drop_last_while) (simp add: vm_wf_def)
  then have "sh_frame_index s \<le> sh_frame_index (last ?kept)" using s by (rule sorted_map_last)
  moreover have "?kept \<noteq> []" using s by auto
  ultimately show ?thesis using last_drop_last_while [of ?Q "shields vm"] by (metis leI le_less_trans not_less)
qed

lemma resume_at_handler_ok:
  assumes wf: "vm_wf vm" and h: "handler_ok vm h" "eh_stack_depth h \<le> length (stack vm)"
    and order: "\<forall>h' \<in> set (handlers vm). eh_frame_index h' \<le> eh_frame_index h"
  shows "ok vm_wf (\<lambda>vm. vm) (resume_at_handler vm h v)"
proof -
  let ?i = "eh_frame_index h"
  define vm1 where "vm1 = end_cancel_shields_from ((unwind_task_scopes_to vm (eh_task_scope_depth h))
      \<lparr>frames := take (?i + 1) (frames vm)\<rparr>) ?i (eh_stack_depth h)"
  let ?vm = "vm1\<lparr>stack := truncate_to (stack vm) (eh_stack_depth h)\<rparr>"
  have shields: "sh_frame_index s \<le> ?i" if "s \<in> set (shields vm1)" for s
    using end_cancel_shields_sorted [OF wf, of s ?i "eh_stack_depth h"] that
    by (simp add: vm1_def end_cancel_shields_from_def unwind_task_scopes_to_def)
  have "vm_wf ?vm"
    using wf h order shields vm_wf_stack_bound [OF wf]
    by (auto simp: vm_wf_def handler_ok_def vm1_def end_cancel_shields_from_def unwind_task_scopes_to_def
        sorted_drop_last_while less_Suc_eq_le dest: in_set_takeD)
  moreover have "resume_at_handler vm h v = and_then (push ?vm v) (\<lambda>vm. Inr (set_ip vm (eh_catch_ip h)))"
    by (simp add: resume_at_handler_def vm1_def Let_def end_cancel_shields_from_def unwind_task_scopes_to_def)
  ultimately show ?thesis
    by (auto intro!: ok_and_then [OF wf.push_ok] vm_wf_set_ip)
qed

lemma resume_at_handler_frames:
  "resume_at_handler vm h v = Inr vm' \<Longrightarrow> eh_frame_index h < length (frames vm) \<Longrightarrow>
   length (frames vm') = eh_frame_index h + 1"
  by (auto simp: resume_at_handler_def and_then_Inr Let_def push_def end_cancel_shields_from_def
      unwind_task_scopes_to_def set_ip_def split: if_splits)

definition outcome_ok :: "dispatch_outcome \<Rightarrow> bool" where
  "outcome_ok r \<longleftrightarrow> (case r of Resumed vm \<Rightarrow> vm_wf vm | Not_Handled vm \<Rightarrow> vm_wf vm | Raised_Again t \<Rightarrow> vm_wf (snd t))"

lemma handlers_below_last:
  assumes "vm_wf vm" "handlers vm \<noteq> []" "h \<in> set (butlast (handlers vm))"
  shows "eh_frame_index h \<le> eh_frame_index (last (handlers vm))"
  using assms by (cases "handlers vm" rule: rev_cases) (auto simp: vm_wf_def sorted_append)

lemma dispatch_to_ok:
  assumes wf: "vm_wf vm" and last: "handlers vm \<noteq> []" "is_valid_handler vm (last (handlers vm))"
    and r: "resume_at_handler (vm\<lparr>handlers := butlast (handlers vm)\<rparr>) (last (handlers vm)) v = r"
  shows "(case r of Inl t \<Rightarrow> vm_wf (snd t)
          | Inr vm' \<Rightarrow> vm_wf vm' \<and> (\<forall>d. vm_wf (push_cancel_shield vm' (eh_frame_index (last (handlers vm))) d)))"
proof -
  let ?vm = "vm\<lparr>handlers := butlast (handlers vm)\<rparr>" and ?h = "last (handlers vm)"
  have h: "handler_ok ?vm ?h" using wf last(1) by (simp add: vm_wf_def handler_ok_def)
  have "ok vm_wf (\<lambda>vm. vm) (resume_at_handler ?vm ?h v)"
    using last(2) handlers_below_last [OF wf last(1)]
    by (intro resume_at_handler_ok vm_wf_butlast_handlers wf h) (auto simp: is_valid_handler_def)
  moreover have "length (frames vm') = eh_frame_index ?h + 1" if "r = Inr vm'" for vm'
    using resume_at_handler_frames [of ?vm ?h v vm'] r that h by (simp add: handler_ok_def)
  ultimately show ?thesis using r by (auto split: sum.split intro: push_cancel_shield_wf)
qed

lemma is_valid_handler_butlast [simp]: "is_valid_handler (vm\<lparr>handlers := hs\<rparr>) h = is_valid_handler vm h"
  by (simp add: is_valid_handler_def)

lemma handle_exception_ok:
  assumes "vm_wf vm"
  shows "outcome_ok (handle_exception env vm m ev)"
  using assms dispatch_to_ok [OF assms _ _ refl] vm_wf_butlast_handlers [OF assms]
  by (fastforce simp: handle_exception_def outcome_ok_def has_handler_for_def Let_def split: sum.splits)

lemma find_cancel_target_ok:
  assumes "vm_wf vm" and "find_cancel_target env vm = (r, vm')"
  shows "vm_wf vm' \<and> (\<forall>h c. r = Some (h, c) \<longrightarrow> (\<exists>vm1. vm_wf vm1 \<and> handlers vm1 \<noteq> [] \<and>
           is_valid_handler vm1 (last (handlers vm1)) \<and> h = last (handlers vm1) \<and>
           vm' = vm1\<lparr>handlers := butlast (handlers vm1)\<rparr>))"
  using assms
proof (induction env vm rule: find_cancel_target.induct)
  case (1 env vm)
  show ?case
    using "1.prems"(2) "1.IH" [OF _ refl refl] vm_wf_butlast_handlers [OF "1.prems"(1)] "1.prems"(1)
    unfolding find_cancel_target.simps [of env vm]
    by (auto simp: Let_def has_handler_for_def split: if_splits)
qed

lemma handle_cancellation_ok:
  assumes "vm_wf vm"
  shows "outcome_ok (handle_cancellation env vm m)"
proof -
  obtain r vm' where find: "find_cancel_target env vm = (r, vm')" by fastforce
  note target = find_cancel_target_ok [OF assms find]
  show ?thesis
  proof (cases r)
    case None
    then show ?thesis using target find by (simp add: handle_cancellation_def outcome_ok_def)
  next
    case (Some hc)
    then obtain h c where r: "r = Some (h, c)" by (cases hc) auto
    with target obtain vm1 where vm1: "vm_wf vm1" "handlers vm1 \<noteq> []"
      "is_valid_handler vm1 (last (handlers vm1))" "h = last (handlers vm1)"
      "vm' = vm1\<lparr>handlers := butlast (handlers vm1)\<rparr>" by blast
    show ?thesis
      using dispatch_to_ok [OF vm1(1-3) refl, of "if c then cancellation_marker else VString m"]
      unfolding handle_cancellation_def find r vm1(4,5) outcome_ok_def
      by (auto split: sum.splits)
  qed
qed

lemma dispatch_exception_ok: "vm_wf (snd t) \<Longrightarrow> outcome_ok (dispatch_exception env t)"
  by (auto simp: dispatch_exception_def handle_exception_ok handle_cancellation_ok
      split: prod.split vm_error.split)

section \<open>Lemmas: one turn\<close>

lemma control_handler_ok:
  assumes "control_handler env op = Some h" and "vm_wf vm"
    and "op = Op_TailCall \<Longrightarrow> fr_slot_offset (last (frames vm)) +
      unat (ch_code (cf_chunk (fr_function (last (frames vm)))) ! fr_ip (last (frames vm))) < length (stack vm)"
  shows "ok_ret (h vm)"
proof -
  note entry = map_of_SomeD [OF assms(1) [unfolded control_handler_def], unfolded list.set insert_iff prod.inject]
  note keeps = wf.loop_ok [OF assms(2)] wf.coalesce_ok [OF assms(2)] op_call_ok [OF assms(2)] pipe_ok [OF assms(2)]
    wf.make_closure_ok [OF assms(2)] wf.upvalue_ops_ok [OF assms(2)] try_ok [OF assms(2)] rethrow_ok [OF assms(2)]
  have module: "ok_ret (op_end_module vm)"
    using assms(2) by (simp add: op_end_module_def running_def ok_ret_def vm_wf_iff)
  from entry show ?thesis
    by (elim disjE conjE)
      (simp_all add: returns_ok [OF assms(2)] module keeps [THEN ok_running]
        tail_call_ok [OF assms(2) assms(3), THEN ok_running])
qed

lemma handler_of_ok:
  assumes "handler_of env (ch_code (cf_chunk (fr_function (last (frames vm)))) ! fr_ip (last (frames vm))) = Some h"
    and "vm_wf vm" and "tail_call_owned vm"
  shows "ok_ret (h (set_ip vm (fr_ip (last (frames vm)) + 1)))"
  using assms(1) wf.modelled_handler_ok [OF _ vm_wf_set_ip [OF assms(2)], THEN ok_running]
    control_handler_ok [OF _ vm_wf_set_ip [OF assms(2)]] assms(3)
  by (auto simp: handler_of_def tail_call_owned_def Let_def split: option.splits)

text \<open>A turn leaves a well-formed machine when it goes on or throws; when \<^verbatim>\<open>run\<close> returns, the last
  frame may be gone.\<close>

definition turn_ok :: "turn \<Rightarrow> bool" where
  "turn_ok t \<longleftrightarrow>
     (case t of
        Continue vm \<Rightarrow> vm_wf vm
      | Thrown e vm \<Rightarrow> vm_wf vm
      | Finished v vm \<Rightarrow> dispatch_return_value vm = None \<and> vm_shape vm
      | Unmodelled \<Rightarrow> True)"

lemma unwind_task_scopes_wf: "vm_wf vm \<Longrightarrow> vm_wf (unwind_task_scopes_to vm n)"
  by (simp add: unwind_task_scopes_to_def vm_wf_def handler_ok_def)

lemma catch_turn_ok: "vm_wf (snd t) \<Longrightarrow> turn_ok (catch_turn env sb t)"
  using dispatch_exception_ok [of t env]
  by (auto simp: catch_turn_def outcome_ok_def turn_ok_def unwind_task_scopes_wf
      split: dispatch_outcome.splits prod.splits)

lemma finish_turn_ok: "running vm \<Longrightarrow> turn_ok (finish_turn vm)"
  by (auto simp: finish_turn_def turn_ok_def running_def split: option.split)

section \<open>The guarantees\<close>

text \<open>C4: Every turn of the dispatch loop at a modelled opcode keeps the machine well formed, through calls,
  returns, tail calls, closures, loops, handlers and exceptions, whether the turn goes on, lets an
  exception leave the loop or returns from it: the stack stays within its storage, and every exception
  handler belongs to a live frame, in frame order, and resumes inside that frame's code; a frame keeps
  running unless the loop returns.  The one condition is on a turn at a \<^verbatim>\<open>TailCall\<close>, whose frame
  must own the callee and the arguments it passes; the VM does not check it.\<close>

theorem run_turn_keeps_invariant:
  assumes "vm_wf vm" and "tail_call_owned vm"
  shows "case run_turn env scope_base vm of
           Continue vm' \<Rightarrow> vm_wf vm'
         | Thrown e vm' \<Rightarrow> vm_wf vm'
         | Finished v vm' \<Rightarrow> dispatch_return_value vm' = None \<and> vm_shape vm'
         | Unmodelled \<Rightarrow> handler_of env (vm_code vm ! vm_ip vm) = None"
proof (cases "ensure_bytecode_available vm (last (frames vm)) 1")
  case (Inl t)
  then have "vm_wf (snd t)"
    using assms(1) by (auto simp: ensure_bytecode_available_def runtime_error_def split: if_splits)
  then have "turn_ok (run_turn env scope_base vm)" using Inl catch_turn_ok by (simp add: run_turn_def Let_def)
  moreover have "run_turn env scope_base vm \<noteq> Unmodelled"
    using Inl by (simp add: run_turn_def Let_def catch_turn_def split: dispatch_outcome.split prod.split)
  ultimately show ?thesis by (auto simp: turn_ok_def split: turn.splits)
next
  case fetch: (Inr u)
  show ?thesis
  proof (cases "handler_of env (vm_code vm ! vm_ip vm)")
    case None
    with fetch show ?thesis by (simp add: run_turn_def Let_def)
  next
    case (Some h)
    note ok = handler_of_ok [OF Some assms]
    have "turn_ok (run_turn env scope_base vm) \<and> run_turn env scope_base vm \<noteq> Unmodelled"
    proof (cases "h (set_ip vm (vm_ip vm + 1))")
      case (Inl t)
      then have "run_turn env scope_base vm = catch_turn env scope_base t"
        using fetch Some by (simp add: run_turn_def Let_def)
      moreover have "vm_wf (snd t)" using ok Inl by (auto simp: ok_ret_def split: prod.splits)
      ultimately show ?thesis
        using catch_turn_ok [of t] by (simp add: catch_turn_def split: dispatch_outcome.split prod.split)
    next
      case (Inr vm1)
      then have "run_turn env scope_base vm = finish_turn vm1"
        using fetch Some by (simp add: run_turn_def Let_def)
      with ok Inr finish_turn_ok [of vm1] show ?thesis
        by (simp add: ok_ret_def finish_turn_def split: option.split)
    qed
    then show ?thesis by (auto simp: turn_ok_def split: turn.splits)
  qed
qed

text \<open>A function whose first instruction opens a try block with its handler at offset 7.\<close>

definition try_code :: "byte list" where
  "try_code = [Op_TryCatch, 0, 0, 0, 2, Op_None, Op_Return, Op_Return]"

definition try_handler :: exception_handler where
  "try_handler = \<lparr>eh_catch_ip = 7, eh_frame_index = 0, eh_stack_depth = 1, eh_task_scope_depth = 0\<rparr>"

lemma try_turn:
  "run_turn sample_env 0 (sample_frame_vm (code_function try_code 0) 0 [VNull]) =
     Continue ((sample_frame_vm (code_function try_code 0) 5 [VNull])\<lparr>handlers := [try_handler]\<rparr>)"
proof -
  have "unat (read_u32_be [0, 0, 0, 2]) = 2" by code_simp
  then show ?thesis
    by (simp add: run_turn_def sample_frame_vm_def sample_vm_def ensure_bytecode_available_def try_code_def
        handler_of_def modelled_handler_def control_handler_def handle_try_catch_def vm_read_u32_def set_ip_def
        push_handler_def k_max_depth_def finish_turn_def try_handler_def Let_def read_u32_be_def)
qed

lemma sample_frame_wf: "length vs \<le> 65536 \<Longrightarrow> vm_wf (sample_frame_vm f ip vs)"
  by (simp add: vm_wf_def sample_frame_vm_def sample_vm_def k_max_def k_max_depth_def)

theorem run_turn_keeps_invariant_witness:
  "vm_wf ((sample_frame_vm (code_function try_code 0) 5 [VNull])\<lparr>handlers := [try_handler]\<rparr>)"
  using run_turn_keeps_invariant [OF sample_frame_wf [of "[VNull]" "code_function try_code 0" 0],
      of sample_env 0] try_turn
  by (simp add: tail_call_owned_def sample_frame_vm_def sample_vm_def try_code_def)



text \<open>C18: A return undoes its call.  A call of a compiled function with \<^verbatim>\<open>n\<close> arguments pushes one frame
  and pads the missing optional ones; from any later machine in which that frame is on top with the caller's
  frames below it, the caller's slots are untouched, and the callee has left any values, exception handlers
  and cancel shields of its own, a return gives the caller back its frames, its handlers and its shields,
  with the callee and its arguments on the stack replaced by the result.\<close>

theorem call_return_balances:
  assumes "vm_wf vm" and "fv_compiled (objects vm ! i) = Some f" and "n + 1 \<le> length (stack vm)"
    and "call_value env vm (VObject VT_Function i) n = Inr vm1"
    and "frames vm2 = frames vm @ [(last (frames vm1))\<lparr>fr_ip := ip\<rparr>]" and "base_depth vm2 < length (frames vm)"
    and "stack vm2 = take (length (stack vm) - n - 1) (stack vm) @ ws @ [v]"
    and "handlers vm2 = handlers vm @ hs" and "list_all (\<lambda>h. length (frames vm) \<le> eh_frame_index h) hs"
    and "shields vm2 = shields vm @ ss" and "list_all (\<lambda>s. length (frames vm) \<le> sh_frame_index s) ss"
  shows "(\<exists>frame. frames vm1 = frames vm @ [frame] \<and> fr_function frame = f \<and> fr_ip frame = 0 \<and>
            stack vm1 = stack vm @ replicate (nat (cf_arity f) - n) VNull) \<and>
         (\<exists>vm3. op_return vm2 = Inr vm3 \<and> frames vm3 = frames vm \<and>
            stack vm3 = take (length (stack vm) - n - 1) (stack vm) @ [v] \<and>
            handlers vm3 = handlers vm \<and> shields vm3 = shields vm)"
proof -
  from assms(2,4) obtain frame where frame: "frames vm1 = frames vm @ [frame]" "fr_function frame = f"
    "fr_ip frame = 0" "fr_slot_offset frame = length (stack vm) - n - 1"
    "stack vm1 = stack vm @ replicate (nat (cf_arity f) - n) VNull"
    by (auto simp: call_value_def call_function_def and_then_Inr Let_def call_frame_base_slot_def
        dest!: bind_arguments_Inr)
  have own: "drop_last_while Q (xs @ ys) = xs"
    if "list_all Q ys" "\<forall>x \<in> set xs. \<not> Q x" for Q :: "'b \<Rightarrow> bool" and xs ys
    using that by (cases xs rule: rev_cases) (simp_all add: drop_last_while_def dropWhile_append list_all_iff)
  have "drop_last_while (\<lambda>h. length (frames vm) \<le> eh_frame_index h) (handlers vm @ hs) = handlers vm"
    using assms(1,9) by (intro own) (auto simp: vm_wf_def handler_ok_def not_le)
  moreover have "drop_last_while (\<lambda>s. length (frames vm) \<le> sh_frame_index s) (shields vm @ ss) = shields vm"
    using assms(1,11) by (intro own) (auto simp: vm_wf_def not_le)
  moreover have "length (stack vm) \<le> k_max" by (rule vm_wf_stack_bound [OF assms(1)])
  ultimately have "\<exists>vm3. op_return vm2 = Inr vm3 \<and> frames vm3 = frames vm \<and>
      stack vm3 = take (length (stack vm) - n - 1) (stack vm) @ [v] \<and>
      handlers vm3 = handlers vm \<and> shields vm3 = shields vm"
    using assms(3,5-8,10) frame(1,4)
    by (simp add: op_return_def pop_def complete_return_def Let_def push_def truncate_to_def
        discard_frames_from_def butlast_append)
  with frame show ?thesis by blast
qed


text \<open>The identity function applied to an argument by a caller whose frame is at the bottom.\<close>

definition identity_function :: compiled_function where
  "identity_function = code_function [Op_GetLocalReturn, 0, 1] 1"

definition call_handler :: exception_handler where
  "call_handler = \<lparr>eh_catch_ip = 2, eh_frame_index = 0, eh_stack_depth = 1, eh_task_scope_depth = 0\<rparr>"

definition call_vm :: vm where
  "call_vm = (sample_frame_vm (code_function [Op_Call, 1, Op_Return] 0) 2 [VNull, VObject VT_Function 0, VBool True])
     \<lparr>handlers := [call_handler], objects := [\<lparr>fv_name = ''id'', fv_compiled = Some identity_function, fv_upvalues = [], fv_cells = [],
       fv_table = None\<rparr>]\<rparr>"

text \<open>The caller is inside a try block, and the callee returns out of one of its own.\<close>

theorem call_return_balances_witness:
  "\<exists>vm1 vm3. call_value sample_env call_vm (VObject VT_Function 0) 1 = Inr vm1 \<and>
     op_return (vm1\<lparr>stack := stack vm1 @ [VBool True], handlers := handlers vm1 @ [try_handler\<lparr>eh_frame_index := 1\<rparr>]\<rparr>) =
       Inr vm3 \<and>
     frames vm3 = frames call_vm \<and> stack vm3 = [VNull, VBool True] \<and> handlers vm3 = [call_handler]"
proof -
  let ?frame = "\<lparr>fr_function = identity_function, fr_ip = 0, fr_slot_offset = 1, fr_closure = Some 0\<rparr>"
  let ?vm1 = "call_vm\<lparr>frames := frames call_vm @ [?frame]\<rparr>"
  let ?vm2 = "?vm1\<lparr>stack := stack ?vm1 @ [VBool True], handlers := handlers ?vm1 @ [try_handler\<lparr>eh_frame_index := 1\<rparr>]\<rparr>"
  have call: "call_value sample_env call_vm (VObject VT_Function 0) 1 = Inr ?vm1"
    by (simp add: call_value_def call_function_def call_vm_def identity_function_def validate_call_depth_def
        effective_max_call_depth_def check_cancellation_def bind_arguments_def call_frame_base_slot_def
        sample_env_def sample_frame_vm_def sample_vm_def function_object_def code_function_def empty_function_def)
  have wf: "vm_wf call_vm"
    by (simp add: vm_wf_def call_vm_def sample_frame_vm_def sample_vm_def k_max_def k_max_depth_def handler_ok_def
        call_handler_def frame_code_length_def)
  have f: "fv_compiled (objects call_vm ! 0) = Some identity_function" "1 + 1 \<le> length (stack call_vm)"
    by (simp_all add: call_vm_def sample_frame_vm_def sample_vm_def)
  from call_return_balances [OF wf f call, of ?vm2 0 "[VObject VT_Function 0, VBool True]" "VBool True"
      "[try_handler\<lparr>eh_frame_index := 1\<rparr>]" "[]"]
  have "\<exists>vm3. op_return ?vm2 = Inr vm3 \<and> frames vm3 = frames call_vm \<and> stack vm3 = [VNull, VBool True] \<and>
      handlers vm3 = [call_handler]"
    by (simp add: call_vm_def sample_frame_vm_def sample_vm_def) blast
  with call show ?thesis by blast
qed

text \<open>C34: A tail call reuses the frame in place: below the frame nothing changes, and the frame's slots become
  exactly the callee and its arguments, whatever the overlap between the old slots and the arguments moved
  down over them.\<close>

theorem tail_call_moves_arguments:
  assumes "fr_slot_offset (last (frames vm)) + 1 + nat (cf_arity f) \<le> length (stack vm)"
  shows "stack (tail_call_frame vm callee f) =
           take (fr_slot_offset (last (frames vm))) (stack vm) @ callee #
           drop (length (stack vm) - nat (cf_arity f)) (stack vm)"
proof -
  have move: "take (dest + n) (move_down st dest src n) = take dest st @ take n (drop src st)"
    if "dest \<le> src" "src + n \<le> length st" for st :: "val list" and dest src n
    using that
  proof (induction n arbitrary: st dest src)
    case (Suc n)
    have "take (dest + Suc n) (move_down st dest src (Suc n)) =
        take (dest + 1) (st[dest := st ! src]) @ take n (drop (src + 1) (st[dest := st ! src]))"
      using Suc.prems Suc.IH [of "dest + 1" "src + 1" "st[dest := st ! src]"] by simp
    also have "\<dots> = take dest st @ st ! src # take n (drop (src + 1) st)"
      using Suc.prems by (simp add: take_Suc_conv_app_nth drop_update_cancel)
    also have "\<dots> = take dest st @ take (Suc n) (drop src st)"
      using Suc.prems by (simp add: Cons_nth_drop_Suc [symmetric])
    finally show ?case .
  qed simp
  let ?base = "fr_slot_offset (last (frames vm))" and ?n = "nat (cf_arity f)"
  have "take (?base + 1 + ?n) (move_down ((stack vm)[?base := callee]) (?base + 1) (length (stack vm) - ?n) ?n) =
      take (?base + 1) ((stack vm)[?base := callee]) @
      take ?n (drop (length (stack vm) - ?n) ((stack vm)[?base := callee]))"
    using assms by (intro move) simp_all
  also have "\<dots> = take ?base (stack vm) @ callee # drop (length (stack vm) - ?n) (stack vm)"
    using assms by (simp add: take_Suc_conv_app_nth drop_update_cancel)
  finally show ?thesis
    using assms by (simp add: tail_call_frame_def Let_def truncate_to_def)
qed

theorem tail_call_moves_arguments_witness:
  "stack (tail_call_frame (call_vm\<lparr>stack := [VNull, VBool False, VObject VT_Function 0, VBool True]\<rparr>)
      (VObject VT_Function 0) identity_function) = [VObject VT_Function 0, VBool True]"
  using tail_call_moves_arguments [of "call_vm\<lparr>stack := [VNull, VBool False, VObject VT_Function 0, VBool True]\<rparr>"
      identity_function "VObject VT_Function 0"]
  by (simp add: call_vm_def sample_frame_vm_def identity_function_def)

text \<open>Each backward jump that succeeds spends one unit of the total iteration budget, and none succeeds
  once the budget is spent.\<close>

theorem loop_budget_spent:
  assumes "handle_loop env vm = Inr vm'"
  shows "total_loop_iterations vm' = total_loop_iterations vm + 1 \<and>
         total_loop_iterations vm' \<le> max_total_loop_iterations env \<and>
         loop_iterations vm' \<le> max_while_iterations env \<and> stack vm' = stack vm"
  using assms
  by (auto simp: handle_loop_def and_then_Inr Let_def vm_read_u32_def set_ip_def split: if_splits)

theorem loop_budget_spent_witness:
  "\<exists>vm'. handle_loop sample_env (sample_frame_vm (code_function [Op_Loop, 0, 0, 0, 5] 0) 1 []) = Inr vm' \<and>
         total_loop_iterations vm' = 1"
proof -
  let ?vm = "sample_frame_vm (code_function [Op_Loop, 0, 0, 0, 5] 0) 1 []"
  have run: "\<exists>vm'. handle_loop sample_env ?vm = Inr vm'"
    by (simp add: handle_loop_def vm_read_u32_def sample_frame_vm_def sample_vm_def sample_env_def Let_def
        ensure_bytecode_available_def set_ip_def check_cancellation_def code_function_def empty_function_def)
  then obtain vm' where "handle_loop sample_env ?vm = Inr vm'" by blast
  with loop_budget_spent [OF this] show ?thesis by (auto simp: sample_frame_vm_def sample_vm_def)
qed

end
