(* ===== verification/VM_Machine.thy ===== *)
theory VM_Machine
  imports VM_Control_Props
begin

text \<open>
  Whole runs of verified code.  The control handlers that stay in their frame follow the verifier's flow
  edges like the straight-line ones do; a call leaves its caller where the verifier expects it back, a
  return finds it there, and an exception resumes where a \<^verbatim>\<open>TryCatch\<close> edge leads.  So the
  invariant ``every frame stands at a configuration the verifier has reached'' holds of every machine a run
  from the entry of an accepted function goes through, calls and exceptions included.
\<close>

section \<open>One successful turn inside a frame\<close>

text \<open>The opcodes that may enter or leave a frame.\<close>

definition frame_ops :: "op list" where
  "frame_ops = [Op_Call, Op_TailCall, Op_Pipe, Op_ErrorPipe, Op_Return, Op_GetLocalReturn, Op_EndModule]"

text \<open>The turn fetches an opcode with a handler, and the handler succeeds.\<close>

definition turn_succeeds :: "vm_env \<Rightarrow> vm \<Rightarrow> vm \<Rightarrow> bool" where
  "turn_succeeds env vm vm' \<longleftrightarrow>
     vm_ip vm < length (vm_code vm) \<and>
     (case handler_of env (vm_code vm ! vm_ip vm) of
        Some h \<Rightarrow> h (set_ip vm (vm_ip vm + 1)) = Inr vm'
      | None \<Rightarrow> False)"

text \<open>What such a turn does, as an edge: the new instruction pointer and the change of depth.\<close>

definition follows_edge :: "vm \<Rightarrow> vm \<Rightarrow> bool" where
  "follows_edge vm vm' \<longleftrightarrow>
     (\<exists>ip. frames vm' = frames (set_ip vm ip) \<and>
           flow_edge (vm_code vm) (vm_ip vm) ip (int (length (stack vm')) - int (length (stack vm))))"

lemma read_u16_Inr: "vm_read_u16 vm = Inr (w, vm') \<Longrightarrow> vm' = set_ip vm (vm_ip vm + 2)"
  by (rule read_u16_frames)

lemma read_u32_stack: "vm_read_u32 vm = Inr (w, vm') \<Longrightarrow> stack vm' = stack vm"
  by (rule readers_depth(2))

lemma read_u32_Inr:
  "vm_read_u32 vm = Inr (w, vm') \<Longrightarrow> vm_ip vm \<le> length (vm_code vm) \<Longrightarrow>
   vm' = set_ip vm (vm_ip vm + 4) \<and> unat w = unat (read_u32_be (drop (vm_ip vm) (vm_code vm)))"
  using read_u32_frames by blast

lemma control_sizes:
  "code ! offset = Op_TryEnd \<Longrightarrow> instruction_size code offset = 1"
  "code ! offset = Op_GetUpvalue \<Longrightarrow> instruction_size code offset = 3"
  "code ! offset = Op_SetUpvalue \<Longrightarrow> instruction_size code offset = 3"
  "code ! offset = Op_MakeClosure \<Longrightarrow> instruction_size code offset = 4"
  "code ! offset = Op_TryCatch \<Longrightarrow> instruction_size code offset = 5"
  "code ! offset = Op_NullCoalesce \<Longrightarrow> instruction_size code offset = 5"
  "code ! offset = Op_Call \<Longrightarrow> instruction_size code offset = 2"
  "code ! offset = Op_TailCall \<Longrightarrow> instruction_size code offset = 2"
  "code ! offset = Op_Pipe \<Longrightarrow> instruction_size code offset = 1"
  "code ! offset = Op_ErrorPipe \<Longrightarrow> instruction_size code offset = 1"
proof -
  have "opcode_base_size Op_TryEnd = 1" "opcode_base_size Op_GetUpvalue = 3" "opcode_base_size Op_SetUpvalue = 3"
    "opcode_base_size Op_MakeClosure = 4" "opcode_base_size Op_TryCatch = 5" "opcode_base_size Op_NullCoalesce = 5"
    "opcode_base_size Op_Call = 2" "opcode_base_size Op_TailCall = 2" "opcode_base_size Op_Pipe = 1"
    "opcode_base_size Op_ErrorPipe = 1"
    by code_simp+
  then show "code ! offset = Op_TryEnd \<Longrightarrow> instruction_size code offset = 1"
  "code ! offset = Op_GetUpvalue \<Longrightarrow> instruction_size code offset = 3"
  "code ! offset = Op_SetUpvalue \<Longrightarrow> instruction_size code offset = 3"
  "code ! offset = Op_MakeClosure \<Longrightarrow> instruction_size code offset = 4"
  "code ! offset = Op_TryCatch \<Longrightarrow> instruction_size code offset = 5"
  "code ! offset = Op_NullCoalesce \<Longrightarrow> instruction_size code offset = 5"
  "code ! offset = Op_Call \<Longrightarrow> instruction_size code offset = 2"
  "code ! offset = Op_TailCall \<Longrightarrow> instruction_size code offset = 2"
  "code ! offset = Op_Pipe \<Longrightarrow> instruction_size code offset = 1"
  "code ! offset = Op_ErrorPipe \<Longrightarrow> instruction_size code offset = 1"
    by (simp_all add: instruction_size_def Let_def)
qed

lemma control_depths:
  "code ! offset \<in> {Op_TryEnd, Op_SetUpvalue, Op_TryCatch, Op_NullCoalesce, Op_Loop} \<Longrightarrow> depth_change code offset = 0"
  "code ! offset \<in> {Op_GetUpvalue, Op_MakeClosure} \<Longrightarrow> depth_change code offset = 1"
  "code ! offset \<in> {Op_Call, Op_TailCall} \<Longrightarrow> depth_change code offset = - int (unat (code ! (offset + 1)))"
  "code ! offset \<in> {Op_Pipe, Op_ErrorPipe} \<Longrightarrow> depth_change code offset = - 1"
  by (elim insertE emptyE; simp add: depth_change_def instruction_stack_effect_def eff_def)+

lemma control_falls_through:
  "code ! offset \<in> {Op_TryEnd, Op_SetUpvalue, Op_TryCatch, Op_NullCoalesce, Op_GetUpvalue, Op_MakeClosure,
     Op_Call, Op_TailCall, Op_Pipe, Op_ErrorPipe} \<Longrightarrow> \<not> always_transfers (code ! offset)"
  by (auto simp: always_transfers_def)

text \<open>Fall-through with the depth change of the instruction.\<close>

lemma follows_fall:
  assumes "frames vm' = frames (set_ip vm (vm_ip vm + n))" and "instruction_size (vm_code vm) (vm_ip vm) = n"
    and "\<not> always_transfers (vm_code vm ! vm_ip vm)"
    and "int (length (stack vm')) = int (length (stack vm)) + depth_change (vm_code vm) (vm_ip vm)"
  shows "follows_edge vm vm'"
  unfolding follows_edge_def
  using assms flow_edge.fall_through [of "vm_code vm" "vm_ip vm"] by (intro exI [of _ "vm_ip vm + n"]) simp

lemma jump_target_after:
  "ip + 1 + 4 + unat (read_u32_be (drop (ip + 1) code)) = resolve_forward_jump_target ip (jump_operand code ip)"
  by (simp add: resolve_forward_jump_target_def k_jump_instruction_size_def k_u32_operand_size_def jump_operand_def)

lemma loop_follows:
  assumes "handle_loop env (set_ip vm (vm_ip vm + 1)) = Inr vm'" and "vm_ip vm < length (vm_code vm)"
    and "vm_code vm ! vm_ip vm = Op_Loop"
  shows "follows_edge vm vm' \<and> handlers vm' = handlers vm"
proof -
  let ?vm = "set_ip vm (vm_ip vm + 1)"
  from assms(1) obtain w vm1 a b where r: "vm_read_u32 ?vm = Inr (w, vm1)"
    and vm': "vm' = (set_ip vm1 (vm_ip vm1 - unat w))\<lparr>loop_iterations := a, total_loop_iterations := b\<rparr>"
    and le: "unat w \<le> vm_ip vm1"
    by (auto simp: handle_loop_def and_then_Inr Let_def split: if_splits)
  have "vm1 = set_ip vm (vm_ip vm + 5)" "unat w = jump_operand (vm_code vm) (vm_ip vm)"
    using read_u32_Inr [OF r] assms(2) by (simp_all add: jump_operand_def numeral_eq_Suc)
  then have "frames vm' = frames (set_ip vm (resolve_loop_jump_target (vm_ip vm) (jump_operand (vm_code vm) (vm_ip vm))))"
    "stack vm' = stack vm" "handlers vm' = handlers vm"
    by (simp_all add: vm' resolve_loop_jump_target_def k_jump_instruction_size_def)
  with flow_edge.loop [OF assms(3)] control_depths(1) [of "vm_code vm" "vm_ip vm"] assms(3) show ?thesis
    unfolding follows_edge_def by (intro conjI exI) simp_all
qed

lemma coalesce_follows:
  assumes "handle_null_coalesce env (set_ip vm (vm_ip vm + 1)) = Inr vm'" and "vm_ip vm < length (vm_code vm)"
    and "vm_code vm ! vm_ip vm = Op_NullCoalesce"
  shows "follows_edge vm vm' \<and> handlers vm' = handlers vm"
proof -
  let ?code = "vm_code vm" and ?ip = "vm_ip vm"
  define vm0 where "vm0 = set_ip vm (?ip + 1)"
  note run = assms(1) [folded vm0_def]
  from run obtain w vm1 v where r: "vm_read_u32 vm0 = Inr (w, vm1)" and p: "peek vm1 0 = Inr v"
    by (auto simp: handle_null_coalesce_def and_then_Inr)
  have vm1: "vm1 = set_ip vm (?ip + 5)" and w: "unat w = jump_operand ?code ?ip"
    using read_u32_Inr [OF r] assms(2) by (simp_all add: vm0_def jump_operand_def numeral_eq_Suc)
  have ne: "stack vm \<noteq> []" using p vm1 by (auto simp: peek_def split: if_splits)
  have jump: "\<exists>ip. frames vm' = frames (set_ip vm ip) \<and> ip = resolve_forward_jump_target ?ip (jump_operand ?code ?ip) \<and>
      stack vm' = stack vm2 \<and> handlers vm' = handlers vm2"
    if "coalesce_jump vm2 w = Inr vm'" "frames vm2 = frames vm1" for vm2
    using that w unfolding vm1
    by (auto simp: coalesce_jump_def Let_def resolve_forward_jump_target_def k_jump_instruction_size_def
        k_u32_operand_size_def split: if_splits)
  have "vm' = vm1 \<or> (\<exists>v. coalesce_jump (set_top vm1 v) w = Inr vm') \<or> coalesce_jump vm1 w = Inr vm'"
  proof (cases v)
    case (VObject t i)
    then show ?thesis using run
      by (cases t) (simp_all add: handle_null_coalesce_def r p split: prod.splits if_splits, blast)
  qed (use run in \<open>simp_all add: handle_null_coalesce_def r p\<close>)
  then consider "vm' = vm1" | vm2 where "coalesce_jump vm2 w = Inr vm'" "frames vm2 = frames vm1"
      "length (stack vm2) = length (stack vm)" "handlers vm2 = handlers vm"
    using vm1 ne by (fastforce simp: set_top_def)
  then show ?thesis
  proof cases
    case 1
    have "follows_edge vm vm'"
      using 1 vm1 control_sizes(6) [OF assms(3)] control_falls_through [of ?code ?ip] assms(3)
        control_depths(1) [of ?code ?ip]
      by (intro follows_fall [where n = 5]) simp_all
    then show ?thesis using 1 vm1 by simp
  next
    case (2 vm2)
    have "exhausted_missing ?code ?ip = 0"
      using assms(3) by (simp add: exhausted_missing_def split: option.split)
    with jump [OF 2(1,2)] 2 flow_edge.branch [of ?code ?ip] assms(3) control_depths(1) [of ?code ?ip]
    show ?thesis unfolding follows_edge_def by auto
  qed
qed

lemma push_fields: "push vm v = Inr vm' \<Longrightarrow> vm' = vm\<lparr>stack := stack vm @ [v]\<rparr>"
  by (auto simp: push_def split: if_splits)

lemma get_upvalue_follows:
  assumes "handle_get_upvalue (set_ip vm (vm_ip vm + 1)) = Inr vm'" and op: "vm_code vm ! vm_ip vm = Op_GetUpvalue"
  shows "follows_edge vm vm' \<and> handlers vm' = handlers vm"
proof -
  from assms(1) obtain vm1 w v where "vm_read_u16 (set_ip vm (vm_ip vm + 1)) = Inr (w, vm1)" "push vm1 v = Inr vm'"
    by (auto simp: handle_get_upvalue_def and_then_Inr split: option.splits)
  from read_u16_Inr [OF this(1)] push_fields [OF this(2)]
  have vm': "vm' = (set_ip vm (vm_ip vm + 3))\<lparr>stack := stack vm @ [v]\<rparr>" by (simp add: numeral_eq_Suc)
  have "follows_edge vm vm'"
    using control_sizes(2) [OF op] control_falls_through [of "vm_code vm" "vm_ip vm"] op
      control_depths(2) [of "vm_code vm" "vm_ip vm"]
    by (intro follows_fall [where n = 3]) (simp_all add: vm')
  then show ?thesis by (simp add: vm')
qed

lemma set_upvalue_follows:
  assumes "handle_set_upvalue (set_ip vm (vm_ip vm + 1)) = Inr vm'" and op: "vm_code vm ! vm_ip vm = Op_SetUpvalue"
  shows "follows_edge vm vm' \<and> handlers vm' = handlers vm"
proof -
  from assms(1) obtain vm1 w where "vm_read_u16 (set_ip vm (vm_ip vm + 1)) = Inr (w, vm1)"
    "frames vm' = frames vm1" "stack vm' = stack vm1" "handlers vm' = handlers vm1"
    by (auto simp: handle_set_upvalue_def and_then_Inr split: option.splits)
  with read_u16_Inr [OF this(1)]
  have vm': "frames vm' = frames (set_ip vm (vm_ip vm + 3))" "stack vm' = stack vm" "handlers vm' = handlers vm"
    by (simp_all add: numeral_eq_Suc)
  have "follows_edge vm vm'"
    using control_sizes(3) [OF op] control_falls_through [of "vm_code vm" "vm_ip vm"] op
      control_depths(1) [of "vm_code vm" "vm_ip vm"]
    by (intro follows_fall [where n = 3]) (simp_all add: vm')
  then show ?thesis by (simp add: vm')
qed

lemma forward_upvalues_fields:
  "forward_upvalues vm target i descs cf = Inr (fv, vm') \<Longrightarrow>
   frames vm' = frames vm \<and> stack vm' = stack vm \<and> handlers vm' = handlers vm"
proof (induction descs arbitrary: vm target i)
  case (Cons desc descs)
  then obtain target1 vm1 where step: "forward_upvalue vm target i desc cf = Inr (target1, vm1)"
    and rest: "forward_upvalues vm1 target1 (i + 1) descs cf = Inr (fv, vm')"
    by (auto simp: and_then_Inr)
  have "frames vm1 = frames vm \<and> stack vm1 = stack vm \<and> handlers vm1 = handlers vm"
    using step by (auto simp: forward_upvalue_def and_then_Inr Let_def split: if_splits option.splits)
  with Cons.IH [OF rest] show ?case by simp
qed simp

lemma make_closure_follows:
  assumes "handle_make_closure env (set_ip vm (vm_ip vm + 1)) = Inr vm'"
    and op: "vm_code vm ! vm_ip vm = Op_MakeClosure"
  shows "follows_edge vm vm' \<and> handlers vm' = handlers vm"
proof -
  from assms(1) obtain vm1 w b vm2 vm3 fv target descs cf v where
    r: "vm_read_u16 (set_ip vm (vm_ip vm + 1)) = Inr (w, vm1)" "read_byte vm1 = Inr (b, vm2)"
    and f: "forward_upvalues vm2 target 0 descs cf = Inr (fv, vm3)"
    and p: "push (vm3\<lparr>objects := objects vm3 @ [fv]\<rparr>) v = Inr vm'"
    by (auto simp: handle_make_closure_def and_then_Inr Let_def split: option.splits if_splits)
  have "vm2 = set_ip vm (vm_ip vm + 4)"
    using read_u16_Inr [OF r(1)] read_byte_Inr [OF r(2)] by (simp add: numeral_eq_Suc)
  with forward_upvalues_fields [OF f] push_fields [OF p]
  have vm': "frames vm' = frames (set_ip vm (vm_ip vm + 4))" "length (stack vm') = length (stack vm) + 1"
    "handlers vm' = handlers vm"
    by simp_all
  have "follows_edge vm vm'"
    using control_sizes(4) [OF op] control_falls_through [of "vm_code vm" "vm_ip vm"] op
      control_depths(2) [of "vm_code vm" "vm_ip vm"]
    by (intro follows_fall [where n = 4]) (simp_all add: vm')
  then show ?thesis by (simp add: vm')
qed

lemma try_catch_follows:
  assumes "handle_try_catch (set_ip vm (vm_ip vm + 1)) = Inr vm'" and "vm_ip vm < length (vm_code vm)"
    and op: "vm_code vm ! vm_ip vm = Op_TryCatch" and "frames vm \<noteq> []"
  shows "follows_edge vm vm' \<and> stack vm' = stack vm \<and>
         (\<exists>n. handlers vm' = handlers vm @
            [\<lparr>eh_catch_ip = resolve_forward_jump_target (vm_ip vm) (jump_operand (vm_code vm) (vm_ip vm)),
              eh_frame_index = length (frames vm) - 1, eh_stack_depth = length (stack vm),
              eh_task_scope_depth = n\<rparr>])"
proof -
  from assms(1) obtain w vm1 where r: "vm_read_u32 (set_ip vm (vm_ip vm + 1)) = Inr (w, vm1)"
    and vm': "vm' = vm1\<lparr>handlers := handlers vm1 @
       [\<lparr>eh_catch_ip = vm_ip vm1 + unat w, eh_frame_index = length (frames vm1) - 1,
         eh_stack_depth = length (stack vm1), eh_task_scope_depth = task_scopes vm1\<rparr>]\<rparr>"
    by (auto simp: handle_try_catch_def push_handler_def and_then_Inr Let_def split: if_splits)
  have vm1: "vm1 = set_ip vm (vm_ip vm + 5)" and w: "unat w = jump_operand (vm_code vm) (vm_ip vm)"
    using read_u32_Inr [OF r] assms(2) by (simp_all add: jump_operand_def numeral_eq_Suc)
  have "follows_edge vm vm'"
    using control_sizes(5) [OF op] control_falls_through [of "vm_code vm" "vm_ip vm"] op
      control_depths(1) [of "vm_code vm" "vm_ip vm"]
    by (intro follows_fall [where n = 5]) (simp_all add: vm' vm1)
  then show ?thesis
    using assms(4) w by (simp add: vm' vm1 resolve_forward_jump_target_def k_jump_instruction_size_def
        k_u32_operand_size_def del: frames_set_ip)
qed

lemma try_end_follows:
  assumes "op_try_end (set_ip vm (vm_ip vm + 1)) = Inr vm'" and op: "vm_code vm ! vm_ip vm = Op_TryEnd"
  shows "follows_edge vm vm' \<and> handlers vm' = butlast (handlers vm)"
proof -
  have vm': "vm' = (set_ip vm (vm_ip vm + 1))\<lparr>handlers := butlast (handlers vm)\<rparr>"
    using assms(1) by (auto simp: op_try_end_def pop_handler_discard_def split: if_splits)
  have "follows_edge vm vm'"
    using control_sizes(1) [OF op] control_falls_through [of "vm_code vm" "vm_ip vm"] op
      control_depths(1) [of "vm_code vm" "vm_ip vm"]
    by (intro follows_fall [where n = 1]) (simp_all add: vm')
  then show ?thesis by (simp add: vm')
qed

text \<open>Having certain exception handlers is an invariant of everything that only computes.\<close>

interpretation kept: machine_invariant "\<lambda>vm. handlers vm = hs" for hs
  by unfold_locales (simp_all add: set_ip_def)

lemma modelled_handlers_kept:
  assumes "modelled_handler env op = Some h" and "h vm = Inr vm'"
  shows "handlers vm' = handlers vm"
  using kept.modelled_handler_ok [OF assms(1), of vm "handlers vm"] assms(2) by simp

text \<open>What a turn may do to the exception handlers: leave them, open one, or close the innermost.\<close>

definition handlers_step :: "vm \<Rightarrow> vm \<Rightarrow> bool" where
  "handlers_step vm vm' \<longleftrightarrow>
     handlers vm' = handlers vm \<or> handlers vm' = butlast (handlers vm) \<or>
     (vm_code vm ! vm_ip vm = Op_TryCatch \<and> stack vm' = stack vm \<and>
      (\<exists>n. handlers vm' = handlers vm @
         [\<lparr>eh_catch_ip = resolve_forward_jump_target (vm_ip vm) (jump_operand (vm_code vm) (vm_ip vm)),
           eh_frame_index = length (frames vm) - 1, eh_stack_depth = length (stack vm),
           eh_task_scope_depth = n\<rparr>]))"

text \<open>The control handlers that can succeed inside their frame.\<close>

lemma control_stays:
  assumes "control_handler env op = Some h" and "h vm = Inr vm'" and "op \<notin> set frame_ops"
  obtains "op = Op_Loop" "h = handle_loop env" | "op = Op_NullCoalesce" "h = handle_null_coalesce env"
    | "op = Op_MakeClosure" "h = handle_make_closure env" | "op = Op_GetUpvalue" "h = handle_get_upvalue"
    | "op = Op_SetUpvalue" "h = handle_set_upvalue" | "op = Op_TryCatch" "h = handle_try_catch"
    | "op = Op_TryEnd" "h = op_try_end"
proof -
  have "op_rethrow env vm \<noteq> Inr vm'"
    by (auto simp: op_rethrow_def and_then_def Let_def split: sum.splits)
  with map_of_SomeD [OF assms(1) [unfolded control_handler_def], unfolded list.set insert_iff prod.inject]
    assms(2,3) that show thesis
    by (elim disjE conjE) (simp_all add: frame_ops_def)
qed

lemma turn_stays:
  assumes "turn_succeeds env vm vm'" and "frames vm \<noteq> []" and "vm_code vm ! vm_ip vm \<notin> set frame_ops"
    and "exhausted_missing (vm_code vm) (vm_ip vm) = 0"
  shows "follows_edge vm vm' \<and> handlers_step vm vm'"
proof -
  from assms(1) obtain h where inside: "vm_ip vm < length (vm_code vm)"
    and h: "handler_of env (vm_code vm ! vm_ip vm) = Some h" "h (set_ip vm (vm_ip vm + 1)) = Inr vm'"
    by (auto simp: turn_succeeds_def split: option.splits)
  show ?thesis
  proof (cases "modelled_handler env (vm_code vm ! vm_ip vm)")
    case (Some h')
    with h have m: "modelled_handler env (vm_code vm ! vm_ip vm) = Some h" by (simp add: handler_of_def)
    then have "run_once env vm = Some (Inr vm')"
      using h(2) inside by (simp add: run_once_def ensure_bytecode_available_def Let_def)
    from run_once_edge [OF this assms(4)] handler_step_depth(1) [OF m h(2)]
    have "follows_edge vm vm'" by (auto simp: follows_edge_def)
    moreover have "handlers vm' = handlers vm" using modelled_handlers_kept [OF m h(2)] by simp
    ultimately show ?thesis by (simp add: handlers_step_def)
  next
    case None
    with h have c: "control_handler env (vm_code vm ! vm_ip vm) = Some h" by (simp add: handler_of_def)
    from control_stays [OF c h(2) assms(3)] show ?thesis
    proof cases
      case 1
      with loop_follows [of env vm vm'] h(2) inside show ?thesis by (simp add: handlers_step_def)
    next
      case 2
      with coalesce_follows [of env vm vm'] h(2) inside show ?thesis by (simp add: handlers_step_def)
    next
      case 3
      with make_closure_follows [of env vm vm'] h(2) show ?thesis by (simp add: handlers_step_def)
    next
      case 4
      with get_upvalue_follows [of vm vm'] h(2) show ?thesis by (simp add: handlers_step_def)
    next
      case 5
      with set_upvalue_follows [of vm vm'] h(2) show ?thesis by (simp add: handlers_step_def)
    next
      case 6
      with try_catch_follows [of vm vm'] h(2) inside assms(2) show ?thesis by (simp add: handlers_step_def)
    next
      case 7
      with try_end_follows [of vm vm'] h(2) show ?thesis by (simp add: handlers_step_def)
    qed
  qed
qed

section \<open>Calls\<close>

text \<open>A call leaves the callee and its arguments replaced by a result, or enters a frame above them.\<close>

definition calls :: "vm \<Rightarrow> nat \<Rightarrow> vm \<Rightarrow> bool" where
  "calls vm n vm' \<longleftrightarrow>
     handlers vm' = handlers vm \<and>
     (frames vm' = frames vm \<and> length (stack vm) = length (stack vm') + n \<or>
      (\<exists>frame. frames vm' = frames vm @ [frame] \<and> fr_ip frame = 0 \<and>
         int (fr_slot_offset frame) = int (length (stack vm)) - int n - 1 \<and>
         int (length (stack vm')) = int (fr_slot_offset frame) + cf_arity (fr_function frame) + 1))"

lemma pop_fields:
  "pop vm = Inr (v, vm') \<Longrightarrow> frames vm' = frames vm \<and> handlers vm' = handlers vm \<and>
   length (stack vm) = length (stack vm') + 1"
  using pop_depth [of vm v vm'] by (auto simp: pop_def split: if_splits)

lemma pop_n_fields:
  "pop_n vm n = Inr vm' \<Longrightarrow> frames vm' = frames vm \<and> handlers vm' = handlers vm \<and>
   length (stack vm) = length (stack vm') + n"
proof (induction n arbitrary: vm)
  case (Suc n)
  then obtain v vm1 where "pop vm = Inr (v, vm1)" "pop_n vm1 n = Inr vm'" by (auto simp: and_then_Inr)
  with Suc.IH [of vm1] show ?case by (auto dest!: pop_fields)
qed simp

lemma pop_sequence_fields:
  "pop_sequence vm n = Inr (vs, vm') \<Longrightarrow> frames vm' = frames vm \<and> handlers vm' = handlers vm \<and>
   length (stack vm) = length (stack vm') + n"
proof (induction n arbitrary: vm vs)
  case (Suc n)
  then obtain v vm1 ws where "pop vm = Inr (v, vm1)" "pop_sequence vm1 n = Inr (ws, vm')"
    by (auto simp: and_then_Inr)
  with Suc.IH [of vm1] show ?case by (auto dest!: pop_fields)
qed simp

lemma call_value_calls:
  assumes "call_value env vm callee n = Inr vm'" and "n < length (stack vm)"
  shows "calls vm n vm'"
proof -
  have compiled: "calls vm n vm'" if "call_function env vm func n = Inr vm'" for func
  proof (cases "fv_compiled func")
    case (Some f)
    with that assms(2) show ?thesis
      by (auto simp: call_function_def and_then_Inr Let_def call_frame_base_slot_def calls_def
          dest!: bind_arguments_Inr)
  next
    case None
    with that show ?thesis
      by (auto simp: call_function_def and_then_Inr calls_def dest!: pop_n_fields pop_fields push_fields)
  qed
  have native: "calls vm n vm'" if "call_native env vm i n = Inr vm'" for i
  proof -
    from that obtain args vm1 c vm2 where pops: "pop_sequence vm n = Inr (args, vm1)" "pop vm1 = Inr (c, vm2)"
      and r: "(case env_native env i args (current_location vm2) of
                 Inl e \<Rightarrow> Inl (e, vm2) | Inr result \<Rightarrow> push vm2 result) = Inr vm'"
      by (auto simp: call_native_def and_then_Inr)
    from r obtain result where "push vm2 result = Inr vm'"
      by (cases "env_native env i args (current_location vm2)") auto
    with pop_sequence_fields [OF pops(1)] pop_fields [OF pops(2)] push_fields [of vm2 result vm'] show ?thesis
      by (simp add: calls_def)
  qed
  show ?thesis
    using assms(1) compiled native by (auto simp: call_value_def split: val.splits value_type.splits)
qed

section \<open>Frames the verifier has reached\<close>

text \<open>A frame below another stands where its call returns to, at the depth it has with the result.\<close>

definition waits_for :: "call_frame \<Rightarrow> call_frame \<Rightarrow> bool" where
  "waits_for f callee \<longleftrightarrow>
     reachable (fr_function f) (fr_ip f) (int (fr_slot_offset callee) - int (fr_slot_offset f) + 1)"

text \<open>A handler resumes its frame at the catch address, at the recorded depth plus the error.\<close>

definition handler_reached :: "call_frame list \<Rightarrow> exception_handler \<Rightarrow> bool" where
  "handler_reached fs h \<longleftrightarrow>
     eh_frame_index h < length fs \<and>
     reachable (fr_function (fs ! eh_frame_index h)) (eh_catch_ip h)
       (int (eh_stack_depth h) - int (fr_slot_offset (fs ! eh_frame_index h)) + 1)"

definition handlers_reached :: "call_frame list \<Rightarrow> exception_handler list \<Rightarrow> bool" where
  "handlers_reached fs hs \<longleftrightarrow> sorted (map eh_frame_index hs) \<and> list_all (handler_reached fs) hs"

text \<open>Everything but the position of the running frame.\<close>

definition settled :: "vm \<Rightarrow> bool" where
  "settled vm \<longleftrightarrow>
     frames vm \<noteq> [] \<and> successively waits_for (frames vm) \<and> handlers_reached (frames vm) (handlers vm)"

definition on_track :: "vm \<Rightarrow> bool" where
  "on_track vm \<longleftrightarrow> settled vm \<and> reachable (vm_function vm) (vm_ip vm) (frame_depth vm)"

text \<open>Two frames at the same place, whatever their instruction pointers.\<close>

definition same_place :: "call_frame \<Rightarrow> call_frame \<Rightarrow> bool" where
  "same_place f g \<longleftrightarrow> fr_function f = fr_function g \<and> fr_slot_offset f = fr_slot_offset g"

lemma successively_last:
  "fr_slot_offset f = fr_slot_offset g \<Longrightarrow>
   successively waits_for (fs @ [f]) = successively waits_for (fs @ [g])"
  by (auto simp: successively_append_iff waits_for_def)

lemma handlers_reached_last:
  assumes "same_place f g"
  shows "handlers_reached (fs @ [f]) hs = handlers_reached (fs @ [g]) hs"
proof -
  have "handler_reached (fs @ [f]) h = handler_reached (fs @ [g]) h" for h
    using assms by (auto simp: handler_reached_def same_place_def nth_append less_Suc_eq)
  then show ?thesis unfolding handlers_reached_def by presburger
qed

lemma handlers_reached_butlast: "handlers_reached fs hs \<Longrightarrow> handlers_reached fs (butlast hs)"
  by (auto simp: handlers_reached_def map_butlast sorted_butlast list_all_iff dest: in_set_butlastD)

lemma settled_same:
  assumes "settled vm" and "frames vm' = butlast (frames vm) @ [f]" and "same_place f (last (frames vm))"
    and "handlers_reached (frames vm) (handlers vm')"
  shows "settled vm'"
proof -
  obtain fs topf where fs: "frames vm = fs @ [topf]"
    using assms(1) by (metis settled_def append_butlast_last_id)
  with assms show ?thesis
    using successively_last [of f topf fs] handlers_reached_last [of f topf fs] by (simp add: settled_def same_place_def)
qed

lemma settled_set_ip: "settled vm \<Longrightarrow> settled (set_ip vm ip)"
  by (rule settled_same [where f = "(last (frames vm))\<lparr>fr_ip := ip\<rparr>"])
    (auto simp: same_place_def settled_def set_ip_def)

interpretation track: machine_invariant settled
  by unfold_locales (simp_all add: settled_set_ip, simp_all add: settled_def)

text \<open>Handlers of lower frames only.\<close>

lemma handlers_reached_discard:
  assumes "handlers_reached (fs @ [topf]) hs"
  shows "handlers_reached fs (drop_last_while (\<lambda>h. length fs \<le> eh_frame_index h) hs)"
proof -
  have "drop_last_while (\<lambda>h. length fs \<le> eh_frame_index h) hs = filter (\<lambda>h. eh_frame_index h < length fs) hs"
    using assms by (intro drop_last_while_sorted) (simp add: handlers_reached_def)
  then show ?thesis
    using assms by (auto simp: handlers_reached_def sorted_filter list_all_iff handler_reached_def nth_append)
qed

lemma handlers_reached_append: "handlers_reached fs hs \<Longrightarrow> handlers_reached (fs @ gs) hs"
  by (auto simp: handlers_reached_def list_all_iff handler_reached_def nth_append)

section \<open>What a turn that throws leaves behind\<close>

definition throws_ok :: "vm_throw + vm \<Rightarrow> bool" where
  "throws_ok r \<longleftrightarrow> (\<forall>t. r = Inl t \<longrightarrow> settled (snd t))"

lemma throws_ok_simps [simp]: "throws_ok (Inr vm)" "throws_ok (Inl t) = settled (snd t)"
  by (simp_all add: throws_ok_def)

lemma ok_throws: "ok settled f r \<Longrightarrow> throws_ok r"
  by (auto simp: throws_ok_def ok_def split: sum.splits)

lemma throws_and_then:
  assumes "ok settled f m" and "\<And>a. m = Inr a \<Longrightarrow> settled (f a) \<Longrightarrow> throws_ok (k a)"
  shows "throws_ok (and_then m k)"
  using assms by (cases m) (auto simp: throws_ok_def)

lemma call_value_throws:
  assumes "settled vm"
  shows "throws_ok (call_value env vm callee n)"
proof -
  have depth: "ok settled (\<lambda>_. vm) (validate_call_depth env vm)"
    using assms by (simp add: validate_call_depth_def Let_def)
  have "throws_ok (call_function env vm func n)" for func
  proof (cases "fv_compiled func")
    case None
    then show ?thesis
      by (auto simp: call_function_def
          intro!: throws_and_then [OF track.pop_n_ok [OF assms]] throws_and_then [OF track.pop_ok]
            ok_throws [OF track.push_ok])
  next
    case (Some f)
    then show ?thesis
      by (auto simp: call_function_def Let_def
          intro!: throws_and_then [OF depth] throws_and_then [OF track.check_cancellation_ok]
            throws_and_then [OF track.bind_arguments_ok])
  qed
  with assms show ?thesis
    by (auto simp: call_value_def ok_throws [OF track.call_native_ok] runtime_error_def
        split: val.split value_type.split)
qed

lemma pipe_throws:
  assumes "settled vm"
  shows "throws_ok (handle_pipe env vm)" "throws_ok (handle_error_pipe env vm)"
proof -
  have call: "throws_ok (and_then (push vm callee) (\<lambda>vm. and_then (push vm v) (\<lambda>vm.
      and_then (peek vm 1) (\<lambda>callee. call_value env vm callee 1))))" if "settled vm" for vm callee v
    by (rule throws_and_then [OF track.push_ok [OF that]], rule throws_and_then [OF track.push_ok], assumption,
        rule throws_and_then [OF track.peek_ok], assumption, rule call_value_throws)
  show "throws_ok (handle_pipe env vm)"
    unfolding handle_pipe_def
    by (rule throws_and_then [OF track.pop_ok [OF assms]], clarsimp, rule throws_and_then [OF track.pop_ok],
        assumption) (auto intro: call [simplified])
  show "throws_ok (handle_error_pipe env vm)"
    unfolding handle_error_pipe_def Let_def
    by (rule throws_and_then [OF track.pop_ok [OF assms]], clarsimp, rule throws_and_then [OF track.pop_ok],
        assumption)
      (auto split: val.split value_type.split prod.split intro: call [simplified] ok_throws [OF track.push_ok])
qed

lemma call_throws:
  assumes "settled vm"
  shows "throws_ok (op_call env vm)" "throws_ok (handle_tail_call env vm)"
  unfolding op_call_def handle_tail_call_def
  by (rule throws_and_then [OF track.readers_ok(1) [OF assms]], clarsimp,
      rule throws_and_then [OF track.peek_ok], assumption,
      auto split: val.split value_type.split option.split
        intro!: call_value_throws throws_and_then [OF track.check_cancellation_ok]
          throws_and_then [OF track.bind_arguments_ok])+

lemma settled_returned:
  assumes "settled vm" and "length (frames vm) - 1 > base_depth vm"
  shows "settled ((discard_frames_from vm (length (frames vm) - 1))
           \<lparr>stack := s, frames := butlast (frames vm)\<rparr>)"
proof -
  obtain fs topf where fs: "frames vm = fs @ [topf]"
    using assms(1) by (metis settled_def append_butlast_last_id)
  with assms have ne: "fs \<noteq> []" by auto
  with assms(1) fs show ?thesis
    using handlers_reached_discard [of fs topf "handlers vm"]
    by (auto simp: settled_def discard_frames_from_def successively_append_iff)
qed

lemma returns_throw:
  assumes "settled vm"
  shows "throws_ok (op_return vm)" "throws_ok (op_get_local_return vm)"
proof -
  have complete: "throws_ok (complete_return vm v off)" if "settled vm" for vm v off
  proof (cases "length (frames vm) - 1 \<le> base_depth vm")
    case False
    then have "complete_return vm v off = push ((discard_frames_from vm (length (frames vm) - 1))
        \<lparr>stack := truncate_to (stack vm) off, frames := butlast (frames vm)\<rparr>) v"
      by (simp add: complete_return_def discard_commute)
    with settled_returned [OF that] False show ?thesis by (simp add: ok_throws [OF track.push_ok])
  qed (simp add: complete_return_def discard_commute)
  show "throws_ok (op_return vm)"
    unfolding op_return_def
    by (rule throws_and_then [OF track.pop_ok [OF assms]]) (auto intro: complete)
  show "throws_ok (op_get_local_return vm)"
    unfolding op_get_local_return_def
    by (rule throws_and_then [OF track.readers_ok(2) [OF assms]])
      (auto intro!: throws_and_then [OF track.local_ok] complete)
qed

lemma try_throws:
  assumes "settled vm"
  shows "throws_ok (handle_try_catch vm)" "throws_ok (op_try_end vm)" "throws_ok (op_rethrow env vm)"
proof -
  show "throws_ok (handle_try_catch vm)"
    unfolding handle_try_catch_def
    by (rule throws_and_then [OF track.readers_ok(3) [OF assms]])
      (auto simp: Let_def push_handler_def runtime_error_def)
  show "throws_ok (op_try_end vm)"
    using assms by (auto simp: op_try_end_def pop_handler_discard_def require_non_empty_def runtime_error_def)
  have "settled (end_cancel_shields_from vm i d) = settled vm" for vm i d
    by (simp add: settled_def end_cancel_shields_from_def)
  then show "throws_ok (op_rethrow env vm)"
    unfolding op_rethrow_def
    by (intro throws_and_then [OF track.pop_ok [OF assms]]) (auto simp: Let_def runtime_error_def)
qed

lemma handler_throws:
  assumes "handler_of env op = Some h" and "settled vm"
  shows "throws_ok (h vm)"
proof (cases "modelled_handler env op")
  case (Some h')
  with assms show ?thesis using ok_throws [OF track.modelled_handler_ok] by (simp add: handler_of_def)
next
  case None
  with assms(1) have c: "control_handler env op = Some h" by (simp add: handler_of_def)
  note entry = map_of_SomeD [OF c [unfolded control_handler_def], unfolded list.set insert_iff prod.inject]
  note keeps = track.loop_ok [OF assms(2)] track.coalesce_ok [OF assms(2)] track.make_closure_ok [OF assms(2)]
    track.upvalue_ops_ok [OF assms(2)]
  have "throws_ok (op_end_module vm)" by (simp add: op_end_module_def)
  with entry show ?thesis
    by (elim disjE conjE)
      (simp_all add: returns_throw [OF assms(2)] call_throws [OF assms(2)] pipe_throws [OF assms(2)]
        try_throws [OF assms(2)] keeps [THEN ok_throws])
qed

section \<open>Exceptions resume on track\<close>

lemma successively_take: "successively P xs \<Longrightarrow> successively P (take n xs)"
  by (metis append_take_drop_id successively_append_iff)

lemma resume_on_track:
  assumes "settled vm" and "handler_reached (frames vm) h"
    and "\<forall>h' \<in> set (handlers vm). eh_frame_index h' \<le> eh_frame_index h"
  shows "case resume_at_handler vm h v of Inl t \<Rightarrow> settled (snd t) | Inr vm' \<Rightarrow> on_track vm'"
proof -
  let ?i = "eh_frame_index h"
  have i: "?i < length (frames vm)" using assms(2) by (simp add: handler_reached_def)
  then have taken: "take (?i + 1) (frames vm) = take ?i (frames vm) @ [frames vm ! ?i]"
    by (simp add: take_Suc_conv_app_nth)
  define vm1 where "vm1 = (end_cancel_shields_from ((unwind_task_scopes_to vm (eh_task_scope_depth h))
      \<lparr>frames := take (?i + 1) (frames vm)\<rparr>) ?i (eh_stack_depth h))\<lparr>stack := truncate_to (stack vm) (eh_stack_depth h)\<rparr>"
  have f1: "frames vm1 = take (?i + 1) (frames vm)" "handlers vm1 = handlers vm" "length (stack vm1) = eh_stack_depth h"
    by (simp_all add: vm1_def end_cancel_shields_from_def unwind_task_scopes_to_def)
  have "list_all (handler_reached (take (?i + 1) (frames vm))) (handlers vm)"
    using assms(1,3) i by (auto simp: settled_def handlers_reached_def list_all_iff handler_reached_def less_Suc_eq_le)
  then have s1: "settled vm1"
    using assms(1) i f1 by (auto simp: settled_def handlers_reached_def successively_take)
  have "resume_at_handler vm h v = and_then (push vm1 v) (\<lambda>vm. Inr (set_ip vm (eh_catch_ip h)))"
    by (simp add: resume_at_handler_def vm1_def Let_def end_cancel_shields_from_def unwind_task_scopes_to_def)
  moreover have "on_track (set_ip vm2 (eh_catch_ip h))" if "push vm1 v = Inr vm2" for vm2
  proof -
    have vm2: "frames vm2 = take ?i (frames vm) @ [frames vm ! ?i]" "length (stack vm2) = eh_stack_depth h + 1"
      "settled vm2"
      using push_fields [OF that] f1 taken track.push_ok [OF s1, of v] that by simp_all
    have "settled (set_ip vm2 (eh_catch_ip h))" by (rule settled_set_ip [OF vm2(3)])
    with vm2 assms(2) show ?thesis
      by (simp add: on_track_def frame_depth_def handler_reached_def algebra_simps)
  qed
  moreover have "settled (snd t)" if "push vm1 v = Inl t" for t
    using track.push_ok [OF s1, of v] that by (cases t) simp
  ultimately show ?thesis by (cases "push vm1 v") simp_all
qed

text \<open>Resuming at the innermost handler, once it is popped.\<close>

lemma resume_last_on_track:
  assumes "settled vm" and "handlers vm \<noteq> []"
  shows "case resume_at_handler (vm\<lparr>handlers := butlast (handlers vm)\<rparr>) (last (handlers vm)) v of
           Inl t \<Rightarrow> settled (snd t) | Inr vm' \<Rightarrow> on_track vm'"
proof (rule resume_on_track)
  have "handlers_reached (frames vm) (handlers vm)" using assms(1) by (simp add: settled_def)
  then show "settled (vm\<lparr>handlers := butlast (handlers vm)\<rparr>)"
    using assms(1) handlers_reached_butlast by (simp add: settled_def)
  show "handler_reached (frames (vm\<lparr>handlers := butlast (handlers vm)\<rparr>)) (last (handlers vm))"
    using assms by (simp add: settled_def handlers_reached_def list_all_iff)
  show "\<forall>h' \<in> set (handlers (vm\<lparr>handlers := butlast (handlers vm)\<rparr>)).
      eh_frame_index h' \<le> eh_frame_index (last (handlers vm))"
    using assms by (cases "handlers vm" rule: rev_cases) (auto simp: settled_def handlers_reached_def sorted_append)
qed

lemma on_track_shield [simp]: "on_track (push_cancel_shield vm i d) = on_track vm"
  by (simp add: on_track_def settled_def push_cancel_shield_def frame_depth_def)

definition resumes_on_track :: "dispatch_outcome \<Rightarrow> bool" where
  "resumes_on_track r \<longleftrightarrow> (\<forall>vm. r = Resumed vm \<longrightarrow> on_track vm)"

lemma handle_exception_on_track: "settled vm \<Longrightarrow> resumes_on_track (handle_exception env vm m ev)"
  using resume_last_on_track [of vm]
  by (fastforce simp: handle_exception_def resumes_on_track_def has_handler_for_def Let_def split: sum.splits if_splits)

lemma find_cancel_target_settled:
  assumes "settled vm" and "find_cancel_target env vm = (Some (h, c), vm')"
  shows "\<exists>vm1. settled vm1 \<and> handlers vm1 \<noteq> [] \<and> h = last (handlers vm1) \<and>
           vm' = vm1\<lparr>handlers := butlast (handlers vm1)\<rparr>"
  using assms
proof (induction env vm rule: find_cancel_target.induct)
  case (1 env vm)
  have "settled (vm\<lparr>handlers := butlast (handlers vm)\<rparr>)"
    using "1.prems"(1) handlers_reached_butlast by (simp add: settled_def)
  with "1.prems" "1.IH" [OF _ refl refl] show ?case
    unfolding find_cancel_target.simps [of env vm]
    by (auto simp: Let_def has_handler_for_def split: if_splits)
qed

lemma handle_cancellation_on_track:
  assumes "settled vm"
  shows "resumes_on_track (handle_cancellation env vm m)"
proof (cases "find_cancel_target env vm")
  case (Pair r vm')
  show ?thesis
  proof (cases r)
    case (Some hc)
    then obtain h c where "r = Some (h, c)" by (cases hc) auto
    moreover from find_cancel_target_settled [OF assms, of env h c vm'] Pair this obtain vm1 where
      "settled vm1" "handlers vm1 \<noteq> []" "h = last (handlers vm1)" "vm' = vm1\<lparr>handlers := butlast (handlers vm1)\<rparr>"
      by auto
    ultimately show ?thesis
      using resume_last_on_track [of vm1 "if c then cancellation_marker else VString m"] Pair
      by (auto simp: handle_cancellation_def resumes_on_track_def split: sum.splits)
  qed (simp add: handle_cancellation_def resumes_on_track_def Pair)
qed

lemma catch_turn_on_track:
  assumes "settled (snd t)" and "catch_turn env sb t = Continue vm'"
  shows "on_track vm'"
proof -
  have "resumes_on_track (dispatch_exception env t)"
    using assms(1) handle_exception_on_track handle_cancellation_on_track
    by (auto simp: dispatch_exception_def split: prod.split vm_error.split)
  with assms(2) show ?thesis
    by (auto simp: catch_turn_def resumes_on_track_def split: dispatch_outcome.splits prod.splits)
qed

section \<open>Successful turns stay on track\<close>

lemma on_track_edge:
  assumes track: "on_track vm" and inside: "vm_ip vm < length (vm_code vm)"
    and "follows_edge vm vm'" and "handlers_step vm vm'"
  shows "on_track vm'"
proof -
  from assms(3) obtain ip where ip: "frames vm' = frames (set_ip vm ip)"
    and edge: "flow_edge (vm_code vm) (vm_ip vm) ip (int (length (stack vm')) - int (length (stack vm)))"
    by (auto simp: follows_edge_def)
  have s: "settled vm" and r: "reachable (vm_function vm) (vm_ip vm) (frame_depth vm)"
    using track by (simp_all add: on_track_def)
  have hr: "handlers_reached (frames vm) (handlers vm)" and ne: "frames vm \<noteq> []"
    using s by (simp_all add: settled_def)
  have "handlers_reached (frames vm) (handlers vm')"
    using assms(4) unfolding handlers_step_def
  proof (elim disjE conjE exE)
    fix n
    assume op: "vm_code vm ! vm_ip vm = Op_TryCatch" and new: "handlers vm' = handlers vm @
       [\<lparr>eh_catch_ip = resolve_forward_jump_target (vm_ip vm) (jump_operand (vm_code vm) (vm_ip vm)),
         eh_frame_index = length (frames vm) - 1, eh_stack_depth = length (stack vm), eh_task_scope_depth = n\<rparr>]"
    have "depth_change (vm_code vm) (vm_ip vm) = 0" using control_depths(1) [of "vm_code vm" "vm_ip vm"] op by simp
    with reachable.step [OF r inside flow_edge.handler [OF op]]
    have "reachable (vm_function vm) (resolve_forward_jump_target (vm_ip vm) (jump_operand (vm_code vm) (vm_ip vm)))
        (int (length (stack vm)) - int (fr_slot_offset (last (frames vm))) + 1)"
      by (simp add: frame_depth_def)
    with hr ne show ?thesis
      by (auto simp: new handlers_reached_def handler_reached_def sorted_append last_conv_nth list_all_iff)
  qed (simp_all add: hr handlers_reached_butlast)
  then have "settled vm'"
    using settled_same [OF s, of vm' "(last (frames vm))\<lparr>fr_ip := ip\<rparr>"] ip by (simp add: same_place_def)
  with reachable.step [OF r inside edge] ip show ?thesis by (simp add: on_track_def frame_depth_def)
qed

text \<open>A call from a frame on track, with the frame already at the next instruction.\<close>

lemma on_track_call:
  assumes "settled vm" and "reachable (vm_function vm) (vm_ip vm) (frame_depth vm - int n)" and "calls vm n vm'"
  shows "on_track vm'"
proof -
  obtain fs topf where fs: "frames vm = fs @ [topf]"
    using assms(1) by (metis settled_def append_butlast_last_id)
  from assms(3) consider "handlers vm' = handlers vm" "frames vm' = frames vm" "length (stack vm) = length (stack vm') + n"
    | frame where "handlers vm' = handlers vm" "frames vm' = frames vm @ [frame]" "fr_ip frame = 0"
      "int (fr_slot_offset frame) = int (length (stack vm)) - int n - 1"
      "int (length (stack vm')) = int (fr_slot_offset frame) + cf_arity (fr_function frame) + 1"
    unfolding calls_def by blast
  then show ?thesis
  proof cases
    case 1
    with assms(1,2) show ?thesis by (simp add: on_track_def settled_def frame_depth_def algebra_simps)
  next
    case (2 frame)
    then have "frame_depth vm - int n = int (fr_slot_offset frame) - int (fr_slot_offset topf) + 1"
      using fs by (simp add: frame_depth_def)
    then have "waits_for topf frame" using assms(2) fs by (simp add: waits_for_def)
    then have "settled vm'"
      using assms(1) 2(1,2) fs handlers_reached_append [of "fs @ [topf]" "handlers vm" "[frame]"]
        successively_append_iff [of waits_for "fs @ [topf]" "[frame]"]
      by (simp add: settled_def)
    moreover have "frame_depth vm' = cf_arity (fr_function frame) + 1" using 2 by (simp add: frame_depth_def)
    ultimately show ?thesis
      using 2 reachable.entry [of "fr_function frame"] by (simp add: on_track_def)
  qed
qed

text \<open>The instruction has moved on to its successor and called with the arguments its depth change counts.\<close>

lemma call_stays_on_track:
  assumes track: "on_track vm" and inside: "vm_ip vm < length (vm_code vm)"
    and op: "\<not> always_transfers (vm_code vm ! vm_ip vm)" "depth_change (vm_code vm) (vm_ip vm) = - int n"
    and vm1: "frames vm1 = frames (set_ip vm (vm_ip vm + instruction_size (vm_code vm) (vm_ip vm)))"
      "handlers vm1 = handlers vm" "length (stack vm1) = length (stack vm)"
    and "calls vm1 n vm'"
  shows "on_track vm'"
proof (rule on_track_call [OF _ _ assms(8)])
  have s: "settled vm" and r: "reachable (vm_function vm) (vm_ip vm) (frame_depth vm)"
    using track by (simp_all add: on_track_def)
  then show "settled vm1"
    using settled_same [OF s, of vm1 "(last (frames vm))\<lparr>fr_ip := vm_ip vm + instruction_size (vm_code vm) (vm_ip vm)\<rparr>"] vm1
    by (simp add: same_place_def settled_def)
  show "reachable (vm_function vm1) (vm_ip vm1) (frame_depth vm1 - int n)"
    using reachable.step [OF r inside flow_edge.fall_through [OF op(1)]] vm1 op(2) by (simp add: frame_depth_def)
qed

lemma op_call_on_track:
  assumes track: "on_track vm" and inside: "vm_ip vm < length (vm_code vm)"
    and op: "vm_code vm ! vm_ip vm = Op_Call" and "op_call env (set_ip vm (vm_ip vm + 1)) = Inr vm'"
  shows "on_track vm'"
proof -
  from assms(4) obtain b vm1 callee where r: "read_byte (set_ip vm (vm_ip vm + 1)) = Inr (b, vm1)"
    and p: "peek vm1 (unat b) = Inr callee" and c: "call_value env vm1 callee (unat b) = Inr vm'"
    by (auto simp: op_call_def and_then_Inr)
  have vm1: "vm1 = set_ip vm (vm_ip vm + 2)" and b: "b = vm_code vm ! (vm_ip vm + 1)"
    using read_byte_Inr [OF r] by simp_all
  have "calls vm1 (unat b) vm'"
    using p by (intro call_value_calls [OF c]) (auto simp: peek_def split: if_splits)
  then show ?thesis
    using control_falls_through [of "vm_code vm" "vm_ip vm"] control_depths(3) [of "vm_code vm" "vm_ip vm"]
      control_sizes(7) [OF op] op
    by (intro call_stays_on_track [OF track inside, where ?vm1.0 = vm1 and n = "unat b"]) (simp_all add: vm1 b)
qed

lemma pipe_call:
  assumes "and_then (push vm callee) (\<lambda>vm. and_then (push vm v) (\<lambda>vm.
             and_then (peek vm 1) (\<lambda>callee. call_value env vm callee 1))) = Inr vm'"
  obtains vm1 where "frames vm1 = frames vm" "handlers vm1 = handlers vm"
    "length (stack vm1) = length (stack vm) + 2" "calls vm1 1 vm'"
proof -
  from assms obtain vm1 vm2 callee' where pushes: "push vm callee = Inr vm1" "push vm1 v = Inr vm2"
    and c: "call_value env vm2 callee' 1 = Inr vm'"
    by (auto simp: and_then_Inr)
  note vm12 = push_fields [OF pushes(1)] push_fields [OF pushes(2)]
  then have "calls vm2 1 vm'" by (intro call_value_calls [OF c]) simp
  with vm12 show ?thesis by (intro that [of vm2]) simp_all
qed

lemma pipes_on_track:
  assumes track: "on_track vm" and inside: "vm_ip vm < length (vm_code vm)"
    and op: "vm_code vm ! vm_ip vm \<in> {Op_Pipe, Op_ErrorPipe}"
    and "handle_pipe env (set_ip vm (vm_ip vm + 1)) = Inr vm' \<or> handle_error_pipe env (set_ip vm (vm_ip vm + 1)) = Inr vm'"
  shows "on_track vm'"
proof -
  let ?call = "\<lambda>vm callee v. and_then (push vm callee) (\<lambda>vm. and_then (push vm v) (\<lambda>vm.
      and_then (peek vm 1) (\<lambda>callee. call_value env vm callee 1)))"
  have size: "instruction_size (vm_code vm) (vm_ip vm) = 1" and nt: "\<not> always_transfers (vm_code vm ! vm_ip vm)"
    and depth: "depth_change (vm_code vm) (vm_ip vm) = - 1"
    using op control_sizes(9,10) [of "vm_code vm" "vm_ip vm"] control_falls_through [of "vm_code vm" "vm_ip vm"]
      control_depths(4) [of "vm_code vm" "vm_ip vm"] by auto
  define vm0 where "vm0 = set_ip vm (vm_ip vm + 1)"
  have "\<exists>callee vm1 v vm2. pop vm0 = Inr (callee, vm1) \<and> pop vm1 = Inr (v, vm2)"
    using assms(4) [folded vm0_def] by (auto simp: handle_pipe_def handle_error_pipe_def and_then_Inr)
  then obtain callee vm1 v vm2 where pops: "pop vm0 = Inr (callee, vm1)" "pop vm1 = Inr (v, vm2)" by blast
  have "?call vm2 callee v = Inr vm'" if "handle_pipe env vm0 = Inr vm'"
    using that by (simp add: handle_pipe_def pops)
  moreover have "\<exists>v'. ?call vm2 callee v' = Inr vm' \<or> push vm2 v' = Inr vm'" if "handle_error_pipe env vm0 = Inr vm'"
  proof (cases v)
    case (VObject t i)
    then show ?thesis using that
      by (cases t) (simp_all add: handle_error_pipe_def pops Let_def split: prod.splits if_splits; blast)+
  qed (use that in \<open>simp_all add: handle_error_pipe_def pops Let_def; blast\<close>)+
  ultimately obtain v' where r: "?call vm2 callee v' = Inr vm' \<or> push vm2 v' = Inr vm'"
    using assms(4) [folded vm0_def] by blast
  have vm2: "frames vm2 = frames (set_ip vm (vm_ip vm + 1))" "handlers vm2 = handlers vm"
    "length (stack vm) = length (stack vm2) + 2"
    using pop_fields [OF pops(1)] pop_fields [OF pops(2)] by (simp_all add: vm0_def)
  from r show ?thesis
  proof
    assume "?call vm2 callee v' = Inr vm'"
    then obtain vm3 where "frames vm3 = frames vm2" "handlers vm3 = handlers vm2"
      "length (stack vm3) = length (stack vm2) + 2" "calls vm3 1 vm'" by (rule pipe_call)
    then show ?thesis
      using vm2 size depth by (intro call_stays_on_track [OF track inside nt, where ?vm1.0 = vm3 and n = 1]) simp_all
  next
    assume "push vm2 v' = Inr vm'"
    then have vm': "frames vm' = frames (set_ip vm (vm_ip vm + 1))" "handlers vm' = handlers vm"
      "length (stack vm) = length (stack vm') + 1"
      using push_fields [of vm2 v' vm'] vm2 by simp_all
    then show ?thesis
      using size depth nt by (intro on_track_edge [OF track inside] follows_fall [where n = 1])
        (simp_all add: handlers_step_def)
  qed
qed

lemma tail_call_frame_on_track:
  assumes "settled vm" and "0 \<le> cf_arity f"
  shows "on_track (tail_call_frame vm callee f)"
proof -
  obtain fs topf where fs: "frames vm = fs @ [topf]"
    using assms(1) by (metis settled_def append_butlast_last_id)
  let ?vm = "tail_call_frame vm callee f"
  let ?topf = "topf\<lparr>fr_function := f, fr_ip := 0, fr_closure := function_object callee\<rparr>"
  have vm': "frames ?vm = fs @ [?topf]" "length (stack ?vm) = fr_slot_offset topf + 1 + nat (cf_arity f)"
    "handlers ?vm = drop_last_while (\<lambda>h. length fs \<le> eh_frame_index h) (handlers vm)"
    by (simp_all add: tail_call_frame_def Let_def fs discard_frames_from_def)
  have "handlers_reached (fs @ [?topf]) (handlers ?vm)"
    unfolding vm'(3) using assms(1) fs
    by (intro handlers_reached_append [OF handlers_reached_discard [of fs topf "handlers vm"]]) (simp add: settled_def)
  moreover have "successively waits_for (fs @ [?topf])"
    using assms(1) fs successively_last [of ?topf topf fs] by (simp add: settled_def)
  ultimately have "settled ?vm" by (simp add: settled_def vm')
  then show ?thesis
    using reachable.entry [of f] assms(2) by (simp add: on_track_def vm' frame_depth_def algebra_simps)
qed

lemma tail_call_on_track:
  assumes track: "on_track vm" and inside: "vm_ip vm < length (vm_code vm)"
    and op: "vm_code vm ! vm_ip vm = Op_TailCall" and "handle_tail_call env (set_ip vm (vm_ip vm + 1)) = Inr vm'"
  shows "on_track vm'"
proof -
  from assms(4) obtain b vm1 callee where r: "read_byte (set_ip vm (vm_ip vm + 1)) = Inr (b, vm1)"
    and p: "peek vm1 (unat b) = Inr callee"
    by (auto simp: handle_tail_call_def and_then_Inr)
  note run = assms(4) [unfolded handle_tail_call_def r and_then_simps prod.case p]
  have c: "call_value env vm1 callee (unat b) = Inr vm' \<or>
      (\<exists>f vm2. bind_arguments vm1 f (unat b) = Inr vm2 \<and> vm' = tail_call_frame vm2 callee f)"
  proof (cases callee)
    case (VObject t i)
    show ?thesis
    proof (cases "t = VT_Function")
      case True
      with VObject run show ?thesis by (cases "fv_compiled (objects vm1 ! i)") (auto simp: and_then_Inr)
    next
      case False
      with VObject run show ?thesis by (cases t) simp_all
    qed
  qed (use run in simp_all)
  have vm1: "vm1 = set_ip vm (vm_ip vm + 2)" and b: "b = vm_code vm ! (vm_ip vm + 1)"
    using read_byte_Inr [OF r] by simp_all
  from c show ?thesis
  proof
    assume "call_value env vm1 callee (unat b) = Inr vm'"
    then have "calls vm1 (unat b) vm'"
      using p by (intro call_value_calls) (auto simp: peek_def split: if_splits)
    then show ?thesis
      using control_falls_through [of "vm_code vm" "vm_ip vm"] control_depths(3) [of "vm_code vm" "vm_ip vm"]
        control_sizes(8) [OF op] op
      by (intro call_stays_on_track [OF track inside, where ?vm1.0 = vm1 and n = "unat b"]) (simp_all add: vm1 b)
  next
    assume "\<exists>f vm2. bind_arguments vm1 f (unat b) = Inr vm2 \<and> vm' = tail_call_frame vm2 callee f"
    then obtain f vm2 where bind: "bind_arguments vm1 f (unat b) = Inr vm2" and vm': "vm' = tail_call_frame vm2 callee f"
      by blast
    have "settled vm1" using track by (simp add: vm1 on_track_def settled_set_ip)
    then have "settled vm2" using track.bind_arguments_ok [of vm1 f "unat b"] bind by simp
    moreover have "0 \<le> cf_arity f" using bind_arguments_Inr [OF bind] by (metis of_nat_0_le_iff order_trans)
    ultimately show ?thesis unfolding vm' by (rule tail_call_frame_on_track)
  qed
qed

lemma complete_return_on_track:
  assumes "settled vm" and "complete_return vm v (fr_slot_offset (last (frames vm))) = Inr vm'"
    and "dispatch_return_value vm' = None"
  shows "on_track vm'"
proof -
  let ?off = "fr_slot_offset (last (frames vm))"
  let ?vm = "(discard_frames_from vm (length (frames vm) - 1))\<lparr>stack := truncate_to (stack vm) ?off,
      frames := butlast (frames vm)\<rparr>"
  have more: "length (frames vm) - 1 > base_depth vm"
    using assms(2,3) by (auto simp: complete_return_def Let_def split: if_splits)
  then have "push ?vm v = Inr vm'" using assms(2) by (simp add: complete_return_def discard_commute)
  note vm' = push_fields [OF this]
  have s: "settled ?vm" by (rule settled_returned [OF assms(1) more])
  then have "settled vm'" by (simp add: vm' settled_def)
  obtain fs topf where fs: "frames vm = fs @ [topf]"
    using assms(1) by (metis settled_def append_butlast_last_id)
  with more have "fs \<noteq> []" by auto
  with assms(1) fs have "waits_for (last fs) topf"
    by (simp add: settled_def successively_append_iff)
  then have "reachable (vm_function vm') (vm_ip vm') (frame_depth vm')"
    using fs by (simp add: vm' waits_for_def frame_depth_def algebra_simps)
  with \<open>settled vm'\<close> show ?thesis by (simp add: on_track_def)
qed

lemma returns_on_track:
  assumes "settled vm" and "op_return vm = Inr vm' \<or> op_get_local_return vm = Inr vm'"
    and "dispatch_return_value vm' = None"
  shows "on_track vm'"
proof -
  from assms(2) consider v vm1 where "pop vm = Inr (v, vm1)"
      "complete_return vm1 v (fr_slot_offset (last (frames vm1))) = Inr vm'"
    | w vm1 v where "vm_read_u16 vm = Inr (w, vm1)"
      "complete_return vm1 v (fr_slot_offset (last (frames vm1))) = Inr vm'"
    by (auto simp: op_return_def op_get_local_return_def and_then_Inr)
  then show ?thesis
  proof cases
    case 1
    then show ?thesis
      using track.pop_ok [OF assms(1)] assms(3) by (intro complete_return_on_track) simp_all
  next
    case 2
    then show ?thesis
      using track.readers_ok(2) [OF assms(1)] assms(3) by (intro complete_return_on_track) simp_all
  qed
qed

section \<open>Every turn stays on track\<close>

lemma frame_ops_not_modelled: "op \<in> set frame_ops \<Longrightarrow> modelled_handler env op = None"
  unfolding frame_ops_def list.set by (elim insertE emptyE; simp add: modelled_handler_def)+

lemma handler_on_track:
  assumes track: "on_track vm" and succeeds: "turn_succeeds env vm vm'"
    and "exhausted_missing (vm_code vm) (vm_ip vm) = 0" and "dispatch_return_value vm' = None"
  shows "on_track vm'"
proof (cases "vm_code vm ! vm_ip vm \<in> set frame_ops")
  case False
  have "frames vm \<noteq> []" "vm_ip vm < length (vm_code vm)"
    using track succeeds by (simp_all add: on_track_def settled_def turn_succeeds_def)
  with False assms show ?thesis using turn_stays [of env vm vm'] on_track_edge [of vm vm'] by blast
next
  case True
  from succeeds obtain h where inside: "vm_ip vm < length (vm_code vm)"
    and h: "handler_of env (vm_code vm ! vm_ip vm) = Some h" "h (set_ip vm (vm_ip vm + 1)) = Inr vm'"
    by (auto simp: turn_succeeds_def split: option.splits)
  have s: "settled (set_ip vm (vm_ip vm + 1))" using track by (simp add: on_track_def settled_set_ip)
  have none: "modelled_handler env (vm_code vm ! vm_ip vm) = None" by (rule frame_ops_not_modelled [OF True])
  from True consider "vm_code vm ! vm_ip vm = Op_Call" | "vm_code vm ! vm_ip vm = Op_TailCall"
    | "vm_code vm ! vm_ip vm \<in> {Op_Pipe, Op_ErrorPipe}"
    | "vm_code vm ! vm_ip vm \<in> {Op_Return, Op_GetLocalReturn}" | "vm_code vm ! vm_ip vm = Op_EndModule"
    by (auto simp: frame_ops_def)
  then show ?thesis
  proof cases
    case 1
    with h none have "op_call env (set_ip vm (vm_ip vm + 1)) = Inr vm'" by (simp add: handler_of_def control_handler_def)
    then show ?thesis by (rule op_call_on_track [OF track inside 1])
  next
    case 2
    with h none have "handle_tail_call env (set_ip vm (vm_ip vm + 1)) = Inr vm'"
      by (simp add: handler_of_def control_handler_def)
    then show ?thesis by (rule tail_call_on_track [OF track inside 2])
  next
    case 3
    with h none have "handle_pipe env (set_ip vm (vm_ip vm + 1)) = Inr vm' \<or>
        handle_error_pipe env (set_ip vm (vm_ip vm + 1)) = Inr vm'"
      by (auto simp: handler_of_def control_handler_def)
    then show ?thesis by (rule pipes_on_track [OF track inside 3])
  next
    case 4
    with h none have "op_return (set_ip vm (vm_ip vm + 1)) = Inr vm' \<or>
        op_get_local_return (set_ip vm (vm_ip vm + 1)) = Inr vm'"
      by (auto simp: handler_of_def control_handler_def)
    then show ?thesis by (rule returns_on_track [OF s _ assms(4)])
  next
    case 5
    with h none have "dispatch_return_value vm' = Some VNull"
      by (auto simp: handler_of_def control_handler_def op_end_module_def)
    with assms(4) show ?thesis by simp
  qed
qed

lemma run_turn_cases:
  assumes "run_turn env sb vm = Continue vm'"
  obtains (guard) t where "ensure_bytecode_available vm (last (frames vm)) 1 = Inl t" "catch_turn env sb t = Continue vm'"
  | (raised) h t where "handler_of env (vm_code vm ! vm_ip vm) = Some h"
      "h (set_ip vm (vm_ip vm + 1)) = Inl t" "catch_turn env sb t = Continue vm'"
  | (succeeded) "turn_succeeds env vm vm'" "dispatch_return_value vm' = None"
proof (cases "ensure_bytecode_available vm (last (frames vm)) 1")
  case (Inl t)
  with assms guard show thesis by (simp add: run_turn_def Let_def)
next
  case fetch: (Inr u)
  then have inside: "vm_ip vm < length (vm_code vm)"
    by (auto simp: ensure_bytecode_available_def split: if_splits)
  from assms fetch obtain h where h: "handler_of env (vm_code vm ! vm_ip vm) = Some h"
    by (auto simp: run_turn_def Let_def split: option.splits)
  show thesis
  proof (cases "h (set_ip vm (vm_ip vm + 1))")
    case (Inl t)
    with assms fetch h raised show thesis by (simp add: run_turn_def Let_def)
  next
    case (Inr vm1)
    with assms fetch h have "finish_turn vm1 = Continue vm'" by (simp add: run_turn_def Let_def)
    then have "vm1 = vm'" "dispatch_return_value vm' = None"
      by (auto simp: finish_turn_def split: option.splits)
    with Inr h inside succeeded show thesis by (simp add: turn_succeeds_def)
  qed
qed

lemma run_turn_on_track:
  assumes track: "on_track vm" and "exhausted_missing (vm_code vm) (vm_ip vm) = 0"
    and "run_turn env sb vm = Continue vm'"
  shows "on_track vm'"
proof -
  have s: "settled vm" using track by (simp add: on_track_def)
  from assms(3) show ?thesis
  proof (cases rule: run_turn_cases)
    case (guard t)
    then have "settled (snd t)"
      using s by (auto simp: ensure_bytecode_available_def runtime_error_def split: if_splits)
    with guard(2) show ?thesis by (rule catch_turn_on_track [rotated])
  next
    case (raised h t)
    then have "settled (snd t)"
      using handler_throws [OF raised(1) settled_set_ip [OF s, of "vm_ip vm + 1"]] by (simp add: throws_ok_def)
    with raised(3) show ?thesis by (rule catch_turn_on_track [rotated])
  next
    case succeeded
    then show ?thesis by (intro handler_on_track [OF track _ assms(2)]) simp_all
  qed
qed

section \<open>Runs\<close>

text \<open>
  Repeated turns of the dispatch loop.  The verifier gives the exit branch of an iterator loop a depth of
  its own, and iterator steps are not modelled, so no \<^verbatim>\<open>JumpIfFalse\<close> of the run follows one.
\<close>

inductive turns :: "vm_env \<Rightarrow> nat \<Rightarrow> vm \<Rightarrow> vm \<Rightarrow> bool" for env scope_base where
  turns_refl: "turns env scope_base vm vm"
| turns_step: "turns env scope_base vm vm1 \<Longrightarrow> exhausted_missing (vm_code vm1) (vm_ip vm1) = 0 \<Longrightarrow>
     run_turn env scope_base vm1 = Continue vm2 \<Longrightarrow> turns env scope_base vm vm2"

lemma turns_on_track: "turns env sb vm vm' \<Longrightarrow> on_track vm \<Longrightarrow> on_track vm'"
  by (induction rule: turns.induct) (blast intro: run_turn_on_track)+

text \<open>A machine about to run one function from its entry.\<close>

definition at_entry :: "vm \<Rightarrow> bool" where
  "at_entry vm \<longleftrightarrow>
     length (frames vm) = 1 \<and> vm_ip vm = 0 \<and> frame_depth vm = cf_arity (vm_function vm) + 1 \<and> handlers vm = []"

lemma at_entry_on_track: "at_entry vm \<Longrightarrow> on_track vm"
  using reachable.entry [of "vm_function vm"]
  by (auto simp: at_entry_def on_track_def settled_def handlers_reached_def length_Suc_conv)

text \<open>A function the verifier accepts.\<close>

definition accepted :: "compiled_function \<Rightarrow> bool" where
  "accepted f \<longleftrightarrow> verify f = Some [] \<and> 0 \<le> cf_arity f"

lemma accepted_inside:
  "accepted f \<Longrightarrow> reachable f offset d \<Longrightarrow> offset \<in> set (instr_starts (ch_code (cf_chunk f)) 0)"
  using verify_depths [of f] reachable_bounded [of f offset d] unfolding accepted_def by metis

lemma accepted_bounded:
  assumes "accepted f" and "reachable f offset d"
  shows "d + depth_change (ch_code (cf_chunk f)) offset \<le> 65536"
  using assms verify_deepest [of f offset d] unfolding accepted_def
  by (metis (no_types, lifting) add_right_mono k_max_stack_depth_def of_int_numeral order_trans visited_ok_def)

lemma frame_on_track:
  assumes "on_track vm" and "i < length (frames vm)"
  shows "\<exists>d. reachable (fr_function (frames vm ! i)) (fr_ip (frames vm ! i)) d"
proof (cases "Suc i < length (frames vm)")
  case True
  then have "waits_for (frames vm ! i) (frames vm ! Suc i)"
    using assms(1) by (simp add: on_track_def settled_def successively_conv_nth)
  then show ?thesis by (auto simp: waits_for_def)
next
  case False
  with assms have "frames vm ! i = last (frames vm)"
    by (metis Suc_lessI last_conv_nth diff_Suc_1 length_0_conv less_nat_zero_code)
  with assms(1) show ?thesis by (auto simp: on_track_def)
qed

section \<open>The guarantees\<close>

text \<open>A stack within its storage stays there.\<close>

interpretation room: machine_invariant "\<lambda>vm. length (stack vm) \<le> k_max"
  by unfold_locales (simp_all add: set_ip_def)

lemma turn_stays_in_room:
  assumes "turn_succeeds env vm vm'" and "vm_code vm ! vm_ip vm \<notin> set frame_ops" and "length (stack vm) \<le> k_max"
  shows "length (stack vm') \<le> k_max"
proof -
  from assms(1) obtain h where h: "handler_of env (vm_code vm ! vm_ip vm) = Some h"
    "h (set_ip vm (vm_ip vm + 1)) = Inr vm'"
    by (auto simp: turn_succeeds_def split: option.splits)
  have start: "length (stack (set_ip vm (vm_ip vm + 1))) \<le> k_max" using assms(3) by simp
  show ?thesis
  proof (cases "modelled_handler env (vm_code vm ! vm_ip vm)")
    case (Some h')
    with h have "modelled_handler env (vm_code vm ! vm_ip vm) = Some h" by (simp add: handler_of_def)
    from room.modelled_handler_ok [OF this start] h(2) show ?thesis by simp
  next
    case None
    with h have c: "control_handler env (vm_code vm ! vm_ip vm) = Some h" by (simp add: handler_of_def)
    have tries: "length (stack vm2) = length (stack vm1)"
      if "handle_try_catch vm1 = Inr vm2 \<or> op_try_end vm1 = Inr vm2" for vm1 vm2
      using that by (auto simp: handle_try_catch_def op_try_end_def push_handler_def pop_handler_discard_def
          and_then_Inr Let_def split: if_splits dest!: read_u32_stack)
    from control_stays [OF c h(2) assms(2)] show ?thesis
    proof cases
      case 6
      with tries [of "set_ip vm (vm_ip vm + 1)" vm'] start h(2) show ?thesis by simp
    next
      case 7
      with tries [of "set_ip vm (vm_ip vm + 1)" vm'] start h(2) show ?thesis by simp
    next
      case 1
      with room.loop_ok [OF start, of env] h(2) show ?thesis by simp
    next
      case 2
      with room.coalesce_ok [OF start, of env] h(2) show ?thesis by simp
    next
      case 3
      with room.make_closure_ok [OF start, of env] h(2) show ?thesis by simp
    next
      case 4
      with room.upvalue_ops_ok(1) [OF start] h(2) show ?thesis by simp
    next
      case 5
      with room.upvalue_ops_ok(2) [OF start] h(2) show ?thesis by simp
    qed
  qed
qed

text \<open>C5: One turn agrees with the verifier.  At each opcode with a modelled handler that stays in its frame
  (that is, all but calls, pipes, returns and the end of a module, of those the dispatch model covers), a
  turn whose handler succeeds moves the instruction pointer of the running frame along an edge of the
  verifier's flow relation, changes the stack depth by exactly the amount on that edge, touches no other
  frame, and keeps the stack within \<^verbatim>\<open>Stack::k_max\<close>.  Excluded is a
  \<^verbatim>\<open>JumpIfFalse\<close> right after an iterator step, whose exit edge has a depth of its own.\<close>

theorem vm_step_matches_verifier:
  assumes "turn_succeeds env vm vm'" and "frames vm \<noteq> []" and "vm_code vm ! vm_ip vm \<notin> set frame_ops"
    and "exhausted_missing (vm_code vm) (vm_ip vm) = 0"
  shows "(\<exists>ip. frames vm' = frames (set_ip vm ip) \<and>
            flow_edge (vm_code vm) (vm_ip vm) ip (int (length (stack vm')) - int (length (stack vm)))) \<and>
         (length (stack vm) \<le> k_max \<longrightarrow> length (stack vm') \<le> k_max)"
  using turn_stays [OF assms] turn_stays_in_room [OF assms(1,3)] by (simp add: follows_edge_def)

theorem vm_step_matches_verifier_witness:
  "flow_edge [Op_None, Op_Return] 0 1 1"
proof -
  let ?f = "code_function [Op_None, Op_Return] 0"
  have none: "exhausted_missing [Op_None, Op_Return] 0 = 0" by code_simp
  have step: "turn_succeeds sample_env (sample_frame_vm ?f 0 [VNull]) (sample_frame_vm ?f 1 [VNull, VNull])"
    by (simp add: turn_succeeds_def handler_of_def sample_frame_vm_def sample_vm_def modelled_handler_def
        op_none_def push_def set_ip_def k_max_def)
  from vm_step_matches_verifier [OF step] none show ?thesis
    by (simp add: sample_frame_vm_def sample_vm_def frame_ops_def)
qed

text \<open>C9: Running a function from its entry, through calls, tail calls, returns, closures, loops and
  exceptions, for any number of turns of the dispatch loop: when the functions of the frames then on the
  call stack are accepted by the verifier, every one of these frames is at an instruction start of its
  function, every exception handler belongs to one of them and resumes at an instruction start of it, and
  the running frame's next instruction leaves it with at most 65536 values.  The run may use every opcode
  of the dispatch model (a turn at any other ends it) except a \<^verbatim>\<open>JumpIfFalse\<close> right after an
  iterator step.\<close>

theorem verified_run_stays_inside:
  assumes "at_entry vm" and "turns env scope_base vm vm'"
    and "list_all (\<lambda>f. verify (fr_function f) = Some [] \<and> 0 \<le> cf_arity (fr_function f)) (frames vm')"
  shows "frames vm' \<noteq> [] \<and>
         list_all (\<lambda>f. fr_ip f \<in> set (instr_starts (ch_code (cf_chunk (fr_function f))) 0)) (frames vm') \<and>
         list_all (\<lambda>h. eh_frame_index h < length (frames vm') \<and>
            eh_catch_ip h \<in> set (instr_starts (ch_code (cf_chunk (fr_function (frames vm' ! eh_frame_index h)))) 0))
           (handlers vm') \<and>
         frame_depth vm' + depth_change (vm_code vm') (vm_ip vm') \<le> 65536"
proof -
  have track: "on_track vm'" using assms(1,2) at_entry_on_track turns_on_track by blast
  then have ne: "frames vm' \<noteq> []" and hs: "list_all (handler_reached (frames vm')) (handlers vm')"
    by (simp_all add: on_track_def settled_def handlers_reached_def)
  have acc: "accepted (fr_function (frames vm' ! i))" if "i < length (frames vm')" for i
    using assms(3) that by (simp add: list_all_length accepted_def)
  have "fr_ip (frames vm' ! i) \<in> set (instr_starts (ch_code (cf_chunk (fr_function (frames vm' ! i)))) 0)"
    if "i < length (frames vm')" for i
    using frame_on_track [OF track that] accepted_inside [OF acc [OF that]] by blast
  moreover have "list_all (\<lambda>h. eh_frame_index h < length (frames vm') \<and>
      eh_catch_ip h \<in> set (instr_starts (ch_code (cf_chunk (fr_function (frames vm' ! eh_frame_index h)))) 0))
     (handlers vm')"
    using hs accepted_inside [OF acc] unfolding list_all_iff handler_reached_def by blast
  moreover have "accepted (vm_function vm')"
    using acc [of "length (frames vm') - 1"] ne by (simp add: last_conv_nth)
  with accepted_bounded track have "frame_depth vm' + depth_change (vm_code vm') (vm_ip vm') \<le> 65536"
    by (auto simp: on_track_def)
  ultimately show ?thesis using ne by (simp add: list_all_length)
qed

theorem verified_run_stays_inside_witness:
  "\<exists>vm'. turns sample_env 0 (sample_frame_vm (code_function try_code 0) 0 [VNull]) vm' \<and>
         vm_ip vm' = 5 \<and> 5 \<in> set (instr_starts try_code 0) \<and>
         map eh_catch_ip (handlers vm') = [7] \<and> 7 \<in> set (instr_starts try_code 0)"
proof -
  let ?vm = "sample_frame_vm (code_function try_code 0) 0 [VNull]"
  let ?vm' = "(sample_frame_vm (code_function try_code 0) 5 [VNull])\<lparr>handlers := [try_handler]\<rparr>"
  have ok: "verify (code_function try_code 0) = Some []" by code_simp
  have none: "exhausted_missing try_code 0 = 0" by code_simp
  have run: "turns sample_env 0 ?vm ?vm'"
    by (rule turns_step [OF turns_refl _ try_turn]) (use none in \<open>simp add: sample_frame_vm_def\<close>)
  have entry: "at_entry ?vm" by (simp add: at_entry_def sample_frame_vm_def sample_vm_def frame_depth_def)
  from verified_run_stays_inside [OF entry run] ok run show ?thesis
    by (intro exI [of _ ?vm']) (simp add: sample_frame_vm_def try_handler_def)
qed

end
