(* ===== verification/VM_Liveness.thy ===== *)
theory VM_Liveness
  imports VM_Machine
begin

text \<open>
  Running a frame always comes to something.  The instructions that stay in a frame either move the
  instruction pointer forward or are a \<^verbatim>\<open>Loop\<close>, which spends one unit of the total iteration
  budget; so after a number of turns fixed beforehand the frame enters or leaves a call, raises, or comes to
  an opcode outside the dispatch model.  Whole runs are not covered: a tail call moves the instruction
  pointer back to 0 without spending budget.
\<close>

section \<open>Which handlers keep the loop counter\<close>

interpretation count: heap_invariant "\<lambda>vm. total_loop_iterations vm = n" for n
  by unfold_locales (simp_all add: set_ip_def)

lemma count_set_ip [simp]: "total_loop_iterations (set_ip vm ip) = total_loop_iterations vm"
  by (simp add: set_ip_def)

lemma loop_spends:
  assumes "handle_loop env vm = Inr vm'" and "vm_ip vm \<le> length (vm_code vm)"
  shows "vm_code vm' = vm_code vm \<and> total_loop_iterations vm' = total_loop_iterations vm + 1 \<and>
         total_loop_iterations vm' \<le> max_total_loop_iterations env"
proof -
  from assms(1) obtain w vm1 ip a where r: "vm_read_u32 vm = Inr (w, vm1)"
    and vm': "vm' = (set_ip vm1 ip)\<lparr>loop_iterations := a, total_loop_iterations := total_loop_iterations vm1 + 1\<rparr>"
    and le: "total_loop_iterations vm1 + 1 \<le> max_total_loop_iterations env"
    by (auto simp: handle_loop_def and_then_Inr Let_def split: if_splits)
  have "total_loop_iterations vm1 = total_loop_iterations vm"
    using count.readers_ok(3) [OF refl, of vm] r by simp
  with vm' le show ?thesis using read_u32_frames [OF r assms(2)] by simp
qed

section \<open>Every turn inside a frame spends something\<close>

lemma modelled_handler_forward:
  assumes "modelled_handler env op = Some h" and "h vm = Inr vm'" and "vm_ip vm \<le> length (vm_code vm)"
  shows "vm_code vm' = vm_code vm \<and> vm_ip vm \<le> vm_ip vm'"
proof -
  have moved: ?thesis if "frames vm' = frames (set_ip vm ip)" "vm_ip vm \<le> ip" for ip
    using that by simp
  from assms(1) show ?thesis
  proof (cases rule: modelled_handler_cases)
    case goes
    then show ?thesis using frames_jump [of vm vm'] assms(2,3) by simp
  next
    case branch
    then show ?thesis using frames_branch [of h vm vm'] assms(2,3) by auto
  next
    case same_u16
    then show ?thesis using frames_u16_operand [of h env vm vm'] assms(2) by (intro moved) auto
  next
    case pushes_u16
    then show ?thesis using frames_u16_operand [of h env vm vm'] assms(2) by (intro moved) auto
  next
    case drops_u16
    then show ?thesis using frames_u16_operand [of h env vm vm'] assms(2) by (intro moved) auto
  qed (use frames_no_operand [of h env vm vm'] assms(2) in auto)
qed

text \<open>Only a \<^verbatim>\<open>Loop\<close> goes backwards.\<close>

lemma edge_forward: "flow_edge code offset target change \<Longrightarrow> code ! offset \<noteq> Op_Loop \<Longrightarrow> offset < target"
  by (auto simp: flow_edge_iff resolve_forward_jump_target_def k_jump_instruction_size_def)

lemma follows_forward:
  "follows_edge vm vm' \<Longrightarrow> vm_code vm ! vm_ip vm \<noteq> Op_Loop \<Longrightarrow> vm_code vm' = vm_code vm \<and> vm_ip vm < vm_ip vm'"
  by (auto simp: follows_edge_def dest: edge_forward)

lemma try_forward:
  "handle_try_catch vm = Inr vm' \<or> op_try_end vm = Inr vm' \<Longrightarrow> vm_ip vm \<le> length (vm_code vm) \<Longrightarrow>
   vm_code vm' = vm_code vm \<and> vm_ip vm \<le> vm_ip vm' \<and> total_loop_iterations vm' = total_loop_iterations vm"
  by (auto simp: handle_try_catch_def op_try_end_def push_handler_def pop_handler_discard_def and_then_Inr
      Let_def set_ip_def split: if_splits dest!: read_u32_Inr)

lemma control_forward:
  assumes "control_handler env (vm_code vm ! vm_ip vm) = Some h" and "h (set_ip vm (vm_ip vm + 1)) = Inr vm'"
    and "vm_code vm ! vm_ip vm \<notin> set frame_ops" and "vm_ip vm < length (vm_code vm)"
    and "vm_code vm ! vm_ip vm \<noteq> Op_Loop"
  shows "vm_code vm' = vm_code vm \<and> vm_ip vm < vm_ip vm' \<and>
         total_loop_iterations vm' = total_loop_iterations vm"
proof -
  let ?vm = "set_ip vm (vm_ip vm + 1)"
  have start: "total_loop_iterations ?vm = total_loop_iterations vm" by simp
  from control_stays [OF assms(1-3)] show ?thesis
  proof cases
    case 1
    with assms(5) show ?thesis by simp
  next
    case 2
    with follows_forward coalesce_follows [of env vm vm'] count.coalesce_ok [OF start, of env] assms(2,4)
    show ?thesis by simp
  next
    case 3
    with follows_forward make_closure_follows [of env vm vm'] count.make_closure_ok [OF start, of env] assms(2)
    show ?thesis by simp
  next
    case 4
    with follows_forward get_upvalue_follows [of vm vm'] count.upvalue_ops_ok(1) [OF start] assms(2)
    show ?thesis by simp
  next
    case 5
    with follows_forward set_upvalue_follows [of vm vm'] count.upvalue_ops_ok(2) [OF start] assms(2)
    show ?thesis by simp
  qed (use try_forward [of ?vm vm'] start assms(2,4) in auto)
qed

text \<open>What is left to spend: the iterations of the budget, each worth a whole pass over the code, and the
  rest of the code.\<close>

definition turns_left :: "vm_env \<Rightarrow> vm \<Rightarrow> nat" where
  "turns_left env vm =
     (max_total_loop_iterations env - total_loop_iterations vm) * (length (vm_code vm) + 1) +
     (length (vm_code vm) - vm_ip vm)"

lemma budget_spends:
  assumes "vm_code vm' = vm_code vm" and "total_loop_iterations vm' = total_loop_iterations vm + 1"
    and "total_loop_iterations vm' \<le> max_total_loop_iterations env" and "vm_ip vm < length (vm_code vm)"
  shows "turns_left env vm' < turns_left env vm"
proof -
  let ?n = "length (vm_code vm)"
  define left where "left = max_total_loop_iterations env - total_loop_iterations vm'"
  have "max_total_loop_iterations env - total_loop_iterations vm = Suc left"
    using assms(2,3) by (simp add: left_def)
  then have "turns_left env vm = left * (?n + 1) + (?n + 1) + (?n - vm_ip vm)" by (simp add: turns_left_def)
  moreover have "turns_left env vm' \<le> left * (?n + 1) + ?n" by (simp add: turns_left_def assms(1) left_def)
  ultimately show ?thesis using assms(4) by linarith
qed

lemma turn_spends:
  assumes "turn_succeeds env vm vm'" and op: "vm_code vm ! vm_ip vm \<notin> set frame_ops"
  shows "vm_code vm' = vm_code vm \<and> turns_left env vm' < turns_left env vm"
proof -
  let ?vm = "set_ip vm (vm_ip vm + 1)"
  from assms(1) obtain h where inside: "vm_ip vm < length (vm_code vm)"
    and h: "handler_of env (vm_code vm ! vm_ip vm) = Some h" "h ?vm = Inr vm'"
    by (auto simp: turn_succeeds_def split: option.splits)
  have start: "total_loop_iterations ?vm = total_loop_iterations vm" by simp
  have forward: ?thesis if "vm_code vm' = vm_code vm" "vm_ip vm < vm_ip vm'"
      "total_loop_iterations vm' = total_loop_iterations vm"
    using that inside by (simp add: turns_left_def)
  show ?thesis
  proof (cases "modelled_handler env (vm_code vm ! vm_ip vm)")
    case (Some h')
    with h have m: "modelled_handler env (vm_code vm ! vm_ip vm) = Some h" by (simp add: handler_of_def)
    with modelled_handler_forward [OF m h(2)] count.modelled_handler_ok [OF m start] h(2) inside
    show ?thesis by (intro forward) simp_all
  next
    case None
    with h have c: "control_handler env (vm_code vm ! vm_ip vm) = Some h" by (simp add: handler_of_def)
    show ?thesis
    proof (cases "vm_code vm ! vm_ip vm = Op_Loop")
      case True
      with c have "h = handle_loop env" by (simp add: control_handler_def)
      with loop_spends [of env ?vm vm'] h(2) start inside budget_spends [of vm' vm env] show ?thesis by simp
    next
      case False
      with control_forward [OF c h(2) op inside] show ?thesis by (intro forward) simp_all
    qed
  qed
qed

section \<open>Every frame run ends\<close>

text \<open>A turn of the dispatch loop that stays in its frame, and a number of them.\<close>

definition frame_turn :: "vm_env \<Rightarrow> vm \<Rightarrow> vm option" where
  "frame_turn env vm =
     (if vm_ip vm < length (vm_code vm) \<and> vm_code vm ! vm_ip vm \<notin> set frame_ops
      then case handler_of env (vm_code vm ! vm_ip vm) of
             None \<Rightarrow> None
           | Some h \<Rightarrow> (case h (set_ip vm (vm_ip vm + 1)) of Inl _ \<Rightarrow> None | Inr vm' \<Rightarrow> Some vm')
      else None)"

fun frame_turns :: "vm_env \<Rightarrow> nat \<Rightarrow> vm \<Rightarrow> vm option" where
  "frame_turns env 0 vm = Some vm"
| "frame_turns env (Suc n) vm =
     (case frame_turn env vm of None \<Rightarrow> None | Some vm1 \<Rightarrow> frame_turns env n vm1)"

text \<open>Why there may be no further one: the end of the code, an opcode that enters or leaves a frame, an
  opcode outside the dispatch model, or an exception.\<close>

definition frame_over :: "vm_env \<Rightarrow> vm \<Rightarrow> bool" where
  "frame_over env vm \<longleftrightarrow>
     length (vm_code vm) \<le> vm_ip vm \<or> vm_code vm ! vm_ip vm \<in> set frame_ops \<or>
     (case handler_of env (vm_code vm ! vm_ip vm) of
        None \<Rightarrow> True
      | Some h \<Rightarrow> isl (h (set_ip vm (vm_ip vm + 1))))"

lemma frame_turn_Some:
  "frame_turn env vm = Some vm' \<Longrightarrow> turn_succeeds env vm vm' \<and> vm_code vm ! vm_ip vm \<notin> set frame_ops"
  by (auto simp: frame_turn_def turn_succeeds_def split: if_splits option.splits sum.splits)

lemma frame_turn_None: "frame_turn env vm = None \<Longrightarrow> frame_over env vm"
  by (auto simp: frame_turn_def frame_over_def isl_def split: if_splits option.splits sum.splits)

text \<open>C10: Liveness of a frame.  From any machine, after at most as many turns as the rest of the iteration
  budget allows passes over the code, the turns inside the running frame are over: the instruction pointer is
  past the code, the next opcode is a call, a pipe, a return or the end of the module, the next handler
  raises, or the next opcode is one the dispatch model has no handler for (globals, arrays, records,
  iterators and the like).  No sequence of jumps, loops, try blocks, closures and operations goes on inside
  a frame for ever.\<close>

theorem frame_run_ends:
  "\<exists>n vm'. n \<le> turns_left env vm \<and> frame_turns env n vm = Some vm' \<and> vm_code vm' = vm_code vm \<and>
           frame_over env vm'"
proof (induction "turns_left env vm" arbitrary: vm rule: less_induct)
  case less
  show ?case
  proof (cases "frame_turn env vm")
    case None
    then show ?thesis by (intro exI [of _ 0] exI [of _ vm]) (simp add: frame_turn_None)
  next
    case (Some vm1)
    from frame_turn_Some [OF this] have spent: "vm_code vm1 = vm_code vm" "turns_left env vm1 < turns_left env vm"
      using turn_spends by blast+
    with less obtain n vm' where "n \<le> turns_left env vm1" "frame_turns env n vm1 = Some vm'"
      "vm_code vm' = vm_code vm1" "frame_over env vm'" by blast
    with spent Some show ?thesis by (intro exI [of _ "Suc n"] exI [of _ vm']) simp
  qed
qed

end
