(* ===== verification/Optimizer.thy ===== *)
theory Optimizer
  imports VM_Arithmetic
begin

text \<open>
  The bytecode optimizer (\<^verbatim>\<open>core/runtime/compiler/optimizer*.cpp\<close>).  A pass rewrites the
  code vector in place: it overwrites what it removes with the dead byte, and \<^verbatim>\<open>compact\<close>
  deletes the dead bytes at the end and moves jumps and source locations along.  Each loop body of a pass is
  a step function on the chunk and the loop index, and each loop a recursion over it; \<^verbatim>\<open>Inl\<close> is
  the exception of \<^verbatim>\<open>add_constant\<close>.  The set of jump targets is a set of offsets.  The
  arithmetic of doubles is the record of type \<^verbatim>\<open>fpu\<close> the machine uses.
\<close>

section \<open>Limits and shared helpers\<close>

definition k_max_optimizer_iterations :: nat where "k_max_optimizer_iterations = 10"
definition k_max_folded_string_length :: nat where "k_max_folded_string_length = 1024"
definition k_max_jump_chain_depth :: nat where "k_max_jump_chain_depth = 10"
definition k_max_inline_body :: nat where "k_max_inline_body = 16"

definition k_dead_byte :: byte where "k_dead_byte = 0xFF"

definition is_dead_byte :: "byte \<Rightarrow> bool" where
  "is_dead_byte b \<longleftrightarrow> b = k_dead_byte"

definition nop_out :: "byte list \<Rightarrow> nat \<Rightarrow> nat \<Rightarrow> byte list" where
  "nop_out code start len =
     (if length code \<le> start then code
      else let n = min len (length code - start)
           in take start code @ replicate n k_dead_byte @ drop (start + n) code)"

definition opt_read_u16 :: "byte list \<Rightarrow> nat \<Rightarrow> u16" where
  "opt_read_u16 code offset = read_u16_be (drop offset code)"

definition opt_read_u32 :: "byte list \<Rightarrow> nat \<Rightarrow> u32" where
  "opt_read_u32 code offset = read_u32_be (drop offset code)"

definition opt_write_u16 :: "byte list \<Rightarrow> nat \<Rightarrow> u16 \<Rightarrow> byte list" where
  "opt_write_u16 code offset v = patch_u16_be code offset v"

definition opt_write_u32 :: "byte list \<Rightarrow> nat \<Rightarrow> u32 \<Rightarrow> byte list" where
  "opt_write_u32 code offset v = patch_u32_be code offset v"

text \<open>The targets an instruction adds: none when its operand is truncated, or before the code.\<close>

definition target_set :: "byte list \<Rightarrow> nat \<Rightarrow> nat set" where
  "target_set code i =
     (let op = code ! i
      in if is_forward_jump op then
           (if i + k_u32_operand_size < length code
            then let offset = unat (opt_read_u32 code (i + 1)) in {i + k_jump_instruction_size + offset} else {})
         else if op = Op_Loop then
           (if i + k_u32_operand_size < length code
            then let offset = unat (opt_read_u32 code (i + 1))
                 in if offset \<le> i + k_jump_instruction_size then {i + k_jump_instruction_size - offset} else {}
            else {})
         else {})"

function collect_from :: "byte list \<Rightarrow> nat \<Rightarrow> nat set" where
  "collect_from code i =
     (if i < length code then
        (if is_dead_byte (code ! i) then collect_from code (i + 1)
         else target_set code i \<union> collect_from code (i + instruction_size code i))
      else {})"
  by pat_completeness auto
termination
  by (relation "measure (\<lambda>(code, i). length code - i)") (auto simp: diff_less_mono2)

definition collect_jump_targets :: "byte list \<Rightarrow> nat set" where
  "collect_jump_targets code = collect_from code 0"

declare collect_from.simps [simp del]

lemma length_nop_out [simp]: "length (nop_out code start len) = length code"
  by (simp add: nop_out_def Let_def)

lemma length_opt_write [simp]:
  "length (opt_write_u16 code offset v) = length code" "length (opt_write_u32 code offset w) = length code"
  by (simp_all add: opt_write_u16_def opt_write_u32_def)

lemma nth_nop_out:
  "k < length code \<Longrightarrow> nop_out code start len ! k = (if start \<le> k \<and> k < start + len then k_dead_byte else code ! k)"
  by (auto simp: nop_out_def Let_def nth_append min_def)

lemma add_constant_code: "add_constant c v = Inr (c', idx) \<Longrightarrow> ch_code c' = ch_code c"
  by (auto simp: add_constant_def split: sum.splits prod.splits)

section \<open>Peephole pass\<close>

definition k_replace_first_patterns :: "(op \<times> op \<times> op) list" where
  "k_replace_first_patterns =
     [(Op_True, Op_Not, Op_False), (Op_False, Op_Not, Op_True),
      (Op_Equal, Op_Not, Op_NotEqual), (Op_NotEqual, Op_Not, Op_Equal)]"

definition k_cancel_pair_patterns :: "(op \<times> op) list" where
  "k_cancel_pair_patterns = [(Op_Dup, Op_Pop), (Op_Swap, Op_Swap), (Op_None, Op_Pop)]"

text \<open>The operand-dependent patterns; \<^verbatim>\<open>None\<close> when none applies.\<close>

definition peephole_structural ::
    "fpu \<Rightarrow> chunk \<Rightarrow> nat \<Rightarrow> nat \<Rightarrow> (luma_error + chunk \<times> nat \<times> nat) option" where
  "peephole_structural fp c i next_offset =
     (let code = ch_code c; op = code ! i; next_op = code ! next_offset;
          values = cp_values (ch_constants c)
      in if op = Op_IntToNumber \<and> next_op = Op_IntToNumber then
           Some (Inr (c\<lparr>ch_code := nop_out code next_offset 1\<rparr>, 1, next_offset + 1))
         else if op = Op_Constant \<and> next_op = Op_IntToNumber \<and> i + 2 < length code \<and>
                 cp_size (ch_constants c) < k_max_constants \<and>
                 unat (opt_read_u16 code (i + 1)) < cp_size (ch_constants c) \<and>
                 is_integer (values ! unat (opt_read_u16 code (i + 1))) then
           Some (case add_constant c (VNumber (as_double fp (values ! unat (opt_read_u16 code (i + 1))))) of
                   Inl e \<Rightarrow> Inl e
                 | Inr (c', new_idx) \<Rightarrow>
                     Inr (c'\<lparr>ch_code := nop_out (opt_write_u16 code (i + 1) new_idx) next_offset 1\<rparr>, 1, i + 3))
         else if op = Op_SetLocal \<and> next_op = Op_GetLocal \<and> i + 5 < length code \<and>
                 opt_read_u16 code (i + 1) = opt_read_u16 code (next_offset + 1) then
           Some (Inr (c\<lparr>ch_code := nop_out (code[i + 3 := Op_Dup]) (i + 4) 2\<rparr>, 2, i + 4))
         else if op = Op_GetLocal \<and> next_op = Op_Return then
           Some (Inr (c\<lparr>ch_code := nop_out (code[i := Op_GetLocalReturn]) next_offset 1\<rparr>, 1, i + 3))
         else if op = Op_Dup \<and> next_op = Op_SetLocalPop \<and> i + 3 < length code then
           Some (Inr (c\<lparr>ch_code := nop_out (code[i := Op_SetLocal, i + 1 := code ! (next_offset + 1),
                                             i + 2 := code ! (next_offset + 2)]) (i + 3) 1\<rparr>, 1, i + 3))
         else None)"

text \<open>
  One turn of the loop: the new chunk, the bytes eliminated and the next index.  \<^verbatim>\<open>None\<close> is
  the \<^verbatim>\<open>break\<close>.
\<close>

definition peephole_step ::
    "fpu \<Rightarrow> nat set \<Rightarrow> chunk \<Rightarrow> nat \<Rightarrow> (luma_error + chunk \<times> nat \<times> nat) option" where
  "peephole_step fp jump_targets c i =
     (let code = ch_code c; op = code ! i; size = instruction_size code i; next_offset = i + size
      in if length code \<le> next_offset then None
         else if next_offset \<in> jump_targets then Some (Inr (c, 0, i + size))
         else case find (\<lambda>(first, second, _). op = first \<and> code ! next_offset = second) k_replace_first_patterns of
                Some (_, _, replacement) \<Rightarrow>
                  Some (Inr (c\<lparr>ch_code := nop_out (code[i := replacement]) next_offset 1\<rparr>, 1, i + 1))
              | None \<Rightarrow>
                  if list_ex (\<lambda>(first, second). op = first \<and> code ! next_offset = second) k_cancel_pair_patterns
                  then Some (Inr (c\<lparr>ch_code := nop_out code i 2\<rparr>, 2, i + 2))
                  else case peephole_structural fp c i next_offset of
                         Some r \<Rightarrow> Some r
                       | None \<Rightarrow> Some (Inr (c, 0, i + size)))"

lemma peephole_structural_advances:
  assumes "peephole_structural fp c i next_offset = Some (Inr (c', n, i'))" and "i < next_offset"
  shows "length (ch_code c') = length (ch_code c) \<and> i < i'"
  using assms unfolding peephole_structural_def Let_def
  by (auto split: if_split_asm sum.split_asm)

lemma peephole_step_advances:
  assumes "peephole_step fp jump_targets c i = Some (Inr (c', n, i'))"
  shows "length (ch_code c') = length (ch_code c) \<and> i < i'"
  using assms peephole_structural_advances [of fp c i "i + instruction_size (ch_code c) i"]
  unfolding peephole_step_def Let_def
  by (auto split: if_split_asm option.split_asm)

function peephole_loop :: "fpu \<Rightarrow> nat set \<Rightarrow> chunk \<Rightarrow> nat \<Rightarrow> nat \<Rightarrow> luma_error + chunk \<times> nat" where
  "peephole_loop fp jump_targets c i eliminated =
     (if i + 1 < length (ch_code c) then
        (case peephole_step fp jump_targets c i of
           None \<Rightarrow> Inr (c, eliminated)
         | Some (Inl e) \<Rightarrow> Inl e
         | Some (Inr (c', n, i')) \<Rightarrow> peephole_loop fp jump_targets c' i' (eliminated + n))
      else Inr (c, eliminated))"
  by pat_completeness auto
termination
  by (relation "measure (\<lambda>(fp, jump_targets, c, i, eliminated). length (ch_code c) - i)")
    (auto dest!: peephole_step_advances simp: diff_less_mono2)

declare peephole_loop.simps [simp del]

definition peephole_pass :: "fpu \<Rightarrow> chunk \<Rightarrow> luma_error + chunk \<times> nat" where
  "peephole_pass fp c =
     (if length (ch_code c) < 2 then Inr (c, 0)
      else peephole_loop fp (collect_jump_targets (ch_code c)) c 0 0)"

section \<open>Constant folding\<close>

definition fold_comparison :: "op \<Rightarrow> 'a::linorder \<Rightarrow> 'a \<Rightarrow> bool option" where
  "fold_comparison cmp_op a b =
     (if cmp_op = Op_Equal then Some (a = b)
      else if cmp_op = Op_NotEqual then Some (a \<noteq> b)
      else if cmp_op = Op_Less then Some (a < b)
      else if cmp_op = Op_LessEqual then Some (a \<le> b)
      else if cmp_op = Op_Greater then Some (a > b)
      else if cmp_op = Op_GreaterEqual then Some (a \<ge> b)
      else None)"

record fold_candidate =
  fc_i :: nat
  fc_op2_pos :: nat
  fc_arith_pos :: nat
  fc_idx1 :: u16
  fc_idx2 :: u16
  fc_arith_op :: op

function find_foldable_pair :: "byte list \<Rightarrow> nat \<Rightarrow> fold_candidate option" where
  "find_foldable_pair code i =
     (if i + k_constant_instruction_size < length code then
        (if code ! i \<noteq> Op_Constant then find_foldable_pair code (i + instruction_size code i)
         else let op2_pos = i + k_constant_instruction_size
              in if \<not> in_bounds code op2_pos k_constant_instruction_size then None
                 else if code ! op2_pos \<noteq> Op_Constant
                 then find_foldable_pair code (i + k_constant_instruction_size)
                 else let arith_pos = op2_pos + k_constant_instruction_size
                      in if length code \<le> arith_pos then None
                         else Some \<lparr>fc_i = i, fc_op2_pos = op2_pos, fc_arith_pos = arith_pos,
                                fc_idx1 = opt_read_u16 code (i + 1), fc_idx2 = opt_read_u16 code (op2_pos + 1),
                                fc_arith_op = code ! arith_pos\<rparr>)
      else None)"
  by pat_completeness auto
termination
  by (relation "measure (\<lambda>(code, i). length code - i)")
    (auto simp: diff_less_mono2 k_constant_instruction_size_def)

declare find_foldable_pair.simps [simp del]

definition try_fold_operation :: "fpu \<Rightarrow> val \<Rightarrow> val \<Rightarrow> op \<Rightarrow> val option" where
  "try_fold_operation fp val1 val2 op =
     (case (val1, val2) of
        (VInteger a, VInteger b) \<Rightarrow>
          (if op = Op_Add \<and> \<not> would_overflow_add (sint a) (sint b) then Some (VInteger (a + b))
           else if op = Op_Subtract \<and> \<not> would_overflow_sub (sint a) (sint b) then Some (VInteger (a - b))
           else if op = Op_Multiply \<and> \<not> would_overflow_mul (sint a) (sint b) then Some (VInteger (a * b))
           else if op = Op_IntDivide \<and> b \<noteq> 0 \<and> \<not> would_overflow_div (sint a) (sint b) then
             (let quotient = sint a sdiv sint b; remainder = sint a smod sint b
              in Some (VInteger (word_of_int
                   (if remainder \<noteq> 0 \<and> ((remainder < 0) \<noteq> (sint b < 0)) then quotient - 1 else quotient))))
           else if op = Op_Modulo \<and> b \<noteq> 0 \<and> \<not> would_overflow_div (sint a) (sint b) then
             Some (VInteger (word_of_int (sint a smod sint b)))
           else None)
      | _ \<Rightarrow>
          if is_numeric val1 \<and> is_numeric val2 then
            (let a = as_double fp val1; b = as_double fp val2;
                 result = (if op = Op_Add then Some (fp_add fp a b)
                           else if op = Op_Subtract then Some (fp_sub fp a b)
                           else if op = Op_Multiply then Some (fp_mul fp a b)
                           else if op = Op_Divide \<and> \<not> fp_eq b 0 then Some (fp_div fp a b)
                           else None)
             in case result of
                  Some x \<Rightarrow> if fp_isfinite x then Some (VNumber x) else None
                | None \<Rightarrow> None)
          else case (val1, val2) of
                 (VString sa, VString sb) \<Rightarrow>
                   if op = Op_Concatenate \<and> length sa + length sb \<le> k_max_folded_string_length
                   then Some (VString (sa @ sb)) else None
               | _ \<Rightarrow> None)"

definition apply_fold_optimization :: "fpu \<Rightarrow> chunk \<Rightarrow> fold_candidate \<Rightarrow> luma_error + chunk \<times> bool" where
  "apply_fold_optimization fp c candidate =
     (let values = cp_values (ch_constants c); code = ch_code c
      in if cp_size (ch_constants c) \<le> unat (fc_idx1 candidate) \<or>
            cp_size (ch_constants c) \<le> unat (fc_idx2 candidate) then Inr (c, False)
         else case try_fold_operation fp (values ! unat (fc_idx1 candidate))
                     (values ! unat (fc_idx2 candidate)) (fc_arith_op candidate) of
                None \<Rightarrow> Inr (c, False)
              | Some result \<Rightarrow>
                  if k_max_constants \<le> cp_size (ch_constants c) then Inr (c, False)
                  else case add_constant c result of
                         Inl e \<Rightarrow> Inl e
                       | Inr (c', new_idx) \<Rightarrow>
                           Inr (c'\<lparr>ch_code := nop_out (opt_write_u16 (code[fc_i candidate := Op_Constant])
                                    (fc_i candidate + 1) new_idx) (fc_op2_pos candidate)
                                    (k_constant_instruction_size + 1)\<rparr>, True))"

text \<open>
  The loop restarts at the folded constant.  It ends because the byte after that constant is dead from then
  on, so the same position is no candidate again.
\<close>

lemma find_foldable_pair_Some:
  assumes "find_foldable_pair code from = Some cand"
  shows "from \<le> fc_i cand \<and> code ! fc_i cand = Op_Constant \<and> fc_op2_pos cand = fc_i cand + 3 \<and>
    code ! (fc_i cand + 3) = Op_Constant \<and> fc_arith_pos cand = fc_i cand + 6 \<and>
    fc_i cand + 6 < length code \<and> fc_arith_op cand = code ! (fc_i cand + 6) \<and>
    fc_idx1 cand = opt_read_u16 code (fc_i cand + 1) \<and> fc_idx2 cand = opt_read_u16 code (fc_i cand + 4)"
  using assms
proof (induction code "from" rule: find_foldable_pair.induct)
  case (1 code i)
  let ?next = "i + instruction_size code i"
  from "1.prems" have inside: "i + 3 < length code"
    by (subst (asm) find_foldable_pair.simps) (auto simp: k_constant_instruction_size_def split: if_split_asm)
  consider (skip) "code ! i \<noteq> Op_Constant" "find_foldable_pair code ?next = Some cand"
    | (skip3) "code ! i = Op_Constant" "code ! (i + 3) \<noteq> Op_Constant" "in_bounds code (i + 3) 3"
        "find_foldable_pair code (i + 3) = Some cand"
    | (here) "code ! i = Op_Constant" "code ! (i + 3) = Op_Constant" "i + 6 < length code"
        "cand = \<lparr>fc_i = i, fc_op2_pos = i + 3, fc_arith_pos = i + 6, fc_idx1 = opt_read_u16 code (i + 1),
           fc_idx2 = opt_read_u16 code (i + 4), fc_arith_op = code ! (i + 6)\<rparr>"
    using "1.prems"
    by (subst (asm) find_foldable_pair.simps)
      (auto simp: k_constant_instruction_size_def Let_def add.commute split: if_split_asm)
  then show ?case
  proof cases
    case skip
    with "1.IH"(1) inside show ?thesis by (auto simp: k_constant_instruction_size_def)
  next
    case skip3
    with "1.IH"(2) inside show ?thesis by (auto simp: k_constant_instruction_size_def)
  qed simp
qed

lemma apply_fold_code:
  assumes "apply_fold_optimization fp c cand = Inr (c', b)"
  shows "length (ch_code c') = length (ch_code c)"
    and "b \<Longrightarrow> k < length (ch_code c) \<Longrightarrow> fc_op2_pos cand \<le> k \<Longrightarrow> k < fc_op2_pos cand + 4 \<Longrightarrow>
           ch_code c' ! k = k_dead_byte"
    and "\<not> b \<Longrightarrow> c' = c"
  using assms unfolding apply_fold_optimization_def Let_def
  by (auto split: if_split_asm option.split_asm sum.split_asm
      simp: nth_nop_out k_constant_instruction_size_def)

function constant_fold_loop :: "fpu \<Rightarrow> nat set \<Rightarrow> chunk \<Rightarrow> nat \<Rightarrow> nat \<Rightarrow> luma_error + chunk \<times> nat" where
  "constant_fold_loop fp jump_targets c from eliminated =
     (case find_foldable_pair (ch_code c) from of
        None \<Rightarrow> Inr (c, eliminated)
      | Some candidate \<Rightarrow>
          let crosses_block_boundary =
                fc_op2_pos candidate \<in> jump_targets \<or> fc_arith_pos candidate \<in> jump_targets
          in if crosses_block_boundary
             then constant_fold_loop fp jump_targets c (fc_i candidate + k_constant_instruction_size) eliminated
             else case apply_fold_optimization fp c candidate of
                    Inl e \<Rightarrow> Inl e
                  | Inr (c', applied) \<Rightarrow>
                      if applied
                      then constant_fold_loop fp jump_targets c' (fc_i candidate)
                             (eliminated + (k_constant_instruction_size + 1))
                      else constant_fold_loop fp jump_targets c' (fc_i candidate + k_constant_instruction_size)
                             eliminated)"
  by pat_completeness auto
termination
proof (relation "measure (\<lambda>(fp, jump_targets, c, i, eliminated).
     2 * (length (ch_code c) - i) + (if ch_code c ! (i + 3) = Op_Constant then 1 else 0))")
  fix fp :: fpu and jump_targets c "from" and eliminated :: nat and cand r b c' applied
  assume found: "find_foldable_pair (ch_code c) from = Some cand"
    and "b = (fc_op2_pos cand \<in> jump_targets \<or> fc_arith_pos cand \<in> jump_targets)" "\<not> b"
    and "apply_fold_optimization fp c cand = Inr r" "(c', applied) = r" "applied"
  then have folded: "apply_fold_optimization fp c cand = Inr (c', True)" by simp
  note cand = find_foldable_pair_Some [OF found]
  have dead: "ch_code c' ! (fc_i cand + 3) \<noteq> Op_Constant"
    using apply_fold_code(2) [OF folded, of "fc_i cand + 3"] cand by (simp add: k_dead_byte_def)
  show "((fp, jump_targets, c', fc_i cand, eliminated + (k_constant_instruction_size + 1)),
         fp, jump_targets, c, from, eliminated) \<in> measure (\<lambda>(fp, jump_targets, c, i, eliminated).
     2 * (length (ch_code c) - i) + (if ch_code c ! (i + 3) = Op_Constant then 1 else 0))"
    using cand dead apply_fold_code(1) [OF folded] by (cases "from = fc_i cand") (auto simp: le_less)
qed (auto simp: k_constant_instruction_size_def dest!: find_foldable_pair_Some apply_fold_code(1))

declare constant_fold_loop.simps [simp del]

definition constant_fold_pass :: "fpu \<Rightarrow> chunk \<Rightarrow> luma_error + chunk \<times> nat" where
  "constant_fold_pass fp c =
     (if length (ch_code c) < k_constant_instruction_size + 1 then Inr (c, 0)
      else constant_fold_loop fp (collect_jump_targets (ch_code c)) c 0 0)"

section \<open>Unary folding\<close>

text \<open>
  The three folds of the pass: a negated integer or number, and the boolean an instruction of its own
  pushes.  A fold that succeeds leaves the index where it is.
\<close>

definition unary_fold_value :: "val \<Rightarrow> op \<Rightarrow> val option" where
  "unary_fold_value v unary_op =
     (case v of
        VInteger n \<Rightarrow> if unary_op = Op_Negate \<and> sint n \<noteq> int64_min then Some (VInteger (- n)) else None
      | VNumber x \<Rightarrow> if unary_op = Op_Negate then Some (VNumber (fp_neg x)) else None
      | VBool b \<Rightarrow> if unary_op = Op_Not then Some (VBool (\<not> b)) else None
      | _ \<Rightarrow> None)"

definition unary_fold_write :: "chunk \<Rightarrow> nat \<Rightarrow> val \<Rightarrow> luma_error + chunk \<times> nat \<times> nat" where
  "unary_fold_write c i v =
     (let code = ch_code c
      in case v of
           VBool b \<Rightarrow>
             Inr (c\<lparr>ch_code := nop_out (code[i := (if b then Op_True else Op_False)]) (i + 1) (2 + 1)\<rparr>, 2 + 1, i)
         | _ \<Rightarrow>
             (case add_constant c v of
                Inl e \<Rightarrow> Inl e
              | Inr (c', new_idx) \<Rightarrow>
                  Inr (c'\<lparr>ch_code := nop_out (opt_write_u16 code (i + 1) new_idx)
                            (i + k_constant_instruction_size) 1\<rparr>, 1, i)))"

definition unary_fold_step :: "nat set \<Rightarrow> chunk \<Rightarrow> nat \<Rightarrow> (luma_error + chunk \<times> nat \<times> nat) option" where
  "unary_fold_step jump_targets c i =
     (let code = ch_code c;
          unary_offset = i + k_constant_instruction_size;
          skip = Some (Inr (c, 0, i + k_constant_instruction_size))
      in if code ! i \<noteq> Op_Constant then Some (Inr (c, 0, i + instruction_size code i))
         else if length code \<le> unary_offset then None
         else if cp_size (ch_constants c) \<le> unat (opt_read_u16 code (i + 1)) \<or> unary_offset \<in> jump_targets then skip
         else if k_max_constants \<le> cp_size (ch_constants c) then skip
         else case unary_fold_value (cp_values (ch_constants c) ! unat (opt_read_u16 code (i + 1))) (code ! unary_offset) of
                Some v \<Rightarrow> Some (unary_fold_write c i v)
              | None \<Rightarrow> skip)"

text \<open>What bounds the loops that may stay at an index: the foldable constant there is gone afterwards.\<close>

definition fold_pending :: "byte list \<Rightarrow> nat \<Rightarrow> nat" where
  "fold_pending code i =
     2 * (length code - i) + (if code ! i = Op_Constant \<and> code ! (i + 3) \<noteq> k_dead_byte then 1 else 0)"

lemma fold_pending_advance: "length code' = length code \<Longrightarrow> i < length code \<Longrightarrow> i < i' \<Longrightarrow>
    fold_pending code' i' < fold_pending code i"
  by (auto simp: fold_pending_def)

lemma fold_pending_stay:
  "length code' = length code \<Longrightarrow> code ! i = Op_Constant \<Longrightarrow> code ! (i + 3) \<noteq> k_dead_byte \<Longrightarrow>
   code' ! i \<noteq> Op_Constant \<or> code' ! (i + 3) = k_dead_byte \<Longrightarrow> fold_pending code' i < fold_pending code i"
  by (auto simp: fold_pending_def)

lemma unary_fold_value_op: "unary_fold_value v unary_op = Some r \<Longrightarrow> unary_op \<in> {Op_Negate, Op_Not}"
  by (auto simp: unary_fold_value_def split: val.splits if_splits)

lemma unary_fold_write_code:
  assumes "unary_fold_write c i v = Inr (c', n, i')" and "i + 3 < length (ch_code c)"
  shows "i' = i \<and> length (ch_code c') = length (ch_code c) \<and> ch_code c' ! (i + 3) = k_dead_byte"
proof (cases "\<exists>b. v = VBool b")
  case True
  with assms show ?thesis by (auto simp: unary_fold_write_def nth_nop_out)
next
  case False
  then have "unary_fold_write c i v = (case add_constant c v of Inl e \<Rightarrow> Inl e
     | Inr (c', new_idx) \<Rightarrow> Inr (c'\<lparr>ch_code := nop_out (opt_write_u16 (ch_code c) (i + 1) new_idx)
                                  (i + k_constant_instruction_size) 1\<rparr>, 1, i))"
    by (cases v) (simp_all add: unary_fold_write_def)
  with assms show ?thesis by (auto simp: nth_nop_out k_constant_instruction_size_def split: sum.split_asm)
qed

lemma unary_fold_step_cases:
  assumes "unary_fold_step jump_targets c i = Some r" and "i + 3 < length (ch_code c)"
  obtains (skip) i' where "r = Inr (c, 0, i')" "i < i'"
      "i' = i + instruction_size (ch_code c) i \<or> ch_code c ! i = Op_Constant \<and> i' = i + 3"
    | (fold) v where "r = unary_fold_write c i v" "ch_code c ! i = Op_Constant"
      "unat (opt_read_u16 (ch_code c) (i + 1)) < cp_size (ch_constants c)" "i + 3 \<notin> jump_targets"
      "cp_size (ch_constants c) < k_max_constants"
      "unary_fold_value (cp_values (ch_constants c) ! unat (opt_read_u16 (ch_code c) (i + 1)))
         (ch_code c ! (i + 3)) = Some v"
  using assms unfolding unary_fold_step_def Let_def k_constant_instruction_size_def
  by (auto split: if_split_asm option.split_asm)

lemma unary_fold_step_advances:
  assumes "unary_fold_step jump_targets c i = Some (Inr (c', n, i'))"
    and "i + k_constant_instruction_size < length (ch_code c)"
  shows "length (ch_code c') = length (ch_code c)" "fold_pending (ch_code c') i' < fold_pending (ch_code c) i"
proof -
  have inside: "i + 3 < length (ch_code c)" using assms(2) by (simp add: k_constant_instruction_size_def)
  from assms(1) inside
  have "length (ch_code c') = length (ch_code c) \<and> fold_pending (ch_code c') i' < fold_pending (ch_code c) i"
  proof (cases rule: unary_fold_step_cases)
    case (skip k)
    with inside show ?thesis by (simp add: fold_pending_advance)
  next
    case (fold v)
    with unary_fold_write_code [of c i v c' n i'] unary_fold_value_op inside show ?thesis
      by (force intro!: fold_pending_stay simp: k_dead_byte_def)
  qed
  then show "length (ch_code c') = length (ch_code c)" "fold_pending (ch_code c') i' < fold_pending (ch_code c) i"
    by simp_all
qed

function unary_fold_loop :: "nat set \<Rightarrow> chunk \<Rightarrow> nat \<Rightarrow> nat \<Rightarrow> luma_error + chunk \<times> nat" where
  "unary_fold_loop jump_targets c i eliminated =
     (if i + k_constant_instruction_size < length (ch_code c) then
        (case unary_fold_step jump_targets c i of
           None \<Rightarrow> Inr (c, eliminated)
         | Some (Inl e) \<Rightarrow> Inl e
         | Some (Inr (c', n, i')) \<Rightarrow> unary_fold_loop jump_targets c' i' (eliminated + n))
      else Inr (c, eliminated))"
  by pat_completeness auto
termination
  by (relation "measure (\<lambda>(jump_targets, c, i, eliminated). fold_pending (ch_code c) i)")
    (auto intro: unary_fold_step_advances)

declare unary_fold_loop.simps [simp del]

definition unary_fold_pass :: "chunk \<Rightarrow> luma_error + chunk \<times> nat" where
  "unary_fold_pass c =
     (if length (ch_code c) < k_constant_instruction_size + 1 then Inr (c, 0)
      else unary_fold_loop (collect_jump_targets (ch_code c)) c 0 0)"

section \<open>Comparison folding\<close>

definition k_cmp_fold_min_size :: nat where
  "k_cmp_fold_min_size = k_constant_instruction_size * 2 + 1"

definition k_cmp_fold_eliminated :: nat where
  "k_cmp_fold_eliminated = 2 + k_constant_instruction_size + 1"

definition fold_values :: "op \<Rightarrow> val \<Rightarrow> val \<Rightarrow> bool option" where
  "fold_values cmp_op val1 val2 =
     (case (val1, val2) of
        (VInteger a, VInteger b) \<Rightarrow> fold_comparison cmp_op (sint a) (sint b)
      | (VString a, VString b) \<Rightarrow> fold_comparison cmp_op a b
      | _ \<Rightarrow> None)"

definition comparison_fold_step :: "nat set \<Rightarrow> chunk \<Rightarrow> nat \<Rightarrow> (chunk \<times> nat \<times> nat) option" where
  "comparison_fold_step jump_targets c i =
     (let code = ch_code c; values = cp_values (ch_constants c); n_constants = cp_size (ch_constants c);
          op2_offset = i + k_constant_instruction_size;
          cmp_offset = op2_offset + k_constant_instruction_size;
          skip = Some (c, 0, i + k_constant_instruction_size)
      in if code ! i \<noteq> Op_Constant then Some (c, 0, i + instruction_size code i)
         else if \<not> in_bounds code op2_offset k_constant_instruction_size \<or> code ! op2_offset \<noteq> Op_Constant
         then skip
         else if \<not> in_bounds code cmp_offset 1 then None
         else if \<not> is_comparison (code ! cmp_offset) then skip
         else if op2_offset \<in> jump_targets \<or> cmp_offset \<in> jump_targets then skip
         else if n_constants \<le> unat (opt_read_u16 code (i + 1)) \<or>
                 n_constants \<le> unat (opt_read_u16 code (op2_offset + 1)) then skip
         else case fold_values (code ! cmp_offset) (values ! unat (opt_read_u16 code (i + 1)))
                     (values ! unat (opt_read_u16 code (op2_offset + 1))) of
                Some result \<Rightarrow>
                  Some (c\<lparr>ch_code := nop_out (code[i := (if result then Op_True else Op_False)]) (i + 1)
                           k_cmp_fold_eliminated\<rparr>, k_cmp_fold_eliminated, i)
              | None \<Rightarrow> skip)"

lemma comparison_fold_step_cases:
  assumes "comparison_fold_step jump_targets c i = Some r" and "i + 6 < length (ch_code c)"
  obtains (skip) i' where "r = (c, 0, i')" "i < i'"
      "i' = i + instruction_size (ch_code c) i \<or> ch_code c ! i = Op_Constant \<and> i' = i + 3"
    | (fold) b where "ch_code c ! i = Op_Constant" "ch_code c ! (i + 3) = Op_Constant"
      "i + 3 \<notin> jump_targets" "i + 6 \<notin> jump_targets"
      "unat (opt_read_u16 (ch_code c) (i + 1)) < cp_size (ch_constants c)"
      "unat (opt_read_u16 (ch_code c) (i + 4)) < cp_size (ch_constants c)"
      "fold_values (ch_code c ! (i + 6)) (cp_values (ch_constants c) ! unat (opt_read_u16 (ch_code c) (i + 1)))
         (cp_values (ch_constants c) ! unat (opt_read_u16 (ch_code c) (i + 4))) = Some b"
      "r = (c\<lparr>ch_code := nop_out ((ch_code c)[i := (if b then Op_True else Op_False)]) (i + 1) 6\<rparr>, 6, i)"
proof -
  have offsets: "i + 3 + 1 = i + 4" "i + 3 + 3 = i + 6" "2 + 3 + 1 = (6 :: nat)" by simp_all
  show thesis
    using assms(1) skip fold
    unfolding comparison_fold_step_def Let_def k_constant_instruction_size_def k_cmp_fold_eliminated_def offsets
    by (simp only: split: if_split_asm option.split_asm; (simp; fail)?; fastforce)
qed

lemma comparison_fold_step_advances:
  assumes "comparison_fold_step jump_targets c i = Some (c', n, i')"
    and "i + k_cmp_fold_eliminated < length (ch_code c)"
  shows "length (ch_code c') = length (ch_code c)" "fold_pending (ch_code c') i' < fold_pending (ch_code c) i"
proof -
  have inside: "i + 6 < length (ch_code c)"
    using assms(2) by (simp add: k_cmp_fold_eliminated_def k_constant_instruction_size_def)
  from assms(1) inside
  have "length (ch_code c') = length (ch_code c) \<and> fold_pending (ch_code c') i' < fold_pending (ch_code c) i"
  proof (cases rule: comparison_fold_step_cases)
    case (skip k)
    with inside show ?thesis by (simp add: fold_pending_advance)
  next
    case (fold b)
    with inside have "fold_pending (ch_code c') i < fold_pending (ch_code c) i"
      by (intro fold_pending_stay) (simp_all add: nth_nop_out k_dead_byte_def)
    with fold show ?thesis by simp
  qed
  then show "length (ch_code c') = length (ch_code c)" "fold_pending (ch_code c') i' < fold_pending (ch_code c) i"
    by simp_all
qed

function comparison_fold_loop :: "nat set \<Rightarrow> chunk \<Rightarrow> nat \<Rightarrow> nat \<Rightarrow> chunk \<times> nat" where
  "comparison_fold_loop jump_targets c i eliminated =
     (if i + k_cmp_fold_eliminated < length (ch_code c) then
        (case comparison_fold_step jump_targets c i of
           None \<Rightarrow> (c, eliminated)
         | Some (c', n, i') \<Rightarrow> comparison_fold_loop jump_targets c' i' (eliminated + n))
      else (c, eliminated))"
  by pat_completeness auto
termination
  by (relation "measure (\<lambda>(jump_targets, c, i, eliminated). fold_pending (ch_code c) i)")
    (auto intro: comparison_fold_step_advances)

declare comparison_fold_loop.simps [simp del]

definition comparison_fold_pass :: "chunk \<Rightarrow> luma_error + chunk \<times> nat" where
  "comparison_fold_pass c =
     (if length (ch_code c) < k_cmp_fold_min_size then Inr (c, 0)
      else Inr (comparison_fold_loop (collect_jump_targets (ch_code c)) c 0 0))"

section \<open>Dead code\<close>

text \<open>The first loop of \<^verbatim>\<open>dead_code_pass\<close> does not step over dead bytes separately.\<close>

function dead_code_targets :: "byte list \<Rightarrow> nat \<Rightarrow> nat set" where
  "dead_code_targets code i =
     (if i < length code then target_set code i \<union> dead_code_targets code (i + instruction_size code i) else {})"
  by pat_completeness auto
termination
  by (relation "measure (\<lambda>(code, i). length code - i)") (auto simp: diff_less_mono2)

declare dead_code_targets.simps [simp del]

text \<open>The inner loop: the end of the unreachable region.\<close>

function find_dead_end :: "nat set \<Rightarrow> byte list \<Rightarrow> nat \<Rightarrow> nat" where
  "find_dead_end jump_targets code dead_end =
     (if dead_end < length code then
        if code ! dead_end = Op_EndModule then dead_end
        else if dead_end \<in> jump_targets then dead_end
        else find_dead_end jump_targets code (dead_end + instruction_size code dead_end)
      else dead_end)"
  by pat_completeness auto
termination
  by (relation "measure (\<lambda>(jump_targets, code, i). length code - i)") (auto simp: diff_less_mono2)

declare find_dead_end.simps [simp del]

lemma find_dead_end_ge: "dead_start \<le> find_dead_end jump_targets code dead_start"
proof (induction jump_targets code dead_start rule: find_dead_end.induct)
  case (1 jump_targets code dead_end)
  then show ?case by (subst find_dead_end.simps) (auto intro: add_leD1)
qed

function dead_code_loop :: "nat set \<Rightarrow> byte list \<Rightarrow> nat \<Rightarrow> nat \<Rightarrow> byte list \<times> nat" where
  "dead_code_loop jump_targets code i eliminated =
     (if i < length code then
        let next_offset = i + instruction_size code i
        in if length code \<le> next_offset then (code, eliminated)
           else if is_terminator (code ! i) then
             let dead_end = find_dead_end jump_targets code next_offset
             in if next_offset < dead_end
                then dead_code_loop jump_targets (nop_out code next_offset (dead_end - next_offset)) dead_end
                       (eliminated + (dead_end - next_offset))
                else dead_code_loop jump_targets code dead_end eliminated
           else dead_code_loop jump_targets code next_offset eliminated
      else (code, eliminated))"
  by pat_completeness auto
termination
  by (relation "measure (\<lambda>(jump_targets, code, i, eliminated). length code - i)")
    (auto simp: diff_less_mono2 intro!: diff_less_mono2 less_le_trans [OF _ find_dead_end_ge])

declare dead_code_loop.simps [simp del]

definition dead_code_pass :: "chunk \<Rightarrow> luma_error + chunk \<times> nat" where
  "dead_code_pass c =
     (let (code, eliminated) = dead_code_loop (dead_code_targets (ch_code c) 0) (ch_code c) 0 0
      in Inr (c\<lparr>ch_code := code\<rparr>, eliminated))"

section \<open>Jump threading\<close>

text \<open>The inner loop follows unconditional jumps and counts the hops.\<close>

function follow_jumps :: "byte list \<Rightarrow> nat \<Rightarrow> nat \<Rightarrow> nat \<times> nat" where
  "follow_jumps code hops target =
     (if hops < k_max_jump_chain_depth \<and> target + k_u32_operand_size < length code \<and> code ! target = Op_Jump then
        let next_target = target + k_jump_instruction_size + unat (opt_read_u32 code (target + 1))
        in if length code \<le> next_target then (target, hops) else follow_jumps code (hops + 1) next_target
      else (target, hops))"
  by pat_completeness auto
termination
  by (relation "measure (\<lambda>(code, hops, target). k_max_jump_chain_depth - hops)") auto

declare follow_jumps.simps [simp del]

definition jump_threading_step :: "byte list \<Rightarrow> nat \<Rightarrow> (byte list \<times> nat \<times> nat) option" where
  "jump_threading_step code i =
     (if is_dead_byte (code ! i) then Some (code, 0, i + 1)
      else if code ! i \<noteq> Op_Jump \<and> code ! i \<noteq> Op_JumpIfFalse \<and> code ! i \<noteq> Op_JumpIfTrue
      then Some (code, 0, i + instruction_size code i)
      else if length code \<le> i + k_u32_operand_size then None
      else let (target, hops) = follow_jumps code 0 (i + k_jump_instruction_size + unat (opt_read_u32 code (i + 1)))
           in if 0 < hops
              then Some (opt_write_u32 code (i + 1) (word_of_nat (target - (i + k_jump_instruction_size))), 1,
                     i + k_jump_instruction_size)
              else Some (code, 0, i + k_jump_instruction_size))"

lemma jump_threading_step_advances:
  assumes "jump_threading_step code i = Some (code', n, i')"
  shows "length code' = length code \<and> i < i'"
  using assms unfolding jump_threading_step_def Let_def
  by (auto simp: k_jump_instruction_size_def split: if_split_asm prod.split_asm)

function jump_threading_loop :: "byte list \<Rightarrow> nat \<Rightarrow> nat \<Rightarrow> byte list \<times> nat" where
  "jump_threading_loop code i changed =
     (if i < length code then
        (case jump_threading_step code i of
           None \<Rightarrow> (code, changed)
         | Some (code', n, i') \<Rightarrow> jump_threading_loop code' i' (changed + n))
      else (code, changed))"
  by pat_completeness auto
termination
  by (relation "measure (\<lambda>(code, i, changed). length code - i)")
    (auto dest!: jump_threading_step_advances simp: diff_less_mono2)

declare jump_threading_loop.simps [simp del]

definition jump_threading_pass :: "chunk \<Rightarrow> luma_error + chunk \<times> nat" where
  "jump_threading_pass c =
     (let (code, changed) = jump_threading_loop (ch_code c) 0 0 in Inr (c\<lparr>ch_code := code\<rparr>, changed))"

section \<open>Dead stores\<close>

definition dead_store_step :: "byte list \<Rightarrow> nat \<Rightarrow> byte list \<times> nat \<times> nat" where
  "dead_store_step code i =
     (if is_dead_byte (code ! i) then (code, 0, i + 1)
      else let size = instruction_size code i; next_offset = i + size
           in if code ! i = Op_SetLocal \<and> next_offset + 2 < length code \<and> \<not> is_dead_byte (code ! next_offset) \<and>
                 code ! next_offset = Op_SetLocal \<and>
                 opt_read_u16 code (i + 1) = opt_read_u16 code (next_offset + 1)
              then (nop_out code i size, size, next_offset)
              else if code ! i = Op_SetLocalPop \<and> next_offset + 2 < length code \<and>
                 \<not> is_dead_byte (code ! next_offset) \<and> code ! next_offset = Op_SetLocalPop \<and>
                 opt_read_u16 code (i + 1) = opt_read_u16 code (next_offset + 1)
              then (nop_out (code[i := Op_Pop]) (i + 1) (size - 1), size - 1, next_offset)
              else (code, 0, i + size))"

lemma dead_store_step_advances:
  assumes "dead_store_step code i = (code', n, i')"
  shows "length code' = length code \<and> i < i'"
  using assms unfolding dead_store_step_def Let_def by (auto split: if_split_asm)

function dead_store_loop :: "byte list \<Rightarrow> nat \<Rightarrow> nat \<Rightarrow> byte list \<times> nat" where
  "dead_store_loop code i eliminated =
     (if i < length code then
        (case dead_store_step code i of (code', n, i') \<Rightarrow> dead_store_loop code' i' (eliminated + n))
      else (code, eliminated))"
  by pat_completeness auto
termination
  by (relation "measure (\<lambda>(code, i, eliminated). length code - i)")
    (auto dest!: dead_store_step_advances [OF sym] simp: diff_less_mono2)

declare dead_store_loop.simps [simp del]

definition dead_store_pass :: "chunk \<Rightarrow> luma_error + chunk \<times> nat" where
  "dead_store_pass c =
     (let (code, eliminated) = dead_store_loop (ch_code c) 0 0 in Inr (c\<lparr>ch_code := code\<rparr>, eliminated))"

section \<open>Tail calls\<close>

text \<open>The first loop: does the code use upvalues or capture locals?\<close>

function uses_upvalues :: "byte list \<Rightarrow> nat \<Rightarrow> bool" where
  "uses_upvalues code i =
     (if i < length code then
        if is_dead_byte (code ! i) then uses_upvalues code (i + 1)
        else code ! i = Op_GetUpvalue \<or> code ! i = Op_SetUpvalue \<or>
             code ! i = Op_MakeClosure \<and> i + 3 < length code \<and> 0 < code ! (i + 3) \<or>
             uses_upvalues code (i + instruction_size code i)
      else False)"
  by pat_completeness auto
termination
  by (relation "measure (\<lambda>(code, i). length code - i)") (auto simp: diff_less_mono2)

declare uses_upvalues.simps [simp del]

definition tail_call_step :: "byte list \<Rightarrow> nat \<Rightarrow> byte list \<times> nat \<times> nat" where
  "tail_call_step code i =
     (if is_dead_byte (code ! i) then (code, 0, i + 1)
      else let size = instruction_size code i; next_offset = i + size
           in if code ! i = Op_Call \<and> next_offset < length code \<and> \<not> is_dead_byte (code ! next_offset) \<and>
                 code ! next_offset = Op_Return
              then (code[i := Op_TailCall], 1, next_offset + 1)
              else (code, 0, i + size))"

lemma tail_call_step_advances:
  assumes "tail_call_step code i = (code', n, i')"
  shows "length code' = length code \<and> i < i'"
  using assms unfolding tail_call_step_def Let_def by (auto split: if_split_asm)

function tail_call_loop :: "byte list \<Rightarrow> nat \<Rightarrow> nat \<Rightarrow> byte list \<times> nat" where
  "tail_call_loop code i rewrites =
     (if i < length code then
        (case tail_call_step code i of (code', n, i') \<Rightarrow> tail_call_loop code' i' (rewrites + n))
      else (code, rewrites))"
  by pat_completeness auto
termination
  by (relation "measure (\<lambda>(code, i, rewrites). length code - i)")
    (auto dest!: tail_call_step_advances [OF sym] simp: diff_less_mono2)

declare tail_call_loop.simps [simp del]

definition tail_call_pass :: "chunk \<Rightarrow> luma_error + chunk \<times> nat" where
  "tail_call_pass c =
     (if uses_upvalues (ch_code c) 0 then Inr (c, 0)
      else let (code, rewrites) = tail_call_loop (ch_code c) 0 0 in Inr (c\<lparr>ch_code := code\<rparr>, rewrites))"

section \<open>Compaction\<close>

function mark_dead :: "byte list \<Rightarrow> nat \<Rightarrow> bool list \<Rightarrow> bool list" where
  "mark_dead code i dead =
     (if i < length code then
        if is_dead_byte (code ! i) then mark_dead code (i + 1) (dead[i := True])
        else mark_dead code (i + instruction_size code i) dead
      else dead)"
  by pat_completeness auto
termination
  by (relation "measure (\<lambda>(code, i, dead). length code - i)") (auto simp: diff_less_mono2)

declare mark_dead.simps [simp del]

definition dead_mask :: "byte list \<Rightarrow> bool list" where
  "dead_mask code = mark_dead code 0 (replicate (length code) False)"

text \<open>The new offset of every old one, the end of the code included.\<close>

fun build_offset_map :: "bool list \<Rightarrow> nat \<Rightarrow> nat list" where
  "build_offset_map [] new_offset = [new_offset]"
| "build_offset_map (d # ds) new_offset =
     new_offset # build_offset_map ds (if d then new_offset else new_offset + 1)"

text \<open>
  The offset of a loop is unsigned: one that reaches before the code wraps around to a target no map has,
  so it is left alone.
\<close>

definition fix_jump :: "nat list \<Rightarrow> byte list \<Rightarrow> nat \<Rightarrow> byte list" where
  "fix_jump offset_map code i =
     (let old_after = i + k_jump_instruction_size
      in if is_forward_jump (code ! i) then
           let old_target = old_after + unat (read_u32_be (drop (i + 1) code))
           in if old_target \<le> length code \<and> old_after < length offset_map \<and> old_target < length offset_map
              then patch_u32_be code (i + 1) (word_of_nat (offset_map ! old_target - offset_map ! old_after))
              else code
         else if code ! i = Op_Loop then
           let old_offset = unat (read_u32_be (drop (i + 1) code)); old_target = old_after - old_offset
           in if old_offset \<le> old_after \<and> old_after < length offset_map \<and> old_target < length offset_map
              then patch_u32_be code (i + 1) (word_of_nat (offset_map ! old_after - offset_map ! old_target))
              else code
         else code)"

lemma length_fix_jump [simp]: "length (fix_jump offset_map code i) = length code"
  by (simp add: fix_jump_def Let_def)

function fix_jumps :: "bool list \<Rightarrow> nat list \<Rightarrow> byte list \<Rightarrow> nat \<Rightarrow> byte list" where
  "fix_jumps dead offset_map code i =
     (if i < length code then
        if dead ! i then fix_jumps dead offset_map code (i + 1)
        else let code' = fix_jump offset_map code i
             in fix_jumps dead offset_map code' (i + instruction_size code' i)
      else code)"
  by pat_completeness auto
termination
  by (relation "measure (\<lambda>(dead, offset_map, code, i). length code - i)") (auto simp: diff_less_mono2 Let_def)

declare fix_jumps.simps [simp del]

definition keep_live :: "bool list \<Rightarrow> byte list \<Rightarrow> byte list" where
  "keep_live dead code = map fst (filter (\<lambda>(b, d). \<not> d) (zip code dead))"

definition compact_source_map :: "bool list \<Rightarrow> nat list \<Rightarrow> nat \<Rightarrow> source_map \<Rightarrow> source_map" where
  "compact_source_map dead offset_map new_offset es =
     map (\<lambda>(offset, loc). (offset_map ! offset, loc))
       (filter (\<lambda>(offset, loc). offset < length offset_map \<and> offset_map ! offset < new_offset \<and>
                  offset < length dead \<and> \<not> dead ! offset) es)"

definition compact :: "chunk \<Rightarrow> chunk \<times> nat" where
  "compact c =
     (let code = ch_code c; dead = dead_mask code; offset_map = build_offset_map dead 0;
          new_offset = offset_map ! length code; eliminated = length code - new_offset
      in if eliminated = 0 then (c, 0)
         else (c\<lparr>ch_code := keep_live dead (fix_jumps dead offset_map code 0),
                 ch_source_map := compact_source_map dead offset_map new_offset (ch_source_map c)\<rparr>,
               eliminated))"

section \<open>The optimizer\<close>

record optimization_pass =
  pass_name :: string
  pass_fn :: "fpu \<Rightarrow> chunk \<Rightarrow> luma_error + chunk \<times> nat"
  pass_min_level :: int

definition pass :: "string \<Rightarrow> (fpu \<Rightarrow> chunk \<Rightarrow> luma_error + chunk \<times> nat) \<Rightarrow> int \<Rightarrow> optimization_pass" where
  "pass name fn min_level = \<lparr>pass_name = name, pass_fn = fn, pass_min_level = min_level\<rparr>"

definition passes :: "optimization_pass list" where
  "passes =
     [pass ''peephole'' peephole_pass 1,
      pass ''constant_fold'' constant_fold_pass 2,
      pass ''unary_fold'' (\<lambda>fp. unary_fold_pass) 2,
      pass ''comparison_fold'' (\<lambda>fp. comparison_fold_pass) 2,
      pass ''dead_code'' (\<lambda>fp. dead_code_pass) 2,
      pass ''jump_threading'' (\<lambda>fp. jump_threading_pass) 2,
      pass ''dead_store'' (\<lambda>fp. dead_store_pass) 2,
      pass ''tail_call'' (\<lambda>fp. tail_call_pass) 2]"

fun run_passes :: "fpu \<Rightarrow> int \<Rightarrow> optimization_pass list \<Rightarrow> chunk \<Rightarrow> nat \<Rightarrow> luma_error + chunk \<times> nat" where
  "run_passes fp level [] c eliminated = Inr (c, eliminated)"
| "run_passes fp level (p # ps) c eliminated =
     (if pass_min_level p \<le> level
      then and_then (pass_fn p fp c) (\<lambda>(c', n). run_passes fp level ps c' (eliminated + n))
      else run_passes fp level ps c eliminated)"

text \<open>The outer loop, with the iterations that are left.\<close>

fun optimize_loop :: "fpu \<Rightarrow> int \<Rightarrow> nat \<Rightarrow> chunk \<Rightarrow> nat \<Rightarrow> luma_error + chunk \<times> nat" where
  "optimize_loop fp level 0 c total_eliminated = Inr (c, total_eliminated)"
| "optimize_loop fp level (Suc iterations) c total_eliminated =
     and_then (run_passes fp level passes c 0) (\<lambda>(c', eliminated).
       if eliminated = 0 then Inr (c', total_eliminated)
       else optimize_loop fp level iterations c' (total_eliminated + eliminated))"

definition optimize :: "fpu \<Rightarrow> int \<Rightarrow> chunk \<Rightarrow> luma_error + chunk \<times> nat" where
  "optimize fp level c =
     (if level = 0 \<or> ch_code c = [] then Inr (c, 0)
      else and_then (optimize_loop fp level k_max_optimizer_iterations c 0) (\<lambda>(c', total_eliminated).
        if 0 < total_eliminated then Inr (compact c') else Inr (c', total_eliminated)))"

section \<open>Inlining\<close>

text \<open>An opcode whose meaning depends on the enclosing chunk, frame or position.\<close>

definition blocks_inlining :: "op \<Rightarrow> bool" where
  "blocks_inlining body_op \<longleftrightarrow>
     operand_category body_op \<in> {Cat_Constant, Cat_Name, Cat_Local, Cat_Upvalue} \<or>
     body_op = Op_MakeRecord \<or> body_op = Op_RecordWith \<or> body_op = Op_MakeClosure \<or>
     is_control_flow body_op \<or> is_terminator body_op \<or> is_jump body_op"

text \<open>The body walk: the offset it ends at, or \<^verbatim>\<open>None\<close> when an instruction blocks inlining.\<close>

function inline_walk :: "byte list \<Rightarrow> nat \<Rightarrow> nat \<Rightarrow> nat option" where
  "inline_walk callee_code body_size j =
     (if j < body_size then
        if blocks_inlining (callee_code ! j) then None
        else inline_walk callee_code body_size (j + instruction_size callee_code j)
      else Some j)"
  by pat_completeness auto
termination
  by (relation "measure (\<lambda>(callee_code, body_size, j). body_size - j)") (auto simp: diff_less_mono2)

declare inline_walk.simps [simp del]

text \<open>The callee's conditions: small, no upvalues, ends with a return.\<close>

definition inline_candidate :: "compiled_function \<Rightarrow> bool" where
  "inline_candidate callee \<longleftrightarrow>
     (let callee_code = ch_code (cf_chunk callee)
      in length callee_code \<le> k_max_inline_body \<and> callee_code \<noteq> [] \<and> cf_upvalues callee = [] \<and>
         last callee_code = Op_Return)"

definition inline_step ::
    "nat set \<Rightarrow> compiled_function list \<Rightarrow> byte list \<Rightarrow> nat \<Rightarrow> byte list \<times> nat \<times> nat" where
  "inline_step jump_targets all_functions code i =
     (let inst_size = instruction_size code i; skip = (code, 0, i + inst_size);
          upvalue_count = read_u8_checked code (i + k_make_closure_upvalue_offset) 0
      in if code ! i \<noteq> Op_MakeClosure then skip
         else if upvalue_count \<noteq> 0 \<or> length all_functions \<le> unat (opt_read_u16 code (i + 1)) then skip
         else let callee = all_functions ! unat (opt_read_u16 code (i + 1)); callee_code = ch_code (cf_chunk callee);
                  call_offset = i + inst_size
              in if \<not> inline_candidate callee then skip
                 else if length code \<le> call_offset + 1 then skip
                 else if code ! call_offset \<noteq> Op_Call \<or> read_u8_checked code (call_offset + 1) 0 \<noteq> 0 \<or>
                    call_offset \<in> jump_targets then skip
                 else let body_size = length callee_code - 1;
                          total_old = inst_size + k_u8_instruction_size
                      in if body_size = 0
                         then (nop_out (code[i := Op_None]) (i + 1) (total_old - 1), total_old - 1, i + total_old)
                         else if inline_walk callee_code body_size 0 \<noteq> Some body_size then skip
                         else if body_size \<le> total_old
                         then (nop_out (take i code @ take body_size callee_code @ drop (i + body_size) code)
                                 (i + body_size) (total_old - body_size),
                               total_old - body_size, i + total_old)
                         else skip)"

lemma inline_step_advances:
  assumes "inline_step jump_targets all_functions code i = (code', n, i')" and "i + 4 < length code"
  shows "length code' = length code \<and> i < i'"
  using assms unfolding inline_step_def Let_def
  by (auto simp: k_u8_instruction_size_def inline_candidate_def Let_def split: if_split_asm)

function inline_loop ::
    "nat set \<Rightarrow> compiled_function list \<Rightarrow> byte list \<Rightarrow> nat \<Rightarrow> nat \<Rightarrow> byte list \<times> nat" where
  "inline_loop jump_targets all_functions code i eliminated =
     (if i + 4 < length code then
        (case inline_step jump_targets all_functions code i of
           (code', n, i') \<Rightarrow> inline_loop jump_targets all_functions code' i' (eliminated + n))
      else (code, eliminated))"
  by pat_completeness auto
termination
  by (relation "measure (\<lambda>(jump_targets, all_functions, code, i, eliminated). length code - i)")
    (auto dest!: inline_step_advances [OF sym] simp: diff_less_mono2)

declare inline_loop.simps [simp del]

definition inline_small_functions :: "int \<Rightarrow> chunk \<Rightarrow> compiled_function list \<Rightarrow> chunk \<times> nat" where
  "inline_small_functions level caller_chunk all_functions =
     (if level < 2 \<or> ch_code caller_chunk = [] then (caller_chunk, 0)
      else let (code, eliminated) = inline_loop (collect_jump_targets (ch_code caller_chunk)) all_functions
                 (ch_code caller_chunk) 0 0;
               c = caller_chunk\<lparr>ch_code := code\<rparr>
           in if 0 < eliminated then compact c else (c, eliminated))"

end
