(* ===== verification/Optimizer_Steps.thy ===== *)
theory Optimizer_Steps
  imports Optimizer VM_Verified VM_Control
begin

text \<open>
  What running code in a frame does, for the opcodes that stay inside the frame, as the reference against
  which the optimizer is judged: a frame step is a successful turn of the dispatch loop (or the skipping of
  a dead byte, which only exists between a pass and compaction), a frame exit is a return or the end of the
  module, and \<^verbatim>\<open>leaves\<close> relates a machine to the machine its frame hands back to the caller.
  The main lemma says that an instruction does the same at another place in another code vector, as far as
  the bytes it reads agree.
\<close>

section \<open>Running a frame\<close>

definition frame_handler :: "vm_env \<Rightarrow> op \<Rightarrow> (vm \<Rightarrow> vm_throw + vm) option" where
  "frame_handler env op =
     (if op = Op_Loop then Some (handle_loop env)
      else if op = Op_NullCoalesce then Some (handle_null_coalesce env)
      else modelled_handler env op)"

fun succeeds :: "vm_throw + 'a \<Rightarrow> 'a option" where
  "succeeds (Inr x) = Some x" | "succeeds (Inl _) = None"

definition frame_step :: "vm_env \<Rightarrow> vm \<Rightarrow> vm option" where
  "frame_step env vm =
     (if length (vm_code vm) \<le> vm_ip vm then None
      else if is_dead_byte (vm_code vm ! vm_ip vm) then Some (set_ip vm (vm_ip vm + 1))
      else case frame_handler env (vm_code vm ! vm_ip vm) of
             None \<Rightarrow> None
           | Some h \<Rightarrow> succeeds (h (set_ip vm (vm_ip vm + 1))))"

text \<open>A module ends with its frame still there; for the comparison it is dropped.\<close>

definition frame_exit :: "vm \<Rightarrow> vm option" where
  "frame_exit vm =
     (let op = vm_code vm ! vm_ip vm; vm' = set_ip vm (vm_ip vm + 1)
      in if length (vm_code vm) \<le> vm_ip vm then None
         else if op = Op_Return then succeeds (op_return vm')
         else if op = Op_GetLocalReturn then succeeds (op_get_local_return vm')
         else if op = Op_EndModule then map_option (\<lambda>vm. vm\<lparr>frames := butlast (frames vm)\<rparr>)
                                          (succeeds (op_end_module vm'))
         else None)"

inductive leaves :: "vm_env \<Rightarrow> vm \<Rightarrow> vm \<Rightarrow> bool" for env where
  leaves_exit: "frame_exit vm = Some out \<Longrightarrow> leaves env vm out"
| leaves_step: "frame_step env vm = Some vm1 \<Longrightarrow> leaves env vm1 out \<Longrightarrow> leaves env vm out"

text \<open>The frame of a machine moved to another function and position.\<close>

definition reloc :: "compiled_function \<Rightarrow> nat \<Rightarrow> vm \<Rightarrow> vm" where
  "reloc f ip vm =
     vm\<lparr>frames := butlast (frames vm) @ [(last (frames vm))\<lparr>fr_function := f, fr_ip := ip\<rparr>]\<rparr>"

lemma succeeds_Some [simp]: "succeeds r = Some x \<longleftrightarrow> r = Inr x"
  by (cases r) simp_all

lemma reloc_fields [simp]:
  "stack (reloc f ip vm) = stack vm"
  "frames (reloc f ip vm) = butlast (frames vm) @ [(last (frames vm))\<lparr>fr_function := f, fr_ip := ip\<rparr>]"
  by (simp_all add: reloc_def)

lemma reloc_reloc [simp]: "reloc f ip (reloc g jp vm) = reloc f ip vm"
  by (simp add: reloc_def)

lemma set_ip_reloc [simp]: "set_ip (reloc f ip vm) jp = reloc f jp vm"
  by (simp add: reloc_def set_ip_def)

lemma reloc_set_ip [simp]: "reloc f ip (set_ip vm jp) = reloc f ip vm"
  by (simp add: reloc_def set_ip_def)

lemma leaves_inside: "leaves env vm out \<Longrightarrow> vm_ip vm < length (vm_code vm)"
  by (cases rule: leaves.cases) (auto simp: frame_exit_def frame_step_def Let_def split: if_splits)

section \<open>Instructions that do not look at the frame\<close>

lemma push_frames: "push vm v = Inr vm' \<Longrightarrow> push (vm\<lparr>frames := F\<rparr>) v = Inr (vm'\<lparr>frames := F\<rparr>)"
  by (auto simp: push_def split: if_splits)

lemma pop_frames: "pop vm = Inr (v, vm') \<Longrightarrow> pop (vm\<lparr>frames := F\<rparr>) = Inr (v, vm'\<lparr>frames := F\<rparr>)"
  by (auto simp: pop_def split: if_splits)

lemma pop_binary_ref_frames:
  "pop_binary_ref vm = Inr (a, b, vm') \<Longrightarrow> pop_binary_ref (vm\<lparr>frames := F\<rparr>) = Inr (a, b, vm'\<lparr>frames := F\<rparr>)"
  by (auto simp: pop_binary_ref_def and_then_Inr pop_def split: if_splits)

lemma set_top_frames: "(set_top vm v)\<lparr>frames := F\<rparr> = set_top (vm\<lparr>frames := F\<rparr>) v"
  by (simp add: set_top_def)

lemma binary_op_frames:
  assumes "binary_op vm g = Inr vm'"
    and "\<And>vm a b v. g vm a b = Inr v \<Longrightarrow> g (vm\<lparr>frames := F\<rparr>) a b = Inr v"
  shows "binary_op (vm\<lparr>frames := F\<rparr>) g = Inr (vm'\<lparr>frames := F\<rparr>)"
proof -
  from assms(1) obtain a b vm1 v where "pop_binary_ref vm = Inr (a, b, vm1)" "g vm1 a b = Inr v"
    "vm' = set_top vm1 v" by (auto simp: binary_op_def and_then_Inr)
  with assms(2) pop_binary_ref_frames show ?thesis by (simp add: binary_op_def set_top_frames)
qed

lemma unary_op_frames:
  assumes "unary_op vm name g = Inr vm'" and "\<And>v r. g v = Inr r \<Longrightarrow> g' v = Inr r"
  shows "unary_op (vm\<lparr>frames := F\<rparr>) name g' = Inr (vm'\<lparr>frames := F\<rparr>)"
  using assms
  by (fastforce simp: unary_op_def and_then_Inr set_top_frames validate_stack_depth_def split: if_splits)

lemma numeric_binary_op_vm: "numeric_binary_op env vm a b op = Inr v \<Longrightarrow> numeric_binary_op env vm' a b op = Inr v"
  by (cases a; cases b)
    (auto simp: numeric_binary_op_def Let_def split: if_splits option.splits string_repeat_outcome.splits)

lemma to_numeric_vm: "to_numeric env vm v = Inr x \<Longrightarrow> to_numeric env vm' v = Inr x"
  by (cases v) auto

lemma compare_values_vm: "compare_values env vm a b op = Inr v \<Longrightarrow> compare_values env vm' a b op = Inr v"
  by (cases a; cases b) (auto simp: compare_values_def and_then_Inr)

lemma handle_unary_numeric_vm:
  "handle_unary_numeric env vm v i n s t = Inr r \<Longrightarrow> handle_unary_numeric env vm' v i n s t = Inr r"
  by (cases v) (auto simp: handle_unary_numeric_def split: option.splits)

lemma validate_nonzero_divisor_vm:
  "validate_nonzero_divisor vm b s = Inr u \<Longrightarrow> validate_nonzero_divisor vm' b s = Inr u"
  by (auto simp: validate_nonzero_divisor_def Let_def split: if_splits)

lemma division_frames_vm:
  assumes "h \<in> {handle_divide env, handle_int_divide env, handle_modulo env, handle_concatenate env}"
    and "h vm = Inr vm'"
  shows "h (vm\<lparr>frames := F\<rparr>) = Inr (vm'\<lparr>frames := F\<rparr>)"
proof -
  obtain g where h: "h = (\<lambda>vm. and_then (pop_binary_ref vm) g)"
    and g: "\<And>a b vm vm'. g (a, b, vm) = Inr vm' \<Longrightarrow> g (a, b, vm\<lparr>frames := F\<rparr>) = Inr (vm'\<lparr>frames := F\<rparr>)"
  proof -
    consider "h = handle_divide env" | "h = handle_int_divide env" | "h = handle_modulo env"
      | "h = handle_concatenate env" using assms(1) by auto
    then show thesis
    proof cases
      case 1
      show ?thesis
        by (rule that, subst 1, rule ext, rule handle_divide_def, rename_tac a b vm vm', case_tac a; case_tac b)
          (auto simp: and_then_Inr Let_def set_top_frames both_numeric_def split: if_splits
            dest: validate_nonzero_divisor_vm)
    next
      case 2
      show ?thesis
        by (rule that, subst 2, rule ext, rule handle_int_divide_def, rename_tac a b vm vm', case_tac a; case_tac b)
          (auto simp: and_then_Inr set_top_frames split: if_splits dest: validate_nonzero_divisor_vm)
    next
      case 3
      show ?thesis
        by (rule that, subst 3, rule ext, rule handle_modulo_def, rename_tac a b vm vm', case_tac a; case_tac b)
          (auto simp: and_then_Inr set_top_frames split: if_splits
            dest: validate_nonzero_divisor_vm to_numeric_vm)
    next
      case 4
      show ?thesis
        by (rule that, subst 4, rule ext, rule handle_concatenate_def)
          (auto simp: Let_def set_top_frames split: if_splits prod.splits)
    qed
  qed
  from assms(2) obtain a b vm1 where "pop_binary_ref vm = Inr (a, b, vm1)" "g (a, b, vm1) = Inr vm'"
    unfolding h by (auto simp: and_then_Inr)
  with g pop_binary_ref_frames show ?thesis unfolding h by simp
qed

lemmas no_operand_defs = op_swap_def op_negate_def op_increment_def op_decrement_def op_not_def
  op_is_some_def op_type_of_def op_int_to_number_def op_dup_def op_none_def op_true_def op_false_def op_zero_def
  op_one_def op_pop_def op_add_def op_subtract_def op_multiply_def op_divide_def
  op_int_divide_def op_modulo_def op_equal_def op_not_equal_def op_less_def op_less_equal_def op_greater_def
  op_greater_equal_def op_and_def op_or_def op_concatenate_def op_dup2_def

lemma unary_frames:
  assumes "h \<in> {op_negate env, op_increment env, op_decrement env, op_not, op_is_some,
             op_type_of env, op_int_to_number env}" and "h vm = Inr vm'"
  shows "h (vm\<lparr>frames := F\<rparr>) = Inr (vm'\<lparr>frames := F\<rparr>)"
  using assms
  by (elim insertE emptyE) (simp only: no_operand_defs, erule unary_op_frames,
    (assumption | erule handle_unary_numeric_vm))+

lemma binary_frames:
  assumes "h \<in> {op_add env, op_subtract env, op_multiply env, op_equal env, op_not_equal env, op_less env,
             op_less_equal env, op_greater env, op_greater_equal env, op_and, op_or}" and "h vm = Inr vm'"
  shows "h (vm\<lparr>frames := F\<rparr>) = Inr (vm'\<lparr>frames := F\<rparr>)"
  using assms
  by (elim insertE emptyE) (simp only: no_operand_defs, erule binary_op_frames,
    (assumption | erule numeric_binary_op_vm compare_values_vm))+

lemma moves_frames:
  assumes "h \<in> {op_swap, op_dup, op_none, op_true, op_false, op_zero, op_one, op_pop, op_dup2}"
    and "h vm = Inr vm'"
  shows "h (vm\<lparr>frames := F\<rparr>) = Inr (vm'\<lparr>frames := F\<rparr>)"
  using assms
  by (auto simp: no_operand_defs and_then_Inr validate_stack_depth_def Let_def push_def pop_def split: if_splits)

lemma no_operand_frames:
  assumes "h \<in> {op_swap, op_negate env, op_increment env, op_decrement env, op_not, op_is_some,
             op_type_of env, op_int_to_number env, op_dup, op_none, op_true, op_false, op_zero, op_one,
             op_pop, op_add env, op_subtract env, op_multiply env, op_divide env,
             op_int_divide env, op_modulo env, op_equal env, op_not_equal env, op_less env, op_less_equal env,
             op_greater env, op_greater_equal env, op_and, op_or, op_concatenate env, op_dup2}"
    and "h vm = Inr vm'"
  shows "h (vm\<lparr>frames := F\<rparr>) = Inr (vm'\<lparr>frames := F\<rparr>)"
proof -
  have divisions: "op_divide env = handle_divide env" "op_int_divide env = handle_int_divide env"
    "op_modulo env = handle_modulo env" "op_concatenate env = handle_concatenate env"
    by (simp_all add: fun_eq_iff no_operand_defs)
  note cases = unary_frames [of h env vm vm' F] binary_frames [of h env vm vm' F] moves_frames [of h vm vm' F]
    division_frames_vm [of h env vm vm' F]
  show ?thesis
    using assms(1) cases [OF _ assms(2)] by (elim insertE emptyE) (simp_all add: divisions)
qed

section \<open>Instructions with an operand\<close>

lemma read_u16_reloc:
  assumes "ip + 2 \<le> length (ch_code (cf_chunk f))"
  shows "vm_read_u16 (reloc f ip vm) = Inr (read_u16_be (drop ip (ch_code (cf_chunk f))), reloc f (ip + 2) vm)"
  using assms by (simp add: vm_read_u16_def Let_def read_u16_be_def ensure_bytecode_available_def)

lemma read_u32_reloc:
  assumes "ip + 4 \<le> length (ch_code (cf_chunk f))"
  shows "vm_read_u32 (reloc f ip vm) = Inr (read_u32_be (drop ip (ch_code (cf_chunk f))), reloc f (ip + 4) vm)"
  using assms
  by (simp add: vm_read_u32_def Let_def read_u32_be_def ensure_bytecode_available_def add.commute or.assoc)

lemma get_local_slot_reloc [simp]:
  "get_local_slot vm (last (frames (reloc f ip vm'))) slot = get_local_slot vm (last (frames vm')) slot"
  by (simp add: get_local_slot_def frame_slot_index_def Let_def)

lemma reloc_stack [simp]: "reloc f ip (vm\<lparr>stack := st\<rparr>) = (reloc f ip vm)\<lparr>stack := st\<rparr>"
  by (simp add: reloc_def)

lemma reloc_eqI:
  "frames vm1 = frames (reloc f ip vm) \<Longrightarrow> reloc g jp vm1 = vm1\<lparr>frames := frames (reloc g jp vm)\<rparr>"
  by (simp add: reloc_def)

lemma get_local_slot_Inr:
  "get_local_slot vm cf slot = Inr index \<longleftrightarrow>
     index = fr_slot_offset cf + unat slot \<and> index < length (stack vm)"
  by (auto simp: get_local_slot_def frame_slot_index_def Let_def)

lemma u16_reloc:
  assumes "h \<in> {op_set_local, op_increment_local env, op_decrement_local env, op_get_local, op_set_local_pop}"
    and "h (reloc f ip vm) = Inr vm1"
    and "ip + 2 \<le> length (ch_code (cf_chunk f))" and "jp + 2 \<le> length (ch_code (cf_chunk g))"
    and "read_u16_be (drop ip (ch_code (cf_chunk f))) = read_u16_be (drop jp (ch_code (cf_chunk g)))"
  shows "h (reloc g jp vm) = Inr (reloc g (jp + 2) vm1) \<and> frames vm1 = frames (reloc f (ip + 2) vm)"
proof -
  note reads = read_u16_reloc [OF assms(3)] read_u16_reloc [OF assms(4)] assms(5)
  show ?thesis
    using assms(1,2)
    by (elim insertE emptyE)
      (auto simp: op_set_local_def op_increment_local_def op_decrement_local_def unary_local_def op_get_local_def
        op_set_local_pop_def reads and_then_Inr get_local_slot_Inr peek_def push_def pop_def
        split: if_splits dest: handle_unary_numeric_vm [where vm' = "reloc g (jp + 2) vm"])
qed

lemma constant_reloc:
  assumes "op_constant (reloc f ip vm) = Inr vm1"
    and "ip + 2 \<le> length (ch_code (cf_chunk f))" and "jp + 2 \<le> length (ch_code (cf_chunk g))"
    and "read_u16_be (drop ip (ch_code (cf_chunk f))) = idx" "read_u16_be (drop jp (ch_code (cf_chunk g))) = idx'"
    and "unat idx' < cp_size (ch_constants (cf_chunk g))"
    and "cp_values (ch_constants (cf_chunk f)) ! unat idx = cp_values (ch_constants (cf_chunk g)) ! unat idx'"
  shows "op_constant (reloc g jp vm) = Inr (reloc g (jp + 2) vm1) \<and> frames vm1 = frames (reloc f (ip + 2) vm)"
  using assms(1) assms(4-7) read_u16_reloc [OF assms(2)] read_u16_reloc [OF assms(3)]
  by (auto simp: op_constant_def and_then_Inr Let_def push_def split: if_splits)

section \<open>Jumps\<close>

text \<open>Where a jump instruction goes when it is taken.\<close>

definition target_of :: "byte list \<Rightarrow> nat \<Rightarrow> nat" where
  "target_of code s =
     (if code ! s = Op_Loop then s + 5 - unat (opt_read_u32 code (s + 1)) else s + 5 + unat (opt_read_u32 code (s + 1)))"

text \<open>A taken jump is one the machine accepts: forward within the code, backward not before its start.\<close>

definition target_valid :: "byte list \<Rightarrow> nat \<Rightarrow> bool" where
  "target_valid code s \<longleftrightarrow>
     (if code ! s = Op_Loop then unat (opt_read_u32 code (s + 1)) \<le> s + 5 else target_of code s \<le> length code)"

text \<open>What a jump instruction decides and does apart from moving: whether it is taken, and the machine.\<close>

definition coalesced :: "vm_env \<Rightarrow> val \<Rightarrow> val option" where
  "coalesced env v =
     (case v of
        VObject VT_Result i \<Rightarrow> (let (is_success, inner) = env_result_parts env i
                               in if is_success then Some inner else None)
      | VNull \<Rightarrow> None
      | _ \<Rightarrow> Some v)"

definition loop_effect :: "vm_env \<Rightarrow> vm \<Rightarrow> vm option" where
  "loop_effect env vm =
     (if env_self_cancelled env \<and> shields vm = [] \<or> max_while_iterations env < loop_iterations vm + 1 \<or>
         max_total_loop_iterations env < total_loop_iterations vm + 1 then None
      else Some (vm\<lparr>loop_iterations := loop_iterations vm + 1,
                    total_loop_iterations := total_loop_iterations vm + 1\<rparr>))"

definition jump_effect :: "vm_env \<Rightarrow> op \<Rightarrow> vm \<Rightarrow> (bool \<times> vm) option" where
  "jump_effect env op vm =
     (if op = Op_Jump then Some (True, vm)
      else if op = Op_Loop then map_option (Pair True) (loop_effect env vm)
      else if stack vm = [] then None
      else if op = Op_JumpIfFalse then Some (\<not> is_truthy (last (stack vm)), vm)
      else if op = Op_JumpIfTrue then Some (is_truthy (last (stack vm)), vm)
      else case coalesced env (last (stack vm)) of
             None \<Rightarrow> Some (False, vm)
           | Some v \<Rightarrow> Some (True, vm\<lparr>stack := butlast (stack vm) @ [v]\<rparr>))"

definition jump_ops :: "op list" where
  "jump_ops = [Op_Jump, Op_JumpIfFalse, Op_JumpIfTrue, Op_NullCoalesce, Op_Loop]"

lemma read_target:
  assumes "t + 5 \<le> length (ch_code (cf_chunk g))"
  shows "vm_read_u32 (reloc g (t + 1) vm) =
    Inr (opt_read_u32 (ch_code (cf_chunk g)) (t + 1), reloc g (t + 5) vm)"
  using assms by (simp add: read_u32_reloc opt_read_u32_def add.commute)

lemma advance_reloc:
  assumes "ch_code (cf_chunk g) ! t \<noteq> Op_Loop"
  shows "advance_ip (reloc g (t + 5) vm) (opt_read_u32 (ch_code (cf_chunk g)) (t + 1)) =
    (if target_valid (ch_code (cf_chunk g)) t then Inr (reloc g (target_of (ch_code (cf_chunk g)) t) vm)
     else Inl (Bytecode_Error jump_target_beyond_bounds, reloc g (target_of (ch_code (cf_chunk g)) t) vm))"
  using assms by (simp add: advance_ip_def validate_jump_target_def target_valid_def target_of_def Let_def)

lemma coalesce_jump_reloc:
  assumes "ch_code (cf_chunk g) ! t \<noteq> Op_Loop"
  shows "succeeds (coalesce_jump (reloc g (t + 5) vm) (opt_read_u32 (ch_code (cf_chunk g)) (t + 1))) =
    (if target_valid (ch_code (cf_chunk g)) t then Some (reloc g (target_of (ch_code (cf_chunk g)) t) vm)
     else None)"
  using assms by (simp add: coalesce_jump_def target_valid_def target_of_def Let_def)

lemma reloc_counters [simp]:
  "shields (reloc f ip vm) = shields vm" "loop_iterations (reloc f ip vm) = loop_iterations vm"
  "total_loop_iterations (reloc f ip vm) = total_loop_iterations vm"
  "reloc f ip (vm\<lparr>loop_iterations := a\<rparr>) = (reloc f ip vm)\<lparr>loop_iterations := a\<rparr>"
  "reloc f ip (vm\<lparr>total_loop_iterations := a\<rparr>) = (reloc f ip vm)\<lparr>total_loop_iterations := a\<rparr>"
  by (simp_all add: reloc_def)

lemma loop_reloc:
  assumes "ch_code (cf_chunk g) ! t = Op_Loop" and "t + 5 \<le> length (ch_code (cf_chunk g))"
  shows "succeeds (handle_loop env (reloc g (t + 1) vm)) =
    (if target_valid (ch_code (cf_chunk g)) t
     then map_option (reloc g (target_of (ch_code (cf_chunk g)) t)) (loop_effect env vm) else None)"
  unfolding handle_loop_def read_target [OF assms(2)] using assms(1)
  by (auto simp: target_valid_def target_of_def check_cancellation_def
      is_cancel_shielded_def loop_effect_def Let_def reloc_counters)

lemma set_top_reloc: "set_top (reloc g t vm) v = reloc g t (vm\<lparr>stack := butlast (stack vm) @ [v]\<rparr>)"
  by (simp add: set_top_def)

lemma null_coalesce_reloc:
  assumes "ch_code (cf_chunk g) ! t = Op_NullCoalesce" and "t + 5 \<le> length (ch_code (cf_chunk g))"
    and "stack vm \<noteq> []"
  shows "succeeds (handle_null_coalesce env (reloc g (t + 1) vm)) =
    (case coalesced env (last (stack vm)) of
       None \<Rightarrow> Some (reloc g (t + 5) vm)
     | Some v \<Rightarrow> if target_valid (ch_code (cf_chunk g)) t
         then Some (reloc g (target_of (ch_code (cf_chunk g)) t) (vm\<lparr>stack := butlast (stack vm) @ [v]\<rparr>))
         else None)"
proof -
  let ?off = "opt_read_u32 (ch_code (cf_chunk g)) (t + 1)"
  have top: "peek (reloc g (t + 5) vm) 0 = Inr (last (stack vm))"
    using assms(3) by (simp add: peek_def last_conv_nth)
  have keep: "vm\<lparr>stack := butlast (stack vm) @ [v]\<rparr> = vm" if "last (stack vm) = v" for v
    using assms(3) that by auto
  have eq: "handle_null_coalesce env (reloc g (t + 1) vm) =
    (case coalesced env (last (stack vm)) of
       None \<Rightarrow> Inr (reloc g (t + 5) vm)
     | Some v \<Rightarrow> coalesce_jump (reloc g (t + 5) (vm\<lparr>stack := butlast (stack vm) @ [v]\<rparr>)) ?off)"
  proof (cases "\<exists>i. last (stack vm) = VObject VT_Result i")
    case True
    then show ?thesis
      unfolding handle_null_coalesce_def read_target [OF assms(2)] and_then_simps prod.case top coalesced_def
      by (auto simp: set_top_reloc simp del: reloc_stack split: prod.split)
  next
    case False
    then show ?thesis
      unfolding handle_null_coalesce_def read_target [OF assms(2)] and_then_simps prod.case top coalesced_def
      by (auto simp: keep simp del: reloc_stack split: val.split value_type.split)
  qed
  have jump: "succeeds (coalesce_jump (reloc g (t + 5) vm') ?off) = (if target_valid (ch_code (cf_chunk g)) t
      then Some (reloc g (target_of (ch_code (cf_chunk g)) t) vm') else None)" for vm'
    by (rule coalesce_jump_reloc) (simp add: assms(1))
  show ?thesis
    unfolding eq by (cases "coalesced env (last (stack vm))") (simp_all only: jump succeeds.simps option.case)
qed

lemma jump_step_eq:
  assumes "op \<in> set jump_ops" and "frame_handler env op = Some h"
    and "ch_code (cf_chunk g) ! t = op" and "t + 5 \<le> length (ch_code (cf_chunk g))"
  shows "succeeds (h (reloc g (t + 1) vm)) =
    (case jump_effect env op vm of
       None \<Rightarrow> None
     | Some (b, vm1) \<Rightarrow>
         if \<not> b then Some (reloc g (t + 5) vm1)
         else if target_valid (ch_code (cf_chunk g)) t then Some (reloc g (target_of (ch_code (cf_chunk g)) t) vm1)
         else None)"
proof -
  let ?c = "ch_code (cf_chunk g)"
  have adv: "advance_ip (reloc g (t + 5) vm) (opt_read_u32 ?c (Suc t)) =
      (if target_valid ?c t then Inr (reloc g (target_of ?c t) vm)
       else Inl (Bytecode_Error jump_target_beyond_bounds, reloc g (target_of ?c t) vm))" if "op \<noteq> Op_Loop"
    using advance_reloc [of g t vm] that assms(3) by simp
  have top: "stack vm \<noteq> [] \<Longrightarrow> peek (reloc g (t + 5) vm) 0 = Inr (last (stack vm))"
    by (simp add: peek_def last_conv_nth)
  have empty: "stack vm = [] \<Longrightarrow> \<exists>e. peek (reloc g (t + 5) vm) 0 = Inl e" by (simp add: peek_def)
  consider (jump) "op = Op_Jump" "h = op_jump" | (yes) "op = Op_JumpIfTrue" "h = op_jump_if_true"
    | (no) "op = Op_JumpIfFalse" "h = op_jump_if_false"
    | (coalesce) "op = Op_NullCoalesce" "h = handle_null_coalesce env" | (loop) "op = Op_Loop" "h = handle_loop env"
    using assms(1,2) by (auto simp: jump_ops_def frame_handler_def modelled_handler_def)
  then show ?thesis
  proof cases
    case jump
    then show ?thesis
      unfolding jump(2) op_jump_def read_target [OF assms(4)] unfolding and_then_simps prod.case
      by (simp add: adv jump_effect_def)
  next
    case yes
    then show ?thesis
      unfolding yes(2) op_jump_if_true_def jump_if_def read_target [OF assms(4)]
      using top empty by (cases "stack vm = []") (auto simp: adv jump_effect_def)
  next
    case no
    then show ?thesis
      unfolding no(2) op_jump_if_false_def jump_if_def read_target [OF assms(4)]
      using top empty by (cases "stack vm = []") (auto simp: adv jump_effect_def)
  next
    case coalesce
    then show ?thesis
      using null_coalesce_reloc [of g t vm env] assms(3,4) empty read_target [OF assms(4), of vm]
      by (cases "stack vm = []") (auto simp: jump_effect_def handle_null_coalesce_def split: option.split)
  next
    case loop
    with loop_reloc [of g t env vm] assms(3,4) show ?thesis
      by (auto simp: jump_effect_def split: option.split)
  qed
qed

section \<open>The same instruction elsewhere\<close>

text \<open>
  An instruction of one chunk again in another: the opcode, the operand unless it is a jump, and the constant
  it names.
\<close>

definition same_instr :: "chunk \<Rightarrow> nat \<Rightarrow> chunk \<Rightarrow> nat \<Rightarrow> bool" where
  "same_instr c s c' t \<longleftrightarrow>
     (let code = ch_code c; code' = ch_code c'; idx = unat (opt_read_u16 code (s + 1))
      in code' ! t = code ! s \<and> t + instruction_size code s \<le> length code' \<and>
         (code ! s \<notin> set jump_ops \<longrightarrow> (\<forall>k < instruction_size code s. code' ! (t + k) = code ! (s + k))) \<and>
         (code ! s = Op_Constant \<longrightarrow>
            idx < cp_size (ch_constants c') \<and> cp_values (ch_constants c') ! idx = cp_values (ch_constants c) ! idx))"

lemma jump_ops_size:
  "code ! s \<in> set jump_ops \<Longrightarrow> instruction_size code s = 5"
proof -
  have "list_all (\<lambda>op. opcode_base_size op = 5 \<and> op \<notin> {Op_MakeRecord, Op_RecordWith}) jump_ops" by code_simp
  then show "code ! s \<in> set jump_ops \<Longrightarrow> instruction_size code s = 5"
    unfolding list_all_iff instruction_size_def Let_def by (metis insertI1 insertI2)
qed

lemma frame_handler_not_dead: "frame_handler env op = Some h \<Longrightarrow> \<not> is_dead_byte op"
  by (auto simp: frame_handler_def modelled_handler_def is_dead_byte_def k_dead_byte_def split: if_splits)

lemma frame_step_handler:
  assumes "frame_handler env (ch_code (cf_chunk f) ! s) = Some h" and "s < length (ch_code (cf_chunk f))"
  shows "frame_step env (reloc f s vm) = succeeds (h (reloc f (s + 1) vm))"
  using assms frame_handler_not_dead [OF assms(1)] by (simp add: frame_step_def)

lemma frame_step_live:
  assumes "frame_step env (reloc f s vm) = Some vm1" and "\<not> is_dead_byte (ch_code (cf_chunk f) ! s)"
  obtains h where "frame_handler env (ch_code (cf_chunk f) ! s) = Some h" "s < length (ch_code (cf_chunk f))"
    "h (reloc f (s + 1) vm) = Inr vm1"
  using assms by (auto simp: frame_step_def split: if_splits option.splits)

lemma frame_step_dead:
  "is_dead_byte (ch_code (cf_chunk f) ! s) \<Longrightarrow> s < length (ch_code (cf_chunk f)) \<Longrightarrow>
   frame_step env (reloc f s vm) = Some (reloc f (s + 1) vm)"
  by (simp add: frame_step_def)

lemma straight_reloc:
  assumes "frame_handler env (ch_code (cf_chunk f) ! s) = Some h" and "ch_code (cf_chunk f) ! s \<notin> set jump_ops"
    and "h (reloc f (s + 1) vm) = Inr vm1"
    and "s + instruction_size (ch_code (cf_chunk f)) s \<le> length (ch_code (cf_chunk f))"
    and "same_instr (cf_chunk f) s (cf_chunk g) t"
  shows "h (reloc g (t + 1) vm) = Inr (reloc g (t + instruction_size (ch_code (cf_chunk f)) s) vm1) \<and>
    frames vm1 = frames (reloc f (s + instruction_size (ch_code (cf_chunk f)) s) vm)"
proof -
  let ?c = "ch_code (cf_chunk f)" and ?c' = "ch_code (cf_chunk g)"
  from assms(1,2) have m: "modelled_handler env (?c ! s) = Some h"
    by (auto simp: frame_handler_def jump_ops_def split: if_splits)
  from assms(2,5) have bytes: "?c' ! (t + k) = ?c ! (s + k)" if "k < instruction_size ?c s" for k
    using that by (auto simp: same_instr_def Let_def)
  from assms(5) have fits: "t + instruction_size ?c s \<le> length ?c'" by (simp add: same_instr_def Let_def)
  have one: ?thesis if "h \<in> set [op_swap, op_negate env, op_increment env, op_decrement env, op_not,
      op_is_some, op_type_of env, op_int_to_number env, op_dup, op_none, op_true, op_false, op_zero, op_one,
      op_pop, op_add env, op_subtract env, op_multiply env, op_divide env, op_int_divide env, op_modulo env,
      op_equal env, op_not_equal env, op_less env, op_less_equal env, op_greater env, op_greater_equal env,
      op_and, op_or, op_concatenate env, op_dup2]"
      "?c ! s \<in> set (same_ops @ push_ops @ binary_ops @ [Op_Dup2])"
  proof -
    have frames: "frames vm1 = frames (reloc f (s + 1) vm)"
      using frames_no_operand [of h env "reloc f (s + 1) vm" vm1] that(1) assms(3) by simp
    have "h ((reloc f (s + 1) vm)\<lparr>frames := frames (reloc g (t + 1) vm)\<rparr>) =
        Inr (vm1\<lparr>frames := frames (reloc g (t + 1) vm)\<rparr>)"
      using that(1) assms(3) by (intro no_operand_frames [of h env]) simp_all
    moreover have "(reloc f (s + 1) vm)\<lparr>frames := frames (reloc g (t + 1) vm)\<rparr> = reloc g (t + 1) vm"
      by (simp add: reloc_def)
    ultimately show ?thesis
      using group_size(1) [OF that(2)] frames reloc_eqI [OF frames] by simp
  qed
  have operand: "read_u16_be (drop (s + 1) ?c) = read_u16_be (drop (t + 1) ?c')"
    if "instruction_size ?c s = 3"
    using bytes [of 1] bytes [of 2] that assms(4) fits by (simp add: read_u16_be_def)
  have three: ?thesis if "h \<in> set [op_set_local, op_increment_local env, op_decrement_local env,
      op_get_local, op_set_local_pop]" "?c ! s \<in> set (local_ops @ load_ops @ [Op_SetLocalPop])"
    using u16_reloc [of h env f "s + 1" vm vm1 "t + 1" g] that(1) assms(3,4) operand fits group_size(2) [OF that(2)]
    by (simp add: numeral_3_eq_3)
  have const: ?thesis if "h = op_constant" "?c ! s = Op_Constant"
  proof -
    have size: "instruction_size ?c s = 3" using group_size(2) [of ?c s] that(2) by (simp add: load_ops_def)
    show ?thesis
      using constant_reloc [of f "s + 1" vm vm1 "t + 1" g, OF assms(3) [unfolded that(1)] _ _ refl refl] assms(4,5)
        fits operand [OF size] that by (simp add: size same_instr_def Let_def opt_read_u16_def numeral_3_eq_3)
  qed
  from m show ?thesis
  proof (cases rule: modelled_handler_cases)
    case goes
    with assms(2) show ?thesis by (simp add: jump_ops_def)
  next
    case branch
    with assms(2) show ?thesis by (auto simp: jump_ops_def branch_ops_def)
  next
    case pushes_u16
    have "?c ! s = Op_Constant \<Longrightarrow> h = op_constant" "?c ! s \<noteq> Op_Constant \<Longrightarrow> h = op_get_local"
      using m pushes_u16(1) by (auto simp: load_ops_def modelled_handler_def)
    with pushes_u16(1) show ?thesis using const three by (cases "?c ! s = Op_Constant") auto
  next
    case drops_u16
    then show ?thesis using three by auto
  next
    case same_u16
    then show ?thesis using three by auto
  qed (use one in auto)
qed

lemma step_cases:
  assumes step: "frame_step env (reloc f s vm) = Some vm1"
    and live: "\<not> is_dead_byte (ch_code (cf_chunk f) ! s)"
    and fits: "s + instruction_size (ch_code (cf_chunk f)) s \<le> length (ch_code (cf_chunk f))"
  obtains b where
    "frames vm1 = frames (reloc f (if b then target_of (ch_code (cf_chunk f)) s
       else s + instruction_size (ch_code (cf_chunk f)) s) vm)"
    "b \<Longrightarrow> ch_code (cf_chunk f) ! s \<in> set jump_ops \<and> target_valid (ch_code (cf_chunk f)) s"
    "ch_code (cf_chunk f) ! s \<in> {Op_Jump, Op_Loop} \<Longrightarrow> b"
    "\<And>g t. same_instr (cf_chunk f) s (cf_chunk g) t \<Longrightarrow> (b \<Longrightarrow> target_valid (ch_code (cf_chunk g)) t) \<Longrightarrow>
       frame_step env (reloc g t vm) = Some (reloc g (if b then target_of (ch_code (cf_chunk g)) t
         else t + instruction_size (ch_code (cf_chunk f)) s) vm1)"
proof -
  let ?c = "ch_code (cf_chunk f)"
  from step live obtain h where h: "frame_handler env (?c ! s) = Some h" "s < length ?c"
    "h (reloc f (s + 1) vm) = Inr vm1" by (rule frame_step_live)
  have start: "ch_code (cf_chunk g) ! t = ?c ! s \<and> t < length (ch_code (cf_chunk g))"
    if "same_instr (cf_chunk f) s (cf_chunk g) t" for g :: compiled_function and t
    using that instruction_size_pos [of ?c s] by (auto simp: same_instr_def Let_def simp del: instruction_size_pos)
  have refl: "same_instr (cf_chunk f) s (cf_chunk f) s" if "?c ! s \<noteq> Op_Constant"
    using fits that by (simp add: same_instr_def)
  show thesis
  proof (cases "?c ! s \<in> set jump_ops")
    case True
    note size = jump_ops_size [OF True]
    note eq = jump_step_eq [OF True h(1)]
    from eq [of f s vm] h(3) fits size obtain b vm2 where b: "jump_effect env (?c ! s) vm = Some (b, vm2)"
      "vm1 = reloc f (if b then target_of ?c s else s + 5) vm2" "b \<longrightarrow> target_valid ?c s"
      by (auto split: option.splits if_splits)
    have frames: "frames vm2 = frames vm"
      using b(1) by (auto simp: jump_effect_def loop_effect_def split: if_splits option.splits)
    show thesis
    proof (rule that [of b])
      show "frames vm1 = frames (reloc f (if b then target_of ?c s else s + instruction_size ?c s) vm)"
        using b(2) frames size by simp
      show "b \<Longrightarrow> ?c ! s \<in> set jump_ops \<and> target_valid ?c s" using b(3) True by simp
      show "?c ! s \<in> {Op_Jump, Op_Loop} \<Longrightarrow> b" using b(1) by (auto simp: jump_effect_def)
      fix g :: compiled_function and t
      assume same: "same_instr (cf_chunk f) s (cf_chunk g) t" and valid: "b \<Longrightarrow> target_valid (ch_code (cf_chunk g)) t"
      have "t + 5 \<le> length (ch_code (cf_chunk g))" using same size by (simp add: same_instr_def Let_def)
      from eq [of g t vm] this start [OF same] valid h(1)
      show "frame_step env (reloc g t vm) = Some (reloc g (if b then target_of (ch_code (cf_chunk g)) t
          else t + instruction_size ?c s) vm1)"
        by (subst frame_step_handler [of env g t h]) (auto simp: b(1,2) size)
    qed
  next
    case False
    note straight = straight_reloc [OF h(1) False h(3) fits]
    have frames: "frames vm1 = frames (reloc f (s + instruction_size ?c s) vm)"
    proof (cases "?c ! s = Op_Constant")
      case True
      then have "h = op_constant" using h(1) by (simp add: frame_handler_def modelled_handler_def)
      moreover have "instruction_size ?c s = 3" using True group_size(2) [of ?c s] by (simp add: load_ops_def)
      ultimately show ?thesis
        using frames_u16_operand [of op_constant env "reloc f (s + 1) vm" vm1] h(3) by (simp add: numeral_3_eq_3)
    next
      case False
      then show ?thesis using straight [OF refl] by simp
    qed
    show thesis
    proof (rule that [of False])
      fix g :: compiled_function and t
      assume same: "same_instr (cf_chunk f) s (cf_chunk g) t"
      show "frame_step env (reloc g t vm) = Some (reloc g (if False then target_of (ch_code (cf_chunk g)) t
          else t + instruction_size ?c s) vm1)"
        using straight [OF same] start [OF same] h(1) by (subst frame_step_handler [of env g t h]) auto
    qed (use frames False in \<open>auto simp: jump_ops_def\<close>)
  qed
qed

lemma exit_same:
  assumes "frame_exit (reloc f s vm) = Some out"
    and "s + instruction_size (ch_code (cf_chunk f)) s \<le> length (ch_code (cf_chunk f))"
    and "same_instr (cf_chunk f) s (cf_chunk g) t"
  shows "frame_exit (reloc g t vm) = Some out"
proof -
  let ?c = "ch_code (cf_chunk f)" and ?c' = "ch_code (cf_chunk g)"
  from assms(3) have start: "?c' ! t = ?c ! s" "t + instruction_size ?c s \<le> length ?c'"
    by (simp_all add: same_instr_def Let_def)
  then have inside: "t < length ?c'" using instruction_size_pos [of ?c s] by linarith
  consider (ret) "?c ! s = Op_Return" "op_return (reloc f (s + 1) vm) = Inr out"
    | (local) "?c ! s = Op_GetLocalReturn" "op_get_local_return (reloc f (s + 1) vm) = Inr out"
    | (module) "?c ! s = Op_EndModule" 
        "out = (reloc f (s + 1) vm)\<lparr>dispatch_return_value := Some VNull, frames := butlast (frames vm)\<rparr>"
    using assms(1) by (auto simp: frame_exit_def Let_def op_end_module_def split: if_splits)
  then show ?thesis
  proof cases
    case ret
    then have "op_return (reloc g (t + 1) vm) = Inr out"
      by (auto simp: op_return_def complete_return_def pop_def and_then_Inr Let_def reloc_def push_def
          discard_frames_from_def split: if_splits)
    with ret start inside show ?thesis by (simp add: frame_exit_def)
  next
    case local
    have size: "instruction_size ?c s = 3" using local(1) by (simp add: instruction_size_def Let_def) code_simp
    have "?c' ! (t + k) = ?c ! (s + k)" if "k < 3" for k
      using assms(3) local(1) that size by (auto simp: same_instr_def Let_def jump_ops_def)
    from this [of 1] this [of 2] have "read_u16_be (drop (s + 1) ?c) = read_u16_be (drop (t + 1) ?c')"
      using assms(2) start(2) size by (simp add: read_u16_be_def)
    moreover have "s + 1 + 2 \<le> length ?c" "t + 1 + 2 \<le> length ?c'" using assms(2) start(2) size by simp_all
    note reads = read_u16_reloc [OF this(1)] read_u16_reloc [OF this(2)]
    ultimately have "op_get_local_return (reloc g (t + 1) vm) = Inr out"
      using local(2) unfolding op_get_local_return_def reads
      by (auto simp: complete_return_def and_then_Inr Let_def reloc_def push_def get_local_slot_Inr
          discard_frames_from_def split: if_splits)
    with local start inside show ?thesis by (simp add: frame_exit_def)
  next
    case module
    with start inside show ?thesis by (simp add: frame_exit_def op_end_module_def) (simp add: reloc_def)
  qed
qed

section \<open>Frame steps are turns of the dispatch loop\<close>

lemma frame_handler_of: "frame_handler env op = Some h \<Longrightarrow> handler_of env op = Some h"
  by (auto simp: frame_handler_def handler_of_def control_handler_def modelled_handler_def split: if_splits)

lemma frame_step_run_turn:
  assumes "frame_step env vm = Some vm1" and "\<not> is_dead_byte (vm_code vm ! vm_ip vm)"
  shows "run_turn env scope_base vm = finish_turn vm1"
  using assms
  by (auto simp: frame_step_def run_turn_def ensure_bytecode_available_def Let_def
      split: if_splits option.splits dest!: frame_handler_of)

lemma frame_exit_run_turn:
  assumes "frame_exit vm = Some out" and "vm_code vm ! vm_ip vm \<noteq> Op_EndModule"
  shows "run_turn env scope_base vm = finish_turn out"
  using assms
  by (auto simp: frame_exit_def run_turn_def ensure_bytecode_available_def Let_def handler_of_def
      control_handler_def modelled_handler_def split: if_splits)

end
