(* ===== verification/Optimizer_Sim.thy ===== *)
theory Optimizer_Sim
  imports Optimizer_Steps
begin

text \<open>
  Simulation between the code before and after a rewrite.  Code is well formed when its instructions fit, its
  jumps land on instructions and its constants exist; a rewrite of a window of the code keeps this and keeps
  what the frame hands back, provided the window itself does the same and no jump enters it.
\<close>

section \<open>Walking instructions\<close>

inductive walks :: "byte list \<Rightarrow> nat \<Rightarrow> nat \<Rightarrow> bool" for code where
  walks_refl: "walks code a a"
| walks_step: "a < length code \<Longrightarrow> walks code (a + instruction_size code a) b \<Longrightarrow> walks code a b"

abbreviation starts :: "byte list \<Rightarrow> nat set" where
  "starts code \<equiv> {s. walks code 0 s \<and> s < length code}"

lemma walks_le: "walks code a b \<Longrightarrow> a \<le> b"
  by (induction rule: walks.induct) (auto intro: order_trans [OF le_add1])

lemma walks_trans: "walks code a b \<Longrightarrow> walks code b c \<Longrightarrow> walks code a c"
  by (induction rule: walks.induct) (auto intro: walks.intros)

lemma walks_next: "walks code a b \<Longrightarrow> b < length code \<Longrightarrow> walks code a (b + instruction_size code b)"
  by (blast intro: walks_trans walks.intros)

lemma walks_linear:
  "walks code a b \<Longrightarrow> walks code a c \<Longrightarrow> b \<le> c \<Longrightarrow> walks code b c"
proof (induction rule: walks.induct)
  case (walks_step a b)
  show ?case
  proof (cases "a = c")
    case True
    have "a + instruction_size code a \<le> b" by (rule walks_le) fact
    with True walks_step.prems(2) have "instruction_size code a = 0" by linarith
    then show ?thesis by simp
  next
    case False
    with walks_step.prems(1) have "walks code (a + instruction_size code a) c"
      by (cases rule: walks.cases) auto
    with walks_step show ?thesis by blast
  qed
qed

text \<open>The size of an instruction depends on its own bytes only.\<close>

lemma instruction_size_cong:
  assumes "length code' = length code" and "a + instruction_size code a \<le> length code"
    and "\<And>k. a \<le> k \<Longrightarrow> k < a + instruction_size code a \<Longrightarrow> code' ! k = code ! k"
  shows "instruction_size code' a = instruction_size code a"
proof -
  have first: "code' ! a = code ! a" using assms(3) [of a] by simp
  consider (make) "code ! a = Op_MakeRecord" | (update) "code ! a = Op_RecordWith"
    | (other) "code ! a \<noteq> Op_MakeRecord" "code ! a \<noteq> Op_RecordWith" by blast
  then show ?thesis
  proof cases
    case make
    then have "4 \<le> instruction_size code a" by (simp add: instruction_size_def)
    then show ?thesis using assms(3) [of "a + 3"] make first assms(1) by (simp add: instruction_size_def)
  next
    case update
    then have "2 \<le> instruction_size code a" by (simp add: instruction_size_def)
    then show ?thesis using assms(3) [of "a + 1"] update first assms(1) by (simp add: instruction_size_def)
  next
    case other
    then show ?thesis using first by (simp add: instruction_size_def)
  qed
qed

lemma walks_cong:
  assumes "walks code a b" and "length code' = length code" and "b \<le> length code"
    and "\<And>k. a \<le> k \<Longrightarrow> k < b \<Longrightarrow> code' ! k = code ! k"
  shows "walks code' a b"
  using assms
proof (induction rule: walks.induct)
  case (walks_step a b)
  have le: "a + instruction_size code a \<le> b" by (rule walks_le) fact
  with walks_step.prems have "instruction_size code' a = instruction_size code a"
    by (intro instruction_size_cong) auto
  moreover have "walks code' (a + instruction_size code a) b"
    using walks_step.prems le by (intro walks_step.IH) auto
  ultimately show ?case using walks_step by (auto intro: walks.walks_step)
qed (rule walks.intros)

lemma walks_instr_starts: "a < length code \<Longrightarrow> s \<in> set (instr_starts code a) \<longleftrightarrow> walks code a s \<and> s < length code"
proof (induction code a rule: instr_starts.induct)
  case (1 code a)
  let ?n = "a + instruction_size code a"
  have eq: "instr_starts code a = a # instr_starts code ?n" using 1 by (subst instr_starts.simps) simp
  have walk: "walks code a s \<longleftrightarrow> s = a \<or> walks code ?n s"
    using 1(2) by (auto intro: walks.intros elim: walks.cases)
  show ?case
  proof (cases "?n < length code")
    case True
    with 1 show ?thesis by (auto simp: eq walk)
  next
    case False
    then have "instr_starts code ?n = []" by (subst instr_starts.simps) simp
    with False 1(2) show ?thesis by (auto simp: eq walk dest: walks_le)
  qed
qed

section \<open>Jump targets and well-formed code\<close>

lemma dead_byte_size [simp]: "is_dead_byte (code ! i) \<Longrightarrow> instruction_size code i = 1"
proof -
  have "opcode_base_size k_dead_byte = 1" "k_dead_byte \<notin> {Op_MakeRecord, Op_RecordWith}"
    unfolding k_dead_byte_def by code_simp+
  then show "is_dead_byte (code ! i) \<Longrightarrow> instruction_size code i = 1"
    by (simp add: is_dead_byte_def instruction_size_def)
qed

lemma dead_byte_targets: "is_dead_byte (code ! i) \<Longrightarrow> target_set code i = {}"
proof -
  have "\<not> is_forward_jump k_dead_byte" "k_dead_byte \<noteq> Op_Loop" unfolding k_dead_byte_def by code_simp+
  then show "is_dead_byte (code ! i) \<Longrightarrow> target_set code i = {}"
    by (simp add: is_dead_byte_def target_set_def)
qed

lemma collect_from_eq: "collect_from code i = (\<Union>s \<in> {s. walks code i s \<and> s < length code}. target_set code s)"
proof (induction code i rule: collect_from.induct)
  case (1 code i)
  let ?n = "i + instruction_size code i"
  show ?case
  proof (cases "i < length code")
    case True
    then have walk: "walks code i s \<longleftrightarrow> s = i \<or> walks code ?n s" for s
      by (auto intro: walks.intros elim: walks.cases)
    have "collect_from code i = target_set code i \<union> collect_from code ?n"
      using True by (subst collect_from.simps) (simp add: dead_byte_targets)
    also have "collect_from code ?n = (\<Union>s \<in> {s. walks code ?n s \<and> s < length code}. target_set code s)"
      using 1 True by (cases "is_dead_byte (code ! i)") auto
    finally show ?thesis using True by (auto simp: walk)
  next
    case False
    then show ?thesis by (subst collect_from.simps) (auto dest: walks_le)
  qed
qed

lemma collect_jump_targets_eq: "collect_jump_targets code = (\<Union>s \<in> starts code. target_set code s)"
  by (simp add: collect_jump_targets_def collect_from_eq)

lemma dead_code_targets_eq:
  "dead_code_targets code i = (\<Union>s \<in> {s. walks code i s \<and> s < length code}. target_set code s)"
proof (induction code i rule: dead_code_targets.induct)
  case (1 code i)
  let ?n = "i + instruction_size code i"
  show ?case
  proof (cases "i < length code")
    case True
    then have walk: "walks code i s \<longleftrightarrow> s = i \<or> walks code ?n s" for s
      by (auto intro: walks.intros elim: walks.cases)
    show ?thesis using 1 True by (subst dead_code_targets.simps) (auto simp: walk)
  next
    case False
    then show ?thesis by (subst dead_code_targets.simps) (auto dest: walks_le)
  qed
qed

definition code_ok :: "chunk \<Rightarrow> bool" where
  "code_ok c \<longleftrightarrow>
     cp_inv (ch_constants c) \<and> length (ch_code c) < 2 ^ 32 \<and>
     (\<forall>s \<in> starts (ch_code c).
        s + instruction_size (ch_code c) s \<le> length (ch_code c) \<and>
        (\<forall>t \<in> target_set (ch_code c) s. t \<in> starts (ch_code c) \<or> length (ch_code c) \<le> t) \<and>
        (ch_code c ! s = Op_Constant \<longrightarrow>
           unat (opt_read_u16 (ch_code c) (s + 1)) < cp_size (ch_constants c)))"

lemma jump_ops_kinds: "op \<in> set jump_ops \<Longrightarrow> op = Op_Loop \<or> op \<noteq> Op_Loop \<and> is_forward_jump op"
  unfolding jump_ops_def is_forward_jump_iff by auto

lemma target_of_in_set:
  assumes "code ! s \<in> set jump_ops" and "s + 5 \<le> length code" and "target_valid code s"
  shows "target_of code s \<in> target_set code s"
proof -
  have loop: "\<not> is_forward_jump Op_Loop" by (simp add: is_forward_jump_iff)
  from jump_ops_kinds [OF assms(1)] show ?thesis
    using assms(2,3) loop
    by (auto simp: target_set_def target_of_def target_valid_def layout_defs)
qed

section \<open>Simulation\<close>

inductive leaves_after :: "vm_env \<Rightarrow> nat \<Rightarrow> vm \<Rightarrow> vm \<Rightarrow> bool" for env where
  after_exit: "frame_exit vm = Some out \<Longrightarrow> leaves_after env 0 vm out"
| after_step: "frame_step env vm = Some vm1 \<Longrightarrow> leaves_after env n vm1 out \<Longrightarrow> leaves_after env (Suc n) vm out"

definition run_to :: "vm_env \<Rightarrow> vm \<Rightarrow> vm \<Rightarrow> bool" where
  "run_to env = (\<lambda>vm vm'. frame_step env vm = Some vm')\<^sup>*\<^sup>*"

lemma leaves_iff_after: "leaves env vm out \<longleftrightarrow> (\<exists>n. leaves_after env n vm out)"
proof
  show "leaves env vm out \<Longrightarrow> \<exists>n. leaves_after env n vm out"
    by (induction rule: leaves.induct) (auto intro: leaves_after.intros)
  assume "\<exists>n. leaves_after env n vm out"
  then obtain n where "leaves_after env n vm out" ..
  then show "leaves env vm out" by (induction rule: leaves_after.induct) (auto intro: leaves.intros)
qed

lemma leaves_after_inside: "leaves_after env n vm out \<Longrightarrow> vm_ip vm < length (vm_code vm)"
  using leaves_inside leaves_iff_after by blast

lemma run_to_refl [simp, intro]: "run_to env vm vm"
  by (simp add: run_to_def)

lemma run_to_step: "frame_step env vm = Some vm1 \<Longrightarrow> run_to env vm1 vm2 \<Longrightarrow> run_to env vm vm2"
  unfolding run_to_def by (rule converse_rtranclp_into_rtranclp)

lemma run_to_trans: "run_to env vm vm1 \<Longrightarrow> run_to env vm1 vm2 \<Longrightarrow> run_to env vm vm2"
  unfolding run_to_def by (rule rtranclp_trans)

lemma leaves_run_to:
  assumes "run_to env vm vm1" and "leaves env vm1 out" shows "leaves env vm out"
  using assms unfolding run_to_def
  by (induction rule: converse_rtranclp_induct) (auto intro: leaves_step)

text \<open>
  One position of the old code is simulated: an execution from there either ends the same way in the new
  code, or both reach another position of the set, the old one with fewer steps to go.
\<close>

definition sim_at ::
    "vm_env \<Rightarrow> compiled_function \<Rightarrow> compiled_function \<Rightarrow> nat set \<Rightarrow> (nat \<Rightarrow> nat) \<Rightarrow> nat \<Rightarrow> bool" where
  "sim_at env f g C \<mu> s \<longleftrightarrow>
     (\<forall>vm n out. leaves_after env n (reloc f s vm) out \<longrightarrow>
        leaves env (reloc g (\<mu> s) vm) out \<or>
        (\<exists>m t vm1. m < n \<and> t \<in> C \<and> leaves_after env m (reloc f t vm1) out \<and>
           run_to env (reloc g (\<mu> s) vm) (reloc g (\<mu> t) vm1)))"

lemma simulation:
  assumes "\<And>s. s \<in> C \<Longrightarrow> sim_at env f g C \<mu> s" and "s \<in> C" and "leaves env (reloc f s vm) out"
  shows "leaves env (reloc g (\<mu> s) vm) out"
proof -
  have "leaves_after env n (reloc f s vm) out \<Longrightarrow> s \<in> C \<Longrightarrow> leaves env (reloc g (\<mu> s) vm) out" for n s vm
  proof (induction n arbitrary: s vm rule: less_induct)
    case (less n)
    from assms(1) [OF less.prems(2)] less.prems(1) consider "leaves env (reloc g (\<mu> s) vm) out"
      | m t vm1 where "m < n" "t \<in> C" "leaves_after env m (reloc f t vm1) out"
        "run_to env (reloc g (\<mu> s) vm) (reloc g (\<mu> t) vm1)"
      unfolding sim_at_def by blast
    then show ?case by cases (auto intro: leaves_run_to less.IH)
  qed
  with assms(2,3) show ?thesis unfolding leaves_iff_after by blast
qed

lemma reloc_self: "frames vm1 = frames (reloc f t vm) \<Longrightarrow> reloc f t vm1 = vm1"
  using reloc_eqI [of vm1 f t vm f t] by (simp only:) simp

text \<open>An instruction that is the same in both, with successors that correspond.\<close>

lemma sim_at_same:
  assumes live: "\<not> is_dead_byte (ch_code (cf_chunk f) ! s)"
    and fits: "s + instruction_size (ch_code (cf_chunk f)) s \<le> length (ch_code (cf_chunk f))"
    and same: "same_instr (cf_chunk f) s (cf_chunk g) (\<mu> s)"
    and fall: "ch_code (cf_chunk f) ! s \<notin> {Op_Jump, Op_Loop, Op_Return, Op_GetLocalReturn} \<Longrightarrow>
      s + instruction_size (ch_code (cf_chunk f)) s < length (ch_code (cf_chunk f)) \<Longrightarrow>
      s + instruction_size (ch_code (cf_chunk f)) s \<in> C \<and>
      \<mu> (s + instruction_size (ch_code (cf_chunk f)) s) = \<mu> s + instruction_size (ch_code (cf_chunk f)) s"
    and jump: "ch_code (cf_chunk f) ! s \<in> set jump_ops \<Longrightarrow> target_valid (ch_code (cf_chunk f)) s \<Longrightarrow>
      target_of (ch_code (cf_chunk f)) s < length (ch_code (cf_chunk f)) \<Longrightarrow>
      target_of (ch_code (cf_chunk f)) s \<in> C \<and> target_valid (ch_code (cf_chunk g)) (\<mu> s) \<and>
      target_of (ch_code (cf_chunk g)) (\<mu> s) = \<mu> (target_of (ch_code (cf_chunk f)) s)"
  shows "sim_at env f g C \<mu> s"
  unfolding sim_at_def
proof (intro allI impI)
  fix vm n out
  assume run: "leaves_after env n (reloc f s vm) out"
  let ?c = "ch_code (cf_chunk f)"
  from run show "leaves env (reloc g (\<mu> s) vm) out \<or> (\<exists>m t vm1. m < n \<and> t \<in> C \<and>
      leaves_after env m (reloc f t vm1) out \<and> run_to env (reloc g (\<mu> s) vm) (reloc g (\<mu> t) vm1))"
  proof (cases rule: leaves_after.cases)
    case after_exit
    with exit_same [OF _ fits same] show ?thesis by (blast intro: leaves_exit)
  next
    case (after_step vm1 m)
    show ?thesis
    proof (rule step_cases [OF after_step(2) live fits], goal_cases)
      case (1 b)
      let ?t = "if b then target_of ?c s else s + instruction_size ?c s"
      note self = reloc_self [OF 1(1)]
      have inside: "?t < length ?c" using leaves_after_inside [OF after_step(3)] unfolding 1(1) by simp
      have returns: "?c ! s \<notin> {Op_Return, Op_GetLocalReturn}"
        using after_step(2) live by (auto simp: frame_step_def frame_handler_def modelled_handler_def split: if_splits)
      have "?t \<in> C \<and> (if b then target_of (ch_code (cf_chunk g)) (\<mu> s) else \<mu> s + instruction_size ?c s) = \<mu> ?t \<and>
          (b \<longrightarrow> target_valid (ch_code (cf_chunk g)) (\<mu> s))"
      proof (cases b)
        case True
        then show ?thesis using jump 1(2) inside by simp
      next
        case False
        with 1(3) returns have "?c ! s \<notin> {Op_Jump, Op_Loop, Op_Return, Op_GetLocalReturn}" by blast
        with fall False inside show ?thesis by simp
      qed
      moreover from this 1(4) [OF same] have "frame_step env (reloc g (\<mu> s) vm) = Some (reloc g (\<mu> ?t) vm1)" by auto
      moreover have "leaves_after env m (reloc f ?t vm1) out" using after_step(3) self by simp
      ultimately show ?thesis using after_step(1) by (blast intro: run_to_step)
    qed
  qed
qed

lemma sim_at_dead:
  assumes "is_dead_byte (ch_code (cf_chunk f) ! s)" and "s + 1 < length (ch_code (cf_chunk f)) \<Longrightarrow> s + 1 \<in> C"
    and "\<And>vm. run_to env (reloc g (\<mu> s) vm) (reloc g (\<mu> (s + 1)) vm)"
  shows "sim_at env f g C \<mu> s"
  unfolding sim_at_def
proof (intro allI impI)
  fix vm n out
  assume "leaves_after env n (reloc f s vm) out"
  then show "leaves env (reloc g (\<mu> s) vm) out \<or> (\<exists>m t vm1. m < n \<and> t \<in> C \<and>
      leaves_after env m (reloc f t vm1) out \<and> run_to env (reloc g (\<mu> s) vm) (reloc g (\<mu> t) vm1))"
  proof (cases rule: leaves_after.cases)
    case after_exit
    with assms(1) show ?thesis
      by (auto simp: frame_exit_def is_dead_byte_def k_dead_byte_def Let_def split: if_splits)
  next
    case (after_step vm1 m)
    with assms(1) have vm1: "vm1 = reloc f (s + 1) vm" by (auto simp: frame_step_def split: if_splits)
    with after_step(3) leaves_after_inside [of env m vm1 out] assms(2) have "s + 1 \<in> C" by simp
    with vm1 after_step assms(3) show ?thesis by blast
  qed
qed

section \<open>Rewriting a window\<close>

definition preserves :: "vm_env \<Rightarrow> chunk \<Rightarrow> chunk \<Rightarrow> bool" where
  "preserves env c c' \<longleftrightarrow>
     (\<forall>f vm out. leaves env (reloc (f\<lparr>cf_chunk := c\<rparr>) 0 vm) out \<longrightarrow> leaves env (reloc (f\<lparr>cf_chunk := c'\<rparr>) 0 vm) out)"

text \<open>The constants of the old pool are at the same places in the new one.\<close>

definition pool_extends :: "chunk \<Rightarrow> chunk \<Rightarrow> bool" where
  "pool_extends c c' \<longleftrightarrow>
     cp_inv (ch_constants c') \<and> cp_size (ch_constants c) \<le> cp_size (ch_constants c') \<and>
     (\<forall>k < cp_size (ch_constants c). cp_values (ch_constants c') ! k = cp_values (ch_constants c) ! k)"

lemma same_bytes:
  assumes "length code' = length code" and "s + instruction_size code s \<le> length code"
    and "\<And>k. s \<le> k \<Longrightarrow> k < s + instruction_size code s \<Longrightarrow> code' ! k = code ! k"
  shows "code' ! s = code ! s" "instruction_size code' s = instruction_size code s"
    and "instruction_size code s = 5 \<Longrightarrow> opt_read_u32 code' (s + 1) = opt_read_u32 code (s + 1)"
    and "instruction_size code s = 3 \<Longrightarrow> opt_read_u16 code' (s + 1) = opt_read_u16 code (s + 1)"
    and "target_set code' s = target_set code s"
proof -
  show first: "code' ! s = code ! s" using assms(3) [of s] by simp
  show "instruction_size code' s = instruction_size code s" using assms by (rule instruction_size_cong)
  show wide: "opt_read_u32 code' (s + 1) = opt_read_u32 code (s + 1)" if "instruction_size code s = 5"
    using assms that by (simp add: opt_read_u32_def read_u32_be_def)
  show "opt_read_u16 code' (s + 1) = opt_read_u16 code (s + 1)" if "instruction_size code s = 3"
    using assms that by (simp add: opt_read_u16_def read_u16_be_def)
  show "target_set code' s = target_set code s"
  proof (cases "is_jump (code ! s)")
    case True
    then have "instruction_size code s = 5" by (simp add: instruction_size_jump k_jump_instruction_size_def)
    then show ?thesis using wide first assms(1) by (simp add: target_set_def Let_def)
  next
    case False
    then show ?thesis using first by (simp add: target_set_def is_jump_iff)
  qed
qed

lemma constant_size: "code ! s = Op_Constant \<Longrightarrow> instruction_size code s = 3"
  using group_size(2) [of code s] by (simp add: load_ops_def)

lemma code_okD:
  assumes "code_ok c" and "s \<in> starts (ch_code c)"
  shows "s + instruction_size (ch_code c) s \<le> length (ch_code c)"
    and "t \<in> target_set (ch_code c) s \<Longrightarrow> t \<in> starts (ch_code c) \<or> length (ch_code c) \<le> t"
    and "ch_code c ! s = Op_Constant \<Longrightarrow> unat (opt_read_u16 (ch_code c) (s + 1)) < cp_size (ch_constants c)"
  using assms by (auto simp: code_ok_def)

lemma same_instr_inplace:
  assumes "code_ok c" and "s \<in> starts (ch_code c)" and "length (ch_code c') = length (ch_code c)"
    and "pool_extends c c'"
    and "\<And>k. s \<le> k \<Longrightarrow> k < s + instruction_size (ch_code c) s \<Longrightarrow> ch_code c' ! k = ch_code c ! k"
  shows "same_instr c s c' s"
  using assms code_okD [OF assms(1,2)]
  by (auto simp: same_instr_def pool_extends_def Let_def)

text \<open>An instruction whose bytes are untouched, in place.\<close>

lemma sim_at_untouched:
  assumes ok: "code_ok c" and s: "s \<in> starts (ch_code c)" and len: "length (ch_code c') = length (ch_code c)"
    and pool: "pool_extends c c'"
    and bytes: "\<And>k. s \<le> k \<Longrightarrow> k < s + instruction_size (ch_code c) s \<Longrightarrow> ch_code c' ! k = ch_code c ! k"
    and fall: "ch_code c ! s \<notin> {Op_Jump, Op_Loop, Op_Return, Op_GetLocalReturn} \<Longrightarrow>
      s + instruction_size (ch_code c) s < length (ch_code c) \<Longrightarrow> s + instruction_size (ch_code c) s \<in> C"
    and jump: "\<And>t. t \<in> target_set (ch_code c) s \<Longrightarrow> t \<in> starts (ch_code c) \<Longrightarrow> t \<in> C"
  shows "sim_at env (f\<lparr>cf_chunk := c\<rparr>) (f\<lparr>cf_chunk := c'\<rparr>) C id s"
proof -
  let ?c = "ch_code c" and ?c' = "ch_code c'"
  note fits = code_okD(1) [OF ok s]
  note same = same_bytes [OF len fits bytes]
  from s have inside: "s < length ?c" by simp
  show ?thesis
  proof (cases "is_dead_byte (?c ! s)")
    case True
    with same(1) inside len have "frame_step env (reloc (f\<lparr>cf_chunk := c'\<rparr>) s vm) =
        Some (reloc (f\<lparr>cf_chunk := c'\<rparr>) (s + 1) vm)" for vm
      by (intro frame_step_dead) simp_all
    then show ?thesis
      using True fall by (intro sim_at_dead) (auto simp: is_dead_byte_def k_dead_byte_def intro: run_to_step)
  next
    case False
    have target: "target_of ?c s \<in> C \<and> target_valid ?c' s \<and> target_of ?c' s = target_of ?c s"
      if "?c ! s \<in> set jump_ops" "target_valid ?c s" "target_of ?c s < length ?c"
    proof -
      note size = jump_ops_size [OF that(1)]
      from target_of_in_set [OF that(1) _ that(2)] fits size have in_set: "target_of ?c s \<in> target_set ?c s" by simp
      with code_okD(2) [OF ok s this] that(3) jump have "target_of ?c s \<in> C" by simp
      moreover have "target_of ?c' s = target_of ?c s" using same(1,3) size by (simp add: target_of_def)
      ultimately show ?thesis
        using that(2) same(1,3) size len by (auto simp: target_valid_def split: if_splits)
    qed
    show ?thesis
    proof (rule sim_at_same)
      show "same_instr (cf_chunk (f\<lparr>cf_chunk := c\<rparr>)) s (cf_chunk (f\<lparr>cf_chunk := c'\<rparr>)) (id s)"
        using same_instr_inplace [OF ok s len pool bytes] by simp
    qed (use False fits fall target in auto)
  qed
qed

text \<open>
  The static side of a rewrite: the code agrees outside the window \<open>{i..<j}\<close>, the window is a run of
  instructions before and after, and the positions in \<open>X\<close> (instructions of the old window that are gone)
  are entered by no jump and, when the window's own start is among them, by no instruction before it.
\<close>

definition window :: "chunk \<Rightarrow> chunk \<Rightarrow> nat \<Rightarrow> nat \<Rightarrow> nat set \<Rightarrow> bool" where
  "window c c' i j X \<longleftrightarrow>
     length (ch_code c') = length (ch_code c) \<and> pool_extends c c' \<and>
     walks (ch_code c) 0 i \<and> walks (ch_code c) i j \<and> j \<le> length (ch_code c) \<and> walks (ch_code c') i j \<and>
     (\<forall>k. k < i \<or> j \<le> k \<longrightarrow> k < length (ch_code c) \<longrightarrow> ch_code c' ! k = ch_code c ! k) \<and>
     X \<subseteq> {i..<j} \<and> collect_jump_targets (ch_code c) \<inter> X = {} \<and>
     (i \<in> X \<longrightarrow> 0 < i \<and> (\<forall>s \<in> starts (ch_code c). s + instruction_size (ch_code c) s = i \<longrightarrow>
        ch_code c ! s \<in> {Op_Jump, Op_Loop, Op_Return, Op_GetLocalReturn})) \<and>
     (\<forall>s. walks (ch_code c) i s \<and> s < j \<and> s \<notin> X \<longrightarrow> walks (ch_code c') i s) \<and>
     (\<forall>s. walks (ch_code c') i s \<and> s < j \<longrightarrow>
        target_set (ch_code c') s \<subseteq> starts (ch_code c) - X \<union> {length (ch_code c)..} \<and>
        (ch_code c' ! s = Op_Constant \<longrightarrow>
           unat (opt_read_u16 (ch_code c') (s + 1)) < cp_size (ch_constants c')))"

lemma windowD:
  assumes "window c c' i j X"
  shows "length (ch_code c') = length (ch_code c)" "pool_extends c c'"
    and "walks (ch_code c) 0 i" "walks (ch_code c) i j" "j \<le> length (ch_code c)" "walks (ch_code c') i j"
    and "k < i \<or> j \<le> k \<Longrightarrow> k < length (ch_code c) \<Longrightarrow> ch_code c' ! k = ch_code c ! k"
    and "X \<subseteq> {i..<j}" "collect_jump_targets (ch_code c) \<inter> X = {}"
    and "i \<in> X \<Longrightarrow> 0 < i"
    and "i \<in> X \<Longrightarrow> s \<in> starts (ch_code c) \<Longrightarrow> s + instruction_size (ch_code c) s = i \<Longrightarrow>
        ch_code c ! s \<in> {Op_Jump, Op_Loop, Op_Return, Op_GetLocalReturn}"
    and "walks (ch_code c) i s \<Longrightarrow> s < j \<Longrightarrow> s \<notin> X \<Longrightarrow> walks (ch_code c') i s"
    and "walks (ch_code c') i s \<Longrightarrow> s < j \<Longrightarrow> target_set (ch_code c') s \<subseteq> starts (ch_code c) - X \<union> {length (ch_code c)..}"
    and "walks (ch_code c') i s \<Longrightarrow> s < j \<Longrightarrow> ch_code c' ! s = Op_Constant \<Longrightarrow>
        unat (opt_read_u16 (ch_code c') (s + 1)) < cp_size (ch_constants c')"
  using assms unfolding window_def by blast+

text \<open>An instruction outside the window does not reach into it.\<close>

lemma outside_bytes:
  assumes "walks code 0 i" "walks code i j" "walks code 0 s" "s < length code" "s < i \<or> j \<le> s"
    and "s \<le> k" "k < s + instruction_size code s"
  shows "k < i \<or> j \<le> k"
proof (cases "s < i")
  case True
  with assms(1,3) have "walks code s i" by (blast intro: walks_linear less_imp_le)
  then have "walks code (s + instruction_size code s) i" using True by (cases rule: walks.cases) auto
  with assms(7) walks_le show ?thesis by fastforce
qed (use assms in auto)

lemma window_bytes:
  assumes "window c c' i j X" and "code_ok c" and "s \<in> starts (ch_code c)" and "s < i \<or> j \<le> s"
    and "s \<le> k" "k < s + instruction_size (ch_code c) s"
  shows "ch_code c' ! k = ch_code c ! k"
  using outside_bytes [OF windowD(3,4) [OF assms(1)] _ _ assms(4-6)] windowD(7) [OF assms(1), of k]
    code_okD(1) [OF assms(2,3)] assms(3,6) by auto

lemma window_starts:
  assumes "window c c' i j X"
  shows "s \<in> starts (ch_code c) \<Longrightarrow> s \<notin> X \<Longrightarrow> s \<in> starts (ch_code c')"
    and "s \<in> starts (ch_code c') \<Longrightarrow> s < i \<or> j \<le> s \<Longrightarrow> s \<in> starts (ch_code c)"
    and "s \<in> starts (ch_code c') \<Longrightarrow> i \<le> s \<Longrightarrow> s < j \<Longrightarrow> walks (ch_code c') i s"
proof -
  let ?c = "ch_code c" and ?c' = "ch_code c'"
  note w = windowD [OF assms]
  have ij: "i \<le> j" by (rule walks_le [OF w(4)])
  have before: "walks ?c' 0 s \<longleftrightarrow> walks ?c 0 s" if "s \<le> i" for s
    using that w(1,5,7) ij by (auto intro: walks_cong [of ?c] walks_cong [of ?c'])
  have after: "walks ?c' j s \<longleftrightarrow> walks ?c j s" if "s < length ?c" for s
    using that w(1,7) by (auto intro: walks_cong [of ?c] walks_cong [of ?c'])
  have i': "walks ?c' 0 i" using before w(3) by simp
  note j' = walks_trans [OF i' w(6)] and j = walks_trans [OF w(3,4)]
  show "s \<in> starts ?c \<Longrightarrow> s \<notin> X \<Longrightarrow> s \<in> starts ?c'"
  proof -
    assume s: "s \<in> starts ?c" "s \<notin> X"
    consider "s \<le> i" | "i \<le> s" "s < j" | "j \<le> s" by linarith
    then have "walks ?c' 0 s"
    proof cases
      case 1
      with s before show ?thesis by simp
    next
      case 2
      with s walks_linear [OF w(3), of s] have "walks ?c i s" by simp
      with w(12) s 2 i' show ?thesis by (blast intro: walks_trans)
    next
      case 3
      with s walks_linear [OF j, of s] have "walks ?c j s" by simp
      with after s j' show ?thesis by (blast intro: walks_trans)
    qed
    with s w(1) show "s \<in> starts ?c'" by simp
  qed
  show "s \<in> starts ?c'  \<Longrightarrow> s < i \<or> j \<le> s \<Longrightarrow> s \<in> starts ?c"
  proof -
    assume s: "s \<in> starts ?c'" "s < i \<or> j \<le> s"
    from s(2) have "walks ?c 0 s"
    proof
      assume "s < i"
      with s before show ?thesis by simp
    next
      assume "j \<le> s"
      with s walks_linear [OF j', of s] have "walks ?c' j s" by simp
      with after s j w(1) show ?thesis by (auto intro: walks_trans)
    qed
    with s w(1) show "s \<in> starts ?c" by simp
  qed
  show "s \<in> starts ?c' \<Longrightarrow> i \<le> s \<Longrightarrow> s < j \<Longrightarrow> walks ?c' i s"
    using walks_linear [OF i', of s] by simp
qed

lemma window_code_ok:
  assumes win: "window c c' i j X" and ok: "code_ok c"
  shows "code_ok c'"
    and "collect_jump_targets (ch_code c') \<subseteq> collect_jump_targets (ch_code c) \<union>
      (\<Union>s \<in> {s. walks (ch_code c') i s \<and> s < j}. target_set (ch_code c') s)"
proof -
  let ?c = "ch_code c" and ?c' = "ch_code c'"
  note w = windowD [OF win]
  have outside: "s \<in> starts ?c \<and> ?c' ! s = ?c ! s \<and> instruction_size ?c' s = instruction_size ?c s \<and>
      target_set ?c' s = target_set ?c s \<and>
      (instruction_size ?c s = 3 \<longrightarrow> opt_read_u16 ?c' (s + 1) = opt_read_u16 ?c (s + 1))"
    if "s \<in> starts ?c'" "s < i \<or> j \<le> s" for s
  proof -
    have s: "s \<in> starts ?c" using window_starts(2) [OF win that] .
    note same_bytes [OF w(1) code_okD(1) [OF ok s] window_bytes [OF win ok s that(2)]]
    with s show ?thesis by simp
  qed
  have target: "t \<in> starts ?c' \<or> length ?c \<le> t" if "s \<in> starts ?c'" "t \<in> target_set ?c' s" for s t
  proof (cases "s < i \<or> j \<le> s")
    case True
    note o = outside [OF that(1) True]
    with that(2) have "t \<in> target_set ?c s" by simp
    moreover from this o have "t \<notin> X" using w(9) unfolding collect_jump_targets_eq by blast
    ultimately show ?thesis using code_okD(2) [OF ok, of s t] o window_starts(1) [OF win, of t] by blast
  next
    case False
    then have "walks ?c' i s" "s < j" using window_starts(3) [OF win that(1)] by auto
    from w(13) [OF this] that(2) have "t \<in> starts ?c - X \<union> {length ?c..}" by blast
    then show ?thesis using window_starts(1) [OF win, of t] by auto
  qed
  have fits: "s + instruction_size ?c' s \<le> length ?c" if "s \<in> starts ?c'" for s
  proof (cases "s < i \<or> j \<le> s")
    case True
    with outside [OF that True] code_okD(1) [OF ok, of s] show ?thesis by simp
  next
    case False
    with window_starts(3) [OF win that] w(6) have "walks ?c' s j" by (auto intro: walks_linear)
    then have "walks ?c' (s + instruction_size ?c' s) j" using False by (cases rule: walks.cases) auto
    with w(5) show ?thesis by (auto dest: walks_le)
  qed
  have const: "unat (opt_read_u16 ?c' (s + 1)) < cp_size (ch_constants c')"
    if "s \<in> starts ?c'" "?c' ! s = Op_Constant" for s
  proof (cases "s < i \<or> j \<le> s")
    case True
    with outside [OF that(1) True] that(2) code_okD(3) [OF ok, of s] constant_size [of ?c s] w(2) show ?thesis
      by (simp add: pool_extends_def)
  next
    case False
    with w(14) window_starts(3) [OF win that(1)] that(2) show ?thesis by auto
  qed
  show "code_ok c'"
    unfolding code_ok_def
    using fits target const w(1,2) ok by (simp add: pool_extends_def code_ok_def)
  show "collect_jump_targets ?c' \<subseteq> collect_jump_targets ?c \<union>
      (\<Union>s \<in> {s. walks ?c' i s \<and> s < j}. target_set ?c' s)"
  proof
    fix t
    assume "t \<in> collect_jump_targets ?c'"
    then obtain s where s: "s \<in> starts ?c'" "t \<in> target_set ?c' s" unfolding collect_jump_targets_eq by blast
    then show "t \<in> collect_jump_targets ?c \<union> (\<Union>s \<in> {s. walks ?c' i s \<and> s < j}. target_set ?c' s)"
      using outside [OF s(1)] window_starts(3) [OF win s(1)] unfolding collect_jump_targets_eq
      by (cases "s < i \<or> j \<le> s") auto
  qed
qed

lemma window_preserves:
  assumes win: "window c c' i j X" and ok: "code_ok c" and ne: "ch_code c \<noteq> []"
    and sim: "\<And>f s. walks (ch_code c) i s \<Longrightarrow> s < j \<Longrightarrow> s \<notin> X \<Longrightarrow>
      sim_at env (f\<lparr>cf_chunk := c\<rparr>) (f\<lparr>cf_chunk := c'\<rparr>) (starts (ch_code c) - X) id s"
  shows "preserves env c c'"
  unfolding preserves_def
proof (intro allI impI)
  fix f :: compiled_function and vm out
  let ?c = "ch_code c" and ?f = "f\<lparr>cf_chunk := c\<rparr>" and ?g = "f\<lparr>cf_chunk := c'\<rparr>"
  let ?C = "starts ?c - X"
  note w = windowD [OF win]
  have sim_all: "sim_at env ?f ?g ?C id s" if "s \<in> ?C" for s
  proof (cases "s < i \<or> j \<le> s")
    case True
    from that have s: "s \<in> starts ?c" by simp
    note bytes = window_bytes [OF win ok s True]
    have next_ne: "s + instruction_size ?c s \<notin> X" if "?c ! s \<notin> {Op_Jump, Op_Loop, Op_Return, Op_GetLocalReturn}"
    proof
      assume X: "s + instruction_size ?c s \<in> X"
      with w(8) have n: "i \<le> s + instruction_size ?c s" "s + instruction_size ?c s < j" by auto
      with True have "s < i" by auto
      have "s \<le> s + instruction_size ?c s - 1" "s + instruction_size ?c s - 1 < s + instruction_size ?c s"
        using instruction_size_pos [of ?c s] by linarith+
      with outside_bytes [OF w(3,4) _ _ True this] s have "s + instruction_size ?c s - 1 < i \<or>
        j \<le> s + instruction_size ?c s - 1" by simp
      with n have "s + instruction_size ?c s = i" by linarith
      with w(11) [of s] X s that show False by simp
    qed
    show ?thesis
    proof (rule sim_at_untouched [OF ok s w(1,2) bytes])
      show "t \<in> ?C" if "t \<in> target_set ?c s" "t \<in> starts ?c" for t
        using that s w(9) unfolding collect_jump_targets_eq by blast
    qed (use s next_ne walks_next [of ?c 0 s] in auto)
  next
    case False
    with that walks_linear [OF w(3), of s] have "walks ?c i s" by simp
    with False that sim show ?thesis by simp
  qed
  have "0 \<in> ?C" using ne w(8,10) by (auto intro: walks_refl)
  moreover assume "leaves env (reloc ?f 0 vm) out"
  ultimately have "leaves env (reloc ?g (id 0) vm) out" by (intro simulation [OF sim_all])
  then show "leaves env (reloc ?g 0 vm) out" by simp
qed

end
