(* ===== verification/Optimizer_Rules.thy ===== *)
theory Optimizer_Rules
  imports Optimizer_Sim
begin

text \<open>
  The rewrite rules of the passes, one by one: what the instructions of the old window do to the stack, the
  instructions of the new window do as well.  The effect of an instruction on the stack is written as a
  function and shown to be what the machine does.
\<close>

section \<open>Stack effects\<close>

definition pushv :: "val \<Rightarrow> val list \<Rightarrow> val list option" where
  "pushv v st = (if k_max \<le> length st then None else Some (st @ [v]))"

definition to_number :: "vm_env \<Rightarrow> val \<Rightarrow> val" where
  "to_number env v = (case v of VInteger n \<Rightarrow> VNumber (fp_of_int (env_fpu env) n) | _ \<Rightarrow> v)"

definition on_top :: "(val \<Rightarrow> val) \<Rightarrow> val list \<Rightarrow> val list option" where
  "on_top g st = (if st = [] then None else Some (butlast st @ [g (last st)]))"

definition on_two :: "(val \<Rightarrow> val \<Rightarrow> val) \<Rightarrow> val list \<Rightarrow> val list option" where
  "on_two g st =
     (if length st < 2 then None
      else Some (butlast (butlast st) @ [g (last (butlast st)) (last st)]))"

definition swap_top :: "val list \<Rightarrow> val list option" where
  "swap_top st =
     (if length st < 2 then None
      else Some (butlast (butlast st) @ [last st, last (butlast st)]))"

definition set_slot :: "nat \<Rightarrow> val list \<Rightarrow> val list option" where
  "set_slot p st = (if st = [] \<or> length st \<le> p then None else Some (st[p := last st]))"

definition get_slot :: "nat \<Rightarrow> val list \<Rightarrow> val list option" where
  "get_slot p st = (if length st \<le> p then None else pushv (st ! p) st)"

definition set_slot_pop :: "nat \<Rightarrow> val list \<Rightarrow> val list option" where
  "set_slot_pop p st = (if length st - 1 \<le> p then None else Some ((butlast st)[p := last st]))"

definition effect :: "vm_env \<Rightarrow> chunk \<Rightarrow> nat \<Rightarrow> nat \<Rightarrow> val list \<Rightarrow> val list option" where
  "effect env c s base st =
     (let code = ch_code c; op = code ! s; w = unat (opt_read_u16 code (s + 1))
      in if op = Op_True then pushv (VBool True) st
         else if op = Op_False then pushv (VBool False) st
         else if op = Op_None then pushv VNull st
         else if op = Op_Constant then pushv (cp_values (ch_constants c) ! w) st
         else if op = Op_Dup then (if st = [] then None else pushv (last st) st)
         else if op = Op_Pop then (if st = [] then None else Some (butlast st))
         else if op = Op_Swap then swap_top st
         else if op = Op_Not then on_top (\<lambda>v. VBool (\<not> is_truthy v)) st
         else if op = Op_IntToNumber then on_top (to_number env) st
         else if op = Op_Equal then on_two (\<lambda>a b. VBool (value_equals env a b)) st
         else if op = Op_NotEqual then on_two (\<lambda>a b. VBool (\<not> value_equals env a b)) st
         else if op = Op_SetLocal then set_slot (base + w) st
         else if op = Op_GetLocal then get_slot (base + w) st
         else if op = Op_SetLocalPop then set_slot_pop (base + w) st
         else None)"

definition simple_ops :: "op list" where
  "simple_ops = [Op_True, Op_False, Op_None, Op_Dup, Op_Pop, Op_Swap, Op_Not, Op_IntToNumber, Op_Equal, Op_NotEqual]"

definition slot_ops :: "op list" where
  "slot_ops = [Op_SetLocal, Op_GetLocal, Op_SetLocalPop]"

abbreviation frame_base :: "vm \<Rightarrow> nat" where
  "frame_base vm \<equiv> fr_slot_offset (last (frames vm))"

lemma op_sizes:
  "code ! s \<in> set simple_ops \<Longrightarrow> instruction_size code s = 1"
  "code ! s \<in> set slot_ops \<Longrightarrow> instruction_size code s = 3"
  using group_size(1,2) [of code s]
  by (auto simp: simple_ops_def slot_ops_def same_ops_def push_ops_def binary_ops_def local_ops_def load_ops_def)

lemma two_on_stack:
  assumes "\<not> length st < 2"
  shows "\<exists>xs a b. st = xs @ [a, b]"
proof -
  from assms have "st = butlast (butlast st) @ [last (butlast st), last st]"
    by (cases st rule: rev_cases; simp)
  then show ?thesis by blast
qed

lemma simple_step:
  assumes "ch_code (cf_chunk f) ! s \<in> set simple_ops" and "s < length (ch_code (cf_chunk f))"
  shows "frame_step env (reloc f s vm) =
    map_option (\<lambda>st. reloc f (s + 1) (vm\<lparr>stack := st\<rparr>)) (effect env (cf_chunk f) s (frame_base vm) (stack vm))"
proof -
  let ?op = "ch_code (cf_chunk f) ! s" and ?vm = "reloc f (s + 1) vm"
  obtain h where h: "frame_handler env ?op = Some h"
    using assms(1) by (auto simp: simple_ops_def frame_handler_def modelled_handler_def)
  note step = frame_step_handler [OF h assms(2)]
  have push: "succeeds (push ?vm v) = map_option (\<lambda>st. reloc f (s + 1) (vm\<lparr>stack := st\<rparr>)) (pushv v (stack vm))" for v
    by (simp add: push_def pushv_def)
  have one: "succeeds (unary_op ?vm name (\<lambda>v. Inr (g v))) =
      map_option (\<lambda>st. reloc f (s + 1) (vm\<lparr>stack := st\<rparr>)) (on_top g (stack vm))" for name g
    by (simp add: unary_op_def validate_stack_depth_def on_top_def set_top_def)
  have two: "succeeds (binary_op ?vm (\<lambda>vm a b. Inr (g a b))) =
      map_option (\<lambda>st. reloc f (s + 1) (vm\<lparr>stack := st\<rparr>)) (on_two g (stack vm))" for g
  proof (cases "length (stack vm) < 2")
    case True
    then show ?thesis
      by (cases "stack vm" rule: rev_cases) (auto simp: binary_op_def pop_binary_ref_def pop_def on_two_def)
  next
    case False
    with two_on_stack obtain xs a b where "stack vm = xs @ [a, b]" by blast
    with binary_op_two [of ?vm xs a b "\<lambda>vm a b. Inr (g a b)"] False show ?thesis
      by (simp add: on_two_def butlast_append)
  qed
  have swap: "succeeds (op_swap ?vm) = map_option (\<lambda>st. reloc f (s + 1) (vm\<lparr>stack := st\<rparr>)) (swap_top (stack vm))"
  proof (cases "length (stack vm) < 2")
    case True
    then show ?thesis by (simp add: op_swap_def validate_stack_depth_def swap_top_def)
  next
    case False
    with two_on_stack obtain xs a b where "stack vm = xs @ [a, b]" by blast
    then show ?thesis
      using False
      by (simp add: op_swap_def validate_stack_depth_def swap_top_def Let_def nth_append list_update_append butlast_append)
  qed
  have "h = (if ?op = Op_True then op_true else if ?op = Op_False then op_false else if ?op = Op_None then op_none
    else if ?op = Op_Dup then op_dup else if ?op = Op_Pop then op_pop else if ?op = Op_Swap then op_swap
    else if ?op = Op_Not then op_not else if ?op = Op_IntToNumber then op_int_to_number env
    else if ?op = Op_Equal then op_equal env else op_not_equal env)"
    using h assms(1) by (auto simp: simple_ops_def frame_handler_def modelled_handler_def)
  then show ?thesis
    using assms(1) push one two swap unfolding step effect_def Let_def
    by (auto simp: simple_ops_def op_true_def op_false_def op_none_def op_dup_def op_pop_def op_not_def
        op_int_to_number_def op_equal_def op_not_equal_def validate_stack_depth_def pop_def to_number_def [abs_def])
qed

lemma operand_read:
  assumes "s + 3 \<le> length (ch_code (cf_chunk f))"
  shows "vm_read_u16 (reloc f (s + 1) vm) = Inr (opt_read_u16 (ch_code (cf_chunk f)) (s + 1), reloc f (s + 3) vm)"
  using assms by (simp add: read_u16_reloc opt_read_u16_def numeral_3_eq_3)

lemma slot_step:
  assumes "ch_code (cf_chunk f) ! s \<in> set slot_ops" and "s + 3 \<le> length (ch_code (cf_chunk f))"
  shows "frame_step env (reloc f s vm) =
    map_option (\<lambda>st. reloc f (s + 3) (vm\<lparr>stack := st\<rparr>)) (effect env (cf_chunk f) s (frame_base vm) (stack vm))"
proof -
  let ?op = "ch_code (cf_chunk f) ! s"
  let ?slot = "frame_base vm + unat (opt_read_u16 (ch_code (cf_chunk f)) (s + 1))"
  obtain h where h: "frame_handler env ?op = Some h"
    "h = (if ?op = Op_SetLocal then op_set_local else if ?op = Op_GetLocal then op_get_local else op_set_local_pop)"
    using assms(1) by (auto simp: slot_ops_def frame_handler_def modelled_handler_def)
  have inside: "s < length (ch_code (cf_chunk f))" using assms(2) by simp
  have slot: "get_local_slot vm' cf w = (if length (stack vm') \<le> fr_slot_offset cf + unat w
      then Inl (runtime_error vm' (local_variable_out_of_bounds w (fr_slot_offset cf)) k_internal_error_message)
      else Inr (fr_slot_offset cf + unat w))" for vm' cf w
    by (simp add: get_local_slot_def frame_slot_index_def Let_def)
  have set: "succeeds (op_set_local (reloc f (s + 1) vm)) =
      map_option (\<lambda>st. reloc f (s + 3) (vm\<lparr>stack := st\<rparr>)) (set_slot ?slot (stack vm))"
    unfolding op_set_local_def operand_read [OF assms(2)] set_slot_def
    by (auto simp: peek_def slot last_conv_nth)
  have get: "succeeds (op_get_local (reloc f (s + 1) vm)) =
      map_option (\<lambda>st. reloc f (s + 3) (vm\<lparr>stack := st\<rparr>)) (get_slot ?slot (stack vm))"
    unfolding op_get_local_def operand_read [OF assms(2)] get_slot_def
    by (auto simp: push_def pushv_def slot)
  have set_pop: "succeeds (op_set_local_pop (reloc f (s + 1) vm)) =
      map_option (\<lambda>st. reloc f (s + 3) (vm\<lparr>stack := st\<rparr>)) (set_slot_pop ?slot (stack vm))"
    unfolding op_set_local_pop_def operand_read [OF assms(2)] set_slot_pop_def
    by (auto simp: pop_def slot)
  show ?thesis
    unfolding frame_step_handler [OF h(1) inside] effect_def Let_def
    using assms(1) set get set_pop h(2) by (auto simp: slot_ops_def)
qed

lemma constant_step:
  assumes "ch_code (cf_chunk f) ! s = Op_Constant" and "s + 3 \<le> length (ch_code (cf_chunk f))"
    and "unat (opt_read_u16 (ch_code (cf_chunk f)) (s + 1)) < cp_size (ch_constants (cf_chunk f))"
  shows "frame_step env (reloc f s vm) =
    map_option (\<lambda>st. reloc f (s + 3) (vm\<lparr>stack := st\<rparr>))
      (pushv (cp_values (ch_constants (cf_chunk f)) ! unat (opt_read_u16 (ch_code (cf_chunk f)) (s + 1))) (stack vm))"
proof -
  have h: "frame_handler env (ch_code (cf_chunk f) ! s) = Some op_constant"
    using assms(1) by (simp add: frame_handler_def modelled_handler_def)
  have inside: "s < length (ch_code (cf_chunk f))" using assms(2) by simp
  show ?thesis
    unfolding frame_step_handler [OF h inside] op_constant_def operand_read [OF assms(2)]
    using assms(3) by (auto simp: push_def pushv_def Let_def)
qed

section \<open>Straight-line runs\<close>

type_synonym stack_effect_fn = "nat \<Rightarrow> val list \<Rightarrow> val list option"

definition then_effect :: "stack_effect_fn \<Rightarrow> stack_effect_fn \<Rightarrow> stack_effect_fn" where
  "then_effect e1 e2 base st = (case e1 base st of None \<Rightarrow> None | Some st' \<Rightarrow> e2 base st')"

text \<open>Every execution that leaves from \<open>i\<close> passes \<open>j\<close>, with this effect on the stack.\<close>

definition must_run :: "vm_env \<Rightarrow> compiled_function \<Rightarrow> nat \<Rightarrow> nat \<Rightarrow> stack_effect_fn \<Rightarrow> bool" where
  "must_run env f i j e \<longleftrightarrow>
     (\<forall>vm n out. leaves_after env n (reloc f i vm) out \<longrightarrow>
        (\<exists>m st. m < n \<and> e (frame_base vm) (stack vm) = Some st \<and>
           leaves_after env m (reloc f j (vm\<lparr>stack := st\<rparr>)) out))"

text \<open>Where the effect is defined, execution gets from \<open>i\<close> to \<open>j\<close> with it.\<close>

definition can_run :: "vm_env \<Rightarrow> compiled_function \<Rightarrow> nat \<Rightarrow> nat \<Rightarrow> stack_effect_fn \<Rightarrow> bool" where
  "can_run env g i j e \<longleftrightarrow>
     (\<forall>vm st. e (frame_base vm) (stack vm) = Some st \<longrightarrow>
        run_to env (reloc g i vm) (reloc g j (vm\<lparr>stack := st\<rparr>)))"

lemma must_run_step:
  assumes "\<And>vm. frame_step env (reloc f i vm) =
      map_option (\<lambda>st. reloc f j (vm\<lparr>stack := st\<rparr>)) (e (frame_base vm) (stack vm))"
    and "ch_code (cf_chunk f) ! i \<notin> {Op_Return, Op_GetLocalReturn, Op_EndModule}"
  shows "must_run env f i j e"
  unfolding must_run_def
proof (intro allI impI)
  fix vm n out
  assume "leaves_after env n (reloc f i vm) out"
  then show "\<exists>m st. m < n \<and> e (frame_base vm) (stack vm) = Some st \<and>
      leaves_after env m (reloc f j (vm\<lparr>stack := st\<rparr>)) out"
  proof (cases rule: leaves_after.cases)
    case after_exit
    with assms(2) show ?thesis by (auto simp: frame_exit_def Let_def split: if_splits)
  next
    case (after_step vm1 m)
    then show ?thesis unfolding assms(1) by auto
  qed
qed

lemma must_run_trans:
  assumes "must_run env f i k e1" and "must_run env f k j e2"
  shows "must_run env f i j (then_effect e1 e2)"
  unfolding must_run_def
proof (intro allI impI)
  fix vm n out
  assume "leaves_after env n (reloc f i vm) out"
  with assms(1) obtain m st where 1: "m < n" "e1 (frame_base vm) (stack vm) = Some st"
    "leaves_after env m (reloc f k (vm\<lparr>stack := st\<rparr>)) out" unfolding must_run_def by blast
  with assms(2) obtain m' st' where "m' < m"
    "e2 (frame_base (vm\<lparr>stack := st\<rparr>)) (stack (vm\<lparr>stack := st\<rparr>)) = Some st'"
    "leaves_after env m' (reloc f j (vm\<lparr>stack := st\<rparr>\<lparr>stack := st'\<rparr>)) out" unfolding must_run_def by blast
  with 1 show "\<exists>m st. m < n \<and> then_effect e1 e2 (frame_base vm) (stack vm) = Some st \<and>
      leaves_after env m (reloc f j (vm\<lparr>stack := st\<rparr>)) out"
    by (intro exI [of _ m'] exI [of _ st']) (simp add: then_effect_def)
qed

lemma can_run_step:
  assumes "\<And>vm. frame_step env (reloc g i vm) =
      map_option (\<lambda>st. reloc g j (vm\<lparr>stack := st\<rparr>)) (e (frame_base vm) (stack vm))"
  shows "can_run env g i j e"
  unfolding can_run_def using assms by (auto intro: run_to_step)

lemma can_run_trans:
  assumes "can_run env g i k e1" and "can_run env g k j e2"
  shows "can_run env g i j (then_effect e1 e2)"
  unfolding can_run_def
proof (intro allI impI)
  fix vm st
  assume "then_effect e1 e2 (frame_base vm) (stack vm) = Some st"
  then obtain st1 where 1: "e1 (frame_base vm) (stack vm) = Some st1" "e2 (frame_base vm) st1 = Some st"
    by (auto simp: then_effect_def split: option.splits)
  with assms(1) have "run_to env (reloc g i vm) (reloc g k (vm\<lparr>stack := st1\<rparr>))" unfolding can_run_def by blast
  moreover from 1 assms(2) [unfolded can_run_def, rule_format, of "vm\<lparr>stack := st1\<rparr>" st]
  have "run_to env (reloc g k (vm\<lparr>stack := st1\<rparr>)) (reloc g j (vm\<lparr>stack := st\<rparr>))" by simp
  ultimately show "run_to env (reloc g i vm) (reloc g j (vm\<lparr>stack := st\<rparr>))" by (rule run_to_trans)
qed

lemma can_run_dead:
  assumes "\<And>k. i \<le> k \<Longrightarrow> k < j \<Longrightarrow> is_dead_byte (ch_code (cf_chunk g) ! k)"
    and "j \<le> length (ch_code (cf_chunk g))" and "i \<le> j"
  shows "can_run env g i j (\<lambda>_. Some)"
proof -
  have "run_to env (reloc g i vm) (reloc g j vm)" for vm
    using assms(3,1,2)
  proof (induction i rule: inc_induct)
    case (step i)
    then have "frame_step env (reloc g i vm) = Some (reloc g (Suc i) vm)" using frame_step_dead [of g i env vm] by simp
    with step show ?case by (auto intro: run_to_step)
  qed simp
  moreover have "vm\<lparr>stack := stack vm\<rparr> = vm" for vm :: vm by simp
  ultimately show ?thesis by (simp add: can_run_def del: reloc_stack)
qed

text \<open>The window as a whole.\<close>

lemma sim_at_runs:
  assumes "must_run env f i j e" and "can_run env g i j e'"
    and "\<And>base st st'. e base st = Some st' \<Longrightarrow> e' base st = Some st'"
    and "j < length (ch_code (cf_chunk f)) \<Longrightarrow> j \<in> C"
  shows "sim_at env f g C id i"
  unfolding sim_at_def
proof (intro allI impI disjI2)
  fix vm n out
  assume "leaves_after env n (reloc f i vm) out"
  with assms(1) obtain m st where m: "m < n" "e (frame_base vm) (stack vm) = Some st"
    "leaves_after env m (reloc f j (vm\<lparr>stack := st\<rparr>)) out" unfolding must_run_def by blast
  with leaves_after_inside [OF m(3)] assms(4) have "j \<in> C" by simp
  moreover from m(2) assms(2,3) have "run_to env (reloc g i vm) (reloc g j (vm\<lparr>stack := st\<rparr>))"
    unfolding can_run_def by blast
  ultimately show "\<exists>m t vm1. m < n \<and> t \<in> C \<and> leaves_after env m (reloc f t vm1) out \<and>
      run_to env (reloc g (id i) vm) (reloc g (id t) vm1)"
    using m by (intro exI [of _ m] exI [of _ j] exI [of _ "vm\<lparr>stack := st\<rparr>"]) simp
qed

lemmas must_simple = must_run_step [OF simple_step]
lemmas must_slot = must_run_step [OF slot_step]
lemmas can_simple = can_run_step [OF simple_step]
lemmas can_slot = can_run_step [OF slot_step]

lemma exit_not_simple:
  "op \<in> set simple_ops \<union> set slot_ops \<union> {Op_Constant} \<Longrightarrow> op \<notin> {Op_Return, Op_GetLocalReturn, Op_EndModule}"
  by (auto simp: simple_ops_def slot_ops_def)

section \<open>Folded operations\<close>

text \<open>
  What the folds rely on: the double of the integer 0 is the pattern of 0.0, and the string limit of the
  running VM is not below the length up to which the optimizer concatenates.
\<close>

definition folding_env :: "vm_env \<Rightarrow> bool" where
  "folding_env env \<longleftrightarrow>
     fp_of_int (env_fpu env) 0 = 0 \<and> k_max_folded_string_length \<le> max_string_size env"

definition fold_handler :: "vm_env \<Rightarrow> op \<Rightarrow> vm \<Rightarrow> vm_throw + vm" where
  "fold_handler env op =
     (if op = Op_Add then op_add env else if op = Op_Subtract then op_subtract env
      else if op = Op_Multiply then op_multiply env else if op = Op_Divide then op_divide env
      else if op = Op_IntDivide then op_int_divide env else if op = Op_Modulo then op_modulo env
      else op_concatenate env)"

lemma fold_integers:
  assumes "try_fold_operation fp (VInteger a) (VInteger b) op = Some v" and "stack vm = xs @ [VInteger a, VInteger b]"
  shows "fold_handler env op vm = Inr (vm\<lparr>stack := xs @ [v]\<rparr>)"
    and "op \<in> {Op_Add, Op_Subtract, Op_Multiply, Op_IntDivide, Op_Modulo}"
proof -
  show op: "op \<in> {Op_Add, Op_Subtract, Op_Multiply, Op_IntDivide, Op_Modulo}"
    using assms(1) by (auto simp: try_fold_operation_def split: if_splits)
  have "fold_handler env op vm = Inr (vm\<lparr>stack := xs @ [v]\<rparr>)"
    if "op \<in> {Op_Add, Op_Subtract, Op_Multiply}"
    using assms that
    by (auto simp: try_fold_operation_def fold_handler_def op_add_def op_subtract_def op_multiply_def binary_op_two
        numeric_binary_op_def checked_integer_op_def split: if_splits)
  moreover have "fold_handler env op vm = Inr (vm\<lparr>stack := xs @ [v]\<rparr>)" if "op \<in> {Op_IntDivide, Op_Modulo}"
    using assms that
    by (auto simp: try_fold_operation_def fold_handler_def op_int_divide_def op_modulo_def handle_int_divide_def
        handle_modulo_def pop_binary_ref_two validate_nonzero_divisor_def both_numeric_def floor_quotient_def
        set_top_def Let_def split: if_splits)
  ultimately show "fold_handler env op vm = Inr (vm\<lparr>stack := xs @ [v]\<rparr>)" using op by blast
qed

lemma fold_doubles:
  assumes "try_fold_operation (env_fpu env) a b op = Some v" and "is_numeric a" "is_numeric b"
    and "\<not> (is_integer a \<and> is_integer b)" and "folding_env env" and "stack vm = xs @ [a, b]"
  shows "fold_handler env op vm = Inr (vm\<lparr>stack := xs @ [v]\<rparr>)"
    and "op \<in> {Op_Add, Op_Subtract, Op_Multiply, Op_Divide}"
proof -
  let ?fp = "env_fpu env"
  define l r where lr: "l = as_double ?fp a" "r = as_double ?fp b"
  from assms(1-4) obtain x where x: "v = VNumber x" "fp_isfinite x"
    "op = Op_Add \<and> x = fp_add ?fp l r \<or> op = Op_Subtract \<and> x = fp_sub ?fp l r \<or>
     op = Op_Multiply \<and> x = fp_mul ?fp l r \<or> op = Op_Divide \<and> \<not> fp_eq r 0 \<and> x = fp_div ?fp l r"
    by (cases a; cases b) (auto simp: try_fold_operation_def lr Let_def split: if_splits)
  then show "op \<in> {Op_Add, Op_Subtract, Op_Multiply, Op_Divide}" by auto
  have num: "numeric_binary_op env vm' a b op = Inr v" if "op \<noteq> Op_Divide" for vm'
    using x that assms(2-4)
    by (cases a; cases b) (auto simp: numeric_binary_op_def numeric_add_def numeric_subtract_def
        numeric_multiply_def numeric_binary_def both_numeric_def lr Let_def)
  show "fold_handler env op vm = Inr (vm\<lparr>stack := xs @ [v]\<rparr>)"
  proof (cases "op = Op_Divide")
    case True
    have zero: "validate_nonzero_divisor vm' b s = Inr ()" for vm' s
      using x(3) True assms(3,5)
      by (cases b) (auto simp: validate_nonzero_divisor_def lr folding_env_def fp_eq_def fp_isnan_def fp_exponent_def)
    have "to_numeric env vm' a = Inr l" "to_numeric env vm' b = Inr r" for vm'
      using assms(2,3) by (cases a; cases b; simp add: lr)+
    with True zero x assms(2,3,6) show ?thesis
      by (auto simp: fold_handler_def op_divide_def handle_divide_def pop_binary_ref_two both_numeric_def
          set_top_def Let_def)
  next
    case False
    with x(3) num assms(6) show ?thesis
      by (auto simp: fold_handler_def op_add_def op_subtract_def op_multiply_def binary_op_two)
  qed
qed

lemma fold_strings:
  assumes "try_fold_operation fp (VString sa) (VString sb) op = Some v" and "folding_env env"
    and "stack vm = xs @ [VString sa, VString sb]"
  shows "fold_handler env op vm = Inr (vm\<lparr>stack := xs @ [v]\<rparr>)" and "op = Op_Concatenate"
  using assms
  by (auto simp: try_fold_operation_def fold_handler_def op_concatenate_def handle_concatenate_def
      pop_binary_ref_two check_string_concat_size_def folding_env_def set_top_def split: if_splits)

lemma fold_operation_vm:
  assumes "try_fold_operation (env_fpu env) a b op = Some v" and "folding_env env" and "stack vm = xs @ [a, b]"
  shows "fold_handler env op vm = Inr (vm\<lparr>stack := xs @ [v]\<rparr>)" "frame_handler env op = Some (fold_handler env op)"
proof -
  consider (ints) x y where "a = VInteger x" "b = VInteger y"
    | (doubles) "is_numeric a" "is_numeric b" "\<not> (is_integer a \<and> is_integer b)"
    | (strings) x y where "a = VString x" "b = VString y"
    using assms(1) by (cases a; cases b) (auto simp: try_fold_operation_def)
  then have "fold_handler env op vm = Inr (vm\<lparr>stack := xs @ [v]\<rparr>) \<and>
      op \<in> {Op_Add, Op_Subtract, Op_Multiply, Op_Divide, Op_IntDivide, Op_Modulo, Op_Concatenate}"
  proof cases
    case ints
    with fold_integers(1) [of "env_fpu env" x y op v vm xs env] fold_integers(2) [of "env_fpu env" x y op v]
      assms(1,3) show ?thesis by auto
  next
    case doubles
    with fold_doubles [OF assms(1) doubles assms(2,3)] show ?thesis by auto
  next
    case strings
    with fold_strings(1) [of "env_fpu env" x y op v env vm xs] fold_strings(2) [of "env_fpu env" x y op v env]
      assms show ?thesis by auto
  qed
  then show "fold_handler env op vm = Inr (vm\<lparr>stack := xs @ [v]\<rparr>)" "frame_handler env op = Some (fold_handler env op)"
    by (auto simp: fold_handler_def frame_handler_def modelled_handler_def)
qed

text \<open>A handler that turns known operands into a known result.\<close>

definition folds :: "vm_env \<Rightarrow> op \<Rightarrow> val list \<Rightarrow> val \<Rightarrow> bool" where
  "folds env op args v \<longleftrightarrow> op \<notin> {Op_Return, Op_GetLocalReturn, Op_EndModule} \<and>
     (\<forall>vm xs. stack vm = xs @ args \<longrightarrow> (\<exists>h. frame_handler env op = Some h \<and> h vm = Inr (vm\<lparr>stack := xs @ [v]\<rparr>)))"

lemma frame_handler_not_exit:
  "frame_handler env op = Some h \<Longrightarrow> op \<notin> {Op_Return, Op_GetLocalReturn, Op_EndModule}"
  by (auto simp: frame_handler_def modelled_handler_def split: if_splits)

lemma try_fold_operation_folds:
  assumes "try_fold_operation (env_fpu env) a b op = Some v" and "folding_env env"
  shows "folds env op [a, b] v"
proof -
  have "frame_handler env op = Some (fold_handler env op)"
    by (rule fold_operation_vm(2) [OF assms, of "\<lparr>stack = [a, b], frames = [], handlers = [], shields = [],
      base_depth = 0, dispatch_return_value = None, loop_iterations = 0, total_loop_iterations = 0,
      task_scopes = 0, objects = [], cells = []\<rparr>" "[]"]) simp
  then show ?thesis
    using fold_operation_vm [OF assms] frame_handler_not_exit unfolding folds_def by blast
qed

lemma fold_values_folds:
  assumes "fold_values op a b = Some r"
  shows "folds env op [a, b] (VBool r)"
proof -
  have op: "op \<in> {Op_Equal, Op_NotEqual, Op_Less, Op_LessEqual, Op_Greater, Op_GreaterEqual}"
    using assms by (cases a; cases b) (auto simp: fold_values_def fold_comparison_def split: if_splits)
  consider (ints) x y where "a = VInteger x" "b = VInteger y" | (strings) x y where "a = VString x" "b = VString y"
    using assms by (cases a; cases b) (auto simp: fold_values_def)
  then have val: "(op = Op_Equal \<longrightarrow> r = value_equals env a b) \<and> (op = Op_NotEqual \<longrightarrow> r = (\<not> value_equals env a b)) \<and>
      (op \<in> {Op_Less, Op_LessEqual, Op_Greater, Op_GreaterEqual} \<longrightarrow>
        (\<forall>vm. compare_values env vm a b op = Inr (VBool r)))"
    using assms
    by cases (auto simp: fold_values_def fold_comparison_def compare_values_def apply_comparison_def
        signed_word_eqI split: if_splits)
  obtain h where h: "frame_handler env op = Some h"
    "h = (if op = Op_Equal then op_equal env else if op = Op_NotEqual then op_not_equal env
      else if op = Op_Less then op_less env else if op = Op_LessEqual then op_less_equal env
      else if op = Op_Greater then op_greater env else op_greater_equal env)"
    using op by (auto simp: frame_handler_def modelled_handler_def)
  have "h vm = Inr (vm\<lparr>stack := xs @ [VBool r]\<rparr>)" if "stack vm = xs @ [a, b]" for vm xs
    using op val unfolding h(2)
    by (auto simp: op_equal_def op_not_equal_def op_less_def op_less_equal_def op_greater_def op_greater_equal_def
        binary_op_two [OF that])
  with h(1) frame_handler_not_exit [OF h(1)] show ?thesis unfolding folds_def by blast
qed

lemma unary_fold_value_folds:
  assumes "unary_fold_value a op = Some v"
  shows "folds env op [a] v"
proof -
  from assms consider (neg) "op = Op_Negate" "\<And>vm. handle_unary_numeric env vm a checked_negate fp_neg ''Negate'' ''negation'' = Inr v"
    | (nt) b where "op = Op_Not" "a = VBool b" "v = VBool (\<not> b)"
    by (cases a) (auto simp: unary_fold_value_def handle_unary_numeric_def checked_negate_def split: if_splits)
  then show ?thesis
  proof cases
    case neg
    then show ?thesis
      by (auto simp: folds_def frame_handler_def modelled_handler_def op_negate_def unary_op_one)
  next
    case nt
    then show ?thesis
      by (auto simp: folds_def frame_handler_def modelled_handler_def op_not_def unary_op_one)
  qed
qed

lemma leaves_after_known:
  assumes "leaves_after env n (reloc f s vm) out" and "frame_step env (reloc f s vm) = Some vm1"
    and "ch_code (cf_chunk f) ! s \<notin> {Op_Return, Op_GetLocalReturn, Op_EndModule}"
  shows "\<exists>m < n. leaves_after env m vm1 out"
  using assms(1)
proof (cases rule: leaves_after.cases)
  case after_exit
  with assms(3) show ?thesis by (auto simp: frame_exit_def Let_def split: if_splits)
next
  case (after_step vm2 m)
  with assms(2) show ?thesis by auto
qed

text \<open>An operation on operands the instructions before it pushed.\<close>

lemma must_run_fold:
  assumes "must_run env f i k e" and "\<And>base st st'. e base st = Some st' \<Longrightarrow> \<exists>xs. st' = xs @ args \<and> r base st = Some (xs @ [v])"
    and "folds env (ch_code (cf_chunk f) ! k) args v" and "k < length (ch_code (cf_chunk f))"
  shows "must_run env f i (k + 1) r"
  unfolding must_run_def
proof (intro allI impI)
  fix vm n out
  assume "leaves_after env n (reloc f i vm) out"
  with assms(1) obtain m st' where m: "m < n" "e (frame_base vm) (stack vm) = Some st'"
    "leaves_after env m (reloc f k (vm\<lparr>stack := st'\<rparr>)) out" unfolding must_run_def by blast
  from assms(2) [OF m(2)] obtain xs where xs: "st' = xs @ args" "r (frame_base vm) (stack vm) = Some (xs @ [v])" by blast
  let ?vm = "reloc f (k + 1) (vm\<lparr>stack := st'\<rparr>)"
  have "stack ?vm = xs @ args" using xs(1) by simp
  with assms(3) obtain h where h: "frame_handler env (ch_code (cf_chunk f) ! k) = Some h"
    "h ?vm = Inr (?vm\<lparr>stack := xs @ [v]\<rparr>)" unfolding folds_def by blast
  then have "frame_step env (reloc f k (vm\<lparr>stack := st'\<rparr>)) = Some (reloc f (k + 1) (vm\<lparr>stack := xs @ [v]\<rparr>))"
    unfolding frame_step_handler [OF h(1) assms(4)] by simp
  from leaves_after_known [OF m(3) this] assms(3) obtain m' where "m' < m"
    "leaves_after env m' (reloc f (k + 1) (vm\<lparr>stack := xs @ [v]\<rparr>)) out" unfolding folds_def by blast
  with m(1) xs(2) show "\<exists>m st. m < n \<and> r (frame_base vm) (stack vm) = Some st \<and>
      leaves_after env m (reloc f (k + 1) (vm\<lparr>stack := st\<rparr>)) out"
    by (intro exI [of _ m'] exI [of _ "xs @ [v]"]) simp
qed


section \<open>Rewrites\<close>

definition refines :: "vm_env \<Rightarrow> chunk \<Rightarrow> chunk \<Rightarrow> bool" where
  "refines env c c' \<longleftrightarrow>
     code_ok c' \<and> preserves env c c' \<and> length (ch_code c') = length (ch_code c) \<and>
     collect_jump_targets (ch_code c') \<subseteq> collect_jump_targets (ch_code c)"

lemma refines_refl: "code_ok c \<Longrightarrow> refines env c c"
  by (simp add: refines_def preserves_def)

lemma refines_trans: "refines env c c' \<Longrightarrow> refines env c' c'' \<Longrightarrow> refines env c c''"
  unfolding refines_def preserves_def by fastforce

lemma refines_code_ok: "refines env c c' \<Longrightarrow> code_ok c'"
  by (simp add: refines_def)

lemma walks_first: "walks code i s \<Longrightarrow> s < i + instruction_size code i \<Longrightarrow> s = i"
  by (cases rule: walks.cases) (auto dest: walks_le)

lemma walks_one: "i < length code \<Longrightarrow> walks code i (i + instruction_size code i)"
  by (blast intro: walks.intros)

lemma walks_dead:
  assumes "\<And>x. k \<le> x \<Longrightarrow> x < j \<Longrightarrow> is_dead_byte (code ! x)" and "k \<le> j" and "j \<le> length code"
  shows "walks code k j"
  using assms(2,1,3)
proof (induction k rule: inc_induct)
  case (step n)
  then show ?case using walks_step [of n code j] by simp
qed (rule walks_refl)

text \<open>
  The rewrite the passes make: the instructions from \<open>i\<close> to \<open>j\<close> become some instructions up to
  \<open>k\<close> and dead bytes after them.  Only the first position of the old window stays enterable.
\<close>

lemma rewrite_refines:
  assumes ok: "code_ok c" and i: "i \<in> starts (ch_code c)" and j: "walks (ch_code c) i j" "i < j" "j \<le> length (ch_code c)"
    and len: "length (ch_code c') = length (ch_code c)" and pool: "pool_extends c c'"
    and out: "\<And>x. x < i \<or> j \<le> x \<Longrightarrow> x < length (ch_code c) \<Longrightarrow> ch_code c' ! x = ch_code c ! x"
    and targets: "\<And>s. walks (ch_code c) i s \<Longrightarrow> i < s \<Longrightarrow> s < j \<Longrightarrow> s \<notin> collect_jump_targets (ch_code c)"
    and k: "walks (ch_code c') i k" "k \<le> j"
    and dead: "\<And>x. k \<le> x \<Longrightarrow> x < j \<Longrightarrow> is_dead_byte (ch_code c' ! x)"
    and heads: "\<And>s. walks (ch_code c') i s \<Longrightarrow> s < k \<Longrightarrow> \<not> is_jump (ch_code c' ! s) \<and>
      (ch_code c' ! s = Op_Constant \<longrightarrow> unat (opt_read_u16 (ch_code c') (s + 1)) < cp_size (ch_constants c'))"
    and sim: "\<And>f. sim_at env (f\<lparr>cf_chunk := c\<rparr>) (f\<lparr>cf_chunk := c'\<rparr>)
      (starts (ch_code c) - {s. walks (ch_code c) i s \<and> i < s \<and> s < j}) id i"
  shows "refines env c c'"
proof -
  let ?c = "ch_code c" and ?c' = "ch_code c'" and ?X = "{s. walks (ch_code c) i s \<and> i < s \<and> s < j}"
  have j': "walks ?c' i j"
    using k walks_dead [of k j ?c'] dead j(3) len by (auto intro: walks_trans)
  have new: "target_set ?c' s = {} \<and> (?c' ! s = Op_Constant \<longrightarrow> unat (opt_read_u16 ?c' (s + 1)) < cp_size (ch_constants c'))"
    if "walks ?c' i s" "s < j" for s
  proof (cases "s < k")
    case True
    with heads [OF that(1)] show ?thesis by (simp add: target_set_def is_jump_iff)
  next
    case False
    with dead that(2) have d: "is_dead_byte (?c' ! s)" by simp
    then have "?c' ! s \<noteq> Op_Constant" by (auto simp: is_dead_byte_def k_dead_byte_def)
    with dead_byte_targets [OF d] show ?thesis by simp
  qed
  have win: "window c c' i j ?X"
    unfolding window_def
  proof (intro conjI allI impI)
    show "collect_jump_targets ?c \<inter> ?X = {}" using targets by blast
    show "walks ?c' i s" if "walks ?c i s \<and> s < j \<and> s \<notin> ?X" for s
    proof -
      from that have "s = i" using walks_le [of ?c i s] by auto
      then show ?thesis by (simp add: walks_refl)
    qed
  qed (use i j j' len pool out new in auto)
  have "preserves env c c'"
  proof (rule window_preserves [OF win ok])
    show "sim_at env (f\<lparr>cf_chunk := c\<rparr>) (f\<lparr>cf_chunk := c'\<rparr>) (starts ?c - ?X) id s"
      if "walks ?c i s" "s < j" "s \<notin> ?X" for f s
    proof -
      from that have "s = i" using walks_le [of ?c i s] by auto
      then show ?thesis using sim by simp
    qed
  qed (use i in auto)
  moreover from window_code_ok(2) [OF win ok] new have "collect_jump_targets ?c' \<subseteq> collect_jump_targets ?c" by blast
  ultimately show ?thesis using window_code_ok(1) [OF win ok] len by (simp add: refines_def)
qed

lemma walks_second: "walks code i s \<Longrightarrow> i < s \<Longrightarrow> walks code (i + instruction_size code i) s"
  by (cases rule: walks.cases) auto

lemma sim_at_window_runs:
  assumes "i \<in> starts (ch_code c)" and "walks (ch_code c) i j"
    and "must_run env (f\<lparr>cf_chunk := c\<rparr>) i j e" and "can_run env (f\<lparr>cf_chunk := c'\<rparr>) i j e'"
    and "\<And>base st st'. e base st = Some st' \<Longrightarrow> e' base st = Some st'"
  shows "sim_at env (f\<lparr>cf_chunk := c\<rparr>) (f\<lparr>cf_chunk := c'\<rparr>)
    (starts (ch_code c) - {s. walks (ch_code c) i s \<and> i < s \<and> s < j}) id i"
  using assms(1,2) by (intro sim_at_runs [OF assms(3-5)]) (auto intro: walks_trans)

text \<open>Two instructions become one (or none, when \<open>k = i\<close>) and dead bytes.\<close>

lemma rewrite_pair:
  assumes ok: "code_ok c" and i: "i \<in> starts (ch_code c)" and n: "n = i + instruction_size (ch_code c) i"
    and ni: "n < length (ch_code c)" "n \<notin> collect_jump_targets (ch_code c)"
    and j: "j = n + instruction_size (ch_code c) n"
    and len: "length (ch_code c') = length (ch_code c)" and pool: "pool_extends c c'"
    and out: "\<And>x. x < i \<or> j \<le> x \<Longrightarrow> x < length (ch_code c) \<Longrightarrow> ch_code c' ! x = ch_code c ! x"
    and k: "k = i \<or> k = i + instruction_size (ch_code c') i" "k \<le> j"
    and dead: "\<And>x. k \<le> x \<Longrightarrow> x < j \<Longrightarrow> is_dead_byte (ch_code c' ! x)"
    and head: "i < k \<Longrightarrow> \<not> is_jump (ch_code c' ! i) \<and>
      (ch_code c' ! i = Op_Constant \<longrightarrow> unat (opt_read_u16 (ch_code c') (i + 1)) < cp_size (ch_constants c'))"
    and sim: "\<And>f. sim_at env (f\<lparr>cf_chunk := c\<rparr>) (f\<lparr>cf_chunk := c'\<rparr>)
      (starts (ch_code c) - {s. walks (ch_code c) i s \<and> i < s \<and> s < j}) id i"
  shows "refines env c c'"
proof (rule rewrite_refines [OF ok i])
  let ?c = "ch_code c"
  from i ni(1) n have n': "n \<in> starts ?c" by (auto intro: walks_next)
  have "walks ?c i n" using i n by (simp add: walks_one)
  then show "walks ?c i j" using ni(1) j by (simp add: walks_next)
  show "i < j" using n j instruction_size_pos [of ?c i] by linarith
  show "j \<le> length ?c" using code_okD(1) [OF ok n'] j by simp
  show "s \<notin> collect_jump_targets ?c" if "walks ?c i s" "i < s" "s < j" for s
    using walks_first [OF walks_second [OF that(1,2)]] that(3) n j ni(2) by simp
  show "walks (ch_code c') i k" using k(1) i len by (auto intro: walks_refl walks_one)
  show "\<not> is_jump (ch_code c' ! s) \<and> (ch_code c' ! s = Op_Constant \<longrightarrow>
      unat (opt_read_u16 (ch_code c') (s + 1)) < cp_size (ch_constants c'))"
    if "walks (ch_code c') i s" "s < k" for s
  proof -
    from that k(1) walks_le [OF that(1)] have "k = i + instruction_size (ch_code c') i" by auto
    with walks_first [OF that(1)] that(2) head show ?thesis by auto
  qed
qed (use len pool out k dead sim in auto)

lemma pool_extends_refl: "code_ok c \<Longrightarrow> ch_constants c' = ch_constants c \<Longrightarrow> pool_extends c c'"
  by (simp add: pool_extends_def code_ok_def)

lemma cp_try_add_values: "\<exists>ws. cp_values (fst (cp_try_add p v)) = cp_values p @ ws"
  by (cases v) (auto simp: cp_add_dedup_def Let_def split: option.splits)

lemma add_constant_pool:
  assumes "add_constant c v = Inr (c1, idx)"
  shows "fst (cp_try_add (ch_constants c) v) = ch_constants c1" "snd (cp_try_add (ch_constants c) v) = Some idx"
    and "ch_code c1 = ch_code c"
  using assms by (auto simp: add_constant_def cp_add_def split: sum.splits prod.splits option.splits)

lemma pool_extends_add:
  assumes "code_ok c" and "add_constant c v = Inr (c1, idx)" and "ch_constants c' = ch_constants c1"
  shows "pool_extends c c'" "unat idx < cp_size (ch_constants c')" "cp_values (ch_constants c') ! unat idx = v"
proof -
  let ?p = "ch_constants c"
  note added = add_constant_pool [OF assms(2)]
  from assms(1) have inv: "cp_inv ?p" by (simp add: code_ok_def)
  from cp_try_add_values [of ?p v] added(1) obtain ws where "cp_values (ch_constants c1) = cp_values ?p @ ws" by auto
  with cp_try_add_inv [OF inv, of v] show "pool_extends c c'"
    unfolding pool_extends_def added(1) assms(3) by (auto simp: cp_size_def nth_append)
  from cp_try_add_resolve [OF inv added(2)]
  show "unat idx < cp_size (ch_constants c')" "cp_values (ch_constants c') ! unat idx = v"
    unfolding added(1) assms(3) by (auto simp: cp_resolve_def cp_size_def split: if_splits)
qed

text \<open>The pool is never full when a pass adds to it, so no pass raises.\<close>

lemma add_constant_ok:
  assumes "cp_size (ch_constants c) < k_max_constants"
  shows "\<exists>c1 idx. add_constant c v = Inr (c1, idx)"
  using cp_try_add_None [of "ch_constants c" v] assms
  by (cases "cp_try_add (ch_constants c) v"; cases "snd (cp_try_add (ch_constants c) v)")
    (auto simp: add_constant_def cp_add_def cp_size_def)

end
