(* ===== verification/Optimizer_Peephole.thy ===== *)
theory Optimizer_Peephole
  imports Optimizer_Rules
begin

text \<open>The peephole pass keeps code well formed and keeps what it does.\<close>

section \<open>A window with a dead tail\<close>

lemma is_jump_plain: "op \<in> set simple_ops \<union> set slot_ops \<union> {Op_Constant, Op_GetLocalReturn} \<Longrightarrow> \<not> is_jump op"
  by (auto simp: simple_ops_def slot_ops_def is_jump_iff is_forward_jump_iff)

lemma plain_not_constant: "op \<in> set simple_ops \<union> set slot_ops \<Longrightarrow> op \<noteq> Op_Constant"
  by (auto simp: simple_ops_def slot_ops_def)

lemma is_dead_byte_dead [simp]: "is_dead_byte k_dead_byte"
  by (simp add: is_dead_byte_def)

lemma dead_byte_nop: "start \<le> k \<Longrightarrow> k < start + len \<Longrightarrow> k < length code \<Longrightarrow> is_dead_byte (nop_out code start len ! k)"
  by (simp add: nth_nop_out is_dead_byte_def)

text \<open>Two instructions are replaced by one or none, and the rest of the window is dead.\<close>

lemma pair_refines:
  assumes ok: "code_ok c" and i: "i \<in> starts (ch_code c)" and n: "n = i + instruction_size (ch_code c) i"
    and ni: "n < length (ch_code c)" "n \<notin> collect_jump_targets (ch_code c)"
    and j: "j = n + instruction_size (ch_code c) n"
    and len: "length (ch_code c') = length (ch_code c)" and pool: "pool_extends c c'"
    and out: "\<And>x. x < i \<or> j \<le> x \<Longrightarrow> x < length (ch_code c) \<Longrightarrow> ch_code c' ! x = ch_code c ! x"
    and k: "k = i \<or> k = i + instruction_size (ch_code c') i" "k \<le> j"
    and dead: "\<And>x. k \<le> x \<Longrightarrow> x < j \<Longrightarrow> is_dead_byte (ch_code c' ! x)"
    and head: "i < k \<Longrightarrow> \<not> is_jump (ch_code c' ! i) \<and>
      (ch_code c' ! i = Op_Constant \<longrightarrow> unat (opt_read_u16 (ch_code c') (i + 1)) < cp_size (ch_constants c'))"
    and must: "\<And>f. must_run env (f\<lparr>cf_chunk := c\<rparr>) i j e"
    and can: "\<And>f. can_run env (f\<lparr>cf_chunk := c'\<rparr>) i k e'"
    and eff: "\<And>base st st'. e base st = Some st' \<Longrightarrow> e' base st = Some st'"
  shows "refines env c c'"
proof (rule rewrite_pair [OF ok i n ni j len pool out k dead head])
  fix f
  let ?c = "ch_code c"
  have "n \<in> starts ?c" using i ni(1) n by (auto intro: walks_next)
  then have fits: "j \<le> length ?c" using code_okD(1) [OF ok] j by simp
  have "can_run env (f\<lparr>cf_chunk := c'\<rparr>) k j (\<lambda>_. Some)"
    using dead fits len k(2) by (intro can_run_dead) simp_all
  from can_run_trans [OF can this] have can': "can_run env (f\<lparr>cf_chunk := c'\<rparr>) i j (then_effect e' (\<lambda>_. Some))" .
  have "walks ?c i n" using i n by (simp add: walks_one)
  then have walk: "walks ?c i j" using ni(1) j by (simp add: walks_next)
  show "sim_at env (f\<lparr>cf_chunk := c\<rparr>) (f\<lparr>cf_chunk := c'\<rparr>)
      (starts ?c - {s. walks ?c i s \<and> i < s \<and> s < j}) id i"
    using eff by (intro sim_at_window_runs [OF i walk must can']) (simp add: then_effect_def)
qed

section \<open>Patterns on two plain instructions\<close>

lemma must_pair:
  assumes "ch_code c ! i \<in> set simple_ops" "ch_code c ! (i + 1) \<in> set simple_ops" "i + 1 < length (ch_code c)"
  shows "must_run env (f\<lparr>cf_chunk := c\<rparr>) i (i + 2) (then_effect (effect env c i) (effect env c (i + 1)))"
  using must_run_trans [OF must_simple [of "f\<lparr>cf_chunk := c\<rparr>" i env] must_simple [of "f\<lparr>cf_chunk := c\<rparr>" "i + 1" env]]
    assms exit_not_simple by simp

lemma replace_refines:
  assumes ok: "code_ok c" and i: "i \<in> starts (ch_code c)"
    and ops: "ch_code c ! i \<in> set simple_ops" "ch_code c ! (i + 1) \<in> set simple_ops"
    and n: "i + 1 < length (ch_code c)" "i + 1 \<notin> collect_jump_targets (ch_code c)"
    and c': "c' = c\<lparr>ch_code := nop_out ((ch_code c)[i := r]) (i + 1) 1\<rparr>" and r: "r \<in> set simple_ops"
    and eff: "\<And>base st st'. then_effect (effect env c i) (effect env c (i + 1)) base st = Some st' \<Longrightarrow>
      effect env c' i base st = Some st'"
  shows "refines env c c'"
proof (rule pair_refines [OF ok i _ _ _ _ _ _ _ _ _ _ _ must_pair [OF ops n(1)] _ eff, where k = "i + 1"])
  let ?c = "ch_code c" and ?c' = "ch_code c'"
  note sizes = op_sizes(1) [OF ops(1)] op_sizes(1) [OF ops(2)]
  have r': "?c' ! i = r" using n by (simp add: c' nth_nop_out)
  show "i + 1 = i + instruction_size ?c i" "i + 2 = i + 1 + instruction_size ?c (i + 1)" using sizes by simp_all
  show "i + 1 = i \<or> i + 1 = i + instruction_size ?c' i" using op_sizes(1) [of ?c' i] r r' by simp
  show "\<not> is_jump (?c' ! i) \<and> (?c' ! i = Op_Constant \<longrightarrow>
      unat (opt_read_u16 ?c' (i + 1)) < cp_size (ch_constants c'))"
    using r r' is_jump_plain plain_not_constant by simp
  show "can_run env (f\<lparr>cf_chunk := c'\<rparr>) i (i + 1) (effect env c' i)" for f
    using can_simple [of "f\<lparr>cf_chunk := c'\<rparr>" i env] r r' n by (simp add: c')
qed (use n ok in \<open>auto simp: c' nth_nop_out dead_byte_nop pool_extends_refl\<close>)

lemma cancel_refines:
  assumes ok: "code_ok c" and i: "i \<in> starts (ch_code c)"
    and ops: "ch_code c ! i \<in> set simple_ops" "ch_code c ! (i + 1) \<in> set simple_ops"
    and n: "i + 1 < length (ch_code c)" "i + 1 \<notin> collect_jump_targets (ch_code c)"
    and c': "c' = c\<lparr>ch_code := nop_out (ch_code c) i 2\<rparr>"
    and eff: "\<And>base st st'. then_effect (effect env c i) (effect env c (i + 1)) base st = Some st' \<Longrightarrow> st' = st"
  shows "refines env c c'"
proof (rule pair_refines [OF ok i _ _ _ _ _ _ _ _ _ _ _ must_pair [OF ops n(1)], where k = i and e' = "\<lambda>_. Some"])
  let ?c = "ch_code c" and ?c' = "ch_code c'"
  note sizes = op_sizes(1) [OF ops(1)] op_sizes(1) [OF ops(2)]
  show "i + 1 = i + instruction_size ?c i" "i + 2 = i + 1 + instruction_size ?c (i + 1)" using sizes by simp_all
  show "can_run env (f\<lparr>cf_chunk := c'\<rparr>) i i (\<lambda>_. Some)" for f
    using n by (intro can_run_dead) (auto simp: c')
  show "Some st = Some st'" if "then_effect (effect env c i) (effect env c (i + 1)) base st = Some st'" for base st st'
    using eff [OF that] by simp
qed (use n ok in \<open>auto simp: c' nth_nop_out dead_byte_nop pool_extends_refl\<close>)


lemma replace_pattern_refines:
  assumes "code_ok c" and "i \<in> starts (ch_code c)"
    and "(ch_code c ! i, ch_code c ! (i + 1), r) \<in> set k_replace_first_patterns"
    and "i + 1 < length (ch_code c)" "i + 1 \<notin> collect_jump_targets (ch_code c)"
  shows "refines env c (c\<lparr>ch_code := nop_out ((ch_code c)[i := r]) (i + 1) 1\<rparr>)" (is "refines env c ?c'")
proof (rule replace_refines [OF assms(1,2) _ _ assms(4,5) refl])
  have r: "ch_code ?c' ! i = r" using assms(4) by (simp add: nth_nop_out)
  show "ch_code c ! i \<in> set simple_ops" "ch_code c ! (i + 1) \<in> set simple_ops" "r \<in> set simple_ops"
    using assms(3) by (auto simp: k_replace_first_patterns_def simple_ops_def)
  show "effect env ?c' i base st = Some st'"
    if "then_effect (effect env c i) (effect env c (i + 1)) base st = Some st'" for base st st'
    using that assms(3) r unfolding effect_def [of env ?c'] effect_def [of env c] then_effect_def Let_def
    by (auto simp: k_replace_first_patterns_def pushv_def on_top_def on_two_def split: if_splits)
qed

lemma cancel_pattern_refines:
  assumes "code_ok c" and "i \<in> starts (ch_code c)"
    and "(ch_code c ! i, ch_code c ! (i + 1)) \<in> set k_cancel_pair_patterns"
    and "i + 1 < length (ch_code c)" "i + 1 \<notin> collect_jump_targets (ch_code c)"
  shows "refines env c (c\<lparr>ch_code := nop_out (ch_code c) i 2\<rparr>)"
proof (rule cancel_refines [OF assms(1,2) _ _ assms(4,5) refl])
  show "ch_code c ! i \<in> set simple_ops" "ch_code c ! (i + 1) \<in> set simple_ops"
    using assms(3) by (auto simp: k_cancel_pair_patterns_def simple_ops_def)
  have swap: "st' = st" if "swap_top st = Some st1" "swap_top st1 = Some st'" for st st1 st'
    using that two_on_stack [of st] by (auto simp: swap_top_def butlast_append split: if_splits)
  show "st' = st" if "then_effect (effect env c i) (effect env c (i + 1)) base st = Some st'" for base st st'
    using that assms(3) swap unfolding effect_def then_effect_def Let_def
    by (auto simp: k_cancel_pair_patterns_def pushv_def split: if_splits option.splits)
qed

section \<open>Structural patterns\<close>

lemma int_to_number_refines:
  assumes "code_ok c" and "i \<in> starts (ch_code c)"
    and "ch_code c ! i = Op_IntToNumber" "ch_code c ! (i + 1) = Op_IntToNumber"
    and "i + 1 < length (ch_code c)" "i + 1 \<notin> collect_jump_targets (ch_code c)"
  shows "refines env c (c\<lparr>ch_code := nop_out (ch_code c) (i + 1) 1\<rparr>)" (is "refines env c ?c'")
proof (rule replace_refines [OF assms(1,2) _ _ assms(5,6), where r = Op_IntToNumber])
  show "?c' = c\<lparr>ch_code := nop_out ((ch_code c)[i := Op_IntToNumber]) (i + 1) 1\<rparr>"
    using assms(3) list_update_id [of "ch_code c" i] by simp
  have "to_number env (to_number env v) = to_number env v" for v
    by (cases v) (simp_all add: to_number_def)
  then show "effect env ?c' i base st = Some st'"
    if "then_effect (effect env c i) (effect env c (i + 1)) base st = Some st'" for base st st'
    using that assms(3-5) unfolding effect_def [of env ?c'] effect_def [of env c] then_effect_def Let_def
    by (auto simp: nth_nop_out on_top_def split: if_splits)
qed (use assms in \<open>auto simp: simple_ops_def\<close>)

lemma nop_out_read_u16:
  "x + 2 \<le> start \<Longrightarrow> x + 2 \<le> length code \<Longrightarrow> opt_read_u16 (nop_out code start len) x = opt_read_u16 code x"
  by (simp add: opt_read_u16_def read_u16_be_def nth_nop_out)

lemma write_read_u16:
  "x + 2 \<le> length code \<Longrightarrow> opt_read_u16 (opt_write_u16 code x v) x = v"
  by (simp add: opt_read_u16_def opt_write_u16_def)

lemma nth_write_u16: "y < x \<or> x + 2 \<le> y \<Longrightarrow> x + 2 \<le> length code \<Longrightarrow> y < length code \<Longrightarrow> opt_write_u16 code x v ! y = code ! y"
  by (simp add: opt_write_u16_def nth_patch_u16_be)

text \<open>A constant and an operation on it, when the result is written over the constant's index.\<close>

lemma must_constant:
  assumes "code_ok c" and "i \<in> starts (ch_code c)" and "ch_code c ! i = Op_Constant"
  shows "must_run env (f\<lparr>cf_chunk := c\<rparr>) i (i + 3)
    (\<lambda>_. pushv (cp_values (ch_constants c) ! unat (opt_read_u16 (ch_code c) (i + 1))))"
  using code_okD(1,3) [OF assms(1,2)] assms(3) constant_size [OF assms(3)]
    constant_step [of "f\<lparr>cf_chunk := c\<rparr>" i env]
  by (intro must_run_step) simp_all

lemma fold_one_refines:
  assumes ok: "code_ok c" and i: "i \<in> starts (ch_code c)" and ops: "ch_code c ! i = Op_Constant"
    and n: "i + 3 < length (ch_code c)" "i + 3 \<notin> collect_jump_targets (ch_code c)"
    and folds: "folds env (ch_code c ! (i + 3)) [cp_values (ch_constants c) ! unat (opt_read_u16 (ch_code c) (i + 1))] v"
    and size: "instruction_size (ch_code c) (i + 3) = 1"
    and add: "add_constant c v = Inr (c1, idx)"
    and c': "c' = c1\<lparr>ch_code := nop_out (opt_write_u16 (ch_code c) (i + 1) idx) (i + 3) 1\<rparr>"
  shows "refines env c c'"
proof -
  let ?c = "ch_code c" and ?c' = "ch_code c'"
  note pool = pool_extends_add [OF ok add, of c']
  have first: "?c' ! i = Op_Constant" and read: "opt_read_u16 ?c' (i + 1) = idx"
    using n ops by (simp_all add: c' nth_nop_out nop_out_read_u16 write_read_u16 nth_write_u16)
  show ?thesis
  proof (rule pair_refines [OF ok i, where k = "i + 3" and e = "\<lambda>_. pushv v" and e' = "\<lambda>_. pushv v"])
    show "i + 3 = i + instruction_size ?c i" using constant_size [OF ops] by simp
    show "i + 4 = i + 3 + instruction_size ?c (i + 3)" using size by simp
    show "i + 3 = i \<or> i + 3 = i + instruction_size ?c' i" using constant_size [OF first] by simp
    show "must_run env (f\<lparr>cf_chunk := c\<rparr>) i (i + 4) (\<lambda>_. pushv v)" for f
    proof -
      have "must_run env (f\<lparr>cf_chunk := c\<rparr>) i (i + 3 + 1) (\<lambda>_. pushv v)"
        using folds n by (intro must_run_fold [OF must_constant [OF ok i ops]]) (auto simp: pushv_def split: if_splits)
      then show ?thesis by (simp add: add.commute)
    qed
    show "can_run env (f\<lparr>cf_chunk := c'\<rparr>) i (i + 3) (\<lambda>_. pushv v)" for f
      using constant_step [of "f\<lparr>cf_chunk := c'\<rparr>" i env] first read pool n
      by (intro can_run_step) (simp add: c')
    show "\<not> is_jump (?c' ! i) \<and> (?c' ! i = Op_Constant \<longrightarrow>
        unat (opt_read_u16 ?c' (i + 1)) < cp_size (ch_constants c'))"
      using first read pool is_jump_plain by (simp add: c')
    show "?c' ! x = ?c ! x" if "x < i \<or> i + 4 \<le> x" "x < length ?c" for x
      using that n by (auto simp: c' nth_nop_out nth_write_u16)
  qed (use n pool in \<open>auto simp: c' dead_byte_nop\<close>)
qed

lemma int_to_number_folds: "folds env Op_IntToNumber [VInteger n] (VNumber (fp_of_int (env_fpu env) n))"
  by (auto simp: folds_def frame_handler_def modelled_handler_def op_int_to_number_def unary_op_one)

lemma must_slot_chunk:
  assumes "code_ok c" and "s \<in> starts (ch_code c)" and "ch_code c ! s \<in> set slot_ops"
  shows "must_run env (f\<lparr>cf_chunk := c\<rparr>) s (s + 3) (effect env c s)"
  using must_slot [of "f\<lparr>cf_chunk := c\<rparr>" s env] code_okD(1) [OF assms(1,2)] op_sizes(2) [OF assms(3)] assms(3)
    exit_not_simple by simp

lemma can_slot_chunk:
  assumes "ch_code c ! s \<in> set slot_ops" and "s + 3 \<le> length (ch_code c)"
  shows "can_run env (f\<lparr>cf_chunk := c\<rparr>) s (s + 3) (effect env c s)"
  using can_slot [of "f\<lparr>cf_chunk := c\<rparr>" s env] assms by simp

lemma can_simple_chunk:
  assumes "ch_code c ! s \<in> set simple_ops" and "s < length (ch_code c)"
  shows "can_run env (f\<lparr>cf_chunk := c\<rparr>) s (s + 1) (effect env c s)"
  using can_simple [of "f\<lparr>cf_chunk := c\<rparr>" s env] assms by simp

lemma set_get_refines:
  assumes ok: "code_ok c" and i: "i \<in> starts (ch_code c)"
    and ops: "ch_code c ! i = Op_SetLocal" "ch_code c ! (i + 3) = Op_GetLocal"
    and n: "i + 5 < length (ch_code c)" "i + 3 \<notin> collect_jump_targets (ch_code c)"
    and slots: "opt_read_u16 (ch_code c) (i + 1) = opt_read_u16 (ch_code c) (i + 4)"
    and c': "c' = c\<lparr>ch_code := nop_out ((ch_code c)[i + 3 := Op_Dup]) (i + 4) 2\<rparr>"
  shows "refines env c c'"
proof -
  let ?c = "ch_code c" and ?c' = "ch_code c'"
  have slot: "?c ! i \<in> set slot_ops" "?c ! (i + 3) \<in> set slot_ops" using ops by (simp_all add: slot_ops_def)
  note sizes = op_sizes(2) [OF slot(1)] op_sizes(2) [OF slot(2)]
  have s3: "i + 3 \<in> starts ?c" using i n sizes walks_next [of ?c 0 i] by simp
  have nth: "?c' ! i = Op_SetLocal" "?c' ! (i + 3) = Op_Dup" using n ops by (simp_all add: c' nth_nop_out)
  have read: "opt_read_u16 ?c' (i + 1) = opt_read_u16 ?c (i + 1)"
    using n by (simp add: c' nop_out_read_u16) (simp add: opt_read_u16_def read_u16_be_def)
  have size': "instruction_size ?c' i = 3" "instruction_size ?c' (i + 3) = 1"
    using op_sizes [of ?c' i] op_sizes(1) [of ?c' "i + 3"] nth by (simp_all add: slot_ops_def simple_ops_def)
  have len: "length ?c' = length ?c" by (simp add: c')
  have dead: "is_dead_byte (?c' ! x)" if "i + 4 \<le> x" "x < i + 6" for x
    using that n by (simp add: c' dead_byte_nop)
  have walk: "walks ?c i (i + 6)"
    using i n sizes walks_one [of i ?c] walks_next [of ?c i "i + 3"] by (simp add: add.commute)
  have walk': "walks ?c' i (i + 4)"
    using i n size' len walks_one [of i ?c'] walks_next [of ?c' i "i + 3"] by (simp add: add.commute)
  show ?thesis
  proof (rule rewrite_refines [OF ok i walk _ _ len _ _ _ walk'])
    show "?c' ! x = ?c ! x" if "x < i \<or> i + 6 \<le> x" "x < length ?c" for x
      using that n by (auto simp: c' nth_nop_out)
    show "s \<notin> collect_jump_targets ?c" if "walks ?c i s" "i < s" "s < i + 6" for s
      using walks_first [OF walks_second [OF that(1,2)]] that(3) sizes n(2) by simp
    show "\<not> is_jump (?c' ! s) \<and> (?c' ! s = Op_Constant \<longrightarrow> unat (opt_read_u16 ?c' (s + 1)) < cp_size (ch_constants c'))"
      if "walks ?c' i s" "s < i + 4" for s
    proof (cases "s = i")
      case True
      with nth is_jump_plain show ?thesis by (simp add: slot_ops_def)
    next
      case False
      with that walks_le [OF that(1)] walks_first [OF walks_second [OF that(1)]] size' have "s = i + 3" by simp
      with nth is_jump_plain show ?thesis by (simp add: simple_ops_def)
    qed
    fix f
    have must: "must_run env (f\<lparr>cf_chunk := c\<rparr>) i (i + 3 + 3) (then_effect (effect env c i) (effect env c (i + 3)))"
      by (rule must_run_trans [OF must_slot_chunk [OF ok i slot(1)] must_slot_chunk [OF ok s3 slot(2)]])
    have can: "can_run env (f\<lparr>cf_chunk := c'\<rparr>) i (i + 6)
        (then_effect (then_effect (effect env c' i) (effect env c' (i + 3))) (\<lambda>_. Some))"
    proof (rule can_run_trans [OF can_run_trans])
      show "can_run env (f\<lparr>cf_chunk := c'\<rparr>) i (i + 3) (effect env c' i)"
        using nth n len by (intro can_slot_chunk) (simp_all add: slot_ops_def)
      show "can_run env (f\<lparr>cf_chunk := c'\<rparr>) (i + 3) (i + 3 + 1) (effect env c' (i + 3))"
        using nth n len by (intro can_simple_chunk) (simp_all add: simple_ops_def)
      show "can_run env (f\<lparr>cf_chunk := c'\<rparr>) (i + 3 + 1) (i + 6) (\<lambda>_. Some)"
        using dead n len by (intro can_run_dead) simp_all
    qed
    define w where "w = unat (opt_read_u16 ?c (i + 1))"
    have slots': "opt_read_u16 ?c (4 + i) = opt_read_u16 ?c (i + 1)" using slots by (simp add: add.commute)
    have effects: "effect env c i base = set_slot (base + w)" "effect env c (i + 3) base = get_slot (base + w)"
      "effect env c' i base = set_slot (base + w)"
      "effect env c' (i + 3) base st = (if st = [] then None else pushv (last st) st)" for base st
      using ops nth slots' read by (simp_all add: effect_def fun_eq_iff w_def)
    have top: "last (st[p := last st]) = last st" if "st \<noteq> []" for p and st :: "val list"
      using that by (cases "p = length st - 1") (simp_all add: last_list_update last_conv_nth)
    show "sim_at env (f\<lparr>cf_chunk := c\<rparr>) (f\<lparr>cf_chunk := c'\<rparr>) (starts ?c - {s. walks ?c i s \<and> i < s \<and> s < i + 6}) id i"
    proof (rule sim_at_window_runs [OF i walk _ can])
      show "must_run env (f\<lparr>cf_chunk := c\<rparr>) i (i + 6) (then_effect (effect env c i) (effect env c (i + 3)))"
        using must by (simp add: add.commute)
      show "then_effect (then_effect (effect env c' i) (effect env c' (i + 3))) (\<lambda>_. Some) base st = Some st'"
        if "then_effect (effect env c i) (effect env c (i + 3)) base st = Some st'" for base st st'
        using that top by (auto simp: effects then_effect_def set_slot_def get_slot_def split: if_splits)
    qed
  qed (use n dead ok in \<open>auto simp: c' pool_extends_refl\<close>)
qed

lemma return_size: "code ! s = Op_Return \<Longrightarrow> instruction_size code s = 1"
proof -
  have "opcode_base_size Op_Return = 1" by code_simp
  then show "code ! s = Op_Return \<Longrightarrow> instruction_size code s = 1" by (simp add: instruction_size_def)
qed

lemma get_local_return_size: "code ! s = Op_GetLocalReturn \<Longrightarrow> instruction_size code s = 3"
proof -
  have "opcode_base_size Op_GetLocalReturn = 3" by code_simp
  then show "code ! s = Op_GetLocalReturn \<Longrightarrow> instruction_size code s = 3" by (simp add: instruction_size_def)
qed

lemma return_exits:
  assumes "leaves_after env n (reloc f s vm) out" and "ch_code (cf_chunk f) ! s = Op_Return"
  shows "op_return (reloc f (s + 1) vm) = Inr out"
  using assms(1)
proof (cases rule: leaves_after.cases)
  case after_exit
  with assms(2) show ?thesis by (auto simp: frame_exit_def Let_def split: if_splits)
next
  case (after_step vm1 m)
  with assms(2) show ?thesis
    by (auto simp: frame_step_def frame_handler_def modelled_handler_def is_dead_byte_def k_dead_byte_def split: if_splits)
qed

text \<open>Loading a local and returning it is returning it.\<close>

lemma op_return_local:
  assumes "op_return (reloc f s (vm\<lparr>stack := stack vm @ [stack vm ! p]\<rparr>)) = Inr out"
    and "p = frame_base vm + unat (opt_read_u16 (ch_code (cf_chunk g)) (i + 1))" and "p < length (stack vm)"
    and "i + 3 \<le> length (ch_code (cf_chunk g))"
  shows "op_get_local_return (reloc g (i + 1) vm) = Inr out"
  using assms(1-3) unfolding op_get_local_return_def operand_read [OF assms(4)]
  by (auto simp: op_return_def pop_def complete_return_def get_local_slot_def frame_slot_index_def Let_def
      and_then_Inr reloc_def push_def discard_frames_from_def split: if_splits)

lemma get_return_refines:
  assumes ok: "code_ok c" and i: "i \<in> starts (ch_code c)"
    and ops: "ch_code c ! i = Op_GetLocal" "ch_code c ! (i + 3) = Op_Return"
    and n: "i + 3 < length (ch_code c)" "i + 3 \<notin> collect_jump_targets (ch_code c)"
    and c': "c' = c\<lparr>ch_code := nop_out ((ch_code c)[i := Op_GetLocalReturn]) (i + 3) 1\<rparr>"
  shows "refines env c c'"
proof -
  let ?c = "ch_code c" and ?c' = "ch_code c'"
  have slot: "?c ! i \<in> set slot_ops" using ops by (simp add: slot_ops_def)
  have first: "?c' ! i = Op_GetLocalReturn" using n by (simp add: c' nth_nop_out)
  have read: "opt_read_u16 ?c' (i + 1) = opt_read_u16 ?c (i + 1)"
    using n by (simp add: c' nop_out_read_u16) (simp add: opt_read_u16_def read_u16_be_def)
  show ?thesis
  proof (rule rewrite_pair [OF ok i, where k = "i + 3"])
    show "i + 3 = i + instruction_size ?c i" using op_sizes(2) [OF slot] by simp
    show "i + 4 = i + 3 + instruction_size ?c (i + 3)" using return_size [OF ops(2)] by simp
    show "i + 3 = i \<or> i + 3 = i + instruction_size ?c' i" using get_local_return_size [OF first] by simp
    show "\<not> is_jump (?c' ! i) \<and> (?c' ! i = Op_Constant \<longrightarrow>
        unat (opt_read_u16 ?c' (i + 1)) < cp_size (ch_constants c'))"
      using first is_jump_plain by simp
    fix f
    show "sim_at env (f\<lparr>cf_chunk := c\<rparr>) (f\<lparr>cf_chunk := c'\<rparr>) (starts ?c - {s. walks ?c i s \<and> i < s \<and> s < i + 4}) id i"
      unfolding sim_at_def
    proof (intro allI impI disjI1)
      fix vm n' out
      let ?p = "frame_base vm + unat (opt_read_u16 ?c (i + 1))"
      assume "leaves_after env n' (reloc (f\<lparr>cf_chunk := c\<rparr>) i vm) out"
      with must_slot_chunk [OF ok i slot, of env f] obtain m st where m:
        "effect env c i (frame_base vm) (stack vm) = Some st"
        "leaves_after env m (reloc (f\<lparr>cf_chunk := c\<rparr>) (i + 3) (vm\<lparr>stack := st\<rparr>)) out"
        unfolding must_run_def by blast
      then have st: "st = stack vm @ [stack vm ! ?p]" "?p < length (stack vm)"
        using ops by (auto simp: effect_def get_slot_def pushv_def Let_def split: if_splits)
      have "op_get_local_return (reloc (f\<lparr>cf_chunk := c'\<rparr>) (i + 1) vm) = Inr out"
        using op_return_local [OF return_exits [OF m(2), unfolded st(1)], of "f\<lparr>cf_chunk := c'\<rparr>" i] ops(2) st(2) read n
        by (simp add: c')
      then have "frame_exit (reloc (f\<lparr>cf_chunk := c'\<rparr>) i vm) = Some out"
        using first n by (simp add: frame_exit_def c')
      then show "leaves env (reloc (f\<lparr>cf_chunk := c'\<rparr>) (id i) vm) out" by (simp add: leaves_exit)
    qed
  qed (use n ok in \<open>auto simp: c' nth_nop_out pool_extends_refl\<close>)
qed

lemma dup_set_refines:
  assumes ok: "code_ok c" and i: "i \<in> starts (ch_code c)"
    and ops: "ch_code c ! i = Op_Dup" "ch_code c ! (i + 1) = Op_SetLocalPop"
    and n: "i + 3 < length (ch_code c)" "i + 1 \<notin> collect_jump_targets (ch_code c)"
    and c': "c' = c\<lparr>ch_code := nop_out ((ch_code c)[i := Op_SetLocal, i + 1 := ch_code c ! (i + 2),
       i + 2 := ch_code c ! (i + 3)]) (i + 3) 1\<rparr>"
  shows "refines env c c'"
proof -
  let ?c = "ch_code c" and ?c' = "ch_code c'"
  have plain: "?c ! i \<in> set simple_ops" "?c ! (i + 1) \<in> set slot_ops" using ops by (simp_all add: slot_ops_def simple_ops_def)
  note sizes = op_sizes(1) [OF plain(1)] op_sizes(2) [OF plain(2)]
  have s1: "i + 1 \<in> starts ?c" using i n sizes walks_next [of ?c 0 i] by simp
  have first: "?c' ! i = Op_SetLocal" using n by (simp add: c' nth_nop_out)
  define w where "w = unat (opt_read_u16 ?c (i + 2))"
  have read: "unat (opt_read_u16 ?c' (i + 1)) = w"
    using n by (simp add: c' nop_out_read_u16) (simp add: w_def opt_read_u16_def read_u16_be_def numeral_3_eq_3)
  have effects: "effect env c i base st = (if st = [] then None else pushv (last st) st)"
    "effect env c (i + 1) base st = set_slot_pop (base + w) st" "effect env c' i base st = set_slot (base + w) st" for base st
    using ops first read by (simp_all add: effect_def w_def)
  have slot: "?c' ! i \<in> set slot_ops" using first by (simp add: slot_ops_def)
  show ?thesis
  proof (rule pair_refines [OF ok i, where k = "i + 3" and e = "then_effect (effect env c i) (effect env c (i + 1))"
        and e' = "effect env c' i"])
    show "i + 1 = i + instruction_size ?c i" "i + 4 = i + 1 + instruction_size ?c (i + 1)" using sizes by simp_all
    show "i + 3 = i \<or> i + 3 = i + instruction_size ?c' i" using op_sizes(2) [OF slot] by simp
    show "must_run env (f\<lparr>cf_chunk := c\<rparr>) i (i + 4) (then_effect (effect env c i) (effect env c (i + 1)))" for f
    proof -
      have "must_run env (f\<lparr>cf_chunk := c\<rparr>) i (i + 1) (effect env c i)"
        using must_simple [of "f\<lparr>cf_chunk := c\<rparr>" i env] plain(1) n exit_not_simple by simp
      from must_run_trans [OF this must_slot_chunk [OF ok s1 plain(2)]] show ?thesis by (simp add: add.commute)
    qed
    show "can_run env (f\<lparr>cf_chunk := c'\<rparr>) i (i + 3) (effect env c' i)" for f
      using slot n by (intro can_slot_chunk) (simp_all add: c')
    show "effect env c' i base st = Some st'"
      if "then_effect (effect env c i) (effect env c (i + 1)) base st = Some st'" for base st st'
      using that unfolding then_effect_def effects
      by (auto simp: pushv_def set_slot_def set_slot_pop_def split: if_splits)
    show "\<not> is_jump (?c' ! i) \<and> (?c' ! i = Op_Constant \<longrightarrow>
        unat (opt_read_u16 ?c' (i + 1)) < cp_size (ch_constants c'))"
      using first slot is_jump_plain by simp
  qed (use n ok in \<open>auto simp: c' nth_nop_out pool_extends_refl\<close>)
qed

section \<open>The pass\<close>

text \<open>One turn: the new chunk refines the old one and the next index is at an instruction again.\<close>

definition turn_ok :: "vm_env \<Rightarrow> chunk \<Rightarrow> chunk \<Rightarrow> nat \<Rightarrow> bool" where
  "turn_ok env c c' i' \<longleftrightarrow> refines env c c' \<and> walks (ch_code c') 0 i'"

lemma turn_okI:
  assumes "refines env c c'" and "i \<in> starts (ch_code c)" and "walks (ch_code c') i i'"
    and "\<And>x. x < i \<Longrightarrow> ch_code c' ! x = ch_code c ! x"
  shows "turn_ok env c c' i'"
  using assms walks_cong [of "ch_code c" 0 i "ch_code c'"]
  by (auto simp: turn_ok_def refines_def intro: walks_trans)

lemma turn_ok_skip: "code_ok c \<Longrightarrow> i \<in> starts (ch_code c) \<Longrightarrow> turn_ok env c c (i + instruction_size (ch_code c) i)"
  by (auto simp: turn_ok_def refines_refl intro: walks_next)

lemma peephole_structural_cases:
  assumes "peephole_structural fp c i n = Some (Inr (c', e, i'))"
  obtains (promote2) "(ch_code c) ! i = Op_IntToNumber" "(ch_code c) ! n = Op_IntToNumber"
      "c' = c\<lparr>ch_code := nop_out (ch_code c) n 1\<rparr>" "i' = n + 1"
    | (promote) c1 idx where "(ch_code c) ! i = Op_Constant" "(ch_code c) ! n = Op_IntToNumber" "is_integer (cp_values (ch_constants c) ! unat (opt_read_u16 (ch_code c) (i + 1)))"
      "add_constant c (VNumber (as_double (fp) (cp_values (ch_constants c) ! unat (opt_read_u16 (ch_code c) (i + 1))))) = Inr (c1, idx)"
      "c' = c1\<lparr>ch_code := nop_out (opt_write_u16 (ch_code c) (i + 1) idx) n 1\<rparr>" "i' = i + 3"
    | (setget) "(ch_code c) ! i = Op_SetLocal" "(ch_code c) ! n = Op_GetLocal" "i + 5 < length (ch_code c)"
      "opt_read_u16 (ch_code c) (i + 1) = opt_read_u16 (ch_code c) (n + 1)"
      "c' = c\<lparr>ch_code := nop_out ((ch_code c)[i + 3 := Op_Dup]) (i + 4) 2\<rparr>" "i' = i + 4"
    | (getret) "(ch_code c) ! i = Op_GetLocal" "(ch_code c) ! n = Op_Return"
      "c' = c\<lparr>ch_code := nop_out ((ch_code c)[i := Op_GetLocalReturn]) n 1\<rparr>" "i' = i + 3"
    | (dupset) "(ch_code c) ! i = Op_Dup" "(ch_code c) ! n = Op_SetLocalPop" "i + 3 < length (ch_code c)"
      "c' = c\<lparr>ch_code := nop_out ((ch_code c)[i := Op_SetLocal, i + 1 := (ch_code c) ! (n + 1), i + 2 := (ch_code c) ! (n + 2)]) (i + 3) 1\<rparr>" "i' = i + 3"
proof -
  let ?c = "ch_code c" and ?v = "cp_values (ch_constants c) ! unat (opt_read_u16 (ch_code c) (i + 1))"
  let ?m = "add_constant c (VNumber (as_double fp ?v))"
  define promoted where "promoted = (case ?m of Inl e \<Rightarrow> Inl e | Inr (c', new_idx) \<Rightarrow>
     Inr (c'\<lparr>ch_code := nop_out (opt_write_u16 ?c (i + 1) new_idx) n 1\<rparr>, 1 :: nat, i + 3))"
  note step = assms [unfolded peephole_structural_def Let_def, folded promoted_def]
  have "(?c ! i = Op_IntToNumber \<and> ?c ! n = Op_IntToNumber \<and>
      (c', e, i') = (c\<lparr>ch_code := nop_out ?c n 1\<rparr>, 1, n + 1)) \<or>
    (?c ! i = Op_Constant \<and> ?c ! n = Op_IntToNumber \<and> is_integer ?v \<and> promoted = Inr (c', e, i')) \<or>
    (?c ! i = Op_SetLocal \<and> ?c ! n = Op_GetLocal \<and> i + 5 < length ?c \<and>
      opt_read_u16 ?c (i + 1) = opt_read_u16 ?c (n + 1) \<and>
      (c', e, i') = (c\<lparr>ch_code := nop_out (?c[i + 3 := Op_Dup]) (i + 4) 2\<rparr>, 2, i + 4)) \<or>
    (?c ! i = Op_GetLocal \<and> ?c ! n = Op_Return \<and>
      (c', e, i') = (c\<lparr>ch_code := nop_out (?c[i := Op_GetLocalReturn]) n 1\<rparr>, 1, i + 3)) \<or>
    (?c ! i = Op_Dup \<and> ?c ! n = Op_SetLocalPop \<and> i + 3 < length ?c \<and>
      (c', e, i') = (c\<lparr>ch_code := nop_out (?c[i := Op_SetLocal, i + 1 := ?c ! (n + 1), i + 2 := ?c ! (n + 2)]) (i + 3) 1\<rparr>,
        1, i + 3))"
    using step by (simp only: option.inject sum.inject split: if_split_asm) simp_all
  moreover have "\<exists>c1 idx. ?m = Inr (c1, idx) \<and>
      (c', e, i') = (c1\<lparr>ch_code := nop_out (opt_write_u16 ?c (i + 1) idx) n 1\<rparr>, 1, i + 3)"
    if "promoted = Inr (c', e, i')"
    using that by (cases ?m) (auto simp: promoted_def)
  ultimately show thesis using that by blast
qed

lemma peephole_structural_ok:
  assumes ok: "code_ok c" and i: "i \<in> starts (ch_code c)" and n: "n = i + instruction_size (ch_code c) i"
    and ni: "n < length (ch_code c)" "n \<notin> collect_jump_targets (ch_code c)"
    and step: "peephole_structural (env_fpu env) c i n = Some (Inr (c', e, i'))"
  shows "turn_ok env c c' i'"
proof -
  let ?c = "ch_code c" and ?idx = "unat (opt_read_u16 (ch_code c) (i + 1))"
  let ?v = "cp_values (ch_constants c) ! unat (opt_read_u16 (ch_code c) (i + 1))"
  from step show ?thesis
  proof (cases rule: peephole_structural_cases)
    case promote2
    then have n1: "n = i + 1" using n op_sizes(1) [of ?c i] by (simp add: simple_ops_def)
    have ops': "ch_code c' ! i = Op_IntToNumber" "is_dead_byte (ch_code c' ! (i + 1))"
      using promote2 ni n1 by (simp_all add: nth_nop_out)
    show ?thesis
    proof (rule turn_okI [OF _ i])
      show "refines env c c'"
        using int_to_number_refines [OF ok i, of env] promote2 ni n1 by simp
      show "walks (ch_code c') i i'"
        using walks_one [of i "ch_code c'"] walks_next [of "ch_code c'" i "i + 1"] ops' op_sizes(1) [of "ch_code c'" i]
          promote2 ni n1 by (simp add: simple_ops_def)
    qed (use promote2 n1 i in \<open>auto simp: nth_nop_out\<close>)
  next
    case (promote c1 idx)
    then have n3: "n = i + 3" using n constant_size [of ?c i] by simp
    from promote obtain k where k: "?v = VInteger k" by (cases ?v) auto
    have ops': "ch_code c' ! i = Op_Constant" using promote ni n3 by (simp add: nth_nop_out nth_write_u16)
    show ?thesis
    proof (rule turn_okI [OF _ i])
      show "refines env c c'"
      proof (rule fold_one_refines [OF ok i promote(1) _ _ _ _ promote(4)])
        show "folds env (?c ! (i + 3)) [?v] (VNumber (as_double (env_fpu env) ?v))"
          using int_to_number_folds promote(2) k n3 by simp
        show "instruction_size ?c (i + 3) = 1" using op_sizes(1) [of ?c "i + 3"] promote(2) n3 by (simp add: simple_ops_def)
      qed (use promote ni n3 in auto)
      show "walks (ch_code c') i i'"
        using walks_one [of i "ch_code c'"] constant_size [OF ops'] promote i by simp
    qed (use promote n3 ni in \<open>auto simp: nth_nop_out nth_write_u16\<close>)
  next
    case setget
    then have n3: "n = i + 3" using n op_sizes(2) [of ?c i] by (simp add: slot_ops_def)
    have ops': "ch_code c' ! i = Op_SetLocal" "ch_code c' ! (i + 3) = Op_Dup"
      using setget n3 by (simp_all add: nth_nop_out)
    show ?thesis
    proof (rule turn_okI [OF _ i])
      have "n + 1 = i + 4" using n3 by simp
      with setget(4) have slots: "opt_read_u16 ?c (i + 1) = opt_read_u16 ?c (i + 4)" by (simp only:)
      show "refines env c c'"
        using set_get_refines [OF ok i setget(1) _ setget(3) _ slots setget(5), of env] setget(2) ni n3 by simp
      show "walks (ch_code c') i i'"
        using walks_one [of i "ch_code c'"] walks_next [of "ch_code c'" i "i + 3"] ops' op_sizes [of "ch_code c'" i]
          op_sizes(1) [of "ch_code c'" "i + 3"] setget by (simp add: simple_ops_def slot_ops_def add.commute)
    qed (use setget in \<open>auto simp: nth_nop_out\<close>)
  next
    case getret
    then have n3: "n = i + 3" using n op_sizes(2) [of ?c i] by (simp add: slot_ops_def)
    have ops': "ch_code c' ! i = Op_GetLocalReturn" using getret n3 ni by (simp add: nth_nop_out)
    show ?thesis
    proof (rule turn_okI [OF _ i])
      show "refines env c c'" using get_return_refines [OF ok i getret(1), of c' env] getret ni n3 by simp
      show "walks (ch_code c') i i'"
        using walks_one [of i "ch_code c'"] get_local_return_size [OF ops'] getret i by simp
    qed (use getret n3 ni in \<open>auto simp: nth_nop_out\<close>)
  next
    case dupset
    then have n1: "n = i + 1" using n op_sizes(1) [of ?c i] by (simp add: simple_ops_def)
    have ops': "ch_code c' ! i = Op_SetLocal" using dupset n1 ni by (simp add: nth_nop_out)
    show ?thesis
    proof (rule turn_okI [OF _ i])
      show "refines env c c'"
        using dup_set_refines [OF ok i dupset(1) _ dupset(3), of c' env] dupset ni n1
        by (simp add: numeral_2_eq_2 numeral_3_eq_3)
      show "walks (ch_code c') i i'"
        using walks_one [of i "ch_code c'"] op_sizes(2) [of "ch_code c'" i] ops' dupset i by (simp add: slot_ops_def)
    qed (use dupset n1 ni in \<open>auto simp: nth_nop_out\<close>)
  qed
qed

lemma simple_size_at:
  "(ch_code c ! i, a, b) \<in> set k_replace_first_patterns \<or> (ch_code c ! i, a) \<in> set k_cancel_pair_patterns \<Longrightarrow>
   instruction_size (ch_code c) i = 1"
  by (rule op_sizes(1)) (auto simp: k_replace_first_patterns_def k_cancel_pair_patterns_def simple_ops_def)

lemma replace_turn_ok:
  assumes ok: "code_ok c" and i: "i \<in> starts (ch_code c)"
    and pat: "(ch_code c ! i, ch_code c ! (i + 1), r) \<in> set k_replace_first_patterns"
    and n: "i + 1 < length (ch_code c)" "i + 1 \<notin> collect_jump_targets (ch_code c)"
  shows "turn_ok env c (c\<lparr>ch_code := nop_out ((ch_code c)[i := r]) (i + 1) 1\<rparr>) (i + 1)"
proof (rule turn_okI [OF replace_pattern_refines [OF assms] i])
  let ?c' = "nop_out ((ch_code c)[i := r]) (i + 1) 1"
  have "?c' ! i = r" using n by (simp add: nth_nop_out)
  then have "instruction_size ?c' i = 1"
    using pat by (intro op_sizes(1)) (auto simp: k_replace_first_patterns_def simple_ops_def)
  then show "walks (ch_code (c\<lparr>ch_code := ?c'\<rparr>)) i (i + 1)" using walks_one [of i ?c'] n by simp
qed (use n in \<open>auto simp: nth_nop_out\<close>)

lemma cancel_turn_ok:
  assumes ok: "code_ok c" and i: "i \<in> starts (ch_code c)"
    and pat: "(ch_code c ! i, ch_code c ! (i + 1)) \<in> set k_cancel_pair_patterns"
    and n: "i + 1 < length (ch_code c)" "i + 1 \<notin> collect_jump_targets (ch_code c)"
  shows "turn_ok env c (c\<lparr>ch_code := nop_out (ch_code c) i 2\<rparr>) (i + 2)"
proof (rule turn_okI [OF cancel_pattern_refines [OF assms] i])
  show "walks (ch_code (c\<lparr>ch_code := nop_out (ch_code c) i 2\<rparr>)) i (i + 2)"
    using n by (intro walks_dead) (simp_all add: dead_byte_nop)
qed (use n in \<open>auto simp: nth_nop_out\<close>)

lemma peephole_step_ok:
  assumes ok: "code_ok c" and i: "i \<in> starts (ch_code c)" and T: "collect_jump_targets (ch_code c) \<subseteq> T"
    and step: "peephole_step (env_fpu env) T c i = Some (Inr (c', e, i'))"
  shows "turn_ok env c c' i'"
proof -
  let ?c = "ch_code c" and ?n = "i + instruction_size (ch_code c) i"
  let ?find = "find (\<lambda>(first, second, _). ?c ! i = first \<and> ?c ! ?n = second) k_replace_first_patterns"
  let ?cancel = "list_ex (\<lambda>(first, second). ?c ! i = first \<and> ?c ! ?n = second) k_cancel_pair_patterns"
  note step = step [unfolded peephole_step_def Let_def]
  from step have inside: "?n < length ?c" by (auto split: if_split_asm)
  show ?thesis
  proof (cases "?n \<in> T")
    case True
    with step inside have "c' = c" "i' = ?n" by auto
    with turn_ok_skip [OF ok i, of env] show ?thesis by simp
  next
    case False
    with T have target: "?n \<notin> collect_jump_targets ?c" by blast
    show ?thesis
    proof (cases ?find)
      case (Some entry)
      obtain a b r where entry: "entry = (a, b, r)" by (cases entry)
      from Some [unfolded find_Some_iff] entry have "(?c ! i, ?c ! ?n, r) \<in> set k_replace_first_patterns"
        by (auto simp: in_set_conv_nth)
      moreover from this have size: "instruction_size ?c i = 1" using simple_size_at by blast
      moreover from step inside False Some entry
      have "c' = c\<lparr>ch_code := nop_out (?c[i := r]) ?n 1\<rparr>" "i' = i + 1" by auto
      ultimately show ?thesis
        using replace_turn_ok [OF ok i, of r env] inside target by simp
    next
      case None
      show ?thesis
      proof (cases ?cancel)
        case True
        then have "(?c ! i, ?c ! ?n) \<in> set k_cancel_pair_patterns" by (auto simp: list_ex_iff)
        moreover from this have size: "instruction_size ?c i = 1" using simple_size_at by blast
        moreover from step inside False None True
        have "c' = c\<lparr>ch_code := nop_out ?c i 2\<rparr>" "i' = i + 2" by auto
        ultimately show ?thesis using cancel_turn_ok [OF ok i, of env] inside target by simp
      next
        case no_cancel: False
        show ?thesis
        proof (cases "peephole_structural (env_fpu env) c i ?n")
          case (Some r)
          with step inside False None no_cancel have "peephole_structural (env_fpu env) c i ?n = Some (Inr (c', e, i'))"
            by simp
          with peephole_structural_ok [OF ok i refl inside target] show ?thesis by blast
        next
          case structural: None
          with step inside False None no_cancel have "c' = c" "i' = ?n" by auto
          with turn_ok_skip [OF ok i, of env] show ?thesis by simp
        qed
      qed
    qed
  qed
qed

lemma peephole_loop_refines:
  assumes "peephole_loop (env_fpu env) T c i e = Inr (c', e')"
    and "code_ok c" and "walks (ch_code c) 0 i" and "collect_jump_targets (ch_code c) \<subseteq> T"
  shows "refines env c c'"
  using assms
proof (induction "env_fpu env" T c i e rule: peephole_loop.induct)
  case (1 T c i e)
  show ?case
  proof (cases "i + 1 < length (ch_code c)")
    case True
    then have i: "i \<in> starts (ch_code c)" using 1 by simp
    show ?thesis
    proof (cases "peephole_step (env_fpu env) T c i")
      case None
      with 1 True show ?thesis by (simp add: peephole_loop.simps refines_refl)
    next
      case (Some r)
      from 1(2) True Some obtain c1 n i1 where r: "r = Inr (c1, n, i1)"
        by (subst (asm) peephole_loop.simps) (auto split: sum.split_asm)
      with 1(2) True Some have loop: "peephole_loop (env_fpu env) T c1 i1 (e + n) = Inr (c', e')"
        by (subst (asm) peephole_loop.simps) simp
      have turn: "turn_ok env c c1 i1" using peephole_step_ok [OF 1(3) i 1(5)] Some r by simp
      then have "refines env c1 c'"
        using 1(1) [OF True Some r refl refl loop] 1(5) by (auto simp: turn_ok_def refines_def)
      with turn show ?thesis by (auto simp: turn_ok_def intro: refines_trans)
    qed
  next
    case False
    with 1 show ?thesis by (simp add: peephole_loop.simps refines_refl)
  qed
qed

lemma peephole_pass_refines:
  assumes "peephole_pass (env_fpu env) c = Inr (c', e)" and "code_ok c"
  shows "refines env c c'"
  using assms peephole_loop_refines [of env "collect_jump_targets (ch_code c)" c 0 0 c' e]
  by (auto simp: peephole_pass_def refines_refl walks_refl split: if_splits)

end
