(* ===== verification/Optimizer_Folds.thy ===== *)
theory Optimizer_Folds
  imports Optimizer_Peephole
begin

text \<open>
  The three folding passes: a negated constant, two constants and an operation, two constants and a
  comparison.  Each keeps code well formed and keeps what it does.
\<close>

section \<open>Sizes of the folded operations\<close>

lemma fold_operation_ops:
  assumes "try_fold_operation fp a b op = Some v"
  shows "op \<in> set binary_ops" and "\<not> (\<exists>t. v = VBool t)"
proof -
  consider (ints) x y where "a = VInteger x" "b = VInteger y"
    | (doubles) "is_numeric a" "is_numeric b" "\<not> (is_integer a \<and> is_integer b)"
    | (strings) x y where "a = VString x" "b = VString y"
    using assms by (cases a; cases b) (auto simp: try_fold_operation_def)
  then have "op \<in> set binary_ops \<and> \<not> (\<exists>t. v = VBool t)"
  proof cases
    case ints
    with assms show ?thesis by (auto simp: try_fold_operation_def binary_ops_def Let_def split: if_split_asm)
  next
    case doubles
    with assms show ?thesis
      by (cases a; cases b) (auto simp: try_fold_operation_def binary_ops_def Let_def split: if_split_asm)
  next
    case strings
    with assms show ?thesis by (auto simp: try_fold_operation_def binary_ops_def split: if_split_asm)
  qed
  then show "op \<in> set binary_ops" "\<not> (\<exists>t. v = VBool t)" by simp_all
qed

lemma fold_values_ops: "fold_values op a b = Some r \<Longrightarrow> op \<in> set binary_ops"
  by (cases a; cases b) (auto simp: fold_values_def fold_comparison_def binary_ops_def split: if_splits)

lemma unary_size: "unary_fold_value v (code ! s) = Some r \<Longrightarrow> instruction_size code s = 1"
  using group_size(1) [of code s] unary_fold_value_op [of v "code ! s" r] by (auto simp: same_ops_def)

lemma binary_size: "code ! s \<in> set binary_ops \<Longrightarrow> instruction_size code s = 1"
  using group_size(1) [of code s] by simp

lemma bool_op:
  "ch_code c ! i = (if b then Op_True else Op_False) \<Longrightarrow> ch_code c ! i \<in> set simple_ops"
  "ch_code c ! i = (if b then Op_True else Op_False) \<Longrightarrow> effect env c i base st = pushv (VBool b) st"
  by (simp_all add: simple_ops_def effect_def Let_def split: if_splits)

section \<open>Known operands\<close>

abbreviation constant_at :: "chunk \<Rightarrow> nat \<Rightarrow> val" where
  "constant_at c s \<equiv> cp_values (ch_constants c) ! unat (opt_read_u16 (ch_code c) (s + 1))"

lemma must_fold_one:
  assumes "code_ok c" and "i \<in> starts (ch_code c)" and "ch_code c ! i = Op_Constant"
    and "i + 3 < length (ch_code c)" and "folds env (ch_code c ! (i + 3)) [constant_at c i] v"
  shows "must_run env (f\<lparr>cf_chunk := c\<rparr>) i (i + 4) (\<lambda>_. pushv v)"
proof -
  have "must_run env (f\<lparr>cf_chunk := c\<rparr>) i (i + 3 + 1) (\<lambda>_. pushv v)"
    using assms by (intro must_run_fold [OF must_constant [OF assms(1-3)]]) (auto simp: pushv_def split: if_splits)
  then show ?thesis by (simp add: add.commute)
qed

lemma must_fold_two:
  assumes "code_ok c" and "i \<in> starts (ch_code c)"
    and "ch_code c ! i = Op_Constant" "ch_code c ! (i + 3) = Op_Constant"
    and "i + 6 < length (ch_code c)" and "folds env (ch_code c ! (i + 6)) [constant_at c i, constant_at c (i + 3)] v"
  shows "must_run env (f\<lparr>cf_chunk := c\<rparr>) i (i + 7) (\<lambda>_. pushv v)"
proof -
  have "i + 3 \<in> starts (ch_code c)"
    using walks_next [of "ch_code c" 0 i] assms(2,3,5) constant_size [of "ch_code c" i] by simp
  from must_run_trans [OF must_constant [OF assms(1-3)] must_constant [OF assms(1) this assms(4)]]
  have two: "must_run env (f\<lparr>cf_chunk := c\<rparr>) i (i + 3 + 3)
    (then_effect (\<lambda>_. pushv (constant_at c i)) (\<lambda>_. pushv (constant_at c (i + 3))))" .
  have "must_run env (f\<lparr>cf_chunk := c\<rparr>) i (i + 3 + 3 + 1) (\<lambda>_. pushv v)"
  proof (rule must_run_fold [OF two])
    show "folds env (ch_code (cf_chunk (f\<lparr>cf_chunk := c\<rparr>)) ! (i + 3 + 3)) [constant_at c i, constant_at c (i + 3)] v"
      using assms(6) by (simp add: add.assoc)
  qed (use assms(5) in \<open>auto simp: pushv_def then_effect_def split: if_splits\<close>)
  then show ?thesis by (simp add: add.commute)
qed

text \<open>Three instructions, two of them constants, become one that pushes the result.\<close>

lemma triple_refines:
  assumes ok: "code_ok c" and i: "i \<in> starts (ch_code c)"
    and ops: "ch_code c ! i = Op_Constant" "ch_code c ! (i + 3) = Op_Constant" "ch_code c ! (i + 6) \<in> set binary_ops"
    and n: "i + 6 < length (ch_code c)" "i + 3 \<notin> collect_jump_targets (ch_code c)" "i + 6 \<notin> collect_jump_targets (ch_code c)"
    and folds: "folds env (ch_code c ! (i + 6)) [constant_at c i, constant_at c (i + 3)] v"
    and len: "length (ch_code c') = length (ch_code c)" and pool: "pool_extends c c'"
    and out: "\<And>x. x < i \<or> i + 7 \<le> x \<Longrightarrow> x < length (ch_code c) \<Longrightarrow> ch_code c' ! x = ch_code c ! x"
    and k: "k = i + instruction_size (ch_code c') i" "k \<le> i + 7"
    and dead: "\<And>x. k \<le> x \<Longrightarrow> x < i + 7 \<Longrightarrow> is_dead_byte (ch_code c' ! x)"
    and head: "\<not> is_jump (ch_code c' ! i)"
      "ch_code c' ! i = Op_Constant \<Longrightarrow> unat (opt_read_u16 (ch_code c') (i + 1)) < cp_size (ch_constants c')"
    and can: "\<And>f. can_run env (f\<lparr>cf_chunk := c'\<rparr>) i k (\<lambda>_. pushv v)"
  shows "refines env c c'"
proof -
  let ?c = "ch_code c"
  have s0: "instruction_size ?c i = 3" and s3: "instruction_size ?c (i + 3) = 3" and s6: "instruction_size ?c (i + 6) = 1"
    using constant_size ops binary_size by auto
  have w3: "walks ?c i (i + 3)" using walks_one [of i ?c] n(1) s0 by simp
  from walks_next [OF w3] s3 n(1) have w6: "walks ?c i (i + 6)" by (simp add: add.assoc)
  from walks_next [OF w6] s6 n(1) have w7: "walks ?c i (i + 7)" by (simp add: add.commute)
  have inside: "s \<in> {i + 3, i + 6}" if "walks ?c i s" "i < s" "s < i + 7" for s
  proof -
    from walks_second [OF that(1,2)] s0 have w: "walks ?c (i + 3) s" by simp
    show ?thesis
    proof (cases "s = i + 3")
      case False
      with w walks_le [OF w] have "i + 3 < s" by simp
      from walks_second [OF w this] s3 have "walks ?c (i + 6) s" by (simp add: add.assoc)
      from walks_first [OF this] that(3) s6 show ?thesis by simp
    qed simp
  qed
  show ?thesis
  proof (rule rewrite_refines [OF ok i w7 _ _ len pool out _ _ k(2) dead])
    show "s \<notin> collect_jump_targets ?c" if "walks ?c i s" "i < s" "s < i + 7" for s
      using inside [OF that] n(2,3) by auto
    show "walks (ch_code c') i k" using k(1) i len walks_one [of i "ch_code c'"] by simp
    show "\<not> is_jump (ch_code c' ! s) \<and> (ch_code c' ! s = Op_Constant \<longrightarrow>
        unat (opt_read_u16 (ch_code c') (s + 1)) < cp_size (ch_constants c'))"
      if "walks (ch_code c') i s" "s < k" for s
      using walks_first [OF that(1)] that(2) k(1) head by auto
    show "sim_at env (f\<lparr>cf_chunk := c\<rparr>) (f\<lparr>cf_chunk := c'\<rparr>)
        (starts ?c - {s. walks ?c i s \<and> i < s \<and> s < i + 7}) id i" for f
    proof -
      have "can_run env (f\<lparr>cf_chunk := c'\<rparr>) k (i + 7) (\<lambda>_. Some)"
        using dead n(1) len k(2) by (intro can_run_dead) simp_all
      from can_run_trans [OF can this] show ?thesis
        by (rule sim_at_window_runs [OF i w7 must_fold_two [OF ok i ops(1,2) n(1) folds]])
          (simp add: then_effect_def)
    qed
  qed (use n in auto)
qed


text \<open>A constant and a unary operation become the boolean they compute.\<close>

lemma fold_bool_refines:
  assumes ok: "code_ok c" and i: "i \<in> starts (ch_code c)" and ops: "ch_code c ! i = Op_Constant"
    and n: "i + 3 < length (ch_code c)" "i + 3 \<notin> collect_jump_targets (ch_code c)"
    and folds: "folds env (ch_code c ! (i + 3)) [constant_at c i] (VBool b)"
    and size: "instruction_size (ch_code c) (i + 3) = 1"
    and c': "c' = c\<lparr>ch_code := nop_out ((ch_code c)[i := (if b then Op_True else Op_False)]) (i + 1) 3\<rparr>"
  shows "refines env c c'"
proof -
  let ?c = "ch_code c" and ?c' = "ch_code c'"
  have first: "?c' ! i = (if b then Op_True else Op_False)" using n by (simp add: c' nth_nop_out)
  note simple = bool_op(1) [OF first]
  show ?thesis
  proof (rule pair_refines [OF ok i, where k = "i + 1" and e = "\<lambda>_. pushv (VBool b)" and e' = "effect env c' i"])
    show "i + 3 = i + instruction_size ?c i" using constant_size [OF ops] by simp
    show "i + 4 = i + 3 + instruction_size ?c (i + 3)" using size by simp
    show "i + 1 = i \<or> i + 1 = i + instruction_size ?c' i" using op_sizes(1) [OF simple] by simp
    show "must_run env (f\<lparr>cf_chunk := c\<rparr>) i (i + 4) (\<lambda>_. pushv (VBool b))" for f
      by (rule must_fold_one [OF ok i ops n(1) folds])
    show "can_run env (f\<lparr>cf_chunk := c'\<rparr>) i (i + 1) (effect env c' i)" for f
      using can_simple_chunk [OF simple] n by (simp add: c')
    show "\<not> is_jump (?c' ! i) \<and> (?c' ! i = Op_Constant \<longrightarrow>
        unat (opt_read_u16 ?c' (i + 1)) < cp_size (ch_constants c'))"
      using simple is_jump_plain plain_not_constant by blast
    show "effect env c' i base st = Some st'" if "pushv (VBool b) st = Some st'" for base st st'
      using bool_op(2) [OF first] that by simp
  qed (use n ok in \<open>auto simp: c' nth_nop_out dead_byte_nop pool_extends_refl\<close>)
qed

section \<open>The unary pass\<close>

lemma unary_fold_write_cases:
  assumes "unary_fold_write c i v = Inr (c', n, i')"
  obtains (bool) b where "v = VBool b"
      "c' = c\<lparr>ch_code := nop_out ((ch_code c)[i := (if b then Op_True else Op_False)]) (i + 1) 3\<rparr>" "i' = i"
    | (pooled) c1 idx where "add_constant c v = Inr (c1, idx)"
      "c' = c1\<lparr>ch_code := nop_out (opt_write_u16 (ch_code c) (i + 1) idx) (i + 3) 1\<rparr>" "i' = i"
proof (cases "\<exists>b. v = VBool b")
  case True
  then obtain b where b: "v = VBool b" ..
  from assms have "c' = c\<lparr>ch_code := nop_out ((ch_code c)[i := (if b then Op_True else Op_False)]) (i + 1) 3\<rparr>"
    "i' = i" by (auto simp: b unary_fold_write_def Let_def)
  with b show ?thesis by (rule bool)
next
  case False
  then have "unary_fold_write c i v = (case add_constant c v of Inl e \<Rightarrow> Inl e
     | Inr (c', new_idx) \<Rightarrow> Inr (c'\<lparr>ch_code := nop_out (opt_write_u16 (ch_code c) (i + 1) new_idx) (i + 3) 1\<rparr>, 1, i))"
    unfolding unary_fold_write_def k_constant_instruction_size_def by (cases v) simp_all
  with assms obtain c1 idx where "add_constant c v = Inr (c1, idx)"
    "c' = c1\<lparr>ch_code := nop_out (opt_write_u16 (ch_code c) (i + 1) idx) (i + 3) 1\<rparr>" "i' = i"
    by (cases "add_constant c v") auto
  then show ?thesis by (rule pooled)
qed

lemma unary_fold_step_ok:
  assumes ok: "code_ok c" and i: "i \<in> starts (ch_code c)" and n: "i + 3 < length (ch_code c)"
    and T: "collect_jump_targets (ch_code c) \<subseteq> T"
    and step: "unary_fold_step T c i = Some (Inr (c', e, i'))"
  shows "turn_ok env c c' i'"
  using step n
proof (cases rule: unary_fold_step_cases)
  case (skip k)
  with turn_ok_skip [OF ok i] constant_size [of "ch_code c" i] show ?thesis by auto
next
  case (fold v)
  note folds = unary_fold_value_folds [OF fold(6), of env] and size = unary_size [OF fold(6)]
  from fold(4) T have target: "i + 3 \<notin> collect_jump_targets (ch_code c)" by blast
  from fold(1) have "unary_fold_write c i v = Inr (c', e, i')" by simp
  then show ?thesis
  proof (cases rule: unary_fold_write_cases)
    case (bool b)
    have "refines env c c'"
      using fold_bool_refines [OF ok i fold(2) n target _ size bool(2)] folds bool(1) by simp
    then show ?thesis
      using i bool n by (rule_tac turn_okI) (auto simp: nth_nop_out walks_refl)
  next
    case (pooled c1 idx)
    have "refines env c c'"
      by (rule fold_one_refines [OF ok i fold(2) n target folds size pooled(1,2)])
    then show ?thesis
      using i pooled n by (rule_tac turn_okI) (auto simp: nth_nop_out nth_write_u16 walks_refl)
  qed
qed

lemma unary_fold_loop_refines:
  assumes "unary_fold_loop T c i e = Inr (c', e')"
    and "code_ok c" and "walks (ch_code c) 0 i" and "collect_jump_targets (ch_code c) \<subseteq> T"
  shows "refines env c c'"
  using assms
proof (induction T c i e rule: unary_fold_loop.induct)
  case (1 T c i e)
  show ?case
  proof (cases "i + 3 < length (ch_code c)")
    case True
    then have inside: "i + k_constant_instruction_size < length (ch_code c)"
      and i: "i \<in> starts (ch_code c)" using 1 by (simp_all add: k_constant_instruction_size_def)
    show ?thesis
    proof (cases "unary_fold_step T c i")
      case None
      with 1 inside show ?thesis by (simp add: unary_fold_loop.simps refines_refl)
    next
      case (Some r)
      from 1(2) inside Some obtain c1 n i1 where r: "r = Inr (c1, n, i1)"
        by (subst (asm) unary_fold_loop.simps) (auto split: sum.split_asm)
      with 1(2) inside Some have loop: "unary_fold_loop T c1 i1 (e + n) = Inr (c', e')"
        by (subst (asm) unary_fold_loop.simps) simp
      have turn: "turn_ok env c c1 i1" using unary_fold_step_ok [OF 1(3) i True 1(5)] Some r by simp
      then have "refines env c1 c'"
        using 1(1) [OF inside Some r refl refl loop] 1(5) by (auto simp: turn_ok_def refines_def)
      with turn show ?thesis by (auto simp: turn_ok_def intro: refines_trans)
    qed
  next
    case False
    with 1 show ?thesis by (simp add: unary_fold_loop.simps refines_refl k_constant_instruction_size_def)
  qed
qed

lemma unary_fold_pass_refines:
  assumes "unary_fold_pass c = Inr (c', e)" and "code_ok c"
  shows "refines env c c'"
  using assms unary_fold_loop_refines [of "collect_jump_targets (ch_code c)" c 0 0 c' e]
  by (auto simp: unary_fold_pass_def refines_refl walks_refl split: if_splits)


section \<open>The binary pass\<close>

lemma find_foldable_pair_walks:
  "find_foldable_pair code from = Some cand \<Longrightarrow> walks code from (fc_i cand)"
proof (induction code "from" rule: find_foldable_pair.induct)
  case (1 code i)
  from "1.prems" have inside: "i + 3 < length code"
    by (subst (asm) find_foldable_pair.simps) (auto simp: k_constant_instruction_size_def split: if_split_asm)
  consider (skip) "code ! i \<noteq> Op_Constant" "find_foldable_pair code (i + instruction_size code i) = Some cand"
    | (skip3) "code ! i = Op_Constant" "code ! (i + 3) \<noteq> Op_Constant" "in_bounds code (i + 3) 3"
        "find_foldable_pair code (i + 3) = Some cand"
    | (here) "fc_i cand = i"
    using "1.prems"
    by (subst (asm) find_foldable_pair.simps)
      (auto simp: k_constant_instruction_size_def Let_def split: if_split_asm)
  then show ?case
  proof cases
    case skip
    with "1.IH"(1) inside show ?thesis by (auto simp: k_constant_instruction_size_def intro: walks_step)
  next
    case skip3
    with "1.IH"(2) inside constant_size [of code i] show ?thesis
      by (auto simp: k_constant_instruction_size_def intro: walks_step)
  qed (simp add: walks_refl)
qed

lemma apply_fold_cases:
  assumes "apply_fold_optimization fp c cand = Inr (c', True)"
  obtains v c1 idx where
    "unat (fc_idx1 cand) < cp_size (ch_constants c)" "unat (fc_idx2 cand) < cp_size (ch_constants c)"
    "try_fold_operation fp (cp_values (ch_constants c) ! unat (fc_idx1 cand))
       (cp_values (ch_constants c) ! unat (fc_idx2 cand)) (fc_arith_op cand) = Some v"
    "add_constant c v = Inr (c1, idx)"
    "c' = c1\<lparr>ch_code := nop_out (opt_write_u16 ((ch_code c)[fc_i cand := Op_Constant]) (fc_i cand + 1) idx)
       (fc_op2_pos cand) 4\<rparr>"
  using assms unfolding apply_fold_optimization_def Let_def k_constant_instruction_size_def
  by (auto split: if_split_asm option.split_asm sum.split_asm)

lemma constant_fold_turn:
  assumes ok: "code_ok c" and i: "walks (ch_code c) 0 from" and env: "folding_env env"
    and cand: "find_foldable_pair (ch_code c) from = Some cand"
    and T: "fc_op2_pos cand \<notin> collect_jump_targets (ch_code c)" "fc_arith_pos cand \<notin> collect_jump_targets (ch_code c)"
    and fold: "apply_fold_optimization (env_fpu env) c cand = Inr (c', True)"
  shows "turn_ok env c c' (fc_i cand)"
proof -
  let ?c = "ch_code c" and ?c' = "ch_code c'" and ?i = "fc_i cand"
  note at = find_foldable_pair_Some [OF cand]
  have start: "?i \<in> starts ?c" using i find_foldable_pair_walks [OF cand] at by (auto intro: walks_trans)
  from fold show ?thesis
  proof (cases rule: apply_fold_cases)
    case (1 v c1 idx)
    have idx2: "fc_idx2 cand = opt_read_u16 ?c (?i + 3 + 1)" using at by (simp add: add.commute)
    from 1(3) have "try_fold_operation (env_fpu env) (constant_at c ?i) (constant_at c (?i + 3)) (?c ! (?i + 6)) = Some v"
      unfolding idx2 using at by simp
    note folds = try_fold_operation_folds [OF this env] and ops = fold_operation_ops(1) [OF this]
    have c': "?c' = nop_out (opt_write_u16 ?c (?i + 1) idx) (?i + 3) 4"
      using 1(5) at list_update_id [of ?c ?i] by simp
    note pool = pool_extends_add [OF ok 1(4), of c']
    have first: "?c' ! ?i = Op_Constant" and read: "opt_read_u16 ?c' (?i + 1) = idx"
      using at by (simp_all add: c' nth_nop_out nop_out_read_u16 write_read_u16 nth_write_u16)
    show ?thesis
    proof (rule turn_okI [OF _ start walks_refl])
      show "refines env c c'"
      proof (rule triple_refines [OF ok start _ _ ops _ _ _ folds])
        show "can_run env (f\<lparr>cf_chunk := c'\<rparr>) ?i (?i + 3) (\<lambda>_. pushv v)" for f
          using constant_step [of "f\<lparr>cf_chunk := c'\<rparr>" ?i env] first read pool at 1(5)
          by (intro can_run_step) (simp add: c')
        show "\<not> is_jump (?c' ! ?i)" using first is_jump_plain by simp
        show "?i + 3 = ?i + instruction_size ?c' ?i" using constant_size [OF first] by simp
        show "?c' ! x = ?c ! x" if "x < ?i \<or> ?i + 7 \<le> x" "x < length ?c" for x
          using that at by (auto simp: c' nth_nop_out nth_write_u16)
      qed (use at T pool read 1(5) in \<open>auto simp: c' dead_byte_nop\<close>)
    qed (use at in \<open>auto simp: c' nth_nop_out nth_write_u16\<close>)
  qed
qed

lemma constant_fold_loop_refines:
  assumes "constant_fold_loop (env_fpu env) T c from e = Inr (c', e')" and "folding_env env"
    and "code_ok c" and "walks (ch_code c) 0 from" and "collect_jump_targets (ch_code c) \<subseteq> T"
  shows "refines env c c'"
  using assms
proof (induction "env_fpu env" T c "from" e rule: constant_fold_loop.induct)
  case (1 T c "from" e)
  show ?case
  proof (cases "find_foldable_pair (ch_code c) from")
    case None
    with 1(4,6) show ?thesis by (subst (asm) constant_fold_loop.simps) (simp add: refines_refl)
  next
    case (Some cand)
    note at = find_foldable_pair_Some [OF Some]
    note loop = 1(4) [unfolded constant_fold_loop.simps [of "env_fpu env" T c "from" e] Some option.case Let_def]
    have start: "fc_i cand \<in> starts (ch_code c)"
      using 1(7) find_foldable_pair_walks [OF Some] at by (auto intro: walks_trans)
    have next_walk: "walks (ch_code c) 0 (fc_i cand + 3)"
      using walks_next [of "ch_code c" 0 "fc_i cand"] start at constant_size [of "ch_code c" "fc_i cand"] by simp
    show ?thesis
    proof (cases "fc_op2_pos cand \<in> T \<or> fc_arith_pos cand \<in> T")
      case True
      with loop True have "constant_fold_loop (env_fpu env) T c (fc_i cand + k_constant_instruction_size) e = Inr (c', e')"
        by simp
      from 1(1) [OF Some refl True this 1(5,6) _ 1(8)] next_walk show ?thesis
        by (simp add: k_constant_instruction_size_def)
    next
      case False
      from loop False obtain c1 applied where
        fold: "apply_fold_optimization (env_fpu env) c cand = Inr (c1, applied)"
        by (cases "apply_fold_optimization (env_fpu env) c cand") auto
      show ?thesis
      proof (cases applied)
        case True
        with loop False fold have rest: "constant_fold_loop (env_fpu env) T c1 (fc_i cand)
            (e + (k_constant_instruction_size + 1)) = Inr (c', e')"
          by simp
        have turn: "turn_ok env c c1 (fc_i cand)"
        proof (rule constant_fold_turn [OF 1(6,7,5) Some])
          show "apply_fold_optimization (env_fpu env) c cand = Inr (c1, True)" using fold True by simp
        qed (use False 1(8) in blast)+
        then have "refines env c1 c'"
          using 1(2) [OF Some refl False fold refl True rest 1(5)] 1(8) by (auto simp: turn_ok_def refines_def)
        with turn show ?thesis by (auto simp: turn_ok_def intro: refines_trans)
      next
        case no: False
        with apply_fold_code(3) [OF fold] have c1: "c1 = c" by simp
        with loop False fold no have "constant_fold_loop (env_fpu env) T c1
            (fc_i cand + k_constant_instruction_size) e = Inr (c', e')"
          by simp
        with 1(3) [OF Some refl False fold refl no this 1(5)] next_walk 1(6,8) show ?thesis
          by (simp add: c1 k_constant_instruction_size_def)
      qed
    qed
  qed
qed

lemma constant_fold_pass_refines:
  assumes "constant_fold_pass (env_fpu env) c = Inr (c', e)" and "folding_env env" and "code_ok c"
  shows "refines env c c'"
  using assms constant_fold_loop_refines [of env "collect_jump_targets (ch_code c)" c 0 0 c' e]
  by (auto simp: constant_fold_pass_def refines_refl walks_refl split: if_splits)

section \<open>The comparison pass\<close>

lemma comparison_fold_step_ok:
  assumes ok: "code_ok c" and i: "i \<in> starts (ch_code c)" and n: "i + 6 < length (ch_code c)"
    and T: "collect_jump_targets (ch_code c) \<subseteq> T"
    and step: "comparison_fold_step T c i = Some (c', e, i')"
  shows "turn_ok env c c' i'"
  using step n
proof (cases rule: comparison_fold_step_cases)
  case (skip k)
  with turn_ok_skip [OF ok i] constant_size [of "ch_code c" i] show ?thesis by auto
next
  case (fold b)
  let ?c' = "ch_code c'"
  have c': "c' = c\<lparr>ch_code := nop_out ((ch_code c)[i := (if b then Op_True else Op_False)]) (i + 1) 6\<rparr>" "i' = i"
    using fold(8) by auto
  have "fold_values (ch_code c ! (i + 6)) (constant_at c i) (constant_at c (i + 3)) = Some b"
    using fold(7) by (simp add: add.commute)
  note folds = fold_values_folds [OF this, of env] and ops = fold_values_ops [OF this]
  have first: "?c' ! i = (if b then Op_True else Op_False)" using n by (simp add: c' nth_nop_out)
  note simple = bool_op(1) [OF first]
  show ?thesis
  proof (rule turn_okI [OF _ i])
    show "refines env c c'"
    proof (rule triple_refines [OF ok i fold(1,2) ops n _ _ folds, where k = "i + 1"])
      have "effect env c' i = (\<lambda>_. pushv (VBool b))" using bool_op(2) [OF first] by (intro ext) simp
      then show "can_run env (f\<lparr>cf_chunk := c'\<rparr>) i (i + 1) (\<lambda>_. pushv (VBool b))" for f
        using can_simple_chunk [OF simple, of env f] n by (simp add: c')
      show "i + 1 = i + instruction_size ?c' i" using op_sizes(1) [OF simple] by simp
      show "\<not> is_jump (?c' ! i)" using simple is_jump_plain by blast
      show "unat (opt_read_u16 ?c' (i + 1)) < cp_size (ch_constants c')" if "?c' ! i = Op_Constant"
        using simple plain_not_constant that by blast
    qed (use T fold(3,4) n ok in \<open>auto simp: c' nth_nop_out dead_byte_nop pool_extends_refl\<close>)
  qed (use n in \<open>auto simp: c' nth_nop_out walks_refl\<close>)
qed

lemma comparison_fold_loop_refines:
  assumes "comparison_fold_loop T c i e = (c', e')"
    and "code_ok c" and "walks (ch_code c) 0 i" and "collect_jump_targets (ch_code c) \<subseteq> T"
  shows "refines env c c'"
  using assms
proof (induction T c i e rule: comparison_fold_loop.induct)
  case (1 T c i e)
  show ?case
  proof (cases "i + 6 < length (ch_code c)")
    case True
    then have inside: "i + k_cmp_fold_eliminated < length (ch_code c)"
      and i: "i \<in> starts (ch_code c)"
      using 1 by (simp_all add: k_cmp_fold_eliminated_def k_constant_instruction_size_def)
    show ?thesis
    proof (cases "comparison_fold_step T c i")
      case None
      with 1 inside show ?thesis by (simp add: comparison_fold_loop.simps refines_refl)
    next
      case (Some r)
      obtain c1 n i1 where r: "r = (c1, n, i1)" by (cases r)
      with 1(2) inside Some have loop: "comparison_fold_loop T c1 i1 (e + n) = (c', e')"
        by (subst (asm) comparison_fold_loop.simps) simp
      have turn: "turn_ok env c c1 i1" using comparison_fold_step_ok [OF 1(3) i True 1(5)] Some r by simp
      then have "refines env c1 c'"
        using 1(1) [OF inside Some r [symmetric] refl loop] 1(5) by (auto simp: turn_ok_def refines_def)
      with turn show ?thesis by (auto simp: turn_ok_def intro: refines_trans)
    qed
  next
    case False
    with 1 show ?thesis
      by (simp add: comparison_fold_loop.simps refines_refl k_cmp_fold_eliminated_def k_constant_instruction_size_def)
  qed
qed

lemma comparison_fold_pass_refines:
  assumes "comparison_fold_pass c = Inr (c', e)" and "code_ok c"
  shows "refines env c c'"
  using assms comparison_fold_loop_refines [of "collect_jump_targets (ch_code c)" c 0 0 c' e]
  by (auto simp: comparison_fold_pass_def refines_refl walks_refl split: if_splits)

end
