(* ===== verification/Optimizer_Passes.thy ===== *)
theory Optimizer_Passes
  imports Optimizer_Folds
begin

text \<open>
  The passes that work on the code alone: dead stores, dead code, jump threading and tail calls.  Each keeps
  code well formed and keeps what it does.
\<close>

abbreviation with_code :: "chunk \<Rightarrow> byte list \<Rightarrow> chunk" where
  "with_code c code \<equiv> c\<lparr>ch_code := code\<rparr>"

section \<open>Dead stores\<close>

lemma set_slot_twice:
  "then_effect (\<lambda>base. set_slot (base + w)) (\<lambda>base. set_slot (base + w)) base st = Some st' \<Longrightarrow> set_slot (base + w) st = Some st'"
  by (auto simp: then_effect_def set_slot_def last_conv_nth nth_list_update split: if_splits)

lemma set_slot_pop_twice:
  assumes "set_slot_pop p st = Some st1" and "set_slot_pop p st1 = Some st'"
  shows "st \<noteq> [] \<and> set_slot_pop p (butlast st) = Some st'"
proof -
  from assms have len: "\<not> length st - 1 \<le> p" "\<not> length st1 - 1 \<le> p"
    and st1: "st1 = (butlast st)[p := last st]" and st': "st' = (butlast st1)[p := last st1]"
    by (auto simp: set_slot_pop_def split: if_splits)
  have p: "p < length (butlast st) - 1" using len st1 by simp
  have ne: "butlast st \<noteq> []"
  proof
    assume "butlast st = []"
    with p show False by (simp only: list.size)
  qed
  have "last st1 = last (butlast st)" using p ne st1 by (simp add: last_list_update)
  moreover have "(butlast st1)[p := x] = (butlast (butlast st))[p := x]" for x
    using p st1 by (simp add: butlast_list_update)
  ultimately show ?thesis using p st' by (auto simp: set_slot_pop_def)
qed

text \<open>A store is dropped when the next instruction stores to the same slot.\<close>

lemma store_refines:
  assumes ok: "code_ok c" and i: "i \<in> starts (ch_code c)"
    and ops: "ch_code c ! i \<in> set slot_ops" "ch_code c ! (i + 3) \<in> set slot_ops"
    and n: "i + 5 < length (ch_code c)"
    and len: "length (ch_code c') = length (ch_code c)" and pool: "ch_constants c' = ch_constants c"
    and out: "\<And>x. x < i \<or> i + 3 \<le> x \<Longrightarrow> x < length (ch_code c) \<Longrightarrow> ch_code c' ! x = ch_code c ! x"
    and k: "k = i \<or> k = i + 1 \<and> ch_code c' ! i \<in> set simple_ops"
    and dead: "\<And>x. k \<le> x \<Longrightarrow> x < i + 3 \<Longrightarrow> is_dead_byte (ch_code c' ! x)"
    and can: "\<And>f. can_run env (f\<lparr>cf_chunk := c'\<rparr>) i k e'"
    and eff: "\<And>base st st'. then_effect (effect env c i) (effect env c (i + 3)) base st = Some st' \<Longrightarrow>
      then_effect e' (effect env c (i + 3)) base st = Some st'"
  shows "refines env c c'"
proof -
  let ?c = "ch_code c" and ?c' = "ch_code c'"
  note sizes = op_sizes(2) [OF ops(1)] op_sizes(2) [OF ops(2)]
  have w3: "walks ?c i (i + 3)" using walks_one [of i ?c] n sizes by simp
  have s3: "i + 3 \<in> starts ?c" using i w3 n by (auto intro: walks_trans)
  have first: "s = i" if "walks ?c i s" "s < i + 3" for s
    using walks_first [OF that(1)] that(2) sizes by simp
  have k3: "k \<le> i + 3" using k by auto
  show ?thesis
  proof (rule rewrite_refines [OF ok i w3 _ _ len _ out _ _ k3 dead])
    show "pool_extends c c'" using ok pool by (rule pool_extends_refl)
    show "s \<notin> collect_jump_targets ?c" if "walks ?c i s" "i < s" "s < i + 3" for s
      using first [OF that(1,3)] that(2) by simp
    show "walks ?c' i k"
      using k op_sizes(1) [of ?c' i] walks_one [of i ?c'] n len by (auto intro: walks_refl)
    show "\<not> is_jump (?c' ! s) \<and> (?c' ! s = Op_Constant \<longrightarrow>
        unat (opt_read_u16 ?c' (s + 1)) < cp_size (ch_constants c'))" if "walks ?c' i s" "s < k" for s
    proof -
      from that(2) walks_le [OF that(1)] k have "s = i" "?c' ! i \<in> set simple_ops" by auto
      then show ?thesis using is_jump_plain plain_not_constant by blast
    qed
    fix f
    from must_run_trans [OF must_slot_chunk [OF ok i ops(1)] must_slot_chunk [OF ok s3 ops(2)], of env f]
    have must: "must_run env (f\<lparr>cf_chunk := c\<rparr>) i (i + 3 + 3) (then_effect (effect env c i) (effect env c (i + 3)))" .
    have same: "?c' ! x = ?c ! x" if "x \<in> {i + 3, i + 4, i + 5}" for x
      using that n by (intro out) auto
    have "opt_read_u16 ?c' (i + 3 + 1) = opt_read_u16 ?c (i + 3 + 1)"
      using n len same by (simp add: opt_read_u16_def read_u16_be_def)
    then have eq: "effect env c' (i + 3) = effect env c (i + 3)"
      using same [of "i + 3"] pool unfolding effect_def Let_def by (intro ext) simp
    have dead_run: "can_run env (f\<lparr>cf_chunk := c'\<rparr>) k (i + 3) (\<lambda>_. Some)"
      using dead n len k3 by (intro can_run_dead) simp_all
    have second: "can_run env (f\<lparr>cf_chunk := c'\<rparr>) (i + 3) (i + 3 + 3) (effect env c (i + 3))"
      using can_slot_chunk [of c' "i + 3" env f] ops(2) same [of "i + 3"] n len eq by simp
    note can' = can_run_trans [OF can_run_trans [OF can dead_run] second]
    show "sim_at env (f\<lparr>cf_chunk := c\<rparr>) (f\<lparr>cf_chunk := c'\<rparr>) (starts ?c - {s. walks ?c i s \<and> i < s \<and> s < i + 3}) id i"
    proof (rule sim_at_runs [OF must can'])
      fix base st st'
      assume "then_effect (effect env c i) (effect env c (i + 3)) base st = Some st'"
      from eff [OF this] show "then_effect (then_effect e' (\<lambda>_. Some)) (effect env c (i + 3)) base st = Some st'"
        by (auto simp: then_effect_def split: option.splits)
    qed (use s3 walks_next [of ?c 0 "i + 3"] sizes in auto)
  qed (use n in auto)
qed

lemma dead_store_step_cases:
  assumes "dead_store_step code i = (code', n, i')"
  obtains (dead) "is_dead_byte (code ! i)" "code' = code" "i' = i + 1"
    | (stored) "code ! i = Op_SetLocal" "i + instruction_size code i + 2 < length code"
      "code ! (i + instruction_size code i) = Op_SetLocal"
      "opt_read_u16 code (i + 1) = opt_read_u16 code (i + instruction_size code i + 1)"
      "code' = nop_out code i (instruction_size code i)" "i' = i + instruction_size code i"
    | (popped) "code ! i = Op_SetLocalPop" "i + instruction_size code i + 2 < length code"
      "code ! (i + instruction_size code i) = Op_SetLocalPop"
      "opt_read_u16 code (i + 1) = opt_read_u16 code (i + instruction_size code i + 1)"
      "code' = nop_out (code[i := Op_Pop]) (i + 1) (instruction_size code i - 1)" "i' = i + instruction_size code i"
    | (none) "code' = code" "i' = i + instruction_size code i"
proof -
  let ?n = "i + instruction_size code i"
  have "is_dead_byte (code ! i) \<and> code' = code \<and> i' = i + 1 \<or>
    code ! i = Op_SetLocal \<and> ?n + 2 < length code \<and> code ! ?n = Op_SetLocal \<and>
      opt_read_u16 code (i + 1) = opt_read_u16 code (?n + 1) \<and>
      code' = nop_out code i (instruction_size code i) \<and> i' = ?n \<or>
    code ! i = Op_SetLocalPop \<and> ?n + 2 < length code \<and> code ! ?n = Op_SetLocalPop \<and>
      opt_read_u16 code (i + 1) = opt_read_u16 code (?n + 1) \<and>
      code' = nop_out (code[i := Op_Pop]) (i + 1) (instruction_size code i - 1) \<and> i' = ?n \<or>
    code' = code \<and> i' = ?n"
    using assms [unfolded dead_store_step_def Let_def]
    by (simp only: prod.inject split: if_split_asm) blast+
  with that show thesis by blast
qed

lemma dead_store_step_ok:
  assumes ok: "code_ok (with_code c code)" and i: "i \<in> starts code"
    and step: "dead_store_step code i = (code', n, i')"
  shows "turn_ok env (with_code c code) (with_code c code') i'"
proof -
  let ?n = "i + instruction_size code i"
  let ?same = "opt_read_u16 code (i + 1) = opt_read_u16 code (?n + 1)"
  have skip: ?thesis if "code' = code" "i' = ?n" using turn_ok_skip [OF ok, of i env] i that by simp
  from step show ?thesis
  proof (cases rule: dead_store_step_cases)
    case dead
    then show ?thesis using skip by simp
  next
    case stored
    have n3: "instruction_size code i = 3" using stored(1) op_sizes(2) [of code i] by (simp add: slot_ops_def)
    have w: "opt_read_u16 code (i + 3 + 1) = opt_read_u16 code (i + 1)" using stored(4) by (simp only: n3)
    note set = stored(1-3,5,6) [unfolded n3]
    show ?thesis
    proof (rule turn_okI [where i = i])
      show "refines env (with_code c code) (with_code c code')"
      proof (rule store_refines [OF ok, where k = i and e' = "\<lambda>_. Some" and i = i])
        show "can_run env (f\<lparr>cf_chunk := with_code c code'\<rparr>) i i (\<lambda>_. Some)" for f
          using i set by (intro can_run_dead) auto
        show "then_effect (\<lambda>_. Some) (effect env (with_code c code) (i + 3)) base st = Some st'"
          if "then_effect (effect env (with_code c code) i) (effect env (with_code c code) (i + 3)) base st = Some st'"
          for base st st'
        proof -
          have "effect env (with_code c code) i base st = set_slot (base + unat (opt_read_u16 code (i + 1))) st"
            "effect env (with_code c code) (i + 3) base st = set_slot (base + unat (opt_read_u16 code (i + 1))) st" for st
            using set(1,3) w unfolding effect_def Let_def by simp_all
          with that set_slot_twice [of "unat (opt_read_u16 code (i + 1))" base st st'] show ?thesis
            by (simp only: then_effect_def) simp
        qed
      qed (use i set in \<open>auto simp: slot_ops_def nth_nop_out dead_byte_nop\<close>)
      show "walks (ch_code (with_code c code')) i i'"
        using set by (auto intro!: walks_dead simp: dead_byte_nop)
    qed (use i set in \<open>auto simp: nth_nop_out\<close>)
  next
    case popped
    have n3: "instruction_size code i = 3" using popped(1) op_sizes(2) [of code i] by (simp add: slot_ops_def)
    have w: "opt_read_u16 code (i + 3 + 1) = opt_read_u16 code (i + 1)" using popped(4) by (simp only: n3)
    note pop = popped(1-3,5,6) [unfolded n3]
    have first: "code' ! i = Op_Pop" using pop by (simp add: nth_nop_out)
    have simple: "ch_code (with_code c code') ! i \<in> set simple_ops" using first by (simp add: simple_ops_def)
    show ?thesis
    proof (rule turn_okI [where i = i])
      show "refines env (with_code c code) (with_code c code')"
      proof (rule store_refines [OF ok, where k = "i + 1" and e' = "effect env (with_code c code') i" and i = i])
        show "can_run env (f\<lparr>cf_chunk := with_code c code'\<rparr>) i (i + 1) (effect env (with_code c code') i)" for f
          using can_simple_chunk [OF simple] pop by simp
        show "then_effect (effect env (with_code c code') i) (effect env (with_code c code) (i + 3)) base st = Some st'"
          if "then_effect (effect env (with_code c code) i) (effect env (with_code c code) (i + 3)) base st = Some st'"
          for base st st'
        proof -
          have "effect env (with_code c code) i base st = set_slot_pop (base + unat (opt_read_u16 code (i + 1))) st"
            "effect env (with_code c code) (i + 3) base st = set_slot_pop (base + unat (opt_read_u16 code (i + 1))) st"
            "effect env (with_code c code') i base st = (if st = [] then None else Some (butlast st))" for st
            using pop(1,3) w first unfolding effect_def Let_def by simp_all
          with that set_slot_pop_twice [of "base + unat (opt_read_u16 code (i + 1))" st _ st'] show ?thesis
            by (simp only: then_effect_def split: option.splits) (auto split: option.splits)
        qed
      qed (use i pop simple in \<open>auto simp: slot_ops_def nth_nop_out dead_byte_nop\<close>)
      show "walks (ch_code (with_code c code')) i i'"
        using walks_one [of i code'] op_sizes(1) [OF simple] pop
          walks_dead [of "i + 1" "i + 3" code'] by (auto simp: dead_byte_nop intro: walks_trans)
    qed (use i pop in \<open>auto simp: nth_nop_out\<close>)
  qed (rule skip)
qed

lemma dead_store_loop_refines:
  assumes "dead_store_loop code i e = (code', e')" and "code_ok (with_code c code)" and "walks code 0 i"
  shows "refines env (with_code c code) (with_code c code')"
  using assms
proof (induction code i e rule: dead_store_loop.induct)
  case (1 code i e)
  show ?case
  proof (cases "i < length code")
    case True
    obtain code1 n i1 where step: "dead_store_step code i = (code1, n, i1)" by (cases "dead_store_step code i")
    with 1(2) True have loop: "dead_store_loop code1 i1 (e + n) = (code', e')"
      by (subst (asm) dead_store_loop.simps) simp
    have turn: "turn_ok env (with_code c code) (with_code c code1) i1"
      using dead_store_step_ok [OF 1(3) _ step] True 1(4) by simp
    then have "refines env (with_code c code1) (with_code c code')"
      using 1(1) [OF True step [symmetric] refl loop] by (auto simp: turn_ok_def refines_def)
    with turn show ?thesis by (auto simp: turn_ok_def intro: refines_trans)
  next
    case False
    with 1 show ?thesis by (simp add: dead_store_loop.simps refines_refl)
  qed
qed

lemma dead_store_pass_refines:
  assumes "dead_store_pass c = Inr (c', e)" and "code_ok c"
  shows "refines env c c'"
  using assms dead_store_loop_refines [of "ch_code c" 0 0 _ _ c]
  by (auto simp: dead_store_pass_def walks_refl split: prod.splits)

section \<open>Dead code\<close>

lemma find_dead_end_region:
  assumes "code_ok (with_code c code)" and "walks code 0 n" and "n \<le> length code"
  shows "walks code n (find_dead_end T code n) \<and> find_dead_end T code n \<le> length code \<and>
    (\<forall>s. walks code n s \<and> s < find_dead_end T code n \<longrightarrow> s \<notin> T)"
  using assms
proof (induction T code n rule: find_dead_end.induct)
  case (1 T code n)
  let ?n = "n + instruction_size code n" and ?e = "find_dead_end T code n"
  show ?case
  proof (cases "n < length code \<and> code ! n \<noteq> Op_EndModule \<and> n \<notin> T")
    case True
    then have e: "?e = find_dead_end T code ?n" by (subst find_dead_end.simps) simp
    have start: "n \<in> starts (ch_code (with_code c code))" using True 1(3) by simp
    have IH: "walks code ?n ?e \<and> ?e \<le> length code \<and> (\<forall>s. walks code ?n s \<and> s < ?e \<longrightarrow> s \<notin> T)"
      unfolding e
    proof (rule 1(1))
      show "walks code 0 ?n" using True 1(3) by (simp add: walks_next)
      show "?n \<le> length code" using code_okD(1) [OF 1(2) start] by simp
    qed (use True 1(2) in auto)
    have "s \<notin> T" if "walks code n s" "s < ?e" for s
    proof (cases "s = n")
      case False
      with that(1) walks_le [OF that(1)] have "walks code ?n s" by (intro walks_second) simp_all
      with IH that(2) show ?thesis by blast
    qed (use True in simp)
    with IH True show ?thesis by (auto intro: walks_step)
  next
    case False
    then have "?e = n" by (subst find_dead_end.simps) auto
    with 1(4) show ?thesis by (auto intro: walks_refl dest: walks_le)
  qed
qed

lemma walks_pred_unique:
  assumes "walks code 0 s" "walks code 0 i" "s < length code" "i < length code"
    and "s + instruction_size code s = i + instruction_size code i"
  shows "s = i"
proof (rule ccontr)
  assume "s \<noteq> i"
  then consider "s < i" | "i < s" by linarith
  then show False
  proof cases
    case 1
    from walks_linear [OF assms(1,2)] 1 walks_le [OF walks_second [of code s i]] have "s + instruction_size code s \<le> i" by simp
    with assms(5) instruction_size_pos [of code i] show False by linarith
  next
    case 2
    from walks_linear [OF assms(2,1)] 2 walks_le [OF walks_second [of code i s]] have "i + instruction_size code i \<le> s" by simp
    with assms(5) instruction_size_pos [of code s] show False by linarith
  qed
qed

text \<open>A region after a terminator that no jump enters is deleted.\<close>

lemma region_refines:
  assumes ok: "code_ok c" and i: "i \<in> starts (ch_code c)" and n: "n = i + instruction_size (ch_code c) i"
    and stop: "is_terminator (ch_code c ! i)"
    and e: "walks (ch_code c) n e" "n < e" "e \<le> length (ch_code c)"
    and T: "\<And>s. walks (ch_code c) n s \<Longrightarrow> s < e \<Longrightarrow> s \<notin> collect_jump_targets (ch_code c)"
    and c': "c' = c\<lparr>ch_code := nop_out (ch_code c) n (e - n)\<rparr>"
  shows "refines env c c'" and "walks (ch_code c') n e"
proof -
  let ?c = "ch_code c" and ?c' = "ch_code c'" and ?X = "{s. walks (ch_code c) n s \<and> s < e}"
  have dead: "is_dead_byte (?c' ! x)" if "n \<le> x" "x < e" for x
    using that e by (simp add: c' dead_byte_nop)
  show we: "walks ?c' n e" using dead e by (intro walks_dead) (simp_all add: c')
  have wn: "walks ?c 0 n" using i n by (simp add: walks_next)
  have new: "target_set ?c' s = {} \<and> ?c' ! s \<noteq> Op_Constant" if "walks ?c' n s" "s < e" for s
  proof -
    from dead walks_le [OF that(1)] that(2) have d: "is_dead_byte (?c' ! s)" by simp
    then have "?c' ! s \<noteq> Op_Constant" by (auto simp: is_dead_byte_def k_dead_byte_def)
    with dead_byte_targets [OF d] show ?thesis by simp
  qed
  have win: "window c c' n e ?X"
    unfolding window_def
  proof (intro conjI allI impI ballI)
    show "pool_extends c c'" using ok by (rule pool_extends_refl) (simp add: c')
    show "collect_jump_targets ?c \<inter> ?X = {}" using T by blast
    show "0 < n" using n instruction_size_pos [of ?c i] by linarith
    fix s
    assume s: "s \<in> starts ?c" "s + instruction_size ?c s = n"
    then have "s = i" using walks_pred_unique [of ?c s i] i n by simp
    with stop show "?c ! s \<in> {Op_Jump, Op_Loop, Op_Return, Op_GetLocalReturn}" by (auto simp: is_terminator_iff)
  qed (use wn we e new in \<open>auto simp: c' nth_nop_out dest: walks_le\<close>)
  have "preserves env c c'"
    by (rule window_preserves [OF win ok]) (use i in auto)
  moreover from window_code_ok(2) [OF win ok] new have "collect_jump_targets ?c' \<subseteq> collect_jump_targets ?c" by blast
  ultimately show "refines env c c'" using window_code_ok(1) [OF win ok] by (simp add: refines_def c')
qed

lemma dead_code_loop_refines:
  assumes "dead_code_loop T code i d = (code', d')" and "code_ok (with_code c code)" and "walks code 0 i"
    and "collect_jump_targets code \<subseteq> T"
  shows "refines env (with_code c code) (with_code c code')"
  using assms
proof (induction T code i d rule: dead_code_loop.induct)
  case (1 T code i d)
  let ?n = "i + instruction_size code i"
  let ?e = "find_dead_end T code ?n"
  show ?case
  proof (cases "?n < length code")
    case False
    with 1(4,5) have "code' = code" by (subst (asm) dead_code_loop.simps) (auto simp: Let_def split: if_split_asm)
    with 1(5) show ?thesis by (simp add: refines_refl)
  next
    case True
    then have i: "i < length code" by linarith
    have start: "i \<in> starts code" using i 1(6) by simp
    have wn: "walks code 0 ?n" using i 1(6) by (simp add: walks_next)
    note region = find_dead_end_region [OF 1(5) wn less_imp_le [OF True], of T]
    note loop = 1(4) [unfolded dead_code_loop.simps [of T code i d] Let_def]
    consider (skip) "\<not> is_terminator (code ! i)" | (empty) "is_terminator (code ! i)" "\<not> ?n < ?e"
      | (region) "is_terminator (code ! i)" "?n < ?e" by blast
    then show ?thesis
    proof cases
      case skip
      with loop True i have "dead_code_loop T code ?n d = (code', d')" by simp
      from 1(3) [OF i refl _ skip this 1(5) wn 1(7)] True show ?thesis by simp
    next
      case empty
      with loop True i have rest: "dead_code_loop T code ?e d = (code', d')" by simp
      have "walks code 0 ?e" using region wn by (blast intro: walks_trans)
      from 1(2) [OF i refl _ empty(1) refl empty(2) rest 1(5) this 1(7)] True show ?thesis by simp
    next
      case region: region
      let ?code = "nop_out code ?n (?e - ?n)"
      have turn: "refines env (with_code c code) (with_code c ?code)" "walks ?code ?n ?e"
        using region_refines [OF 1(5), where i = i and n = ?n and e = ?e and c' = "with_code c ?code"] start region
          find_dead_end_region [OF 1(5) wn less_imp_le [OF True], of T] 1(7) by auto
      have "walks ?code 0 ?n"
        using wn True by (rule_tac walks_cong) (auto simp: nth_nop_out)
      with turn(2) have walk: "walks ?code 0 ?e" by (rule_tac walks_trans)
      from loop True i region have rest: "dead_code_loop T ?code ?e (d + (?e - ?n)) = (code', d')" by simp
      have ok': "code_ok (with_code c ?code)" and T': "collect_jump_targets ?code \<subseteq> T"
        using turn(1) 1(7) by (auto simp: refines_def)
      from 1(1) [OF i refl _ region(1) refl region(2) rest ok' walk T'] True
      have "refines env (with_code c ?code) (with_code c code')" by simp
      with turn(1) show ?thesis by (rule refines_trans)
    qed
  qed
qed

lemma dead_code_pass_refines:
  assumes "dead_code_pass c = Inr (c', e)" and "code_ok c"
  shows "refines env c c'"
proof -
  have "dead_code_targets (ch_code c) 0 = collect_jump_targets (ch_code c)"
    by (simp add: dead_code_targets_eq collect_jump_targets_eq)
  then show ?thesis
    using assms dead_code_loop_refines [of "collect_jump_targets (ch_code c)" "ch_code c" 0 0 _ _ c]
    by (auto simp: dead_code_pass_def walks_refl split: prod.splits)
qed

section \<open>Jump threading\<close>

lemma plain_jump_step:
  assumes "ch_code (cf_chunk f) ! t = Op_Jump" and "t + 5 \<le> length (ch_code (cf_chunk f))"
    and "target_of (ch_code (cf_chunk f)) t \<le> length (ch_code (cf_chunk f))"
  shows "frame_step env (reloc f t vm) = Some (reloc f (target_of (ch_code (cf_chunk f)) t) vm)"
proof -
  obtain h where h: "frame_handler env Op_Jump = Some h" by (simp add: frame_handler_def modelled_handler_def)
  have "target_valid (ch_code (cf_chunk f)) t" using assms by (simp add: target_valid_def)
  with jump_step_eq [OF _ h, of f t vm] assms show ?thesis
    by (subst frame_step_handler [of env f t h]) (auto simp: h jump_ops_def jump_effect_def)
qed

text \<open>Following a chain of unconditional jumps is what running them does.\<close>

definition leads_to :: "vm_env \<Rightarrow> chunk \<Rightarrow> nat \<Rightarrow> nat \<Rightarrow> bool" where
  "leads_to env c t t' \<longleftrightarrow>
     (\<forall>f vm n out. leaves_after env n (reloc (f\<lparr>cf_chunk := c\<rparr>) t vm) out \<longrightarrow>
        (\<exists>m \<le> n. leaves_after env m (reloc (f\<lparr>cf_chunk := c\<rparr>) t' vm) out))"

lemma leads_to_trans: "leads_to env c a b \<Longrightarrow> leads_to env c b d \<Longrightarrow> leads_to env c a d"
  unfolding leads_to_def by (meson order_trans)

lemma leads_to_jump:
  assumes "ch_code c ! t = Op_Jump" and "t + 5 \<le> length (ch_code c)" and "target_of (ch_code c) t \<le> length (ch_code c)"
  shows "leads_to env c t (target_of (ch_code c) t)"
  unfolding leads_to_def
proof (intro allI impI)
  fix f :: compiled_function and vm n out
  assume "leaves_after env n (reloc (f\<lparr>cf_chunk := c\<rparr>) t vm) out"
  from leaves_after_known [OF this plain_jump_step] assms
  show "\<exists>m \<le> n. leaves_after env m (reloc (f\<lparr>cf_chunk := c\<rparr>) (target_of (ch_code c) t) vm) out"
    by (auto intro: less_imp_le)
qed

lemma follow_jumps_leads:
  assumes "follow_jumps code hops t = (t', hops')" and "code_ok (with_code c code)"
    and "t \<in> starts code \<or> length code \<le> t"
  shows "t' = t \<and> hops' = hops \<or>
    hops < hops' \<and> t < t' \<and> t' \<in> starts code \<and> t' \<in> collect_jump_targets code \<and> leads_to env (with_code c code) t t'"
  using assms
proof (induction code hops t rule: follow_jumps.induct)
  case (1 code hops t)
  let ?n = "target_of code t"
  show ?case
  proof (cases "hops < k_max_jump_chain_depth \<and> t + 4 < length code \<and> code ! t = Op_Jump \<and> ?n < length code")
    case True
    have n: "?n = t + k_jump_instruction_size + unat (opt_read_u32 code (t + 1))"
      using True by (simp add: target_of_def k_jump_instruction_size_def)
    have start: "t \<in> starts code" using True 1(4) by auto
    have "target_valid code t" using True by (simp add: target_valid_def)
    with target_of_in_set [of code t] True have in_set: "?n \<in> target_set code t" by (simp add: jump_ops_def)
    have inside: "t \<in> starts (ch_code (with_code c code))" using start by simp
    from in_set code_okD(2) [OF 1(3) inside, of ?n] True have target: "?n \<in> starts code" by auto
    have collected: "?n \<in> collect_jump_targets code" using start in_set unfolding collect_jump_targets_eq by blast
    have leads: "leads_to env (with_code c code) t ?n"
      using leads_to_jump [of "with_code c code" t env] True by simp
    have le: "t < ?n" using True by (simp add: target_of_def)
    from True 1(2) have rest: "follow_jumps code (hops + 1) ?n = (t', hops')"
      by (subst (asm) follow_jumps.simps) (simp add: n k_u32_operand_size_def Let_def)
    have guard: "hops < k_max_jump_chain_depth \<and> t + k_u32_operand_size < length code \<and> code ! t = Op_Jump"
      using True by (simp add: k_u32_operand_size_def)
    from True 1(1) [OF guard n _ rest 1(3)] target
    have "t' = ?n \<and> hops' = hops + 1 \<or> hops + 1 < hops' \<and> ?n < t' \<and> t' \<in> starts code \<and>
      t' \<in> collect_jump_targets code \<and> leads_to env (with_code c code) ?n t'" by auto
    with leads le target collected show ?thesis using leads_to_trans [OF leads] by auto
  next
    case False
    then have "follow_jumps code hops t = (t, hops)"
      by (subst follow_jumps.simps)
        (auto simp: target_of_def k_u32_operand_size_def k_jump_instruction_size_def Let_def)
    with 1(2) show ?thesis by simp
  qed
qed

lemma window_refines:
  assumes "window c c' i j X" and "code_ok c" and "ch_code c \<noteq> []"
    and "\<And>f s. walks (ch_code c) i s \<Longrightarrow> s < j \<Longrightarrow> s \<notin> X \<Longrightarrow>
      sim_at env (f\<lparr>cf_chunk := c\<rparr>) (f\<lparr>cf_chunk := c'\<rparr>) (starts (ch_code c) - X) id s"
    and "\<And>s. walks (ch_code c') i s \<Longrightarrow> s < j \<Longrightarrow> target_set (ch_code c') s \<subseteq> collect_jump_targets (ch_code c)"
  shows "refines env c c'"
  using window_code_ok [OF assms(1,2)] window_preserves [OF assms(1-3), of env] windowD(1) [OF assms(1)] assms(4,5)
  unfolding refines_def by blast

lemma retarget_sim:
  assumes i: "i \<in> starts (ch_code c)" and ok: "code_ok c"
    and op: "ch_code c ! i \<in> {Op_Jump, Op_JumpIfFalse, Op_JumpIfTrue}"
    and same: "ch_code c' ! i = ch_code c ! i" "length (ch_code c') = length (ch_code c)"
    and new: "target_valid (ch_code c') i" "target_of (ch_code c') i \<in> starts (ch_code c)"
    and leads: "leads_to env c (target_of (ch_code c) i) (target_of (ch_code c') i)"
  shows "sim_at env (f\<lparr>cf_chunk := c\<rparr>) (f\<lparr>cf_chunk := c'\<rparr>) (starts (ch_code c)) id i"
  unfolding sim_at_def
proof (intro allI impI disjI2)
  fix vm n out
  let ?f = "f\<lparr>cf_chunk := c\<rparr>" and ?g = "f\<lparr>cf_chunk := c'\<rparr>" and ?c = "ch_code c" and ?c' = "ch_code c'"
  assume run: "leaves_after env n (reloc ?f i vm) out"
  have jump: "?c ! i \<in> set jump_ops" using op by (auto simp: jump_ops_def)
  note size = jump_ops_size [OF jump]
  have fits: "i + instruction_size (ch_code (cf_chunk ?f)) i \<le> length (ch_code (cf_chunk ?f))"
    using code_okD(1) [OF ok i] by simp
  have live: "\<not> is_dead_byte (ch_code (cf_chunk ?f) ! i)" using op by (auto simp: is_dead_byte_def k_dead_byte_def)
  have same': "same_instr (cf_chunk ?f) i (cf_chunk ?g) i"
    using same fits jump op by (auto simp: same_instr_def Let_def)
  from run show "\<exists>m t vm1. m < n \<and> t \<in> starts ?c \<and> leaves_after env m (reloc ?f t vm1) out \<and>
      run_to env (reloc ?g (id i) vm) (reloc ?g (id t) vm1)"
  proof (cases rule: leaves_after.cases)
    case after_exit
    with op show ?thesis by (auto simp: frame_exit_def Let_def split: if_splits)
  next
    case (after_step vm1 m)
    show ?thesis
    proof (rule step_cases [OF after_step(2) live fits], goal_cases)
      case (1 b)
      have self: "reloc ?f (if b then target_of ?c i else i + 5) vm1 = vm1"
        using reloc_self [OF 1(1)] size by (cases b) simp_all
      have step: "frame_step env (reloc ?g i vm) = Some (reloc ?g (if b then target_of ?c' i else i + 5) vm1)"
        using 1(4) [OF same'] new(1) size by simp
      have run: "leaves_after env m (reloc ?f (if b then target_of ?c i else i + 5) vm1) out"
        using after_step(3) unfolding self .
      show ?thesis
      proof (cases b)
        case True
        with run leads obtain m' where m': "m' \<le> m" "leaves_after env m' (reloc ?f (target_of ?c' i) vm1) out"
          unfolding leads_to_def by (simp only: if_True simp_thms) blast
        from step True have "run_to env (reloc ?g i vm) (reloc ?g (target_of ?c' i) vm1)" by (auto intro: run_to_step)
        with m' after_step(1) new(2) show ?thesis by (intro exI [of _ m'] exI [of _ "target_of ?c' i"] exI [of _ vm1]) simp
      next
        case False
        with leaves_after_inside [OF run] have "i + 5 < length ?c" by simp
        with walks_next [of ?c 0 i] i size have "i + 5 \<in> starts ?c" by simp
        moreover from step False have "run_to env (reloc ?g i vm) (reloc ?g (i + 5) vm1)" by (auto intro: run_to_step)
        ultimately show ?thesis using run False after_step(1)
          by (intro exI [of _ m] exI [of _ "i + 5"] exI [of _ vm1]) simp
      qed
    qed
  qed
qed

lemma write_read_u32: "x + 4 \<le> length code \<Longrightarrow> opt_read_u32 (opt_write_u32 code x v) x = v"
  by (simp add: opt_read_u32_def opt_write_u32_def)

lemma nth_write_u32:
  "y < x \<or> x + 4 \<le> y \<Longrightarrow> x + 4 \<le> length code \<Longrightarrow> y < length code \<Longrightarrow> opt_write_u32 code x v ! y = code ! y"
  by (simp add: opt_write_u32_def nth_patch_u32_be)

lemma retarget_ok:
  assumes ok: "code_ok (with_code c code)" and i: "i \<in> starts code"
    and op: "code ! i \<in> {Op_Jump, Op_JumpIfFalse, Op_JumpIfTrue}"
    and target: "i + 5 \<le> t'" "t' \<in> starts code" "t' \<in> collect_jump_targets code"
    and leads: "leads_to env (with_code c code) (target_of code i) t'"
    and code': "code' = opt_write_u32 code (i + 1) (word_of_nat (t' - (i + 5)))"
  shows "turn_ok env (with_code c code) (with_code c code') (i + 5)"
proof -
  let ?c = "with_code c code" and ?c' = "with_code c code'"
  have jump: "code ! i \<in> set jump_ops" and not_loop: "code ! i \<noteq> Op_Loop" using op by (auto simp: jump_ops_def)
  have start: "i \<in> starts (ch_code ?c)" using i by simp
  have size: "instruction_size code i = 5" by (rule jump_ops_size [OF jump])
  have fits: "i + 5 \<le> length code" using code_okD(1) [OF ok start] size by simp
  have len: "length code' = length code" by (simp add: code')
  have same: "code' ! x = code ! x" if "x < i + 1 \<or> i + 5 \<le> x" "x < length code" for x
    using that fits by (auto simp: code' nth_write_u32)
  have first: "code' ! i = code ! i" using same fits by simp
  have size': "instruction_size code' i = 5" using jump_ops_size [of code' i] jump first by simp
  have "length code < 2 ^ 32" using ok by (simp add: code_ok_def)
  then have "t' - (i + 5) < 2 ^ 32" using target(2) by (simp add: less_imp_diff_less)
  then have "unat (word_of_nat (t' - (i + 5)) :: u32) = t' - (i + 5)" by (simp add: unat_of_nat)
  then have read: "unat (opt_read_u32 code' (i + 1)) = t' - (i + 5)"
    using fits by (simp add: code' write_read_u32)
  have t: "target_of code' i = t'" using read target(1) first not_loop by (simp add: target_of_def)
  have valid: "target_valid code' i" using t target(2) len first not_loop by (simp add: target_valid_def)
  have set: "target_set code' i = {t'}"
    using read target(1) fits len first op
    by (auto simp: target_set_def is_forward_jump_iff k_u32_operand_size_def k_jump_instruction_size_def Let_def)
  have w: "walks code i (i + 5)" "walks code' i (i + 5)"
    using walks_one [of i code] walks_one [of i code'] fits len size size' by auto
  have only: "s = i" if "walks code i s \<or> walks code' i s" "s < i + 5" for s
    using that walks_first [of code i s] walks_first [of code' i s] size size' by auto
  have win: "window ?c ?c' i (i + 5) {}"
    unfolding window_def
  proof (intro conjI allI impI)
    show "pool_extends ?c ?c'" using ok by (rule pool_extends_refl) simp
    fix s
    assume s: "walks (ch_code ?c') i s \<and> s < i + 5"
    then have "s = i" using only by simp
    then show "target_set (ch_code ?c') s \<subseteq> starts (ch_code ?c) - {} \<union> {length (ch_code ?c)..}"
      using set target(2) by simp
    show "unat (opt_read_u16 (ch_code ?c') (s + 1)) < cp_size (ch_constants ?c')" if "ch_code ?c' ! s = Op_Constant"
      using that \<open>s = i\<close> first op by auto
  next
    fix s
    assume "walks (ch_code ?c) i s \<and> s < i + 5 \<and> s \<notin> {}"
    then have "s = i" using only by simp
    then show "walks (ch_code ?c') i s" by (simp add: walks_refl)
  qed (use i w fits len same in auto)
  show ?thesis
  proof (rule turn_okI [where i = i])
    show "refines env ?c ?c'"
    proof (rule window_refines [OF win ok])
      fix f s
      assume "walks (ch_code ?c) i s" "s < i + 5" "s \<notin> {}"
      then have s: "s = i" using only by simp
      show "sim_at env (f\<lparr>cf_chunk := ?c\<rparr>) (f\<lparr>cf_chunk := ?c'\<rparr>) (starts (ch_code ?c) - {}) id s"
        using retarget_sim [OF start ok, of ?c' env f] op first len valid t target(2) leads s by simp
    next
      show "target_set (ch_code ?c') s \<subseteq> collect_jump_targets (ch_code ?c)" if "walks (ch_code ?c') i s" "s < i + 5" for s
        using only [of s] that set target(3) by simp
    qed (use fits in auto)
  qed (use i w same in auto)
qed

lemma jump_threading_step_ok:
  assumes ok: "code_ok (with_code c code)" and i: "i \<in> starts code"
    and step: "jump_threading_step code i = Some (code', n, i')"
  shows "turn_ok env (with_code c code) (with_code c code') i'"
proof -
  let ?jump = "code ! i \<in> {Op_Jump, Op_JumpIfFalse, Op_JumpIfTrue}"
  let ?t = "i + k_jump_instruction_size + unat (opt_read_u32 code (i + 1))"
  have start: "i \<in> starts (ch_code (with_code c code))" using i by simp
  note skip = turn_ok_skip [OF ok start, of env]
  show ?thesis
  proof (cases "is_dead_byte (code ! i) \<or> \<not> ?jump")
    case True
    with step have "code' = code" "i' = i + instruction_size code i"
      by (auto simp: jump_threading_step_def split: if_split_asm)
    with skip show ?thesis by simp
  next
    case False
    then have jump: ?jump and jumps: "code ! i \<in> set jump_ops" by (auto simp: jump_ops_def)
    note size = jump_ops_size [OF jumps]
    have fits: "i + 5 \<le> length code" using code_okD(1) [OF ok start] size by simp
    obtain t' hops where follow: "follow_jumps code 0 ?t = (t', hops)" by (cases "follow_jumps code 0 ?t")
    have t: "target_of code i = ?t" using jump by (auto simp: target_of_def k_jump_instruction_size_def)
    have result: "(code', i') = (if 0 < hops then opt_write_u32 code (i + 1) (word_of_nat (t' - (i + 5))) else code, i + 5)"
      using step False follow fits
      by (auto simp: jump_threading_step_def k_jump_instruction_size_def k_u32_operand_size_def Let_def split: if_split_asm)
    show ?thesis
    proof (cases "0 < hops")
      case False
      with result size skip show ?thesis by simp
    next
      case True
      have "?t \<in> starts code \<or> length code \<le> ?t"
      proof (cases "length code \<le> ?t")
        case False
        then have "target_valid code i" using t jump by (auto simp: target_valid_def)
        with target_of_in_set [OF jumps fits] t have "?t \<in> target_set code i" by simp
        with code_okD(2) [OF ok start] show ?thesis by auto
      qed simp
      from follow_jumps_leads [OF follow ok this, of env] True
      have chain: "?t < t'" "t' \<in> starts code" "t' \<in> collect_jump_targets code" "leads_to env (with_code c code) ?t t'"
        by auto
      then have "i + 5 \<le> t'" by (simp add: k_jump_instruction_size_def)
      from retarget_ok [OF ok i jump this chain(2,3) _ refl] chain(4) t result True show ?thesis by simp
    qed
  qed
qed

lemma jump_threading_loop_refines:
  assumes "jump_threading_loop code i e = (code', e')" and "code_ok (with_code c code)" and "walks code 0 i"
  shows "refines env (with_code c code) (with_code c code')"
  using assms
proof (induction code i e rule: jump_threading_loop.induct)
  case (1 code i e)
  show ?case
  proof (cases "i < length code \<and> jump_threading_step code i \<noteq> None")
    case True
    then obtain code1 n i1 where step: "jump_threading_step code i = Some (code1, n, i1)" by auto
    with 1(2) True have loop: "jump_threading_loop code1 i1 (e + n) = (code', e')"
      by (subst (asm) jump_threading_loop.simps) simp
    have turn: "turn_ok env (with_code c code) (with_code c code1) i1"
      using jump_threading_step_ok [OF 1(3) _ step] True 1(4) by simp
    then have "refines env (with_code c code1) (with_code c code')"
      using 1(1) [OF _ step refl refl loop] True by (auto simp: turn_ok_def refines_def)
    with turn show ?thesis by (auto simp: turn_ok_def intro: refines_trans)
  next
    case False
    with 1(2) have "code' = code"
      by (cases "jump_threading_step code i"; subst (asm) jump_threading_loop.simps) (auto split: if_split_asm)
    with 1(3) show ?thesis by (simp add: refines_refl)
  qed
qed

lemma jump_threading_pass_refines:
  assumes "jump_threading_pass c = Inr (c', e)" and "code_ok c"
  shows "refines env c c'"
  using assms jump_threading_loop_refines [of "ch_code c" 0 0 _ _ c]
  by (auto simp: jump_threading_pass_def walks_refl split: prod.splits)

section \<open>Tail calls\<close>

text \<open>
  The pass renames a call before a return.  A call leaves the frame, so no frame run passes it; what the
  renaming does to a call is a statement about two frames and is not one about the code around it.
\<close>

lemma call_not_step: "frame_handler env Op_Call = None" "\<not> is_dead_byte Op_Call"
  by (simp_all add: frame_handler_def modelled_handler_def is_dead_byte_def k_dead_byte_def)

lemma tail_call_turn:
  assumes ok: "code_ok (with_code c code)" and i: "i \<in> starts code" and op: "code ! i = Op_Call"
    and n: "i + instruction_size code i < length code"
  shows "turn_ok env (with_code c code) (with_code c (code[i := Op_TailCall])) (i + instruction_size code i)"
proof -
  let ?code = "code[i := Op_TailCall]" and ?j = "i + instruction_size code i"
  let ?c = "with_code c code" and ?c' = "with_code c ?code"
  have start: "i \<in> starts (ch_code ?c)" using i by simp
  have sizes: "opcode_base_size Op_Call = 2" "opcode_base_size Op_TailCall = 2" by code_simp+
  have first: "?code ! i = Op_TailCall" using i by simp
  have size: "instruction_size code i = 2" using op sizes by (simp add: instruction_size_def Let_def)
  have size': "instruction_size ?code i = 2" using first sizes by (simp add: instruction_size_def Let_def)
  have w: "walks code i ?j" "walks ?code i ?j" using walks_one [of i code] walks_one [of i ?code] i size size' by auto
  have only: "s = i" if "walks code i s \<or> walks ?code i s" "s < ?j" for s
    using that walks_first [of code i s] walks_first [of ?code i s] size size' by auto
  have none: "target_set ?code i = {}" using first by (simp add: target_set_def is_forward_jump_iff)
  have win: "window ?c ?c' i ?j {}"
    unfolding window_def
  proof (intro conjI allI impI)
    show "pool_extends ?c ?c'" using ok by (rule pool_extends_refl) simp
    fix s
    assume s: "walks (ch_code ?c') i s \<and> s < ?j"
    then have s: "s = i" using only by simp
    show "target_set (ch_code ?c') s \<subseteq> starts (ch_code ?c) - {} \<union> {length (ch_code ?c)..}" using s none by simp
    show "unat (opt_read_u16 (ch_code ?c') (s + 1)) < cp_size (ch_constants ?c')" if "ch_code ?c' ! s = Op_Constant"
      using that s first by simp
  next
    fix s
    assume "walks (ch_code ?c) i s \<and> s < ?j \<and> s \<notin> {}"
    then have "s = i" using only by simp
    then show "walks (ch_code ?c') i s" by (simp add: walks_refl)
  qed (use i w n size in \<open>auto simp: nth_list_update\<close>)
  have stuck: "\<not> leaves_after env m (reloc (f\<lparr>cf_chunk := ?c\<rparr>) i vm) out" for f :: compiled_function and m vm out
  proof
    assume "leaves_after env m (reloc (f\<lparr>cf_chunk := ?c\<rparr>) i vm) out"
    moreover have "frame_exit (reloc (f\<lparr>cf_chunk := ?c\<rparr>) i vm) = None"
      using op i by (simp add: frame_exit_def)
    moreover have "frame_step env (reloc (f\<lparr>cf_chunk := ?c\<rparr>) i vm) = None"
      using op i call_not_step by (simp add: frame_step_def)
    ultimately show False by (cases rule: leaves_after.cases) simp_all
  qed
  show ?thesis
  proof (rule turn_okI [where i = i])
    show "refines env ?c ?c'"
    proof (rule window_refines [OF win ok])
      fix f s
      assume "walks (ch_code ?c) i s" "s < ?j" "s \<notin> {}"
      then have s: "s = i" using only by simp
      then show "sim_at env (f\<lparr>cf_chunk := ?c\<rparr>) (f\<lparr>cf_chunk := ?c'\<rparr>) (starts (ch_code ?c) - {}) id s"
        using stuck by (simp add: sim_at_def)
    next
      show "target_set (ch_code ?c') s \<subseteq> collect_jump_targets (ch_code ?c)" if "walks (ch_code ?c') i s" "s < ?j" for s
        using only [of s] that none by simp
    qed (use i in auto)
  qed (use i w size in auto)
qed

lemma tail_call_step_ok:
  assumes ok: "code_ok (with_code c code)" and i: "i \<in> starts code"
    and step: "tail_call_step code i = (code', n, i')"
  shows "turn_ok env (with_code c code) (with_code c code') i'"
proof -
  let ?j = "i + instruction_size code i"
  have start: "i \<in> starts (ch_code (with_code c code))" using i by simp
  have "code' = code \<and> i' = ?j \<or>
    code ! i = Op_Call \<and> ?j < length code \<and> code ! ?j = Op_Return \<and> code' = code[i := Op_TailCall] \<and> i' = ?j + 1"
    using step unfolding tail_call_step_def Let_def by (auto split: if_split_asm)
  then show ?thesis
  proof (elim disjE conjE)
    assume "code' = code" "i' = ?j"
    with turn_ok_skip [OF ok start, of env] show ?thesis by simp
  next
    assume tail: "code ! i = Op_Call" "?j < length code" "code ! ?j = Op_Return" "code' = code[i := Op_TailCall]" "i' = ?j + 1"
    then have turn: "turn_ok env (with_code c code) (with_code c code') ?j"
      using tail_call_turn [OF ok i tail(1,2), of env] by simp
    have "opcode_base_size Op_Return = 1" by code_simp
    moreover have "code' ! ?j = Op_Return" using tail(3,4) instruction_size_pos [of code i] by simp
    ultimately have "instruction_size code' ?j = 1" by (simp add: instruction_size_def)
    then show ?thesis using turn walks_next [of code' 0 ?j] tail(2,4,5) by (simp add: turn_ok_def)
  qed
qed

lemma tail_call_loop_refines:
  assumes "tail_call_loop code i e = (code', e')" and "code_ok (with_code c code)" and "walks code 0 i"
  shows "refines env (with_code c code) (with_code c code')"
  using assms
proof (induction code i e rule: tail_call_loop.induct)
  case (1 code i e)
  show ?case
  proof (cases "i < length code")
    case True
    obtain code1 n i1 where step: "tail_call_step code i = (code1, n, i1)" by (cases "tail_call_step code i")
    with 1(2) True have loop: "tail_call_loop code1 i1 (e + n) = (code', e')"
      by (subst (asm) tail_call_loop.simps) simp
    have turn: "turn_ok env (with_code c code) (with_code c code1) i1"
      using tail_call_step_ok [OF 1(3) _ step] True 1(4) by simp
    then have "refines env (with_code c code1) (with_code c code')"
      using 1(1) [OF True step [symmetric] refl loop] by (auto simp: turn_ok_def refines_def)
    with turn show ?thesis by (auto simp: turn_ok_def intro: refines_trans)
  next
    case False
    with 1 show ?thesis by (simp add: tail_call_loop.simps refines_refl)
  qed
qed

lemma tail_call_pass_refines:
  assumes "tail_call_pass c = Inr (c', e)" and "code_ok c"
  shows "refines env c c'"
  using assms tail_call_loop_refines [of "ch_code c" 0 0 _ _ c]
  by (auto simp: tail_call_pass_def walks_refl refines_refl split: prod.splits if_split_asm)

end
