(* ===== verification/Optimizer_Compact.thy ===== *)
theory Optimizer_Compact
  imports Optimizer_Passes
begin

text \<open>
  Compaction: the live bytes move together, every jump follows its target, and the code does the same as
  before.
\<close>

section \<open>The dead mask and the offset map\<close>

definition live_before :: "bool list \<Rightarrow> nat \<Rightarrow> nat" where
  "live_before dead k = length (filter Not (take k dead))"

lemma length_mark_dead [simp]: "length (mark_dead code i dead) = length dead"
  by (induction code i dead rule: mark_dead.induct) (subst mark_dead.simps, simp)

lemma length_dead_mask [simp]: "length (dead_mask code) = length code"
  by (simp add: dead_mask_def)

lemma mark_dead_nth:
  "length dead = length code \<Longrightarrow> k < length code \<Longrightarrow>
   mark_dead code i dead ! k \<longleftrightarrow> dead ! k \<or> walks code i k \<and> is_dead_byte (code ! k)"
proof (induction code i dead rule: mark_dead.induct)
  case (1 code i dead)
  let ?n = "i + instruction_size code i"
  show ?case
  proof (cases "i < length code")
    case True
    then have walk: "walks code i k \<longleftrightarrow> i = k \<or> walks code ?n k" by (auto intro: walks.intros elim: walks.cases)
    show ?thesis
    proof (cases "is_dead_byte (code ! i)")
      case dead: True
      then have "mark_dead code i dead ! k \<longleftrightarrow> dead[i := True] ! k \<or> walks code (i + 1) k \<and> is_dead_byte (code ! k)"
        using 1 True by (subst mark_dead.simps) simp
      with walk dead True 1(3) show ?thesis by (auto simp: nth_list_update 1(3))
    next
      case False
      then have "mark_dead code i dead ! k \<longleftrightarrow> dead ! k \<or> walks code ?n k \<and> is_dead_byte (code ! k)"
        using 1 True by (subst mark_dead.simps) simp
      with walk False show ?thesis by auto
    qed
  next
    case False
    then show ?thesis using 1(4) by (subst mark_dead.simps) (auto dest: walks_le)
  qed
qed

lemma dead_mask_nth: "k < length code \<Longrightarrow> dead_mask code ! k \<longleftrightarrow> walks code 0 k \<and> is_dead_byte (code ! k)"
  by (simp add: dead_mask_def mark_dead_nth)

lemma live_before_0 [simp]: "live_before dead 0 = 0"
  by (simp add: live_before_def)

lemma live_before_Suc: "k < length dead \<Longrightarrow> live_before dead (Suc k) = live_before dead k + (if dead ! k then 0 else 1)"
  by (simp add: live_before_def take_Suc_conv_app_nth)

lemma live_before_mono: "j \<le> k \<Longrightarrow> live_before dead j \<le> live_before dead k"
proof -
  assume "j \<le> k"
  then have "take k dead = take j dead @ take (k - j) (drop j dead)" by (metis le_add_diff_inverse take_add)
  then show ?thesis by (simp add: live_before_def)
qed

lemma live_before_diff: "j \<le> k \<Longrightarrow> k \<le> length dead \<Longrightarrow> live_before dead k - live_before dead j \<le> k - j"
  by (induction k rule: dec_induct) (auto simp: live_before_Suc)

lemma live_before_le: "k \<le> length dead \<Longrightarrow> live_before dead k \<le> k"
  using live_before_diff [of 0 k dead] by simp

lemma length_build_offset_map [simp]: "length (build_offset_map dead m) = length dead + 1"
  by (induction dead arbitrary: m) simp_all

lemma build_offset_map_nth: "k \<le> length dead \<Longrightarrow> build_offset_map dead m ! k = m + live_before dead k"
proof (induction dead arbitrary: m k)
  case (Cons d ds)
  then show ?case by (cases k) (auto simp: live_before_def)
qed (simp add: live_before_def)

lemma length_keep_live: "length code = length dead \<Longrightarrow> length (keep_live dead code) = live_before dead (length dead)"
proof (induction dead arbitrary: code)
  case (Cons d ds)
  then show ?case by (cases code) (auto simp: keep_live_def live_before_def)
qed (simp add: keep_live_def live_before_def)

lemma keep_live_nth:
  "length code = length dead \<Longrightarrow> k < length dead \<Longrightarrow> \<not> dead ! k \<Longrightarrow>
   keep_live dead code ! live_before dead k = code ! k"
proof (induction dead arbitrary: code k)
  case (Cons d ds)
  then obtain b bs where code: "code = b # bs" by (cases code) auto
  have tail: "keep_live (x # ds) (b # bs) = (if x then [] else [b]) @ keep_live ds bs" for x
    by (simp add: keep_live_def)
  show ?case
  proof (cases k)
    case 0
    with Cons.prems show ?thesis by (simp add: code tail)
  next
    case (Suc k')
    with Cons show ?thesis by (auto simp: code tail live_before_def)
  qed
qed simp

section \<open>Fixing the jumps\<close>

lemma fix_jump_outside: "k \<le> i \<or> i + 5 \<le> k \<Longrightarrow> i + 5 \<le> length code \<Longrightarrow> k < length code \<Longrightarrow> fix_jump om code i ! k = code ! k"
  by (auto simp: fix_jump_def Let_def nth_patch_u32_be)

lemma fix_jump_not: "\<not> is_jump (code ! i) \<Longrightarrow> fix_jump om code i = code"
  by (simp add: fix_jump_def is_jump_iff Let_def)

lemma fix_jump_cong:
  assumes "length code' = length code" and "i + 5 \<le> length code"
    and "\<And>k. i \<le> k \<Longrightarrow> k < length code \<Longrightarrow> code' ! k = code ! k" and "i \<le> k" "k < length code"
  shows "fix_jump om code' i ! k = fix_jump om code i ! k"
proof -
  have "read_u32_be (drop (i + 1) code') = read_u32_be (drop (i + 1) code)"
    using assms by (simp add: read_u32_be_def)
  moreover have "patch_u32_be code' (i + 1) w ! k = patch_u32_be code (i + 1) w ! k" for w
    using assms by (auto simp: patch_u32_be_decomp nth_append)
  ultimately show ?thesis using assms by (simp add: fix_jump_def Let_def)
qed


text \<open>What the loop relies on: instructions fit, and dead bytes are the marked ones.\<close>

definition fits_from :: "byte list \<Rightarrow> nat \<Rightarrow> bool" where
  "fits_from code i \<longleftrightarrow> (\<forall>s. walks code i s \<and> s < length code \<longrightarrow> s + instruction_size code s \<le> length code)"

lemma jump_size: "is_jump (code ! i) \<Longrightarrow> instruction_size code i = 5"
  by (simp add: instruction_size_jump k_jump_instruction_size_def)

lemma fix_jump_same:
  assumes "i + instruction_size code i \<le> length code"
  shows "fix_jump om code i ! i = code ! i" "instruction_size (fix_jump om code i) i = instruction_size code i"
    and "i + instruction_size code i \<le> k \<Longrightarrow> k < length code \<Longrightarrow> fix_jump om code i ! k = code ! k"
    and "k \<le> i \<Longrightarrow> k < length code \<Longrightarrow> fix_jump om code i ! k = code ! k"
proof -
  have "fix_jump om code i ! i = code ! i \<and> instruction_size (fix_jump om code i) i = instruction_size code i \<and>
    (\<forall>k. i + instruction_size code i \<le> k \<or> k \<le> i \<longrightarrow> k < length code \<longrightarrow> fix_jump om code i ! k = code ! k)"
  proof (cases "is_jump (code ! i)")
    case True
    note size = jump_size [OF True]
    have first: "fix_jump om code i ! i = code ! i" using assms size by (intro fix_jump_outside) auto
    then have "instruction_size (fix_jump om code i) i = 5" using True jump_size [of "fix_jump om code i" i] by simp
    with first size assms show ?thesis by (auto intro: fix_jump_outside)
  qed (simp add: fix_jump_not)
  then show "fix_jump om code i ! i = code ! i" "instruction_size (fix_jump om code i) i = instruction_size code i"
    "i + instruction_size code i \<le> k \<Longrightarrow> k < length code \<Longrightarrow> fix_jump om code i ! k = code ! k"
    "k \<le> i \<Longrightarrow> k < length code \<Longrightarrow> fix_jump om code i ! k = code ! k" by blast+
qed

text \<open>Sizes and walks behind an index depend on the bytes from there only.\<close>

lemma same_from_size:
  assumes "length code' = length code" and "\<And>k. i \<le> k \<Longrightarrow> k < length code \<Longrightarrow> code' ! k = code ! k" and "i \<le> s" "s < length code"
  shows "instruction_size code' s = instruction_size code s"
  using assms by (simp add: instruction_size_def Let_def)

lemma same_from_walks:
  assumes "length code' = length code" and "\<And>k. i \<le> k \<Longrightarrow> k < length code \<Longrightarrow> code' ! k = code ! k" and "walks code i s"
  shows "walks code' i s"
proof -
  have "walks code a s \<Longrightarrow> i \<le> a \<Longrightarrow> walks code' a s" for a
  proof (induction rule: walks.induct)
    case (walks_step a b)
    then show ?case
      using same_from_size [OF assms(1,2), of a] assms(1) by (auto intro: walks.walks_step)
  qed (rule walks_refl)
  with assms(3) show ?thesis by simp
qed

lemma fix_jumps_length [simp]: "length (fix_jumps dead om code i) = length code"
  by (induction dead om code i rule: fix_jumps.induct) (subst fix_jumps.simps, simp add: Let_def)

lemma fix_jumps_nth:
  assumes "fits_from code i" and "\<And>s. walks code i s \<Longrightarrow> s < length code \<Longrightarrow> dead ! s \<longleftrightarrow> is_dead_byte (code ! s)"
  shows "k < i \<Longrightarrow> k < length code \<Longrightarrow> fix_jumps dead om code i ! k = code ! k"
    and "walks code i s \<Longrightarrow> s < length code \<Longrightarrow> \<not> dead ! s \<Longrightarrow> s \<le> k \<Longrightarrow> k < s + instruction_size code s \<Longrightarrow>
      fix_jumps dead om code i ! k = fix_jump om code s ! k"
proof -
  have "(k < i \<longrightarrow> k < length code \<longrightarrow> fix_jumps dead om code i ! k = code ! k) \<and>
    (walks code i s \<longrightarrow> s < length code \<longrightarrow> \<not> dead ! s \<longrightarrow> s \<le> k \<longrightarrow> k < s + instruction_size code s \<longrightarrow>
      fix_jumps dead om code i ! k = fix_jump om code s ! k)"
    using assms
  proof (induction dead om code i rule: fix_jumps.induct)
    case (1 dead om code i)
    show ?case
    proof (cases "i < length code")
      case False
      then have "fix_jumps dead om code i = code" by (subst fix_jumps.simps) simp
      with False show ?thesis by (auto dest: walks_le)
    next
      case True
      have fits: "i + instruction_size code i \<le> length code" using 1(3) True by (simp add: fits_from_def walks_refl)
      have walk: "walks code i s \<longleftrightarrow> i = s \<or> walks code (i + instruction_size code i) s" for s
        using True by (auto intro: walks.intros elim: walks.cases)
      show ?thesis
      proof (cases "dead ! i")
        case dead: True
        then have d: "is_dead_byte (code ! i)" using 1(4) True by (simp add: walks_refl)
        have fits': "fits_from code (i + 1)" using 1(3) walk d by (simp add: fits_from_def)
        have eq: "fix_jumps dead om code i = fix_jumps dead om code (i + 1)"
          using True dead by (subst fix_jumps.simps) simp
        have marked: "dead ! s \<longleftrightarrow> is_dead_byte (code ! s)" if "walks code (i + 1) s" "s < length code" for s
          using 1(4) walk d that by simp
        from 1(1) [OF True dead fits' marked] show ?thesis
          using walk d dead unfolding eq by auto
      next
        case live: False
        let ?z = "instruction_size code i" and ?code = "fix_jump om code i"
        note same = fix_jump_same [OF fits, where om = om]
        have eq: "fix_jumps dead om code i = fix_jumps dead om ?code (i + ?z)"
          using True live same(2) by (subst fix_jumps.simps) (simp add: Let_def)
        have unwalk: "walks code (i + ?z) s" if "walks ?code (i + ?z) s" for s
          using same(3) that by (intro same_from_walks [of code ?code "i + ?z"]) simp_all
        have forth: "walks ?code (i + ?z) s" if "walks code (i + ?z) s" for s
          using same(3) that by (intro same_from_walks [of ?code code "i + ?z"]) simp_all
        have size: "instruction_size ?code s = instruction_size code s" if "i + ?z \<le> s" "s < length code" for s
          using same(3) that by (intro same_from_size [of ?code code "i + ?z"]) simp_all
        have fits': "fits_from ?code (i + ?z)"
          using 1(3) walk unwalk size walks_le [of code "i + ?z"] by (auto simp: fits_from_def)
        have marked: "dead ! s \<longleftrightarrow> is_dead_byte (?code ! s)" if "walks ?code (i + ?z) s" "s < length ?code" for s
          using 1(4) [of s] walk unwalk [OF that(1)] same(3) [of s] walks_le [OF that(1)] that(2) by simp
        have IH: "(k < i + ?z \<longrightarrow> k < length code \<longrightarrow> fix_jumps dead om ?code (i + ?z) ! k = ?code ! k) \<and>
          (walks ?code (i + ?z) s \<longrightarrow> s < length code \<longrightarrow> \<not> dead ! s \<longrightarrow> s \<le> k \<longrightarrow> k < s + instruction_size ?code s \<longrightarrow>
            fix_jumps dead om ?code (i + ?z) ! k = fix_jump om ?code s ! k)"
          using 1(2) [OF True live refl] fits' marked same(2) by simp
        have there: "fix_jump om ?code s ! k = fix_jump om code s ! k"
          if "walks code (i + ?z) s" "s < length code" "s \<le> k" "k < s + instruction_size code s"
        proof (cases "is_jump (code ! s)")
          case True
          have "s + instruction_size code s \<le> length code" using 1(3) walk that(1,2) by (simp add: fits_from_def)
          then show ?thesis
            using jump_size [OF True] same(3) walks_le [OF that(1)] that by (intro fix_jump_cong) simp_all
        next
          case False
          have "s + instruction_size code s \<le> length code" using 1(3) walk that(1,2) by (simp add: fits_from_def)
          then show ?thesis using False same(3) [of s] same(3) [of k] walks_le [OF that(1)] that by (simp add: fix_jump_not)
        qed
        show ?thesis
          using IH fits walk forth size [of s] there same(4) [of k] walks_le [of code "i + ?z" s] unfolding eq by auto
      qed
    qed
  qed
  then show "k < i \<Longrightarrow> k < length code \<Longrightarrow> fix_jumps dead om code i ! k = code ! k"
    "walks code i s \<Longrightarrow> s < length code \<Longrightarrow> \<not> dead ! s \<Longrightarrow> s \<le> k \<Longrightarrow> k < s + instruction_size code s \<Longrightarrow>
      fix_jumps dead om code i ! k = fix_jump om code s ! k" by blast+
qed

section \<open>Where instructions and jumps go\<close>

definition moved :: "byte list \<Rightarrow> nat \<Rightarrow> nat" where
  "moved code k = live_before (dead_mask code) k"

definition squeezed :: "byte list \<Rightarrow> byte list" where
  "squeezed code =
     keep_live (dead_mask code) (fix_jumps (dead_mask code) (build_offset_map (dead_mask code) 0) code 0)"

lemma moved_0 [simp]: "moved code 0 = 0"
  by (simp add: moved_def)

lemma moved_mono: "j \<le> k \<Longrightarrow> moved code j \<le> moved code k"
  by (simp add: moved_def live_before_mono)

lemma moved_le: "k \<le> length code \<Longrightarrow> moved code k \<le> k"
  by (simp add: moved_def live_before_le)

lemma moved_diff: "j \<le> k \<Longrightarrow> k \<le> length code \<Longrightarrow> moved code k - moved code j \<le> k - j"
  by (simp add: moved_def live_before_diff)

lemma length_squeezed: "length (squeezed code) = moved code (length code)"
  by (simp add: squeezed_def moved_def length_keep_live)

lemma offset_map_moved: "k \<le> length code \<Longrightarrow> build_offset_map (dead_mask code) 0 ! k = moved code k"
  by (simp add: build_offset_map_nth moved_def)

lemma starts_interior:
  "walks code 0 s \<Longrightarrow> s < length code \<Longrightarrow> s < t \<Longrightarrow> walks code 0 t \<Longrightarrow> s + instruction_size code s \<le> t"
  using walks_linear [of code 0 s t] walks_le [OF walks_second [of code s t]] by simp

abbreviation live_starts :: "byte list \<Rightarrow> nat set" where
  "live_starts code \<equiv> {s \<in> starts code. \<not> is_dead_byte (code ! s)}"

lemma moved_add:
  assumes "s \<in> live_starts code" and "s + instruction_size code s \<le> length code" and "k \<le> instruction_size code s"
  shows "moved code (s + k) = moved code s + k"
  using assms(3)
proof (induction k)
  case (Suc k)
  have inside: "s + k < length code" using Suc.prems assms(2) by simp
  have "\<not> (walks code 0 (s + k) \<and> is_dead_byte (code ! (s + k)))"
  proof (cases "k = 0")
    case True
    with assms(1) show ?thesis by simp
  next
    case False
    with starts_interior [of code s "s + k"] assms(1) Suc.prems show ?thesis by auto
  qed
  then have "\<not> dead_mask code ! (s + k)" using inside by (simp add: dead_mask_nth)
  with live_before_Suc [of "s + k" "dead_mask code"] inside Suc show ?case by (simp add: moved_def)
qed simp

lemma moved_dead: "s \<in> starts code \<Longrightarrow> is_dead_byte (code ! s) \<Longrightarrow> moved code (s + 1) = moved code s"
  using live_before_Suc [of s "dead_mask code"] by (simp add: moved_def dead_mask_nth)

lemma moved_inside:
  assumes "s \<in> live_starts code" and "s + instruction_size code s \<le> length code"
  shows "moved code s + instruction_size code s \<le> length (squeezed code)"
  using moved_add [OF assms order_refl] moved_mono [OF assms(2), of code] by (simp add: length_squeezed)

lemma squeezed_nth:
  assumes ok: "fits_from code 0" and s: "s \<in> live_starts code" and k: "k < instruction_size code s"
  shows "squeezed code ! (moved code s + k) =
    fix_jump (build_offset_map (dead_mask code) 0) code s ! (s + k)"
proof -
  let ?dead = "dead_mask code" and ?om = "build_offset_map (dead_mask code) 0"
  have fits: "s + instruction_size code s \<le> length code" using ok s by (simp add: fits_from_def)
  have inside: "s + k < length code" using fits k by linarith
  have live: "\<not> ?dead ! (s + k)"
    unfolding dead_mask_nth [OF inside] using starts_interior [of code s "s + k"] s k by (cases "k = 0") auto
  have "squeezed code ! (moved code s + k) = squeezed code ! moved code (s + k)"
    using moved_add [OF s fits, of k] k by simp
  also have "\<dots> = fix_jumps ?dead ?om code 0 ! (s + k)"
    unfolding squeezed_def moved_def by (rule keep_live_nth) (use k fits live in auto)
  also have "\<dots> = fix_jump ?om code s ! (s + k)"
    using s k dead_mask_nth by (intro fix_jumps_nth(2) [OF ok]) auto
  finally show ?thesis .
qed

lemma squeezed_first:
  assumes "fits_from code 0" and "s \<in> live_starts code"
  shows "squeezed code ! moved code s = code ! s"
proof -
  have fits: "s + instruction_size code s \<le> length code" using assms by (simp add: fits_from_def)
  from squeezed_nth [OF assms, of 0] fix_jump_same(1) [OF fits] show ?thesis by simp
qed

lemma squeezed_plain:
  assumes "fits_from code 0" and "s \<in> live_starts code" and "\<not> is_jump (code ! s)" and "k < instruction_size code s"
  shows "squeezed code ! (moved code s + k) = code ! (s + k)"
  using squeezed_nth [OF assms(1,2,4)] assms(3) by (simp add: fix_jump_not)

lemma squeezed_size:
  assumes ok: "fits_from code 0" and s: "s \<in> live_starts code"
  shows "instruction_size (squeezed code) (moved code s) = instruction_size code s"
proof (cases "is_jump (code ! s)")
  case True
  then show ?thesis using squeezed_first [OF assms] jump_size [of code s] jump_size [of "squeezed code" "moved code s"] by simp
next
  case False
  have fits: "s + instruction_size code s \<le> length code" using assms by (simp add: fits_from_def)
  note inside = moved_inside [OF s fits]
  consider (make) "code ! s = Op_MakeRecord" | (update) "code ! s = Op_RecordWith"
    | (other) "code ! s \<noteq> Op_MakeRecord" "code ! s \<noteq> Op_RecordWith" by blast
  then show ?thesis
  proof cases
    case make
    then have size: "4 \<le> instruction_size code s" by (simp add: instruction_size_def)
    then have "squeezed code ! (moved code s + 3) = code ! (s + 3)" using squeezed_plain [OF assms False, of 3] by simp
    then show ?thesis using make squeezed_first [OF assms] size fits inside by (simp add: instruction_size_def)
  next
    case update
    then have size: "2 \<le> instruction_size code s" by (simp add: instruction_size_def)
    then have "squeezed code ! (moved code s + 1) = code ! (s + 1)" using squeezed_plain [OF assms False, of 1] by simp
    then show ?thesis using update squeezed_first [OF assms] size fits inside by (simp add: instruction_size_def)
  next
    case other
    then show ?thesis using squeezed_first [OF assms] by (simp add: instruction_size_def)
  qed
qed

text \<open>The operand of a jump after compaction.\<close>

lemma squeezed_operand:
  assumes ok: "fits_from code 0" and s: "s \<in> live_starts code" and jump: "is_jump (code ! s)"
  shows "opt_read_u32 (squeezed code) (moved code s + 1) =
    opt_read_u32 (fix_jump (build_offset_map (dead_mask code) 0) code s) (s + 1)"
proof -
  have "s + instruction_size code s \<le> length code" using ok s by (simp add: fits_from_def)
  then have fits: "s + 5 \<le> length code" using jump_size [OF jump] by simp
  have inside: "moved code s + 5 \<le> length (squeezed code)" using moved_inside [OF s] jump_size [OF jump] fits by simp
  note nth = squeezed_nth [OF ok s, unfolded jump_size [OF jump]]
  from nth [of 1] nth [of 2] nth [of 3] nth [of 4] fits inside show ?thesis
    by (simp add: opt_read_u32_def read_u32_be_def eval_nat_numeral)
qed

text \<open>A jump of the old code and its target, and where both are in the new code.\<close>

lemma squeezed_target:
  assumes ok: "fits_from code 0" and small: "length code < 2 ^ 32"
    and s: "s \<in> live_starts code" and jump: "is_jump (code ! s)"
  shows "code ! s \<noteq> Op_Loop \<Longrightarrow> target_of code s \<le> length code \<Longrightarrow>
      target_of (squeezed code) (moved code s) = moved code (target_of code s)"
    and "code ! s \<noteq> Op_Loop \<Longrightarrow> length code < target_of code s \<Longrightarrow>
      length (squeezed code) < target_of (squeezed code) (moved code s)"
    and "code ! s = Op_Loop \<Longrightarrow> unat (opt_read_u32 code (s + 1)) \<le> s + 5 \<Longrightarrow>
      target_of (squeezed code) (moved code s) = moved code (target_of code s) \<and>
      unat (opt_read_u32 (squeezed code) (moved code s + 1)) \<le> moved code s + 5"
    and "code ! s = Op_Loop \<Longrightarrow> s + 5 < unat (opt_read_u32 code (s + 1)) \<Longrightarrow>
      moved code s + 5 < unat (opt_read_u32 (squeezed code) (moved code s + 1))"
proof -
  let ?om = "build_offset_map (dead_mask code) 0" and ?off = "unat (opt_read_u32 code (s + 1))" and ?sq = "squeezed code"
  have size: "instruction_size code s = 5" by (rule jump_size [OF jump])
  have "s + instruction_size code s \<le> length code" using ok s by (simp add: fits_from_def)
  with size have fits: "s + 5 \<le> length code" by simp
  have after: "moved code (s + 5) = moved code s + 5" using moved_add [OF s, of 5] size fits by simp
  have inside: "moved code s + 5 \<le> length ?sq" using moved_inside [OF s] size fits by simp
  have first: "?sq ! moved code s = code ! s" by (rule squeezed_first [OF ok s])
  note operand = squeezed_operand [OF ok s jump]
  have om: "?om ! k = moved code k" if "k \<le> length code" for k using that by (rule offset_map_moved)
  have word: "unat (word_of_nat k :: u32) = k" if "k \<le> length code" for k
    using that small by (simp add: unat_of_nat)
  have read: "opt_read_u32 code (s + 1) = read_u32_be (drop (s + 1) code)" by (simp add: opt_read_u32_def)
  show "target_of ?sq (moved code s) = moved code (target_of code s)"
    if "code ! s \<noteq> Op_Loop" "target_of code s \<le> length code"
  proof -
    have t: "target_of code s = s + 5 + ?off" using that by (simp add: target_of_def)
    have forward: "is_forward_jump (code ! s)" using jump that by (simp add: is_jump_iff)
    have "opt_read_u32 ?sq (moved code s + 1) = word_of_nat (moved code (s + 5 + ?off) - moved code (s + 5))"
      unfolding operand using forward that t fits om [of "s + 5"] om [of "s + 5 + ?off"]
      by (simp add: fix_jump_def Let_def k_jump_instruction_size_def opt_read_u32_def)
    moreover have "moved code (s + 5 + ?off) - moved code (s + 5) \<le> length code"
      using moved_le [of "s + 5 + ?off" code] that t by simp
    ultimately have "unat (opt_read_u32 ?sq (moved code s + 1)) = moved code (s + 5 + ?off) - moved code (s + 5)"
      using word by simp
    then show ?thesis
      using that first t after moved_mono [of "s + 5" "s + 5 + ?off" code] by (simp add: target_of_def)
  qed
  show "length ?sq < target_of ?sq (moved code s)" if "code ! s \<noteq> Op_Loop" "length code < target_of code s"
  proof -
    have t: "target_of code s = s + 5 + ?off" using that by (simp add: target_of_def)
    have forward: "is_forward_jump (code ! s)" using jump that by (simp add: is_jump_iff)
    have "opt_read_u32 ?sq (moved code s + 1) = opt_read_u32 code (s + 1)"
      unfolding operand using forward that t
      by (simp add: fix_jump_def Let_def k_jump_instruction_size_def opt_read_u32_def)
    moreover have "moved code (length code) - moved code (s + 5) \<le> length code - (s + 5)"
      using fits by (intro moved_diff) simp_all
    ultimately show ?thesis
      using that first t after fits by (simp add: target_of_def length_squeezed)
  qed
  show "target_of ?sq (moved code s) = moved code (target_of code s) \<and>
      unat (opt_read_u32 ?sq (moved code s + 1)) \<le> moved code s + 5"
    if "code ! s = Op_Loop" "?off \<le> s + 5"
  proof -
    have t: "target_of code s = s + 5 - ?off" using that by (simp add: target_of_def)
    have not_forward: "\<not> is_forward_jump (code ! s)" using that by (simp add: is_forward_jump_iff)
    have le: "s + 5 - ?off \<le> length code" using fits by linarith
    have "s + 5 - ?off < length (build_offset_map (dead_mask code) 0)" using le by simp
    note om = om this
    have "opt_read_u32 ?sq (moved code s + 1) = word_of_nat (moved code (s + 5) - moved code (s + 5 - ?off))"
      unfolding operand using not_forward that fits om(1) [of "s + 5"] om(1) [OF le] om(2)
      by (simp add: fix_jump_def Let_def k_jump_instruction_size_def opt_read_u32_def)
    moreover have "moved code (s + 5) - moved code (s + 5 - ?off) \<le> length code"
      using moved_le [of "s + 5" code] fits by simp
    ultimately have "unat (opt_read_u32 ?sq (moved code s + 1)) = moved code (s + 5) - moved code (s + 5 - ?off)"
      using word by simp
    then show ?thesis
      using that first t after moved_mono [of "s + 5 - ?off" "s + 5" code] by (simp add: target_of_def)
  qed
  show "moved code s + 5 < unat (opt_read_u32 ?sq (moved code s + 1))"
    if "code ! s = Op_Loop" "s + 5 < ?off"
  proof -
    have not_forward: "\<not> is_forward_jump (code ! s)" using that by (simp add: is_forward_jump_iff)
    have "opt_read_u32 ?sq (moved code s + 1) = opt_read_u32 code (s + 1)"
      unfolding operand using not_forward that
      by (simp add: fix_jump_def Let_def k_jump_instruction_size_def opt_read_u32_def)
    with that moved_le [of s code] fits show ?thesis by simp
  qed
qed

section \<open>Compaction keeps code well formed\<close>

lemma code_ok_fits: "code_ok c \<Longrightarrow> fits_from (ch_code c) 0"
  by (auto simp: code_ok_def fits_from_def)

lemma compact_eq:
  "ch_code (fst (compact c)) = squeezed (ch_code c) \<or> fst (compact c) = c"
  "ch_constants (fst (compact c)) = ch_constants c"
  by (simp_all add: compact_def squeezed_def Let_def)

lemma squeezed_walks:
  assumes "fits_from code 0" and "walks code a b" and "walks code 0 a" and "b \<le> length code"
  shows "walks (squeezed code) (moved code a) (moved code b)"
  using assms(2-4)
proof (induction rule: walks.induct)
  case (walks_step a b)
  have IH: "walks (squeezed code) (moved code (a + instruction_size code a)) (moved code b)"
    using walks_step walks_next [of code 0 a] by simp
  have start: "a \<in> starts code" using walks_step by simp
  show ?case
  proof (cases "is_dead_byte (code ! a)")
    case True
    with IH moved_dead [OF start] show ?thesis by simp
  next
    case False
    then have live: "a \<in> live_starts code" using start by simp
    then have fits: "a + instruction_size code a \<le> length code" using assms(1) by (simp add: fits_from_def)
    have "moved code a < length (squeezed code)"
      using moved_inside [OF live fits] instruction_size_pos [of code a] by linarith
    with IH moved_add [OF live fits order_refl] squeezed_size [OF assms(1) live] show ?thesis
      by (auto intro: walks.walks_step)
  qed
qed (rule walks_refl)

text \<open>The first live instruction at or after a start, when any is left.\<close>

lemma next_live:
  assumes "fits_from code 0" and "walks code 0 s" and "s \<le> length code" and "moved code s < moved code (length code)"
  obtains t where "t \<in> live_starts code" "moved code t = moved code s"
proof -
  have "\<exists>t \<in> live_starts code. moved code t = moved code s"
    using assms(2-4)
  proof (induction "length code - s" arbitrary: s rule: less_induct)
    case less
    have inside: "s < length code" using less.prems by (cases "s = length code") auto
    show ?case
    proof (cases "is_dead_byte (code ! s)")
      case True
      then have step: "moved code (s + 1) = moved code s" using moved_dead less.prems inside by simp
      moreover have "walks code 0 (s + 1)" using walks_next [of code 0 s] less.prems inside True by simp
      ultimately have "\<exists>t \<in> live_starts code. moved code t = moved code (s + 1)"
        using less.hyps [of "s + 1"] less.prems inside by simp
      with step show ?thesis by simp
    next
      case False
      with less.prems inside show ?thesis by auto
    qed
  qed
  with that show thesis by blast
qed

lemma squeezed_starts:
  assumes fits: "fits_from code 0" and x: "x \<in> starts (squeezed code)"
  obtains s where "s \<in> live_starts code" "x = moved code s"
proof -
  have reach: "walks (squeezed code) a b \<Longrightarrow> walks code 0 s \<Longrightarrow> s \<le> length code \<Longrightarrow> a = moved code s \<Longrightarrow>
    \<exists>t. walks code 0 t \<and> t \<le> length code \<and> b = moved code t" for a b s
  proof (induction arbitrary: s rule: walks.induct)
    case (walks_step a b)
    then obtain t where t: "t \<in> live_starts code" "moved code t = a"
      using next_live [OF fits walks_step.prems(1,2)] by (auto simp: length_squeezed)
    have inside: "t + instruction_size code t \<le> length code" using fits t by (simp add: fits_from_def)
    show ?case
      using walks_step.IH [of "t + instruction_size code t"] t inside moved_add [OF t(1) inside order_refl]
        squeezed_size [OF fits t(1)] walks_next [of code 0 t] by auto
  qed auto
  from x have "walks (squeezed code) 0 x" by simp
  from reach [OF this walks_refl le0 moved_0 [symmetric]] obtain t where
    t: "walks code 0 t" "t \<le> length code" "x = moved code t" by blast
  have "moved code t < moved code (length code)" using x t(3) by (simp add: length_squeezed)
  then obtain u where "u \<in> live_starts code" "moved code u = moved code t" by (rule next_live [OF fits t(1,2)])
  with t(3) that show thesis by simp
qed

lemma squeezed_targets:
  assumes ok: "code_ok c" and s: "s \<in> live_starts (ch_code c)" and t: "t \<in> target_set (squeezed (ch_code c)) (moved (ch_code c) s)"
  shows "walks (squeezed (ch_code c)) 0 t \<or> length (squeezed (ch_code c)) \<le> t"
proof -
  let ?code = "ch_code c" and ?sq = "squeezed (ch_code c)" and ?m = "moved (ch_code c) s"
  note fits = code_ok_fits [OF ok]
  have small: "length ?code < 2 ^ 32" using ok by (simp add: code_ok_def)
  have first: "?sq ! ?m = ?code ! s" by (rule squeezed_first [OF fits s])
  have jump: "is_jump (?code ! s)" using t first by (auto simp: target_set_def is_jump_iff Let_def split: if_splits)
  have size: "instruction_size ?code s = 5" by (rule jump_size [OF jump])
  have start: "s \<in> starts ?code" using s by simp
  have room: "s + 5 \<le> length ?code" using code_okD(1) [OF ok start] size by simp
  note target = squeezed_target [OF fits small s jump]
  have land: "walks ?sq 0 (moved ?code u) \<or> length ?sq \<le> moved ?code u" if "u \<in> target_set ?code s" for u
  proof (cases "length ?code \<le> u")
    case True
    then show ?thesis using moved_mono [OF True, of ?code] by (simp add: length_squeezed)
  next
    case False
    with code_okD(2) [OF ok start that] have "u \<in> starts ?code" by auto
    with squeezed_walks [OF fits, of 0 u] show ?thesis by (simp add: walks_refl)
  qed
  have new: "t = target_of ?sq ?m" "?code ! s = Op_Loop \<Longrightarrow> unat (opt_read_u32 ?sq (?m + 1)) \<le> ?m + 5"
    using t first jump
    by (auto simp: target_set_def target_of_def is_jump_iff is_forward_jump_iff k_jump_instruction_size_def Let_def split: if_splits)
  show ?thesis
  proof (cases "?code ! s = Op_Loop")
    case True
    with target(4) new(2) have off: "unat (opt_read_u32 ?code (s + 1)) \<le> s + 5" by fastforce
    then have "target_of ?code s \<in> target_set ?code s"
      using True room by (simp add: target_set_def target_of_def is_forward_jump_iff k_u32_operand_size_def k_jump_instruction_size_def)
    with land target(3) [OF True off] new(1) show ?thesis by auto
  next
    case False
    then have "is_forward_jump (?code ! s)" using jump by (simp add: is_jump_iff)
    then have "target_of ?code s \<in> target_set ?code s"
      using False room by (simp add: target_set_def target_of_def k_u32_operand_size_def k_jump_instruction_size_def)
    with land target(1,2) [OF False] new(1) show ?thesis by (cases "target_of ?code s \<le> length ?code") auto
  qed
qed

lemma squeezed_code_ok:
  assumes ok: "code_ok c" and c': "ch_code c' = squeezed (ch_code c)" "ch_constants c' = ch_constants c"
  shows "code_ok c'"
proof -
  let ?code = "ch_code c" and ?sq = "squeezed (ch_code c)"
  note fits = code_ok_fits [OF ok]
  have "x + instruction_size ?sq x \<le> length ?sq \<and>
      (\<forall>t \<in> target_set ?sq x. t \<in> starts ?sq \<or> length ?sq \<le> t) \<and>
      (?sq ! x = Op_Constant \<longrightarrow> unat (opt_read_u16 ?sq (x + 1)) < cp_size (ch_constants c))"
    if x: "x \<in> starts ?sq" for x
  proof -
    from squeezed_starts [OF fits x] obtain s where s: "s \<in> live_starts ?code" "x = moved ?code s" .
    have start: "s \<in> starts ?code" using s by simp
    note room = code_okD(1) [OF ok start]
    have "opt_read_u16 ?sq (x + 1) = opt_read_u16 ?code (s + 1)" if op: "?code ! s = Op_Constant"
    proof -
      have size: "instruction_size ?code s = 3" by (rule constant_size [OF op])
      have "\<not> is_jump (?code ! s)" using is_jump_plain op by simp
      note nth = squeezed_plain [OF fits s(1) this, unfolded size]
      from nth [of 1] nth [of 2] moved_inside [OF s(1) room] room size show ?thesis
        by (simp add: s(2) opt_read_u16_def read_u16_be_def numeral_2_eq_2)
    qed
    then show ?thesis
      using moved_inside [OF s(1) room] squeezed_size [OF fits s(1)] squeezed_first [OF fits s(1)]
        code_okD(3) [OF ok start] squeezed_targets [OF ok s(1)] s(2) by fastforce
  qed
  moreover have "length ?sq < 2 ^ 32" using moved_le [of "length ?code" ?code] ok by (simp add: length_squeezed code_ok_def)
  ultimately show ?thesis using ok unfolding code_ok_def c' by blast
qed

section \<open>Compaction keeps what the code does\<close>

lemma sim_at_stuck:
  assumes "frame_handler env (ch_code (cf_chunk f) ! s) = None"
    and "ch_code (cf_chunk f) ! s \<notin> {Op_Return, Op_GetLocalReturn, Op_EndModule}" "\<not> is_dead_byte (ch_code (cf_chunk f) ! s)"
  shows "sim_at env f g C \<mu> s"
proof -
  have "frame_step env (reloc f s vm) = None" "frame_exit (reloc f s vm) = None" for vm
    using assms by (simp_all add: frame_step_def frame_exit_def Let_def)
  then have "\<not> leaves_after env n (reloc f s vm) out" for n vm out by (auto elim: leaves_after.cases)
  then show ?thesis by (simp add: sim_at_def)
qed

lemma squeezed_sim:
  assumes ok: "code_ok c" and c': "ch_code c' = squeezed (ch_code c)" "ch_constants c' = ch_constants c"
    and s: "s \<in> starts (ch_code c)"
  shows "sim_at env (f\<lparr>cf_chunk := c\<rparr>) (f\<lparr>cf_chunk := c'\<rparr>) (starts (ch_code c)) (moved (ch_code c)) s"
proof (cases "is_dead_byte (ch_code c ! s)")
  case True
  with moved_dead [OF s True] walks_next [of "ch_code c" 0 s] s show ?thesis
    by (intro sim_at_dead) auto
next
  case live: False
  let ?code = "ch_code c" and ?sq = "squeezed (ch_code c)"
  note fits = code_ok_fits [OF ok] and room = code_okD(1) [OF ok s]
  have small: "length ?code < 2 ^ 32" using ok by (simp add: code_ok_def)
  have s': "s \<in> live_starts ?code" using s live by simp
  note first = squeezed_first [OF fits s'] and inside = moved_inside [OF s' room]
  show ?thesis
  proof (cases "?code ! s = Op_TryCatch")
    case True
    then have "frame_handler env (?code ! s) = None" by (simp add: frame_handler_def modelled_handler_def)
    with True show ?thesis by (intro sim_at_stuck) (simp_all add: is_dead_byte_def k_dead_byte_def)
  next
    case False
    have plain: "\<not> is_jump (?code ! s)" if "?code ! s \<notin> set jump_ops"
      using that False by (auto simp: is_jump_iff is_forward_jump_iff jump_ops_def)
    have same: "same_instr c s c' (moved ?code s)"
      unfolding same_instr_def Let_def c'
      using first inside squeezed_plain [OF fits s' plain] code_okD(3) [OF ok s] by auto
    have target: "target_of ?code s \<in> starts ?code \<and> target_valid ?sq (moved ?code s) \<and>
        target_of ?sq (moved ?code s) = moved ?code (target_of ?code s)"
      if "?code ! s \<in> set jump_ops" "target_valid ?code s" "target_of ?code s < length ?code"
    proof -
      have jump: "is_jump (?code ! s)" using jump_ops_kinds [OF that(1)] by (auto simp: is_jump_iff)
      note target = squeezed_target [OF fits small s' jump]
      have "target_of ?code s \<in> target_set ?code s"
        using target_of_in_set [OF that(1) _ that(2)] room jump_ops_size [OF that(1)] by simp
      with code_okD(2) [OF ok s this] that(3) have "target_of ?code s \<in> starts ?code" by auto
      moreover have "moved ?code (target_of ?code s) \<le> length ?sq"
        using that(3) moved_mono [of "target_of ?code s" "length ?code" ?code] by (simp add: length_squeezed)
      ultimately show ?thesis
        using target that(2,3) first by (auto simp: target_valid_def split: if_splits)
    qed
    show ?thesis
    proof (rule sim_at_same)
      show "same_instr (cf_chunk (f\<lparr>cf_chunk := c\<rparr>)) s (cf_chunk (f\<lparr>cf_chunk := c'\<rparr>)) (moved ?code s)"
        using same by simp
      show "s + instruction_size (ch_code (cf_chunk (f\<lparr>cf_chunk := c\<rparr>))) s \<in> starts ?code \<and>
          moved ?code (s + instruction_size (ch_code (cf_chunk (f\<lparr>cf_chunk := c\<rparr>))) s) =
          moved ?code s + instruction_size (ch_code (cf_chunk (f\<lparr>cf_chunk := c\<rparr>))) s"
        if "s + instruction_size (ch_code (cf_chunk (f\<lparr>cf_chunk := c\<rparr>))) s < length (ch_code (cf_chunk (f\<lparr>cf_chunk := c\<rparr>)))"
        using that s walks_next [of ?code 0 s] moved_add [OF s' room order_refl] by simp
    qed (use live room target c' in auto)
  qed
qed

lemma compact_ok:
  assumes "code_ok c"
  shows "code_ok (fst (compact c))" and "preserves env c (fst (compact c))"
proof -
  have "code_ok (fst (compact c)) \<and> preserves env c (fst (compact c))"
  proof (cases "fst (compact c) = c")
    case True
    then show ?thesis using assms by (simp add: preserves_def)
  next
    case False
    with compact_eq(1) [of c] have c': "ch_code (fst (compact c)) = squeezed (ch_code c)" by blast
    note eq = c' compact_eq(2) [of c]
    have "leaves env (reloc (f\<lparr>cf_chunk := fst (compact c)\<rparr>) 0 vm) out"
      if run: "leaves env (reloc (f\<lparr>cf_chunk := c\<rparr>) 0 vm) out" for f :: compiled_function and vm out
    proof -
      have "0 \<in> starts (ch_code c)" using leaves_inside [OF run] by (simp add: walks_refl)
      from simulation [OF squeezed_sim [OF assms eq] this run] show ?thesis by simp
    qed
    with squeezed_code_ok [OF assms eq] show ?thesis by (simp add: preserves_def)
  qed
  then show "code_ok (fst (compact c))" "preserves env c (fst (compact c))" by simp_all
qed

end
