(* ===== verification/Optimizer_Correct.thy ===== *)
theory Optimizer_Correct
  imports Optimizer_Compact VM_Control_Props
begin

text \<open>
  The optimizer as a whole: the passes, the loop over them and the compaction keep what code the verifier
  accepts does, they never raise, and they report that nothing was eliminated only when nothing changed.
\<close>

section \<open>The passes together\<close>

lemma pass_refines:
  assumes "p \<in> set passes" and "pass_fn p (env_fpu env) c = Inr (c', n)" and "folding_env env" and "code_ok c"
  shows "refines env c c'"
proof -
  from assms(1) consider "pass_fn p = peephole_pass" | "pass_fn p = constant_fold_pass"
    | "pass_fn p = (\<lambda>_. unary_fold_pass)" | "pass_fn p = (\<lambda>_. comparison_fold_pass)"
    | "pass_fn p = (\<lambda>_. dead_code_pass)" | "pass_fn p = (\<lambda>_. jump_threading_pass)"
    | "pass_fn p = (\<lambda>_. dead_store_pass)" | "pass_fn p = (\<lambda>_. tail_call_pass)"
    by (auto simp: passes_def pass_def)
  then show ?thesis
    using assms(2-4)
    by cases (auto intro: peephole_pass_refines constant_fold_pass_refines unary_fold_pass_refines
      comparison_fold_pass_refines dead_code_pass_refines jump_threading_pass_refines dead_store_pass_refines
      tail_call_pass_refines)
qed

lemma run_passes_refines:
  assumes "run_passes (env_fpu env) level ps c e = Inr (c', n)" and "set ps \<subseteq> set passes"
    and "folding_env env" and "code_ok c"
  shows "refines env c c'"
  using assms
proof (induction ps arbitrary: c e)
  case Nil
  then show ?case by (simp add: refines_refl)
next
  case (Cons p ps)
  show ?case
  proof (cases "pass_min_level p \<le> level")
    case True
    with Cons.prems(1) obtain c1 m where p: "pass_fn p (env_fpu env) c = Inr (c1, m)"
      and rest: "run_passes (env_fpu env) level ps c1 (e + m) = Inr (c', n)" by (auto simp: and_then_Inr)
    have first: "refines env c c1" using pass_refines [OF _ p] Cons.prems by simp
    with Cons.IH [OF rest] Cons.prems show ?thesis by (auto intro: refines_trans refines_code_ok)
  next
    case False
    with Cons show ?thesis by simp
  qed
qed

lemma optimize_loop_refines:
  assumes "optimize_loop (env_fpu env) level k c e = Inr (c', n)" and "folding_env env" and "code_ok c"
  shows "refines env c c'"
  using assms
proof (induction k arbitrary: c e)
  case 0
  then show ?case by (simp add: refines_refl)
next
  case (Suc k)
  then obtain c1 m where run: "run_passes (env_fpu env) level passes c 0 = Inr (c1, m)"
    and rest: "(if m = 0 then Inr (c1, e) else optimize_loop (env_fpu env) level k c1 (e + m)) = Inr (c', n)"
    by (auto simp: and_then_Inr)
  have first: "refines env c c1" by (rule run_passes_refines [OF run order_refl Suc.prems(2,3)])
  show ?case
  proof (cases "m = 0")
    case True
    with rest first show ?thesis by simp
  next
    case False
    with rest have "optimize_loop (env_fpu env) level k c1 (e + m) = Inr (c', n)" by simp
    with Suc.IH Suc.prems(2) refines_code_ok [OF first] first show ?thesis by (blast intro: refines_trans)
  qed
qed

lemma optimize_ok:
  assumes "optimize (env_fpu env) level c = Inr (c', n)" and "folding_env env" and "code_ok c"
  shows "code_ok c'" and "preserves env c c'"
proof -
  have "code_ok c' \<and> preserves env c c'"
  proof (cases "level = 0 \<or> ch_code c = []")
    case True
    with assms show ?thesis by (auto simp: optimize_def preserves_def)
  next
    case False
    obtain c1 m where loop: "optimize_loop (env_fpu env) level k_max_optimizer_iterations c 0 = Inr (c1, m)"
      using assms(1) False by (auto simp: optimize_def and_then_Inr)
    then have c': "c' = (if 0 < m then fst (compact c1) else c1)"
      using assms(1) False by (auto simp: optimize_def split: if_split_asm)
    note ref = optimize_loop_refines [OF loop assms(2,3)]
    from compact_ok [OF refines_code_ok [OF ref]] ref c' show ?thesis
      by (auto simp: refines_def preserves_def)
  qed
  then show "code_ok c'" "preserves env c c'" by simp_all
qed

section \<open>No pass raises\<close>

lemma peephole_step_total: "peephole_step fp T c i \<noteq> Some (Inl e)"
proof
  assume step: "peephole_step fp T c i = Some (Inl e)"
  let ?n = "i + instruction_size (ch_code c) i"
  from step have "peephole_structural fp c i ?n = Some (Inl e)"
    unfolding peephole_step_def Let_def by (auto split: if_split_asm option.split_asm)
  then have "cp_size (ch_constants c) < k_max_constants \<and> (\<exists>v e'. add_constant c v = Inl e')"
    unfolding peephole_structural_def Let_def by (auto split: if_split_asm sum.split_asm)
  then show False using add_constant_ok [of c] by (metis Inl_Inr_False)
qed

lemma peephole_loop_total: "\<exists>c' n. peephole_loop fp T c i e = Inr (c', n)"
proof (induction fp T c i e rule: peephole_loop.induct)
  case (1 fp T c i e)
  show ?case
  proof (cases "i + 1 < length (ch_code c)")
    case True
    show ?thesis
    proof (cases "peephole_step fp T c i")
      case None
      with True show ?thesis by (simp add: peephole_loop.simps)
    next
      case (Some r)
      with peephole_step_total [of fp T c i] obtain c1 n i1 where r: "r = Inr (c1, n, i1)" by (cases r) auto
      with 1 [OF True Some r refl refl] Some True show ?thesis by (subst peephole_loop.simps) simp
    qed
  next
    case False
    then show ?thesis by (subst peephole_loop.simps) simp
  qed
qed

lemma apply_fold_total:
  obtains c1 b where "apply_fold_optimization fp c cand = Inr (c1, b)"
proof (cases "apply_fold_optimization fp c cand")
  case (Inl e)
  then have "cp_size (ch_constants c) < k_max_constants \<and> (\<exists>v e'. add_constant c v = Inl e')"
    unfolding apply_fold_optimization_def Let_def by (auto split: if_split_asm option.split_asm sum.split_asm)
  then show ?thesis using add_constant_ok [of c] by (metis Inl_Inr_False)
next
  case (Inr r)
  then show ?thesis using that by (cases r) simp
qed

lemma constant_fold_loop_total: "\<exists>c' n. constant_fold_loop fp T c i e = Inr (c', n)"
proof (induction fp T c i e rule: constant_fold_loop.induct)
  case (1 fp T c i e)
  show ?case
  proof (cases "find_foldable_pair (ch_code c) i")
    case None
    then show ?thesis by (subst constant_fold_loop.simps) simp
  next
    case (Some cand)
    let ?cross = "fc_op2_pos cand \<in> T \<or> fc_arith_pos cand \<in> T"
    show ?thesis
    proof (cases ?cross)
      case True
      with 1(1) [OF Some refl True] Some show ?thesis by (subst constant_fold_loop.simps) simp
    next
      case False
      obtain c1 b where fold: "apply_fold_optimization fp c cand = Inr (c1, b)" by (rule apply_fold_total)
      show ?thesis
      proof (cases b)
        case True
        with 1(2) [OF Some refl False fold refl True] Some False fold show ?thesis
          by (subst constant_fold_loop.simps) simp
      next
        case no: False
        with 1(3) [OF Some refl False fold refl no] Some False fold show ?thesis
          by (subst constant_fold_loop.simps) simp
      qed
    qed
  qed
qed

lemma unary_fold_step_total: "unary_fold_step T c i \<noteq> Some (Inl e)"
proof
  assume step: "unary_fold_step T c i = Some (Inl e)"
  then obtain v where "unary_fold_write c i v = Inl e" "cp_size (ch_constants c) < k_max_constants"
    unfolding unary_fold_step_def Let_def by (auto split: if_split_asm option.split_asm simp: not_le)
  moreover from this(2) obtain c1 idx where "add_constant c v = Inr (c1, idx)" using add_constant_ok by blast
  ultimately show False by (cases v) (auto simp: unary_fold_write_def)
qed

lemma unary_fold_loop_total: "\<exists>c' n. unary_fold_loop T c i e = Inr (c', n)"
proof (induction T c i e rule: unary_fold_loop.induct)
  case (1 T c i e)
  show ?case
  proof (cases "i + k_constant_instruction_size < length (ch_code c)")
    case True
    show ?thesis
    proof (cases "unary_fold_step T c i")
      case None
      with True show ?thesis by (simp add: unary_fold_loop.simps)
    next
      case (Some r)
      with unary_fold_step_total [of T c i] obtain c1 n i1 where r: "r = Inr (c1, n, i1)" by (cases r) auto
      with 1 [OF True Some r refl refl] Some True show ?thesis by (subst unary_fold_loop.simps) simp
    qed
  next
    case False
    then show ?thesis by (subst unary_fold_loop.simps) simp
  qed
qed

lemma pass_total:
  assumes "p \<in> set passes" shows "\<exists>c' n. pass_fn p fp c = Inr (c', n)"
proof -
  from assms consider "pass_fn p = peephole_pass" | "pass_fn p = constant_fold_pass"
    | "pass_fn p = (\<lambda>_. unary_fold_pass)" | "pass_fn p = (\<lambda>_. comparison_fold_pass)"
    | "pass_fn p = (\<lambda>_. dead_code_pass)" | "pass_fn p = (\<lambda>_. jump_threading_pass)"
    | "pass_fn p = (\<lambda>_. dead_store_pass)" | "pass_fn p = (\<lambda>_. tail_call_pass)"
    by (auto simp: passes_def pass_def)
  then show ?thesis
    by cases (simp_all add: peephole_pass_def constant_fold_pass_def unary_fold_pass_def comparison_fold_pass_def
      dead_code_pass_def jump_threading_pass_def dead_store_pass_def tail_call_pass_def peephole_loop_total
      constant_fold_loop_total unary_fold_loop_total case_prod_beta prod_eq_iff)
qed

lemma run_passes_total: "set ps \<subseteq> set passes \<Longrightarrow> \<exists>c' n. run_passes fp level ps c e = Inr (c', n)"
proof (induction ps arbitrary: c e)
  case (Cons p ps)
  with pass_total [of p fp c] show ?case by auto
qed simp

lemma optimize_loop_total: "\<exists>c' n. optimize_loop fp level k c e = Inr (c', n)"
proof (induction k arbitrary: c e)
  case (Suc k)
  with run_passes_total [OF order_refl, of fp level c 0] show ?case by auto
qed simp

lemma optimize_total: "\<exists>c' n. optimize fp level c = Inr (c', n)"
proof -
  obtain c1 m where "optimize_loop fp level k_max_optimizer_iterations c 0 = Inr (c1, m)"
    using optimize_loop_total by blast
  moreover obtain c2 k where "compact c1 = (c2, k)" by (cases "compact c1")
  ultimately show ?thesis by (simp add: optimize_def)
qed

section \<open>Nothing eliminated, nothing changed\<close>

lemma peephole_step_count: "peephole_step fp T c i = Some (Inr (c', 0, i')) \<Longrightarrow> c' = c"
  unfolding peephole_step_def peephole_structural_def Let_def
  by (auto split: if_split_asm option.split_asm sum.split_asm)

lemma peephole_loop_count:
  "peephole_loop fp T c i e = Inr (c', n) \<Longrightarrow> e \<le> n \<and> (n = e \<longrightarrow> c' = c)"
proof (induction fp T c i e rule: peephole_loop.induct)
  case (1 fp T c i e)
  show ?case
  proof (cases "i + 1 < length (ch_code c) \<and> peephole_step fp T c i \<noteq> None")
    case True
    then obtain r where r: "peephole_step fp T c i = Some r" by blast
    with peephole_step_total [of fp T c i] obtain c1 m i1 where r': "r = Inr (c1, m, i1)" by (cases r) auto
    with 1(2) True r have "peephole_loop fp T c1 i1 (e + m) = Inr (c', n)"
      by (subst (asm) peephole_loop.simps) simp
    with 1(1) [OF _ r r' refl refl] True have "e + m \<le> n \<and> (n = e + m \<longrightarrow> c' = c1)" by simp
    with peephole_step_count [of fp T c i c1 i1] r r' show ?thesis by auto
  next
    case False
    with 1(2) have "c' = c \<and> n = e" by (subst (asm) peephole_loop.simps) (auto split: if_split_asm)
    then show ?thesis by simp
  qed
qed

lemma constant_fold_loop_count:
  "constant_fold_loop fp T c i e = Inr (c', n) \<Longrightarrow> e \<le> n \<and> (n = e \<longrightarrow> c' = c)"
proof (induction fp T c i e rule: constant_fold_loop.induct)
  case (1 fp T c i e)
  show ?case
  proof (cases "find_foldable_pair (ch_code c) i")
    case None
    with 1(4) have "c' = c \<and> n = e" by (subst (asm) constant_fold_loop.simps) simp
    then show ?thesis by simp
  next
    case (Some cand)
    let ?cross = "fc_op2_pos cand \<in> T \<or> fc_arith_pos cand \<in> T"
    note loop = 1(4) [unfolded constant_fold_loop.simps [of fp T c i e] Some option.case Let_def]
    show ?thesis
    proof (cases ?cross)
      case True
      with loop have "constant_fold_loop fp T c (fc_i cand + k_constant_instruction_size) e = Inr (c', n)" by simp
      from 1(1) [OF Some refl True this] show ?thesis .
    next
      case False
      obtain c1 b where fold: "apply_fold_optimization fp c cand = Inr (c1, b)" by (rule apply_fold_total)
      show ?thesis
      proof (cases b)
        case True
        with loop False fold have "constant_fold_loop fp T c1 (fc_i cand) (e + (k_constant_instruction_size + 1)) = Inr (c', n)"
          by simp
        from 1(2) [OF Some refl False fold refl True this] show ?thesis by simp
      next
        case no: False
        with apply_fold_code(3) [OF fold] have c1: "c1 = c" by simp
        from no loop False fold have "constant_fold_loop fp T c1 (fc_i cand + k_constant_instruction_size) e = Inr (c', n)"
          by simp
        from 1(3) [OF Some refl False fold refl no this] c1 show ?thesis by simp
      qed
    qed
  qed
qed

lemma unary_fold_step_count: "unary_fold_step T c i = Some (Inr (c', 0, i')) \<Longrightarrow> c' = c"
proof -
  have "unary_fold_write c i v \<noteq> Inr (c', 0, i')" for v
    by (cases v) (auto simp: unary_fold_write_def Let_def split: sum.splits)
  then show "unary_fold_step T c i = Some (Inr (c', 0, i')) \<Longrightarrow> c' = c"
    unfolding unary_fold_step_def Let_def by (auto split: if_split_asm option.split_asm)
qed

lemma unary_fold_loop_count:
  "unary_fold_loop T c i e = Inr (c', n) \<Longrightarrow> e \<le> n \<and> (n = e \<longrightarrow> c' = c)"
proof (induction T c i e rule: unary_fold_loop.induct)
  case (1 T c i e)
  show ?case
  proof (cases "i + k_constant_instruction_size < length (ch_code c) \<and> unary_fold_step T c i \<noteq> None")
    case True
    then obtain r where r: "unary_fold_step T c i = Some r" by blast
    with unary_fold_step_total [of T c i] obtain c1 m i1 where r': "r = Inr (c1, m, i1)" by (cases r) auto
    with 1(2) True r have "unary_fold_loop T c1 i1 (e + m) = Inr (c', n)"
      by (subst (asm) unary_fold_loop.simps) simp
    with 1(1) [OF _ r r' refl refl] True have "e + m \<le> n \<and> (n = e + m \<longrightarrow> c' = c1)" by simp
    with unary_fold_step_count [of T c i c1 i1] r r' show ?thesis by auto
  next
    case False
    with 1(2) have "c' = c \<and> n = e" by (subst (asm) unary_fold_loop.simps) (auto split: if_split_asm)
    then show ?thesis by simp
  qed
qed

lemma comparison_fold_step_count: "comparison_fold_step T c i = Some (c', 0, i') \<Longrightarrow> c' = c"
  unfolding comparison_fold_step_def Let_def
  by (auto simp: k_cmp_fold_eliminated_def split: if_split_asm option.split_asm)

lemma comparison_fold_loop_count:
  "comparison_fold_loop T c i e = (c', n) \<Longrightarrow> e \<le> n \<and> (n = e \<longrightarrow> c' = c)"
proof (induction T c i e rule: comparison_fold_loop.induct)
  case (1 T c i e)
  show ?case
  proof (cases "i + k_cmp_fold_eliminated < length (ch_code c) \<and> comparison_fold_step T c i \<noteq> None")
    case True
    then obtain c1 m i1 where r: "comparison_fold_step T c i = Some (c1, m, i1)" by auto
    with 1(2) True have "comparison_fold_loop T c1 i1 (e + m) = (c', n)"
      by (subst (asm) comparison_fold_loop.simps) simp
    with 1(1) [OF _ r refl refl] True have "e + m \<le> n \<and> (n = e + m \<longrightarrow> c' = c1)" by simp
    with comparison_fold_step_count [of T c i c1 i1] r show ?thesis by auto
  next
    case False
    with 1(2) have "c' = c \<and> n = e" 
      by (cases "comparison_fold_step T c i"; subst (asm) comparison_fold_loop.simps) (auto split: if_split_asm)
    then show ?thesis by simp
  qed
qed

lemma dead_code_loop_count:
  "dead_code_loop T code i e = (code', n) \<Longrightarrow> e \<le> n \<and> (n = e \<longrightarrow> code' = code)"
proof (induction T code i e rule: dead_code_loop.induct)
  case (1 T code i e)
  let ?n = "i + instruction_size code i"
  let ?e = "find_dead_end T code ?n"
  note loop = 1(4) [unfolded dead_code_loop.simps [of T code i e] Let_def]
  consider (stop) "length code \<le> ?n" | (skip) "?n < length code" "\<not> is_terminator (code ! i)"
    | (empty) "?n < length code" "is_terminator (code ! i)" "\<not> ?n < ?e"
    | (region) "?n < length code" "is_terminator (code ! i)" "?n < ?e" by linarith
  then show ?case
  proof cases
    case stop
    with loop show ?thesis by (auto split: if_split_asm)
  next
    case skip
    then have i: "i < length code" by linarith
    with skip loop have "dead_code_loop T code ?n e = (code', n)" by simp
    from 1(3) [OF i refl _ skip(2) this] skip(1) show ?thesis by simp
  next
    case empty
    then have i: "i < length code" by linarith
    with empty loop have "dead_code_loop T code ?e e = (code', n)" by simp
    from 1(2) [OF i refl _ empty(2) refl empty(3) this] empty(1) show ?thesis by simp
  next
    case region
    then have i: "i < length code" by linarith
    with region loop have "dead_code_loop T (nop_out code ?n (?e - ?n)) ?e (e + (?e - ?n)) = (code', n)" by simp
    from 1(1) [OF i refl _ region(2) refl region(3) this] region(1) have "e + (?e - ?n) \<le> n" by simp
    with region(3) have "e < n" by linarith
    then show ?thesis by simp
  qed
qed

lemma jump_threading_step_count: "jump_threading_step code i = Some (code', 0, i') \<Longrightarrow> code' = code"
  unfolding jump_threading_step_def Let_def by (auto split: if_split_asm prod.split_asm)

lemma jump_threading_loop_count:
  "jump_threading_loop code i e = (code', n) \<Longrightarrow> e \<le> n \<and> (n = e \<longrightarrow> code' = code)"
proof (induction code i e rule: jump_threading_loop.induct)
  case (1 code i e)
  show ?case
  proof (cases "i < length code \<and> jump_threading_step code i \<noteq> None")
    case True
    then obtain c1 m i1 where r: "jump_threading_step code i = Some (c1, m, i1)" by auto
    with 1(2) True have "jump_threading_loop c1 i1 (e + m) = (code', n)"
      by (subst (asm) jump_threading_loop.simps) simp
    with 1(1) [OF _ r refl refl] True have "e + m \<le> n \<and> (n = e + m \<longrightarrow> code' = c1)" by simp
    with jump_threading_step_count [of code i c1 i1] r show ?thesis by auto
  next
    case False
    with 1(2) have "code' = code \<and> n = e"
      by (cases "jump_threading_step code i"; subst (asm) jump_threading_loop.simps) (auto split: if_split_asm)
    then show ?thesis by simp
  qed
qed

lemma dead_store_step_count: "dead_store_step code i = (code', 0, i') \<Longrightarrow> code' = code"
proof -
  assume step: "dead_store_step code i = (code', 0, i')"
  have "instruction_size code i - 1 \<noteq> 0" if "code ! i = Op_SetLocalPop"
    using that op_sizes(2) [of code i] by (simp add: slot_ops_def)
  with step show "code' = code"
    unfolding dead_store_step_def Let_def by (auto split: if_split_asm)
qed

lemma dead_store_loop_count:
  "dead_store_loop code i e = (code', n) \<Longrightarrow> e \<le> n \<and> (n = e \<longrightarrow> code' = code)"
proof (induction code i e rule: dead_store_loop.induct)
  case (1 code i e)
  show ?case
  proof (cases "i < length code")
    case True
    obtain c1 m i1 where r: "dead_store_step code i = (c1, m, i1)" by (cases "dead_store_step code i")
    with 1(2) True have "dead_store_loop c1 i1 (e + m) = (code', n)" by (subst (asm) dead_store_loop.simps) simp
    with 1(1) [OF True r [symmetric] refl] have "e + m \<le> n \<and> (n = e + m \<longrightarrow> code' = c1)" by simp
    with dead_store_step_count [of code i c1 i1] r show ?thesis by auto
  next
    case False
    with 1(2) show ?thesis by (subst (asm) dead_store_loop.simps) auto
  qed
qed

lemma tail_call_step_count: "tail_call_step code i = (code', 0, i') \<Longrightarrow> code' = code"
  unfolding tail_call_step_def Let_def by (auto split: if_split_asm)

lemma tail_call_loop_count:
  "tail_call_loop code i e = (code', n) \<Longrightarrow> e \<le> n \<and> (n = e \<longrightarrow> code' = code)"
proof (induction code i e rule: tail_call_loop.induct)
  case (1 code i e)
  show ?case
  proof (cases "i < length code")
    case True
    obtain c1 m i1 where r: "tail_call_step code i = (c1, m, i1)" by (cases "tail_call_step code i")
    with 1(2) True have "tail_call_loop c1 i1 (e + m) = (code', n)" by (subst (asm) tail_call_loop.simps) simp
    with 1(1) [OF True r [symmetric] refl] have "e + m \<le> n \<and> (n = e + m \<longrightarrow> code' = c1)" by simp
    with tail_call_step_count [of code i c1 i1] r show ?thesis by auto
  next
    case False
    with 1(2) show ?thesis by (subst (asm) tail_call_loop.simps) auto
  qed
qed

lemma pass_count:
  assumes "p \<in> set passes" and "pass_fn p fp c = Inr (c', 0)" shows "c' = c"
proof -
  from assms(1) consider "pass_fn p = peephole_pass" | "pass_fn p = constant_fold_pass"
    | "pass_fn p = (\<lambda>_. unary_fold_pass)" | "pass_fn p = (\<lambda>_. comparison_fold_pass)"
    | "pass_fn p = (\<lambda>_. dead_code_pass)" | "pass_fn p = (\<lambda>_. jump_threading_pass)"
    | "pass_fn p = (\<lambda>_. dead_store_pass)" | "pass_fn p = (\<lambda>_. tail_call_pass)"
    by (auto simp: passes_def pass_def)
  then show ?thesis
    using assms(2)
    by cases (auto simp: peephole_pass_def constant_fold_pass_def unary_fold_pass_def comparison_fold_pass_def
      dead_code_pass_def jump_threading_pass_def dead_store_pass_def tail_call_pass_def
      split: prod.split_asm if_split_asm
      dest: peephole_loop_count constant_fold_loop_count unary_fold_loop_count comparison_fold_loop_count
        dead_code_loop_count jump_threading_loop_count dead_store_loop_count tail_call_loop_count)
qed

lemma run_passes_count:
  "run_passes fp level ps c e = Inr (c', n) \<Longrightarrow> set ps \<subseteq> set passes \<Longrightarrow> e \<le> n \<and> (n = e \<longrightarrow> c' = c)"
proof (induction ps arbitrary: c e)
  case (Cons p ps)
  show ?case
  proof (cases "pass_min_level p \<le> level")
    case True
    with Cons.prems(1) obtain c1 m where p: "pass_fn p fp c = Inr (c1, m)"
      and rest: "run_passes fp level ps c1 (e + m) = Inr (c', n)" by (auto simp: and_then_Inr)
    from Cons.IH [OF rest] Cons.prems(2) have "e + m \<le> n \<and> (n = e + m \<longrightarrow> c' = c1)" by simp
    with pass_count [of p fp c c1] p Cons.prems(2) show ?thesis by (cases "m = 0") auto
  next
    case False
    with Cons.prems Cons.IH [of c e] show ?thesis by simp
  qed
qed simp

lemma optimize_loop_count:
  "optimize_loop fp level k c e = Inr (c', n) \<Longrightarrow> e \<le> n \<and> (n = e \<longrightarrow> c' = c)"
proof (induction k arbitrary: c e)
  case (Suc k)
  then obtain c1 m where run: "run_passes fp level passes c 0 = Inr (c1, m)"
    and rest: "(if m = 0 then Inr (c1, e) else optimize_loop fp level k c1 (e + m)) = Inr (c', n)"
    by (auto simp: and_then_Inr)
  from run_passes_count [OF run order_refl] rest Suc.IH [of c1 "e + m"] show ?case
    by (cases "m = 0") auto
qed simp

section \<open>Code the verifier accepts\<close>

lemma jump_target_set: "target_set code s \<subseteq> (case jump_target code s of None \<Rightarrow> {} | Some t \<Rightarrow> {t})"
  by (auto simp: target_set_def jump_target_def resolve_forward_jump_target_def resolve_loop_jump_target_def
      opt_read_u32_def jump_operand_def k_jump_instruction_size_def Let_def split: if_splits)

lemma starts_instr_starts: "code \<noteq> [] \<Longrightarrow> starts code = set (instr_starts code 0)"
  using walks_instr_starts [of 0 code] by auto

lemma verify_code_ok:
  assumes "verify func = Some []" and "cp_inv (ch_constants (cf_chunk func))" and "length (ch_code (cf_chunk func)) < 2 ^ 32"
  shows "code_ok (cf_chunk func)"
    and "s \<in> starts (ch_code (cf_chunk func)) \<Longrightarrow> \<not> is_dead_byte (ch_code (cf_chunk func) ! s)"
proof -
  let ?code = "ch_code (cf_chunk func)"
  have ne: "?code \<noteq> []" using assms(1) by (rule verify_Nil)
  note starts = starts_instr_starts [OF ne]
  have well: "instruction_fits ?code s \<and> operand_ok func s \<and>
      (\<forall>t. jump_target ?code s = Some t \<longrightarrow> t \<in> starts ?code \<or> length ?code \<le> t)" if "s \<in> starts ?code" for s
    using verify_linear [OF assms(1), of s] verify_targets [OF assms(1)] that
    unfolding starts by (fastforce simp: linear_ok_def targets_ok_def Let_def)
  have cat: "operand_category Op_Constant = Cat_Constant" by code_simp
  have "unat (opt_read_u16 ?code (s + 1)) < cp_size (ch_constants (cf_chunk func))"
    if "s \<in> starts ?code" "?code ! s = Op_Constant" for s
    using well [OF that(1)] that(2) cat by (simp add: operand_ok_def opt_read_u16_def)
  moreover have "t \<in> starts ?code \<or> length ?code \<le> t" if "s \<in> starts ?code" "t \<in> target_set ?code s" for s t
    using well [OF that(1)] jump_target_set [of ?code s] that(2) by (auto split: option.splits)
  ultimately show "code_ok (cf_chunk func)"
    unfolding code_ok_def using assms(2,3) well by (auto simp: instruction_fits_def)
  have dead: "\<not> k_dead_byte \<le> Op_EndModule" by (simp add: k_dead_byte_def)
  show "\<not> is_dead_byte (?code ! s)" if "s \<in> starts ?code"
    using well [OF that] dead by (auto simp: instruction_fits_def is_dead_byte_def)
qed

section \<open>Turns of the dispatch loop\<close>

fun run_turns :: "vm_env \<Rightarrow> nat \<Rightarrow> nat \<Rightarrow> vm \<Rightarrow> turn" where
  "run_turns env scope_base 0 vm = Continue vm"
| "run_turns env scope_base (Suc k) vm =
     (case run_turn env scope_base vm of
        Continue vm' \<Rightarrow> run_turns env scope_base k vm'
      | t \<Rightarrow> t)"

text \<open>
  How a frame ends: with the turn of a return, or with the turn of the end of a module, which keeps its
  frame.
\<close>

definition ends_frame :: "turn \<Rightarrow> vm \<Rightarrow> bool" where
  "ends_frame t out \<longleftrightarrow>
     t = finish_turn out \<or>
     (\<exists>vm. t = finish_turn vm \<and> dispatch_return_value vm = Some VNull \<and> out = vm\<lparr>frames := butlast (frames vm)\<rparr>)"

text \<open>Between turns no result is waiting; the frame's own instructions keep it so.\<close>

definition between_turns :: "vm \<Rightarrow> bool" where
  "between_turns vm \<longleftrightarrow> dispatch_return_value vm = None \<and> length (stack vm) \<le> k_max"

interpretation bt: stack_invariant between_turns
  by unfold_locales (auto simp: between_turns_def)

lemma between_turns_jumps:
  assumes "between_turns vm"
  shows "ok between_turns (\<lambda>vm. vm) (handle_loop env vm)" "ok between_turns (\<lambda>vm. vm) (handle_null_coalesce env vm)"
proof -
  have check: "ok between_turns (\<lambda>_. vm) (check_cancellation env vm)" if "between_turns vm" for vm
    using that by (simp add: check_cancellation_def)
  have counters: "between_turns (vm\<lparr>loop_iterations := n\<rparr>) = between_turns vm"
    "between_turns (vm\<lparr>total_loop_iterations := n\<rparr>) = between_turns vm" for vm n
    by (simp_all add: between_turns_def)
  show "ok between_turns (\<lambda>vm. vm) (handle_loop env vm)"
    unfolding handle_loop_def
    by (rule ok_and_then [OF bt.readers_ok(3) [OF assms]])
      (auto simp: Let_def counters intro!: ok_and_then [OF check] bt.set_ip)
  have jump: "ok between_turns (\<lambda>vm. vm) (coalesce_jump vm w)" if "between_turns vm" for vm w
    using that by (auto simp: coalesce_jump_def Let_def intro: bt.set_ip)
  show "ok between_turns (\<lambda>vm. vm) (handle_null_coalesce env vm)"
    unfolding handle_null_coalesce_def
    apply (rule ok_and_then [OF bt.readers_ok(3) [OF assms]], clarsimp)
    apply (rule ok_and_then [OF bt.peek_ok], assumption)
    apply (auto simp: peek_def split: val.split value_type.split prod.split if_splits
        intro!: jump bt.set_top_ok simp flip: length_greater_0_conv)
    done
qed

lemma frame_step_between:
  assumes "between_turns vm" and "frame_step env vm = Some vm1"
  shows "between_turns vm1"
proof (cases "is_dead_byte (vm_code vm ! vm_ip vm)")
  case True
  with assms show ?thesis by (auto simp: frame_step_def intro: bt.set_ip split: if_splits)
next
  case False
  with assms(2) obtain h where h: "frame_handler env (vm_code vm ! vm_ip vm) = Some h"
    "h (set_ip vm (vm_ip vm + 1)) = Inr vm1" by (auto simp: frame_step_def split: if_splits option.splits)
  have "ok between_turns (\<lambda>vm. vm) (h (set_ip vm (vm_ip vm + 1)))"
    using h(1) between_turns_jumps bt.modelled_handler_ok bt.set_ip [OF assms(1)]
    by (auto simp: frame_handler_def split: if_split_asm)
  with h(2) show ?thesis by simp
qed

lemma leaves_turns:
  assumes ok: "code_ok (cf_chunk f)"
    and live: "\<And>s. s \<in> starts (ch_code (cf_chunk f)) \<Longrightarrow> \<not> is_dead_byte (ch_code (cf_chunk f) ! s)"
    and run: "leaves env (reloc f s vm) out" and s: "s \<in> starts (ch_code (cf_chunk f))" and wf: "between_turns (reloc f s vm)"
  shows "\<exists>k. ends_frame (run_turns env scope_base k (reloc f s vm)) out"
proof -
  let ?code = "ch_code (cf_chunk f)"
  have "leaves_after env n (reloc f s vm) out \<Longrightarrow> s \<in> starts ?code \<Longrightarrow> between_turns (reloc f s vm) \<Longrightarrow>
    \<exists>k. ends_frame (run_turns env scope_base k (reloc f s vm)) out" for n s vm
  proof (induction n arbitrary: s vm)
    case (0 s vm)
    then have exits: "frame_exit (reloc f s vm) = Some out" by (auto elim: leaves_after.cases)
    have one: "run_turns env scope_base 1 vm = run_turn env scope_base vm" for vm
      by (cases "run_turn env scope_base vm") simp_all
    show ?case
    proof (cases "?code ! s = Op_EndModule")
      case False
      then have "run_turn env scope_base (reloc f s vm) = finish_turn out"
        using frame_exit_run_turn [OF exits] by simp
      then show ?thesis unfolding ends_frame_def by (intro exI [of _ 1]) (simp only: one simp_thms)
    next
      case True
      let ?vm = "(reloc f (s + 1) vm)\<lparr>dispatch_return_value := Some VNull\<rparr>"
      have "handler_of env Op_EndModule = Some op_end_module"
        by (simp add: handler_of_def control_handler_def modelled_handler_def)
      then have "run_turn env scope_base (reloc f s vm) = finish_turn ?vm"
        using True 0(2) by (simp add: run_turn_def ensure_bytecode_available_def op_end_module_def Let_def)
      moreover have "out = ?vm\<lparr>frames := butlast (frames ?vm)\<rparr>"
        using exits True 0(2) by (simp add: frame_exit_def op_end_module_def)
      ultimately show ?thesis
        unfolding ends_frame_def by (intro exI [of _ 1] disjI2 exI [of _ ?vm]) (simp add: one del: One_nat_def)
    qed
  next
    case (Suc n s vm)
    from Suc.prems(1) obtain vm1 where step: "frame_step env (reloc f s vm) = Some vm1" "leaves_after env n vm1 out"
      by (auto elim: leaves_after.cases)
    have alive: "\<not> is_dead_byte (?code ! s)" by (rule live) fact
    note fits = code_okD(1) [OF ok Suc.prems(2)]
    have wf1: "between_turns vm1" by (rule frame_step_between [OF Suc.prems(3) step(1)])
    have turn: "run_turn env scope_base (reloc f s vm) = Continue vm1"
      using frame_step_run_turn [OF step(1)] alive wf1 by (simp add: finish_turn_def between_turns_def)
    show ?case
    proof (rule step_cases [OF step(1) alive fits], goal_cases)
      case (1 b)
      let ?t = "if b then target_of ?code s else s + instruction_size ?code s"
      note self = reloc_self [OF 1(1)]
      have inside: "?t < length ?code" using leaves_after_inside [OF step(2)] unfolding 1(1) by simp
      have "?t \<in> starts ?code"
      proof (cases b)
        case True
        with 1(2) have jump: "?code ! s \<in> set jump_ops" "target_valid ?code s" by simp_all
        from target_of_in_set [OF jump(1) _ jump(2)] fits jump_ops_size [OF jump(1)]
        have "target_of ?code s \<in> target_set ?code s" by simp
        with code_okD(2) [OF ok Suc.prems(2) this] inside True show ?thesis by auto
      next
        case False
        with inside walks_next [of ?code 0 s] Suc.prems(2) show ?thesis by simp
      qed
      with Suc.IH [of ?t vm1] step(2) wf1 self obtain k where
        "ends_frame (run_turns env scope_base k vm1) out" by auto
      with turn show ?thesis by (intro exI [of _ "Suc k"]) simp
    qed
  qed
  with run s wf show ?thesis unfolding leaves_iff_after by blast
qed

section \<open>Nothing dead is left\<close>

lemma squeezed_live:
  assumes "code_ok c" and "x \<in> starts (squeezed (ch_code c))"
  shows "\<not> is_dead_byte (squeezed (ch_code c) ! x)"
  using squeezed_starts [OF code_ok_fits [OF assms(1)] assms(2)] squeezed_first [OF code_ok_fits [OF assms(1)]]
  by (metis (no_types, lifting) mem_Collect_eq)

lemma compact_cases:
  "fst (compact c) = c \<and> moved (ch_code c) (length (ch_code c)) = length (ch_code c) \<and> snd (compact c) = 0 \<or>
   ch_code (fst (compact c)) = squeezed (ch_code c) \<and>
   snd (compact c) = length (ch_code c) - length (ch_code (fst (compact c)))"
  using moved_le [of "length (ch_code c)" "ch_code c"]
  by (auto simp: compact_def squeezed_def [symmetric] length_squeezed offset_map_moved Let_def)

lemma nothing_dead:
  assumes "moved code (length code) = length code" and "s \<in> starts code"
  shows "\<not> is_dead_byte (code ! s)"
proof
  assume "is_dead_byte (code ! s)"
  with assms(2) have "moved code (s + 1) = moved code s" by (rule_tac moved_dead)
  moreover have "moved code (length code) - moved code (s + 1) \<le> length code - (s + 1)"
    using assms(2) by (intro moved_diff) simp_all
  moreover have "moved code s \<le> s" "s < length code" using assms(2) by (simp_all add: moved_le)
  ultimately show False using assms(1) by linarith
qed

lemma compact_live:
  assumes "code_ok c" and "s \<in> starts (ch_code (fst (compact c)))"
  shows "\<not> is_dead_byte (ch_code (fst (compact c)) ! s)"
  using compact_cases [of c] squeezed_live [OF assms(1)] nothing_dead [of "ch_code c"] assms(2) by metis

lemma optimize_live:
  assumes "optimize (env_fpu env) level c = Inr (c', n)" and "folding_env env" and "code_ok c"
    and live: "\<And>s. s \<in> starts (ch_code c) \<Longrightarrow> \<not> is_dead_byte (ch_code c ! s)" and s: "s \<in> starts (ch_code c')"
  shows "\<not> is_dead_byte (ch_code c' ! s)"
proof (cases "level = 0 \<or> ch_code c = []")
  case True
  with assms show ?thesis by (auto simp: optimize_def)
next
  case False
  obtain c1 m where loop: "optimize_loop (env_fpu env) level k_max_optimizer_iterations c 0 = Inr (c1, m)"
    using assms(1) False by (auto simp: optimize_def and_then_Inr)
  then have c': "c' = (if 0 < m then fst (compact c1) else c1)"
    using assms(1) False by (auto simp: optimize_def split: if_split_asm)
  note ok = refines_code_ok [OF optimize_loop_refines [OF loop assms(2,3)]]
  from optimize_loop_count [OF loop] compact_live [OF ok] live s c' show ?thesis by (cases "m = 0") auto
qed

section \<open>The guarantees\<close>

definition sample_optimized :: "byte list" where
  "sample_optimized = [Op_None, Op_Pop, Op_True, Op_Not, Op_Return]"

text \<open>C1: Optimizing a function the verifier accepts keeps what running it does: when its frame runs to its
  end with instructions of its own (no call, no error), then the dispatch loop ends the frame of the
  original and the frame of the optimized function in the same machine, at every level and after all passes,
  iterations and the compaction.\<close>

theorem optimize_keeps_behaviour:
  assumes "verify f = Some []" and "cp_inv (ch_constants (cf_chunk f))" and "length (ch_code (cf_chunk f)) < 2 ^ 32"
    and "folding_env env" and "optimize (env_fpu env) level (cf_chunk f) = Inr (c', n)"
    and "leaves env (reloc f 0 vm) out" and "between_turns vm"
  shows "\<exists>k k'. ends_frame (run_turns env scope_base k (reloc f 0 vm)) out \<and>
    ends_frame (run_turns env scope_base k' (reloc (f\<lparr>cf_chunk := c'\<rparr>) 0 vm)) out"
proof -
  let ?g = "f\<lparr>cf_chunk := c'\<rparr>"
  note ok = verify_code_ok(1) [OF assms(1-3)]
  note opt = optimize_ok [OF assms(5,4) ok]
  have f: "f\<lparr>cf_chunk := cf_chunk f\<rparr> = f" by simp
  have new: "leaves env (reloc ?g 0 vm) out" using opt(2) assms(6) unfolding preserves_def f by (metis f)
  have zero: "0 \<in> starts (ch_code (cf_chunk h))" if "leaves env (reloc h 0 vm) out" for h
    using leaves_inside [OF that] by (simp add: walks_refl)
  have wf: "between_turns (reloc h 0 vm)" for h using assms(7) by (simp add: between_turns_def reloc_def)
  have "\<exists>k. ends_frame (run_turns env scope_base k (reloc f 0 vm)) out"
    by (rule leaves_turns [OF ok verify_code_ok(2) [OF assms(1-3)] assms(6) zero [OF assms(6)] wf])
  moreover have "\<exists>k. ends_frame (run_turns env scope_base k (reloc ?g 0 vm)) out"
  proof (rule leaves_turns [OF _ _ new zero [OF new] wf])
    show "code_ok (cf_chunk ?g)" using opt(1) by simp
    show "\<not> is_dead_byte (ch_code (cf_chunk ?g) ! s)" if "s \<in> starts (ch_code (cf_chunk ?g))" for s
      using optimize_live [OF assms(5,4) ok verify_code_ok(2) [OF assms(1-3)]] that by simp
  qed
  ultimately show ?thesis by blast
qed

lemma sample_folding_env: "folding_env sample_env"
  by (simp add: folding_env_def sample_env_def k_max_folded_string_length_def)

lemma sample_optimized_verified: "verify (code_function sample_optimized 0) = Some []"
  by code_simp

lemma sample_optimized_simple: "s < 4 \<Longrightarrow> sample_optimized ! s \<in> set simple_ops"
proof -
  assume "s < 4"
  then have "s = 0 \<or> s = 1 \<or> s = 2 \<or> s = 3" by linarith
  then show ?thesis by (elim disjE) (simp_all add: sample_optimized_def simple_ops_def)
qed

lemma sample_optimized_effects:
  "effect env (cf_chunk (code_function sample_optimized 0)) 0 0 [VNull] = Some [VNull, VNull]"
  "effect env (cf_chunk (code_function sample_optimized 0)) 1 0 [VNull, VNull] = Some [VNull]"
  "effect env (cf_chunk (code_function sample_optimized 0)) 2 0 [VNull] = Some [VNull, VBool True]"
  "effect env (cf_chunk (code_function sample_optimized 0)) 3 0 [VNull, VBool True] = Some [VNull, VBool False]"
  unfolding effect_def code_function_simps sample_optimized_def Let_def
  by (simp_all add: pushv_def on_top_def k_max_def)

lemma sample_optimized_step:
  assumes "effect sample_env (cf_chunk (code_function sample_optimized 0)) s 0 st = Some st'" and "s < 4"
    and "leaves sample_env (reloc (code_function sample_optimized 0) (s + 1) (sample_frame_vm f ip st')) out"
  shows "leaves sample_env (reloc (code_function sample_optimized 0) s (sample_frame_vm f ip st)) out"
proof -
  have fields: "frame_base (sample_frame_vm f ip st) = 0" "stack (sample_frame_vm f ip st) = st"
    "(sample_frame_vm f ip st)\<lparr>stack := st'\<rparr> = sample_frame_vm f ip st'"
    by (simp_all add: sample_frame_vm_def sample_vm_def)
  have inside: "s < length sample_optimized" using assms(2) by (simp add: sample_optimized_def)
  have "frame_step sample_env (reloc (code_function sample_optimized 0) s (sample_frame_vm f ip st)) =
    Some (reloc (code_function sample_optimized 0) (s + 1) (sample_frame_vm f ip st'))"
    using simple_step [of "code_function sample_optimized 0" s sample_env "sample_frame_vm f ip st"]
      sample_optimized_simple [OF assms(2)] inside assms(1)
    unfolding fields code_function_simps by (simp only: option.map fields)
  then show ?thesis using assms(3) by (rule leaves_step)
qed

lemma sample_optimized_leaves:
  "\<exists>out. leaves sample_env (reloc (code_function sample_optimized 0) 0 (sample_frame_vm f ip [VNull])) out"
proof -
  have op: "sample_optimized ! 4 = Op_Return" "length sample_optimized = 5" by (simp_all add: sample_optimized_def)
  have "frame_exit (reloc (code_function sample_optimized 0) 4 (sample_frame_vm f ip [VNull, VBool False])) \<noteq> None"
    using op by (simp add: frame_exit_def op_return_def complete_return_def pop_def sample_frame_vm_def sample_vm_def Let_def)
  then obtain out where
    "leaves sample_env (reloc (code_function sample_optimized 0) 4 (sample_frame_vm f ip [VNull, VBool False])) out"
    by (blast intro: leaves_exit)
  then have "leaves sample_env (reloc (code_function sample_optimized 0) 0 (sample_frame_vm f ip [VNull])) out"
    using sample_optimized_step [OF sample_optimized_effects(1), of f ip out]
      sample_optimized_step [OF sample_optimized_effects(2), of f ip out]
      sample_optimized_step [OF sample_optimized_effects(3), of f ip out]
      sample_optimized_step [OF sample_optimized_effects(4), of f ip out]
    by (simp add: eval_nat_numeral)
  then show ?thesis by blast
qed

theorem optimize_keeps_behaviour_witness:
  "\<exists>c' n out k k'. optimize (env_fpu sample_env) 2 (cf_chunk (code_function sample_optimized 0)) = Inr (c', n) \<and>
     ends_frame (run_turns sample_env 0 k
       (reloc (code_function sample_optimized 0) 0 (sample_frame_vm (code_function sample_optimized 0) 0 [VNull]))) out \<and>
     ends_frame (run_turns sample_env 0 k'
       (reloc ((code_function sample_optimized 0)\<lparr>cf_chunk := c'\<rparr>) 0
         (sample_frame_vm (code_function sample_optimized 0) 0 [VNull]))) out"
proof -
  let ?f = "code_function sample_optimized 0"
  obtain c' n where opt: "optimize (env_fpu sample_env) 2 (cf_chunk ?f) = Inr (c', n)"
    using optimize_total [of "env_fpu sample_env" 2 "cf_chunk ?f"] by blast
  obtain out where run: "leaves sample_env (reloc ?f 0 (sample_frame_vm ?f 0 [VNull])) out"
    using sample_optimized_leaves by blast
  have "cp_inv (ch_constants (cf_chunk ?f))" "length (ch_code (cf_chunk ?f)) < 2 ^ 32"
    by (simp_all add: code_function_def empty_function_def empty_chunk_def sample_optimized_def)
  moreover have "between_turns (sample_frame_vm ?f 0 [VNull])"
    by (simp add: between_turns_def sample_frame_vm_def sample_vm_def k_max_def)
  ultimately have "\<exists>k k'. ends_frame (run_turns sample_env 0 k (reloc ?f 0 (sample_frame_vm ?f 0 [VNull]))) out \<and>
      ends_frame (run_turns sample_env 0 k' (reloc (?f\<lparr>cf_chunk := c'\<rparr>) 0 (sample_frame_vm ?f 0 [VNull]))) out"
    using optimize_keeps_behaviour [OF sample_optimized_verified _ _ sample_folding_env opt run] by blast
  with opt show ?thesis by blast
qed

text \<open>C16: The optimizer always returns: no chunk, level or environment makes a pass raise the exception of a
  full constant pool, and every loop ends.\<close>

theorem optimize_always_returns: "\<exists>c' n. optimize fp level c = Inr (c', n)"
  by (rule optimize_total)

text \<open>C15: Compaction of well-formed code leaves well-formed code without a dead byte, reports how much
  shorter it is, and keeps what the code does: jumps, constants and instructions moved consistently.\<close>

theorem compact_keeps_behaviour:
  assumes "code_ok c"
  shows "code_ok (fst (compact c)) \<and>
    snd (compact c) = length (ch_code c) - length (ch_code (fst (compact c))) \<and>
    (\<forall>s \<in> starts (ch_code (fst (compact c))). \<not> is_dead_byte (ch_code (fst (compact c)) ! s)) \<and>
    (leaves env (reloc (f\<lparr>cf_chunk := c\<rparr>) 0 vm) out \<longrightarrow>
     leaves env (reloc (f\<lparr>cf_chunk := fst (compact c)\<rparr>) 0 vm) out)"
  using compact_ok [OF assms] compact_live [OF assms] compact_cases [of c] by (auto simp: preserves_def)

theorem compact_keeps_behaviour_witness:
  "\<exists>c n. peephole_pass (env_fpu sample_env) (cf_chunk (code_function sample_optimized 0)) = Inr (c, n) \<and>
     code_ok c \<and> code_ok (fst (compact c))"
proof -
  let ?f = "code_function sample_optimized 0"
  have "cp_inv (ch_constants (cf_chunk ?f))" "length (ch_code (cf_chunk ?f)) < 2 ^ 32"
    by (simp_all add: code_function_def empty_function_def empty_chunk_def sample_optimized_def)
  then have ok: "code_ok (cf_chunk ?f)" by (rule verify_code_ok(1) [OF sample_optimized_verified])
  have "\<exists>c n. peephole_pass fp c0 = Inr (c, n)" for fp c0
    using pass_total [of "pass ''peephole'' peephole_pass 1" fp c0] by (simp add: passes_def pass_def)
  then obtain c n where pass: "peephole_pass (env_fpu sample_env) (cf_chunk ?f) = Inr (c, n)" by blast
  have "code_ok c" by (rule refines_code_ok [OF peephole_pass_refines [OF pass ok]])
  with compact_keeps_behaviour [OF this] pass show ?thesis by blast
qed

text \<open>C26: Constant folding computes what the machine would: when two constants and an operation are folded, the
  handler of that operation, run on those two values, leaves the folded value, so an overflow, a division by
  zero or a value that is not finite is never folded away.\<close>

theorem constant_fold_agrees:
  assumes "try_fold_operation (env_fpu env) a b op = Some v" and "folding_env env" and "stack vm = xs @ [a, b]"
  shows "\<exists>h. handler_of env op = Some h \<and> h vm = Inr (vm\<lparr>stack := xs @ [v]\<rparr>)"
  using fold_operation_vm [OF assms] frame_handler_of by blast

theorem constant_fold_agrees_witness:
  "\<exists>h. handler_of sample_env Op_Add = Some h \<and>
    h (sample_vm [VInteger 2, VInteger 3]) = Inr (sample_vm [VInteger 5])"
proof -
  have "try_fold_operation (env_fpu sample_env) (VInteger 2) (VInteger 3) Op_Add = Some (VInteger 5)"
    by (simp add: try_fold_operation_def would_overflow_add_def int64_max_def int64_min_def)
  from constant_fold_agrees [OF this sample_folding_env, of "sample_vm [VInteger 2, VInteger 3]" "[]"] show ?thesis
    by (simp add: sample_vm_def)
qed
end
