(* ===== verification/Decimal.thy ===== *)
theory Decimal
  imports Luma_Prelude Complex_Main
begin

text \<open>
  The exact decimals of \<^verbatim>\<open>core/common/decimal.hpp\<close> and \<^verbatim>\<open>decimal.cpp\<close>: magnitudes as little-endian
  digit vectors with their schoolbook arithmetic, and the sign, coefficient and scale of a
  \<^verbatim>\<open>Decimal\<close> with its constructors, parser, printer, arithmetic, rounding and comparison.

  A digit is a \<^verbatim>\<open>std::uint8_t\<close>: a natural number that every store reduces modulo 256.  The
  \<^verbatim>\<open>int\<close> intermediates that only add and multiply are natural numbers; where the code subtracts
  they are integers.  \<^verbatim>\<open>for\<close> loops over an index are folds over the index list.
  \<open>mag_mul\<close> returns \<open>None\<close> where the code would store past the end of the product; the
  conversions from and to \<^verbatim>\<open>double\<close> are left out.
\<close>

section \<open>Magnitudes\<close>

type_synonym mag = "nat list"

definition as_u8 :: "nat \<Rightarrow> nat" where
  "as_u8 n = n mod 256"

definition digit_or_zero :: "mag \<Rightarrow> nat \<Rightarrow> nat" where
  "digit_or_zero v i = (if i < length v then v ! i else 0)"

function mag_trim :: "mag \<Rightarrow> mag" where
  "mag_trim v = (if v \<noteq> [] \<and> last v = 0 then mag_trim (butlast v) else v)"
  by pat_completeness auto
termination
  by (relation "measure length") auto

declare mag_trim.simps [simp del]

fun mag_compare_below :: "mag \<Rightarrow> mag \<Rightarrow> nat \<Rightarrow> int" where
  "mag_compare_below a b 0 = 0"
| "mag_compare_below a b (Suc i) =
     (if a ! i \<noteq> b ! i then (if a ! i < b ! i then - 1 else 1) else mag_compare_below a b i)"

definition mag_compare :: "mag \<Rightarrow> mag \<Rightarrow> int" where
  "mag_compare a b =
     (if length a \<noteq> length b then (if length a < length b then - 1 else 1)
      else mag_compare_below a b (length a))"

subsection \<open>Addition and subtraction\<close>

definition mag_add_digit :: "mag \<Rightarrow> mag \<Rightarrow> mag \<times> nat \<Rightarrow> nat \<Rightarrow> mag \<times> nat" where
  "mag_add_digit a b state i =
     (let (result, carry) = state; total = carry + digit_or_zero a i + digit_or_zero b i
      in (result @ [as_u8 (total mod 10)], total div 10))"

definition mag_add :: "mag \<Rightarrow> mag \<Rightarrow> mag" where
  "mag_add a b =
     (let (result, carry) = foldl (mag_add_digit a b) ([], 0) [0..<max (length a) (length b)]
      in if carry \<noteq> 0 then result @ [as_u8 carry] else result)"

definition mag_sub_digit :: "mag \<Rightarrow> mag \<Rightarrow> mag \<times> int \<Rightarrow> nat \<Rightarrow> mag \<times> int" where
  "mag_sub_digit a b state i =
     (let (result, borrow) = state; digit = int (a ! i) - borrow - int (digit_or_zero b i)
      in if digit < 0 then (result @ [nat ((digit + 10) mod 256)], 1)
         else (result @ [nat (digit mod 256)], 0))"

definition mag_sub :: "mag \<Rightarrow> mag \<Rightarrow> mag" where
  "mag_sub a b = mag_trim (fst (foldl (mag_sub_digit a b) ([], 0) [0..<length a]))"

subsection \<open>Multiplication\<close>

definition mag_mul_digit :: "mag \<Rightarrow> mag \<Rightarrow> nat \<Rightarrow> mag \<times> nat \<Rightarrow> nat \<Rightarrow> mag \<times> nat" where
  "mag_mul_digit a b i state j =
     (let (result, carry) = state; idx = i + j; current = result ! idx + a ! i * b ! j + carry
      in (result[idx := as_u8 (current mod 10)], current div 10))"

function mag_mul_carry :: "mag \<Rightarrow> nat \<Rightarrow> nat \<Rightarrow> mag option" where
  "mag_mul_carry result idx carry =
     (if carry = 0 then Some result
      else if idx < length result
        then let current = result ! idx + carry
             in mag_mul_carry (result[idx := as_u8 (current mod 10)]) (idx + 1) (current div 10)
        else None)"
  by pat_completeness auto
termination
  by (relation "measure (\<lambda>(result, idx, carry). length result - idx)") auto

declare mag_mul_carry.simps [simp del]

definition mag_mul_row :: "mag \<Rightarrow> mag \<Rightarrow> mag \<Rightarrow> nat \<Rightarrow> mag option" where
  "mag_mul_row a b result i =
     (let (result, carry) = foldl (mag_mul_digit a b i) (result, 0) [0..<length b]
      in mag_mul_carry result (i + length b) carry)"

fun mag_mul_rows :: "mag \<Rightarrow> mag \<Rightarrow> mag \<Rightarrow> nat list \<Rightarrow> mag option" where
  "mag_mul_rows a b result [] = Some result"
| "mag_mul_rows a b result (i # is) =
     (case mag_mul_row a b result i of
        None \<Rightarrow> None
      | Some result' \<Rightarrow> mag_mul_rows a b result' is)"

definition mag_mul :: "mag \<Rightarrow> mag \<Rightarrow> mag option" where
  "mag_mul a b =
     (if a = [] \<or> b = [] then Some []
      else map_option mag_trim
             (mag_mul_rows a b (replicate (length a + length b) 0) [0..<length a]))"

definition mag_mul_small_digit :: "nat \<Rightarrow> mag \<times> nat \<Rightarrow> nat \<Rightarrow> mag \<times> nat" where
  "mag_mul_small_digit factor state digit =
     (let (result, carry) = state; current = digit * factor + carry
      in (result @ [as_u8 (current mod 10)], current div 10))"

function push_carry :: "mag \<Rightarrow> nat \<Rightarrow> mag" where
  "push_carry result carry =
     (if carry \<noteq> 0 then push_carry (result @ [as_u8 (carry mod 10)]) (carry div 10) else result)"
  by pat_completeness auto
termination
  by (relation "measure snd") auto

declare push_carry.simps [simp del]

definition mag_mul_small :: "mag \<Rightarrow> nat \<Rightarrow> mag" where
  "mag_mul_small a factor =
     (if factor = 0 \<or> a = [] then []
      else let (result, carry) = foldl (mag_mul_small_digit factor) ([], 0) a
           in push_carry result carry)"

definition mag_shift_left :: "mag \<Rightarrow> int \<Rightarrow> mag" where
  "mag_shift_left v shift = (if v = [] \<or> shift \<le> 0 then v else replicate (nat shift) 0 @ v)"

subsection \<open>Division\<close>

text \<open>The largest factor of the divisor that still fits, by bisection over the digits 0 to 9.\<close>

function digit_search :: "mag \<Rightarrow> mag \<Rightarrow> int \<Rightarrow> int \<Rightarrow> int \<Rightarrow> int" where
  "digit_search divisor rem low high best =
     (if low \<le> high
      then let mid = (low + high) div 2
           in if mag_compare (mag_mul_small divisor (nat mid)) rem \<le> 0
              then digit_search divisor rem (mid + 1) high mid
              else digit_search divisor rem low (mid - 1) best
      else best)"
  by pat_completeness auto
termination
  by (relation "measure (\<lambda>(divisor, rem, low, high, best). nat (high + 1 - low))") auto

declare digit_search.simps [simp del]

definition mag_divmod_digit :: "mag \<Rightarrow> mag \<Rightarrow> mag \<times> mag \<Rightarrow> nat \<Rightarrow> mag \<times> mag" where
  "mag_divmod_digit numerator divisor state i =
     (let (quotient, rem) = state;
          rem = mag_trim (numerator ! i # rem);
          best = nat (digit_search divisor rem 0 9 0)
      in (quotient[i := as_u8 best], mag_sub rem (mag_mul_small divisor best)))"

definition mag_divmod :: "mag \<Rightarrow> mag \<Rightarrow> mag \<times> mag" where
  "mag_divmod numerator divisor =
     (let (quotient, rem) = foldl (mag_divmod_digit numerator divisor)
                              (replicate (length numerator) 0, []) (rev [0..<length numerator])
      in (mag_trim quotient, rem))"

section \<open>Rounding modes\<close>

datatype rounding_mode = HalfUp | HalfEven | HalfDown | Up | Down | Ceiling | Floor

definition parse_rounding_mode :: "string \<Rightarrow> rounding_mode option" where
  "parse_rounding_mode name =
     (if name = ''half_up'' then Some HalfUp
      else if name = ''half_even'' then Some HalfEven
      else if name = ''half_down'' then Some HalfDown
      else if name = ''up'' then Some Up
      else if name = ''down'' then Some Down
      else if name = ''ceiling'' then Some Ceiling
      else if name = ''floor'' then Some Floor
      else None)"

definition rounding_mode_from_variant :: "string \<Rightarrow> rounding_mode option" where
  "rounding_mode_from_variant variant =
     (if variant = ''HalfUp'' then Some HalfUp
      else if variant = ''HalfEven'' then Some HalfEven
      else if variant = ''HalfDown'' then Some HalfDown
      else if variant = ''Up'' then Some Up
      else if variant = ''Down'' then Some Down
      else if variant = ''Ceiling'' then Some Ceiling
      else if variant = ''Floor'' then Some Floor
      else None)"

fun apply_rounding :: "bool \<Rightarrow> int \<Rightarrow> bool \<Rightarrow> bool \<Rightarrow> rounding_mode \<Rightarrow> bool" where
  "apply_rounding any_remainder cmp_half last_kept_odd negative Down = False"
| "apply_rounding any_remainder cmp_half last_kept_odd negative Up = any_remainder"
| "apply_rounding any_remainder cmp_half last_kept_odd negative Ceiling =
     (any_remainder \<and> \<not> negative)"
| "apply_rounding any_remainder cmp_half last_kept_odd negative Floor =
     (any_remainder \<and> negative)"
| "apply_rounding any_remainder cmp_half last_kept_odd negative HalfUp = (cmp_half \<ge> 0)"
| "apply_rounding any_remainder cmp_half last_kept_odd negative HalfDown = (cmp_half > 0)"
| "apply_rounding any_remainder cmp_half last_kept_odd negative HalfEven =
     (if cmp_half > 0 then True else if cmp_half = 0 then last_kept_odd else False)"

section \<open>Decimals\<close>

record decimal =
  digits :: mag
  scale :: int
  negative :: bool

definition k_max_digits :: nat where
  "k_max_digits = 1000000"

definition decimal_zero :: decimal where
  "decimal_zero = \<lparr>digits = [], scale = 0, negative = False\<rparr>"

definition is_zero :: "decimal \<Rightarrow> bool" where
  "is_zero d \<longleftrightarrow> digits d = []"

definition is_negative :: "decimal \<Rightarrow> bool" where
  "is_negative d \<longleftrightarrow> negative d \<and> \<not> is_zero d"

definition decimal_sign :: "decimal \<Rightarrow> int" where
  "decimal_sign d = (if is_zero d then 0 else if negative d then - 1 else 1)"

definition decimal_trim :: "decimal \<Rightarrow> decimal" where
  "decimal_trim d =
     (let d = d\<lparr>digits := mag_trim (digits d)\<rparr>
      in if digits d = [] then d\<lparr>negative := False\<rparr> else d)"

function u64_digits :: "u64 \<Rightarrow> mag" where
  "u64_digits magnitude =
     (if 0 < magnitude then as_u8 (unat (magnitude mod 10)) # u64_digits (magnitude div 10)
      else [])"
  by pat_completeness auto
termination
  by (relation "measure unat") (auto simp: unat_div_distrib word_less_nat_alt)

declare u64_digits.simps [simp del]

text \<open>The magnitude of a negative value is its unsigned negation, which is also right for the
  minimal integer.\<close>

definition decimal_of_int64 :: "u64 \<Rightarrow> decimal" where
  "decimal_of_int64 value =
     (if value = 0 then decimal_zero
      else let neg = sint value < 0; magnitude = (if neg then 0 - value else value)
           in \<lparr>digits = u64_digits magnitude, scale = 0, negative = neg\<rparr>)"

subsection \<open>Parsing\<close>

definition is_decimal_digit :: "char \<Rightarrow> bool" where
  "is_decimal_digit c \<longleftrightarrow> (of_char CHR ''0'' :: nat) \<le> of_char c \<and> of_char c \<le> (of_char CHR ''9'' :: nat)"

definition digit_value :: "char \<Rightarrow> nat" where
  "digit_value c = of_char c - of_char CHR ''0''"

definition skip_sign :: "string \<Rightarrow> bool \<times> string" where
  "skip_sign text =
     (case text of
        [] \<Rightarrow> (False, text)
      | c # rest \<Rightarrow> if c = CHR ''+'' \<or> c = CHR ''-'' then (c = CHR ''-'', rest) else (False, text))"

fun exponent_digits :: "int \<Rightarrow> string \<Rightarrow> (int \<times> string) option" where
  "exponent_digits magnitude [] = Some (magnitude, [])"
| "exponent_digits magnitude (c # rest) =
     (if is_decimal_digit c
      then let magnitude = magnitude * 10 + int (digit_value c)
           in if magnitude > 2000000000 then None else exponent_digits magnitude rest
      else Some (magnitude, c # rest))"

definition parse_exponent :: "string \<Rightarrow> (int \<times> string) option" where
  "parse_exponent text =
     (case text of
        [] \<Rightarrow> Some (0, text)
      | c # rest \<Rightarrow>
          if c = CHR ''e'' \<or> c = CHR ''E''
          then let (exp_negative, rest) = skip_sign rest
               in if rest = [] \<or> \<not> is_decimal_digit (hd rest) then None
                  else (case exponent_digits 0 rest of
                          None \<Rightarrow> None
                        | Some (magnitude, rest) \<Rightarrow>
                            Some (if exp_negative then - magnitude else magnitude, rest))
          else Some (0, text))"

text \<open>Folding the exponent into the scale, with the checks against the digit cap.\<close>

definition build_decimal :: "bool \<Rightarrow> string \<Rightarrow> string \<Rightarrow> int \<Rightarrow> decimal option" where
  "build_decimal neg integer_part fraction_part exponent =
     (let combined = integer_part @ fraction_part;
          scl = int (length fraction_part) - exponent;
          coefficient = map (\<lambda>c. as_u8 (digit_value c)) (rev combined)
      in if length combined > k_max_digits then None
         else if scl < 0
         then (if length coefficient + nat (- scl) > k_max_digits then None
               else Some (decimal_trim \<lparr>digits = replicate (nat (- scl)) 0 @ coefficient,
                                        scale = 0, negative = neg\<rparr>))
         else if scl > int k_max_digits then None
         else Some (decimal_trim \<lparr>digits = coefficient, scale = scl, negative = neg\<rparr>))"

definition decimal_parse :: "string \<Rightarrow> decimal option" where
  "decimal_parse text =
     (if text = [] then None
      else let (neg, text) = skip_sign text;
               integer_part = takeWhile is_decimal_digit text;
               text = dropWhile is_decimal_digit text;
               (fraction_part, text) =
                 (if text \<noteq> [] \<and> hd text = CHR ''.''
                  then (takeWhile is_decimal_digit (tl text), dropWhile is_decimal_digit (tl text))
                  else ([], text))
           in if integer_part = [] \<and> fraction_part = [] then None
              else (case parse_exponent text of
                      None \<Rightarrow> None
                    | Some (exponent, text) \<Rightarrow>
                        if text \<noteq> [] then None
                        else build_decimal neg integer_part fraction_part exponent))"

subsection \<open>Printing\<close>

definition decimal_to_string :: "decimal \<Rightarrow> string" where
  "decimal_to_string d =
     (if is_zero d
      then (if scale d \<le> 0 then ''0'' else ''0.'' @ replicate (nat (scale d)) CHR ''0'')
      else let magnitude = map (\<lambda>g. char_of (48 + g)) (rev (digits d));
               out = (if negative d then ''-'' else '''')
           in if scale d = 0 then out @ magnitude
              else let magnitude =
                         (if int (length magnitude) \<le> scale d
                          then replicate (nat (scale d) - length magnitude + 1) CHR ''0'' @ magnitude
                          else magnitude);
                       point = length magnitude - nat (scale d)
                   in out @ take point magnitude @ ''.'' @ drop point magnitude)"

subsection \<open>Arithmetic\<close>

definition decimal_negate :: "decimal \<Rightarrow> decimal" where
  "decimal_negate d = (if \<not> is_zero d then d\<lparr>negative := \<not> negative d\<rparr> else d)"

definition decimal_absolute :: "decimal \<Rightarrow> decimal" where
  "decimal_absolute d = d\<lparr>negative := False\<rparr>"

definition decimal_add :: "decimal \<Rightarrow> decimal \<Rightarrow> decimal" where
  "decimal_add d other =
     (let common_scale = max (scale d) (scale other);
          left = mag_shift_left (digits d) (common_scale - scale d);
          right = mag_shift_left (digits other) (common_scale - scale other);
          (result_digits, result_negative) =
            (if negative d = negative other then (mag_add left right, negative d)
             else if mag_compare left right \<ge> 0 then (mag_sub left right, negative d)
             else (mag_sub right left, negative other))
      in decimal_trim \<lparr>digits = result_digits, scale = common_scale, negative = result_negative\<rparr>)"

definition decimal_subtract :: "decimal \<Rightarrow> decimal \<Rightarrow> decimal" where
  "decimal_subtract d other = decimal_add d (decimal_negate other)"

text \<open>The outer option is the store past the product, the inner one the code's \<^verbatim>\<open>nullopt\<close>.\<close>

definition decimal_multiply :: "decimal \<Rightarrow> decimal \<Rightarrow> decimal option option" where
  "decimal_multiply d other =
     (let product_scale = nat (scale d) + nat (scale other)
      in if length (digits d) + length (digits other) > k_max_digits then Some None
         else if product_scale > k_max_digits then Some None
         else (case mag_mul (digits d) (digits other) of
                 None \<Rightarrow> None
               | Some product \<Rightarrow>
                   Some (Some (decimal_trim \<lparr>digits = product, scale = int product_scale,
                                             negative = (negative d \<noteq> negative other)\<rparr>))))"

definition divide_scaled :: "mag \<Rightarrow> mag \<Rightarrow> int \<Rightarrow> bool \<Rightarrow> rounding_mode \<Rightarrow> decimal" where
  "divide_scaled numerator denominator result_scale result_negative mode =
     (let (quotient, remainder) = mag_divmod numerator denominator;
          any_remainder = remainder \<noteq> [];
          cmp_half = (if any_remainder then mag_compare (mag_mul_small remainder 2) denominator
                      else - 1);
          last_odd = (quotient \<noteq> [] \<and> hd quotient mod 2 = 1);
          quotient = (if apply_rounding any_remainder cmp_half last_odd result_negative mode
                      then mag_add quotient [1] else quotient)
      in decimal_trim \<lparr>digits = quotient, scale = result_scale, negative = result_negative\<rparr>)"

definition decimal_divide ::
  "decimal \<Rightarrow> decimal \<Rightarrow> int \<Rightarrow> rounding_mode \<Rightarrow> decimal option" where
  "decimal_divide d divisor result_scale mode =
     (if is_zero divisor \<or> result_scale < 0 then None
      else let result_negative = (negative d \<noteq> negative divisor);
               exp = result_scale + scale divisor - scale d
           in if exp \<ge> 0
              then (if length (digits d) + nat exp > k_max_digits then None
                    else Some (divide_scaled (mag_shift_left (digits d) exp) (digits divisor)
                                 result_scale result_negative mode))
              else (if length (digits divisor) + nat (- exp) > k_max_digits then None
                    else Some (divide_scaled (digits d) (mag_shift_left (digits divisor) (- exp))
                                 result_scale result_negative mode)))"

definition round_drop :: "decimal \<Rightarrow> int \<Rightarrow> rounding_mode \<Rightarrow> decimal" where
  "round_drop d places mode =
     (let drop_count = nat (scale d - places);
          size = length (digits d);
          kept = (if drop_count < size then drop drop_count (digits d) else []);
          first_dropped = (if drop_count - 1 < size then digits d ! (drop_count - 1) else 0);
          rest_nonzero = (\<exists>k \<in> set [0..<min (drop_count - 1) size]. digits d ! k \<noteq> 0);
          any_remainder = (first_dropped \<noteq> 0 \<or> rest_nonzero);
          cmp_half = (if first_dropped > 5 \<or> (first_dropped = 5 \<and> rest_nonzero) then 1
                      else if first_dropped = 5 then 0 else - 1);
          last_odd = (kept \<noteq> [] \<and> hd kept mod 2 = 1);
          kept = (if apply_rounding any_remainder cmp_half last_odd (negative d) mode
                  then mag_add kept [1] else kept)
      in decimal_trim \<lparr>digits = kept, scale = places, negative = negative d\<rparr>)"

definition decimal_round :: "decimal \<Rightarrow> int \<Rightarrow> rounding_mode \<Rightarrow> decimal" where
  "decimal_round d places mode =
     (let places = (if places < 0 then 0 else places);
          places = (if places > int k_max_digits then int k_max_digits else places)
      in if places \<ge> scale d
         then (let result_digits =
                     (if places > scale d \<and> digits d \<noteq> []
                      then mag_shift_left (digits d) (places - scale d) else digits d)
               in decimal_trim (d\<lparr>digits := result_digits, scale := places\<rparr>))
         else round_drop d places mode)"

subsection \<open>Comparison and canonical form\<close>

definition decimal_compare :: "decimal \<Rightarrow> decimal \<Rightarrow> int" where
  "decimal_compare d other =
     (let sign_a = decimal_sign d; sign_b = decimal_sign other
      in if sign_a \<noteq> sign_b then (if sign_a < sign_b then - 1 else 1)
         else if sign_a = 0 then 0
         else let common_scale = max (scale d) (scale other);
                  left = mag_shift_left (digits d) (common_scale - scale d);
                  right = mag_shift_left (digits other) (common_scale - scale other);
                  cmp = mag_compare left right
              in if sign_a > 0 then cmp else - cmp)"

definition decimal_equals :: "decimal \<Rightarrow> decimal \<Rightarrow> bool" where
  "decimal_equals d other \<longleftrightarrow> decimal_compare d other = 0"

fun strip_zero_digits :: "mag \<Rightarrow> int \<Rightarrow> mag \<times> int" where
  "strip_zero_digits [] s = ([], s)"
| "strip_zero_digits (g # gs) s =
     (if s > 0 \<and> g = 0 then strip_zero_digits gs (s - 1) else (g # gs, s))"

definition decimal_canonical :: "decimal \<Rightarrow> decimal" where
  "decimal_canonical d =
     (let (ds, s) = strip_zero_digits (digits d) (scale d)
      in if ds = [] then \<lparr>digits = [], scale = 0, negative = False\<rparr>
         else d\<lparr>digits := ds, scale := s\<rparr>)"

text \<open>\<^verbatim>\<open>std::hash\<close> of a string is implementation-defined: a parameter.\<close>

definition decimal_hash :: "(string \<Rightarrow> u64) \<Rightarrow> decimal \<Rightarrow> u64" where
  "decimal_hash std_hash d = std_hash (decimal_to_string (decimal_canonical d))"

end
