(* ===== verification/Magnitude_Props.thy ===== *)
theory Magnitude_Props
  imports Decimal
begin

text \<open>
  Magnitude arithmetic is exact.  \<open>mag_val\<close> reads a little-endian digit vector as a number;
  \<open>mag_digits\<close> says its elements are digits and \<open>mag_ok\<close> that it is also trimmed, the
  form the class keeps.  Each loop is proved by an invariant over the digits already done.
\<close>

section \<open>Loop rules\<close>

lemma foldl_upt_invariant:
  assumes "P 0 s" and "\<And>i s. i < n \<Longrightarrow> P i s \<Longrightarrow> P (Suc i) (f s i)"
  shows "P n (foldl f s [0..<n])"
  using assms by (induction n) simp_all

lemma foldl_downto_invariant:
  assumes "P n s" and "\<And>i s. i < n \<Longrightarrow> P (Suc i) s \<Longrightarrow> P i (f s i)"
  shows "P 0 (foldl f s (rev [0..<n]))"
  using assms by (induction n arbitrary: s) simp_all

section \<open>The number a magnitude stands for\<close>

primrec mag_val :: "mag \<Rightarrow> nat" where
  "mag_val [] = 0"
| "mag_val (g # gs) = g + 10 * mag_val gs"

definition mag_digits :: "mag \<Rightarrow> bool" where
  "mag_digits v \<longleftrightarrow> (\<forall>g \<in> set v. g < 10)"

definition mag_ok :: "mag \<Rightarrow> bool" where
  "mag_ok v \<longleftrightarrow> mag_digits v \<and> (v = [] \<or> last v \<noteq> 0)"

lemma mag_digits_simps [simp]:
  "mag_digits []"
  "mag_digits (g # gs) \<longleftrightarrow> g < 10 \<and> mag_digits gs"
  "mag_digits (u @ v) \<longleftrightarrow> mag_digits u \<and> mag_digits v"
  "mag_digits (rev v) \<longleftrightarrow> mag_digits v"
  "mag_digits (replicate n 0)"
  by (auto simp: mag_digits_def)

lemma mag_digits_nth: "mag_digits v \<Longrightarrow> i < length v \<Longrightarrow> v ! i < 10"
  by (simp add: mag_digits_def)

lemma mag_digits_update: "mag_digits v \<Longrightarrow> g < 10 \<Longrightarrow> mag_digits (v[i := g])"
  using set_update_subset_insert [of v i g] by (auto simp: mag_digits_def)

lemma mag_digits_take [simp]: "mag_digits v \<Longrightarrow> mag_digits (take n v)"
  and mag_digits_drop [simp]: "mag_digits v \<Longrightarrow> mag_digits (drop n v)"
  by (auto simp: mag_digits_def dest: in_set_takeD in_set_dropD)

lemma mag_ok_digits: "mag_ok v \<Longrightarrow> mag_digits v"
  by (simp add: mag_ok_def)

lemma mag_ok_Nil [simp]: "mag_ok []"
  by (simp add: mag_ok_def)

lemma as_u8_digit [simp]: "n < 10 \<Longrightarrow> as_u8 n = n"
  by (simp add: as_u8_def)

lemma as_u8_mod10 [simp]: "as_u8 (n mod 10) = n mod 10"
proof -
  have "n mod 10 < 10" by simp
  then show ?thesis by (rule as_u8_digit)
qed

lemma digit_or_zero_bound: "mag_digits v \<Longrightarrow> digit_or_zero v i < 10"
  by (simp add: digit_or_zero_def mag_digits_nth)

lemma mag_val_append [simp]: "mag_val (u @ v) = mag_val u + 10 ^ length u * mag_val v"
  by (induction u) (simp_all add: algebra_simps)

lemma mag_val_zeros [simp]: "mag_val (replicate n 0) = 0"
  by (induction n) simp_all

lemma mag_val_take_Suc:
  "mag_val (take (Suc i) v) = mag_val (take i v) + digit_or_zero v i * 10 ^ i"
proof (cases "i < length v")
  case True
  then show ?thesis by (simp add: take_Suc_conv_app_nth digit_or_zero_def)
next
  case False
  then show ?thesis by (simp add: digit_or_zero_def)
qed

lemma mag_val_drop: "i < length v \<Longrightarrow> mag_val (drop i v) = v ! i + 10 * mag_val (drop (Suc i) v)"
  by (simp add: Cons_nth_drop_Suc [symmetric])

lemma mag_val_split: "mag_val v = mag_val (take n v) + 10 ^ min n (length v) * mag_val (drop n v)"
  by (metis append_take_drop_id length_take mag_val_append min.commute)

lemma mag_val_update:
  "i < length v \<Longrightarrow> mag_val (v[i := g]) + v ! i * 10 ^ i = mag_val v + g * 10 ^ i"
proof (induction v arbitrary: i)
  case (Cons h v)
  show ?case
  proof (cases i)
    case (Suc j)
    then have "10 * (mag_val (v[j := g]) + v ! j * 10 ^ j) = 10 * (mag_val v + g * 10 ^ j)"
      using Cons by simp
    then show ?thesis by (simp add: Suc algebra_simps)
  qed (simp add: algebra_simps)
qed simp

lemma mag_val_less: "mag_digits v \<Longrightarrow> mag_val v < 10 ^ length v"
proof (induction v)
  case (Cons g v)
  then have "g < 10" "mag_val v + 1 \<le> 10 ^ length v" by simp_all
  then have "g + 10 * mag_val v < 10 * (mag_val v + 1)" "10 * (mag_val v + 1) \<le> 10 * 10 ^ length v"
    by simp_all
  then show ?case by simp
qed simp

lemma mag_val_lower:
  assumes "v \<noteq> []" "last v \<noteq> 0"
  shows "10 ^ (length v - 1) \<le> mag_val v"
proof -
  have "mag_val v = mag_val (butlast v) + 10 ^ (length v - 1) * last v"
    using assms(1) mag_val_append [of "butlast v" "[last v]"] by simp
  moreover have "(10::nat) ^ (length v - 1) \<le> 10 ^ (length v - 1) * last v"
    using assms(2) by (cases "last v") auto
  ultimately show ?thesis by linarith
qed

lemma mag_val_eq_0_iff: "mag_ok v \<Longrightarrow> mag_val v = 0 \<longleftrightarrow> v = []"
proof
  assume v: "mag_ok v" and 0: "mag_val v = 0"
  show "v = []"
  proof (rule ccontr)
    assume "v \<noteq> []"
    then have "10 ^ (length v - 1) \<le> mag_val v"
      using v by (intro mag_val_lower) (auto simp: mag_ok_def)
    moreover have "(0::nat) < 10 ^ (length v - 1)" by simp
    ultimately show False using 0 by linarith
  qed
qed simp

lemma mag_ok_longer:
  assumes "mag_ok u" "mag_ok v" "length u < length v"
  shows "mag_val u < mag_val v"
proof -
  have "mag_val u < 10 ^ length u" using assms(1) by (simp add: mag_ok_def mag_val_less)
  also have "\<dots> \<le> 10 ^ (length v - 1)" using assms(3) by (intro power_increasing) auto
  also have "\<dots> \<le> mag_val v" using assms(2,3) by (intro mag_val_lower) (auto simp: mag_ok_def)
  finally show ?thesis .
qed

lemma mag_digits_eqI:
  "length u = length v \<Longrightarrow> mag_digits u \<Longrightarrow> mag_digits v \<Longrightarrow> mag_val u = mag_val v \<Longrightarrow> u = v"
proof (induction u v rule: list_induct2)
  case (Cons g u h v)
  then have "g < 10" "h < 10" "g + 10 * mag_val u = h + 10 * mag_val v" by simp_all
  then have "g = h" "mag_val u = mag_val v" by presburger+
  then show ?case using Cons by simp
qed simp

lemma mag_ok_eqI: "mag_ok u \<Longrightarrow> mag_ok v \<Longrightarrow> mag_val u = mag_val v \<Longrightarrow> u = v"
  using mag_ok_longer [of u v] mag_ok_longer [of v u]
  by (intro mag_digits_eqI) (auto simp: mag_ok_digits intro: le_antisym leI)

section \<open>Trimming, shifting and comparing\<close>

lemma mag_trim_val [simp]: "mag_val (mag_trim v) = mag_val v"
proof (induction v rule: mag_trim.induct)
  case (1 v)
  show ?case
  proof (cases "v \<noteq> [] \<and> last v = 0")
    case True
    then have "v = butlast v @ [0]" by (metis append_butlast_last_id)
    from arg_cong [OF this, of mag_val] have "mag_val v = mag_val (butlast v)" by simp
    then show ?thesis using 1 True by (simp add: mag_trim.simps [of v])
  qed (auto simp: mag_trim.simps [of v])
qed

lemma mag_trim_ok: "mag_digits v \<Longrightarrow> mag_ok (mag_trim v)"
proof (induction v rule: mag_trim.induct)
  case (1 v)
  show ?case
  proof (cases "v \<noteq> [] \<and> last v = 0")
    case True
    then show ?thesis
      using 1 by (simp add: mag_trim.simps [of v] mag_digits_def in_set_butlastD)
  next
    case False
    then show ?thesis using 1(2) by (auto simp: mag_trim.simps [of v] mag_ok_def)
  qed
qed

lemma mag_trim_id [simp]: "mag_ok v \<Longrightarrow> mag_trim v = v"
  by (auto simp: mag_ok_def mag_trim.simps [of v])

lemma mag_trim_zeros [simp]: "mag_trim (v @ replicate n 0) = mag_trim v"
proof (induction n)
  case (Suc n)
  have "mag_trim ((v @ replicate n 0) @ [0]) = mag_trim (v @ replicate n 0)"
    by (subst mag_trim.simps) (simp add: butlast_append)
  then show ?case using Suc by (simp add: replicate_append_same)
qed simp

lemma mag_shift_left_val: "mag_val (mag_shift_left v k) = mag_val v * 10 ^ nat k"
  by (auto simp: mag_shift_left_def)

lemma mag_shift_left_ok: "mag_ok v \<Longrightarrow> mag_ok (mag_shift_left v k)"
  by (auto simp: mag_shift_left_def mag_ok_def)

lemma mag_compare_below_val:
  "mag_digits a \<Longrightarrow> mag_digits b \<Longrightarrow> n \<le> length a \<Longrightarrow> n \<le> length b \<Longrightarrow>
   mag_compare_below a b n = sgn (int (mag_val (take n a)) - int (mag_val (take n b)))"
proof (induction n)
  case (Suc n)
  have "mag_val (take n a) < 10 ^ n" "mag_val (take n b) < 10 ^ n"
    using Suc.prems mag_val_less [of "take n a"] mag_val_less [of "take n b"]
    by (simp_all add: min_def)
  moreover have "a ! n < b ! n \<Longrightarrow> (a ! n + 1) * 10 ^ n \<le> b ! n * 10 ^ n"
    and "b ! n < a ! n \<Longrightarrow> (b ! n + 1) * 10 ^ n \<le> a ! n * 10 ^ n"
    by (intro mult_le_mono1; simp)+
  moreover have "mag_val (take (Suc n) a) = mag_val (take n a) + a ! n * 10 ^ n"
    and "mag_val (take (Suc n) b) = mag_val (take n b) + b ! n * 10 ^ n"
    using Suc.prems by (simp_all add: mag_val_take_Suc digit_or_zero_def)
  ultimately have "a ! n < b ! n \<Longrightarrow> mag_val (take (Suc n) a) < mag_val (take (Suc n) b)"
    and "b ! n < a ! n \<Longrightarrow> mag_val (take (Suc n) b) < mag_val (take (Suc n) a)"
    and "a ! n = b ! n \<Longrightarrow> int (mag_val (take (Suc n) a)) - int (mag_val (take (Suc n) b)) =
                          int (mag_val (take n a)) - int (mag_val (take n b))"
    by (simp_all add: algebra_simps)
  then show ?case using Suc by (cases "a ! n" "b ! n" rule: linorder_cases) (simp_all add: sgn_if)
qed simp

lemma mag_compare_val:
  assumes "mag_ok a" "mag_ok b"
  shows "mag_compare a b = sgn (int (mag_val a) - int (mag_val b))"
  using mag_ok_longer [OF assms] mag_ok_longer [OF assms(2,1)] assms
    mag_compare_below_val [of a b "length a"]
  by (cases "length a" "length b" rule: linorder_cases)
     (auto simp: mag_compare_def sgn_if mag_ok_digits)

lemma mag_compare_le: "mag_ok a \<Longrightarrow> mag_ok b \<Longrightarrow> mag_compare a b \<le> 0 \<longleftrightarrow> mag_val a \<le> mag_val b"
  by (simp add: mag_compare_val sgn_if)

section \<open>Addition and subtraction\<close>

lemma digit_and_carry: "(t mod 10) * p + (t div 10) * (10 * p) = t * (p::nat)"
proof -
  have "(t mod 10) * p + (t div 10) * (10 * p) = (t mod 10 + 10 * (t div 10)) * p"
    by (simp only: distrib_right mult.assoc mult.left_commute)
  then show ?thesis by (simp only: mod_mult_div_eq)
qed

lemma mag_add_exact:
  assumes a: "mag_digits a" and b: "mag_digits b"
  shows "mag_val (mag_add a b) = mag_val a + mag_val b \<and> mag_digits (mag_add a b)"
proof -
  define n where "n = max (length a) (length b)"
  let ?P = "\<lambda>i (result, carry). mag_digits result \<and> carry \<le> 1 \<and> length result = i \<and>
              mag_val result + carry * 10 ^ i = mag_val (take i a) + mag_val (take i b)"
  have "?P n (foldl (mag_add_digit a b) ([], 0) [0..<n])"
  proof (rule foldl_upt_invariant)
    fix i s assume "?P i s"
    moreover obtain result carry where s: "s = (result, carry)" by (cases s)
    ultimately have P: "mag_digits result" "carry \<le> 1" "length result = i"
      "mag_val result + carry * 10 ^ i = mag_val (take i a) + mag_val (take i b)" by auto
    define t where "t = carry + digit_or_zero a i + digit_or_zero b i"
    have "t \<le> 19"
      using P(2) digit_or_zero_bound [OF a, of i] digit_or_zero_bound [OF b, of i]
      by (simp add: t_def)
    then have "t div 10 \<le> 1" by linarith
    moreover have "(t mod 10) * 10 ^ i + (t div 10) * 10 ^ Suc i = t * 10 ^ i"
      using digit_and_carry [of t "10 ^ i"] by simp
    moreover have "t * 10 ^ i = carry * 10 ^ i + digit_or_zero a i * 10 ^ i + digit_or_zero b i * 10 ^ i"
      by (simp only: t_def distrib_right)
    ultimately show "?P (Suc i) (mag_add_digit a b s i)"
      using P unfolding s mag_add_digit_def
      by (simp add: mag_val_take_Suc mult.commute flip: t_def)
  qed simp
  then show ?thesis
    unfolding mag_add_def n_def [symmetric]
    by (cases "foldl (mag_add_digit a b) ([], 0) [0..<n]")
       (auto simp: n_def mult.commute)
qed

lemmas mag_add_val [simp] = mag_add_exact [THEN conjunct1]
lemmas mag_add_digits [simp] = mag_add_exact [THEN conjunct2]

lemma mag_sub_exact:
  assumes a: "mag_digits a" and b: "mag_digits b" and le: "mag_val b \<le> mag_val a"
    and len: "length b \<le> length a"
  shows "mag_val (mag_sub a b) = mag_val a - mag_val b \<and> mag_ok (mag_sub a b)"
proof -
  let ?P = "\<lambda>i (result, borrow). mag_digits result \<and> (borrow = 0 \<or> borrow = 1) \<and> length result = i \<and>
              int (mag_val result) = int (mag_val (take i a)) - int (mag_val (take i b)) + borrow * 10 ^ i"
  have inv: "?P (length a) (foldl (mag_sub_digit a b) ([], 0) [0..<length a])"
  proof (rule foldl_upt_invariant)
    fix i s assume "?P i s" and i: "i < length a"
    moreover obtain result borrow where s: "s = (result, borrow)" by (cases s)
    ultimately have P: "mag_digits result" "borrow = 0 \<or> borrow = 1" "length result = i"
      "int (mag_val result) = int (mag_val (take i a)) - int (mag_val (take i b)) + borrow * 10 ^ i"
      by auto
    define t where "t = int (a ! i) - borrow - int (digit_or_zero b i)"
    have "- 10 \<le> t" "t < 10"
      using P(2) digit_or_zero_bound [OF b, of i] mag_digits_nth [OF a i] by (auto simp: t_def)
    moreover have "digit_or_zero a i = a ! i" using i by (simp add: digit_or_zero_def)
    ultimately show "?P (Suc i) (mag_sub_digit a b s i)"
      using P unfolding s
      by (auto simp: mag_sub_digit_def simp flip: t_def)
         (auto simp: mag_val_take_Suc t_def algebra_simps)
  qed simp
  obtain result borrow where res: "foldl (mag_sub_digit a b) ([], 0) [0..<length a] = (result, borrow)"
    by fastforce
  have P: "mag_digits result" "borrow = 0 \<or> borrow = 1" "length result = length a"
    "int (mag_val result) = int (mag_val a) - int (mag_val b) + borrow * 10 ^ length a"
    using inv len by (auto simp: res)
  have "mag_val result < 10 ^ length a" using mag_val_less [OF P(1)] P(3) by simp
  then have "int (mag_val result) < 10 ^ length a"
    by (metis of_nat_less_iff of_nat_numeral of_nat_power)
  then have "borrow = 0" using P(2,4) le by auto
  then show ?thesis using P le mag_trim_ok by (simp add: mag_sub_def res)
qed

section \<open>Multiplication\<close>

lemma mag_mul_carry_exact:
  assumes "mag_digits result" and "carry < 10"
    and "mag_val result + carry * 10 ^ idx = whole" and "whole < 10 ^ length result"
  shows "\<exists>r. mag_mul_carry result idx carry = Some r \<and> mag_val r = whole \<and> mag_digits r \<and>
             length r = length result"
  using assms
proof (induction result idx carry rule: mag_mul_carry.induct)
  case (1 result idx carry)
  show ?case
  proof (cases "carry = 0")
    case False
    have idx: "idx < length result"
    proof (rule ccontr)
      assume "\<not> idx < length result"
      then have "(10::nat) ^ length result \<le> 10 ^ idx" by (intro power_increasing) auto
      also have "\<dots> \<le> carry * 10 ^ idx" using False by simp
      finally show False using 1(4,5) by linarith
    qed
    define t where "t = result ! idx + carry"
    define r' where "r' = result[idx := t mod 10]"
    have "t div 10 < 10" using 1(3) mag_digits_nth [OF 1(2) idx] unfolding t_def by linarith
    moreover have "mag_digits r'" "length r' = length result"
      using 1(2) by (simp_all add: r'_def mag_digits_update)
    moreover have "mag_val r' + (t div 10) * 10 ^ (idx + 1) = whole"
      using 1(4) mag_val_update [OF idx, of "t mod 10"] digit_and_carry [of t "10 ^ idx"]
      by (simp add: r'_def t_def algebra_simps)
    ultimately show ?thesis
      using 1(1) [OF False idx t_def] 1(5) False idx
      by (subst mag_mul_carry.simps) (simp add: Let_def r'_def t_def)
  qed (use 1 in \<open>simp add: mag_mul_carry.simps [of result]\<close>)
qed

lemma mag_mul_row_exact:
  assumes a: "mag_digits a" and b: "mag_digits b" and i: "i < length a"
    and r: "mag_digits result" "length result = length a + length b"
    and bound: "mag_val result + a ! i * 10 ^ i * mag_val b < 10 ^ length result"
  shows "\<exists>r. mag_mul_row a b result i = Some r \<and> mag_digits r \<and> length r = length result \<and>
             mag_val r = mag_val result + a ! i * 10 ^ i * mag_val b"
proof -
  have ai: "a ! i \<le> 9" using mag_digits_nth [OF a i] by simp
  let ?P = "\<lambda>j (r, carry). mag_digits r \<and> carry < 10 \<and> length r = length result \<and>
              mag_val r + carry * 10 ^ (i + j) = mag_val result + a ! i * 10 ^ i * mag_val (take j b)"
  have inv: "?P (length b) (foldl (mag_mul_digit a b i) (result, 0) [0..<length b])"
  proof (rule foldl_upt_invariant)
    fix j s assume "?P j s" and j: "j < length b"
    moreover obtain r carry where s: "s = (r, carry)" by (cases s)
    ultimately have P: "mag_digits r" "carry < 10" "length r = length result"
      "mag_val r + carry * 10 ^ (i + j) = mag_val result + a ! i * 10 ^ i * mag_val (take j b)"
      by auto
    have ij: "i + j < length r" using i j P(3) r(2) by simp
    define t where "t = r ! (i + j) + a ! i * b ! j + carry"
    have "a ! i * b ! j \<le> 9 * 9" using ai mag_digits_nth [OF b j] by (intro mult_le_mono) auto
    then have "t div 10 < 10" using mag_digits_nth [OF P(1) ij] P(2) unfolding t_def by linarith
    moreover have "mag_digits (r[i + j := t mod 10])" using P(1) by (simp add: mag_digits_update)
    moreover have "mag_val (take (Suc j) b) = mag_val (take j b) + b ! j * 10 ^ j"
      using j by (simp add: mag_val_take_Suc digit_or_zero_def)
    then have "a ! i * 10 ^ i * mag_val (take (Suc j) b) =
               a ! i * 10 ^ i * mag_val (take j b) + a ! i * b ! j * 10 ^ (i + j)"
      by (simp add: algebra_simps power_add)
    then have "mag_val (r[i + j := t mod 10]) + (t div 10) * 10 ^ Suc (i + j) =
               mag_val result + a ! i * 10 ^ i * mag_val (take (Suc j) b)"
      using P(4) mag_val_update [OF ij, of "t mod 10"] digit_and_carry [of t "10 ^ (i + j)"]
      by (simp add: t_def algebra_simps)
    ultimately show "?P (Suc j) (mag_mul_digit a b i s j)"
      using P(3) by (simp add: s mag_mul_digit_def Let_def flip: t_def)
  qed (use r in simp)
  obtain r' carry where res: "foldl (mag_mul_digit a b i) (result, 0) [0..<length b] = (r', carry)"
    by fastforce
  show ?thesis
    using inv bound mag_mul_carry_exact [of r' carry "i + length b"]
    by (auto simp: mag_mul_row_def res)
qed

lemma mag_mul_rows_exact:
  assumes a: "mag_digits a" and b: "mag_digits b"
    and "mag_digits result" "length result = length a + length b" "n \<le> length a"
    and "mag_val result = mag_val (take n a) * mag_val b"
  shows "\<exists>r. mag_mul_rows a b result [n..<length a] = Some r \<and> mag_digits r \<and>
             mag_val r = mag_val a * mag_val b"
  using assms(3-6)
proof (induction "length a - n" arbitrary: n result)
  case (Suc k)
  then have n: "n < length a" by simp
  have next_val: "mag_val result + a ! n * 10 ^ n * mag_val b = mag_val (take (Suc n) a) * mag_val b"
    using n Suc.prems(4) by (simp add: mag_val_take_Suc digit_or_zero_def algebra_simps)
  have "mag_val (take (Suc n) a) \<le> mag_val a" using mag_val_split [of a "Suc n"] by simp
  then have "mag_val (take (Suc n) a) * mag_val b \<le> mag_val a * mag_val b" by simp
  also have "\<dots> < 10 ^ length a * 10 ^ length b"
    using mag_val_less [OF a] mag_val_less [OF b] by (intro mult_strict_mono') auto
  finally have "mag_val result + a ! n * 10 ^ n * mag_val b < 10 ^ length result"
    by (simp add: next_val Suc.prems(2) power_add)
  from mag_mul_row_exact [OF a b n Suc.prems(1,2) this]
  obtain r where r: "mag_mul_row a b result n = Some r" "mag_digits r" "length r = length result"
    "mag_val r = mag_val (take (Suc n) a) * mag_val b"
    by (auto simp: next_val)
  show ?case
    using Suc.hyps(1) [of "Suc n" r] Suc.hyps(2) Suc.prems(2) n r
    by (simp add: upt_conv_Cons)
qed simp

text \<open>The product is exact, and the carry never runs past its end.\<close>

lemma mag_mul_exact:
  assumes "mag_digits a" "mag_digits b"
  shows "\<exists>r. mag_mul a b = Some r \<and> mag_val r = mag_val a * mag_val b \<and> mag_ok r"
  using mag_mul_rows_exact [OF assms, of "replicate (length a + length b) 0" 0]
  by (auto simp: mag_mul_def mag_trim_ok)

lemma push_carry_digit:
  assumes "carry < 10"
  shows "push_carry v carry = (if carry = 0 then v else v @ [carry])"
  using assms by (simp add: push_carry.simps [of v] push_carry.simps [of _ 0])

lemma mag_mul_small_loop:
  assumes "factor < 10" "mag_digits a"
  shows "\<exists>r carry. foldl (mag_mul_small_digit factor) (result, c) a = (result @ r, carry) \<and>
           (c < 10 \<longrightarrow> carry < 10) \<and> length r = length a \<and> mag_digits r \<and>
           mag_val r + carry * 10 ^ length a = factor * mag_val a + c"
  using assms(2)
proof (induction a arbitrary: result c)
  case (Cons g a)
  define t where "t = g * factor + c"
  have step: "mag_mul_small_digit factor (result, c) g = (result @ [t mod 10], t div 10)"
    by (simp add: mag_mul_small_digit_def t_def Let_def)
  obtain r carry where IH:
    "foldl (mag_mul_small_digit factor) (result @ [t mod 10], t div 10) a =
       ((result @ [t mod 10]) @ r, carry)"
    "t div 10 < 10 \<longrightarrow> carry < 10" "length r = length a" "mag_digits r"
    "mag_val r + carry * 10 ^ length a = factor * mag_val a + t div 10"
    using Cons.IH [of "result @ [t mod 10]" "t div 10"] Cons.prems by (simp only: mag_digits_simps) blast
  have "g * factor \<le> 9 * 9" using Cons.prems assms(1) by (intro mult_le_mono) auto
  then have "c < 10 \<longrightarrow> t div 10 < 10" unfolding t_def by linarith
  moreover have "t mod 10 + 10 * (mag_val r + carry * 10 ^ length a) =
                 10 * (factor * mag_val a) + t"
    using mod_mult_div_eq [of t 10] unfolding IH(5) distrib_left by linarith
  then have "mag_val (t mod 10 # r) + carry * 10 ^ length (g # a) = factor * mag_val (g # a) + c"
    by (simp add: t_def algebra_simps)
  moreover have "foldl (mag_mul_small_digit factor) (result, c) (g # a) =
                 (result @ (t mod 10 # r), carry)"
    using IH(1) by (simp add: step)
  ultimately show ?case
    using IH(2-4) by (intro exI [of _ "t mod 10 # r"] exI [of _ carry]) simp
qed simp

lemma mag_mul_small_exact:
  assumes "factor < 10" "mag_ok a"
  shows "mag_val (mag_mul_small a factor) = mag_val a * factor \<and> mag_ok (mag_mul_small a factor)"
proof (cases "factor = 0 \<or> a = []")
  case False
  obtain r carry where loop: "foldl (mag_mul_small_digit factor) ([], 0) a = (r, carry)"
    "carry < 10" "length r = length a" "mag_digits r" "mag_val r + carry * 10 ^ length a = factor * mag_val a"
    using mag_mul_small_loop [OF assms(1) mag_ok_digits [OF assms(2)], of "[]" 0] by auto
  have "last r \<noteq> 0" if "carry = 0"
  proof
    assume "last r = 0"
    have "r \<noteq> []" using False loop(3) by auto
    then have "r = butlast r @ [0]" using \<open>last r = 0\<close> by (metis append_butlast_last_id)
    from arg_cong [OF this, of mag_val] have "mag_val r = mag_val (butlast r)" by simp
    also have "\<dots> < 10 ^ (length a - 1)"
      using mag_val_less [of "butlast r"] loop(3,4) by (auto simp: mag_digits_def dest: in_set_butlastD)
    also have "\<dots> \<le> mag_val a" using assms(2) False by (intro mag_val_lower) (auto simp: mag_ok_def)
    also have "\<dots> \<le> factor * mag_val a" using False by simp
    finally show False using loop(5) that by simp
  qed
  then show ?thesis
    using False loop by (auto simp: mag_mul_small_def push_carry_digit mag_ok_def mult.commute)
qed (auto simp: mag_mul_small_def)

lemmas mag_mul_small_val = mag_mul_small_exact [THEN conjunct1]
lemmas mag_mul_small_ok = mag_mul_small_exact [THEN conjunct2]

section \<open>Division\<close>

text \<open>Bisection finds the quotient digit: every factor up to \<open>best\<close> fits and every factor above
  \<open>high\<close> does not.\<close>

lemma digit_search_exact:
  assumes "mag_ok divisor" "mag_ok rem" "divisor \<noteq> []"
    and "0 \<le> best" "best \<le> 9" "high \<le> 9" "0 \<le> low" "low = best + 1 \<or> (low = 0 \<and> best = 0)"
    and "low \<le> high + 1"
    and "mag_val divisor * nat best \<le> mag_val rem"
    and "mag_val rem < mag_val divisor * nat (high + 1)"
  shows "digit_search divisor rem low high best = int (mag_val rem div mag_val divisor)"
  using assms
proof (induction divisor rem low high best rule: digit_search.induct)
  case (1 divisor rem low high best)
  have pos: "0 < mag_val divisor" using 1(3,5) mag_val_eq_0_iff [of divisor] by auto
  show ?case
  proof (cases "low \<le> high")
    case True
    define mid where "mid = (low + high) div 2"
    have mid: "low \<le> mid" "mid \<le> high" "0 \<le> mid" "mid \<le> 9"
      using True 1(8,9) by (auto simp: mid_def)
    have cmp: "mag_compare (mag_mul_small divisor (nat mid)) rem \<le> 0 \<longleftrightarrow>
                 mag_val divisor * nat mid \<le> mag_val rem"
      using mid 1(3,4) by (simp add: mag_compare_le mag_mul_small_ok mag_mul_small_val)
    show ?thesis
    proof (cases "mag_val divisor * nat mid \<le> mag_val rem")
      case fits: True
      have "digit_search divisor rem (mid + 1) high mid = int (mag_val rem div mag_val divisor)"
        by (rule 1(1) [OF True mid_def _ 1(3-5)]) (use cmp fits mid 1(8,13) in auto)
      then show ?thesis
        using cmp fits True by (simp add: digit_search.simps [of divisor rem low] Let_def flip: mid_def)
    next
      case False
      have "digit_search divisor rem low (mid - 1) best = int (mag_val rem div mag_val divisor)"
        by (rule 1(2) [OF True mid_def _ 1(3-5)]) (use cmp False mid 1(6-12) in auto)
      then show ?thesis
        using cmp False True by (simp add: digit_search.simps [of divisor rem low] Let_def flip: mid_def)
    qed
  next
    case False
    then have "nat (high + 1) = nat best + 1 \<or> nat (high + 1) = 0" using 1(6,10,11) by auto
    then have "mag_val rem < mag_val divisor * (nat best + 1)" using 1(13) by auto
    then have "mag_val rem div mag_val divisor = nat best"
      using 1(12) pos by (intro div_nat_eqI) (simp_all add: mult.commute)
    then show ?thesis using False 1(6) by (simp add: digit_search.simps [of divisor])
  qed
qed

lemma mag_divmod_exact:
  assumes num: "mag_digits numerator" and den: "mag_ok divisor" "divisor \<noteq> []"
  shows "\<exists>q r. mag_divmod numerator divisor = (q, r) \<and> mag_ok q \<and> mag_ok r \<and>
           mag_val q = mag_val numerator div mag_val divisor \<and>
           mag_val r = mag_val numerator mod mag_val divisor"
proof -
  define n where "n = length numerator"
  have pos: "0 < mag_val divisor" using den mag_val_eq_0_iff [of divisor] by auto
  let ?P = "\<lambda>i (q, r). mag_digits q \<and> length q = n \<and> mag_ok r \<and>
      mag_val (drop i q) = mag_val (drop i numerator) div mag_val divisor \<and>
      mag_val r = mag_val (drop i numerator) mod mag_val divisor"
  have inv: "?P 0 (foldl (mag_divmod_digit numerator divisor) (replicate n 0, []) (rev [0..<n]))"
  proof (rule foldl_downto_invariant)
    fix i s assume "?P (Suc i) s" and i: "i < n"
    moreover obtain q r where s: "s = (q, r)" by (cases s)
    ultimately have P: "mag_digits q" "length q = n" "mag_ok r"
      "mag_val (drop (Suc i) q) = mag_val (drop (Suc i) numerator) div mag_val divisor"
      "mag_val r = mag_val (drop (Suc i) numerator) mod mag_val divisor"
      by auto
    define rem where "rem = mag_trim (numerator ! i # r)"
    have gi: "numerator ! i < 10" using num i by (simp add: n_def mag_digits_nth)
    have rem: "mag_ok rem" "mag_val rem = numerator ! i + 10 * mag_val r"
      using gi P(3) by (simp_all add: rem_def mag_trim_ok mag_ok_digits)
    have "mag_val r < mag_val divisor" using P(5) pos by simp
    then have lt: "mag_val rem < mag_val divisor * 10" using rem(2) gi by linarith
    define best where "best = nat (digit_search divisor rem 0 9 0)"
    have best: "best = mag_val rem div mag_val divisor"
      using digit_search_exact [OF den(1) rem(1) den(2), of 0 9 0] lt by (simp add: best_def)
    have best9: "best < 10" using lt pos by (simp add: best less_mult_imp_div_less mult.commute)
    have whole: "mag_val (drop i numerator) = numerator ! i + 10 * mag_val (drop (Suc i) numerator)"
      using i by (simp add: mag_val_drop n_def)
    have split: "mag_val (drop i numerator) =
        mag_val rem + mag_val divisor * (10 * (mag_val (drop (Suc i) numerator) div mag_val divisor))"
      using arg_cong [OF mod_mult_div_eq [of "mag_val (drop (Suc i) numerator)" "mag_val divisor"],
              of "\<lambda>x. 10 * x"]
      unfolding whole rem(2) P(5) distrib_left mult.left_commute [of 10] by linarith
    have sub: "mag_val (mag_sub rem (mag_mul_small divisor best)) = mag_val rem mod mag_val divisor \<and>
               mag_ok (mag_sub rem (mag_mul_small divisor best))"
    proof -
      have m: "mag_ok (mag_mul_small divisor best)"
        "mag_val (mag_mul_small divisor best) = mag_val divisor * best"
        using best9 den(1) by (simp_all add: mag_mul_small_ok mag_mul_small_val)
      have "mag_val (mag_mul_small divisor best) \<le> mag_val rem"
        unfolding m(2) by (simp add: best)
      moreover from this have "length (mag_mul_small divisor best) \<le> length rem"
        using mag_ok_longer [OF rem(1) m(1)] by linarith
      ultimately show ?thesis
        using mag_sub_exact [of rem "mag_mul_small divisor best"] rem(1) m
        by (simp add: mag_ok_digits best minus_mult_div_eq_mod)
    qed
    have "mag_val (drop i (q[i := best])) = best + 10 * mag_val (drop (Suc i) q)"
      using i P(2) by (simp add: mag_val_drop)
    also have "\<dots> = mag_val (drop i numerator) div mag_val divisor"
      unfolding split P(4) using pos by (simp add: best)
    finally have "mag_val (drop i (q[i := best])) = mag_val (drop i numerator) div mag_val divisor" .
    moreover have "mag_val rem mod mag_val divisor = mag_val (drop i numerator) mod mag_val divisor"
      unfolding split by simp
    ultimately show "?P i (mag_divmod_digit numerator divisor s i)"
      using P(1,2) best9 sub
      by (simp add: s mag_divmod_digit_def Let_def mag_digits_update flip: rem_def best_def)
  qed (simp add: n_def)
  then show ?thesis
    by (auto simp: mag_divmod_def mag_trim_ok simp flip: n_def split: prod.splits)
qed

end
