(* ===== verification/Decimal_Props.thy ===== *)
theory Decimal_Props
  imports Magnitude_Props
begin

text \<open>
  What the decimals promise.  \<open>dec_ok\<close> is the normal form, \<open>dec_value\<close> the rational
  number a decimal stands for and \<open>rounded\<close> the mathematical meaning of the rounding modes.
  Addition, subtraction and multiplication are exact, division and rounding are \<open>rounded\<close>,
  comparison is the order of the values and agrees with the canonical form, and parsing undoes
  printing.
\<close>

section \<open>Invariant and value\<close>

definition dec_ok :: "decimal \<Rightarrow> bool" where
  "dec_ok d \<longleftrightarrow> mag_ok (digits d) \<and> 0 \<le> scale d \<and> (digits d = [] \<longrightarrow> \<not> negative d)"

definition signed_val :: "bool \<Rightarrow> mag \<Rightarrow> int" where
  "signed_val neg v = (if neg then - int (mag_val v) else int (mag_val v))"

definition dec_value :: "decimal \<Rightarrow> rat" where
  "dec_value d = of_int (signed_val (negative d) (digits d)) / 10 ^ nat (scale d)"

lemma dec_okI [intro?]:
  "mag_ok (digits d) \<Longrightarrow> 0 \<le> scale d \<Longrightarrow> (digits d = [] \<Longrightarrow> \<not> negative d) \<Longrightarrow> dec_ok d"
  by (simp add: dec_ok_def)

lemma dec_okD [dest]: "dec_ok d \<Longrightarrow> mag_ok (digits d)" "dec_ok d \<Longrightarrow> 0 \<le> scale d"
  by (simp_all add: dec_ok_def)

lemma dec_ok_trim:
  assumes "mag_digits ds" "0 \<le> s"
  shows "dec_ok (decimal_trim \<lparr>digits = ds, scale = s, negative = neg\<rparr>)"
  using mag_trim_ok [OF assms(1)] assms(2) by (simp add: decimal_trim_def dec_ok_def Let_def)

lemma scale_trim [simp]: "scale (decimal_trim d) = scale d"
  by (simp add: decimal_trim_def Let_def)

lemma digits_trim [simp]: "digits (decimal_trim d) = mag_trim (digits d)"
  by (simp add: decimal_trim_def Let_def)

lemma signed_val_trim: "signed_val (negative (decimal_trim d)) (mag_trim (digits d)) = signed_val (negative d) (digits d)"
proof (cases "mag_trim (digits d) = []")
  case True
  then have "mag_val (digits d) = 0" by (metis mag_trim_val mag_val.simps(1))
  then show ?thesis by (simp add: signed_val_def)
qed (simp add: signed_val_def decimal_trim_def Let_def)

lemma dec_value_trim:
  "dec_value (decimal_trim \<lparr>digits = ds, scale = s, negative = neg\<rparr>) = of_int (signed_val neg ds) / 10 ^ nat s"
  using signed_val_trim [of "\<lparr>digits = ds, scale = s, negative = neg\<rparr>"]
  by (simp add: dec_value_def)

text \<open>Aligning an operand to a larger scale keeps its value.\<close>

lemma dec_value_aligned:
  assumes "dec_ok d" "scale d \<le> s"
  shows "dec_value d =
         of_int (signed_val (negative d) (mag_shift_left (digits d) (s - scale d))) / 10 ^ nat s"
proof -
  have "nat s = nat (s - scale d) + nat (scale d)" using assms by (auto simp: dec_ok_def)
  then have "(10::rat) ^ nat s = 10 ^ nat (s - scale d) * 10 ^ nat (scale d)" by (simp add: power_add)
  then show ?thesis
    by (simp add: dec_value_def signed_val_def mag_shift_left_val)
qed

lemma mag_shift_left_eq_Nil [simp]: "mag_shift_left v k = [] \<longleftrightarrow> v = []"
  by (simp add: mag_shift_left_def)

lemma aligned_ok: "dec_ok d \<Longrightarrow> mag_ok (mag_shift_left (digits d) k)"
  by (simp add: dec_ok_def mag_shift_left_ok)

section \<open>Addition, subtraction and multiplication\<close>

lemma dec_ok_negate [simp]: "dec_ok d \<Longrightarrow> dec_ok (decimal_negate d)"
  by (auto simp: dec_ok_def decimal_negate_def is_zero_def)

lemma dec_value_negate [simp]: "dec_value (decimal_negate d) = - dec_value d"
  by (simp add: dec_value_def decimal_negate_def is_zero_def signed_val_def)

lemma scale_negate [simp]: "scale (decimal_negate d) = scale d"
  by (simp add: decimal_negate_def)

lemma digits_negate [simp]: "digits (decimal_negate d) = digits d"
  by (simp add: decimal_negate_def)

lemma mag_sub_aligned:
  assumes "mag_ok a" "mag_ok b" "mag_val b \<le> mag_val a"
  shows "mag_val (mag_sub a b) = mag_val a - mag_val b" and "mag_digits (mag_sub a b)"
proof -
  have "length b \<le> length a" using mag_ok_longer [OF assms(1,2)] assms(3) by linarith
  then show "mag_val (mag_sub a b) = mag_val a - mag_val b" and "mag_digits (mag_sub a b)"
    using mag_sub_exact [of a b] assms by (simp_all add: mag_ok_def)
qed

lemma decimal_add_correct:
  assumes d: "dec_ok d" and e: "dec_ok e"
  shows "dec_ok (decimal_add d e) \<and> dec_value (decimal_add d e) = dec_value d + dec_value e \<and>
         scale (decimal_add d e) = max (scale d) (scale e)"
proof -
  define s where "s = max (scale d) (scale e)"
  define a where "a = mag_shift_left (digits d) (s - scale d)"
  define b where "b = mag_shift_left (digits e) (s - scale e)"
  have s0: "0 \<le> s" using d by (auto simp: s_def)
  have ok: "mag_ok a" "mag_ok b" using d e by (simp_all add: a_def b_def aligned_ok)
  have vals: "dec_value d = of_int (signed_val (negative d) a) / 10 ^ nat s"
    "dec_value e = of_int (signed_val (negative e) b) / 10 ^ nat s"
    using dec_value_aligned [OF d] dec_value_aligned [OF e] by (simp_all add: a_def b_def s_def)
  obtain ds neg where res: "(ds, neg) =
      (if negative d = negative e then (mag_add a b, negative d)
       else if mag_compare a b \<ge> 0 then (mag_sub a b, negative d) else (mag_sub b a, negative e))"
    by (metis surj_pair)
  have cmp: "mag_compare a b \<ge> 0 \<longleftrightarrow> mag_val b \<le> mag_val a"
    using ok by (simp add: mag_compare_val sgn_if)
  have "mag_digits ds \<and> signed_val neg ds = signed_val (negative d) a + signed_val (negative e) b"
    using res ok mag_sub_aligned [OF ok] mag_sub_aligned [OF ok(2,1)]
    by (auto simp: cmp signed_val_def mag_ok_digits of_nat_diff split: if_splits)
  moreover have "decimal_add d e = decimal_trim \<lparr>digits = ds, scale = s, negative = neg\<rparr>"
    unfolding decimal_add_def Let_def s_def [symmetric] a_def [symmetric] b_def [symmetric]
      res [symmetric] by simp
  ultimately show ?thesis
    using s0 by (simp add: dec_ok_trim dec_value_trim vals add_divide_distrib s_def)
qed

text \<open>The digits of an operand brought to a scale, and how many of them a sum has.\<close>

definition aligned_length :: "decimal \<Rightarrow> int \<Rightarrow> nat" where
  "aligned_length d s = length (digits d) + nat (s - scale d)"

lemma aligned_less:
  assumes "dec_ok d"
  shows "mag_val (mag_shift_left (digits d) (s - scale d)) < 10 ^ aligned_length d s"
  using mag_val_less [of "digits d"] assms
  by (simp add: dec_ok_def mag_ok_def aligned_length_def mag_shift_left_val power_add)

lemma decimal_add_length:
  assumes d: "dec_ok d" and e: "dec_ok e"
  shows "length (digits (decimal_add d e)) \<le>
         max (aligned_length d (max (scale d) (scale e))) (aligned_length e (max (scale d) (scale e))) + 1"
proof (cases "digits (decimal_add d e) = []")
  case False
  define s where "s = max (scale d) (scale e)"
  define n where "n = max (aligned_length d s) (aligned_length e s)"
  let ?r = "decimal_add d e"
  let ?a = "mag_shift_left (digits d) (s - scale d)" and ?b = "mag_shift_left (digits e) (s - scale e)"
  have r: "dec_ok ?r" "dec_value ?r = dec_value d + dec_value e" "scale ?r = s"
    using decimal_add_correct [OF d e] by (simp_all add: s_def)
  have "dec_value d = of_int (signed_val (negative d) ?a) / 10 ^ nat s"
    "dec_value e = of_int (signed_val (negative e) ?b) / 10 ^ nat s"
    using dec_value_aligned [OF d, of s] dec_value_aligned [OF e, of s] by (simp_all add: s_def)
  with r(2,3) have "(of_int (signed_val (negative ?r) (digits ?r)) :: rat) =
      of_int (signed_val (negative d) ?a + signed_val (negative e) ?b)"
    by (simp add: dec_value_def flip: add_divide_distrib)
  then have "signed_val (negative ?r) (digits ?r) = signed_val (negative d) ?a + signed_val (negative e) ?b"
    by (simp only: of_int_eq_iff)
  then have "mag_val (digits ?r) \<le> mag_val ?a + mag_val ?b" by (auto simp: signed_val_def split: if_splits)
  also have "\<dots> < 10 ^ aligned_length d s + 10 ^ aligned_length e s"
    using aligned_less [OF d, of s] aligned_less [OF e, of s] by (rule add_strict_mono)
  also have "\<dots> \<le> 10 ^ n + 10 ^ n" by (intro add_mono power_increasing) (simp_all add: n_def)
  also have "\<dots> \<le> 10 ^ (n + 1)" by simp
  finally have "mag_val (digits ?r) < 10 ^ (n + 1)" .
  moreover have "10 ^ (length (digits ?r) - 1) \<le> mag_val (digits ?r)"
    using mag_val_lower [of "digits ?r"] r(1) False by (simp add: dec_ok_def mag_ok_def)
  ultimately have "(10::nat) ^ (length (digits ?r) - 1) < 10 ^ (n + 1)" by linarith
  then have "length (digits ?r) - 1 < n + 1" by (rule power_less_imp_less_exp [rotated]) simp
  then show ?thesis by (simp add: n_def s_def)
qed simp

lemma decimal_multiply_correct:
  assumes d: "dec_ok d" and e: "dec_ok e"
  shows "if length (digits d) + length (digits e) \<le> k_max_digits \<and>
            scale d + scale e \<le> int k_max_digits
         then \<exists>p. decimal_multiply d e = Some (Some p) \<and> dec_ok p \<and>
                  dec_value p = dec_value d * dec_value e \<and> scale p = scale d + scale e
         else decimal_multiply d e = Some None"
proof -
  obtain p where p: "mag_mul (digits d) (digits e) = Some p"
    "mag_val p = mag_val (digits d) * mag_val (digits e)" "mag_ok p"
    using mag_mul_exact [of "digits d" "digits e"] d e by (auto simp: dec_ok_def mag_ok_def)
  have s: "0 \<le> scale d" "0 \<le> scale e" using d e by auto
  have "signed_val (negative d \<noteq> negative e) p =
        signed_val (negative d) (digits d) * signed_val (negative e) (digits e)"
    by (simp add: signed_val_def p(2))
  then show ?thesis
    using s p
    by (simp add: decimal_multiply_def Let_def dec_ok_trim dec_value_trim mag_ok_digits)
       (auto simp: dec_value_def power_add nat_add_distrib)
qed

section \<open>Rounding\<close>

fun rounded :: "rounding_mode \<Rightarrow> rat \<Rightarrow> int" where
  "rounded HalfUp x = (if x < 0 then - \<lfloor>- x + 1 / 2\<rfloor> else \<lfloor>x + 1 / 2\<rfloor>)"
| "rounded HalfDown x = (if x < 0 then - \<lceil>- x - 1 / 2\<rceil> else \<lceil>x - 1 / 2\<rceil>)"
| "rounded HalfEven x =
     (let low = \<lfloor>x\<rfloor>; frac = x - of_int low
      in if frac < 1 / 2 \<or> (frac = 1 / 2 \<and> even low) then low else low + 1)"
| "rounded Up x = (if x < 0 then \<lfloor>x\<rfloor> else \<lceil>x\<rceil>)"
| "rounded Down x = (if x < 0 then \<lceil>x\<rceil> else \<lfloor>x\<rfloor>)"
| "rounded Ceiling x = \<lceil>x\<rceil>"
| "rounded Floor x = \<lfloor>x\<rfloor>"

definition half_comparison :: "rat \<Rightarrow> int" where
  "half_comparison f = (if f < 1 / 2 then - 1 else if f = 1 / 2 then 0 else 1)"

lemma floor_plus_frac:
  fixes f :: rat
  assumes "0 \<le> f" "f < 1"
  shows "\<lfloor>of_int q + f\<rfloor> = q" "\<lceil>of_int q + f\<rceil> = (if f = 0 then q else q + 1)"
    "\<lfloor>- of_int q - f\<rfloor> = (if f = 0 then - q else - q - 1)" "\<lceil>- of_int q - f\<rceil> = - q"
    "\<lfloor>of_int q + f + 1 / 2\<rfloor> = (if f < 1 / 2 then q else q + 1)"
    "\<lceil>of_int q + f - 1 / 2\<rceil> = (if f \<le> 1 / 2 then q else q + 1)"
  using assms by (auto intro!: floor_unique ceiling_unique)

lemma rounded_pos:
  assumes "0 \<le> q" "0 \<le> f" "f < 1"
  shows "rounded mode (of_int q + f) =
         q + (if apply_rounding (f \<noteq> 0) (half_comparison f) (odd q) False mode then 1 else 0)"
proof -
  have "\<not> of_int q + f < 0" using assms by simp
  then show ?thesis
    by (cases mode) (auto simp: floor_plus_frac [OF assms(2,3)] half_comparison_def Let_def)
qed

lemma rounded_neg:
  assumes "0 \<le> q" "0 \<le> f" "f < 1"
  shows "rounded mode (- (of_int q + f)) =
         - (q + (if apply_rounding (f \<noteq> 0) (half_comparison f) (odd q) True mode then 1 else 0))"
proof (cases "q = 0 \<and> f = 0")
  case True
  then show ?thesis
    using rounded_pos [of 0 0 mode] by (cases mode) (simp_all add: half_comparison_def)
next
  case False
  then have "0 < rat_of_int q \<or> 0 < f" "0 \<le> rat_of_int q" using assms by auto
  then have "0 < of_int q + f" using assms by linarith
  then have neg: "- (of_int q + f) < 0" by simp
  show ?thesis
  proof (cases mode)
    case HalfEven
    then show ?thesis
      using assms(2,3) by (auto simp: floor_plus_frac [OF assms(2,3)] half_comparison_def Let_def)
  qed (use neg in \<open>simp_all only: rounded.simps if_True minus_minus\<close>;
       auto simp: floor_plus_frac [OF assms(2,3)] half_comparison_def)+
qed

text \<open>The quotient and remainder of magnitudes, and what the code's three tests say of them.\<close>

lemma apply_rounding_correct:
  fixes n d :: nat
  assumes "0 < d"
  shows "rounded mode (of_int (if neg then - int n else int n) / of_nat d) =
         (if neg then - 1 else 1) * int (n div d +
           (if apply_rounding (n mod d \<noteq> 0) (sgn (2 * int (n mod d) - int d)) (odd (n div d)) neg mode
            then 1 else 0))"
proof -
  define q where "q = n div d"
  define f where "f = (of_nat (n mod d) / of_nat d :: rat)"
  have f: "0 \<le> f" "f < 1" using assms by (simp_all add: f_def)
  have "rat_of_nat n = of_nat d * of_nat q + of_nat (n mod d)"
    by (metis mult_div_mod_eq of_nat_add of_nat_mult q_def)
  then have x: "rat_of_nat n / of_nat d = of_int (int q) + f"
    using assms by (simp add: f_def field_simps)
  have "f = 0 \<longleftrightarrow> n mod d = 0" using assms by (simp add: f_def)
  moreover have "2 * rat_of_nat (n mod d) = of_nat (2 * (n mod d))" by simp
  then have "half_comparison f = sgn (2 * int (n mod d) - int d)"
    using assms by (simp add: half_comparison_def f_def field_simps sgn_if del: of_nat_mult)
  ultimately show ?thesis
    using rounded_pos [of "int q" f mode] rounded_neg [of "int q" f mode] f
    by (cases neg) (simp_all add: x flip: q_def)
qed

lemma odd_mag_val: "odd (mag_val v) \<longleftrightarrow> v \<noteq> [] \<and> hd v mod 2 = 1"
  by (cases v) (auto simp: odd_iff_mod_2_eq_one)

lemma mag_increment: "mag_digits v \<Longrightarrow> mag_val (mag_add v [1]) = mag_val v + 1"
  "mag_digits v \<Longrightarrow> mag_digits (mag_add v [1])"
  by simp_all

lemma divide_scaled_correct:
  assumes num: "mag_digits a" and den: "mag_ok b" "b \<noteq> []" and s: "0 \<le> s"
  shows "dec_ok (divide_scaled a b s neg mode) \<and> scale (divide_scaled a b s neg mode) = s \<and>
         dec_value (divide_scaled a b s neg mode) =
           of_int (rounded mode (of_int (signed_val neg a) / of_nat (mag_val b))) / 10 ^ nat s"
proof -
  obtain q r where qr: "mag_divmod a b = (q, r)" "mag_ok q" "mag_ok r"
    "mag_val q = mag_val a div mag_val b" "mag_val r = mag_val a mod mag_val b"
    using mag_divmod_exact [OF num den] by blast
  have pos: "0 < mag_val b" using den mag_val_eq_0_iff [of b] by auto
  have any: "r \<noteq> [] \<longleftrightarrow> mag_val a mod mag_val b \<noteq> 0" using mag_val_eq_0_iff [OF qr(3)] qr(5) by simp
  have cmp: "(if r \<noteq> [] then mag_compare (mag_mul_small r 2) b else - 1) =
             sgn (2 * int (mag_val a mod mag_val b) - int (mag_val b))"
    using pos any qr(3,5) den
    by (auto simp: mag_compare_val mag_mul_small_ok mag_mul_small_val mult.commute sgn_if)
  have odd: "q \<noteq> [] \<and> hd q mod 2 = 1 \<longleftrightarrow> odd (mag_val a div mag_val b)"
    using odd_mag_val [of q] qr(4) by simp
  define up where "up = apply_rounding (mag_val a mod mag_val b \<noteq> 0)
    (sgn (2 * int (mag_val a mod mag_val b) - int (mag_val b))) (odd (mag_val a div mag_val b)) neg mode"
  have res: "divide_scaled a b s neg mode =
        decimal_trim \<lparr>digits = if up then mag_add q [1] else q, scale = s, negative = neg\<rparr>"
    unfolding divide_scaled_def qr(1) Let_def prod.case cmp odd up_def
    unfolding any ..
  have "signed_val neg (if up then mag_add q [1] else q) =
        rounded mode (of_int (signed_val neg a) / of_nat (mag_val b))"
    using apply_rounding_correct [OF pos, of mode neg "mag_val a", folded up_def] qr(2,4)
    by (simp add: signed_val_def mag_ok_digits)
  then show ?thesis
    using qr(2) s by (simp add: res dec_value_trim dec_ok_trim mag_ok_digits)
qed

lemma decimal_divide_correct:
  assumes d: "dec_ok d" and e: "dec_ok e" and r: "decimal_divide d e s mode = Some r"
  shows "dec_ok r" and "scale r = s"
    and "dec_value r = of_int (rounded mode (dec_value d / dec_value e * 10 ^ nat s)) / 10 ^ nat s"
proof -
  define neg where "neg = (negative d \<noteq> negative e)"
  define ex where "ex = s + scale e - scale d"
  define a where "a = mag_shift_left (digits d) ex"
  define b where "b = mag_shift_left (digits e) (- ex)"
  have s: "0 \<le> s" "digits e \<noteq> []"
    using r by (auto simp: decimal_divide_def is_zero_def split: if_splits)
  have ok: "mag_ok a" "mag_ok b" "b \<noteq> []"
    using d e s(2) by (simp_all add: a_def b_def aligned_ok mag_shift_left_eq_Nil)
  have res: "r = divide_scaled a b s neg mode"
    using r by (auto simp: decimal_divide_def Let_def a_def b_def neg_def ex_def mag_shift_left_def
        split: if_splits)
  have sc: "0 \<le> scale d" "0 \<le> scale e" using d e by auto
  have pw: "(10::rat) ^ nat ex * 10 ^ nat (scale d) = 10 ^ nat (- ex) * 10 ^ nat s * 10 ^ nat (scale e)"
  proof -
    have "nat ex + nat (scale d) = nat (- ex) + nat s + nat (scale e)"
      using s(1) sc by (simp add: ex_def)
    then show ?thesis by (metis power_add)
  qed
  have nz: "mag_val (digits e) \<noteq> 0" using e s(2) mag_val_eq_0_iff [of "digits e"] by (auto simp: dec_ok_def)
  have "dec_value d / dec_value e * 10 ^ nat s = of_int (signed_val neg a) / of_nat (mag_val b)"
    using pw nz
    by (simp add: dec_value_def signed_val_def neg_def a_def b_def mag_shift_left_val field_simps)
  then show "dec_ok r" and "scale r = s"
    and "dec_value r = of_int (rounded mode (dec_value d / dec_value e * 10 ^ nat s)) / 10 ^ nat s"
    using divide_scaled_correct [OF mag_ok_digits [OF ok(1)] ok(2,3) s(1), of neg mode]
    by (simp_all add: res)
qed

section \<open>Rounding to a number of places\<close>

lemma mag_val_take_eq_0_iff: "mag_val (take m v) = 0 \<longleftrightarrow> \<not> (\<exists>k \<in> set [0..<min m (length v)]. v ! k \<noteq> 0)"
proof (induction m)
  case (Suc m)
  have "mag_val (take (Suc m) v) = 0 \<longleftrightarrow> mag_val (take m v) = 0 \<and> digit_or_zero v m = 0"
    by (simp add: mag_val_take_Suc)
  then show ?case using Suc by (auto simp: digit_or_zero_def less_Suc_eq)
qed simp

lemma mag_div_mod_power:
  assumes "mag_digits v"
  shows "mag_val v div 10 ^ k = mag_val (drop k v)" and "mag_val v mod 10 ^ k = mag_val (take k v)"
proof -
  have "mag_val (take k v) < 10 ^ k"
  proof -
    have "mag_val (take k v) < 10 ^ length (take k v)" using assms by (intro mag_val_less) simp
    also have "(10::nat) ^ length (take k v) \<le> 10 ^ k" by (intro power_increasing) auto
    finally show ?thesis .
  qed
  moreover have "mag_val v = mag_val (take k v) + 10 ^ k * mag_val (drop k v)"
    using mag_val_split [of v k] by (cases "k \<le> length v") (simp_all add: min_def)
  ultimately show "mag_val v div 10 ^ k = mag_val (drop k v)"
    and "mag_val v mod 10 ^ k = mag_val (take k v)"
    by simp_all
qed

lemma sgn_int_diff: "sgn (int a - int b) = (if a < b then - 1 else if a = b then 0 else 1)"
  by (simp add: sgn_if)

lemma round_drop_correct:
  assumes d: "dec_ok d" and p: "0 \<le> p" "p < scale d"
  shows "dec_ok (round_drop d p mode) \<and> scale (round_drop d p mode) = p \<and>
         dec_value (round_drop d p mode) = of_int (rounded mode (dec_value d * 10 ^ nat p)) / 10 ^ nat p"
proof -
  define k where "k = nat (scale d - p)"
  define v where "v = digits d"
  define n where "n = mag_val v"
  have v: "mag_digits v" using d by (auto simp: v_def dec_ok_def mag_ok_def)
  have k: "0 < k" "nat (scale d) = k + nat p" using p by (auto simp: k_def)
  have div_mod: "n div 10 ^ k = mag_val (drop k v)" "n mod 10 ^ k = mag_val (take k v)"
    by (simp_all add: n_def mag_div_mod_power [OF v])
  have kept: "(if k < length v then drop k v else []) = drop k v" by simp
  define g where "g = digit_or_zero v (k - 1)"
  define rest where "rest = mag_val (take (k - 1) v)"
  have r: "n mod 10 ^ k = rest + g * 10 ^ (k - 1)"
    using mag_val_take_Suc [of "k - 1" v] k(1) by (simp add: div_mod(2) g_def rest_def)
  have rest: "(\<exists>i \<in> set [0..<min (k - 1) (length v)]. v ! i \<noteq> 0) \<longleftrightarrow> rest \<noteq> 0"
    using mag_val_take_eq_0_iff [of "k - 1" v] by (auto simp: rest_def)
  have "rest = mag_val v mod 10 ^ (k - 1)" by (simp add: rest_def mag_div_mod_power [OF v])
  then have rest_less: "rest < 10 ^ (k - 1)" by simp
  have ten: "(10::nat) ^ k = 10 * 10 ^ (k - 1)" using k(1) by (cases k) auto
  have any: "g \<noteq> 0 \<or> rest \<noteq> 0 \<longleftrightarrow> n mod 10 ^ k \<noteq> 0" by (auto simp: r)
  have cmp: "(if g > 5 \<or> (g = 5 \<and> rest \<noteq> 0) then 1 else if g = 5 then 0 else - 1) =
             sgn (2 * int (n mod 10 ^ k) - int (10 ^ k))"
  proof -
    have "10 ^ k < 2 * (n mod 10 ^ k)" if "g > 5"
    proof -
      have "6 * 10 ^ (k - 1) \<le> g * 10 ^ (k - 1)" using that by (intro mult_le_mono1) simp
      then show ?thesis using rest_less unfolding r unfolding ten distrib_left by linarith
    qed
    moreover have "2 * (n mod 10 ^ k) < 10 ^ k" if "g < 5"
    proof -
      have "g * 10 ^ (k - 1) \<le> 4 * 10 ^ (k - 1)" using that by (intro mult_le_mono1) simp
      then show ?thesis using rest_less unfolding r unfolding ten distrib_left by linarith
    qed
    moreover have "2 * (n mod 10 ^ k) = 2 * rest + 10 ^ k" if "g = 5"
      unfolding r unfolding ten that by simp
    moreover have "sgn (2 * int (n mod 10 ^ k) - int (10 ^ k)) =
        (if 2 * (n mod 10 ^ k) < 10 ^ k then - 1 else if 2 * (n mod 10 ^ k) = 10 ^ k then 0 else 1)"
      using sgn_int_diff [of "2 * (n mod 10 ^ k)" "10 ^ k"] by simp
    ultimately show ?thesis by (auto simp: less_Suc_eq)
  qed
  have odd: "drop k v \<noteq> [] \<and> hd (drop k v) mod 2 = 1 \<longleftrightarrow> odd (n div 10 ^ k)"
    using odd_mag_val [of "drop k v"] by (simp add: div_mod(1))
  define up where "up = apply_rounding (n mod 10 ^ k \<noteq> 0) (sgn (2 * int (n mod 10 ^ k) - int (10 ^ k)))
    (odd (n div 10 ^ k)) (negative d) mode"
  define ds where "ds = (if up then mag_add (drop k v) [1] else drop k v)"
  have res: "round_drop d p mode = decimal_trim \<lparr>digits = ds, scale = p, negative = negative d\<rparr>"
    unfolding round_drop_def Let_def k_def [symmetric] v_def [symmetric] kept rest
      digit_or_zero_def [of v "k - 1", folded g_def, symmetric] any cmp odd ds_def up_def ..
  have "signed_val (negative d) ds = rounded mode (of_int (signed_val (negative d) v) / of_nat (10 ^ k))"
    using apply_rounding_correct [of "10 ^ k" mode "negative d" n, folded up_def] v
    by (cases "negative d") (simp_all add: ds_def signed_val_def div_mod(1) flip: n_def)
  moreover have "dec_value d * 10 ^ nat p = of_int (signed_val (negative d) v) / of_nat (10 ^ k)"
    by (simp add: dec_value_def k(2) power_add v_def)
  ultimately show ?thesis
    using v p(1) by (simp add: res dec_value_trim dec_ok_trim ds_def)
qed

text \<open>The number of places the code rounds to.\<close>

definition clamped_places :: "int \<Rightarrow> int" where
  "clamped_places places = max 0 (min places (int k_max_digits))"

lemma rounded_of_int [simp]: "rounded mode (of_int z) = z"
  using rounded_pos [of z 0 mode] rounded_neg [of "- z" 0 mode]
  by (cases "0 \<le> z"; cases mode) (simp_all add: half_comparison_def)

lemma decimal_round_correct:
  fixes places :: int
  assumes d: "dec_ok d"
  defines "p \<equiv> clamped_places places"
  shows "dec_ok (decimal_round d places mode) \<and> scale (decimal_round d places mode) = p \<and>
         dec_value (decimal_round d places mode) =
           of_int (rounded mode (dec_value d * 10 ^ nat p)) / 10 ^ nat p"
proof -
  have p: "0 \<le> p" "(let q = if places < 0 then 0 else places
                     in if q > int k_max_digits then int k_max_digits else q) = p"
    by (auto simp: p_def clamped_places_def Let_def k_max_digits_def)
  show ?thesis
  proof (cases "scale d \<le> p")
    case True
    define v where "v = mag_shift_left (digits d) (p - scale d)"
    have res: "decimal_round d places mode = decimal_trim \<lparr>digits = v, scale = p, negative = negative d\<rparr>"
      using True p(2)
      by (cases d) (auto simp: decimal_round_def Let_def v_def mag_shift_left_def split: if_splits)
    have "dec_value d * 10 ^ nat p = of_int (signed_val (negative d) v)"
      using dec_value_aligned [OF d True] by (simp add: v_def)
    then show ?thesis
      using p(1) aligned_ok [OF d, of "p - scale d"] dec_value_aligned [OF d True]
      by (simp add: res dec_value_trim dec_ok_trim mag_ok_digits flip: v_def)
  next
    case False
    then have "decimal_round d places mode = round_drop d p mode"
      using p(2) by (simp add: decimal_round_def Let_def)
    then show ?thesis using round_drop_correct [OF d p(1)] False by simp
  qed
qed

section \<open>Comparison and the canonical form\<close>

lemma decimal_compare_correct:
  assumes d: "dec_ok d" and e: "dec_ok e"
  shows "decimal_compare d e = (if dec_value d < dec_value e then - 1
                                else if dec_value d = dec_value e then 0 else 1)"
proof -
  define s where "s = max (scale d) (scale e)"
  define a where "a = mag_shift_left (digits d) (s - scale d)"
  define b where "b = mag_shift_left (digits e) (s - scale e)"
  have ok: "mag_ok a" "mag_ok b" using d e by (simp_all add: a_def b_def aligned_ok)
  have vals: "dec_value d = of_int (signed_val (negative d) a) / 10 ^ nat s"
    "dec_value e = of_int (signed_val (negative e) b) / 10 ^ nat s"
    using dec_value_aligned [OF d] dec_value_aligned [OF e] by (simp_all add: a_def b_def s_def)
  have less: "dec_value d < dec_value e \<longleftrightarrow> signed_val (negative d) a < signed_val (negative e) b"
    and eq: "dec_value d = dec_value e \<longleftrightarrow> signed_val (negative d) a = signed_val (negative e) b"
    by (simp_all add: vals divide_less_cancel)
  have zero: "a = [] \<longleftrightarrow> is_zero d" "b = [] \<longleftrightarrow> is_zero e"
    by (simp_all add: a_def b_def is_zero_def)
  have pos: "is_zero d \<or> 0 < mag_val a" "is_zero e \<or> 0 < mag_val b"
    using mag_val_eq_0_iff [OF ok(1)] mag_val_eq_0_iff [OF ok(2)] zero by auto
  have neg: "is_zero d \<longrightarrow> \<not> negative d \<and> mag_val a = 0" "is_zero e \<longrightarrow> \<not> negative e \<and> mag_val b = 0"
    using d e zero by (auto simp: dec_ok_def is_zero_def a_def b_def mag_shift_left_val)
  have "decimal_compare d e =
     (if decimal_sign d \<noteq> decimal_sign e then (if decimal_sign d < decimal_sign e then - 1 else 1)
      else if decimal_sign d = 0 then 0
      else if decimal_sign d > 0 then mag_compare a b else - mag_compare a b)"
    by (simp add: decimal_compare_def Let_def flip: s_def a_def b_def)
  then show ?thesis
    unfolding less eq mag_compare_val [OF ok] sgn_int_diff decimal_sign_def signed_val_def
    using pos neg by (cases "is_zero d"; cases "is_zero e"; cases "negative d"; cases "negative e") auto
qed

lemma strip_zero_digits_correct:
  "mag_ok v \<Longrightarrow> 0 \<le> s \<Longrightarrow> strip_zero_digits v s = (w, t) \<Longrightarrow>
   mag_ok w \<and> 0 \<le> t \<and> t \<le> s \<and> v = replicate (nat (s - t)) 0 @ w \<and>
   (w \<noteq> [] \<longrightarrow> t = 0 \<or> hd w \<noteq> 0) \<and> (v \<noteq> [] \<longrightarrow> w \<noteq> [])"
proof (induction v s rule: strip_zero_digits.induct)
  case (2 g gs s)
  show ?case
  proof (cases "s > 0 \<and> g = 0")
    case True
    then have ok: "mag_ok gs" "gs \<noteq> []" using 2(2) by (auto simp: mag_ok_def split: if_splits)
    have IH: "mag_ok w \<and> 0 \<le> t \<and> t \<le> s - 1 \<and> gs = replicate (nat (s - 1 - t)) 0 @ w \<and>
        (w \<noteq> [] \<longrightarrow> t = 0 \<or> hd w \<noteq> 0) \<and> (gs \<noteq> [] \<longrightarrow> w \<noteq> [])"
      using 2(1) [OF True ok(1)] True 2(4) by simp
    moreover have "nat (s - t) = Suc (nat (s - 1 - t))" using IH by linarith
    ultimately show ?thesis using True ok by simp
  qed (use 2 in auto)
qed simp

text \<open>The canonical form keeps the value and is determined by it.\<close>

lemma decimal_canonical_correct:
  assumes d: "dec_ok d"
  shows "dec_ok (decimal_canonical d) \<and> dec_value (decimal_canonical d) = dec_value d \<and>
         (digits (decimal_canonical d) = [] \<longrightarrow> decimal_canonical d = decimal_zero) \<and>
         (digits (decimal_canonical d) \<noteq> [] \<longrightarrow>
            scale (decimal_canonical d) = 0 \<or> hd (digits (decimal_canonical d)) \<noteq> 0)"
proof -
  obtain w t where w: "strip_zero_digits (digits d) (scale d) = (w, t)" by fastforce
  have ok: "mag_ok (digits d)" "0 \<le> scale d" "digits d = [] \<Longrightarrow> \<not> negative d"
    using d by (auto simp: dec_ok_def)
  note s = strip_zero_digits_correct [OF ok(1,2) w]
  show ?thesis
  proof (cases "w = []")
    case True
    then have "decimal_canonical d = decimal_zero" "digits d = []"
      using w s by (simp add: decimal_canonical_def decimal_zero_def) (use True s in blast)
    then show ?thesis by (simp add: decimal_zero_def dec_ok_def dec_value_def signed_val_def)
  next
    case False
    have can: "decimal_canonical d = d\<lparr>digits := w, scale := t\<rparr>"
      using False by (simp add: decimal_canonical_def w)
    have "mag_val (digits d) = 10 ^ nat (scale d - t) * mag_val w" using s by (metis mag_val_append
      mag_val_zeros add_0 length_replicate)
    moreover have "nat (scale d) = nat (scale d - t) + nat t" using s by auto
    then have "(10::rat) ^ nat (scale d) = 10 ^ nat (scale d - t) * 10 ^ nat t" by (simp add: power_add)
    ultimately have "dec_value (decimal_canonical d) = dec_value d"
      by (simp add: dec_value_def signed_val_def can)
    then show ?thesis using s False ok(3) by (simp add: can dec_ok_def)
  qed
qed

lemma mag_val_mod_10: "mag_ok v \<Longrightarrow> v \<noteq> [] \<Longrightarrow> mag_val v mod 10 = hd v"
  by (cases v) (auto simp: mag_ok_def)

lemma canonical_scale_unique:
  assumes "mag_ok a" "mag_ok b" "a \<noteq> []" "b \<noteq> []" "s = 0 \<or> hd a \<noteq> 0" "t = 0 \<or> hd b \<noteq> 0"
    and "mag_val a * 10 ^ t = mag_val b * (10::nat) ^ s"
  shows "a = b \<and> s = t"
  using assms
proof (induction s t rule: diff_induct)
  case (1 s)
  then show ?case
  proof (cases s)
    case (Suc s')
    then have "mag_val a = 10 * (mag_val b * 10 ^ s')" using 1 by simp
    moreover have "mag_val a mod 10 = hd a" using 1 by (intro mag_val_mod_10)
    ultimately show ?thesis using 1 Suc by simp
  qed (use 1 mag_ok_eqI in auto)
next
  case (2 t)
  then have "mag_val b = 10 * (mag_val a * 10 ^ t)" by simp
  moreover have "mag_val b mod 10 = hd b" using 2 by (intro mag_val_mod_10)
  ultimately show ?case using 2 by simp
next
  case (3 s t)
  then show ?case by simp
qed

lemma canonical_equal_iff:
  assumes d: "dec_ok d" and e: "dec_ok e"
  shows "decimal_canonical d = decimal_canonical e \<longleftrightarrow> dec_value d = dec_value e"
proof
  assume eq: "dec_value d = dec_value e"
  let ?c = "decimal_canonical d" and ?k = "decimal_canonical e"
  note c = decimal_canonical_correct [OF d] and k = decimal_canonical_correct [OF e]
  have v: "dec_value ?c = dec_value ?k" using c k eq by simp
  have scaled: "rat_of_int (signed_val (negative ?c) (digits ?c)) * 10 ^ nat (scale ?k) =
                of_int (signed_val (negative ?k) (digits ?k)) * 10 ^ nat (scale ?c)"
    using v by (simp add: dec_value_def field_simps)
  then have "rat_of_int (signed_val (negative ?c) (digits ?c) * 10 ^ nat (scale ?k)) =
             of_int (signed_val (negative ?k) (digits ?k) * 10 ^ nat (scale ?c))" by simp
  then have ints: "signed_val (negative ?c) (digits ?c) * 10 ^ nat (scale ?k) =
             signed_val (negative ?k) (digits ?k) * 10 ^ nat (scale ?c)" by (simp only: of_int_eq_iff)
  have zero: "digits ?c = [] \<longleftrightarrow> digits ?k = []"
    using ints c k mag_val_eq_0_iff [of "digits ?c"] mag_val_eq_0_iff [of "digits ?k"]
    by (auto simp: dec_ok_def signed_val_def split: if_splits)
  show "?c = ?k"
  proof (cases "digits ?c = []")
    case True
    then show ?thesis using zero c k by simp
  next
    case False
    have nz: "0 < mag_val (digits ?c)" "0 < mag_val (digits ?k)"
      using False zero c k mag_val_eq_0_iff [of "digits ?c"] mag_val_eq_0_iff [of "digits ?k"]
      by (auto simp: dec_ok_def)
    have sign: "negative ?c = negative ?k"
    proof (rule ccontr)
      assume "negative ?c \<noteq> negative ?k"
      then have "int (mag_val (digits ?c)) * 10 ^ nat (scale ?k) + int (mag_val (digits ?k)) * 10 ^ nat (scale ?c) = 0"
        using ints by (auto simp: signed_val_def split: if_splits)
      moreover have "0 < int (mag_val (digits ?c)) * 10 ^ nat (scale ?k)"
        "0 < int (mag_val (digits ?k)) * 10 ^ nat (scale ?c)" using nz by simp_all
      ultimately show False by linarith
    qed
    then have "int (mag_val (digits ?c)) * 10 ^ nat (scale ?k) = int (mag_val (digits ?k)) * 10 ^ nat (scale ?c)"
      using ints by (auto simp: signed_val_def split: if_splits)
    then have "int (mag_val (digits ?c) * 10 ^ nat (scale ?k)) = int (mag_val (digits ?k) * 10 ^ nat (scale ?c))"
      by simp
    then have "mag_val (digits ?c) * 10 ^ nat (scale ?k) = mag_val (digits ?k) * 10 ^ nat (scale ?c)"
      by (simp only: of_nat_eq_iff)
    then have "digits ?c = digits ?k \<and> nat (scale ?c) = nat (scale ?k)"
      using False zero c k by (intro canonical_scale_unique) (auto simp: dec_ok_def)
    then show ?thesis using sign c k by (intro decimal.equality) (auto simp: dec_ok_def)
  qed
next
  assume "decimal_canonical d = decimal_canonical e"
  then show "dec_value d = dec_value e"
    using decimal_canonical_correct [OF d] decimal_canonical_correct [OF e] by metis
qed

section \<open>Integers\<close>

lemma u64_digits_correct: "mag_ok (u64_digits m) \<and> mag_val (u64_digits m) = unat m"
proof (induction m rule: u64_digits.induct)
  case (1 m)
  show ?case
  proof (cases "0 < m")
    case True
    have parts: "unat (m mod 10) = unat m mod 10" "unat (m div 10) = unat m div 10"
      by (simp_all add: unat_mod_distrib unat_div_distrib)
    have "0 < unat m" using True by (simp add: word_less_nat_alt)
    then have "unat m div 10 = 0 \<longrightarrow> unat m mod 10 \<noteq> 0" by presburger
    then show ?thesis
      using 1 [OF True] True parts mag_val_eq_0_iff [of "u64_digits (m div 10)"]
      by (auto simp: u64_digits.simps [of m] mag_ok_def)
  next
    case False
    then have "m = 0" using word_neq_0_conv [of m] by blast
    then show ?thesis by (simp add: u64_digits.simps [of 0])
  qed
qed

lemma unat_unsigned_negation:
  fixes w :: u64
  assumes "sint w < 0"
  shows "int (unat (0 - w)) = - sint w"
proof -
  have low: "- (2 ^ 63) \<le> sint w" using sint_greater_eq [of w] by simp
  have "0 - w = word_of_int (- sint w)" by simp
  then have "uint (0 - w) = uint (word_of_int (- sint w) :: u64)" by (rule arg_cong)
  then have "int (unat (0 - w)) = (- sint w) mod 2 ^ 64"
    by (simp only: uint_word_of_int flip: uint_nat) simp
  also have "\<dots> = - sint w" using assms low by (intro mod_pos_pos_trivial) auto
  finally show ?thesis .
qed

section \<open>Printing and parsing\<close>

definition digit_string :: "mag \<Rightarrow> string" where
  "digit_string v = map (\<lambda>g. char_of (48 + g)) (rev v)"

lemma digit_char_parts:
  assumes "g < 10"
  shows "is_decimal_digit (char_of (48 + g :: nat))" "digit_value (char_of (48 + g :: nat)) = g"
  using assms by (simp_all add: is_decimal_digit_def digit_value_def)

lemma digit_string_parts:
  assumes "mag_digits v"
  shows "\<forall>c \<in> set (digit_string v). is_decimal_digit c"
    and "map (\<lambda>c. as_u8 (digit_value c)) (rev (digit_string v)) = v"
proof -
  show "\<forall>c \<in> set (digit_string v). is_decimal_digit c"
    using assms by (auto simp: digit_string_def mag_digits_def digit_char_parts)
  have "map (\<lambda>c. as_u8 (digit_value c)) (rev (digit_string v)) =
        map (\<lambda>g. as_u8 (digit_value (char_of (48 + g)))) v"
    by (simp add: digit_string_def rev_map comp_def)
  also have "\<dots> = v"
    using assms by (intro map_idI) (simp add: mag_digits_def digit_char_parts)
  finally show "map (\<lambda>c. as_u8 (digit_value c)) (rev (digit_string v)) = v" .
qed

lemma decimal_parse_plain:
  assumes "i \<noteq> []" "\<forall>c \<in> set i. is_decimal_digit c" "\<forall>c \<in> set f. is_decimal_digit c"
  shows "decimal_parse ((if neg then ''-'' else '''') @ i @ (if f = [] then [] else ''.'' @ f)) =
         build_decimal neg i f 0"
proof -
  let ?tail = "if f = [] then [] else ''.'' @ f"
  obtain c i' where i: "i = c # i'" using assms(1) by (cases i) auto
  have c: "is_decimal_digit c" using assms(2) i by simp
  then have sign: "c \<noteq> CHR ''+''" "c \<noteq> CHR ''-''" by (auto simp: is_decimal_digit_def)
  have skip: "skip_sign ((if neg then ''-'' else '''') @ i @ ?tail) = (neg, i @ ?tail)"
    using sign by (simp add: skip_sign_def i)
  have point: "\<not> is_decimal_digit CHR ''.''" by (simp add: is_decimal_digit_def)
  have split: "takeWhile is_decimal_digit (i @ ?tail) = i" "dropWhile is_decimal_digit (i @ ?tail) = ?tail"
    using assms(2) point by (simp_all add: takeWhile_append2 dropWhile_append2)
  have fraction: "(if ?tail \<noteq> [] \<and> hd ?tail = CHR ''.''
        then (takeWhile is_decimal_digit (tl ?tail), dropWhile is_decimal_digit (tl ?tail))
        else ([], ?tail)) = (f, [])"
    using assms(3) by (simp add: takeWhile_eq_all_conv)
  have "(if neg then ''-'' else '''') @ i @ ?tail \<noteq> []" using assms(1) by simp
  then show ?thesis
    unfolding decimal_parse_def Let_def skip prod.case split fraction
    using assms(1) by (simp add: parse_exponent_def)
qed

lemma zero_char: "char_of (48 :: nat) = CHR ''0''"
  by code_simp

lemma decimal_to_string_plain:
  assumes "dec_ok d"
  defines "z \<equiv> (if int (length (digits d)) \<le> scale d then nat (scale d) - length (digits d) + 1 else 0)"
  defines "m \<equiv> digit_string (digits d @ replicate z 0)"
  defines "point \<equiv> length m - nat (scale d)"
  shows "decimal_to_string d = (if negative d then ''-'' else '''') @ take point m @
           (if drop point m = [] then [] else ''.'' @ drop point m)"
    and "0 < point" and "length m = max (length (digits d)) (nat (scale d) + 1)"
proof -
  have s: "0 \<le> scale d" "digits d = [] \<Longrightarrow> \<not> negative d" using assms(1) by (auto simp: dec_ok_def)
  have len: "length m = length (digits d) + z" by (simp add: m_def digit_string_def)
  then show lm: "length m = max (length (digits d)) (nat (scale d) + 1)"
    using s(1) by (auto simp: z_def max_def)
  then show "0 < point" by (simp add: point_def)
  have m: "m = replicate z CHR ''0'' @ digit_string (digits d)"
    by (simp add: m_def digit_string_def zero_char)
  have drop: "drop point m = [] \<longleftrightarrow> scale d = 0"
    using \<open>0 < point\<close> s(1) by (auto simp: point_def)
  show "decimal_to_string d = (if negative d then ''-'' else '''') @ take point m @
           (if drop point m = [] then [] else ''.'' @ drop point m)"
  proof (cases "is_zero d")
    case True
    then have "m = replicate (nat (scale d) + 1) CHR ''0''" "point = 1"
      using s(1) by (simp_all add: m z_def point_def len is_zero_def digit_string_def)
    then show ?thesis
      using True s unfolding drop
      by (auto simp: decimal_to_string_def is_zero_def)
  next
    case False
    have padded: "(if int (length (digit_string (digits d))) \<le> scale d
        then replicate (nat (scale d) - length (digit_string (digits d)) + 1) CHR ''0'' @
             digit_string (digits d)
        else digit_string (digits d)) = m"
      by (simp add: m z_def) (simp add: digit_string_def)
    have "scale d = 0 \<Longrightarrow> m = digit_string (digits d) \<and> point = length m"
      using False s(1) by (auto simp: m z_def is_zero_def point_def)
    then show ?thesis
      using False
      unfolding drop
      unfolding decimal_to_string_def Let_def digit_string_def [symmetric] padded point_def
      by simp
  qed
qed

lemma build_decimal_plain:
  assumes "dec_ok d" "length ds \<le> k_max_digits" "nat (scale d) \<le> length ds"
    and "digit_string ds = i @ f" "int (length f) = scale d" "mag_digits ds" "mag_trim ds = digits d"
  shows "build_decimal (negative d) i f 0 = Some d"
proof -
  have "length (i @ f) = length ds" by (simp add: digit_string_def flip: assms(4))
  moreover have "map (\<lambda>c. as_u8 (digit_value c)) (rev (i @ f)) = ds"
    using digit_string_parts(2) [OF assms(6)] assms(4) by simp
  moreover have "decimal_trim \<lparr>digits = ds, scale = scale d, negative = negative d\<rparr> = d"
    using assms(1,7) by (cases d) (auto simp: decimal_trim_def dec_ok_def Let_def)
  ultimately show ?thesis
    using assms(1,2,3,5) by (auto simp: build_decimal_def Let_def dec_ok_def simp del: length_append)
qed

lemma decimal_parse_to_string_correct:
  assumes d: "dec_ok d" and cap: "length (digits d) \<le> k_max_digits" "scale d < int k_max_digits"
  shows "decimal_parse (decimal_to_string d) = Some d"
proof -
  define z where "z = (if int (length (digits d)) \<le> scale d then nat (scale d) - length (digits d) + 1 else 0)"
  define ds where "ds = digits d @ replicate z 0"
  define m where "m = digit_string ds"
  define point where "point = length m - nat (scale d)"
  note str = decimal_to_string_plain [OF d, folded z_def, folded ds_def, folded m_def, folded point_def]
  have digs: "mag_digits ds" using d by (auto simp: ds_def dec_ok_def mag_ok_def)
  have len: "length ds = length m" by (simp add: m_def digit_string_def)
  have trim: "mag_trim ds = digits d" using d by (auto simp: ds_def dec_ok_def)
  have all: "\<forall>c \<in> set m. is_decimal_digit c" unfolding m_def by (rule digit_string_parts(1) [OF digs])
  have sc: "nat (scale d) < length m" "length m \<le> k_max_digits" "0 \<le> scale d"
    using str(3) cap d by (auto simp: dec_ok_def)
  have "take point m \<noteq> []" using str(2) sc(1) by (auto simp: point_def)
  moreover have "\<forall>c \<in> set (take point m). is_decimal_digit c" "\<forall>c \<in> set (drop point m). is_decimal_digit c"
    using all by (auto dest: in_set_takeD in_set_dropD)
  ultimately have "decimal_parse (decimal_to_string d) =
      build_decimal (negative d) (take point m) (drop point m) 0"
    unfolding str(1) by (rule decimal_parse_plain)
  also have "\<dots> = Some d"
    using sc len by (intro build_decimal_plain [OF d _ _ _ _ digs trim]) (simp_all add: point_def flip: m_def)
  finally show ?thesis .
qed

text \<open>At the largest scale the parser accepts, the printed zero before the point is one character
  over the digit cap: what was parsed and printed is rejected on the way back.\<close>

lemma decimal_at_cap_does_not_reparse:
  assumes d: "dec_ok d" and s: "scale d = int k_max_digits"
  shows "decimal_parse (decimal_to_string d) = None"
proof -
  define z where "z = (if int (length (digits d)) \<le> scale d then nat (scale d) - length (digits d) + 1 else 0)"
  define ds where "ds = digits d @ replicate z 0"
  define m where "m = digit_string ds"
  define point where "point = length m - nat (scale d)"
  note str = decimal_to_string_plain [OF d, folded z_def, folded ds_def, folded m_def, folded point_def]
  have digs: "mag_digits ds" using d by (auto simp: ds_def dec_ok_def mag_ok_def)
  have all: "\<forall>c \<in> set m. is_decimal_digit c" unfolding m_def by (rule digit_string_parts(1) [OF digs])
  have long: "k_max_digits < length m" using str(3) s by simp
  then have "take point m \<noteq> []" using str(2) by auto
  moreover have "\<forall>c \<in> set (take point m). is_decimal_digit c" "\<forall>c \<in> set (drop point m). is_decimal_digit c"
    using all by (auto dest: in_set_takeD in_set_dropD)
  ultimately have "decimal_parse (decimal_to_string d) =
      build_decimal (negative d) (take point m) (drop point m) 0"
    unfolding str(1) by (rule decimal_parse_plain)
  also have "\<dots> = None"
    unfolding build_decimal_def Let_def append_take_drop_id using long by simp
  finally show ?thesis .
qed

section \<open>The promises of the class\<close>

definition sample_decimal :: "mag \<Rightarrow> int \<Rightarrow> bool \<Rightarrow> decimal" where
  "sample_decimal ds s neg = \<lparr>digits = ds, scale = s, negative = neg\<rparr>"

lemma sample_decimal_sel [simp]:
  "digits (sample_decimal ds s neg) = ds"
  "scale (sample_decimal ds s neg) = s"
  "negative (sample_decimal ds s neg) = neg"
  by (simp_all add: sample_decimal_def)

lemma sample_decimal_ok:
  "mag_ok ds \<Longrightarrow> 0 \<le> s \<Longrightarrow> (ds = [] \<longrightarrow> \<not> neg) \<Longrightarrow> dec_ok (sample_decimal ds s neg)"
  by (simp add: sample_decimal_def dec_ok_def)

lemmas sample_decimal_simps = sample_decimal_ok mag_ok_def

text \<open>C35: Addition and subtraction are exact and yield decimals in normal form (decimal digits,
  no leading zero, a scale that is not negative, no negative zero): the result stands for the sum or the
  difference of the rational values, at the larger of the two scales, whatever the signs and scales of the
  operands.  It has at most one digit more than the longer operand brought to that scale; unlike products,
  sums are not held to \<^verbatim>\<open>k_max_digits\<close>.\<close>

theorem decimal_add_subtract_exact:
  assumes "dec_ok d" and "dec_ok e"
  shows "dec_ok (decimal_add d e) \<and> dec_value (decimal_add d e) = dec_value d + dec_value e \<and>
         scale (decimal_add d e) = max (scale d) (scale e) \<and>
         dec_ok (decimal_subtract d e) \<and>
         dec_value (decimal_subtract d e) = dec_value d - dec_value e \<and>
         scale (decimal_subtract d e) = max (scale d) (scale e) \<and>
         max (length (digits (decimal_add d e))) (length (digits (decimal_subtract d e))) \<le>
           max (aligned_length d (max (scale d) (scale e))) (aligned_length e (max (scale d) (scale e))) + 1"
  using decimal_add_correct [OF assms] decimal_add_correct [OF assms(1) dec_ok_negate [OF assms(2)]]
    decimal_add_length [OF assms] decimal_add_length [OF assms(1) dec_ok_negate [OF assms(2)]]
  by (simp add: decimal_subtract_def aligned_length_def)

theorem decimal_add_subtract_exact_witness:
  "decimal_add (sample_decimal [1] 1 False) (sample_decimal [2] 1 False) = sample_decimal [3] 1 False \<and>
   dec_value (sample_decimal [3] 1 False) =
     dec_value (sample_decimal [1] 1 False) + dec_value (sample_decimal [2] 1 False)"
proof -
  have "decimal_add (sample_decimal [1] 1 False) (sample_decimal [2] 1 False) = sample_decimal [3] 1 False"
    by code_simp
  then show ?thesis
    using decimal_add_subtract_exact [of "sample_decimal [1] 1 False" "sample_decimal [2] 1 False"]
    by (simp add: sample_decimal_simps)
qed

text \<open>C36: Multiplication never stores past its product.  It is rejected exactly when the digits or
  the scale of the product could pass the digit cap, and is exact otherwise.\<close>

theorem decimal_multiply_exact:
  assumes "dec_ok d" and "dec_ok e"
  shows "if length (digits d) + length (digits e) \<le> k_max_digits \<and>
            scale d + scale e \<le> int k_max_digits
         then \<exists>p. decimal_multiply d e = Some (Some p) \<and> dec_ok p \<and>
                  dec_value p = dec_value d * dec_value e \<and> scale p = scale d + scale e
         else decimal_multiply d e = Some None"
  by (rule decimal_multiply_correct [OF assms])

theorem decimal_multiply_exact_witness:
  "\<exists>p. decimal_multiply (sample_decimal [9, 9] 1 True) (sample_decimal [9] 0 False) = Some (Some p) \<and>
       dec_value p = dec_value (sample_decimal [9, 9] 1 True) * dec_value (sample_decimal [9] 0 False)"
  using decimal_multiply_exact [of "sample_decimal [9, 9] 1 True" "sample_decimal [9] 0 False"]
  by (auto simp: sample_decimal_simps k_max_digits_def)

text \<open>C13: Division yields, at the requested scale, the mathematical rounding of the exact
  quotient in each of the seven modes.  It is rejected exactly for a zero divisor, a negative scale
  and an aligned operand past the digit cap.\<close>

theorem decimal_divide_rounds:
  assumes "dec_ok d" and "dec_ok e"
  shows "case decimal_divide d e s mode of
           None \<Rightarrow> dec_value e = 0 \<or> s < 0 \<or>
             int (length (digits d)) + (s + scale e - scale d) > int k_max_digits \<or>
             int (length (digits e)) - (s + scale e - scale d) > int k_max_digits
         | Some r \<Rightarrow> dec_ok r \<and> scale r = s \<and> dec_value e \<noteq> 0 \<and>
             dec_value r = of_int (rounded mode (dec_value d / dec_value e * 10 ^ nat s)) / 10 ^ nat s"
proof (cases "decimal_divide d e s mode")
  case None
  then show ?thesis
    by (auto simp: decimal_divide_def Let_def is_zero_def dec_value_def signed_val_def split: if_splits)
next
  case (Some r)
  then have "digits e \<noteq> []" by (auto simp: decimal_divide_def is_zero_def)
  then have "dec_value e \<noteq> 0"
    using assms(2) mag_val_eq_0_iff [of "digits e"] by (auto simp: dec_value_def signed_val_def dec_ok_def)
  then show ?thesis using decimal_divide_correct [OF assms Some] Some by simp
qed

theorem decimal_divide_rounds_witness:
  "decimal_divide (sample_decimal [1] 0 True) (sample_decimal [8] 0 False) 2 HalfEven =
     Some (sample_decimal [2, 1] 2 True) \<and>
   dec_value (sample_decimal [2, 1] 2 True) =
     of_int (rounded HalfEven (dec_value (sample_decimal [1] 0 True) /
       dec_value (sample_decimal [8] 0 False) * 10 ^ 2)) / 10 ^ 2"
proof -
  have "decimal_divide (sample_decimal [1] 0 True) (sample_decimal [8] 0 False) 2 HalfEven =
        Some (sample_decimal [2, 1] 2 True)"
  proof -
    have "divide_scaled [0, 0, 1] [8] 2 True HalfEven = sample_decimal [2, 1] 2 True" by code_simp
    then show ?thesis
      by (simp add: decimal_divide_def is_zero_def k_max_digits_def mag_shift_left_def numeral_2_eq_2)
  qed
  then show ?thesis
    using decimal_divide_rounds [of "sample_decimal [1] 0 True" "sample_decimal [8] 0 False" 2 HalfEven]
    by (simp add: sample_decimal_simps)
qed

text \<open>C29: Rounding to a number of places, clamped between 0 and the digit cap, yields the
  mathematical rounding of the value at that scale in each mode, also when every stored digit is
  discarded and when the scale grows.\<close>

theorem decimal_round_rounds:
  assumes "dec_ok d"
  shows "dec_ok (decimal_round d places mode) \<and>
         scale (decimal_round d places mode) = clamped_places places \<and>
         dec_value (decimal_round d places mode) =
           of_int (rounded mode (dec_value d * 10 ^ nat (clamped_places places))) /
             10 ^ nat (clamped_places places)"
  using decimal_round_correct [OF assms, of places mode] .

theorem decimal_round_rounds_witness:
  "decimal_round (sample_decimal [5, 2] 1 True) 0 HalfUp = sample_decimal [3] 0 True \<and>
   dec_value (sample_decimal [3] 0 True) =
     of_int (rounded HalfUp (dec_value (sample_decimal [5, 2] 1 True)))"
proof -
  have "decimal_round (sample_decimal [5, 2] 1 True) 0 HalfUp = sample_decimal [3] 0 True"
  proof -
    have "round_drop (sample_decimal [5, 2] 1 True) 0 HalfUp = sample_decimal [3] 0 True" by code_simp
    then show ?thesis by (simp add: decimal_round_def k_max_digits_def)
  qed
  then show ?thesis
    using decimal_round_rounds [of "sample_decimal [5, 2] 1 True" 0 HalfUp]
    by (simp add: sample_decimal_simps clamped_places_def)
qed

text \<open>C24: Comparison is the order of the rational values.  Two decimals are equal exactly when
  their values are, exactly when their canonical forms are the same record, and then they hash
  alike, for every string hash.\<close>

theorem decimal_compare_is_value_order:
  assumes "dec_ok d" and "dec_ok e"
  shows "decimal_compare d e = (if dec_value d < dec_value e then - 1
                                else if dec_value d = dec_value e then 0 else 1) \<and>
         (decimal_equals d e \<longleftrightarrow> dec_value d = dec_value e) \<and>
         (decimal_equals d e \<longleftrightarrow> decimal_canonical d = decimal_canonical e) \<and>
         (decimal_equals d e \<longrightarrow> decimal_hash h d = decimal_hash h e)"
  using decimal_compare_correct [OF assms] canonical_equal_iff [OF assms]
  by (auto simp: decimal_equals_def decimal_hash_def)

theorem decimal_compare_is_value_order_witness:
  "decimal_equals (sample_decimal [5, 1] 1 False) (sample_decimal [0, 5, 1] 2 False) \<and>
   decimal_hash (\<lambda>s. of_nat (length s)) (sample_decimal [5, 1] 1 False) =
   decimal_hash (\<lambda>s. of_nat (length s)) (sample_decimal [0, 5, 1] 2 False)"
proof -
  have "decimal_equals (sample_decimal [5, 1] 1 False) (sample_decimal [0, 5, 1] 2 False)" by code_simp
  then show ?thesis
    using decimal_compare_is_value_order [of "sample_decimal [5, 1] 1 False" "sample_decimal [0, 5, 1] 2 False"
        "\<lambda>s. of_nat (length s)"]
    by (simp add: sample_decimal_simps)
qed

text \<open>C37: Parsing what a decimal prints yields the same decimal, digits, scale and sign, when its
  digits and the zero before its point fit the digit cap.\<close>

theorem decimal_parse_to_string:
  assumes "dec_ok d" and "length (digits d) \<le> k_max_digits" and "scale d < int k_max_digits"
  shows "decimal_parse (decimal_to_string d) = Some d"
  by (rule decimal_parse_to_string_correct [OF assms])

theorem decimal_parse_to_string_witness:
  "decimal_to_string (sample_decimal [5] 2 True) = ''-0.05'' \<and>
   decimal_parse ''-0.05'' = Some (sample_decimal [5] 2 True)"
proof -
  have "decimal_to_string (sample_decimal [5] 2 True) = ''-0.05''" by code_simp
  then show ?thesis
    using decimal_parse_to_string [of "sample_decimal [5] 2 True"]
    by (simp add: sample_decimal_simps k_max_digits_def)
qed

text \<open>A 64-bit integer converts exactly, the minimal one included.\<close>

lemma uint_sint_nonneg:
  fixes w :: u64
  assumes "0 \<le> sint w"
  shows "uint w = sint w"
proof -
  have "uint w = uint (word_of_int (sint w) :: u64)" by simp
  also have "\<dots> = sint w mod 2 ^ 64" by (simp only: uint_word_of_int) simp
  also have "\<dots> = sint w" using assms sint_less [of w] by (intro mod_pos_pos_trivial) auto
  finally show ?thesis .
qed

theorem decimal_of_int64_exact:
  "dec_ok (decimal_of_int64 w) \<and> dec_value (decimal_of_int64 w) = of_int (sint w) \<and>
   scale (decimal_of_int64 w) = 0"
proof (cases "w = 0")
  case True
  then show ?thesis
    by (simp add: decimal_of_int64_def decimal_zero_def dec_ok_def dec_value_def signed_val_def)
next
  case False
  define m where "m = (if sint w < 0 then 0 - w else w)"
  have "int (unat w) = sint w" if "\<not> sint w < 0"
    using that uint_sint_nonneg [of w] by (simp flip: uint_nat)
  then have m: "int (unat m) = \<bar>sint w\<bar>"
    using unat_unsigned_negation [of w] by (simp add: m_def)
  have "sint w \<noteq> 0" using False by (simp add: signed_eq_0_iff)
  then have "unat m \<noteq> 0" using m by linarith
  then have "u64_digits m \<noteq> []" using u64_digits_correct [of m] by auto
  then show ?thesis
    using False u64_digits_correct [of m] m [unfolded abs_if]
    by (auto simp: decimal_of_int64_def dec_ok_def dec_value_def signed_val_def Let_def simp flip: m_def)
qed

end
