(* ===== verification/Utf8.thy ===== *)
theory Utf8
  imports Luma_Prelude
begin

text \<open>
  UTF-8 in \<^verbatim>\<open>core/common/utf8.hpp\<close> and \<^verbatim>\<open>utf8_iterator.hpp\<close>: the strict decoder, the
  encoder, the codepoint count and the forward iterator with the offset and index searches over it.
  A string is its list of bytes, a codepoint a 32-bit word, an offset a natural number, a count an
  \<^verbatim>\<open>int\<close> that may overflow.
\<close>

unbundle bit_operations_syntax

section \<open>Decoding\<close>

definition is_utf8_continuation :: "byte \<Rightarrow> bool" where
  "is_utf8_continuation b \<longleftrightarrow> b AND 0xC0 = 0x80"

definition k_utf8_replacement_char :: u32 where
  "k_utf8_replacement_char = 0xFFFD"

definition utf8_codepoint_len :: "byte \<Rightarrow> nat" where
  "utf8_codepoint_len b =
     (if b \<ge> 0xC2 \<and> b \<le> 0xDF then 2
      else if b \<ge> 0xE0 \<and> b \<le> 0xEF then 3
      else if b \<ge> 0xF0 \<and> b \<le> 0xF4 then 4
      else 1)"

record utf8_decoded =
  codepoint :: u32
  seq_length :: nat

definition utf8_invalid :: utf8_decoded where
  "utf8_invalid = \<lparr>codepoint = k_utf8_replacement_char, seq_length = 1\<rparr>"

text \<open>The range of the second byte, by the lead byte.\<close>

definition second_byte_range :: "byte \<Rightarrow> byte \<times> byte" where
  "second_byte_range lead =
     (if lead = 0xE0 then (0xA0, 0xBF)
      else if lead = 0xED then (0x80, 0x9F)
      else if lead = 0xF0 then (0x90, 0xBF)
      else if lead = 0xF4 then (0x80, 0x8F)
      else (0x80, 0xBF))"

definition utf8_payload :: "(nat \<Rightarrow> byte) \<Rightarrow> nat \<Rightarrow> u32" where
  "utf8_payload byte_at len =
     (let lead = byte_at 0;
          cp = (if len = 2 then ucast (lead AND 0x1F)
                else if len = 3 then ucast (lead AND 0x0F)
                else ucast (lead AND 0x07))
      in fold (\<lambda>k cp. (push_bit 6 cp) OR ucast (byte_at k AND 0x3F)) [1..<len] cp)"

definition utf8_decode :: "byte list \<Rightarrow> nat \<Rightarrow> utf8_decoded" where
  "utf8_decode s pos =
     (if pos \<ge> length s then \<lparr>codepoint = k_utf8_replacement_char, seq_length = 0\<rparr>
      else let byte_at = (\<lambda>offset. s ! (pos + offset)); lead = byte_at 0
           in if lead < 0x80 then \<lparr>codepoint = ucast lead, seq_length = 1\<rparr>
              else let len = utf8_codepoint_len lead
                   in if len = 1 \<or> pos + len > length s then utf8_invalid
                      else let (second_min, second_max) = second_byte_range lead; second = byte_at 1
                           in if second < second_min \<or> second > second_max then utf8_invalid
                              else if \<exists>k \<in> set [2..<len]. \<not> is_utf8_continuation (byte_at k)
                              then utf8_invalid
                              else \<lparr>codepoint = utf8_payload byte_at len, seq_length = len\<rparr>)"

lemma utf8_decode_length:
  "pos < length s \<Longrightarrow> 1 \<le> seq_length (utf8_decode s pos) \<and> pos + seq_length (utf8_decode s pos) \<le> length s"
  by (auto simp: utf8_decode_def utf8_invalid_def Let_def utf8_codepoint_len_def split: prod.splits)

lemma utf8_decode_at_end: "length s \<le> pos \<Longrightarrow> seq_length (utf8_decode s pos) = 0"
  by (simp add: utf8_decode_def)

text \<open>
  The counting loop ends because a sequence that starts before the end is not empty.  It counts in a
  \<^verbatim>\<open>int\<close>: \<^verbatim>\<open>None\<close> is the overflow of the counter, undefined behaviour.
\<close>

definition k_int_max :: int where "k_int_max = 2147483647"

function utf8_count_from :: "byte list \<Rightarrow> nat \<Rightarrow> int \<Rightarrow> int option" where
  "utf8_count_from s pos count =
     (if pos < length s
      then if count = k_int_max then None
           else utf8_count_from s (pos + seq_length (utf8_decode s pos)) (count + 1)
      else Some count)"
  by pat_completeness auto
termination
  by (relation "measure (\<lambda>(s, pos, count). length s - pos)") (use utf8_decode_length in fastforce)+

declare utf8_count_from.simps [simp del]

definition utf8_codepoint_count :: "byte list \<Rightarrow> int option" where
  "utf8_codepoint_count s = utf8_count_from s 0 0"

definition utf8_advance :: "byte list \<Rightarrow> nat \<Rightarrow> nat" where
  "utf8_advance s pos = seq_length (utf8_decode s pos)"

definition utf8_char_at_byte :: "byte list \<Rightarrow> nat \<Rightarrow> byte list" where
  "utf8_char_at_byte s pos = (if pos \<ge> length s then [] else take (utf8_advance s pos) (drop pos s))"

definition utf8_decode_at :: "byte list \<Rightarrow> nat \<Rightarrow> u32" where
  "utf8_decode_at s pos = codepoint (utf8_decode s pos)"

section \<open>Encoding\<close>

definition decode_surrogate_pair :: "u32 \<Rightarrow> u32 \<Rightarrow> u32" where
  "decode_surrogate_pair high low = 0x10000 + push_bit 10 (high - 0xD800) + (low - 0xDC00)"

definition utf8_encode :: "u32 \<Rightarrow> byte list" where
  "utf8_encode cp =
     (if cp > 0x10FFFF \<or> (cp \<ge> 0xD800 \<and> cp \<le> 0xDFFF) then []
      else if cp < 0x80 then [ucast cp]
      else if cp < 0x800
      then [ucast (0xC0 OR drop_bit 6 cp), ucast (0x80 OR (cp AND 0x3F))]
      else if cp < 0x10000
      then [ucast (0xE0 OR drop_bit 12 cp), ucast (0x80 OR (drop_bit 6 cp AND 0x3F)),
            ucast (0x80 OR (cp AND 0x3F))]
      else [ucast (0xF0 OR drop_bit 18 cp), ucast (0x80 OR (drop_bit 12 cp AND 0x3F)),
            ucast (0x80 OR (drop_bit 6 cp AND 0x3F)), ucast (0x80 OR (cp AND 0x3F))])"

definition is_valid_utf8_run :: "byte list \<Rightarrow> nat \<Rightarrow> nat \<Rightarrow> bool" where
  "is_valid_utf8_run line pos seq_len \<longleftrightarrow>
     (\<forall>k \<in> set [1..<seq_len]. is_utf8_continuation (line ! (pos + k)))"

section \<open>The iterator\<close>

record utf8_iterator =
  iter_text :: "byte list"
  byte_offset :: nat
  codepoint_index :: nat

definition utf8_iterator_start :: "byte list \<Rightarrow> utf8_iterator" where
  "utf8_iterator_start text = \<lparr>iter_text = text, byte_offset = 0, codepoint_index = 0\<rparr>"

definition iter_step :: "utf8_iterator \<Rightarrow> nat \<Rightarrow> utf8_iterator" where
  "iter_step it len =
     (if len = 0 then it
      else it\<lparr>byte_offset := byte_offset it + len, codepoint_index := codepoint_index it + 1\<rparr>)"

definition iter_next :: "utf8_iterator \<Rightarrow> u32 \<times> utf8_iterator" where
  "iter_next it =
     (let decoded = utf8_decode (iter_text it) (byte_offset it)
      in (codepoint decoded, iter_step it (seq_length decoded)))"

definition iter_advance :: "utf8_iterator \<Rightarrow> utf8_iterator" where
  "iter_advance it = iter_step it (seq_length (utf8_decode (iter_text it) (byte_offset it)))"

definition iter_at_end :: "utf8_iterator \<Rightarrow> bool" where
  "iter_at_end it \<longleftrightarrow> byte_offset it \<ge> length (iter_text it)"

lemma iter_advance_sel [simp]:
  "iter_text (iter_advance it) = iter_text it"
  "byte_offset (iter_advance it) = byte_offset it + seq_length (utf8_decode (iter_text it) (byte_offset it))"
  by (simp_all add: iter_advance_def iter_step_def)

text \<open>The scan that the searches share: advance while a condition on the position holds.\<close>

function iter_while :: "(utf8_iterator \<Rightarrow> bool) \<Rightarrow> utf8_iterator \<Rightarrow> utf8_iterator" where
  "iter_while p it =
     (if \<not> iter_at_end it \<and> p it then iter_while p (iter_advance it) else it)"
  by pat_completeness auto
termination
  by (relation "measure (\<lambda>(p, it). length (iter_text it) - byte_offset it)")
     (auto simp: iter_at_end_def not_le dest: utf8_decode_length)

declare iter_while.simps [simp del]

definition utf8_count :: "byte list \<Rightarrow> int option" where
  "utf8_count s = utf8_codepoint_count s"

definition utf8_byte_offset :: "byte list \<Rightarrow> int \<Rightarrow> nat" where
  "utf8_byte_offset s n =
     byte_offset (iter_while (\<lambda>it. int (codepoint_index it) < n) (utf8_iterator_start s))"

definition utf8_codepoint_index :: "byte list \<Rightarrow> nat \<Rightarrow> int" where
  "utf8_codepoint_index s byte_pos =
     int (codepoint_index (iter_while (\<lambda>it. byte_offset it < byte_pos) (utf8_iterator_start s)))"

definition utf8_seek_to_codepoint :: "byte list \<Rightarrow> nat \<Rightarrow> nat" where
  "utf8_seek_to_codepoint text codepoint_idx =
     byte_offset (iter_while (\<lambda>it. codepoint_index it < codepoint_idx) (utf8_iterator_start text))"

end
