(* ===== verification/Bit_Numbers.thy ===== *)
theory Bit_Numbers
  imports Luma_Prelude
begin

text \<open>
  Bit operations as arithmetic: a mask is a remainder, a shift a power of two, and joining a shifted
  value with one that fits below it an addition.  The codecs pack and unpack bit groups with these
  operations; their proofs are done on the numbers.
\<close>

unbundle bit_operations_syntax

lemma nat_and_mask: "n AND (2 ^ k - 1) = n mod 2 ^ k" for n :: nat
  by (simp add: take_bit_eq_mask mask_eq_exp_minus_1 flip: take_bit_eq_mod)

lemma nat_and_masks [simp]:
  fixes n :: nat
  shows "n AND 3 = n mod 4" "n AND 7 = n mod 8" "n AND 15 = n mod 16" "n AND 31 = n mod 32"
    "n AND 63 = n mod 64"
  using nat_and_mask [of n 2] nat_and_mask [of n 3] nat_and_mask [of n 4] nat_and_mask [of n 5]
    nat_and_mask [of n 6]
  by simp_all

lemma nat_not_bit:
  fixes n :: nat
  assumes "n < 2 ^ k" "k \<le> i"
  shows "\<not> bit n i"
proof -
  have "n < 2 ^ i" by (rule less_le_trans [OF assms(1) power_increasing [OF assms(2)]]) simp
  then show ?thesis by (simp add: bit_iff_odd)
qed

lemma nat_or_shifted:
  fixes x y :: nat
  assumes "y < 2 ^ k"
  shows "(x * 2 ^ k) OR y = x * 2 ^ k + y"
proof -
  have "(x * 2 ^ k) AND y = 0"
  proof (rule bit_eqI)
    fix i
    have "\<not> bit y i" if "k \<le> i"
      by (rule nat_not_bit [OF assms that])
    then show "bit ((x * 2 ^ k) AND y) i = bit 0 i"
      by (auto simp: bit_simps simp flip: push_bit_eq_mult)
  qed
  then show ?thesis by (simp add: disjunctive_add_eq_or)
qed

lemma nat_high_bits: "n < 256 \<Longrightarrow> n AND 192 = n div 64 * 64" for n :: nat
proof -
  assume n: "n < 256"
  have "n AND push_bit 6 (mask 2) = push_bit 6 (drop_bit 6 n)"
  proof (rule bit_eqI)
    fix i
    have "8 \<le> i \<Longrightarrow> \<not> bit n i" using nat_not_bit [of n 8 i] n by simp
    then show "bit (n AND push_bit 6 (mask 2)) i = bit (push_bit 6 (drop_bit 6 n)) i"
      by (cases "6 \<le> i"; cases "i < 8"; auto simp: bit_and_iff bit_push_bit_iff bit_mask_iff bit_drop_bit_eq)
  qed
  then show ?thesis by (simp add: push_bit_eq_mult drop_bit_eq_div mask_eq_exp_minus_1)
qed

lemma unat_ucast_byte: "unat (ucast (w :: 'a::len word) :: byte) = unat w mod 256"
  by (simp add: unsigned_ucast_eq take_bit_eq_mod)

lemma unat_ucast_u32: "unat (ucast (b :: byte) :: u32) = unat b"
proof -
  have "unat b < 256" using unsigned_less [of b] by simp
  then show ?thesis by (simp add: unsigned_ucast_eq take_bit_eq_mod)
qed

lemma unat_shift: "unat (drop_bit k w) = unat w div 2 ^ k"
  by (subst unat_drop_bit_eq) (rule drop_bit_eq_div)

lemmas unat_bits = unsigned_and_eq unsigned_or_eq unat_shift

lemma unat_push_bit_small:
  assumes "unat (w :: 'a::len word) * 2 ^ k < 2 ^ LENGTH('a)"
  shows "unat (push_bit k w) = unat w * 2 ^ k"
  using assms by (simp add: unsigned_push_bit_eq take_bit_eq_mod push_bit_eq_mult [of k "unat w"])

end
