(* ===== verification/Utf8_Props.thy ===== *)
theory Utf8_Props
  imports Utf8 Bit_Numbers
begin

text \<open>
  The UTF-8 decoder is exact: where the bytes at a position start with the encoding of a codepoint
  it yields that codepoint and the length of its encoding, and anywhere else the replacement
  character and length 1.  So scanning a concatenation of encodings finds the codepoints back, and
  the byte offset and codepoint index searches are inverse.
\<close>

section \<open>Encoding and decoding on numbers\<close>

fun utf8_numbers :: "nat \<Rightarrow> nat list" where
  "utf8_numbers c =
     (if c < 128 then [c]
      else if c < 2048 then [192 + c div 64, 128 + c mod 64]
      else if c < 65536 then [224 + c div 4096, 128 + c div 64 mod 64, 128 + c mod 64]
      else [240 + c div 262144, 128 + c div 4096 mod 64, 128 + c div 64 mod 64, 128 + c mod 64])"

declare utf8_numbers.simps [simp del]

definition scalar_value :: "u32 \<Rightarrow> bool" where
  "scalar_value cp \<longleftrightarrow> cp \<le> 0x10FFFF \<and> \<not> (cp \<ge> 0xD800 \<and> cp \<le> 0xDFFF)"

lemma scalar_value_nat:
  "scalar_value cp \<longleftrightarrow> unat cp \<le> 1114111 \<and> \<not> (55296 \<le> unat cp \<and> unat cp \<le> 57343)"
  by (simp add: scalar_value_def word_le_nat_alt)

lemma or_tags:
  fixes n :: nat
  shows "n < 64 \<Longrightarrow> 128 OR n = 128 + n" "n < 32 \<Longrightarrow> 192 OR n = 192 + n"
    "n < 16 \<Longrightarrow> 224 OR n = 224 + n" "n < 8 \<Longrightarrow> 240 OR n = 240 + n"
  using nat_or_shifted [of n 6 2] nat_or_shifted [of n 5 6] nat_or_shifted [of n 4 14]
    nat_or_shifted [of n 3 30]
  by simp_all

lemma utf8_encode_numbers:
  assumes "scalar_value cp"
  shows "map unat (utf8_encode cp) = utf8_numbers (unat cp)"
proof -
  define c where "c = unat cp"
  have c: "c \<le> 1114111" using assms by (simp add: scalar_value_nat c_def)
  have less: "cp < 128 \<longleftrightarrow> c < 128" "cp < 2048 \<longleftrightarrow> c < 2048" "cp < 65536 \<longleftrightarrow> c < 65536"
    by (simp_all add: word_less_nat_alt c_def)
  have bounds: "c < 2048 \<Longrightarrow> c div 64 < 32" "c < 65536 \<Longrightarrow> c div 4096 < 16" "c div 262144 < 8"
    using c by (simp_all add: less_mult_imp_div_less)
  have "\<not> (1114111 < cp \<or> (55296 \<le> cp \<and> cp \<le> 57343))"
    using assms by (simp add: scalar_value_def not_less)
  then have enc: "utf8_encode cp =
     (if c < 128 then [ucast cp]
      else if c < 2048 then [ucast (0xC0 OR drop_bit 6 cp), ucast (0x80 OR (cp AND 0x3F))]
      else if c < 65536
      then [ucast (0xE0 OR drop_bit 12 cp), ucast (0x80 OR (drop_bit 6 cp AND 0x3F)),
            ucast (0x80 OR (cp AND 0x3F))]
      else [ucast (0xF0 OR drop_bit 18 cp), ucast (0x80 OR (drop_bit 12 cp AND 0x3F)),
            ucast (0x80 OR (drop_bit 6 cp AND 0x3F)), ucast (0x80 OR (cp AND 0x3F))])"
    unfolding utf8_encode_def less by (simp only: if_False)
  have tail: "unat (ucast (0x80 OR (w AND 0x3F) :: u32) :: byte) = 128 + unat w mod 64" for w :: u32
    by (simp add: unat_ucast_byte unat_bits or_tags mod_mod_cancel)
  have lead: "c < 2048 \<Longrightarrow> unat (ucast (0xC0 OR drop_bit 6 cp) :: byte) = 192 + c div 64"
    "c < 65536 \<Longrightarrow> unat (ucast (0xE0 OR drop_bit 12 cp) :: byte) = 224 + c div 4096"
    "unat (ucast (0xF0 OR drop_bit 18 cp) :: byte) = 240 + c div 262144"
    using bounds by (simp_all add: unat_ucast_byte unat_bits or_tags flip: c_def)
  have "c < 128 \<Longrightarrow> unat (ucast cp :: byte) = c"
    by (simp add: unat_ucast_byte flip: c_def)
  then show ?thesis
    unfolding enc c_def [symmetric] utf8_numbers.simps [of c]
    using lead by (auto simp: tail unat_shift simp flip: c_def)
qed

lemma unat_second_range:
  "second_byte_range lead = (lo, hi) \<Longrightarrow>
   (unat lo, unat hi) =
     (if unat lead = 224 then (160, 191) else if unat lead = 237 then (128, 159)
      else if unat lead = 240 then (144, 191) else if unat lead = 244 then (128, 143)
      else (128, 191))"
  by (auto simp: second_byte_range_def word_unat_eq_iff split: if_splits)

lemma continuation_number: "is_utf8_continuation b \<longleftrightarrow> 128 \<le> unat b \<and> unat b < 192"
proof -
  have b: "unat b < 256" using unsigned_less [of b] by simp
  have "is_utf8_continuation b \<longleftrightarrow> unat (b AND 0xC0) = unat (0x80 :: byte)"
    unfolding is_utf8_continuation_def by (rule word_unat_eq_iff)
  also have "\<dots> \<longleftrightarrow> unat b div 64 * 64 = 128"
    unfolding unsigned_and_eq using nat_high_bits [OF b] by simp
  also have "\<dots> \<longleftrightarrow> 128 \<le> unat b \<and> unat b < 192"
  proof -
    have "unat b = unat b div 64 * 64 + unat b mod 64" "unat b mod 64 < 64" by simp_all
    moreover have "unat b div 64 * 64 = 128 \<longleftrightarrow> 2 \<le> unat b div 64 \<and> unat b div 64 \<le> 2" by auto
    ultimately show ?thesis by linarith
  qed
  finally show ?thesis .
qed

lemma codepoint_len_number:
  "utf8_codepoint_len b =
     (if 194 \<le> unat b \<and> unat b \<le> 223 then 2 else if 224 \<le> unat b \<and> unat b \<le> 239 then 3
      else if 240 \<le> unat b \<and> unat b \<le> 244 then 4 else 1)"
  by (simp add: utf8_codepoint_len_def word_le_nat_alt)

section \<open>The decoder by lengths\<close>

lemma payload_step:
  fixes cp :: u32 and b :: byte
  assumes "unat cp < 2 ^ 26"
  shows "unat ((push_bit 6 cp) OR ucast (b AND 0x3F) :: u32) = unat cp * 64 + unat b mod 64"
proof -
  have "unat b mod 64 < 2 ^ 6" by simp
  then have "unat cp * 2 ^ 6 OR (unat b mod 64) = unat cp * 2 ^ 6 + unat b mod 64"
    by (rule nat_or_shifted)
  moreover have "unat (push_bit 6 cp) = unat cp * 2 ^ 6"
    using assms by (intro unat_push_bit_small) simp
  ultimately show ?thesis by (simp only: unsigned_or_eq unat_ucast_u32 unsigned_and_eq) simp
qed

lemma payload_numbers:
  "unat (utf8_payload f 2) = unat (f 0) mod 32 * 64 + unat (f 1) mod 64"
  "unat (utf8_payload f 3) = (unat (f 0) mod 16 * 64 + unat (f 1) mod 64) * 64 + unat (f 2) mod 64"
  "unat (utf8_payload f 4) =
     ((unat (f 0) mod 8 * 64 + unat (f 1) mod 64) * 64 + unat (f 2) mod 64) * 64 + unat (f 3) mod 64"
proof -
  have lead: "unat (ucast (f 0 AND m) :: u32) = unat (f 0) AND unat m" for m
    by (simp add: unat_ucast_u32 unsigned_and_eq)
  have two: "[1..<2] = [1]" "[1..<3] = [1, 2]" "[1..<4] = [1, 2, 3::nat]"
    by (simp_all add: upt_rec numeral_2_eq_2 numeral_3_eq_3)
  have small: "unat (f 0) mod 32 < 32" "unat (f 0) mod 16 < 16" "unat (f 0) mod 8 < 8"
    "unat (f 1) mod 64 < 64" "unat (f 2) mod 64 < 64" by simp_all
  show "unat (utf8_payload f 2) = unat (f 0) mod 32 * 64 + unat (f 1) mod 64"
    by (simp add: utf8_payload_def two payload_step lead del: One_nat_def push_bit_or push_bit_push_bit)
  have s3: "unat ((push_bit 6 (ucast (f 0 AND 0x0F))) OR ucast (f 1 AND 0x3F) :: u32) =
            unat (f 0) mod 16 * 64 + unat (f 1) mod 64"
    by (subst payload_step) (simp_all add: lead)
  show "unat (utf8_payload f 3) = (unat (f 0) mod 16 * 64 + unat (f 1) mod 64) * 64 + unat (f 2) mod 64"
    using small by (simp add: utf8_payload_def two payload_step s3 del: One_nat_def push_bit_or push_bit_push_bit)
  have s4: "unat ((push_bit 6 (ucast (f 0 AND 0x07))) OR ucast (f 1 AND 0x3F) :: u32) =
            unat (f 0) mod 8 * 64 + unat (f 1) mod 64"
    by (subst payload_step) (simp_all add: lead)
  have s4': "unat ((push_bit 6 ((push_bit 6 (ucast (f 0 AND 0x07))) OR ucast (f 1 AND 0x3F))) OR
            ucast (f 2 AND 0x3F) :: u32) =
            (unat (f 0) mod 8 * 64 + unat (f 1) mod 64) * 64 + unat (f 2) mod 64"
    using small by (subst payload_step) (simp_all add: s4 del: One_nat_def push_bit_or push_bit_push_bit)
  show "unat (utf8_payload f 4) =
     ((unat (f 0) mod 8 * 64 + unat (f 1) mod 64) * 64 + unat (f 2) mod 64) * 64 + unat (f 3) mod 64"
    using small by (simp add: utf8_payload_def two payload_step s4' del: One_nat_def push_bit_or push_bit_push_bit)
qed

text \<open>What the second byte may be, and the continuation bytes after it.\<close>

definition second_ok :: "nat \<Rightarrow> nat \<Rightarrow> bool" where
  "second_ok b0 b1 \<longleftrightarrow> 128 \<le> b1 \<and> b1 < 192 \<and> (b0 = 224 \<longrightarrow> 160 \<le> b1) \<and> (b0 = 237 \<longrightarrow> b1 < 160) \<and>
     (b0 = 240 \<longrightarrow> 144 \<le> b1) \<and> (b0 = 244 \<longrightarrow> b1 < 144)"

lemma second_ok_range:
  "second_byte_range lead = (lo, hi) \<Longrightarrow> \<not> (b < lo \<or> b > hi) \<longleftrightarrow> second_ok (unat lead) (unat b)"
  by (drule unat_second_range) (auto simp: second_ok_def word_less_nat_alt split: if_splits)

definition tail_ok :: "byte list \<Rightarrow> nat \<Rightarrow> nat \<Rightarrow> bool" where
  "tail_ok s pos len \<longleftrightarrow> pos + len \<le> length s \<and> second_ok (unat (s ! pos)) (unat (s ! (pos + 1))) \<and>
     (\<forall>k \<in> {2..<len}. 128 \<le> unat (s ! (pos + k)) \<and> unat (s ! (pos + k)) < 192)"

lemma utf8_decode_by_length:
  assumes "pos < length s"
  defines "b \<equiv> unat (s ! pos)"
  defines "len \<equiv> utf8_codepoint_len (s ! pos)"
  shows "utf8_decode s pos =
     (if b < 128 then \<lparr>codepoint = ucast (s ! pos), seq_length = 1\<rparr>
      else if len \<noteq> 1 \<and> tail_ok s pos len
      then \<lparr>codepoint = utf8_payload (\<lambda>k. s ! (pos + k)) len, seq_length = len\<rparr>
      else utf8_invalid)"
proof -
  obtain lo hi where range: "second_byte_range (s ! pos) = (lo, hi)" by fastforce
  have lead: "s ! pos < 0x80 \<longleftrightarrow> b < 128" by (simp add: b_def word_less_nat_alt)
  have len: "len = 1 \<or> 2 \<le> len" by (simp add: len_def utf8_codepoint_len_def)
  have tail: "tail_ok s pos len \<longleftrightarrow> \<not> pos + len > length s \<and>
      \<not> (s ! (pos + 1) < lo \<or> s ! (pos + 1) > hi) \<and>
      \<not> (\<exists>k \<in> set [2..<len]. \<not> is_utf8_continuation (s ! (pos + k)))"
    unfolding tail_ok_def second_ok_range [OF range] continuation_number by auto
  show ?thesis
    unfolding utf8_decode_def Let_def add_0_right range prod.case lead len_def [symmetric] tail
    using assms(1) by auto
qed

section \<open>Exactness\<close>

lemma strip_tags:
  fixes x :: nat
  shows "x < 32 \<Longrightarrow> (192 + x) mod 32 = x" "x < 16 \<Longrightarrow> (224 + x) mod 16 = x"
    "x < 8 \<Longrightarrow> (240 + x) mod 8 = x" "x < 64 \<Longrightarrow> (128 + x) mod 64 = x"
  using mod_mult_self3 [of 6 32 x] mod_mult_self3 [of 14 16 x] mod_mult_self3 [of 30 8 x]
    mod_mult_self3 [of 2 64 x]
  by simp_all

lemma continuation_sets: "{2..<3} = {2 :: nat}" "{2..<4} = {2, 3 :: nat}"
  by auto

lemma decode_resultI:
  assumes "pos < length s" "128 \<le> unat (s ! pos)" "utf8_codepoint_len (s ! pos) = len" "2 \<le> len"
    "tail_ok s pos len" "unat (utf8_payload (\<lambda>k. s ! (pos + k)) len) = unat cp"
  shows "utf8_decode s pos = \<lparr>codepoint = cp, seq_length = len\<rparr>"
  using utf8_decode_by_length [OF assms(1)] assms(2-6) by (simp add: word_unat_eq_iff)

lemma utf8_decode_encoded:
  assumes cp: "scalar_value cp" and bytes: "take (length (utf8_encode cp)) (drop pos s) = utf8_encode cp"
  shows "utf8_decode s pos = \<lparr>codepoint = cp, seq_length = length (utf8_encode cp)\<rparr>"
proof -
  define c where "c = unat cp"
  note nums = utf8_encode_numbers [OF cp, folded c_def]
  have len: "length (utf8_encode cp) = length (utf8_numbers c)" by (metis length_map nums)
  have c: "c \<le> 1114111" "\<not> (55296 \<le> c \<and> c \<le> 57343)" using cp by (simp_all add: scalar_value_nat c_def)
  have "0 < length (utf8_numbers c)" by (simp add: utf8_numbers.simps [of c])
  moreover have "length (utf8_numbers c) \<le> length s - pos"
    using arg_cong [OF bytes, of length] unfolding len by simp
  ultimately have pos: "pos < length s" "pos + length (utf8_numbers c) \<le> length s" by linarith+
  have nth: "unat (s ! (pos + k)) = utf8_numbers c ! k" if "k < length (utf8_numbers c)" for k
  proof -
    have "s ! (pos + k) = take (length (utf8_encode cp)) (drop pos s) ! k"
      using that pos by (simp add: len)
    then have "s ! (pos + k) = utf8_encode cp ! k" unfolding bytes .
    moreover have "map unat (utf8_encode cp) ! k = unat (utf8_encode cp ! k)"
      using that by (intro nth_map) (simp only: len)
    ultimately show ?thesis by (simp only: nums)
  qed
  consider "c < 128" | "128 \<le> c" "c < 2048" | "2048 \<le> c" "c < 65536" | "65536 \<le> c" by linarith
  then show ?thesis
  proof cases
    case 1
    then have n: "utf8_numbers c = [c]" by (simp add: utf8_numbers.simps [of c])
    have "unat (s ! pos) = c" using nth [of 0] by (simp add: n)
    moreover from this have "ucast (s ! pos) = cp" by (simp add: word_unat_eq_iff unat_ucast_u32 c_def)
    ultimately show ?thesis using utf8_decode_by_length [OF pos(1)] 1 by (simp add: len n)
  next
    case 2
    define x where "x = c div 64"
    define y where "y = c mod 64"
    have xy: "c = x * 64 + y" "y < 64" by (simp_all add: x_def y_def)
    have n: "utf8_numbers c = [192 + x, 128 + y]"
      using 2 by (simp add: utf8_numbers.simps [of c] x_def y_def)
    have b: "unat (s ! pos) = 192 + x" "unat (s ! (pos + 1)) = 128 + y"
      using nth [of 0] nth [of 1] by (simp_all add: n)
    have x: "2 \<le> x" "x < 32" using 2 xy by linarith+
    have fits: "pos + 2 \<le> length s" using pos(2) by (simp add: n)
    then have "tail_ok s pos 2" using x xy(2) b by (simp add: tail_ok_def second_ok_def)
    moreover have "utf8_codepoint_len (s ! pos) = 2"
      using x b(1) by (simp add: codepoint_len_number)
    moreover have "unat (utf8_payload (\<lambda>k. s ! (pos + k)) 2) = unat cp"
      unfolding payload_numbers add_0_right b c_def [symmetric]
      using x xy by (simp add: strip_tags)
    ultimately have "utf8_decode s pos = \<lparr>codepoint = cp, seq_length = 2\<rparr>"
      using b(1) by (intro decode_resultI [OF pos(1)]) simp_all
    then show ?thesis by (simp add: len n)
  next
    case 3
    define x where "x = c div 4096"
    define y where "y = c div 64 mod 64"
    define z where "z = c mod 64"
    have "c div 4096 = c div 64 div 64" by (simp add: div_mult2_eq [of c 64 64, simplified])
    then have "c div 64 = x * 64 + y" by (simp add: x_def y_def)
    moreover have "c = c div 64 * 64 + z" by (simp add: z_def)
    ultimately have xyz: "c = x * 4096 + y * 64 + z" by linarith
    have small: "y < 64" "z < 64" by (simp_all add: y_def z_def)
    have n: "utf8_numbers c = [224 + x, 128 + y, 128 + z]"
      using 3 by (simp add: utf8_numbers.simps [of c] x_def y_def z_def)
    have b: "unat (s ! pos) = 224 + x" "unat (s ! (pos + 1)) = 128 + y" "unat (s ! (pos + 2)) = 128 + z"
      using nth [of 0] nth [of 1] nth [of 2] by (simp_all add: n)
    have x: "x < 16" using 3 xyz small by linarith
    have second: "x = 0 \<Longrightarrow> 32 \<le> y" "x = 13 \<Longrightarrow> y < 32" using 3 xyz small c by linarith+
    have fits: "pos + 3 \<le> length s" using pos(2) by (simp add: n)
    then have "tail_ok s pos 3"
      using x small b second by (simp add: tail_ok_def second_ok_def continuation_sets)
    moreover have "utf8_codepoint_len (s ! pos) = 3"
      using x b(1) by (simp add: codepoint_len_number)
    moreover have "unat (utf8_payload (\<lambda>k. s ! (pos + k)) 3) = unat cp"
      unfolding payload_numbers add_0_right b c_def [symmetric]
      using x small xyz by (simp add: strip_tags)
    ultimately have "utf8_decode s pos = \<lparr>codepoint = cp, seq_length = 3\<rparr>"
      using b(1) by (intro decode_resultI [OF pos(1)]) simp_all
    then show ?thesis by (simp add: len n)
  next
    case 4
    define w where "w = c div 262144"
    define x where "x = c div 4096 mod 64"
    define y where "y = c div 64 mod 64"
    define z where "z = c mod 64"
    have "c div 4096 = c div 64 div 64" "c div 262144 = c div 4096 div 64"
      by (simp_all add: div_mult2_eq [of c 64 64, simplified] div_mult2_eq [of c 4096 64, simplified])
    then have "c div 64 = c div 4096 * 64 + y" "c div 4096 = w * 64 + x"
      by (simp_all add: w_def x_def y_def)
    moreover have "c = c div 64 * 64 + z" by (simp add: z_def)
    ultimately have xyz: "c = w * 262144 + x * 4096 + y * 64 + z" by linarith
    have small: "x < 64" "y < 64" "z < 64" by (simp_all add: x_def y_def z_def)
    have n: "utf8_numbers c = [240 + w, 128 + x, 128 + y, 128 + z]"
      using 4 by (simp add: utf8_numbers.simps [of c] w_def x_def y_def z_def)
    have b: "unat (s ! pos) = 240 + w" "unat (s ! (pos + 1)) = 128 + x" "unat (s ! (pos + 2)) = 128 + y"
      "unat (s ! (pos + 3)) = 128 + z"
      using nth [of 0] nth [of 1] nth [of 2] nth [of 3] by (simp_all add: n)
    have w: "w \<le> 4" using c xyz small by linarith
    have second: "w = 0 \<Longrightarrow> 16 \<le> x" "w = 4 \<Longrightarrow> x < 16" using 4 xyz small c by linarith+
    have fits: "pos + 4 \<le> length s" using pos(2) by (simp add: n)
    then have "tail_ok s pos 4"
      using w small b second by (simp add: tail_ok_def second_ok_def continuation_sets)
    moreover have "utf8_codepoint_len (s ! pos) = 4"
      using w b(1) by (simp add: codepoint_len_number)
    moreover have "unat (utf8_payload (\<lambda>k. s ! (pos + k)) 4) = unat cp"
      unfolding payload_numbers add_0_right b c_def [symmetric]
      using w small xyz by (simp add: strip_tags)
    ultimately have "utf8_decode s pos = \<lparr>codepoint = cp, seq_length = 4\<rparr>"
      using b(1) by (intro decode_resultI [OF pos(1)]) simp_all
    then show ?thesis by (simp add: len n)
  qed
qed

text \<open>Conversely, whatever is not decoded as a malformed byte is the encoding of a scalar value.\<close>

lemma scalar_of_numbers:
  assumes "unat cp = c" "c \<le> 1114111" "\<not> (55296 \<le> c \<and> c \<le> 57343)"
    and "map unat bs = utf8_numbers c"
  shows "scalar_value cp \<and> bs = utf8_encode cp"
proof -
  have cp: "scalar_value cp" using assms by (simp add: scalar_value_nat)
  have "map unat bs = map unat (utf8_encode cp)" using assms utf8_encode_numbers [OF cp] by simp
  moreover have "inj (unat :: byte \<Rightarrow> nat)" by (intro injI) (simp add: word_unat_eq_iff)
  ultimately show ?thesis using cp by (simp add: inj_map_eq_map)
qed

lemma pack_64:
  fixes a z :: nat
  shows "z < 64 \<Longrightarrow> (a * 64 + z) div 64 = a" "z < 64 \<Longrightarrow> (a * 64 + z) mod 64 = z"
  by simp_all

lemma take_drop_Cons: "pos < length s \<Longrightarrow> take (Suc n) (drop pos s) = s ! pos # take n (drop (Suc pos) s)"
  by (simp add: Cons_nth_drop_Suc [symmetric])

lemma utf8_decode_sound:
  assumes pos: "pos < length s" and r: "utf8_decode s pos = \<lparr>codepoint = cp, seq_length = n\<rparr>"
    and valid: "utf8_decode s pos \<noteq> utf8_invalid"
  shows "scalar_value cp \<and> take n (drop pos s) = utf8_encode cp"
proof -
  define b0 where "b0 = unat (s ! pos)"
  have b0: "b0 < 256" using unsigned_less [of "s ! pos"] by (simp add: b0_def)
  define len where "len = utf8_codepoint_len (s ! pos)"
  note dec = utf8_decode_by_length [OF pos, folded b0_def len_def]
  show ?thesis
  proof (cases "b0 < 128")
    case True
    then have "cp = ucast (s ! pos)" "n = 1" using dec r by simp_all
    moreover from this have "unat cp = b0" by (simp add: unat_ucast_u32 b0_def)
    moreover have "map unat (take 1 (drop pos s)) = utf8_numbers b0"
      using True pos by (simp add: utf8_numbers.simps [of b0] take_drop_Cons flip: b0_def)
    ultimately show ?thesis using True scalar_of_numbers [of cp b0] by auto
  next
    case False
    then have ok: "len \<noteq> 1" "tail_ok s pos len" "cp = utf8_payload (\<lambda>k. s ! (pos + k)) len" "n = len"
      using dec r valid by (auto split: if_splits)
    have lead: "len = (if 194 \<le> b0 \<and> b0 \<le> 223 then 2 else if 224 \<le> b0 \<and> b0 \<le> 239 then 3
        else if 240 \<le> b0 \<and> b0 \<le> 244 then 4 else 1)"
      by (simp add: len_def codepoint_len_number b0_def)
    have fits: "pos + len \<le> length s" using ok(2) by (simp add: tail_ok_def)
    from ok(1) lead consider "len = 2" "194 \<le> b0" "b0 \<le> 223" | "len = 3" "224 \<le> b0" "b0 \<le> 239"
      | "len = 4" "240 \<le> b0" "b0 \<le> 244" by (auto split: if_splits)
    then show ?thesis
    proof cases
      case 1
      define x where "x = b0 - 192"
      define y where "y = unat (s ! (pos + 1)) - 128"
      have b: "unat (s ! pos) = 192 + x" "unat (s ! (pos + 1)) = 128 + y" "y < 64" "2 \<le> x" "x < 32"
        using 1 ok(2) by (auto simp: x_def y_def b0_def tail_ok_def second_ok_def)
      have v: "unat cp = x * 64 + y"
        unfolding ok(3) 1(1) payload_numbers add_0_right b(1,2) using b(3-) by (simp add: strip_tags)
      have two: "(2::nat) = Suc (Suc 0)" by simp
      have "take 2 (drop pos s) = [s ! pos, s ! (pos + 1)]"
        using fits unfolding 1(1) two by (simp add: take_drop_Cons)
      then have "map unat (take 2 (drop pos s)) = utf8_numbers (x * 64 + y)"
        using b by (simp add: utf8_numbers.simps)
      then show ?thesis
        unfolding ok(4) 1(1) using b(3-) by (intro scalar_of_numbers [OF v]) simp_all
    next
      case 2
      define x where "x = b0 - 224"
      define y where "y = unat (s ! (pos + 1)) - 128"
      define z where "z = unat (s ! (pos + 2)) - 128"
      have b: "unat (s ! pos) = 224 + x" "unat (s ! (pos + 1)) = 128 + y" "unat (s ! (pos + 2)) = 128 + z"
        "y < 64" "z < 64" "x < 16" "x = 0 \<longrightarrow> 32 \<le> y" "x = 13 \<longrightarrow> y < 32"
        using 2 ok(2)
        by (auto simp: x_def y_def z_def b0_def tail_ok_def second_ok_def continuation_sets)
      define c where "c = (x * 64 + y) * 64 + z"
      have v: "unat cp = c"
        unfolding ok(3) 2(1) payload_numbers add_0_right b(1-3) using b(4-6) by (simp add: strip_tags c_def)
      have d: "c div 64 = x * 64 + y" "c mod 64 = z" unfolding c_def by (simp_all only: pack_64 b(5))
      have "c div 4096 = c div 64 div 64" by (simp add: div_mult2_eq [of c 64 64, simplified])
      then have d': "c div 4096 = x" by (simp only: d pack_64 b(4))
      have range: "2048 \<le> c" "c < 65536" "\<not> (55296 \<le> c \<and> c \<le> 57343)"
      proof -
        have c: "c = x * 4096 + y * 64 + z" by (simp add: c_def)
        show "2048 \<le> c" "c < 65536" using c b(4-7) by (cases "x = 0"; simp)+
        have "x < 13 \<or> x = 13 \<or> 14 \<le> x" by linarith
        then show "\<not> (55296 \<le> c \<and> c \<le> 57343)" using c b(4-8) by (elim disjE) auto
      qed
      have three: "(3::nat) = Suc (Suc (Suc 0))" by simp
      have "take 3 (drop pos s) = [s ! pos, s ! (pos + 1), s ! (pos + 2)]"
        using fits unfolding 2(1) three by (simp add: take_drop_Cons numeral_2_eq_2)
      then have "map unat (take 3 (drop pos s)) = utf8_numbers c"
        using b range by (simp add: utf8_numbers.simps [of c] d d')
      then show ?thesis
        unfolding ok(4) 2(1) using range by (intro scalar_of_numbers [OF v]) simp_all
    next
      case 3
      define w where "w = b0 - 240"
      define x where "x = unat (s ! (pos + 1)) - 128"
      define y where "y = unat (s ! (pos + 2)) - 128"
      define z where "z = unat (s ! (pos + 3)) - 128"
      have b: "unat (s ! pos) = 240 + w" "unat (s ! (pos + 1)) = 128 + x" "unat (s ! (pos + 2)) = 128 + y"
        "unat (s ! (pos + 3)) = 128 + z"
        "x < 64" "y < 64" "z < 64" "w \<le> 4" "w = 0 \<longrightarrow> 16 \<le> x" "w = 4 \<longrightarrow> x < 16"
        using 3 ok(2)
        by (auto simp: w_def x_def y_def z_def b0_def tail_ok_def second_ok_def continuation_sets)
      define c where "c = ((w * 64 + x) * 64 + y) * 64 + z"
      have v: "unat cp = c"
        unfolding ok(3) 3(1) payload_numbers add_0_right b(1-4) using b(5-8) by (simp add: strip_tags c_def)
      have d: "c div 64 = (w * 64 + x) * 64 + y" "c mod 64 = z"
        unfolding c_def by (simp_all only: pack_64 b(7))
      have "c div 4096 = c div 64 div 64" "c div 262144 = c div 4096 div 64"
        by (simp_all add: div_mult2_eq [of c 64 64, simplified] div_mult2_eq [of c 4096 64, simplified])
      then have d': "c div 4096 = w * 64 + x" "c div 262144 = w" by (simp_all only: d pack_64 b(5,6))
      have range: "65536 \<le> c" "c \<le> 1114111"
      proof -
        have c: "c = w * 262144 + x * 4096 + y * 64 + z" by (simp add: c_def)
        show "65536 \<le> c" using c b(5-9) by (cases "w = 0"; simp)
        show "c \<le> 1114111" using c b(5-10) by (cases "w = 4"; simp)
      qed
      have m: "c div 64 mod 64 = y" "c div 4096 mod 64 = x"
        by (simp_all only: d d' pack_64 b(5,6))
      have four: "(4::nat) = Suc (Suc (Suc (Suc 0)))" by simp
      have "take 4 (drop pos s) = [s ! pos, s ! (pos + 1), s ! (pos + 2), s ! (pos + 3)]"
        using fits unfolding 3(1) four by (simp add: take_drop_Cons numeral_2_eq_2 numeral_3_eq_3)
      then have "map unat (take 4 (drop pos s)) = utf8_numbers c"
        using b(1-4) range by (simp add: utf8_numbers.simps [of c] m d(2) d'(2))
      then show ?thesis
        unfolding ok(4) 3(1) using range by (intro scalar_of_numbers [OF v]) simp_all
    qed
  qed
qed

definition encoded_at :: "u32 \<Rightarrow> byte list \<Rightarrow> nat \<Rightarrow> bool" where
  "encoded_at cp s pos \<longleftrightarrow>
     scalar_value cp \<and> take (length (utf8_encode cp)) (drop pos s) = utf8_encode cp"

text \<open>C14: The decoder is exact.  Where the bytes at a position start with the encoding of a scalar
  value (not a surrogate, at most U+10FFFF) it yields that value and the length of its encoding;
  everywhere else, so for overlong forms, surrogates, stray or missing continuation bytes and
  truncated sequences, it yields the replacement character and length 1.\<close>

theorem utf8_decode_exact:
  assumes "pos < length s"
  shows "(encoded_at cp s pos \<longrightarrow>
            utf8_decode s pos = \<lparr>codepoint = cp, seq_length = length (utf8_encode cp)\<rparr>) \<and>
         ((\<nexists>cp. encoded_at cp s pos) \<longrightarrow> utf8_decode s pos = utf8_invalid)"
proof (intro conjI impI)
  assume none: "\<nexists>cp. encoded_at cp s pos"
  show "utf8_decode s pos = utf8_invalid"
  proof (rule ccontr)
    assume valid: "utf8_decode s pos \<noteq> utf8_invalid"
    obtain cp n where r: "utf8_decode s pos = \<lparr>codepoint = cp, seq_length = n\<rparr>"
      by (cases "utf8_decode s pos") auto
    have "n \<le> length s - pos" using utf8_decode_length [OF assms] by (auto simp: r)
    then have "length (take n (drop pos s)) = n" by simp
    then have "encoded_at cp s pos"
      using utf8_decode_sound [OF assms r valid] by (simp add: encoded_at_def)
    then show False using none by blast
  qed
qed (simp add: encoded_at_def utf8_decode_encoded)

text \<open>The euro sign decodes; its surrogate-range neighbour does not.\<close>

theorem utf8_decode_exact_witness:
  "utf8_decode [0xE2, 0x82, 0xAC] 0 = \<lparr>codepoint = 0x20AC, seq_length = 3\<rparr> \<and>
   utf8_decode [0xED, 0xA0, 0x80] 0 = utf8_invalid"
proof -
  have "utf8_encode 0x20AC = [0xE2, 0x82, 0xAC]" "scalar_value 0x20AC" by code_simp+
  then have "encoded_at 0x20AC [0xE2, 0x82, 0xAC] 0" by (simp add: encoded_at_def)
  moreover have "utf8_decode [0xED, 0xA0, 0x80] 0 = utf8_invalid" by code_simp
  ultimately show ?thesis
    using utf8_decode_exact [where pos = 0 and s = "[0xE2, 0x82, 0xAC]" and cp = "0x20AC"] \<open>utf8_encode 0x20AC = _\<close> by simp
qed

section \<open>Scanning a text\<close>

definition utf8_text :: "u32 list \<Rightarrow> byte list" where
  "utf8_text cps = concat (map utf8_encode cps)"

definition text_offset :: "u32 list \<Rightarrow> nat \<Rightarrow> nat" where
  "text_offset cps i = length (utf8_text (take i cps))"

lemma utf8_encode_not_Nil: "scalar_value cp \<Longrightarrow> utf8_encode cp \<noteq> []"
  using utf8_encode_numbers [of cp] by (auto simp: utf8_numbers.simps [of "unat cp"] split: if_splits)

lemma utf8_text_split:
  assumes "i < length cps"
  shows "utf8_text cps = utf8_text (take i cps) @ utf8_encode (cps ! i) @ utf8_text (drop (Suc i) cps)"
proof -
  have "cps = take i cps @ cps ! i # drop (Suc i) cps" using assms by (rule id_take_nth_drop)
  from arg_cong [OF this, of utf8_text] show ?thesis by (simp add: utf8_text_def)
qed

lemma drop_text:
  "i < length cps \<Longrightarrow>
   drop (text_offset cps i) (utf8_text cps) = utf8_encode (cps ! i) @ utf8_text (drop (Suc i) cps)"
  unfolding text_offset_def by (metis append_eq_conv_conj utf8_text_split)

lemma text_offset_Suc:
  "i < length cps \<Longrightarrow> text_offset cps (Suc i) = text_offset cps i + length (utf8_encode (cps ! i))"
  by (simp add: text_offset_def utf8_text_def take_Suc_conv_app_nth)

lemma text_offset_less:
  assumes "list_all scalar_value cps" "i < j" "j \<le> length cps"
  shows "text_offset cps i < text_offset cps j"
  using assms(2,3)
proof (induction j)
  case (Suc j)
  have "scalar_value (cps ! j)" using assms(1) Suc.prems(2) by (simp add: list_all_length)
  then have "text_offset cps j < text_offset cps (Suc j)"
    using Suc.prems(2) by (simp add: text_offset_Suc utf8_encode_not_Nil)
  then show ?case using Suc by (cases "i = j") auto
qed simp

lemma text_offset_end: "text_offset cps (length cps) = length (utf8_text cps)"
  by (simp add: text_offset_def)

lemma decode_text:
  assumes "list_all scalar_value cps" "i < length cps"
  shows "utf8_decode (utf8_text cps) (text_offset cps i) =
         \<lparr>codepoint = cps ! i, seq_length = length (utf8_encode (cps ! i))\<rparr>"
proof (rule utf8_decode_encoded)
  show "scalar_value (cps ! i)" using assms by (simp add: list_all_length)
  show "take (length (utf8_encode (cps ! i))) (drop (text_offset cps i) (utf8_text cps)) = utf8_encode (cps ! i)"
    by (simp add: drop_text assms(2))
qed

lemma text_offset_inside:
  assumes "list_all scalar_value cps" "i \<le> length cps"
  shows "text_offset cps i < length (utf8_text cps) \<longleftrightarrow> i < length cps"
  using text_offset_less [OF assms(1), of i "length cps"] assms(2) text_offset_end [of cps]
  by (cases "i = length cps") auto

lemma count_text:
  assumes "list_all scalar_value cps" "i \<le> length cps" "k \<le> k_int_max"
  shows "utf8_count_from (utf8_text cps) (text_offset cps i) k =
         (if k + int (length cps - i) \<le> k_int_max then Some (k + int (length cps - i)) else None)"
  using assms(2,3)
proof (induction "length cps - i" arbitrary: i k)
  case 0
  then show ?case
    using text_offset_inside [OF assms(1), of i] by (simp add: utf8_count_from.simps [of _ _ k])
next
  case (Suc n)
  then have i: "i < length cps" by simp
  have step: "utf8_count_from (utf8_text cps) (text_offset cps i) k =
      (if k = k_int_max then None else utf8_count_from (utf8_text cps) (text_offset cps (Suc i)) (k + 1))"
    using text_offset_inside [OF assms(1), of i] i
    by (subst utf8_count_from.simps) (simp add: decode_text [OF assms(1) i] text_offset_Suc)
  show ?case
    using Suc.hyps(1) [of "Suc i" "k + 1"] Suc.hyps(2) Suc.prems i unfolding step by (auto simp: algebra_simps)
qed

definition iter_at :: "u32 list \<Rightarrow> nat \<Rightarrow> utf8_iterator" where
  "iter_at cps i = \<lparr>iter_text = utf8_text cps, byte_offset = text_offset cps i, codepoint_index = i\<rparr>"

lemma iter_advance_text:
  assumes "list_all scalar_value cps" "i < length cps"
  shows "iter_advance (iter_at cps i) = iter_at cps (Suc i)"
proof -
  have "scalar_value (cps ! i)" using assms by (simp add: list_all_length)
  then show ?thesis
    by (simp add: iter_advance_def iter_step_def iter_at_def decode_text [OF assms] utf8_encode_not_Nil
        text_offset_Suc [OF assms(2)])
qed

lemma iter_at_end_text: "iter_at_end (iter_at cps i) \<longleftrightarrow> \<not> text_offset cps i < length (utf8_text cps)"
  by (simp add: iter_at_end_def iter_at_def not_less)

lemma iter_while_text:
  assumes "list_all scalar_value cps" "i \<le> j" "j \<le> length cps"
    and "\<And>k. i \<le> k \<Longrightarrow> k < j \<Longrightarrow> p (iter_at cps k)" and "j < length cps \<Longrightarrow> \<not> p (iter_at cps j)"
  shows "iter_while p (iter_at cps i) = iter_at cps j"
  using assms(2,4)
proof (induction "j - i" arbitrary: i)
  case 0
  then show ?case
    using assms(3,5) text_offset_inside [OF assms(1,3)]
    by (subst iter_while.simps) (auto simp: iter_at_end_text)
next
  case (Suc n)
  then have i: "i < length cps" "i < j" using assms(3) by simp_all
  have "\<not> iter_at_end (iter_at cps i)"
    using text_offset_inside [OF assms(1), of i] i by (simp add: iter_at_end_text)
  then show ?case
    using Suc.hyps(1) [of "Suc i"] Suc.hyps(2) Suc.prems i
    by (subst iter_while.simps) (simp add: iter_advance_text [OF assms(1)])
qed

lemma iter_start_text: "utf8_iterator_start (utf8_text cps) = iter_at cps 0"
  by (simp add: utf8_iterator_start_def iter_at_def text_offset_def utf8_text_def)

text \<open>C38: Scanning the encodings of a list of scalar values finds them back: the count is their
  number where that fits an \<^verbatim>\<open>int\<close>, and the counter overflows otherwise; the byte offset of the \<open>j\<close>-th is where its encoding starts and, as a codepoint index,
  maps back to \<open>j\<close>; and decoding or cutting out the character there yields the \<open>j\<close>-th
  value or its encoding.\<close>

theorem utf8_scan_round_trip:
  assumes "list_all scalar_value cps" and "j \<le> length cps"
  shows "utf8_count (utf8_text cps) = (if length cps < 2 ^ 31 then Some (int (length cps)) else None) \<and>
         utf8_byte_offset (utf8_text cps) (int j) = text_offset cps j \<and>
         utf8_seek_to_codepoint (utf8_text cps) j = text_offset cps j \<and>
         utf8_codepoint_index (utf8_text cps) (text_offset cps j) = int j \<and>
         (j < length cps \<longrightarrow>
            utf8_decode_at (utf8_text cps) (text_offset cps j) = cps ! j \<and>
            utf8_char_at_byte (utf8_text cps) (text_offset cps j) = utf8_encode (cps ! j))"
proof (intro conjI impI)
  have "text_offset cps 0 = 0" by (simp add: text_offset_def utf8_text_def)
  then show "utf8_count (utf8_text cps) = (if length cps < 2 ^ 31 then Some (int (length cps)) else None)"
    using count_text [OF assms(1), of 0 0] by (auto simp: utf8_count_def utf8_codepoint_count_def k_int_max_def)
  show "utf8_byte_offset (utf8_text cps) (int j) = text_offset cps j"
    unfolding utf8_byte_offset_def iter_start_text
    by (subst iter_while_text [of cps 0 j]) (use assms in \<open>simp_all add: iter_at_def\<close>)
  show "utf8_seek_to_codepoint (utf8_text cps) j = text_offset cps j"
    unfolding utf8_seek_to_codepoint_def iter_start_text
    by (subst iter_while_text [of cps 0 j]) (use assms in \<open>simp_all add: iter_at_def\<close>)
  show "utf8_codepoint_index (utf8_text cps) (text_offset cps j) = int j"
    unfolding utf8_codepoint_index_def iter_start_text
    by (subst iter_while_text [of cps 0 j])
       (use assms text_offset_less [OF assms(1)] in \<open>simp_all add: iter_at_def\<close>)
  assume j: "j < length cps"
  show "utf8_decode_at (utf8_text cps) (text_offset cps j) = cps ! j"
    by (simp add: utf8_decode_at_def decode_text [OF assms(1) j])
  show "utf8_char_at_byte (utf8_text cps) (text_offset cps j) = utf8_encode (cps ! j)"
    using text_offset_inside [OF assms] j
    by (simp add: utf8_char_at_byte_def utf8_advance_def decode_text [OF assms(1) j] drop_text)
qed

theorem utf8_scan_round_trip_witness:
  "utf8_count (utf8_text [0x41, 0x20AC, 0x1F600]) = Some 3 \<and>
   utf8_byte_offset (utf8_text [0x41, 0x20AC, 0x1F600]) 2 = 4 \<and>
   utf8_codepoint_index (utf8_text [0x41, 0x20AC, 0x1F600]) 4 = 2"
proof -
  have "list_all scalar_value [0x41, 0x20AC, 0x1F600]" "text_offset [0x41, 0x20AC, 0x1F600] 2 = 4"
    by code_simp+
  then show ?thesis
    using utf8_scan_round_trip [of "[0x41, 0x20AC, 0x1F600]" 2] by simp
qed

end
