(* ===== verification/Text_Codecs.thy ===== *)
theory Text_Codecs
  imports Luma_Prelude
begin

text \<open>
  The text codecs of \<^verbatim>\<open>core/common\<close>: base64 in its standard and URL-safe alphabets
  (\<^verbatim>\<open>base64_codec.hpp\<close>, \<^verbatim>\<open>base64_codec.cpp\<close>), hexadecimal (\<^verbatim>\<open>hex_codec.hpp\<close>) and
  percent-encoding (\<^verbatim>\<open>url_codec.hpp\<close>).  A string is its list of bytes; a byte promoted to
  \<^verbatim>\<open>int\<close> is its number.  \<open>None\<close> from an encoder is the \<^verbatim>\<open>std::length_error\<close> it
  throws, \<open>None\<close> from a decoder its \<^verbatim>\<open>nullopt\<close>.  The limit
  \<^verbatim>\<open>ResourceLimits::max_string_size\<close> is set at run time: the argument \<open>max_size\<close>.
\<close>

unbundle bit_operations_syntax

definition byte_of_char :: "char \<Rightarrow> byte" where
  "byte_of_char c = of_char c"

section \<open>Base64\<close>

definition k_base64_chars :: "byte list" where
  "k_base64_chars =
     bytes_of_string ''ABCDEFGHIJKLMNOPQRSTUVWXYZabcdefghijklmnopqrstuvwxyz0123456789+/''"

definition k_base64url_chars :: "byte list" where
  "k_base64url_chars = k_base64_chars[62 := byte_of_char CHR ''-'', 63 := byte_of_char CHR ''_'']"

definition base64_decode_char :: "byte \<Rightarrow> byte \<Rightarrow> byte \<Rightarrow> int" where
  "base64_decode_char c char62 char63 =
     (if byte_of_char CHR ''A'' \<le> c \<and> c \<le> byte_of_char CHR ''Z'' then uint c - 65
      else if byte_of_char CHR ''a'' \<le> c \<and> c \<le> byte_of_char CHR ''z'' then uint c - 97 + 26
      else if byte_of_char CHR ''0'' \<le> c \<and> c \<le> byte_of_char CHR ''9'' then uint c - 48 + 52
      else if c = char62 then 62
      else if c = char63 then 63
      else - 1)"

text \<open>The character of a group of 6 bits, and a byte built from bit fragments.\<close>

definition encode_triplet ::
  "byte list \<Rightarrow> byte \<Rightarrow> byte \<Rightarrow> byte \<Rightarrow> nat \<Rightarrow> byte list \<Rightarrow> bool \<Rightarrow> byte list" where
  "encode_triplet out b0 b1 b2 remaining alphabet use_padding =
     (let out = out @ [alphabet ! drop_bit 2 (unat b0)];
          out = out @ [alphabet ! (push_bit 4 (unat b0 AND 0x03) OR drop_bit 4 (unat b1))]
      in if remaining = 1 then (if use_padding then out @ bytes_of_string ''=='' else out)
         else if remaining = 2
         then (let out = out @ [alphabet ! push_bit 2 (unat b1 AND 0x0F)]
               in if use_padding then out @ bytes_of_string ''='' else out)
         else out @ [alphabet ! (push_bit 2 (unat b1 AND 0x0F) OR drop_bit 6 (unat b2)),
                     alphabet ! (unat b2 AND 0x3F)])"

function base64_encode_loop ::
  "byte list \<Rightarrow> byte list \<Rightarrow> bool \<Rightarrow> nat \<Rightarrow> byte list \<Rightarrow> byte list" where
  "base64_encode_loop input alphabet use_padding i out =
     (if i < length input
      then base64_encode_loop input alphabet use_padding (i + 3)
             (encode_triplet out (input ! i)
                (if i + 1 < length input then input ! (i + 1) else 0)
                (if i + 2 < length input then input ! (i + 2) else 0)
                (length input - i) alphabet use_padding)
      else out)"
  by pat_completeness auto
termination
  by (relation "measure (\<lambda>(input, alphabet, use_padding, i, out). length input - i)") auto

declare base64_encode_loop.simps [simp del]

definition base64_encode_with :: "nat \<Rightarrow> byte list \<Rightarrow> byte list \<Rightarrow> bool \<Rightarrow> byte list option" where
  "base64_encode_with max_size input alphabet use_padding =
     (let output_size = ((length input + 2) div 3) * 4
      in if output_size > max_size then None
         else Some (base64_encode_loop input alphabet use_padding 0 []))"

definition base64_encode :: "nat \<Rightarrow> byte list \<Rightarrow> byte list option" where
  "base64_encode max_size input = base64_encode_with max_size input k_base64_chars True"

definition base64url_encode :: "nat \<Rightarrow> byte list \<Rightarrow> byte list option" where
  "base64url_encode max_size input = base64_encode_with max_size input k_base64url_chars False"

definition pad_char :: byte where
  "pad_char = byte_of_char CHR ''=''"

definition decode_quad ::
  "byte list \<Rightarrow> byte \<Rightarrow> byte \<Rightarrow> byte \<Rightarrow> byte \<Rightarrow> (byte \<Rightarrow> int) \<Rightarrow> byte list option" where
  "decode_quad out c0 c1 c2 c3 decode_char =
     (let v0 = decode_char c0; v1 = decode_char c1
      in if v0 < 0 \<or> v1 < 0 then None
         else let out = out @ [word_of_int ((push_bit 2 v0) OR (drop_bit 4 v1))]
              in if c2 \<noteq> pad_char
                 then (let v2 = decode_char c2
                       in if v2 < 0 then None
                          else let out = out @ [word_of_int ((push_bit 4 (v1 AND 0x0F)) OR (drop_bit 2 v2))]
                               in if c3 \<noteq> pad_char
                                  then (let v3 = decode_char c3
                                        in if v3 < 0 then None
                                           else Some (out @ [word_of_int ((push_bit 6 (v2 AND 0x03)) OR v3)]))
                                  else Some out)
                 else if c3 \<noteq> pad_char then None
                 else Some out)"

definition char_at_or_pad :: "byte list \<Rightarrow> nat \<Rightarrow> byte" where
  "char_at_or_pad input i = (if i < length input then input ! i else pad_char)"

function base64_decode_loop ::
  "byte list \<Rightarrow> (byte \<Rightarrow> int) \<Rightarrow> nat \<Rightarrow> nat \<Rightarrow> byte list \<Rightarrow> byte list option" where
  "base64_decode_loop input decode_char padded_size i out =
     (if i < padded_size
      then (case decode_quad out (char_at_or_pad input i) (char_at_or_pad input (i + 1))
                   (char_at_or_pad input (i + 2)) (char_at_or_pad input (i + 3)) decode_char of
              None \<Rightarrow> None
            | Some out \<Rightarrow> base64_decode_loop input decode_char padded_size (i + 4) out)
      else Some out)"
  by pat_completeness auto
termination
  by (relation "measure (\<lambda>(input, decode_char, padded_size, i, out). padded_size - i)") auto

declare base64_decode_loop.simps [simp del]

definition base64_decode_with :: "byte list \<Rightarrow> (byte \<Rightarrow> int) \<Rightarrow> byte list option" where
  "base64_decode_with input decode_char =
     (let padding_needed = (4 - length input mod 4) mod 4
      in base64_decode_loop input decode_char (length input + padding_needed) 0 [])"

definition base64_decode :: "byte list \<Rightarrow> byte list option" where
  "base64_decode input =
     base64_decode_with input
       (\<lambda>c. base64_decode_char c (byte_of_char CHR ''+'') (byte_of_char CHR ''/''))"

definition base64url_decode :: "byte list \<Rightarrow> byte list option" where
  "base64url_decode input =
     base64_decode_with input
       (\<lambda>c. base64_decode_char c (byte_of_char CHR ''-'') (byte_of_char CHR ''_''))"

section \<open>Hexadecimal\<close>

definition k_hex_digits_lower :: "byte list" where
  "k_hex_digits_lower = bytes_of_string ''0123456789abcdef''"

definition k_hex_digits_upper :: "byte list" where
  "k_hex_digits_upper = bytes_of_string ''0123456789ABCDEF''"

definition to_hex_digit_upper :: "nat \<Rightarrow> byte" where
  "to_hex_digit_upper nibble = k_hex_digits_upper ! (nibble AND 0x0F)"

definition to_hex_digit :: "nat \<Rightarrow> byte" where
  "to_hex_digit nibble = k_hex_digits_lower ! (nibble AND 0x0F)"

definition to_hex :: "byte list \<Rightarrow> byte list" where
  "to_hex data =
     concat (map (\<lambda>b. [to_hex_digit (drop_bit 4 (unat b)), to_hex_digit (unat b AND 0x0F)]) data)"

definition from_hex_digit :: "byte \<Rightarrow> int" where
  "from_hex_digit c =
     (if byte_of_char CHR ''0'' \<le> c \<and> c \<le> byte_of_char CHR ''9'' then uint c - 48
      else if byte_of_char CHR ''A'' \<le> c \<and> c \<le> byte_of_char CHR ''F'' then uint c - 65 + 10
      else if byte_of_char CHR ''a'' \<le> c \<and> c \<le> byte_of_char CHR ''f'' then uint c - 97 + 10
      else - 1)"

section \<open>Percent-encoding\<close>

definition is_unreserved :: "byte \<Rightarrow> bool" where
  "is_unreserved c \<longleftrightarrow>
     (byte_of_char CHR ''A'' \<le> c \<and> c \<le> byte_of_char CHR ''Z'') \<or>
     (byte_of_char CHR ''a'' \<le> c \<and> c \<le> byte_of_char CHR ''z'') \<or>
     (byte_of_char CHR ''0'' \<le> c \<and> c \<le> byte_of_char CHR ''9'') \<or>
     c = byte_of_char CHR ''-'' \<or> c = byte_of_char CHR ''_'' \<or>
     c = byte_of_char CHR ''.'' \<or> c = byte_of_char CHR ''~''"

definition k_url_encoding_expansion :: nat where
  "k_url_encoding_expansion = 3"

definition url_encode_byte :: "byte \<Rightarrow> byte list" where
  "url_encode_byte c =
     (if is_unreserved c then [c]
      else [byte_of_char CHR ''%'', to_hex_digit_upper (drop_bit 4 (unat c)),
            to_hex_digit_upper (unat c AND 0x0F)])"

definition url_encode :: "nat \<Rightarrow> byte list \<Rightarrow> byte list option" where
  "url_encode max_size input =
     (if length input > max_size div k_url_encoding_expansion then None
      else Some (concat (map url_encode_byte input)))"

function url_decode_loop :: "byte list \<Rightarrow> nat \<Rightarrow> byte list \<Rightarrow> byte list option" where
  "url_decode_loop input i out =
     (if i < length input
      then if input ! i = byte_of_char CHR ''%''
           then (if i + 2 \<ge> length input then None
                 else let hi = from_hex_digit (input ! (i + 1)); lo = from_hex_digit (input ! (i + 2))
                      in if hi < 0 \<or> lo < 0 then None
                         else url_decode_loop input (i + 2 + 1)
                                (out @ [word_of_int ((push_bit 4 hi) OR lo)]))
           else if input ! i = byte_of_char CHR ''+''
           then url_decode_loop input (i + 1) (out @ [byte_of_char CHR '' ''])
           else url_decode_loop input (i + 1) (out @ [input ! i])
      else Some out)"
  by pat_completeness auto
termination
  by (relation "measure (\<lambda>(input, i, out). length input - i)") auto

declare url_decode_loop.simps [simp del]

definition url_decode :: "nat \<Rightarrow> byte list \<Rightarrow> byte list option" where
  "url_decode max_size input =
     (if length input > max_size then None else url_decode_loop input 0 [])"

end
