(* ===== verification/Codec_Props.thy ===== *)
theory Codec_Props
  imports Text_Codecs Bit_Numbers
begin

text \<open>
  Decoding undoes encoding for every codec, whatever the bytes, and an encoder that does not throw
  stays within the string limit.  The contract is the locale \<open>text_codec\<close>, interpreted on
  the three codecs.
\<close>

section \<open>The contract of a codec\<close>

locale text_codec =
  fixes encode :: "nat \<Rightarrow> byte list \<Rightarrow> byte list option"
    and decode :: "nat \<Rightarrow> byte list \<Rightarrow> byte list option"
  assumes decode_encode: "encode max_size input = Some text \<Longrightarrow> decode max_size text = Some input"
    and encode_bound: "encode max_size input = Some text \<Longrightarrow> length text \<le> max_size"
    and encode_mono: "encode max_size input = Some text \<Longrightarrow> max_size \<le> larger \<Longrightarrow> encode larger input = Some text"
begin

lemma encode_injective:
  assumes "encode m x = Some text" "encode n y = Some text"
  shows "x = y"
proof -
  have "encode (max m n) x = Some text" "encode (max m n) y = Some text"
    using assms encode_mono [of m x _ "max m n"] encode_mono [of n y _ "max m n"] by simp_all
  then have "Some x = Some y" by (metis decode_encode)
  then show ?thesis by simp
qed

lemma transported:
  "encode m x = Some text \<Longrightarrow> decode m text = Some x \<and> length text \<le> m \<and>
   (\<forall>n y. encode n y = Some text \<longrightarrow> y = x)"
  using decode_encode encode_bound encode_injective by blast

end

section \<open>Base64\<close>

definition alphabet_of :: "byte list \<Rightarrow> (byte \<Rightarrow> int) \<Rightarrow> bool" where
  "alphabet_of alphabet decode_char \<longleftrightarrow>
     (\<forall>v < 64. decode_char (alphabet ! v) = int v \<and> alphabet ! v \<noteq> pad_char)"

lemma base64_chars_numbers:
  "k_base64_chars = map of_nat ([65..<91] @ [97..<123] @ [48..<58] @ [43, 47])"
  by (simp add: k_base64_chars_def bytes_of_string_def upt_rec)

lemma base64_char_number:
  assumes "v < 62"
  shows "k_base64_chars ! v = of_nat (if v < 26 then 65 + v else if v < 52 then 71 + v else v - 4)"
  using assms by (auto simp: base64_chars_numbers nth_append simp del: upt_rec_numeral)

lemma ascii_bounds:
  "byte_of_char CHR ''A'' = 65" "byte_of_char CHR ''Z'' = 90" "byte_of_char CHR ''a'' = 97"
  "byte_of_char CHR ''z'' = 122" "byte_of_char CHR ''0'' = 48" "byte_of_char CHR ''9'' = 57"
  "byte_of_char CHR ''F'' = 70" "byte_of_char CHR ''f'' = 102"
  "byte_of_char CHR ''+'' = 43" "byte_of_char CHR ''/'' = 47" "byte_of_char CHR ''-'' = 45"
  "byte_of_char CHR ''_'' = 95" "byte_of_char CHR ''='' = 61" "byte_of_char CHR ''%'' = 37"
  "byte_of_char CHR ''.'' = 46" "byte_of_char CHR ''~'' = 126" "byte_of_char CHR '' '' = 32"
  by (simp_all add: byte_of_char_def)

lemma alphabets:
  "alphabet_of k_base64_chars (\<lambda>c. base64_decode_char c (byte_of_char CHR ''+'') (byte_of_char CHR ''/''))"
  "alphabet_of k_base64url_chars (\<lambda>c. base64_decode_char c (byte_of_char CHR ''-'') (byte_of_char CHR ''_''))"
proof -
  have len: "length k_base64_chars = 64" by (simp add: k_base64_chars_def)
  have common: "base64_decode_char (k_base64_chars ! v) p q = int v \<and> k_base64_chars ! v \<noteq> pad_char"
    if "v < 62" for v p q
  proof -
    have "unat (k_base64_chars ! v) = (if v < 26 then 65 + v else if v < 52 then 71 + v else v - 4)"
      using that by (subst base64_char_number) (simp_all add: unat_of_nat)
    moreover from this have "uint (k_base64_chars ! v) = int (if v < 26 then 65 + v else if v < 52 then 71 + v else v - 4)"
      by (simp only: uint_nat)
    ultimately show ?thesis
      using that
      by (auto simp: base64_decode_char_def ascii_bounds pad_char_def word_le_nat_alt word_unat_eq_iff
          split: if_splits)
  qed
  have last: "k_base64_chars ! 62 = 43" "k_base64_chars ! 63 = 47"
    by (simp_all add: base64_chars_numbers nth_append del: upt_rec_numeral)
  have url: "k_base64url_chars ! v = (if v = 62 then 45 else if v = 63 then 95 else k_base64_chars ! v)" for v
    using len by (auto simp: k_base64url_chars_def ascii_bounds nth_list_update)
  have special: "base64_decode_char 43 43 47 = 62" "base64_decode_char 47 43 47 = 63"
    "base64_decode_char 45 45 95 = 62" "base64_decode_char 95 45 95 = 63"
    by (simp_all add: base64_decode_char_def ascii_bounds)
  have cases: "v = 62 \<or> v = 63" if "v < 64" "\<not> v < 62" for v :: nat using that by linarith
  show "alphabet_of k_base64_chars (\<lambda>c. base64_decode_char c (byte_of_char CHR ''+'') (byte_of_char CHR ''/''))"
    unfolding alphabet_of_def ascii_bounds
  proof (intro allI impI)
    fix v :: nat assume v: "v < 64"
    show "base64_decode_char (k_base64_chars ! v) 43 47 = int v \<and> k_base64_chars ! v \<noteq> pad_char"
      using common [of v 43 47] cases [OF v] last special
      by (cases "v < 62") (auto simp: pad_char_def ascii_bounds)
  qed
  show "alphabet_of k_base64url_chars (\<lambda>c. base64_decode_char c (byte_of_char CHR ''-'') (byte_of_char CHR ''_''))"
    unfolding alphabet_of_def ascii_bounds
  proof (intro allI impI)
    fix v :: nat assume v: "v < 64"
    show "base64_decode_char (k_base64url_chars ! v) 45 95 = int v \<and> k_base64url_chars ! v \<noteq> pad_char"
      using common [of v 45 95] cases [OF v] special
      by (cases "v < 62") (auto simp: url pad_char_def ascii_bounds)
  qed
qed

text \<open>One group: what the encoder appends for one, two or three bytes the decoder turns back.\<close>

lemma group_numbers:
  fixes a b c :: nat
  assumes "a < 256" "b < 256" "c < 256"
  shows "push_bit 4 (a AND 3) OR drop_bit 4 b = (a mod 4) * 16 + b div 16"
    and "push_bit 2 (b AND 15) OR drop_bit 6 c = (b mod 16) * 4 + c div 64"
  using nat_or_shifted [of "b div 16" 4 "a mod 4"] nat_or_shifted [of "c div 64" 2 "b mod 16"] assms
  by (simp_all add: push_bit_eq_mult drop_bit_eq_div less_mult_imp_div_less)

lemma int_group:
  fixes v w :: nat
  shows "push_bit 2 (int v) OR drop_bit 4 (int w) = int (push_bit 2 v OR drop_bit 4 w)"
    and "push_bit 4 (int v AND 15) OR drop_bit 2 (int w) = int (push_bit 4 (v AND 15) OR drop_bit 2 w)"
    and "push_bit 6 (int v AND 3) OR int w = int (push_bit 6 (v AND 3) OR w)"
  by (simp_all only: of_nat_or_eq of_nat_and_eq of_nat_push_bit of_nat_drop_bit of_nat_numeral)

lemma fragments:
  fixes a b c :: nat
  assumes "a < 256" "b < 256" "c < 256"
  shows "push_bit 2 (a div 4) OR drop_bit 4 ((a mod 4) * 16 + b div 16) = a"
    and "push_bit 4 (((a mod 4) * 16 + b div 16) AND 15) OR drop_bit 2 ((b mod 16) * 4 + c div 64) = b"
    and "push_bit 6 (((b mod 16) * 4 + c div 64) AND 3) OR (c mod 64) = c"
proof -
  have small: "b div 16 < 16" "c div 64 < 4" using assms by (simp_all add: less_mult_imp_div_less)
  have "((a mod 4) * 16 + b div 16) div 16 = a mod 4" "((b mod 16) * 4 + c div 64) div 4 = b mod 16"
    "((a mod 4) * 16 + b div 16) mod 16 = b div 16" "((b mod 16) * 4 + c div 64) mod 4 = c div 64"
    using small by simp_all
  then show "push_bit 2 (a div 4) OR drop_bit 4 ((a mod 4) * 16 + b div 16) = a"
    and "push_bit 4 (((a mod 4) * 16 + b div 16) AND 15) OR drop_bit 2 ((b mod 16) * 4 + c div 64) = b"
    and "push_bit 6 (((b mod 16) * 4 + c div 64) AND 3) OR (c mod 64) = c"
    using nat_or_shifted [of "a mod 4" 2 "a div 4"] nat_or_shifted [of "b mod 16" 4 "b div 16"]
      nat_or_shifted [of "c mod 64" 6 "c div 64"]
    by (simp_all only: push_bit_eq_mult drop_bit_eq_div nat_and_masks) simp_all
qed

text \<open>The whole encoding, group by group.\<close>

fun base64_groups :: "byte list \<Rightarrow> bool \<Rightarrow> byte list \<Rightarrow> byte list" where
  "base64_groups alphabet pad [] = []"
| "base64_groups alphabet pad [a] =
     [alphabet ! (unat a div 4), alphabet ! ((unat a mod 4) * 16)] @
     (if pad then [pad_char, pad_char] else [])"
| "base64_groups alphabet pad [a, b] =
     [alphabet ! (unat a div 4), alphabet ! ((unat a mod 4) * 16 + unat b div 16),
      alphabet ! ((unat b mod 16) * 4)] @ (if pad then [pad_char] else [])"
| "base64_groups alphabet pad (a # b # c # rest) =
     [alphabet ! (unat a div 4), alphabet ! ((unat a mod 4) * 16 + unat b div 16),
      alphabet ! ((unat b mod 16) * 4 + unat c div 64), alphabet ! (unat c mod 64)] @
     base64_groups alphabet pad rest"

lemma unat_byte: "unat (b :: byte) < 256"
  using unsigned_less [of b] by simp

lemma encode_triplet_groups:
  "encode_triplet out a b c 1 alphabet pad = out @ base64_groups alphabet pad [a] \<or> b \<noteq> 0"
  "encode_triplet out a b c 2 alphabet pad = out @ base64_groups alphabet pad [a, b]"
  "3 \<le> n \<Longrightarrow> encode_triplet out a b c n alphabet pad @ base64_groups alphabet pad rest =
            out @ base64_groups alphabet pad (a # b # c # rest)"
proof -
  have pads: "bytes_of_string ''='' = [pad_char]" "bytes_of_string ''=='' = [pad_char, pad_char]"
    by (simp_all add: bytes_of_string_def pad_char_def byte_of_char_def)
  note ab = group_numbers(1) [OF unat_byte [of a] unat_byte [of b] unat_byte [of c]]
  note bc = group_numbers(2) [OF unat_byte [of a] unat_byte [of b] unat_byte [of c]]
  have zero: "push_bit 4 (unat a AND 3) OR drop_bit 4 (unat (0::byte)) = (unat a mod 4) * 16"
    by (simp add: push_bit_eq_mult)
  show "encode_triplet out a b c 1 alphabet pad = out @ base64_groups alphabet pad [a] \<or> b \<noteq> 0"
    using zero by (auto simp: encode_triplet_def pads drop_bit_eq_div)
  show "encode_triplet out a b c 2 alphabet pad = out @ base64_groups alphabet pad [a, b]"
    by (simp only: encode_triplet_def pads ab Let_def) (simp add: drop_bit_eq_div push_bit_eq_mult)
  show "encode_triplet out a b c n alphabet pad @ base64_groups alphabet pad rest =
            out @ base64_groups alphabet pad (a # b # c # rest)" if "3 \<le> n"
    using that by (simp only: encode_triplet_def ab bc Let_def) (simp add: drop_bit_eq_div)
qed

lemma base64_encode_loop_groups:
  "base64_encode_loop input alphabet pad i out = out @ base64_groups alphabet pad (drop i input)"
proof (induction input alphabet pad i out rule: base64_encode_loop.induct)
  case (1 input alphabet pad i out)
  show ?case
  proof (cases "i < length input")
    case False
    then show ?thesis by (simp add: base64_encode_loop.simps)
  next
    case True
    note loop = base64_encode_loop.simps [of input alphabet pad i out, unfolded 1 [OF True]]
    consider "length input = i + 1" | "length input = i + 2" | "i + 3 \<le> length input" using True by linarith
    then show ?thesis
    proof cases
      case 1
      then have "drop i input = [input ! i]"
        by (simp add: Cons_nth_drop_Suc [symmetric])
      then show ?thesis
        using True 1 encode_triplet_groups(1) [of out "input ! i" 0 0 alphabet pad] by (simp add: loop)
    next
      case 2
      then have "drop i input = [input ! i, input ! (i + 1)]"
        by (simp add: Cons_nth_drop_Suc [symmetric])
      then show ?thesis
        using True 2 encode_triplet_groups(2) [of out "input ! i" "input ! (i + 1)" 0 alphabet pad]
        by (simp add: loop)
    next
      case 3
      then have "drop i input = input ! i # input ! (i + 1) # input ! (i + 2) # drop (i + 3) input"
        by (simp add: Cons_nth_drop_Suc numeral_3_eq_3)
      then show ?thesis
        using True 3 encode_triplet_groups(3) [of "length input - i" out "input ! i" "input ! (i + 1)"
            "input ! (i + 2)" alphabet pad "drop (i + 3) input"]
        by (simp add: loop)
    qed
  qed
qed

lemma base64_groups_padded_length:
  "length (base64_groups alphabet pad input) + (4 - length (base64_groups alphabet pad input) mod 4) mod 4 =
   4 * ((length input + 2) div 3)"
proof (induction alphabet pad input rule: base64_groups.induct)
  case (4 alphabet pad a b c rest)
  have "(length (a # b # c # rest) + 2) div 3 = Suc ((length rest + 2) div 3)"
    using div_add_self2 [of 3 "length rest + 2"] by simp
  then show ?case using 4 by simp
qed auto

text \<open>Decoding a group.\<close>

lemma decode_quad_numbers:
  "dec c0 = int v0 \<Longrightarrow> dec c1 = int v1 \<Longrightarrow>
   decode_quad out c0 c1 pad_char pad_char dec = Some (out @ [word_of_nat (push_bit 2 v0 OR drop_bit 4 v1)])"
  "dec c0 = int v0 \<Longrightarrow> dec c1 = int v1 \<Longrightarrow> c2 \<noteq> pad_char \<Longrightarrow> dec c2 = int v2 \<Longrightarrow>
   decode_quad out c0 c1 c2 pad_char dec =
     Some (out @ [word_of_nat (push_bit 2 v0 OR drop_bit 4 v1),
                  word_of_nat (push_bit 4 (v1 AND 15) OR drop_bit 2 v2)])"
  "dec c0 = int v0 \<Longrightarrow> dec c1 = int v1 \<Longrightarrow> c2 \<noteq> pad_char \<Longrightarrow> dec c2 = int v2 \<Longrightarrow>
   c3 \<noteq> pad_char \<Longrightarrow> dec c3 = int v3 \<Longrightarrow>
   decode_quad out c0 c1 c2 c3 dec =
     Some (out @ [word_of_nat (push_bit 2 v0 OR drop_bit 4 v1),
                  word_of_nat (push_bit 4 (v1 AND 15) OR drop_bit 2 v2),
                  word_of_nat (push_bit 6 (v2 AND 3) OR v3)])"
  by (simp_all only: decode_quad_def Let_def int_group) simp_all

lemma decode_quad_groups:
  assumes A: "alphabet_of alphabet dec"
  shows "decode_quad out (alphabet ! (unat a div 4)) (alphabet ! ((unat a mod 4) * 16)) pad_char pad_char dec =
           Some (out @ [a])"
    and "decode_quad out (alphabet ! (unat a div 4)) (alphabet ! ((unat a mod 4) * 16 + unat b div 16))
           (alphabet ! ((unat b mod 16) * 4)) pad_char dec = Some (out @ [a, b])"
    and "decode_quad out (alphabet ! (unat a div 4)) (alphabet ! ((unat a mod 4) * 16 + unat b div 16))
           (alphabet ! ((unat b mod 16) * 4 + unat c div 64)) (alphabet ! (unat c mod 64)) dec =
           Some (out @ [a, b, c])"
proof -
  have dec: "dec (alphabet ! v) = int v" "alphabet ! v \<noteq> pad_char" if "v < 64" for v
    using A that by (simp_all add: alphabet_of_def)
  have less: "unat x div 4 < 64" "unat x div 16 < 16" "unat x div 64 < 4" for x :: byte
    using unat_byte [of x] by (simp_all add: less_mult_imp_div_less)
  have idx: "(unat x mod 4) * 16 + unat y div 16 < 64" "(unat x mod 16) * 4 + unat y div 64 < 64"
    "(unat x mod 4) * 16 < 64" "(unat x mod 16) * 4 < 64" "unat x mod 64 < 64" for x y :: byte
    using less [of y] mod_less_divisor [of 4 "unat x"] mod_less_divisor [of 16 "unat x"] by auto
  note abc = fragments [OF unat_byte [of a] unat_byte [of b] unat_byte [of c]]
  note ab0 = fragments(2) [OF unat_byte [of a] unat_byte [of b] unat_byte [of 0]]
  note a00 = fragments(1) [OF unat_byte [of a] unat_byte [of 0] unat_byte [of 0]]
  show "decode_quad out (alphabet ! (unat a div 4)) (alphabet ! ((unat a mod 4) * 16)) pad_char pad_char dec =
           Some (out @ [a])"
    using decode_quad_numbers(1) [OF dec(1) [OF less(1)] dec(1) [OF idx(3)]] a00 by simp
  show "decode_quad out (alphabet ! (unat a div 4)) (alphabet ! ((unat a mod 4) * 16 + unat b div 16))
           (alphabet ! ((unat b mod 16) * 4)) pad_char dec = Some (out @ [a, b])"
    using decode_quad_numbers(2) [OF dec(1) [OF less(1)] dec(1) [OF idx(1)] dec(2) [OF idx(4)] dec(1) [OF idx(4)]]
      abc(1) ab0 by simp
  show "decode_quad out (alphabet ! (unat a div 4)) (alphabet ! ((unat a mod 4) * 16 + unat b div 16))
           (alphabet ! ((unat b mod 16) * 4 + unat c div 64)) (alphabet ! (unat c mod 64)) dec =
           Some (out @ [a, b, c])"
    using decode_quad_numbers(3) [OF dec(1) [OF less(1)] dec(1) [OF idx(1)] dec(2) [OF idx(2)] dec(1) [OF idx(2)]
        dec(2) [OF idx(5)] dec(1) [OF idx(5)]] abc by simp
qed

lemma char_at_or_pad_append:
  "char_at_or_pad (pre @ x) (length pre + k) = (if k < length x then x ! k else pad_char)"
  "char_at_or_pad (pre @ x) (length pre) = (if x = [] then pad_char else x ! 0)"
  "char_at_or_pad (pre @ x) (Suc (length pre)) = (if 1 < length x then x ! 1 else pad_char)"
  "char_at_or_pad (pre @ x) (Suc (Suc (length pre))) = (if 2 < length x then x ! 2 else pad_char)"
  by (auto simp: char_at_or_pad_def nth_append)

lemma base64_decode_loop_groups:
  assumes A: "alphabet_of alphabet dec"
  shows "base64_decode_loop (pre @ base64_groups alphabet pad input) dec
           (length pre + 4 * ((length input + 2) div 3)) (length pre) out = Some (out @ input)"
  using A
proof (induction alphabet pad input arbitrary: pre out rule: base64_groups.induct)
  case (1 alphabet pad)
  then show ?case by (simp add: base64_decode_loop.simps)
next
  case (2 alphabet pad a)
  show ?case
    using decode_quad_groups(1) [OF 2]
    by (cases pad; simp add: base64_decode_loop.simps [of _ _ _ "length pre"]
        base64_decode_loop.simps [of _ _ _ "length pre + 4"] char_at_or_pad_append)
next
  case (3 alphabet pad a b)
  show ?case
    using decode_quad_groups(2) [OF 3]
    by (cases pad; simp add: base64_decode_loop.simps [of _ _ _ "length pre"]
        base64_decode_loop.simps [of _ _ _ "length pre + 4"] char_at_or_pad_append)
next
  case (4 alphabet pad a b c rest)
  define group where "group = [alphabet ! (unat a div 4), alphabet ! ((unat a mod 4) * 16 + unat b div 16),
      alphabet ! ((unat b mod 16) * 4 + unat c div 64), alphabet ! (unat c mod 64)]"
  have size: "(length (a # b # c # rest) + 2) div 3 = Suc ((length rest + 2) div 3)"
    using div_add_self2 [of 3 "length rest + 2"] by simp
  have four: "length group = 4" by (simp add: group_def)
  have step: "decode_quad out (char_at_or_pad (pre @ group @ g) (length pre)) (char_at_or_pad (pre @ group @ g) (length pre + 1))
     (char_at_or_pad (pre @ group @ g) (length pre + 2)) (char_at_or_pad (pre @ group @ g) (length pre + 3)) dec =
     Some (out @ [a, b, c])" for g
    using decode_quad_groups(3) [OF 4(2)] by (simp add: char_at_or_pad_append group_def nth_append)
  show ?case
    using 4(1) [OF 4(2), of "pre @ group" "out @ [a, b, c]"] step [of "base64_groups alphabet pad rest"]
    unfolding base64_groups.simps(4) group_def [symmetric] size
    by (subst base64_decode_loop.simps) (simp add: four add.assoc)
qed

lemma base64_with_round_trip:
  assumes A: "alphabet_of alphabet dec" and enc: "base64_encode_with max_size input alphabet pad = Some t"
  shows "base64_decode_with t dec = Some input \<and> length t \<le> max_size"
proof -
  have size: "((length input + 2) div 3) * 4 \<le> max_size" and t: "t = base64_groups alphabet pad input"
    using enc by (auto simp: base64_encode_with_def base64_encode_loop_groups split: if_splits)
  note len = base64_groups_padded_length [of alphabet pad input]
  have "base64_decode_with t dec = Some input"
    using base64_decode_loop_groups [OF A, of "[]" pad input "[]"] len
    by (simp add: base64_decode_with_def t Let_def)
  then show ?thesis using size len by (simp add: t)
qed

lemma base64_encode_with_mono:
  "base64_encode_with m input alphabet pad = Some text \<Longrightarrow> m \<le> n \<Longrightarrow>
   base64_encode_with n input alphabet pad = Some text"
  by (auto simp: base64_encode_with_def Let_def split: if_splits)

interpretation base64: text_codec base64_encode "\<lambda>max_size. base64_decode"
  by (unfold_locales; unfold base64_encode_def base64_decode_def)
     (blast dest: base64_with_round_trip [OF alphabets(1)] base64_encode_with_mono)+

interpretation base64url: text_codec base64url_encode "\<lambda>max_size. base64url_decode"
  by (unfold_locales; unfold base64url_encode_def base64url_decode_def)
     (blast dest: base64_with_round_trip [OF alphabets(2)] base64_encode_with_mono)+

section \<open>Percent-encoding\<close>

lemma hex_digit_number:
  assumes "n < 16"
  shows "unat (k_hex_digits_upper ! n) = (if n < 10 then 48 + n else 55 + n)"
proof -
  have eq: "k_hex_digits_upper = map of_nat ([48..<58] @ [65..<71])"
    by (simp add: k_hex_digits_upper_def bytes_of_string_def upt_rec)
  have "k_hex_digits_upper ! n = of_nat (if n < 10 then 48 + n else 55 + n)"
    unfolding eq using assms by (auto simp: nth_append simp del: upt_rec_numeral)
  then show ?thesis using assms by (simp add: unat_of_nat)
qed

lemma hex_digit_round_trip:
  assumes "n < 16"
  shows "from_hex_digit (to_hex_digit_upper n) = int n"
proof -
  note hex_digit_number [OF assms]
  moreover from this have "uint (k_hex_digits_upper ! n) = int (if n < 10 then 48 + n else 55 + n)"
    by (simp only: uint_nat)
  ultimately show ?thesis
    using assms
    by (auto simp: to_hex_digit_upper_def from_hex_digit_def ascii_bounds word_le_nat_alt split: if_splits)
qed

lemma url_decode_byte:
  "url_decode_loop (pre @ url_encode_byte c @ text) (length pre) out =
   url_decode_loop (pre @ url_encode_byte c @ text) (length pre + length (url_encode_byte c)) (out @ [c])"
proof (cases "is_unreserved c")
  case True
  have "c \<noteq> byte_of_char CHR ''%''" "c \<noteq> byte_of_char CHR ''+''"
    using True by (auto simp: is_unreserved_def ascii_bounds)
  then show ?thesis
    using True by (subst url_decode_loop.simps) (simp add: url_encode_byte_def nth_append)
next
  case False
  have nibbles: "unat c div 16 < 16" "unat c mod 16 < 16" using unat_byte [of c] by auto
  have "push_bit 4 (int (unat c div 16)) OR int (unat c mod 16) = int (push_bit 4 (unat c div 16) OR (unat c mod 16))"
    by (simp only: of_nat_or_eq of_nat_push_bit)
  also have "\<dots> = int (unat c)"
    using nat_or_shifted [of "unat c mod 16" 4 "unat c div 16"] by (simp add: push_bit_eq_mult)
  finally have joined: "word_of_int (push_bit 4 (int (unat c div 16)) OR int (unat c mod 16)) = c" by simp
  show ?thesis
    using False nibbles joined
    by (subst url_decode_loop.simps)
       (simp add: url_encode_byte_def nth_append hex_digit_round_trip drop_bit_eq_div
          del: of_nat_mod of_nat_div)
qed

lemma url_decode_loop_encoded:
  "url_decode_loop (pre @ concat (map url_encode_byte input)) (length pre) out = Some (out @ input)"
proof (induction input arbitrary: pre out)
  case Nil
  then show ?case by (simp add: url_decode_loop.simps)
next
  case (Cons c input)
  show ?case
    using url_decode_byte [of pre c "concat (map url_encode_byte input)" out]
      Cons [of "pre @ url_encode_byte c" "out @ [c]"]
    by simp
qed

lemma url_encode_length: "length (concat (map url_encode_byte input)) \<le> 3 * length input"
  by (induction input) (auto simp: url_encode_byte_def)

interpretation url: text_codec url_encode url_decode
proof
  fix m n :: nat and input t :: "byte list"
  assume enc: "url_encode m input = Some t"
  then have t: "t = concat (map url_encode_byte input)" and "length input \<le> m div 3"
    by (auto simp: url_encode_def k_url_encoding_expansion_def split: if_splits)
  then show bound: "length t \<le> m" using url_encode_length [of input] by simp
  then show "url_decode m t = Some input"
    using url_decode_loop_encoded [of "[]" input "[]"] by (simp add: url_decode_def t)
  show "url_encode n input = Some t" if "m \<le> n"
    using enc div_le_mono [OF that, of 3]
    by (auto simp: url_encode_def k_url_encoding_expansion_def split: if_splits)
qed

section \<open>The promises of the codecs\<close>

text \<open>C25: For base64, its URL-safe form without padding and percent-encoding, an encoding that does
  not exceed the string limit decodes to the bytes encoded, whatever they are, is no longer than the
  limit, and is not the encoding of any other bytes.\<close>

theorem text_codecs_round_trip:
  "(base64_encode m bytes = Some t \<longrightarrow> base64_decode t = Some bytes \<and> length t \<le> m \<and>
      (\<forall>n y. base64_encode n y = Some t \<longrightarrow> y = bytes)) \<and>
   (base64url_encode m bytes = Some t \<longrightarrow> base64url_decode t = Some bytes \<and> length t \<le> m \<and>
      (\<forall>n y. base64url_encode n y = Some t \<longrightarrow> y = bytes)) \<and>
   (url_encode m bytes = Some t \<longrightarrow> url_decode m t = Some bytes \<and> length t \<le> m \<and>
      (\<forall>n y. url_encode n y = Some t \<longrightarrow> y = bytes))"
  using base64.transported base64url.transported url.transported by blast

theorem text_codecs_round_trip_witness:
  "base64_decode (bytes_of_string ''/w=='') = Some [255] \<and>
   base64url_decode (bytes_of_string ''_w'') = Some [255] \<and>
   url_decode 9 (bytes_of_string ''%FF'') = Some [255]"
proof -
  have "base64_encode 4 [255] = Some (bytes_of_string ''/w=='')"
    "base64url_encode 4 [255] = Some (bytes_of_string ''_w'')"
    "url_encode 9 [255] = Some (bytes_of_string ''%FF'')"
    by code_simp+
  then show ?thesis
    using text_codecs_round_trip [of 4 "[255]" "bytes_of_string ''/w==''"]
      text_codecs_round_trip [of 4 "[255]" "bytes_of_string ''_w''"]
      text_codecs_round_trip [of 9 "[255]" "bytes_of_string ''%FF''"] by blast
qed

text \<open>The decoder takes padding group by group, so a padded group may stand in the middle of the
  input, and bits below the last byte are ignored: decoding is not injective.\<close>

lemma base64_inner_padding_accepted:
  "base64_decode (bytes_of_string ''QQ==QQ=='') = Some (bytes_of_string ''AA'')"
  "base64_decode (bytes_of_string ''QR=='') = base64_decode (bytes_of_string ''QQ=='')"
  by code_simp+

end
