(* ===== verification/Lru_Cache.thy ===== *)
theory Lru_Cache
  imports Luma_Prelude "HOL-Library.AList" "HOL-Library.Multiset"
begin

text \<open>
  The bounded cache of \<^verbatim>\<open>core/common/lru_cache.hpp\<close>.  The doubly linked list is a list of
  nodes in order, most recently used first; a node carries an identity, its key and its value.  The
  hash map takes a key to the identity of its node: that is what a list iterator is, and what stays
  valid when \<^verbatim>\<open>splice\<close> moves the node.  The map is an association list with its size.
\<close>

section \<open>The cache\<close>

record ('k, 'v) lru_cache =
  capacity :: nat
  order :: "(nat \<times> 'k \<times> 'v) list"
  key_map :: "('k \<times> nat) list"
  next_node :: nat

definition lru_create :: "nat \<Rightarrow> ('k, 'v) lru_cache option" where
  "lru_create max_size =
     (if max_size = 0 then None
      else Some \<lparr>capacity = max_size, order = [], key_map = [], next_node = 0\<rparr>)"

text \<open>Moving a node to the front, and storing through an iterator.\<close>

definition splice_front :: "nat \<Rightarrow> (nat \<times> 'k \<times> 'v) list \<Rightarrow> (nat \<times> 'k \<times> 'v) list" where
  "splice_front n xs = filter (\<lambda>e. fst e = n) xs @ filter (\<lambda>e. fst e \<noteq> n) xs"

definition store_value :: "nat \<Rightarrow> 'v \<Rightarrow> (nat \<times> 'k \<times> 'v) list \<Rightarrow> (nat \<times> 'k \<times> 'v) list" where
  "store_value n v xs = map (\<lambda>(m, k, w). if m = n then (m, k, v) else (m, k, w)) xs"

definition node_value :: "nat \<Rightarrow> (nat \<times> 'k \<times> 'v) list \<Rightarrow> 'v option" where
  "node_value n xs = map_option snd (map_of xs n)"

definition evict :: "('k, 'v) lru_cache \<Rightarrow> ('k, 'v) lru_cache" where
  "evict c =
     (if length (key_map c) \<ge> capacity c
      then let back_key = fst (snd (last (order c)))
           in c\<lparr>key_map := AList.delete back_key (key_map c), order := butlast (order c)\<rparr>
      else c)"

definition lru_put :: "'k \<Rightarrow> 'v \<Rightarrow> ('k, 'v) lru_cache \<Rightarrow> ('k, 'v) lru_cache" where
  "lru_put k v c =
     (case map_of (key_map c) k of
        Some n \<Rightarrow> c\<lparr>order := splice_front n (store_value n v (order c))\<rparr>
      | None \<Rightarrow>
          let c = evict c
          in c\<lparr>order := (next_node c, k, v) # order c,
                key_map := AList.update k (next_node c) (key_map c),
                next_node := next_node c + 1\<rparr>)"

definition lru_get :: "'k \<Rightarrow> ('k, 'v) lru_cache \<Rightarrow> 'v option \<times> ('k, 'v) lru_cache" where
  "lru_get k c =
     (case map_of (key_map c) k of
        None \<Rightarrow> (None, c)
      | Some n \<Rightarrow> (node_value n (order c), c\<lparr>order := splice_front n (order c)\<rparr>))"

definition lru_contains :: "'k \<Rightarrow> ('k, 'v) lru_cache \<Rightarrow> bool" where
  "lru_contains k c \<longleftrightarrow> map_of (key_map c) k \<noteq> None"

definition lru_erase :: "'k \<Rightarrow> ('k, 'v) lru_cache \<Rightarrow> bool \<times> ('k, 'v) lru_cache" where
  "lru_erase k c =
     (case map_of (key_map c) k of
        None \<Rightarrow> (False, c)
      | Some n \<Rightarrow> (True, c\<lparr>order := filter (\<lambda>e. fst e \<noteq> n) (order c),
                            key_map := AList.delete k (key_map c)\<rparr>))"

definition lru_clear :: "('k, 'v) lru_cache \<Rightarrow> ('k, 'v) lru_cache" where
  "lru_clear c = c\<lparr>order := [], key_map := []\<rparr>"

definition lru_for_each :: "('k \<Rightarrow> 'v \<Rightarrow> 's \<Rightarrow> 's) \<Rightarrow> ('k, 'v) lru_cache \<Rightarrow> 's \<Rightarrow> 's" where
  "lru_for_each f c s = fold (\<lambda>(n, k, v). f k v) (order c) s"

text \<open>The overload that may store through the value reference it hands out.\<close>

fun update_entries ::
  "('k \<Rightarrow> 'v \<Rightarrow> 's \<Rightarrow> 'v \<times> 's) \<Rightarrow> (nat \<times> 'k \<times> 'v) list \<Rightarrow> 's \<Rightarrow> (nat \<times> 'k \<times> 'v) list \<times> 's" where
  "update_entries f [] s = ([], s)"
| "update_entries f ((n, k, v) # es) s =
     (let (v, s) = f k v s; (es, s) = update_entries f es s in ((n, k, v) # es, s))"

definition lru_for_each_mutable ::
  "('k \<Rightarrow> 'v \<Rightarrow> 's \<Rightarrow> 'v \<times> 's) \<Rightarrow> ('k, 'v) lru_cache \<Rightarrow> 's \<Rightarrow> ('k, 'v) lru_cache \<times> 's" where
  "lru_for_each_mutable f c s = (let (es, s) = update_entries f (order c) s in (c\<lparr>order := es\<rparr>, s))"

definition lru_size :: "('k, 'v) lru_cache \<Rightarrow> nat" where
  "lru_size c = length (key_map c)"

section \<open>The invariant\<close>

text \<open>The map and the list hold the same nodes under the same keys, each key and each identity once,
  within the capacity.\<close>

definition entries :: "('k, 'v) lru_cache \<Rightarrow> ('k \<times> 'v) list" where
  "entries c = map snd (order c)"

definition lru_ok :: "('k, 'v) lru_cache \<Rightarrow> bool" where
  "lru_ok c \<longleftrightarrow> 0 < capacity c \<and> length (order c) \<le> capacity c \<and>
     length (key_map c) = length (order c) \<and>
     distinct (map fst (order c)) \<and> distinct (map fst (key_map c)) \<and> distinct (map fst (entries c)) \<and>
     (\<forall>n \<in> set (map fst (order c)). n < next_node c) \<and>
     (\<forall>k n. map_of (key_map c) k = Some n \<longleftrightarrow> (\<exists>v. (n, k, v) \<in> set (order c)))"

section \<open>The abstract cache: a list of entries by recency\<close>

definition spec_put :: "nat \<Rightarrow> 'k \<Rightarrow> 'v \<Rightarrow> ('k \<times> 'v) list \<Rightarrow> ('k \<times> 'v) list" where
  "spec_put cap k v es = take cap ((k, v) # filter (\<lambda>e. fst e \<noteq> k) es)"

definition spec_get :: "'k \<Rightarrow> ('k \<times> 'v) list \<Rightarrow> ('k \<times> 'v) list" where
  "spec_get k es = filter (\<lambda>e. fst e = k) es @ filter (\<lambda>e. fst e \<noteq> k) es"

lemma lru_okD:
  assumes "lru_ok c"
  shows "0 < capacity c" "length (order c) \<le> capacity c" "length (key_map c) = length (order c)"
    "distinct (map fst (order c))" "distinct (map fst (key_map c))" "distinct (map fst (entries c))"
    "\<And>e. e \<in> set (order c) \<Longrightarrow> fst e < next_node c"
    "\<And>k n. map_of (key_map c) k = Some n \<longleftrightarrow> (\<exists>v. (n, k, v) \<in> set (order c))"
  using assms by (auto simp: lru_ok_def)

text \<open>The node of a key is the one entry with that key.\<close>

lemma node_of_key:
  assumes c: "lru_ok c" and k: "map_of (key_map c) k = Some n" and e: "e \<in> set (order c)"
  shows "fst e = n \<longleftrightarrow> fst (snd e) = k"
proof -
  obtain v where v: "(n, k, v) \<in> set (order c)" using lru_okD(8) [OF c] k by blast
  have inj: "inj_on fst (set (order c))" "inj_on (fst \<circ> snd) (set (order c))"
    using lru_okD(4,6) [OF c] by (simp_all add: distinct_map entries_def comp_def)
  obtain m k' v' where "e = (m, k', v')" by (cases e)
  then show ?thesis
    using inj_onD [OF inj(1), of e "(n, k, v)"] inj_onD [OF inj(2), of e "(n, k, v)"] e v by auto
qed

lemma no_entry_of_key:
  assumes c: "lru_ok c" and k: "map_of (key_map c) k = None" and e: "e \<in> set (order c)"
  shows "fst (snd e) \<noteq> k"
proof
  assume "fst (snd e) = k"
  then have "(fst e, k, snd (snd e)) \<in> set (order c)" using e by auto
  then have "map_of (key_map c) k = Some (fst e)" using lru_okD(8) [OF c] by blast
  then show False using k by simp
qed

lemma entries_lookup:
  assumes c: "lru_ok c"
  shows "map_of (entries c) k = None \<longleftrightarrow> map_of (key_map c) k = None"
proof
  assume none: "map_of (entries c) k = None"
  show "map_of (key_map c) k = None"
  proof (rule ccontr)
    assume "map_of (key_map c) k \<noteq> None"
    then obtain n v where "(n, k, v) \<in> set (order c)" using lru_okD(8) [OF c] by blast
    then have "k \<in> fst ` set (entries c)" by (force simp: entries_def)
    then show False using none by (simp add: map_of_eq_None_iff)
  qed
next
  assume "map_of (key_map c) k = None"
  then show "map_of (entries c) k = None"
    using no_entry_of_key [OF c] by (force simp: map_of_eq_None_iff entries_def)
qed

lemma filter_by_key:
  assumes "lru_ok c" "map_of (key_map c) k = Some n"
  shows "filter (\<lambda>e. fst e = n) (order c) = filter (\<lambda>e. fst (snd e) = k) (order c)"
    and "filter (\<lambda>e. fst e \<noteq> n) (order c) = filter (\<lambda>e. fst (snd e) \<noteq> k) (order c)"
  by (intro filter_cong refl; simp add: node_of_key [OF assms])+

lemma set_splice_front [simp]: "set (splice_front n xs) = set xs"
  by (auto simp: splice_front_def)

lemma length_splice_front [simp]: "length (splice_front n xs) = length xs"
  using sum_length_filter_compl [of "\<lambda>e. fst e = n" xs] by (simp add: splice_front_def)

lemma distinct_map_splice_front [simp]:
  "distinct (map f (splice_front n xs)) \<longleftrightarrow> distinct (map f xs)"
proof -
  have "mset (splice_front n xs) = mset xs" by (simp add: splice_front_def)
  then have "mset (map f (splice_front n xs)) = mset (map f xs)" by simp
  then show ?thesis by (rule mset_eq_imp_distinct_iff)
qed

lemma store_value_alt: "store_value n v = map (\<lambda>e. if fst e = n then (fst e, fst (snd e), v) else e)"
  by (intro ext) (auto simp: store_value_def)

lemma store_value_keys [simp]:
  "map fst (store_value n v xs) = map fst xs"
  "map (\<lambda>e. fst (snd e)) (store_value n v xs) = map (\<lambda>e. fst (snd e)) xs"
  "length (store_value n v xs) = length xs"
  by (auto simp: store_value_def)

lemma keyed_member: "(\<exists>w. (m, k, w) \<in> set xs) \<longleftrightarrow> (m, k) \<in> set (map (\<lambda>e. (fst e, fst (snd e))) xs)"
  by force

lemma store_value_member:
  "(\<exists>w. (m, k, w) \<in> set (store_value n v xs)) \<longleftrightarrow> (\<exists>w. (m, k, w) \<in> set xs)"
  unfolding keyed_member store_value_alt by (simp only: map_map comp_def) (simp add: if_distrib cong: if_cong)

lemma store_value_others: "filter (\<lambda>e. fst e \<noteq> n) (store_value n v xs) = filter (\<lambda>e. fst e \<noteq> n) xs"
  by (induction xs) (simp_all add: store_value_alt)

lemma store_value_node: "filter (\<lambda>e. fst e = n) (store_value n v xs) = store_value n v (filter (\<lambda>e. fst e = n) xs)"
  by (induction xs) (simp_all add: store_value_alt)

lemma filter_single: "e \<in> set xs \<Longrightarrow> distinct (map f xs) \<Longrightarrow> filter (\<lambda>x. f x = f e) xs = [e]"
proof (induction xs)
  case (Cons x xs)
  then show ?case
  proof (cases "e = x")
    case True
    then have "filter (\<lambda>y. f y = f e) xs = []" using Cons.prems True by (auto simp: filter_empty_conv image_iff)
    then show ?thesis using True by simp
  next
    case False
    then show ?thesis using Cons by (force simp: image_iff)
  qed
qed simp

lemma entries_keys: "map fst (entries c) = map (\<lambda>e. fst (snd e)) (order c)"
  by (simp add: entries_def)

section \<open>Every operation keeps the invariant and refines the abstract cache\<close>

lemma lru_ok_reorder:
  assumes c: "lru_ok c"
  shows "lru_ok (c\<lparr>order := splice_front n (order c)\<rparr>)"
  using c distinct_map_splice_front [of fst n "order c"]
    distinct_map_splice_front [of "\<lambda>e. fst (snd e)" n "order c"]
  by (auto simp: lru_ok_def entries_keys)

lemma lru_ok_store:
  assumes c: "lru_ok c"
  shows "lru_ok (c\<lparr>order := store_value n v (order c)\<rparr>)"
  using c store_value_keys(1) [of n v "order c"] store_value_member [of _ _ n v "order c"]
  by (simp add: lru_ok_def entries_keys flip: set_map)

lemma lru_get_refines:
  assumes c: "lru_ok c"
  shows "lru_ok (snd (lru_get k c)) \<and> fst (lru_get k c) = map_of (entries c) k \<and>
         entries (snd (lru_get k c)) = spec_get k (entries c) \<and> capacity (snd (lru_get k c)) = capacity c"
proof (cases "map_of (key_map c) k")
  case None
  then have "filter (\<lambda>e. fst e = k) (entries c) = []" "filter (\<lambda>e. fst e \<noteq> k) (entries c) = entries c"
    using no_entry_of_key [OF c] by (auto simp: entries_def filter_empty_conv intro!: filter_True)
  then show ?thesis using c None entries_lookup [OF c, of k] by (simp add: lru_get_def spec_get_def)
next
  case (Some n)
  obtain v where v: "(n, k, v) \<in> set (order c)" using lru_okD(8) [OF c] Some by blast
  then have "map_of (order c) n = Some (k, v)"
    using lru_okD(4) [OF c] by (simp add: map_of_eq_Some_iff)
  moreover have "map_of (entries c) k = Some v"
    using v lru_okD(6) [OF c] by (force simp: map_of_eq_Some_iff entries_def)
  moreover have "map snd (splice_front n (order c)) = spec_get k (entries c)"
    using filter_by_key [OF c Some]
    by (simp add: splice_front_def spec_get_def entries_def filter_map comp_def)
  ultimately show ?thesis
    using lru_ok_reorder [OF c] by (simp add: lru_get_def Some node_value_def entries_def)
qed

text \<open>Evicting removes the back entry under its own key.\<close>

lemma map_of_delete: "map_of (AList.delete k xs) k' = (if k = k' then None else map_of xs k')"
  by (simp add: delete_conv')

lemma length_delete:
  assumes "distinct (map fst xs)" "map_of xs k \<noteq> None"
  shows "length (AList.delete k xs) = length xs - 1"
proof -
  have "k \<in> set (map fst xs)" using assms(2) by (simp add: map_of_eq_None_iff)
  moreover have "map fst (AList.delete k xs) = remove1 k (map fst xs)"
    using assms(1) by (simp add: delete_keys distinct_remove1_removeAll)
  from arg_cong [OF this, of length] have "length (AList.delete k xs) = length (remove1 k (map fst xs))"
    by simp
  ultimately show ?thesis by (simp add: length_remove1)
qed

lemma length_update_new: "map_of xs k = None \<Longrightarrow> length (AList.update k v xs) = Suc (length xs)"
  by (induction xs) (auto split: if_splits)

lemma lru_ok_remove:
  assumes c: "lru_ok c" and k: "map_of (key_map c) k = Some n"
    and os: "set os = {e \<in> set (order c). fst (snd e) \<noteq> k}" "length os = length (order c) - 1"
    and d: "distinct (map fst os)" "distinct (map (\<lambda>e. fst (snd e)) os)"
  shows "lru_ok (c\<lparr>order := os, key_map := AList.delete k (key_map c)\<rparr>)"
proof -
  note ok = lru_okD [OF c]
  have "distinct (map fst (AList.delete k (key_map c)))" using ok(5) by (rule distinct_delete)
  moreover have "length (AList.delete k (key_map c)) = length os"
    using length_delete [OF ok(5), of k] k os(2) ok(3) by simp
  moreover have "map_of (AList.delete k (key_map c)) k' = Some m \<longleftrightarrow> (\<exists>v. (m, k', v) \<in> set os)" for k' m
    using ok(8) [of k' m] os(1) by (auto simp: map_of_delete)
  ultimately show ?thesis
    using ok(1,2,7) os d by (auto simp: lru_ok_def entries_keys)
qed

lemma lru_erase_refines:
  assumes c: "lru_ok c"
  shows "lru_ok (snd (lru_erase k c)) \<and>
         fst (lru_erase k c) = (map_of (entries c) k \<noteq> None) \<and>
         entries (snd (lru_erase k c)) = filter (\<lambda>e. fst e \<noteq> k) (entries c)"
proof (cases "map_of (key_map c) k")
  case None
  then have "filter (\<lambda>e. fst e \<noteq> k) (entries c) = entries c"
    using no_entry_of_key [OF c] by (auto simp: entries_def intro!: filter_True)
  then show ?thesis using c None entries_lookup [OF c, of k] by (simp add: lru_erase_def)
next
  case (Some n)
  note ok = lru_okD [OF c]
  let ?os = "filter (\<lambda>e. fst (snd e) \<noteq> k) (order c)"
  obtain v where v: "(n, k, v) \<in> set (order c)" using ok(8) Some by blast
  have "filter (\<lambda>e. fst (snd e) = k) (order c) = [(n, k, v)]"
    using filter_single [OF v, of "\<lambda>e. fst (snd e)"] ok(6) by (simp add: entries_keys)
  then have len: "length ?os = length (order c) - 1"
    using sum_length_filter_compl [of "\<lambda>e. fst (snd e) = k" "order c"] by simp
  have "lru_ok (c\<lparr>order := ?os, key_map := AList.delete k (key_map c)\<rparr>)"
    using ok(4,6) len by (intro lru_ok_remove [OF c Some]) (auto simp: entries_keys distinct_map_filter)
  moreover have "map snd ?os = filter (\<lambda>e. fst e \<noteq> k) (entries c)"
    by (simp add: entries_def filter_map comp_def)
  moreover have "map_of (entries c) k \<noteq> None" using entries_lookup [OF c, of k] Some by simp
  ultimately show ?thesis
    using filter_by_key(2) [OF c Some] by (simp add: lru_erase_def Some entries_def)
qed

lemma evict_refines:
  assumes c: "lru_ok c"
  shows "lru_ok (evict c) \<and> capacity (evict c) = capacity c \<and> next_node (evict c) = next_node c \<and>
         entries (evict c) = take (capacity c - 1) (entries c) \<and> length (order (evict c)) < capacity c \<and>
         set (order (evict c)) \<subseteq> set (order c)"
proof (cases "length (key_map c) \<ge> capacity c")
  case False
  then show ?thesis
    using c lru_okD(3) [OF c] by (simp add: evict_def entries_def)
next
  case True
  note ok = lru_okD [OF c]
  have len: "length (order c) = capacity c" "order c \<noteq> []" using True ok(1-3) by auto
  obtain n k v where rear: "last (order c) = (n, k, v)" by (cases "last (order c)")
  then have ends: "order c = butlast (order c) @ [(n, k, v)]" using len(2) by (metis append_butlast_last_id)
  then have "(n, k, v) \<in> set (order c)" by (metis in_set_conv_decomp)
  then have k: "map_of (key_map c) k = Some n" using ok(8) by blast
  have keys: "distinct (map (\<lambda>e. fst (snd e)) (butlast (order c)) @ [k])"
    using ok(6) by (subst (asm) entries_keys, subst (asm) ends) simp
  have nodes: "distinct (map fst (butlast (order c)))"
    using ok(4) by (subst (asm) ends) simp
  have "set (butlast (order c)) = {e \<in> set (order c). fst (snd e) \<noteq> k}"
    using keys by (subst (2) ends) auto
  then have "lru_ok (c\<lparr>order := butlast (order c), key_map := AList.delete k (key_map c)\<rparr>)"
    using keys nodes by (intro lru_ok_remove [OF c k]) simp_all
  moreover have "map snd (butlast (order c)) = take (capacity c - 1) (entries c)"
    using len by (simp add: entries_def butlast_conv_take take_map)
  moreover have "evict c = c\<lparr>order := butlast (order c), key_map := AList.delete k (key_map c)\<rparr>"
  proof -
    have "fst (snd (last (order c))) = k" by (simp add: rear)
    then show ?thesis using True by (simp add: evict_def Let_def)
  qed
  ultimately show ?thesis
    using len ok(1) by (auto simp: entries_def dest: in_set_butlastD)
qed

lemma lru_put_refines:
  assumes c: "lru_ok c"
  shows "lru_ok (lru_put k v c) \<and> capacity (lru_put k v c) = capacity c \<and>
         entries (lru_put k v c) = spec_put (capacity c) k v (entries c)"
proof (cases "map_of (key_map c) k")
  case (Some n)
  note ok = lru_okD [OF c]
  let ?c = "c\<lparr>order := store_value n v (order c)\<rparr>"
  have c': "lru_ok ?c" by (rule lru_ok_store [OF c])
  obtain w where w: "(n, k, w) \<in> set (order c)" using ok(8) Some by blast
  then have node: "filter (\<lambda>e. fst e = n) (order c) = [(n, k, w)]"
    using filter_single [OF w ok(4)] by simp
  have "map snd (splice_front n (store_value n v (order c))) = (k, v) # filter (\<lambda>e. fst e \<noteq> k) (entries c)"
    using filter_by_key(2) [OF c Some]
    by (simp add: splice_front_def store_value_others store_value_node node entries_def filter_map comp_def)
       (simp add: store_value_alt)
  moreover have "length (filter (\<lambda>e. fst e \<noteq> k) (entries c)) < capacity c"
  proof -
    have "length (filter (\<lambda>e. fst e \<noteq> k) (entries c)) < length (entries c)"
      using w by (intro length_filter_less [of "(k, w)"]) (force simp: entries_def)+
    then show ?thesis using ok(2) by (simp add: entries_def)
  qed
  ultimately show ?thesis
    using lru_ok_reorder [OF c', of n] by (simp add: lru_put_def Some entries_def spec_put_def)
next
  case None
  define d where "d = evict c"
  have d: "lru_ok d" "capacity d = capacity c" "entries d = take (capacity c - 1) (entries c)"
    "length (order d) < capacity c"
    using evict_refines [OF c] by (simp_all add: d_def)
  note ok = lru_okD [OF d(1)]
  have fresh: "k \<notin> set (map fst (entries c))"
    using entries_lookup [OF c, of k] None by (simp add: map_of_eq_None_iff)
  then have fresh_d: "k \<notin> set (map fst (entries d))"
    unfolding d(3) take_map [symmetric] by (meson in_set_takeD)
  then have none_d: "map_of (key_map d) k = None"
    using entries_lookup [OF d(1), of k] by (simp add: map_of_eq_None_iff)
  let ?n = "next_node d"
  have "?n \<notin> set (map fst (order d))" using ok(7) by fastforce
  moreover have absent: "(m, k, w) \<notin> set (order d)" for m w
    using no_entry_of_key [OF d(1) none_d, of "(m, k, w)"] by auto
  then have "map_of (AList.update k ?n (key_map d)) k' = Some m \<longleftrightarrow>
      (\<exists>w. (m, k', w) \<in> set ((?n, k, v) # order d))" for k' m
    using ok(8) [of k' m] by (cases "k' = k") (auto simp: update_conv')
  moreover have "distinct (map fst (AList.update k ?n (key_map d)))"
    using ok(5) by (rule distinct_update)
  moreover have "k \<notin> set (map (\<lambda>e. fst (snd e)) (order d))"
    using fresh_d unfolding entries_keys .
  ultimately have "lru_ok (d\<lparr>order := (?n, k, v) # order d, key_map := AList.update k ?n (key_map d),
      next_node := ?n + 1\<rparr>)"
    using ok(1-7) d(2,4) none_d
    by (auto simp: lru_ok_def entries_keys length_update_new less_Suc_eq)
  moreover have "filter (\<lambda>e. fst e \<noteq> k) (entries c) = entries c"
    using fresh by (intro filter_True) force
  then have "(k, v) # entries d = spec_put (capacity c) k v (entries c)"
    using lru_okD(1) [OF c] by (cases "capacity c") (simp_all add: spec_put_def d(3))
  ultimately show ?thesis
    using d(2) by (simp add: lru_put_def None Let_def entries_def flip: d_def)
qed

lemma lru_create_refines:
  "lru_create m = Some c \<Longrightarrow> lru_ok c \<and> entries c = [] \<and> capacity c = m"
  by (auto simp: lru_create_def lru_ok_def entries_def split: if_splits)

lemma lru_clear_refines:
  "lru_ok c \<Longrightarrow> lru_ok (lru_clear c) \<and> entries (lru_clear c) = [] \<and> capacity (lru_clear c) = capacity c"
  by (simp add: lru_clear_def lru_ok_def entries_def)

lemma update_entries_keys:
  "map (\<lambda>e. (fst e, fst (snd e))) (fst (update_entries f es s)) = map (\<lambda>e. (fst e, fst (snd e))) es"
  by (induction f es s rule: update_entries.induct) (auto simp: Let_def split: prod.splits)

lemma lru_for_each_mutable_ok:
  assumes c: "lru_ok c"
  shows "lru_ok (fst (lru_for_each_mutable f c s)) \<and>
         map fst (entries (fst (lru_for_each_mutable f c s))) = map fst (entries c)"
proof -
  let ?es = "fst (update_entries f (order c) s)"
  note keys = update_entries_keys [of f "order c" s]
  have k: "map fst ?es = map fst (order c)" "map (\<lambda>e. fst (snd e)) ?es = map (\<lambda>e. fst (snd e)) (order c)"
    using arg_cong [OF keys, of "map fst"] arg_cong [OF keys, of "map snd"] by (simp_all add: comp_def)
  have m: "(\<exists>v. (n, k, v) \<in> set ?es) \<longleftrightarrow> (\<exists>v. (n, k, v) \<in> set (order c))" for n k
    unfolding keyed_member keys ..
  have f: "fst (lru_for_each_mutable f c s) = c\<lparr>order := ?es\<rparr>"
    by (simp add: lru_for_each_mutable_def split_beta)
  have l: "length ?es = length (order c)" using arg_cong [OF k(1), of length] by simp
  show ?thesis unfolding f
    using lru_okD(1-6) [OF c] lru_okD(8) [OF c] c k m l
    by (simp add: lru_ok_def entries_keys flip: set_map)
qed

section \<open>What a client may rely on\<close>

text \<open>The interface of a bounded cache: operations, an invariant and the recency list it stands for.\<close>

locale recency_cache =
  fixes put :: "'k \<Rightarrow> 'v \<Rightarrow> 'c \<Rightarrow> 'c"
    and get :: "'k \<Rightarrow> 'c \<Rightarrow> 'v option \<times> 'c"
    and erase :: "'k \<Rightarrow> 'c \<Rightarrow> bool \<times> 'c"
    and invar :: "'c \<Rightarrow> bool"
    and recency :: "'c \<Rightarrow> ('k \<times> 'v) list"
    and limit :: "'c \<Rightarrow> nat"
  assumes put_law: "invar c \<Longrightarrow> invar (put k v c) \<and> limit (put k v c) = limit c \<and>
                      recency (put k v c) = spec_put (limit c) k v (recency c)"
    and get_law: "invar c \<Longrightarrow> invar (snd (get k c)) \<and> limit (snd (get k c)) = limit c \<and>
                      fst (get k c) = map_of (recency c) k \<and>
                      recency (snd (get k c)) = spec_get k (recency c)"
    and erase_law: "invar c \<Longrightarrow> invar (snd (erase k c)) \<and>
                      recency (snd (erase k c)) = filter (\<lambda>e. fst e \<noteq> k) (recency c)"
    and limit_pos: "invar c \<Longrightarrow> 0 < limit c"
begin

lemma get_after_put: "invar c \<Longrightarrow> fst (get k (put k v c)) = Some v"
  using get_law [of "put k v c" k] put_law [of c k v] limit_pos [of c]
  by (cases "limit c") (simp_all add: spec_put_def)

lemma get_after_erase: "invar c \<Longrightarrow> fst (get k (snd (erase k c))) = None"
  using get_law [of "snd (erase k c)" k] erase_law [of c k] by (auto simp: map_of_eq_None_iff)

text \<open>A run of puts keeps the most recent distinct keys, up to the limit.\<close>

definition puts :: "('k \<times> 'v) list \<Rightarrow> 'c \<Rightarrow> 'c" where
  "puts kvs c = fold (\<lambda>(k, v). put k v) kvs c"

lemma puts_invar: "invar c \<Longrightarrow> invar (puts kvs c) \<and> limit (puts kvs c) = limit c"
  unfolding puts_def by (induction kvs arbitrary: c) (auto simp: put_law)

lemma puts_distinct:
  assumes c: "invar c" and kvs: "distinct (map fst kvs)" "length kvs \<le> limit c"
  shows "take (length kvs) (recency (puts kvs c)) = rev kvs"
  using kvs
proof (induction kvs rule: rev_induct)
  case (snoc e kvs)
  obtain k v where e: "e = (k, v)" by (cases e)
  have IH: "take (length kvs) (recency (puts kvs c)) = rev kvs" using snoc by simp
  have inv: "invar (puts kvs c)" "limit (puts kvs c) = limit c" using puts_invar [OF c] by simp_all
  have "recency (puts (kvs @ [e]) c) = spec_put (limit c) k v (recency (puts kvs c))"
    using put_law [OF inv(1), of k v] inv(2) by (simp add: puts_def e)
  moreover have "take (length kvs) (filter (\<lambda>e. fst e \<noteq> k) (recency (puts kvs c))) = rev kvs"
  proof -
    define xs where "xs = recency (puts kvs c)"
    have "xs = rev kvs @ drop (length kvs) xs"
      using append_take_drop_id [of "length kvs" xs] IH by (simp add: xs_def)
    moreover have "filter (\<lambda>e. fst e \<noteq> k) (rev kvs) = rev kvs"
      using snoc.prems(1) by (intro filter_True) (force simp: e)
    ultimately have "filter (\<lambda>e. fst e \<noteq> k) xs = rev kvs @ filter (\<lambda>e. fst e \<noteq> k) (drop (length kvs) xs)"
      by (metis filter_append)
    then show ?thesis by (simp flip: xs_def)
  qed
  ultimately show ?case
    using snoc.prems(2) by (cases "limit c") (simp_all add: spec_put_def e min_def)
qed (simp add: puts_def)

lemma recent_key_found:
  assumes c: "invar c" and kvs: "distinct (map fst kvs)" "length kvs \<le> limit c" and kv: "(k, v) \<in> set kvs"
  shows "fst (get k (puts kvs c)) = Some v"
proof -
  define xs where "xs = recency (puts kvs c)"
  have "xs = rev kvs @ drop (length kvs) xs"
    using append_take_drop_id [of "length kvs" xs] puts_distinct [OF c kvs] by (simp add: xs_def)
  moreover have "map_of (rev kvs) k = Some v" using kvs(1) kv by (intro map_of_is_SomeI) (simp_all add: rev_map [symmetric])
  ultimately have "map_of xs k = Some v" by (metis map_add_find_right map_of_append map_add_Some_iff)
  then show ?thesis
    using get_law [of "puts kvs c" k] puts_invar [OF c] by (simp add: xs_def)
qed

end

interpretation lru: recency_cache lru_put lru_get lru_erase lru_ok entries capacity
  by unfold_locales (simp_all add: lru_put_refines lru_get_refines lru_erase_refines lru_okD(1))

text \<open>C21: The cache refines a list of entries by recency cut at the capacity.  From a new cache,
  every put, get, erase and clear keeps the map and the list in step, each key once, within the
  capacity; a put puts the entry in front and drops only what falls off the end, and a get returns
  the value the list holds and moves it to the front.\<close>

theorem lru_refines_recency_list:
  assumes "lru_ok c"
  shows "lru_ok (lru_put k v c) \<and> entries (lru_put k v c) = spec_put (capacity c) k v (entries c) \<and>
         fst (lru_get k c) = map_of (entries c) k \<and>
         lru_ok (snd (lru_get k c)) \<and> entries (snd (lru_get k c)) = spec_get k (entries c) \<and>
         lru_ok (snd (lru_erase k c)) \<and>
         entries (snd (lru_erase k c)) = filter (\<lambda>e. fst e \<noteq> k) (entries c) \<and>
         lru_ok (lru_clear c) \<and> entries (lru_clear c) = [] \<and>
         lru_size c = length (entries c) \<and> lru_size c \<le> capacity c \<and>
         (lru_contains k c \<longleftrightarrow> k \<in> fst ` set (entries c))"
proof -
  have "lru_contains k c \<longleftrightarrow> k \<in> fst ` set (entries c)"
    using entries_lookup [OF assms, of k] by (auto simp: lru_contains_def map_of_eq_None_iff)
  moreover have "lru_size c = length (entries c)" "lru_size c \<le> capacity c"
    using lru_okD(2,3) [OF assms] by (simp_all add: lru_size_def entries_def)
  ultimately show ?thesis
    using lru_put_refines [OF assms] lru_get_refines [OF assms] lru_erase_refines [OF assms]
      lru_clear_refines [OF assms] by simp
qed

definition sample_cache :: "(nat, nat) lru_cache" where
  "sample_cache = lru_put 2 20 (lru_put 1 10 (the (lru_create 2)))"

lemma sample_cache_ok: "lru_ok sample_cache"
proof -
  have "lru_create 2 = Some (the (lru_create 2) :: (nat, nat) lru_cache)" by (simp add: lru_create_def)
  from lru_create_refines [OF this] show ?thesis by (simp add: sample_cache_def lru_put_refines)
qed

theorem lru_refines_recency_list_witness:
  "entries sample_cache = [(2, 20), (1, 10)] \<and>
   entries (lru_put 3 30 (snd (lru_get 1 sample_cache))) = [(3, 30), (1, 10)]"
proof -
  note ok = sample_cache_ok
  have e: "entries sample_cache = [(2, 20), (1, 10)]" by code_simp
  have "capacity sample_cache = 2" by code_simp
  then show ?thesis
    using lru_refines_recency_list [OF ok, of 1 0 ]
      lru_refines_recency_list [of "snd (lru_get 1 sample_cache)" 3 30] lru_get_refines [OF ok, of 1]
    by (simp add: e spec_get_def spec_put_def)
qed

text \<open>After any run of puts of distinct keys no longer than the capacity, every one of them is
  found with its value: only older entries can have been evicted.\<close>

theorem lru_recent_keys_found:
  assumes "lru_ok c" and "distinct (map fst kvs)" and "length kvs \<le> capacity c" and "(k, v) \<in> set kvs"
  shows "fst (lru_get k (fold (\<lambda>(k, v). lru_put k v) kvs c)) = Some v"
  using lru.recent_key_found [OF assms] by (simp add: lru.puts_def)

theorem lru_recent_keys_found_witness:
  "fst (lru_get 7 (fold (\<lambda>(k, v). lru_put k v) [(7, 70), (8, 80)] sample_cache)) = Some 70"
proof -
  note ok = sample_cache_ok
  have "capacity sample_cache = 2" by code_simp
  then show ?thesis
    using lru_recent_keys_found [OF ok, of "[(7, 70), (8, 80)]" 7 70] by simp
qed

end
