(* ===== verification/String_Utils.thy ===== *)
theory String_Utils
  imports Luma_Prelude
begin

text \<open>
  The string helpers of \<^verbatim>\<open>core/common/string_utils.hpp\<close> and \<^verbatim>\<open>string_utils.cpp\<close>:
  classification, searching, splitting, trimming, the edit distance behind "did you mean" and the glob
  matcher.  \<^verbatim>\<open>std::string_view::npos\<close> is \<^verbatim>\<open>None\<close>; the character functions of
  \<^verbatim>\<open><cctype>\<close> are those of the C locale.  (\<^verbatim>\<open>repeat_string\<close> is with the VM's
  string repetition.)
\<close>

section \<open>Characters\<close>

definition code_in :: "char \<Rightarrow> char \<Rightarrow> char \<Rightarrow> bool" where
  "code_in lo hi c \<longleftrightarrow> (of_char lo :: nat) \<le> of_char c \<and> (of_char c :: nat) \<le> of_char hi"

definition c_tolower :: "char \<Rightarrow> char" where
  "c_tolower c = (if code_in CHR ''A'' CHR ''Z'' c then char_of (of_char c + 32 :: nat) else c)"

definition c_isupper :: "char \<Rightarrow> bool" where "c_isupper c = code_in CHR ''A'' CHR ''Z'' c"

definition c_isalpha :: "char \<Rightarrow> bool" where
  "c_isalpha c \<longleftrightarrow> code_in CHR ''A'' CHR ''Z'' c \<or> code_in CHR ''a'' CHR ''z'' c"

definition c_isdigit :: "char \<Rightarrow> bool" where "c_isdigit c = code_in CHR ''0'' CHR ''9'' c"

definition c_isspace :: "char \<Rightarrow> bool" where
  "c_isspace c \<longleftrightarrow> c = CHR '' '' \<or> code_in CHR 0x09 CHR 0x0D c"

definition is_ident :: "char \<Rightarrow> bool" where
  "is_ident c \<longleftrightarrow> c_isalpha c \<or> c_isdigit c \<or> c = CHR ''_''"

definition to_lower_copy :: "string \<Rightarrow> string" where
  "to_lower_copy sv = map c_tolower sv"

definition starts_with_uppercase :: "string \<Rightarrow> bool" where
  "starts_with_uppercase sv \<longleftrightarrow> sv \<noteq> [] \<and> c_isupper (hd sv)"

definition first_is_letter_or_digit :: "string \<Rightarrow> bool" where
  "first_is_letter_or_digit sv \<longleftrightarrow> sv \<noteq> [] \<and> (c_isalpha (hd sv) \<or> c_isdigit (hd sv))"

section \<open>Searching\<close>

text \<open>\<^verbatim>\<open>string_view::find\<close> of a character and of a non-empty string.\<close>

definition find_char :: "char \<Rightarrow> string \<Rightarrow> nat \<Rightarrow> nat option" where
  "find_char c s start =
     (let pos = start + length (takeWhile (\<lambda>x. x \<noteq> c) (drop start s))
      in if pos < length s then Some pos else None)"

definition occurs_at :: "string \<Rightarrow> string \<Rightarrow> nat \<Rightarrow> bool" where
  "occurs_at token s pos \<longleftrightarrow> take (length token) (drop pos s) = token"

definition find_string :: "string \<Rightarrow> string \<Rightarrow> nat \<Rightarrow> nat option" where
  "find_string token s start = find (occurs_at token s) [start..<length s + 1 - length token]"

definition case_insensitive_equal :: "string \<Rightarrow> string \<Rightarrow> bool" where
  "case_insensitive_equal a b \<longleftrightarrow>
     length a = length b \<and> list_all2 (\<lambda>x y. c_tolower x = c_tolower y) a b"

text \<open>\<^verbatim>\<open>std::ranges::search\<close> returns an empty range for an empty needle as well as for a
  failed search, and both are \<^verbatim>\<open>npos\<close> here.\<close>

definition case_insensitive_find :: "string \<Rightarrow> string \<Rightarrow> nat option" where
  "case_insensitive_find haystack needle =
     (if length haystack < length needle then None
      else if needle = [] then None
      else find (\<lambda>i. list_all2 (\<lambda>a b. c_tolower a = c_tolower b)
                       (take (length needle) (drop i haystack)) needle)
             [0..<length haystack + 1 - length needle])"

definition case_insensitive_contains :: "string \<Rightarrow> string \<Rightarrow> bool" where
  "case_insensitive_contains haystack needle \<longleftrightarrow> case_insensitive_find haystack needle \<noteq> None"

definition stands_alone :: "string \<Rightarrow> string \<Rightarrow> nat \<Rightarrow> bool" where
  "stands_alone haystack token pos =
     (let left_ok = (pos = 0 \<or> \<not> is_ident (haystack ! (pos - 1)));
          after = pos + length token;
          right_ok = (length haystack \<le> after \<or> \<not> is_ident (haystack ! after))
      in left_ok \<and> right_ok)"

lemma find_string_Some:
  "find_string token s start = Some pos \<Longrightarrow> start \<le> pos \<and> pos + length token < length s + 1"
  by (auto simp: find_string_def find_Some_iff)

function token_search :: "string \<Rightarrow> string \<Rightarrow> nat \<Rightarrow> bool" where
  "token_search haystack token start =
     (case find_string token haystack start of
        None \<Rightarrow> False
      | Some pos \<Rightarrow> stands_alone haystack token pos \<or> token_search haystack token (pos + 1))"
  by pat_completeness auto
termination
  by (relation "measure (\<lambda>(h, _, start). length h + 1 - start)") (auto dest!: find_string_Some)

declare token_search.simps [simp del]

definition contains_identifier_token :: "string \<Rightarrow> string \<Rightarrow> bool" where
  "contains_identifier_token haystack token =
     (if token = [] then False else token_search haystack token 0)"

section \<open>Splitting and trimming\<close>

lemma find_char_Some:
  "find_char c s start = Some pos \<Longrightarrow> start \<le> pos \<and> pos < length s"
  by (auto simp: find_char_def Let_def split: if_splits)

function split_from :: "string \<Rightarrow> char \<Rightarrow> (string \<Rightarrow> 's \<Rightarrow> 's) \<Rightarrow> nat \<Rightarrow> 's \<Rightarrow> 's" where
  "split_from str delimiter callback start s =
     (case find_char delimiter str start of
        None \<Rightarrow> callback (drop start str) s
      | Some pos \<Rightarrow>
          split_from str delimiter callback (pos + 1) (callback (take (pos - start) (drop start str)) s))"
  by pat_completeness auto
termination
  by (relation "measure (\<lambda>(str, _, _, start, _). length str - start)") (auto dest!: find_char_Some)

declare split_from.simps [simp del]

definition for_each_split :: "string \<Rightarrow> char \<Rightarrow> (string \<Rightarrow> 's \<Rightarrow> 's) \<Rightarrow> 's \<Rightarrow> 's" where
  "for_each_split str delimiter callback s = split_from str delimiter callback 0 s"

definition split_string :: "string \<Rightarrow> char \<Rightarrow> string list" where
  "split_string s delimiter = for_each_split s delimiter (\<lambda>segment parts. parts @ [segment]) []"

definition push_line :: "string \<Rightarrow> string list \<Rightarrow> string list" where
  "push_line line lines =
     lines @ [if line \<noteq> [] \<and> last line = CHR 0x0D then butlast line else line]"

function split_lines_from :: "string \<Rightarrow> nat \<Rightarrow> string list \<Rightarrow> string list" where
  "split_lines_from s start lines =
     (if length s < start then lines
      else case find_char CHR 0x0A s start of
             None \<Rightarrow> push_line (drop start s) lines
           | Some pos \<Rightarrow> split_lines_from s (pos + 1) (push_line (take (pos - start) (drop start s)) lines))"
  by pat_completeness auto
termination
  by (relation "measure (\<lambda>(s, start, _). length s + 1 - start)") (auto dest!: find_char_Some)

declare split_lines_from.simps [simp del]

definition split_lines :: "string \<Rightarrow> string list" where
  "split_lines s = split_lines_from s 0 []"

definition k_utf8_bom :: string where "k_utf8_bom = [CHR 0xEF, CHR 0xBB, CHR 0xBF]"

definition strip_utf8_bom :: "string \<Rightarrow> string" where
  "strip_utf8_bom s =
     (if length k_utf8_bom \<le> length s \<and> take (length k_utf8_bom) s = k_utf8_bom
      then drop (length k_utf8_bom) s else s)"

definition trim_view :: "string \<Rightarrow> string" where
  "trim_view sv = (let sv = dropWhile c_isspace sv in rev (dropWhile c_isspace (rev sv)))"

section \<open>Edit distance\<close>

text \<open>One cell of the current row, stored in place, with the running minimum of the row.\<close>

definition lev_cell :: "char \<Rightarrow> string \<Rightarrow> nat list \<Rightarrow> nat \<Rightarrow> nat list \<times> nat \<Rightarrow> nat list \<times> nat" where
  "lev_cell c b prev j = (\<lambda>(cur, row_min).
     let cost = (if c = b ! (j - 1) then 0 else 1);
         v = min (min (prev ! j + 1) (cur ! (j - 1) + 1)) (prev ! (j - 1) + cost)
     in (cur[j := v], min row_min v))"

text \<open>The rows, each computed into the buffer of the row before last.\<close>

fun lev_rows :: "nat option \<Rightarrow> string \<Rightarrow> string \<Rightarrow> nat list \<Rightarrow> nat list \<Rightarrow> nat list \<Rightarrow> nat" where
  "lev_rows max_dist a b [] prev cur = prev ! length b"
| "lev_rows max_dist a b (i # is) prev cur =
     (let (cur, row_min) = fold (lev_cell (a ! (i - 1)) b prev) [1..<length b + 1] (cur[0 := i], i)
      in case max_dist of
           None \<Rightarrow> lev_rows max_dist a b is cur prev
         | Some d \<Rightarrow> if d < row_min then d + 1 else lev_rows max_dist a b is cur prev)"

definition levenshtein_impl :: "string \<Rightarrow> string \<Rightarrow> nat option \<Rightarrow> nat" where
  "levenshtein_impl a b max_dist =
     (let m = length a; n = length b;
          rows = lev_rows max_dist a b [1..<m + 1] [0..<n + 1] (replicate (n + 1) 0)
      in case max_dist of
           None \<Rightarrow> rows
         | Some d \<Rightarrow> if (n < m \<and> d < m - n) \<or> (m < n \<and> d < n - m) then d + 1 else rows)"

definition levenshtein_distance :: "string \<Rightarrow> string \<Rightarrow> nat option \<Rightarrow> nat" where
  "levenshtein_distance a b max_distance = levenshtein_impl a b max_distance"

definition suggest_step :: "string \<Rightarrow> nat \<Rightarrow> string \<Rightarrow> string \<times> nat \<Rightarrow> string \<times> nat" where
  "suggest_step needle max_dist candidate = (\<lambda>(best, best_dist).
     if candidate = needle then (best, best_dist)
     else let d = levenshtein_distance needle candidate (Some max_dist)
          in if d < best_dist then (candidate, d) else (best, best_dist))"

definition suggest_threshold :: "string \<Rightarrow> nat" where
  "suggest_threshold needle = (if length needle \<le> 4 then 1 else 2)"

definition suggest_name :: "string list \<Rightarrow> string \<Rightarrow> string" where
  "suggest_name candidates needle =
     (let max_dist = suggest_threshold needle;
          (best, best_dist) = fold (suggest_step needle max_dist) candidates ([], max_dist + 1)
      in if best_dist \<le> max_dist then ''did you mean '' @ [CHR 0x27] @ best @ [CHR 0x27] @ ''?'' else [])"

section \<open>Glob patterns\<close>

text \<open>The loop over the text; the positions are \<^verbatim>\<open>pi\<close>, \<^verbatim>\<open>ti\<close>,
  \<^verbatim>\<open>star_p\<close>, \<^verbatim>\<open>star_t\<close>.  The value is the position in the pattern when the
  text is used up, \<^verbatim>\<open>None\<close> on a mismatch.\<close>

function glob_loop :: "string \<Rightarrow> string \<Rightarrow> nat \<Rightarrow> nat \<Rightarrow> nat option \<Rightarrow> nat \<Rightarrow> nat option" where
  "glob_loop pattern s pi ti star_p star_t =
     (if ti < length s then
        if pi < length pattern \<and> (pattern ! pi = CHR ''?'' \<or> pattern ! pi = s ! ti)
        then glob_loop pattern s (pi + 1) (ti + 1) star_p star_t
        else if pi < length pattern \<and> pattern ! pi = CHR ''*''
        then glob_loop pattern s (pi + 1) ti (Some pi) ti
        else case star_p of
               Some sp \<Rightarrow> glob_loop pattern s (sp + 1) (star_t + 1) star_p (star_t + 1)
             | None \<Rightarrow> None
      else Some pi)"
  by pat_completeness auto
termination
proof (relation "measures [\<lambda>(p, s, pi, ti, sp, st). case sp of Some k \<Rightarrow> if pi \<le> k then 1 else 0 | None \<Rightarrow> 0,
    \<lambda>(p, s, pi, ti, sp, st). length p - (case sp of Some k \<Rightarrow> k + 1 | None \<Rightarrow> 0),
    \<lambda>(p, s, pi, ti, sp, st). length s - st, \<lambda>(p, s, pi, ti, sp, st). length s - ti]")
qed (auto split: option.splits if_splits)

declare glob_loop.simps [simp del]

definition glob_match :: "string \<Rightarrow> string \<Rightarrow> bool" where
  "glob_match pattern s =
     (case glob_loop pattern s 0 0 None 0 of
        None \<Rightarrow> False
      | Some pi \<Rightarrow> dropWhile (\<lambda>c. c = CHR ''*'') (drop pi pattern) = [])"

end
