(* ===== verification/String_Utils_Props.thy ===== *)
theory String_Utils_Props
  imports String_Utils
begin

text \<open>
  What the string helpers compute: the edit distance is the least number of single-character edits, the
  glob matcher agrees with the meaning of the pattern, splitting is undone by joining, and the token search
  finds exactly the standalone occurrences.
\<close>

section \<open>Edits\<close>

inductive one_edit :: "'a list \<Rightarrow> 'a list \<Rightarrow> bool" where
  insert_edit: "one_edit xs (x # xs)"
| delete_edit: "one_edit (x # xs) xs"
| replace_edit: "one_edit (x # xs) (y # xs)"
| later_edit: "one_edit xs ys \<Longrightarrow> one_edit (x # xs) (x # ys)"

text \<open>The recurrence behind the table.\<close>

fun edit_dist :: "'a list \<Rightarrow> 'a list \<Rightarrow> nat" where
  "edit_dist [] ys = length ys"
| "edit_dist xs [] = length xs"
| "edit_dist (x # xs) (y # ys) =
     min (min (edit_dist xs (y # ys) + 1) (edit_dist (x # xs) ys + 1))
         (edit_dist xs ys + (if x = y then 0 else 1))"

lemma edit_dist_Nil [simp]: "edit_dist xs [] = length xs"
  by (cases xs) simp_all

lemma edit_dist_same [simp]: "edit_dist xs xs = 0"
  by (induction xs) simp_all

lemma later_edits: "(one_edit ^^ n) xs ys \<Longrightarrow> (one_edit ^^ n) (x # xs) (x # ys)"
  by (induction n arbitrary: ys) (auto intro: later_edit)

lemma append_edits:
  "one_edit xs ys \<Longrightarrow> (one_edit ^^ n) ys zs \<Longrightarrow> (one_edit ^^ Suc n) xs zs"
  by (rule relpowp_Suc_I2)

lemma edits_to_Nil: "(one_edit ^^ length xs) xs []"
proof (induction xs)
  case (Cons x xs)
  from append_edits [OF delete_edit this, of x] show ?case by simp
qed simp

lemma edits_from_Nil: "(one_edit ^^ length xs) [] xs"
  by (induction xs) (auto intro: insert_edit)

lemma edit_dist_reached: "(one_edit ^^ edit_dist xs ys) xs ys"
proof (induction xs ys rule: edit_dist.induct)
  case (2 x xs)
  then show ?case using edits_to_Nil [of "x # xs"] by simp
next
  case (3 x xs y ys)
  let ?del = "edit_dist xs (y # ys) + 1" and ?ins = "edit_dist (x # xs) ys + 1"
  let ?sub = "edit_dist xs ys + (if x = y then 0 else 1)"
  have "(one_edit ^^ ?del) (x # xs) (y # ys)" using append_edits [OF delete_edit 3(1), of x] by simp
  moreover have "(one_edit ^^ ?ins) (x # xs) (y # ys)"
    using 3(2) by (auto intro: insert_edit)
  moreover have "(one_edit ^^ ?sub) (x # xs) (y # ys)"
    using later_edits [OF 3(3), of y] append_edits [OF replace_edit later_edits [OF 3(3), of y], of x]
    by (cases "x = y") simp_all
  ultimately show ?case by (simp only: edit_dist.simps min_def split: if_split) blast
qed (simp add: edits_from_Nil)

lemma edit_dist_longer: "edit_dist (x # xs) ys \<le> edit_dist xs ys + 1" "edit_dist xs (y # ys) \<le> edit_dist xs ys + 1"
  by (cases ys; simp) (cases xs; simp)

lemma edit_dist_shorter: "edit_dist xs ys \<le> edit_dist (x # xs) ys + 1"
proof (induction ys)
  case (Cons y ys)
  then show ?case using edit_dist_longer(2) [of xs y ys] by simp
qed simp

lemma edit_dist_one_edit: "one_edit xs ys \<Longrightarrow> edit_dist xs zs \<le> edit_dist ys zs + 1"
proof (induction arbitrary: zs rule: one_edit.induct)
  case (insert_edit xs x)
  show ?case by (rule edit_dist_shorter)
next
  case (delete_edit x xs)
  show ?case by (rule edit_dist_longer)
next
  case (replace_edit x xs y)
  show ?case by (induction zs) auto
next
  case (later_edit xs ys x)
  show ?case
  proof (induction zs)
    case Nil
    then show ?case using later_edit.IH [of "[]"] by simp
  next
    case (Cons z zs)
    then show ?case using later_edit.IH [of "z # zs"] later_edit.IH [of zs] by simp
  qed
qed

lemma edit_dist_least: "(one_edit ^^ n) xs ys \<Longrightarrow> edit_dist xs ys \<le> n"
proof (induction n arbitrary: xs)
  case (Suc n)
  from Suc.prems obtain zs where "one_edit xs zs" "(one_edit ^^ n) zs ys" by (rule relpowp_Suc_E2)
  with Suc.IH [of zs] edit_dist_one_edit [of xs zs ys] show ?case by simp
qed simp

lemma one_edit_append: "one_edit xs ys \<Longrightarrow> one_edit (us @ xs @ vs) (us @ ys @ vs)"
proof (induction us)
  case Nil
  then show ?case by (simp, induction rule: one_edit.induct) (auto intro: one_edit.intros)
qed (auto intro: later_edit)

lemma one_edit_rev: "one_edit xs ys \<Longrightarrow> one_edit (rev xs) (rev ys)"
proof (induction rule: one_edit.induct)
  case (insert_edit xs x)
  show ?case using one_edit_append [OF one_edit.insert_edit [of "[]" x], of "rev xs" "[]"] by simp
next
  case (delete_edit x xs)
  show ?case using one_edit_append [OF one_edit.delete_edit [of x "[]"], of "rev xs" "[]"] by simp
next
  case (replace_edit x xs y)
  show ?case using one_edit_append [OF one_edit.replace_edit [of x "[]" y], of "rev xs" "[]"] by simp
next
  case (later_edit xs ys x)
  then show ?case using one_edit_append [of "rev xs" "rev ys" "[]" "[x]"] by simp
qed

lemma edits_rev: "(one_edit ^^ n) xs ys \<Longrightarrow> (one_edit ^^ n) (rev xs) (rev ys)"
  by (induction n arbitrary: ys) (auto intro: one_edit_rev)

lemma edit_dist_rev: "edit_dist (rev xs) (rev ys) = edit_dist xs ys"
  using edit_dist_least [OF edits_rev [OF edit_dist_reached [of xs ys]]]
    edit_dist_least [OF edits_rev [OF edit_dist_reached [of "rev xs" "rev ys"]]] by simp

lemma edit_dist_length: "length xs \<le> length ys + edit_dist xs ys" "length ys \<le> length xs + edit_dist xs ys"
  by (induction xs ys rule: edit_dist.induct) auto

section \<open>The table\<close>

text \<open>The entry of the table for the first \<^verbatim>\<open>i\<close> and \<^verbatim>\<open>j\<close> characters.\<close>

definition table :: "'a list \<Rightarrow> 'a list \<Rightarrow> nat \<Rightarrow> nat \<Rightarrow> nat" where
  "table a b i j = edit_dist (rev (take i a)) (rev (take j b))"

lemma table_corner: "table a b (length a) (length b) = edit_dist a b"
  by (simp add: table_def edit_dist_rev)

lemma table_edges: "j \<le> length b \<Longrightarrow> table a b 0 j = j" "i \<le> length a \<Longrightarrow> table a b i 0 = i"
  by (simp_all add: table_def)

lemma table_step:
  assumes "i < length a" and "j < length b"
  shows "table a b (Suc i) (Suc j) =
    min (min (table a b i (Suc j) + 1) (table a b (Suc i) j + 1))
        (table a b i j + (if a ! i = b ! j then 0 else 1))"
  using assms by (simp add: table_def take_Suc_conv_app_nth)

lemma min_of_three: "min (min a b) c \<in> {a, b, c :: nat}"
  by (simp add: min_def)

text \<open>Every entry is at least some entry of any earlier row.\<close>

lemma earlier_row: "\<exists>k \<le> length ys. edit_dist xs (drop k ys) \<le> edit_dist (us @ xs) ys"
proof (induction us arbitrary: ys)
  case (Cons u us)
  have "\<exists>k \<le> length ys. edit_dist (us @ xs) (drop k ys) \<le> edit_dist (u # us @ xs) ys"
  proof (induction ys)
    case (Cons y ys)
    then obtain k where k: "k \<le> length ys" "edit_dist (us @ xs) (drop k ys) \<le> edit_dist (u # us @ xs) ys" by blast
    consider "edit_dist (us @ xs) (y # ys) \<le> edit_dist (u # us @ xs) (y # ys)"
      | "edit_dist (u # us @ xs) ys \<le> edit_dist (u # us @ xs) (y # ys)"
      | "edit_dist (us @ xs) ys \<le> edit_dist (u # us @ xs) (y # ys)"
      using min_of_three [of "edit_dist (us @ xs) (y # ys) + 1" "edit_dist (u # us @ xs) ys + 1"
          "edit_dist (us @ xs) ys + (if u = y then 0 else 1)"]
      unfolding edit_dist.simps(3) by fastforce
    then show ?case
    proof cases
      case 1
      then show ?thesis by (intro exI [of _ 0]) simp
    next
      case 2
      with k show ?thesis by (intro exI [of _ "Suc k"]) simp
    next
      case 3
      then show ?thesis by (intro exI [of _ 1]) simp
    qed
  qed simp
  then obtain k where k: "k \<le> length ys" "edit_dist (us @ xs) (drop k ys) \<le> edit_dist ((u # us) @ xs) ys" by auto
  with Cons.IH [of "drop k ys"] obtain l where
    "l \<le> length (drop k ys)" "edit_dist xs (drop l (drop k ys)) \<le> edit_dist (us @ xs) (drop k ys)" by blast
  with k show ?case by (intro exI [of _ "l + k"]) auto
qed (intro exI [of _ 0], simp)

lemma table_earlier_row:
  assumes "i \<le> length a"
  shows "\<exists>j \<le> length b. table a b i j \<le> edit_dist a b"
proof -
  obtain k where "k \<le> length (rev b)"
    "edit_dist (rev (take i a)) (drop k (rev b)) \<le> edit_dist (rev (drop i a) @ rev (take i a)) (rev b)"
    using earlier_row by blast
  then have "table a b i (length b - k) \<le> edit_dist a b"
    by (simp add: table_def drop_rev edit_dist_rev flip: rev_append)
  then show ?thesis by (intro exI [of _ "length b - k"]) simp
qed

text \<open>The inner loop fills the current row from the previous one.\<close>

definition row :: "'a list \<Rightarrow> 'a list \<Rightarrow> nat \<Rightarrow> nat list" where
  "row a b i = map (table a b i) [0..<length b + 1]"

lemma row_nth: "j \<le> length b \<Longrightarrow> row a b i ! j = table a b i j"
  by (simp add: row_def del: upt_Suc)

lemma lev_inner:
  assumes i: "i < length a" and cur: "length cur = length b + 1" and j: "j \<le> length b"
  shows "\<exists>cur' m. fold (lev_cell (a ! i) b (row a b i)) [1..<j + 1] (cur[0 := Suc i], Suc i) = (cur', m) \<and>
           length cur' = length b + 1 \<and> (\<forall>k \<le> j. cur' ! k = table a b (Suc i) k) \<and>
           (\<forall>k \<le> j. m \<le> table a b (Suc i) k)"
  using j
proof (induction j)
  case 0
  then show ?case using i cur by (simp add: table_edges)
next
  case (Suc j)
  then obtain cur' m where IH: "fold (lev_cell (a ! i) b (row a b i)) [1..<j + 1] (cur[0 := Suc i], Suc i) = (cur', m)"
    "length cur' = length b + 1" "\<forall>k \<le> j. cur' ! k = table a b (Suc i) k" "\<forall>k \<le> j. m \<le> table a b (Suc i) k"
    by auto
  let ?v = "table a b (Suc i) (Suc j)"
  have "[1..<Suc j + 1] = [1..<j + 1] @ [Suc j]" by simp
  then have "fold (lev_cell (a ! i) b (row a b i)) [1..<Suc j + 1] (cur[0 := Suc i], Suc i) =
      lev_cell (a ! i) b (row a b i) (Suc j) (cur', m)" using IH(1) by (simp del: upt_Suc)
  also have "\<dots> = (cur'[Suc j := ?v], min m ?v)"
    using table_step [OF i, of j b] Suc.prems IH(3) by (simp add: lev_cell_def Let_def row_nth)
  finally show ?case
    using IH Suc.prems by (intro exI [of _ "cur'[Suc j := ?v]"] exI [of _ "min m ?v"])
      (auto simp: le_Suc_eq nth_list_update min_le_iff_disj)
qed

lemma lev_row:
  assumes "i < length a" and "length cur = length b + 1"
  shows "\<exists>m. fold (lev_cell (a ! i) b (row a b i)) [1..<length b + 1] (cur[0 := Suc i], Suc i) = (row a b (Suc i), m) \<and>
           (\<forall>k \<le> length b. m \<le> table a b (Suc i) k)"
proof -
  obtain cur' m where c: "fold (lev_cell (a ! i) b (row a b i)) [1..<length b + 1] (cur[0 := Suc i], Suc i) = (cur', m)"
    "length cur' = length b + 1" "\<forall>k \<le> length b. cur' ! k = table a b (Suc i) k"
    "\<forall>k \<le> length b. m \<le> table a b (Suc i) k" using lev_inner [OF assms, of "length b"] by auto
  have "cur' = row a b (Suc i)"
    using c(2,3) by (intro nth_equalityI) (simp_all add: row_def del: upt_Suc)
  with c(1,4) show ?thesis by blast
qed

lemma lev_rows_dist:
  assumes "i \<le> length a" and "length cur = length b + 1"
  shows "lev_rows max_dist a b [i + 1..<length a + 1] (row a b i) cur = edit_dist a b \<or>
         (\<exists>d. max_dist = Some d \<and> d < edit_dist a b \<and>
              lev_rows max_dist a b [i + 1..<length a + 1] (row a b i) cur = d + 1)"
  using assms
proof (induction "length a - i" arbitrary: i cur)
  case 0
  then show ?case using table_corner [of a b] by (simp add: row_nth)
next
  case (Suc n)
  then have i: "i < length a" by simp
  then have upt: "[i + 1..<length a + 1] = Suc i # [Suc i + 1..<length a + 1]" by (simp add: upt_conv_Cons)
  obtain m where m: "fold (lev_cell (a ! i) b (row a b i)) [1..<length b + 1] (cur[0 := Suc i], Suc i) = (row a b (Suc i), m)"
    "\<forall>k \<le> length b. m \<le> table a b (Suc i) k" using lev_row [OF i Suc.prems(2)] by blast
  have rest: "lev_rows max_dist a b [Suc i + 1..<length a + 1] (row a b (Suc i)) (row a b i) = edit_dist a b \<or>
      (\<exists>d. max_dist = Some d \<and> d < edit_dist a b \<and>
         lev_rows max_dist a b [Suc i + 1..<length a + 1] (row a b (Suc i)) (row a b i) = d + 1)"
    using Suc by (intro Suc.hyps) (simp_all add: row_def)
  obtain j where "j \<le> length b" "table a b (Suc i) j \<le> edit_dist a b"
    using table_earlier_row [of "Suc i" a b] i by auto
  then have "m \<le> edit_dist a b" using m(2) le_trans by blast
  with rest m(1) show ?case unfolding upt by (cases max_dist) (auto simp del: upt_Suc)
qed

lemma levenshtein_dist:
  "levenshtein_distance a b max_dist = edit_dist a b \<or>
   (\<exists>d. max_dist = Some d \<and> d < edit_dist a b \<and> levenshtein_distance a b max_dist = d + 1)"
proof -
  have "row a b 0 = [0..<length b + 1]"
    by (intro nth_equalityI) (simp_all add: row_def table_edges del: upt_Suc)
  then have rows: "lev_rows max_dist a b [1..<length a + 1] [0..<length b + 1] (replicate (length b + 1) 0) = edit_dist a b \<or>
      (\<exists>d. max_dist = Some d \<and> d < edit_dist a b \<and>
         lev_rows max_dist a b [1..<length a + 1] [0..<length b + 1] (replicate (length b + 1) 0) = d + 1)"
    using lev_rows_dist [of 0 a "replicate (length b + 1) 0" b max_dist] by (simp del: upt_Suc replicate_Suc)
  show ?thesis
  proof (cases max_dist)
    case None
    with rows show ?thesis by (simp add: levenshtein_distance_def levenshtein_impl_def Let_def del: upt_Suc)
  next
    case (Some d)
    have "d < edit_dist a b" if "length b < length a \<and> d < length a - length b \<or> length a < length b \<and> d < length b - length a"
      using that edit_dist_length(1) [of a b] edit_dist_length(2) [of b a] by linarith
    with rows Some show ?thesis
      by (auto simp: levenshtein_distance_def levenshtein_impl_def Let_def simp del: upt_Suc replicate_Suc)
  qed
qed

text \<open>C22: Without a bound, the distance is the least number of insertions, deletions and replacements of
  one character that turn the one string into the other.  With a bound, a distance within the bound is
  exact and a larger one is reported as larger than the bound.\<close>

theorem levenshtein_is_least_edits:
  "(one_edit ^^ levenshtein_distance a b None) a b \<and>
   (\<forall>n < levenshtein_distance a b None. \<not> (one_edit ^^ n) a b) \<and>
   (if levenshtein_distance a b None \<le> d
    then levenshtein_distance a b (Some d) = levenshtein_distance a b None
    else d < levenshtein_distance a b (Some d))"
proof -
  have "\<forall>n < edit_dist a b. \<not> (one_edit ^^ n) a b" by (meson edit_dist_least not_le)
  then show ?thesis
    using levenshtein_dist [of a b None] levenshtein_dist [of a b "Some d"] edit_dist_reached [of a b] by auto
qed

theorem levenshtein_is_least_edits_witness:
  "levenshtein_distance ''kitten'' ''sitting'' None = 3 \<and> \<not> (one_edit ^^ 2) ''kitten'' ''sitting'' \<and>
   2 < levenshtein_distance ''kitten'' ''sitting'' (Some 2)"
proof -
  have d: "levenshtein_distance ''kitten'' ''sitting'' None = 3" by code_simp
  note t = levenshtein_is_least_edits [of "''kitten''" "''sitting''" 2, unfolded d]
  from t have "\<not> (one_edit ^^ 2) ''kitten'' ''sitting''" by (metis lessI eval_nat_numeral(2,3) semiring_norm(26,27))
  moreover from t have "2 < levenshtein_distance ''kitten'' ''sitting'' (Some 2)" by simp
  ultimately show ?thesis using d by blast
qed

text \<open>A larger distance is not always reported as \<^verbatim>\<open>max_distance + 1\<close>: the last row may have a
  small entry before its end.\<close>

lemma levenshtein_over_the_bound: "levenshtein_distance ''12ab'' ''ab34'' (Some 2) = 4"
  by code_simp

section \<open>Glob patterns\<close>

text \<open>What a pattern means: an asterisk stands for any sequence, a question mark for any character.\<close>

fun glob :: "string \<Rightarrow> string \<Rightarrow> bool" where
  "glob [] t = (t = [])"
| "glob (c # p) t =
     (if c = CHR ''*'' then glob p t \<or> (case t of [] \<Rightarrow> False | _ # t' \<Rightarrow> glob (c # p) t')
      else case t of [] \<Rightarrow> False | x # t' \<Rightarrow> (c = CHR ''?'' \<or> c = x) \<and> glob p t')"

lemma glob_star: "glob (CHR ''*'' # p) t \<longleftrightarrow> (\<exists>k \<le> length t. glob p (drop k t))"
proof (induction t)
  case (Cons x t)
  have "(\<exists>k \<le> length (x # t). glob p (drop k (x # t))) \<longleftrightarrow> glob p (x # t) \<or> (\<exists>k \<le> length t. glob p (drop k t))"
    by (metis Suc_le_mono drop0 drop_Suc_Cons le0 length_Cons not0_implies_Suc)
  with Cons show ?case by simp
qed simp

lemma glob_char: "c \<noteq> CHR ''*'' \<Longrightarrow>
  glob (c # p) t \<longleftrightarrow> t \<noteq> [] \<and> (c = CHR ''?'' \<or> c = hd t) \<and> glob p (tl t)"
  by (cases t) auto

declare glob.simps(2) [simp del]

lemma glob_append: "glob p s \<Longrightarrow> glob q t \<Longrightarrow> glob (p @ q) (s @ t)"
proof (induction p arbitrary: s)
  case (Cons c p)
  show ?case
  proof (cases "c = CHR ''*''")
    case True
    with Cons.prems(1) obtain k where "k \<le> length s" "glob p (drop k s)" by (auto simp: glob_star)
    then have "glob (p @ q) (drop k (s @ t))" using Cons.IH Cons.prems(2) by simp
    with \<open>k \<le> length s\<close> show ?thesis using True by (auto simp: glob_star intro!: exI [of _ k])
  next
    case False
    with Cons show ?thesis by (auto simp: glob_char neq_Nil_conv)
  qed
qed simp

lemma glob_one: "c = CHR ''?'' \<or> c = x \<Longrightarrow> glob [c] [x]"
  by (auto simp: glob.simps(2))

lemma glob_stars: "(\<forall>c \<in> set p. c = CHR ''*'') \<longleftrightarrow> glob p []"
  by (induction p) (auto simp: glob.simps(2))

text \<open>A pattern without asterisks takes exactly its length.\<close>

lemma glob_plain: "CHR ''*'' \<notin> set q \<Longrightarrow>
  glob (q @ p) t \<longleftrightarrow> length q \<le> length t \<and> glob q (take (length q) t) \<and> glob p (drop (length q) t)"
proof (induction q arbitrary: t)
  case (Cons c q)
  then have c: "c \<noteq> CHR ''*''" and IH: "\<And>t. glob (q @ p) t \<longleftrightarrow>
      length q \<le> length t \<and> glob q (take (length q) t) \<and> glob p (drop (length q) t)" by auto
  show ?case
  proof (cases t)
    case (Cons x t')
    show ?thesis unfolding Cons append_Cons glob_char [OF c] IH list.sel
      using glob_char [OF c, of q "take (length (c # q)) (x # t')"] by auto
  qed (simp add: glob_char [OF c])
qed simp

definition accepted :: "string \<Rightarrow> nat option \<Rightarrow> bool" where
  "accepted p r \<longleftrightarrow> (case r of None \<Rightarrow> False | Some pi \<Rightarrow> glob (drop pi p) [])"

lemma glob_match_accepted: "glob_match p t = accepted p (glob_loop p t 0 0 None 0)"
  by (simp add: glob_match_def accepted_def glob_stars split: option.split)

text \<open>The loop never accepts wrongly: the pattern and the text read so far match, and the pattern up to the
  last asterisk matches the text up to any later point.\<close>

lemma glob_loop_sound:
  assumes "accepted p (glob_loop p t pi ti star_p star_t)" and "glob (take pi p) (take ti t)"
    and "\<forall>sp. star_p = Some sp \<longrightarrow> (\<forall>k \<ge> star_t. glob (take (sp + 1) p) (take k t))"
  shows "glob p t"
  using assms
proof (induction p t pi ti star_p star_t rule: glob_loop.induct)
  case (1 p t pi ti star_p star_t)
  note loop = glob_loop.simps [of p t pi ti star_p star_t]
  consider (over) "\<not> ti < length t"
    | (char) "ti < length t" "pi < length p \<and> (p ! pi = CHR ''?'' \<or> p ! pi = t ! ti)"
    | (star) "ti < length t" "\<not> (pi < length p \<and> (p ! pi = CHR ''?'' \<or> p ! pi = t ! ti))"
        "pi < length p \<and> p ! pi = CHR ''*''"
    | (retry) "ti < length t" "\<not> (pi < length p \<and> (p ! pi = CHR ''?'' \<or> p ! pi = t ! ti))"
        "\<not> (pi < length p \<and> p ! pi = CHR ''*'')" by blast
  then show ?case
  proof cases
    case over
    with 1(4) loop have "glob (drop pi p) []" by (simp add: accepted_def)
    with glob_append [OF 1(5) this] over show ?thesis by simp
  next
    case char
    have "glob (take (pi + 1) p) (take (ti + 1) t)"
      using glob_append [OF 1(5) glob_one [of "p ! pi" "t ! ti"]] char by (simp add: take_Suc_conv_app_nth)
    with 1(1) [OF char] 1(4,6) loop char show ?thesis by simp
  next
    case star
    have "glob (take (pi + 1) p) (take k t)" if "ti \<le> k" for k
    proof -
      have "take k t = take ti t @ drop ti (take k t)"
        using that append_take_drop_id [of ti "take k t"] by (simp add: min_def)
      moreover have "glob [CHR ''*''] (drop ti (take k t))"
        unfolding glob_star by (intro exI [of _ "length (drop ti (take k t))"]) simp
      ultimately show ?thesis
        using glob_append [OF 1(5)] star by (metis Suc_eq_plus1 take_Suc_conv_app_nth)
    qed
    with 1(2) [OF star] 1(4) loop star show ?thesis by simp
  next
    case retry
    with 1(4) loop obtain sp where sp: "star_p = Some sp" by (cases star_p) (auto simp: accepted_def)
    with 1(3) [OF retry sp] 1(4,6) loop retry show ?thesis by simp
  qed
qed

text \<open>Nor does it reject wrongly, as long as the text has no asterisk, which the loop would take literally
  before giving it its meaning.  It looks for the rest of the pattern after the last asterisk at every
  later place of the text, and what it has read there since is plain.\<close>

lemma glob_mismatch:
  assumes "ti < length t" and "\<not> (pi < length p \<and> (p ! pi = CHR ''?'' \<or> p ! pi = t ! ti))"
    and "\<not> (pi < length p \<and> p ! pi = CHR ''*'')"
  shows "\<not> glob (drop pi p) (drop ti t)"
proof (cases "pi < length p")
  case True
  then have "drop pi p = p ! pi # drop (Suc pi) p" "hd (drop ti t) = t ! ti"
    using assms(1) by (simp_all add: Cons_nth_drop_Suc hd_drop_conv_nth)
  with assms True show ?thesis by (simp add: glob_char)
qed (use assms(1) in simp)

definition ahead :: "string \<Rightarrow> string \<Rightarrow> nat \<Rightarrow> nat \<Rightarrow> nat option \<Rightarrow> nat \<Rightarrow> bool" where
  "ahead p t pi ti star_p star_t \<longleftrightarrow>
     (case star_p of
        None \<Rightarrow> glob (drop pi p) (drop ti t)
      | Some sp \<Rightarrow> sp < pi \<and> pi \<le> length p \<and> star_t \<le> ti \<and> pi - (sp + 1) = ti - star_t \<and>
          CHR ''*'' \<notin> set (take (pi - (sp + 1)) (drop (sp + 1) p)) \<and>
          (\<exists>k. star_t \<le> k \<and> k \<le> length t \<and> glob (drop (sp + 1) p) (drop k t)))"

lemma ahead_plain:
  assumes "ahead p t pi ti (Some sp) star_t" and "star_t \<le> k" and "k \<le> length t"
    and "glob (drop (sp + 1) p) (drop k t)"
  shows "k + (ti - star_t) \<le> length t \<and> glob (drop pi p) (drop (k + (ti - star_t)) t)"
proof -
  let ?q = "take (pi - (sp + 1)) (drop (sp + 1) p)"
  have s: "sp < pi" "pi \<le> length p" "pi - (sp + 1) = ti - star_t" "CHR ''*'' \<notin> set ?q"
    using assms(1) unfolding ahead_def option.case by blast+
  have "drop (pi - (sp + 1)) (drop (sp + 1) p) = drop pi p" using s(1) by simp
  then have "drop (sp + 1) p = ?q @ drop pi p" "length ?q = ti - star_t"
    using append_take_drop_id [of "pi - (sp + 1)" "drop (sp + 1) p"] s(1-3) by (simp_all only: length_take length_drop)
  with assms(3,4) glob_plain [OF s(4), of "drop pi p" "drop k t"]
  have "ti - star_t \<le> length t - k" "glob (drop pi p) (drop (k + (ti - star_t)) t)"
    by (simp_all add: add.commute)
  with assms(3) show ?thesis by linarith
qed

lemma glob_loop_complete:
  assumes "CHR ''*'' \<notin> set t" and "ti \<le> length t" and "ahead p t pi ti star_p star_t"
  shows "accepted p (glob_loop p t pi ti star_p star_t)"
  using assms
proof (induction p t pi ti star_p star_t rule: glob_loop.induct)
  case (1 p t pi ti star_p star_t)
  note loop = glob_loop.simps [of p t pi ti star_p star_t]
  have "ti = length t \<or> ti < length t" using 1(5) by linarith
  then consider (over) "ti = length t"
    | (char) "ti < length t" "pi < length p \<and> (p ! pi = CHR ''?'' \<or> p ! pi = t ! ti)"
    | (star) "ti < length t" "\<not> (pi < length p \<and> (p ! pi = CHR ''?'' \<or> p ! pi = t ! ti))"
        "pi < length p \<and> p ! pi = CHR ''*''"
    | (retry) "ti < length t" "\<not> (pi < length p \<and> (p ! pi = CHR ''?'' \<or> p ! pi = t ! ti))"
        "\<not> (pi < length p \<and> p ! pi = CHR ''*'')" by blast
  then show ?case
  proof cases
    case over
    have "glob (drop pi p) []"
    proof (cases star_p)
      case None
      with 1(6) over show ?thesis by (simp add: ahead_def)
    next
      case (Some sp)
      then obtain k where k: "star_t \<le> k" "k \<le> length t" "glob (drop (sp + 1) p) (drop k t)"
        using 1(6) by (auto simp: ahead_def)
      with ahead_plain [OF 1(6) [unfolded Some] k] over Some 1(6) show ?thesis by (simp add: ahead_def)
    qed
    with over loop show ?thesis by (simp add: accepted_def)
  next
    case char
    have "t ! ti \<noteq> CHR ''*''" 
      using 1(4) nth_mem [OF char(1)] by force
    then have plain: "p ! pi \<noteq> CHR ''*''" using char(2) by auto
    have "ahead p t (pi + 1) (ti + 1) star_p star_t"
    proof (cases star_p)
      case None
      have "drop pi p = p ! pi # drop (pi + 1) p" "drop ti t = t ! ti # drop (ti + 1) t"
        using char by (simp_all add: Cons_nth_drop_Suc)
      with None 1(6) plain show ?thesis by (simp add: ahead_def glob_char)
    next
      case (Some sp)
      with 1(6) have "ahead p t pi ti (Some sp) star_t" by simp
      then have s: "sp < pi" "star_t \<le> ti" "pi - (sp + 1) = ti - star_t"
        "CHR ''*'' \<notin> set (take (pi - (sp + 1)) (drop (sp + 1) p))"
        unfolding ahead_def option.case by blast+
      let ?q = "take (pi - (sp + 1)) (drop (sp + 1) p)"
      have d: "pi + 1 - (sp + 1) = Suc (pi - (sp + 1))" "Suc (pi - (sp + 1)) = ti + 1 - star_t" using s(1-3) by auto
      have "take (pi + 1 - (sp + 1)) (drop (sp + 1) p) = ?q @ [p ! pi]"
        unfolding d(1) using s(1) conjunct1 [OF char(2)] by (subst take_Suc_conv_app_nth) simp_all
      then have "CHR ''*'' \<notin> set (take (pi + 1 - (sp + 1)) (drop (sp + 1) p))" using s(4) plain by simp
      moreover have "\<exists>k. star_t \<le> k \<and> k \<le> length t \<and> glob (drop (sp + 1) p) (drop k t)"
        using 1(6) Some by (simp add: ahead_def)
      ultimately show ?thesis
        using s(1,2) d char(2) unfolding ahead_def Some option.case by (intro conjI; simp)
    qed
    with 1(1) [OF char] 1(4) char loop show ?thesis by simp
  next
    case star
    have split: "drop pi p = CHR ''*'' # drop (pi + 1) p" using star(3) by (metis Cons_nth_drop_Suc Suc_eq_plus1)
    have "\<exists>k. ti \<le> k \<and> k \<le> length t \<and> glob (drop pi p) (drop k t)"
    proof (cases star_p)
      case None
      with 1(5,6) show ?thesis by (auto simp: ahead_def)
    next
      case (Some sp)
      then obtain k where k: "star_t \<le> k" "k \<le> length t" "glob (drop (sp + 1) p) (drop k t)"
        using 1(6) by (auto simp: ahead_def)
      with ahead_plain [OF 1(6) [unfolded Some] k] 1(6) Some show ?thesis
        by (intro exI [of _ "k + (ti - star_t)"]) (auto simp: ahead_def)
    qed
    then obtain k l where "ti \<le> k" "k \<le> length t" "l \<le> length t - k" "glob (drop (pi + 1) p) (drop l (drop k t))"
      unfolding split glob_star by auto
    then have "ahead p t (pi + 1) ti (Some pi) ti"
      using star(3) by (auto simp: ahead_def intro!: exI [of _ "k + l"] simp: add.commute)
    with 1(2) [OF star] 1(4,5) star loop show ?thesis by simp
  next
    case retry
    note mismatch = glob_mismatch [OF retry]
    with 1(6) obtain sp where sp: "star_p = Some sp" by (cases star_p) (auto simp: ahead_def)
    then obtain k where k: "star_t \<le> k" "k \<le> length t" "glob (drop (sp + 1) p) (drop k t)"
      using 1(6) by (auto simp: ahead_def)
    have le: "star_t \<le> ti" "sp < length p" using 1(6) sp by (auto simp: ahead_def)
    have "k \<noteq> star_t" using ahead_plain [OF 1(6) [unfolded sp] k] mismatch le(1) by auto
    with k le have "ahead p t (sp + 1) (star_t + 1) star_p (star_t + 1)" "star_t + 1 \<le> length t"
      by (auto simp: ahead_def sp intro!: exI [of _ k])
    moreover have "glob_loop p t pi ti star_p star_t = glob_loop p t (sp + 1) (star_t + 1) star_p (star_t + 1)"
      unfolding loop using retry sp by (simp only: if_True if_False option.case)
    ultimately show ?thesis using 1(3) [OF retry sp] 1(4) by simp
  qed
qed

text \<open>C23: The matcher accepts only texts the pattern stands for, and all of them when the text has no
  asterisk.\<close>

theorem glob_match_is_glob:
  "(glob_match p t \<longrightarrow> glob p t) \<and> (CHR ''*'' \<notin> set t \<longrightarrow> glob_match p t = glob p t)"
proof -
  have "glob_match p t \<longrightarrow> glob p t"
    using glob_loop_sound [of p t 0 0 None 0] by (simp add: glob_match_accepted)
  moreover have "glob_match p t" if "CHR ''*'' \<notin> set t" "glob p t"
    using glob_loop_complete [OF that(1), of 0 p 0 None 0] that(2) by (simp add: glob_match_accepted ahead_def)
  ultimately show ?thesis by blast
qed

theorem glob_match_is_glob_witness:
  "glob ''u*_?'' ''user_1'' \<and> \<not> glob_match ''u*_?'' ''user_12''"
proof -
  have "glob_match ''u*_?'' ''user_1''" by code_simp
  moreover have "\<not> glob ''u*_?'' ''user_12''" by code_simp
  ultimately show ?thesis
    using glob_match_is_glob [of "''u*_?''" "''user_1''"] glob_match_is_glob [of "''u*_?''" "''user_12''"] by blast
qed

text \<open>With an asterisk in the text a match can be missed: the pattern's asterisk is first compared as a
  character.\<close>

lemma glob_match_misses_asterisk: "glob ''*'' ''*ab'' \<and> \<not> glob_match ''*'' ''*ab''"
  by code_simp

section \<open>Suggestions\<close>

lemma levenshtein_close:
  "levenshtein_distance a b (Some d) \<le> d \<longleftrightarrow> edit_dist a b \<le> d"
  "edit_dist a b \<le> d \<Longrightarrow> levenshtein_distance a b (Some d) = edit_dist a b"
  using levenshtein_dist [of a b "Some d"] by auto

text \<open>The candidate kept is the first of those nearest to the name, if any is near enough.\<close>

definition near :: "string \<Rightarrow> string \<Rightarrow> bool" where
  "near needle c \<longleftrightarrow> c \<noteq> needle \<and> edit_dist needle c \<le> suggest_threshold needle"

lemma suggest_fold:
  assumes "fold (suggest_step needle (suggest_threshold needle)) cs ([], suggest_threshold needle + 1) = (best, bd)"
  shows "if \<exists>c \<in> set cs. near needle c
         then best \<in> set cs \<and> near needle best \<and> bd = edit_dist needle best \<and>
              (\<forall>c \<in> set cs. near needle c \<longrightarrow> bd \<le> edit_dist needle c)
         else bd = suggest_threshold needle + 1"
  using assms
proof (induction cs arbitrary: best bd rule: rev_induct)
  case (snoc c cs)
  let ?t = "suggest_threshold needle"
  obtain b0 d0 where f: "fold (suggest_step needle ?t) cs ([], ?t + 1) = (b0, d0)" by fastforce
  note IH = snoc.IH [OF f]
  have step: "(best, bd) = suggest_step needle ?t c (b0, d0)" using snoc.prems f by simp
  have d0: "d0 \<le> ?t + 1" using IH by (auto simp: near_def split: if_splits)
  show ?case
  proof (cases "near needle c")
    case False
    have "\<not> levenshtein_distance needle c (Some ?t) < d0 \<or> c = needle"
      using False d0 levenshtein_close(1) [of needle c ?t] by (auto simp: near_def)
    then have "(best, bd) = (b0, d0)" using step by (auto simp: suggest_step_def Let_def)
    with IH False show ?thesis by (auto split: if_splits)
  next
    case True
    then have "(best, bd) = (if edit_dist needle c < d0 then (c, edit_dist needle c) else (b0, d0))"
      using step levenshtein_close(2) [of needle c ?t] by (simp add: suggest_step_def near_def Let_def)
    with IH True d0 show ?thesis by (auto simp: near_def split: if_splits)
  qed
qed simp

text \<open>A suggestion is made exactly when some other candidate is within the threshold (one edit for
  names of up to four characters, two otherwise), and then it names one of the nearest.\<close>

theorem suggest_name_nearest:
  "if \<exists>c \<in> set candidates. near needle c
   then \<exists>best \<in> set candidates. near needle best \<and>
          (\<forall>c \<in> set candidates. near needle c \<longrightarrow> edit_dist needle best \<le> edit_dist needle c) \<and>
          suggest_name candidates needle = ''did you mean '' @ [CHR 0x27] @ best @ [CHR 0x27] @ ''?''
   else suggest_name candidates needle = []"
proof -
  obtain best bd where f: "fold (suggest_step needle (suggest_threshold needle)) candidates
      ([], suggest_threshold needle + 1) = (best, bd)" by fastforce
  note spec = suggest_fold [OF f]
  show ?thesis
  proof (cases "\<exists>c \<in> set candidates. near needle c")
    case True
    with spec have b: "best \<in> set candidates" "near needle best" "bd = edit_dist needle best"
      "\<forall>c \<in> set candidates. near needle c \<longrightarrow> bd \<le> edit_dist needle c" by auto
    moreover from b(2,3) have "bd \<le> suggest_threshold needle" by (simp add: near_def)
    ultimately show ?thesis using True f by (auto simp: suggest_name_def Let_def)
  next
    case False
    with spec f show ?thesis by (auto simp: suggest_name_def Let_def)
  qed
qed

theorem suggest_name_nearest_witness:
  "suggest_name [''prin'', ''point'', ''print''] ''print'' = ''did you mean '' @ [CHR 0x27] @ ''prin'' @ [CHR 0x27] @ ''?'' \<and>
   edit_dist ''print'' ''prin'' \<le> edit_dist ''print'' ''point''"
proof -
  have near: "near ''print'' ''prin''" "near ''print'' ''point''" by code_simp+
  have s: "suggest_name [''prin'', ''point'', ''print''] ''print'' = ''did you mean '' @ [CHR 0x27] @ ''prin'' @ [CHR 0x27] @ ''?''"
    by code_simp
  obtain best where "suggest_name [''prin'', ''point'', ''print''] ''print'' = ''did you mean '' @ [CHR 0x27] @ best @ [CHR 0x27] @ ''?''"
    "\<forall>c \<in> set [''prin'', ''point'', ''print'']. near ''print'' c \<longrightarrow> edit_dist ''print'' best \<le> edit_dist ''print'' c"
    using suggest_name_nearest [of "[''prin'', ''point'', ''print'']" "''print''"] near(1) by auto
  with s near(2) show ?thesis by simp
qed

section \<open>Splitting\<close>

definition join :: "char \<Rightarrow> string list \<Rightarrow> string" where
  "join d parts = (case parts of [] \<Rightarrow> [] | p # ps \<Rightarrow> p @ concat (map (\<lambda>q. d # q) ps))"

lemma find_char_None: "find_char c s start = None \<Longrightarrow> start \<le> length s \<Longrightarrow> c \<notin> set (drop start s)"
proof -
  assume "find_char c s start = None" "start \<le> length s"
  then have "\<not> length (takeWhile (\<lambda>x. x \<noteq> c) (drop start s)) < length (drop start s)"
    by (auto simp: find_char_def Let_def split: if_splits)
  then have "takeWhile (\<lambda>x. x \<noteq> c) (drop start s) = drop start s"
    by (metis append_take_drop_id length_takeWhile_le linorder_not_less order_antisym takeWhile_eq_take take_all)
  then show ?thesis by (metis (mono_tags, lifting) takeWhile_eq_all_conv)
qed

lemma find_char_split:
  assumes "find_char c s start = Some pos"
  shows "drop start s = take (pos - start) (drop start s) @ c # drop (pos + 1) s \<and>
         c \<notin> set (take (pos - start) (drop start s))"
proof -
  let ?r = "drop start s" and ?w = "takeWhile (\<lambda>x. x \<noteq> c) (drop start s)"
  from assms have p: "pos = start + length ?w" "pos < length s"
    by (auto simp: find_char_def Let_def split: if_splits)
  have "pos - start = length ?w" using p(1) by simp
  then have w: "?w = take (pos - start) ?r" by (simp only:) (rule takeWhile_eq_take)
  have "s ! pos = c" using p nth_length_takeWhile [of "\<lambda>x. x \<noteq> c" ?r] by simp
  moreover have "s ! pos # drop (pos + 1) s = drop pos s" using Cons_nth_drop_Suc [OF p(2)] by simp
  moreover have "drop (pos - start) ?r = drop pos s" unfolding drop_drop using p(1) by (simp only: diff_add_inverse add.commute)
  ultimately have e: "drop (pos - start) ?r = c # drop (pos + 1) s" by (simp only:)
  have "?r = take (pos - start) ?r @ c # drop (pos + 1) s"
    using append_take_drop_id [of "pos - start" ?r] unfolding e by (rule sym)
  moreover have "c \<notin> set ?w" by (auto dest: set_takeWhileD)
  ultimately show ?thesis using w by simp
qed

text \<open>The segments of a string.\<close>

fun segments :: "char \<Rightarrow> string \<Rightarrow> string list" where
  "segments d [] = [[]]"
| "segments d (c # s) =
     (if c = d then [] # segments d s else (c # hd (segments d s)) # tl (segments d s))"

lemma segments_not_Nil [simp]: "segments d s \<noteq> []"
  by (cases s) simp_all

lemma segments_plain: "d \<notin> set s \<Longrightarrow> segments d s = [s]"
  by (induction s) auto

lemma segments_first: "d \<notin> set p \<Longrightarrow> segments d (p @ d # s) = p # segments d s"
  by (induction p) auto

lemma join_segments: "join d (segments d s) = s"
proof (induction s)
  case (Cons c s)
  obtain p ps where "segments d s = p # ps" by (cases "segments d s") auto
  with Cons show ?case by (auto simp: join_def)
qed (simp add: join_def)

lemma segments_free: "p \<in> set (segments d s) \<Longrightarrow> d \<notin> set p"
proof (induction s arbitrary: p)
  case (Cons c s)
  obtain q qs where "segments d s = q # qs" by (cases "segments d s") auto
  with Cons show ?case by (auto split: if_splits)
qed simp

lemma segments_join: "parts \<noteq> [] \<Longrightarrow> \<forall>p \<in> set parts. d \<notin> set p \<Longrightarrow> segments d (join d parts) = parts"
proof (induction parts rule: induct_list012)
  case (3 p q qs)
  then have "segments d (join d (p # q # qs)) = p # segments d (join d (q # qs))"
    using segments_first [of d p "join d (q # qs)"] by (simp add: join_def)
  with 3 show ?case by simp
qed (simp_all add: join_def segments_plain)

lemma split_from_fold:
  "start \<le> length str \<Longrightarrow> split_from str d f start s = fold f (segments d (drop start str)) s"
proof (induction str d f start s rule: split_from.induct)
  case (1 str d f start s)
  show ?case
  proof (cases "find_char d str start")
    case None
    then show ?thesis
      using find_char_None [OF None 1(2)] by (simp add: split_from.simps [of str d f start] segments_plain)
  next
    case (Some pos)
    note split = find_char_split [OF Some]
    have "segments d (drop start str) = take (pos - start) (drop start str) # segments d (drop (pos + 1) str)"
      by (subst conjunct1 [OF split]) (rule segments_first [OF conjunct2 [OF split]])
    moreover have "pos + 1 \<le> length str" using find_char_Some [OF Some] by simp
    ultimately show ?thesis using 1(1) [OF Some] Some by (simp add: split_from.simps [of str d f start])
  qed
qed

lemma split_string_segments: "split_string s d = segments d s"
proof -
  have "fold (\<lambda>segment parts. parts @ [segment]) xs acc = acc @ xs" for xs acc :: "string list"
    by (induction xs arbitrary: acc) simp_all
  then show ?thesis by (simp add: split_string_def for_each_split_def split_from_fold)
qed

definition strip_cr :: "string \<Rightarrow> string" where
  "strip_cr line = (if line \<noteq> [] \<and> last line = CHR 0x0D then butlast line else line)"

lemma split_lines_from_segments:
  "start \<le> length s \<Longrightarrow> split_lines_from s start lines = lines @ map strip_cr (segments CHR 0x0A (drop start s))"
proof (induction s start lines rule: split_lines_from.induct)
  case (1 s start lines)
  show ?case
  proof (cases "find_char CHR 0x0A s start")
    case None
    then show ?thesis using find_char_None [OF None 1(2)] 1(2)
      by (simp add: split_lines_from.simps [of s start] segments_plain push_line_def strip_cr_def)
  next
    case (Some pos)
    note split = find_char_split [OF Some]
    have "segments CHR 0x0A (drop start s) = take (pos - start) (drop start s) # segments CHR 0x0A (drop (pos + 1) s)"
      by (subst conjunct1 [OF split]) (rule segments_first [OF conjunct2 [OF split]])
    moreover have "pos + 1 \<le> length s" using find_char_Some [OF Some] by simp
    ultimately show ?thesis using 1(1) [OF _ Some] 1(2) Some
      by (simp add: split_lines_from.simps [of s start] push_line_def strip_cr_def)
  qed
qed

text \<open>Splitting and joining are inverse: the segments of a string contain no delimiter and join to it,
  and delimiter-free parts, at least one, are what their join splits into.  Lines are the segments
  between line feeds without a carriage return at the end.\<close>

theorem split_string_joins:
  "join d (split_string s d) = s \<and> (\<forall>p \<in> set (split_string s d). d \<notin> set p) \<and>
   (parts \<noteq> [] \<and> (\<forall>p \<in> set parts. d \<notin> set p) \<longrightarrow> split_string (join d parts) d = parts) \<and>
   split_lines s = map strip_cr (split_string s CHR 0x0A)"
  using join_segments segments_free segments_join [of parts d] split_lines_from_segments [of 0 s "[]"]
  by (auto simp: split_string_segments split_lines_def)

theorem split_string_joins_witness:
  "split_string ''a,,b'' CHR '','' = [''a'', [], ''b''] \<and> split_lines [CHR ''x'', CHR 0x0D, CHR 0x0A] = [''x'', []]"
proof -
  have "join CHR '','' [''a'', [], ''b''] = ''a,,b''" by (simp add: join_def)
  moreover have "split_string [CHR ''x'', CHR 0x0D, CHR 0x0A] CHR 0x0A = [[CHR ''x'', CHR 0x0D], []]" by code_simp
  ultimately show ?thesis
    using split_string_joins [of "CHR '',''" s "[''a'', [], ''b'']" for s]
      split_string_joins [of d "[CHR ''x'', CHR 0x0D, CHR 0x0A]" for d] by (simp add: strip_cr_def)
qed

section \<open>Searching\<close>

lemma find_string_first:
  assumes "find_string token s start = Some pos"
  shows "start \<le> pos" "occurs_at token s pos" "\<And>k. start \<le> k \<Longrightarrow> k < pos \<Longrightarrow> \<not> occurs_at token s k"
proof -
  from assms obtain i where i: "i < length [start..<length s + 1 - length token]"
    "pos = [start..<length s + 1 - length token] ! i" "occurs_at token s pos"
    "\<And>j. j < i \<Longrightarrow> \<not> occurs_at token s ([start..<length s + 1 - length token] ! j)"
    by (auto simp: find_string_def find_Some_iff simp del: upt_Suc)
  then show "start \<le> pos" "occurs_at token s pos" by auto
  show "\<not> occurs_at token s k" if "start \<le> k" "k < pos" for k
    using i(4) [of "k - start"] i(1,2) that by simp
qed

lemma find_string_none:
  assumes "find_string token s start = None" and "token \<noteq> []" and "start \<le> k"
  shows "\<not> occurs_at token s k"
proof
  assume o: "occurs_at token s k"
  then have "length (take (length token) (drop k s)) = length token" by (simp only: occurs_at_def)
  then have "length token \<le> length s - k" by simp
  moreover have "0 < length token" using assms(2) by simp
  ultimately have "k < length s + 1 - length token" by linarith
  then have "k \<in> set [start..<length s + 1 - length token]" using assms(3) by (simp del: upt_Suc)
  then show False using assms(1) o by (auto simp: find_string_def find_None_iff)
qed

lemma token_search_iff:
  assumes "token \<noteq> []"
  shows "token_search s token start \<longleftrightarrow> (\<exists>pos \<ge> start. occurs_at token s pos \<and> stands_alone s token pos)"
  using assms
proof (induction s token start rule: token_search.induct)
  case (1 s token start)
  show ?case
  proof (cases "find_string token s start")
    case None
    then show ?thesis using find_string_none [OF None 1(2)] by (auto simp: token_search.simps [of s token start])
  next
    case (Some pos)
    note first = find_string_first [OF Some]
    have "(\<exists>k \<ge> start. occurs_at token s k \<and> stands_alone s token k) \<longleftrightarrow>
        stands_alone s token pos \<or> (\<exists>k \<ge> pos + 1. occurs_at token s k \<and> stands_alone s token k)"
    proof
      assume "\<exists>k \<ge> start. occurs_at token s k \<and> stands_alone s token k"
      then obtain k where k: "start \<le> k" "occurs_at token s k" "stands_alone s token k" by blast
      then have "pos \<le> k" using first(3) [of k] by linarith
      then show "stands_alone s token pos \<or> (\<exists>k \<ge> pos + 1. occurs_at token s k \<and> stands_alone s token k)"
        using k by (cases "k = pos") auto
    next
      assume "stands_alone s token pos \<or> (\<exists>k \<ge> pos + 1. occurs_at token s k \<and> stands_alone s token k)"
      then show "\<exists>k \<ge> start. occurs_at token s k \<and> stands_alone s token k"
      proof
        assume "\<exists>k \<ge> pos + 1. occurs_at token s k \<and> stands_alone s token k"
        then obtain k where "pos + 1 \<le> k" "occurs_at token s k" "stands_alone s token k" by blast
        with first(1) show ?thesis by (intro exI [of _ k]) simp
      qed (use first(1,2) in blast)
    qed
    then show ?thesis
      using 1(1) [OF Some] 1(2) Some by (cases "stands_alone s token pos") (simp_all add: token_search.simps [of s token start])
  qed
qed

text \<open>The whole-word search answers whether the token occurs somewhere with no identifier character
  beside it; overlapping occurrences are all considered.\<close>

theorem contains_identifier_token_iff:
  "contains_identifier_token s token \<longleftrightarrow>
   token \<noteq> [] \<and> (\<exists>pos. occurs_at token s pos \<and> stands_alone s token pos)"
  by (auto simp: contains_identifier_token_def token_search_iff)

text \<open>An empty needle is not found, although every string contains it.\<close>

lemma case_insensitive_find_empty: "case_insensitive_find haystack [] = None"
  by (simp add: case_insensitive_find_def)

end
