(* ===== verification/Lexer_Core.thy ===== *)
theory Lexer_Core
  imports Utf8 Chunk
begin

text \<open>
  The ground of the lexer: well-formed UTF-8 (\<^verbatim>\<open>analysis/common/utf8_validation.hpp\<close>,
  \<^verbatim>\<open>display_text.hpp\<close>), tokens (\<^verbatim>\<open>token.hpp\<close>, \<^verbatim>\<open>token_type.hpp\<close>), the diagnostic
  buffer (\<^verbatim>\<open>diagnostic_emitter.cpp\<close>), the cursor (\<^verbatim>\<open>lexer_cursor.hpp\<close>) and the state of
  class \<^verbatim>\<open>Lexer\<close> with its token helpers.  Source text is a string of 8-bit characters; the line
  and column counters are unbounded integers (sources are capped below their range).
\<close>

section \<open>Well-formed UTF-8\<close>

definition u8_at :: "string \<Rightarrow> nat \<Rightarrow> byte" where
  "u8_at s i = of_char (s ! i)"

definition in_u8_range :: "byte \<Rightarrow> byte \<Rightarrow> byte \<Rightarrow> bool" where
  "in_u8_range b low high \<longleftrightarrow> low \<le> b \<and> b \<le> high"

text \<open>Length and bounds of the second byte by the lead byte; length 0 for bytes that never start a sequence.\<close>

definition utf8_lead_row :: "byte \<Rightarrow> nat \<times> byte \<times> byte" where
  "utf8_lead_row lead =
     (if in_u8_range lead 0xC2 0xDF then (2, 0x80, 0xBF)
      else if lead = 0xE0 then (3, 0xA0, 0xBF)
      else if in_u8_range lead 0xE1 0xEC \<or> in_u8_range lead 0xEE 0xEF then (3, 0x80, 0xBF)
      else if lead = 0xED then (3, 0x80, 0x9F)
      else if lead = 0xF0 then (4, 0x90, 0xBF)
      else if in_u8_range lead 0xF1 0xF3 then (4, 0x80, 0xBF)
      else if lead = 0xF4 then (4, 0x80, 0x8F)
      else (0, 0x80, 0xBF))"

definition well_formed_utf8_length :: "string \<Rightarrow> nat \<Rightarrow> nat" where
  "well_formed_utf8_length s pos =
     (if length s \<le> pos then 0
      else let lead = u8_at s pos
           in if lead < 0x80 then 1
              else let (len, second_low, second_high) = utf8_lead_row lead
                   in if len = 0 then 0
                      else if length s < pos + len \<or> \<not> in_u8_range (u8_at s (pos + 1)) second_low second_high
                      then 0
                      else if \<exists>offset \<in> set [2..<len]. \<not> in_u8_range (u8_at s (pos + offset)) 0x80 0xBF
                      then 0 else len)"

definition lead_payload :: "nat \<Rightarrow> byte" where
  "lead_payload len = (if len = 1 then 0x7F else if len = 2 then 0x1F else if len = 3 then 0x0F else 0x07)"

definition decode_well_formed_utf8 :: "string \<Rightarrow> nat \<Rightarrow> nat \<Rightarrow> u32" where
  "decode_well_formed_utf8 s pos len =
     fold (\<lambda>offset cp. (push_bit 6 cp) OR ucast (u8_at s (pos + offset) AND 0x3F)) [1..<len]
       (ucast (u8_at s pos AND lead_payload len))"

definition is_unicode_space_or_control :: "u32 \<Rightarrow> bool" where
  "is_unicode_space_or_control cp \<longleftrightarrow>
     cp < 0x20 \<or> (0x7F \<le> cp \<and> cp \<le> 0xA0) \<or> cp = 0x1680 \<or> (0x2000 \<le> cp \<and> cp \<le> 0x200A) \<or>
     cp = 0x2028 \<or> cp = 0x2029 \<or> cp = 0x202F \<or> cp = 0x205F \<or> cp = 0x3000 \<or> cp = 0xFEFF"

lemma well_formed_utf8_length_inside:
  "pos + well_formed_utf8_length s pos \<le> length s \<or> well_formed_utf8_length s pos = 0"
  by (auto simp: well_formed_utf8_length_def Let_def split: prod.splits)

definition show_escaped_bytes :: "string \<Rightarrow> string" where
  "show_escaped_bytes bs = concat (map (\<lambda>b. [CHR 0x5C] @ ''x'' @ show_hex2 (of_char b)) bs)"

definition is_terminal_control :: "u32 \<Rightarrow> bool" where
  "is_terminal_control cp \<longleftrightarrow> cp \<noteq> 0x09 \<and> cp \<noteq> 0x0A \<and> (cp < 0x20 \<or> (0x7F \<le> cp \<and> cp < 0xA0))"

function sanitize_from :: "string \<Rightarrow> nat \<Rightarrow> string \<Rightarrow> string" where
  "sanitize_from s pos out =
     (if pos < length s then
        let len = well_formed_utf8_length s pos
        in if len = 0 then sanitize_from s (pos + 1) (out @ show_escaped_bytes (take 1 (drop pos s)))
           else let piece = take len (drop pos s)
                in sanitize_from s (pos + len)
                     (out @ (if is_terminal_control (decode_well_formed_utf8 s pos len)
                             then show_escaped_bytes piece else piece))
      else out)"
  by pat_completeness auto
termination
  by (relation "measure (\<lambda>(s, pos, _). length s - pos)") auto

declare sanitize_from.simps [simp del]

definition sanitize_for_terminal :: "string \<Rightarrow> string" where
  "sanitize_for_terminal s = sanitize_from s 0 []"

function show_hex :: "nat \<Rightarrow> string" where
  "show_hex n = (if n < 16 then [digit_char n] else show_hex (n div 16) @ [digit_char (n mod 16)])"
  by pat_completeness auto
termination
  by (relation "measure id") auto

declare show_hex.simps [simp del]

text \<open>\<^verbatim>\<open>{:04X}\<close>\<close>

definition show_hex_04 :: "nat \<Rightarrow> string" where
  "show_hex_04 n = (let s = show_hex n in replicate (4 - length s) CHR ''0'' @ s)"

section \<open>Tokens\<close>

text \<open>The enumeration, grouped as its sections are.\<close>

datatype keyword_token =
    KwAwait | KwBorrow | KwBreak | KwCase | KwCatch | KwChoice | KwContinue
  | KwDowncast | KwElse | KwFailure | KwFinally | KwFor | KwFunction | KwIf
  | KwIn | KwInclude | KwInterface | KwInternal | KwIs | KwMatch | KwMutable
  | KwNamespace | KwRecord | KwReturn | KwSome | KwSpawn | KwSuccess | KwTaskScope
  | KwTrustedDowncast | KwTry | KwType | KwUnique | KwUse | KwWhile | KwWith

datatype type_keyword_type = ArrayType | BooleanType | DecimalType | DictionaryType | IntegerType | NumberType | OptionalType | ResultType | StringType

datatype operator_type =
    AmpersandAmpersand | Arrow | Bang | BangEquals | BangGreater | DotDot | DotDotEquals
  | Equals | EqualsEquals | Greater | GreaterEquals | GreaterGreater | Less | LessEquals
  | Minus | MinusEquals | MinusMinus | Percent | PercentEquals | Pipe | PipeGreater
  | PipePipe | Plus | PlusEquals | PlusPlus | QuestionBracket | QuestionDot | QuestionMark
  | QuestionQuestion | Slash | SlashEquals | SlashSlash | SlashSlashEquals | Star | StarEquals

datatype punctuation_type =
    Colon | ColonColon | Comma | Dot | LeftBrace | LeftBracket | LeftParen | RightBrace | RightBracket | RightParen

datatype token_type =
    BooleanLiteral | IntegerLiteral | NoneLiteral | NumberLiteral | StringLiteral
  | InterpolationEnd | InterpolationStart | StringEnd | StringMiddle | StringStart
  | Identifier
  | Keyword keyword_token
  | TypeKeyword type_keyword_type
  | Operator operator_type
  | Punctuation punctuation_type
  | Annotation
  | ErrorToken | EndOfFile

text \<open>
  The names used in messages, in the order of the enumeration, and the keyword table with the
  kinds of keywords.  Enumerators that are words of Isabelle or clash with HOL carry the prefix
  \<^verbatim>\<open>Kw\<close>; \<^verbatim>\<open>Error\<close> is \<^verbatim>\<open>ErrorToken\<close>.
\<close>

definition k_token_type_names :: "(token_type \<times> string) list" where
  "k_token_type_names =
    [(BooleanLiteral, ''boolean literal''),
     (IntegerLiteral, ''integer literal''),
     (NoneLiteral, ''none''),
     (NumberLiteral, ''number literal''),
     (StringLiteral, ''string literal''),
     (InterpolationEnd, ''}''),
     (InterpolationStart, ''${''),
     (StringEnd, ''string end''),
     (StringMiddle, ''string middle''),
     (StringStart, ''string start''),
     (Identifier, ''identifier''),
     (Keyword KwAwait, ''await''),
     (Keyword KwBorrow, ''borrow''),
     (Keyword KwBreak, ''break''),
     (Keyword KwCase, ''case''),
     (Keyword KwCatch, ''catch''),
     (Keyword KwChoice, ''choice''),
     (Keyword KwContinue, ''continue''),
     (Keyword KwDowncast, ''downcast''),
     (Keyword KwElse, ''else''),
     (Keyword KwFailure, ''failure''),
     (Keyword KwFinally, ''finally''),
     (Keyword KwFor, ''for''),
     (Keyword KwFunction, ''function''),
     (Keyword KwIf, ''if''),
     (Keyword KwIn, ''in''),
     (Keyword KwInclude, ''include''),
     (Keyword KwInterface, ''interface''),
     (Keyword KwInternal, ''internal''),
     (Keyword KwIs, ''is''),
     (Keyword KwMatch, ''match''),
     (Keyword KwMutable, ''mutable''),
     (Keyword KwNamespace, ''namespace''),
     (Keyword KwRecord, ''record''),
     (Keyword KwReturn, ''return''),
     (Keyword KwSome, ''some''),
     (Keyword KwSpawn, ''spawn''),
     (Keyword KwSuccess, ''success''),
     (Keyword KwTaskScope, ''task_scope''),
     (Keyword KwTrustedDowncast, ''trusted_downcast''),
     (Keyword KwTry, ''try''),
     (Keyword KwType, ''type''),
     (Keyword KwUnique, ''unique''),
     (Keyword KwUse, ''use''),
     (Keyword KwWhile, ''while''),
     (Keyword KwWith, ''with''),
     (TypeKeyword ArrayType, ''array''),
     (TypeKeyword BooleanType, ''boolean''),
     (TypeKeyword DecimalType, ''decimal''),
     (TypeKeyword DictionaryType, ''dictionary''),
     (TypeKeyword IntegerType, ''integer''),
     (TypeKeyword NumberType, ''number''),
     (TypeKeyword OptionalType, ''optional''),
     (TypeKeyword ResultType, ''result''),
     (TypeKeyword StringType, ''string''),
     (Operator AmpersandAmpersand, ''&&''),
     (Operator Arrow, ''->''),
     (Operator Bang, ''!''),
     (Operator BangEquals, ''!=''),
     (Operator BangGreater, ''!>''),
     (Operator DotDot, ''..''),
     (Operator DotDotEquals, ''..=''),
     (Operator Equals, ''=''),
     (Operator EqualsEquals, ''==''),
     (Operator Greater, ''>''),
     (Operator GreaterEquals, ''>=''),
     (Operator GreaterGreater, ''>>''),
     (Operator Less, ''<''),
     (Operator LessEquals, ''<=''),
     (Operator Minus, ''-''),
     (Operator MinusEquals, ''-=''),
     (Operator MinusMinus, ''--''),
     (Operator Percent, ''%''),
     (Operator PercentEquals, ''%=''),
     (Operator Pipe, ''|''),
     (Operator PipeGreater, ''|>''),
     (Operator PipePipe, ''||''),
     (Operator Plus, ''+''),
     (Operator PlusEquals, ''+=''),
     (Operator PlusPlus, ''++''),
     (Operator QuestionBracket, ''?[''),
     (Operator QuestionDot, ''?.''),
     (Operator QuestionMark, ''?''),
     (Operator QuestionQuestion, ''??''),
     (Operator Slash, ''/''),
     (Operator SlashEquals, ''/=''),
     (Operator SlashSlash, ''//''),
     (Operator SlashSlashEquals, ''//=''),
     (Operator Star, ''*''),
     (Operator StarEquals, ''*=''),
     (Punctuation Colon, '':''),
     (Punctuation ColonColon, ''::''),
     (Punctuation Comma, '',''),
     (Punctuation Dot, ''.''),
     (Punctuation LeftBrace, ''{''),
     (Punctuation LeftBracket, ''[''),
     (Punctuation LeftParen, ''(''),
     (Punctuation RightBrace, ''}''),
     (Punctuation RightBracket, '']''),
     (Punctuation RightParen, '')''),
     (Annotation, ''annotation''),
     (ErrorToken, ''error''),
     (EndOfFile, ''end of file'')]"

definition token_type_to_string :: "token_type \<Rightarrow> string" where
  "token_type_to_string t = (case map_of k_token_type_names t of Some n \<Rightarrow> n | None \<Rightarrow> ''unknown'')"

datatype keyword_kind = Word_Kind | Builtin_Type | Type_Word

type_synonym keyword_spelling = "string \<times> token_type \<times> keyword_kind"

definition k_keywords :: "keyword_spelling list" where
  "k_keywords =
    [(''array'', TypeKeyword ArrayType, Builtin_Type),
     (''await'', Keyword KwAwait, Word_Kind),
     (''boolean'', TypeKeyword BooleanType, Builtin_Type),
     (''borrow'', Keyword KwBorrow, Word_Kind),
     (''break'', Keyword KwBreak, Word_Kind),
     (''case'', Keyword KwCase, Word_Kind),
     (''catch'', Keyword KwCatch, Word_Kind),
     (''choice'', Keyword KwChoice, Word_Kind),
     (''continue'', Keyword KwContinue, Word_Kind),
     (''decimal'', TypeKeyword DecimalType, Builtin_Type),
     (''dictionary'', TypeKeyword DictionaryType, Builtin_Type),
     (''downcast'', Keyword KwDowncast, Word_Kind),
     (''else'', Keyword KwElse, Word_Kind),
     (''failure'', Keyword KwFailure, Word_Kind),
     (''false'', BooleanLiteral, Word_Kind),
     (''finally'', Keyword KwFinally, Word_Kind),
     (''for'', Keyword KwFor, Word_Kind),
     (''function'', Keyword KwFunction, Type_Word),
     (''if'', Keyword KwIf, Word_Kind),
     (''in'', Keyword KwIn, Word_Kind),
     (''include'', Keyword KwInclude, Word_Kind),
     (''integer'', TypeKeyword IntegerType, Builtin_Type),
     (''interface'', Keyword KwInterface, Word_Kind),
     (''internal'', Keyword KwInternal, Word_Kind),
     (''is'', Keyword KwIs, Word_Kind),
     (''match'', Keyword KwMatch, Word_Kind),
     (''mutable'', Keyword KwMutable, Word_Kind),
     (''namespace'', Keyword KwNamespace, Word_Kind),
     (''none'', NoneLiteral, Type_Word),
     (''number'', TypeKeyword NumberType, Builtin_Type),
     (''optional'', TypeKeyword OptionalType, Builtin_Type),
     (''record'', Keyword KwRecord, Word_Kind),
     (''result'', TypeKeyword ResultType, Builtin_Type),
     (''return'', Keyword KwReturn, Word_Kind),
     (''some'', Keyword KwSome, Word_Kind),
     (''spawn'', Keyword KwSpawn, Word_Kind),
     (''string'', TypeKeyword StringType, Builtin_Type),
     (''success'', Keyword KwSuccess, Word_Kind),
     (''task_scope'', Keyword KwTaskScope, Word_Kind),
     (''true'', BooleanLiteral, Word_Kind),
     (''trusted_downcast'', Keyword KwTrustedDowncast, Word_Kind),
     (''try'', Keyword KwTry, Word_Kind),
     (''type'', Keyword KwType, Word_Kind),
     (''unique'', Keyword KwUnique, Word_Kind),
     (''use'', Keyword KwUse, Word_Kind),
     (''while'', Keyword KwWhile, Word_Kind),
     (''with'', Keyword KwWith, Word_Kind)]"

text \<open>\<^verbatim>\<open>operator<\<close> of \<^verbatim>\<open>std::string_view\<close>: lexicographic on unsigned bytes.\<close>

fun sv_less :: "string \<Rightarrow> string \<Rightarrow> bool" where
  "sv_less _ [] = False"
| "sv_less [] (_ # _) = True"
| "sv_less (a # as) (b # bs) =
     ((of_char a :: nat) < of_char b \<or> (a = b \<and> sv_less as bs))"

definition keywords_are_sorted :: bool where
  "keywords_are_sorted \<longleftrightarrow> sorted_wrt sv_less (map fst k_keywords)"

definition is_keyword_token_type :: "token_type \<Rightarrow> bool" where
  "is_keyword_token_type t \<longleftrightarrow> (\<exists>(_, u, _) \<in> set k_keywords. u = t)"

definition is_builtin_type_token_type :: "token_type \<Rightarrow> bool" where
  "is_builtin_type_token_type t \<longleftrightarrow> (\<exists>(_, u, kind) \<in> set k_keywords. u = t \<and> kind = Builtin_Type)"

definition is_type_keyword :: "token_type \<Rightarrow> bool" where
  "is_type_keyword t \<longleftrightarrow>
     (\<exists>(_, u, kind) \<in> set k_keywords. u = t \<and> (kind = Builtin_Type \<or> kind = Type_Word))"

definition k_builtin_type_identifiers :: "string list" where
  "k_builtin_type_identifiers =
     [''channel'', ''key_value_store'', ''queue'', ''reference'', ''set'', ''socket'', ''stack'', ''task'', ''xml'']"

text \<open>\<^verbatim>\<open>std::binary_search\<close> and \<^verbatim>\<open>std::ranges::lower_bound\<close> on a sorted table: the first entry
  that is not less.\<close>

definition lower_bound :: "('a \<Rightarrow> string) \<Rightarrow> 'a list \<Rightarrow> string \<Rightarrow> 'a option" where
  "lower_bound key table w =
     (case dropWhile (\<lambda>e. sv_less (key e) w) table of [] \<Rightarrow> None | e # _ \<Rightarrow> Some e)"

definition is_builtin_type_identifier :: "string \<Rightarrow> bool" where
  "is_builtin_type_identifier name =
     (case lower_bound (\<lambda>s. s) k_builtin_type_identifiers name of
        None \<Rightarrow> False | Some s \<Rightarrow> \<not> sv_less name s)"

definition is_comparison_op :: "token_type \<Rightarrow> bool" where
  "is_comparison_op t \<longleftrightarrow> t \<in> Operator ` {EqualsEquals, BangEquals, Less, Greater, LessEquals, GreaterEquals}"

text \<open>A literal value, and a token; the integer of a literal is within 64 bits.\<close>

datatype token_literal = Lit_Integer int | Lit_Number u64 | Lit_Bool bool | Lit_String string

record token =
  tk_type :: token_type
  tk_lexeme :: string
  tk_literal :: "token_literal option"
  tk_location :: source_location
  tk_start_location :: source_location
  tk_preceded_by_newline :: bool

section \<open>Diagnostics\<close>

text \<open>
  Of a diagnostic, the parts that depend on the call: the category and source of the lexer are fixed by the
  severity, its one span is the location, it suggests no fix.  Severities and codes are those it uses.
\<close>

datatype severity = Error_Severity | Warning_Severity

datatype diagnostic_code = No_Code | Unexpected_Token | Unterminated_String | Invalid_Number

record diagnostic =
  dg_severity :: severity
  dg_location :: source_location
  dg_message :: string
  dg_hint :: "string option"
  dg_code :: diagnostic_code

definition build_diagnostic ::
    "severity \<Rightarrow> source_location \<Rightarrow> string \<Rightarrow> string \<Rightarrow> diagnostic_code \<Rightarrow> diagnostic" where
  "build_diagnostic sev loc message hint code =
     \<lparr>dg_severity = sev, dg_location = loc, dg_message = message,
      dg_hint = (if hint = [] then None else Some hint), dg_code = code\<rparr>"

section \<open>The cursor\<close>

record lexer_cursor =
  cu_source :: string
  cu_position :: nat
  cu_line :: int
  cu_column :: int

definition cursor_start :: "string \<Rightarrow> lexer_cursor" where
  "cursor_start s = \<lparr>cu_source = s, cu_position = 0, cu_line = 1, cu_column = 1\<rparr>"

definition cursor_at_end :: "lexer_cursor \<Rightarrow> bool" where
  "cursor_at_end c \<longleftrightarrow> length (cu_source c) \<le> cu_position c"

definition cursor_current :: "lexer_cursor \<Rightarrow> char" where
  "cursor_current c = (if cursor_at_end c then CHR 0x00 else cu_source c ! cu_position c)"

definition cursor_peek_next :: "lexer_cursor \<Rightarrow> char" where
  "cursor_peek_next c =
     (if length (cu_source c) \<le> cu_position c + 1 then CHR 0x00 else cu_source c ! (cu_position c + 1))"

definition cursor_advance :: "lexer_cursor \<Rightarrow> lexer_cursor" where
  "cursor_advance c =
     (let character = cursor_current c; c = c\<lparr>cu_position := cu_position c + 1\<rparr>
      in if character = CHR 0x0A then c\<lparr>cu_line := cu_line c + 1, cu_column := 1\<rparr>
         else if \<not> is_utf8_continuation (of_char character) then c\<lparr>cu_column := cu_column c + 1\<rparr>
         else c)"

definition cursor_location :: "int \<Rightarrow> lexer_cursor \<Rightarrow> source_location" where
  "cursor_location fid c = default_location\<lparr>file_id := fid, line := cu_line c, column := cu_column c\<rparr>"

section \<open>The state of the lexer\<close>

record interpolation_state =
  is_brace_depth :: int
  is_triple_quoted :: bool

record lexer =
  lx_file_id :: int
  lx_cursor :: lexer_cursor
  lx_tokens :: "token list"
  lx_token_start :: source_location
  lx_newline_pending :: bool
  lx_segment_start :: source_location
  lx_interpolation :: "interpolation_state list"
  lx_open_triple :: "(nat \<times> string) list list"
  lx_diagnostics :: "diagnostic list"
  lx_error_count :: nat
  lx_warning_count :: nat

text \<open>The interpolation depth limit, and \<^verbatim>\<open>std::stod\<close>, which parses or throws.\<close>

datatype stod_result = Parsed u64 | Out_Of_Range | Invalid_Argument

record lexer_env =
  le_max_interpolation_depth :: int
  le_stod :: "string \<Rightarrow> stod_result"

definition new_lexer :: "string \<Rightarrow> int \<Rightarrow> lexer" where
  "new_lexer s fid =
     \<lparr>lx_file_id = fid, lx_cursor = cursor_start s, lx_tokens = [], lx_token_start = default_location,
      lx_newline_pending = False, lx_segment_start = default_location, lx_interpolation = [],
      lx_open_triple = [], lx_diagnostics = [], lx_error_count = 0, lx_warning_count = 0\<rparr>"

definition is_at_end :: "lexer \<Rightarrow> bool" where "is_at_end lx = cursor_at_end (lx_cursor lx)"

definition current :: "lexer \<Rightarrow> char" where "current lx = cursor_current (lx_cursor lx)"

definition peek_next :: "lexer \<Rightarrow> char" where "peek_next lx = cursor_peek_next (lx_cursor lx)"

definition advance :: "lexer \<Rightarrow> lexer" where
  "advance lx = lx\<lparr>lx_cursor := cursor_advance (lx_cursor lx)\<rparr>"

definition match_char :: "char \<Rightarrow> lexer \<Rightarrow> bool \<times> lexer" where
  "match_char expected lx =
     (if is_at_end lx \<or> current lx \<noteq> expected then (False, lx) else (True, advance lx))"

definition lexer_location :: "lexer \<Rightarrow> source_location" where
  "lexer_location lx = cursor_location (lx_file_id lx) (lx_cursor lx)"

abbreviation lx_source :: "lexer \<Rightarrow> string" where "lx_source lx \<equiv> cu_source (lx_cursor lx)"

abbreviation lx_position :: "lexer \<Rightarrow> nat" where "lx_position lx \<equiv> cu_position (lx_cursor lx)"

text \<open>\<^verbatim>\<open>source.substr(start, position - start)\<close>\<close>

definition text_from :: "nat \<Rightarrow> lexer \<Rightarrow> string" where
  "text_from start lx = take (lx_position lx - start) (drop start (lx_source lx))"

section \<open>Diagnostics and tokens of the lexer\<close>

definition k_max_lex_errors :: nat where "k_max_lex_errors = 100"

definition emit_error :: "source_location \<Rightarrow> string \<Rightarrow> string \<Rightarrow> diagnostic_code \<Rightarrow> lexer \<Rightarrow> lexer" where
  "emit_error loc message hint code lx =
     lx\<lparr>lx_diagnostics := lx_diagnostics lx @ [build_diagnostic Error_Severity loc message hint code],
        lx_error_count := lx_error_count lx + 1\<rparr>"

definition emit_warning :: "source_location \<Rightarrow> string \<Rightarrow> string \<Rightarrow> lexer \<Rightarrow> lexer" where
  "emit_warning loc message hint lx =
     lx\<lparr>lx_diagnostics := lx_diagnostics lx @ [build_diagnostic Warning_Severity loc message hint No_Code],
        lx_warning_count := lx_warning_count lx + 1\<rparr>"

definition emit_syntax_error ::
    "string \<Rightarrow> source_location \<Rightarrow> string \<Rightarrow> diagnostic_code \<Rightarrow> lexer \<Rightarrow> lexer" where
  "emit_syntax_error message loc hint code lx =
     (if k_max_lex_errors \<le> lx_error_count lx then lx else emit_error loc message hint code lx)"

definition add_token :: "token_type \<Rightarrow> string \<Rightarrow> token_literal option \<Rightarrow> lexer \<Rightarrow> lexer" where
  "add_token type lexeme lit lx =
     lx\<lparr>lx_tokens := lx_tokens lx @
          [\<lparr>tk_type = type, tk_lexeme = lexeme, tk_literal = lit, tk_location = lexer_location lx,
            tk_start_location = lx_token_start lx, tk_preceded_by_newline = lx_newline_pending lx\<rparr>],
        lx_newline_pending := False\<rparr>"

text \<open>\<^verbatim>\<open>tokens_.back().start_location = ...\<close>\<close>

definition restamp_last :: "source_location \<Rightarrow> lexer \<Rightarrow> lexer" where
  "restamp_last loc lx =
     lx\<lparr>lx_tokens := butlast (lx_tokens lx) @ [(last (lx_tokens lx))\<lparr>tk_start_location := loc\<rparr>]\<rparr>"

definition stamp_token :: "token \<Rightarrow> token" where
  "stamp_token t =
     (if 0 < line (tk_start_location t)
      then t\<lparr>tk_location := (tk_location t)\<lparr>start_line := line (tk_start_location t),
                                          start_column := column (tk_start_location t)\<rparr>\<rparr>
      else t)"

definition stamp_token_starts :: "lexer \<Rightarrow> lexer" where
  "stamp_token_starts lx = lx\<lparr>lx_tokens := map stamp_token (lx_tokens lx)\<rparr>"

section \<open>Moving the cursor\<close>

lemma cursor_advance_fields [simp]:
  "cu_source (cursor_advance c) = cu_source c" "cu_position (cursor_advance c) = cu_position c + 1"
  by (simp_all add: cursor_advance_def Let_def)

lemma advance_fields [simp]:
  "lx_cursor (advance lx) = cursor_advance (lx_cursor lx)"
  "lx_tokens (advance lx) = lx_tokens lx" "lx_interpolation (advance lx) = lx_interpolation lx"
  "lx_open_triple (advance lx) = lx_open_triple lx" "lx_error_count (advance lx) = lx_error_count lx"
  "lx_file_id (advance lx) = lx_file_id lx"
  by (simp_all add: advance_def)

lemma is_at_end_iff: "is_at_end lx \<longleftrightarrow> length (lx_source lx) \<le> lx_position lx"
  by (simp add: is_at_end_def cursor_at_end_def)

text \<open>The loops that advance while the character satisfies a predicate, and over a number of bytes.\<close>

function advance_while :: "(char \<Rightarrow> bool) \<Rightarrow> lexer \<Rightarrow> lexer" where
  "advance_while p lx =
     (if \<not> is_at_end lx \<and> p (current lx) then advance_while p (advance lx) else lx)"
  by pat_completeness auto
termination
  by (relation "measure (\<lambda>(p, lx). length (lx_source lx) - lx_position lx)") (auto simp: is_at_end_iff)

declare advance_while.simps [simp del]

definition advance_by :: "nat \<Rightarrow> lexer \<Rightarrow> lexer" where
  "advance_by n lx = (advance ^^ n) lx"

definition skip_line_break_or_blank :: "lexer \<Rightarrow> bool \<Rightarrow> (lexer \<times> bool) option" where
  "skip_line_break_or_blank lx semicolon_warned =
     (let character = current lx
      in if character = CHR 0x0A then Some (advance (lx\<lparr>lx_newline_pending := True\<rparr>), semicolon_warned)
         else if character = CHR '' '' \<or> character = CHR 0x09 \<or> character = CHR 0x0D
         then Some (advance lx, semicolon_warned)
         else if character = CHR '';''
         then Some (advance (if semicolon_warned then lx
                             else emit_warning (lexer_location lx) ''unnecessary semicolon''
                                    (''Luma does not use semicolons '' @ [CHR 0xE2, CHR 0x80, CHR 0x94] @
                                     '' you can safely remove them'') lx), True)
         else if character = CHR ''#'' then Some (advance_while (\<lambda>c. c \<noteq> CHR 0x0A) lx, semicolon_warned)
         else None)"

end
