(* ===== verification/Lexer.thy ===== *)
theory Lexer
  imports Lexer_Core String_Utils
begin

text \<open>
  The lexer (\<^verbatim>\<open>analysis/lexer/lexer.cpp\<close>, \<^verbatim>\<open>lexer_numbers.cpp\<close>,
  \<^verbatim>\<open>lexer_operators.cpp\<close>, \<^verbatim>\<open>lexer_string.cpp\<close>): every scanner, the interpolation
  stack, triple-quoted strings with their dedentation, and \<^verbatim>\<open>tokenize\<close>.  A scanner takes the
  state of the lexer and returns the next one.  Each definition with a loop ends by the distance of the
  cursor to the end of the source.
\<close>

section \<open>Progress\<close>

text \<open>A step keeps the source and never moves the cursor back.\<close>

definition onward :: "lexer \<Rightarrow> lexer \<Rightarrow> bool" where
  "onward lx lx' \<longleftrightarrow> lx_source lx' = lx_source lx \<and> lx_position lx \<le> lx_position lx'"

lemma onward_refl [simp]: "onward lx lx" by (simp add: onward_def)

lemma onward_trans: "onward a b \<Longrightarrow> onward b c \<Longrightarrow> onward a c" by (simp add: onward_def)

lemma onward_advance [simp]: "onward lx (advance lx)" by (simp add: onward_def)

lemma advance_while_onward [simp]: "onward lx (advance_while p lx)"
proof (induction p lx rule: advance_while.induct)
  case (1 p lx)
  then show ?case by (subst advance_while.simps) (auto intro: onward_trans [OF onward_advance])
qed

lemma advance_by_fields [simp]:
  "lx_source (advance_by n lx) = lx_source lx" "lx_position (advance_by n lx) = lx_position lx + n"
  by (induction n) (simp_all add: advance_by_def)

lemma state_fields [simp]:
  "lx_cursor (emit_error loc m h c lx) = lx_cursor lx" "lx_cursor (emit_warning loc m h lx) = lx_cursor lx"
  "lx_cursor (emit_syntax_error m loc h c lx) = lx_cursor lx" "lx_cursor (add_token t l lit lx) = lx_cursor lx"
  "lx_cursor (restamp_last loc lx) = lx_cursor lx"
  by (simp_all add: emit_error_def emit_warning_def emit_syntax_error_def add_token_def restamp_last_def)

lemma match_char_onward [simp]: "onward lx (snd (match_char c lx))"
  by (simp add: match_char_def)

section \<open>White space and comments\<close>

lemma skip_step_onward:
  assumes "skip_line_break_or_blank lx w = Some (lx', w')" and "\<not> is_at_end lx"
  shows "lx_source lx' = lx_source lx \<and> lx_position lx < lx_position lx'"
proof -
  have "onward (advance lx) (advance_while p lx)" if "p (current lx)" for p
    using that assms(2) by (subst advance_while.simps) simp
  from this [of "\<lambda>c. c \<noteq> CHR 0x0A"] assms(1) show ?thesis
    by (auto simp: skip_line_break_or_blank_def Let_def onward_def split: if_splits)
qed

function skip_blank :: "lexer \<Rightarrow> bool \<Rightarrow> lexer" where
  "skip_blank lx semicolon_warned =
     (if is_at_end lx then lx
      else case skip_line_break_or_blank lx semicolon_warned of
             None \<Rightarrow> lx
           | Some (lx', warned) \<Rightarrow> skip_blank lx' warned)"
  by pat_completeness auto
termination
  by (relation "measure (\<lambda>(lx, _). length (lx_source lx) - lx_position lx)")
    (auto simp: is_at_end_iff dest!: skip_step_onward)

declare skip_blank.simps [simp del]

definition skip_whitespace_and_comments :: "lexer \<Rightarrow> lexer" where
  "skip_whitespace_and_comments lx = skip_blank lx False"

section \<open>Identifiers, keywords, annotations\<close>

definition is_digit :: "char \<Rightarrow> bool" where "is_digit c = code_in CHR ''0'' CHR ''9'' c"

definition is_ascii_alpha :: "char \<Rightarrow> bool" where
  "is_ascii_alpha c \<longleftrightarrow> code_in CHR ''a'' CHR ''z'' c \<or> code_in CHR ''A'' CHR ''Z'' c \<or> c = CHR ''_''"

definition k_utf8_ascii_max :: byte where "k_utf8_ascii_max = 0x80"

definition identifier_char_width :: "bool \<Rightarrow> lexer \<Rightarrow> nat" where
  "identifier_char_width allow_digit lx =
     (if is_at_end lx then 0
      else let character = current lx
           in if is_ascii_alpha character \<or> (allow_digit \<and> is_digit character) then 1
              else if (of_char character :: byte) < k_utf8_ascii_max then 0
              else let len = well_formed_utf8_length (lx_source lx) (lx_position lx)
                   in if len = 0 \<or> is_unicode_space_or_control
                                     (decode_well_formed_utf8 (lx_source lx) (lx_position lx) len)
                      then 0 else len)"

function consume_identifier_chars :: "lexer \<Rightarrow> lexer" where
  "consume_identifier_chars lx =
     (let width = identifier_char_width True lx
      in if 0 < width then consume_identifier_chars (advance_by width lx) else lx)"
  by pat_completeness auto
termination
  by (relation "measure (\<lambda>lx. length (lx_source lx) - lx_position lx)")
    (auto simp: identifier_char_width_def is_at_end_iff split: if_splits)

declare consume_identifier_chars.simps [simp del]

definition scan_invalid_non_ascii :: "source_location \<Rightarrow> lexer \<Rightarrow> lexer" where
  "scan_invalid_non_ascii location lx =
     (let start = lx_position lx; len = well_formed_utf8_length (lx_source lx) start;
          lx = (if 0 < len then
                  let code_point = decode_well_formed_utf8 (lx_source lx) start len
                  in emit_syntax_error (''unexpected character U+'' @ show_hex_04 (unat code_point)) location
                       (''invisible or non-breaking Unicode spaces are not allowed in code '' @
                        [CHR 0xE2, CHR 0x80, CHR 0x94] @ '' replace it with an ordinary space'')
                       Unexpected_Token (advance_by len lx)
                else
                  let lx = advance_while (\<lambda>c. is_utf8_continuation (of_char c)) (advance lx)
                  in emit_syntax_error (''invalid UTF-8 byte sequence '' @ [CHR 0x27] @
                         sanitize_for_terminal (text_from start lx) @ [CHR 0x27])
                       location ''save the file as UTF-8'' Unexpected_Token lx)
      in add_token ErrorToken (text_from start lx) None lx)"

definition keyword_type :: "string \<Rightarrow> token_type" where
  "keyword_type word =
     (case lower_bound fst k_keywords word of
        Some (spelling, type, _) \<Rightarrow> if spelling = word then type else Identifier
      | None \<Rightarrow> Identifier)"

definition in_quotes :: "string \<Rightarrow> string" where "in_quotes s = [CHR 0x27] @ s @ [CHR 0x27]"

definition scan_identifier :: "lexer \<Rightarrow> lexer" where
  "scan_identifier lx =
     (let start = lx_position lx; lx = consume_identifier_chars lx; word = text_from start lx;
          lx = (if CHR 0xE2 \<in> set word
                then emit_warning (lx_token_start lx)
                       ''identifier contains non-ASCII characters that may be confusable''
                       ''check for zero-width or homoglyph characters'' lx
                else lx);
          type = keyword_type word
      in if type = BooleanLiteral then add_token type word (Some (Lit_Bool (word = ''true''))) lx
         else let lx = (if type = Identifier \<and> (word = ''var'' \<or> word = ''let'')
                        then emit_warning (lx_token_start lx) (in_quotes word @ '' is not a Luma keyword'')
                               (''use '' @ in_quotes ''type name = value'' @ '' or '' @
                                in_quotes ''mutable type name = value'' @ '' to declare variables'') lx
                        else lx)
              in add_token type word None lx)"

definition scan_annotation :: "lexer \<Rightarrow> lexer" where
  "scan_annotation lx =
     (let location = lexer_location lx; lx = advance lx; start = lx_position lx;
          lx = (if \<not> is_at_end lx \<and> 0 < identifier_char_width False lx
                then consume_identifier_chars lx else lx)
      in if lx_position lx = start
         then add_token ErrorToken ''@'' None
                (emit_syntax_error (''expected annotation name after '' @ in_quotes ''@'') location
                   ''annotations must be a name like @main or @test'' Unexpected_Token lx)
         else add_token Annotation (text_from start lx) None lx)"

section \<open>Numbers\<close>

datatype number_kind = Integer_Kind | Floating_Kind

definition number_kind_label :: "number_kind \<Rightarrow> string" where
  "number_kind_label k = (case k of Integer_Kind \<Rightarrow> ''integer'' | Floating_Kind \<Rightarrow> ''number'')"

text \<open>
  \<^verbatim>\<open>std::stoll\<close> on a run of digits of the base, the only texts it is given here: no digits is
  \<^verbatim>\<open>invalid_argument\<close>, more than 63 bits \<^verbatim>\<open>out_of_range\<close>.
\<close>

definition literal_digit :: "char \<Rightarrow> nat" where
  "literal_digit c =
     (if code_in CHR ''0'' CHR ''9'' c then of_char c - 48
      else if code_in CHR ''a'' CHR ''f'' c then of_char c - 87 else of_char c - 55)"

definition digits_value :: "nat \<Rightarrow> string \<Rightarrow> nat" where
  "digits_value base ds = foldl (\<lambda>n c. n * base + literal_digit c) 0 ds"

definition int64_literal_max :: nat where "int64_literal_max = 2 ^ 63 - 1"

definition parse_error ::
    "number_kind \<Rightarrow> bool \<Rightarrow> string \<Rightarrow> lexer \<Rightarrow> lexer" where
  "parse_error kind out_of_range lexeme lx =
     (if out_of_range
      then emit_error (lx_token_start lx) (number_kind_label kind @ '' literal out of range: '' @ lexeme)
             (if kind = Integer_Kind then ''use '' @ in_quotes ''number'' @ '' type for values beyond integer range''
              else ''the value exceeds the maximum representable number'') Invalid_Number lx
      else emit_error (lx_token_start lx) (''invalid '' @ number_kind_label kind @ '' literal: '' @ lexeme)
             (''check the number format '' @ [CHR 0xE2, CHR 0x80, CHR 0x94] @
              (if kind = Integer_Kind then '' e.g. 42 or 0xFF'' else '' e.g. 3.14 or 1e10'')) Invalid_Number lx)"

definition parse_integer_literal :: "string \<Rightarrow> nat \<Rightarrow> lexer \<Rightarrow> token_literal \<times> lexer" where
  "parse_integer_literal lexeme base lx =
     (if lexeme = [] then (Lit_Integer 0, parse_error Integer_Kind False lexeme lx)
      else if int64_literal_max < digits_value base lexeme
      then (Lit_Integer 0, parse_error Integer_Kind True lexeme lx)
      else (Lit_Integer (int (digits_value base lexeme)), lx))"

definition parse_float_literal :: "lexer_env \<Rightarrow> string \<Rightarrow> lexer \<Rightarrow> token_literal \<times> lexer" where
  "parse_float_literal env lexeme lx =
     (case le_stod env lexeme of
        Parsed x \<Rightarrow> (Lit_Number x, lx)
      | Out_Of_Range \<Rightarrow> (Lit_Number 0, parse_error Floating_Kind True lexeme lx)
      | Invalid_Argument \<Rightarrow> (Lit_Number 0, parse_error Floating_Kind False lexeme lx))"

definition is_prefixed_literal :: "char \<Rightarrow> char \<Rightarrow> lexer \<Rightarrow> bool" where
  "is_prefixed_literal prefix_char upper_prefix lx \<longleftrightarrow>
     current lx = CHR ''0'' \<and> lx_position lx + 1 < length (lx_source lx) \<and>
     (lx_source lx ! (lx_position lx + 1) = prefix_char \<or> lx_source lx ! (lx_position lx + 1) = upper_prefix)"

definition has_valid_exponent :: "lexer \<Rightarrow> bool" where
  "has_valid_exponent lx =
     (if is_at_end lx \<or> (current lx \<noteq> CHR ''e'' \<and> current lx \<noteq> CHR ''E'') then False
      else let src = lx_source lx; look = lx_position lx + 1;
               look = (if look < length src \<and> (src ! look = CHR ''+'' \<or> src ! look = CHR ''-'')
                       then look + 1 else look)
           in look < length src \<and> is_digit (src ! look))"

definition consume_exponent :: "lexer \<Rightarrow> lexer" where
  "consume_exponent lx =
     (let lx = advance lx;
          lx = (if \<not> is_at_end lx \<and> (current lx = CHR ''+'' \<or> current lx = CHR ''-'') then advance lx else lx)
      in advance_while is_digit lx)"

definition consume_invalid_number_suffix ::
    "string \<Rightarrow> source_location \<Rightarrow> lexer \<Rightarrow> bool \<times> lexer" where
  "consume_invalid_number_suffix kind_name start lx =
     (if identifier_char_width True lx = 0 then (False, lx)
      else let suffix_start = lx_position lx; lx = consume_identifier_chars lx;
               suffix = text_from suffix_start lx; is_digit_suffix = is_digit (hd suffix)
           in (True, emit_syntax_error
                 (if is_digit_suffix
                  then ''invalid digit '' @ in_quotes [hd suffix] @ '' in '' @ kind_name @ '' literal''
                  else ''invalid suffix '' @ in_quotes (sanitize_for_terminal suffix) @ '' on '' @ kind_name @ '' literal'')
                 start
                 (if is_digit_suffix then ''remove the digits that are not valid in this base''
                  else ''separate the number from the following name with a space or operator'')
                 Invalid_Number lx))"

definition scan_prefixed_literal ::
    "(char \<Rightarrow> bool) \<Rightarrow> nat \<Rightarrow> string \<Rightarrow> string \<Rightarrow> nat \<Rightarrow> lexer \<Rightarrow> lexer" where
  "scan_prefixed_literal is_valid_digit base kind_name hint_example start lx =
     (let lx = advance (advance lx); digit_start = lx_position lx;
          lx = advance_while is_valid_digit lx; digit_end = lx_position lx;
          (has_invalid_suffix, lx) = consume_invalid_number_suffix kind_name (lx_token_start lx) lx;
          lexeme = text_from start lx
      in if digit_end = digit_start
         then let lx = (if has_invalid_suffix then lx
                        else emit_syntax_error (kind_name @ '' literal has no digits'') (lx_token_start lx)
                               (''add '' @ kind_name @ '' digits after '' @
                                in_quotes (take 2 (drop start (lx_source lx))) @ '', e.g. '' @ hint_example)
                               Invalid_Number lx)
              in add_token IntegerLiteral lexeme (Some (Lit_Integer 0)) lx
         else let digits = take (digit_end - digit_start) (drop digit_start (lx_source lx));
                  (lit, lx) = parse_integer_literal digits base lx
              in add_token IntegerLiteral lexeme (Some lit) lx)"

definition scan_member_index :: "lexer \<Rightarrow> lexer" where
  "scan_member_index lx =
     (let start = lx_position lx; lx = advance_while is_digit lx; digit_end = lx_position lx;
          (_, lx) = consume_invalid_number_suffix ''tuple index'' (lx_token_start lx) lx;
          lexeme = text_from start lx;
          digits = take (digit_end - start) (drop start (lx_source lx));
          (lit, lx) = parse_integer_literal digits 10 lx
      in add_token IntegerLiteral lexeme (Some lit) lx)"

definition is_hex_digit :: "char \<Rightarrow> bool" where
  "is_hex_digit c \<longleftrightarrow> code_in CHR ''0'' CHR ''9'' c \<or> code_in CHR ''a'' CHR ''f'' c \<or> code_in CHR ''A'' CHR ''F'' c"

definition scan_number :: "lexer_env \<Rightarrow> lexer \<Rightarrow> lexer" where
  "scan_number env lx =
     (let start = lx_position lx
      in if is_prefixed_literal CHR ''x'' CHR ''X'' lx
         then scan_prefixed_literal is_hex_digit 16 ''hex'' ''0xFF'' start lx
         else if is_prefixed_literal CHR ''o'' CHR ''O'' lx
         then scan_prefixed_literal (code_in CHR ''0'' CHR ''7'') 8 ''octal'' ''0o755'' start lx
         else if is_prefixed_literal CHR ''b'' CHR ''B'' lx
         then scan_prefixed_literal (code_in CHR ''0'' CHR ''1'') 2 ''binary'' ''0b1010'' start lx
         else let lx = advance_while is_digit lx;
                  (is_float, lx) = (if \<not> is_at_end lx \<and> current lx = CHR ''.'' \<and> is_digit (peek_next lx)
                                    then (True, advance_while is_digit (advance lx)) else (False, lx));
                  (is_float, lx) = (if has_valid_exponent lx then (True, consume_exponent lx)
                                    else (is_float, lx));
                  number_end = lx_position lx;
                  (_, lx) = consume_invalid_number_suffix (if is_float then ''number'' else ''integer'')
                              (lx_token_start lx) lx;
                  lexeme = text_from start lx;
                  number_text = take (number_end - start) (drop start (lx_source lx))
              in if is_float
                 then let (lit, lx) = parse_float_literal env number_text lx
                      in add_token NumberLiteral lexeme (Some lit) lx
                 else let (lit, lx) = parse_integer_literal number_text 10 lx
                      in add_token IntegerLiteral lexeme (Some lit) lx)"

section \<open>Operators\<close>

definition emit_compound_assign ::
    "token_type \<Rightarrow> string \<Rightarrow> token_type \<Rightarrow> string \<Rightarrow> lexer \<Rightarrow> lexer" where
  "emit_compound_assign single single_lex compound compound_lex lx =
     (let (matched, lx) = match_char CHR ''='' lx
      in if matched then add_token compound compound_lex None lx else add_token single single_lex None lx)"

definition emit_double_then_compound ::
    "char \<Rightarrow> token_type \<Rightarrow> string \<Rightarrow> token_type \<Rightarrow> string \<Rightarrow> token_type \<Rightarrow> string \<Rightarrow> lexer \<Rightarrow> lexer" where
  "emit_double_then_compound second single single_lex doubled doubled_lex assign assign_lex lx =
     (let (matched, lx) = match_char second lx
      in if matched then add_token doubled doubled_lex None lx
         else emit_compound_assign single single_lex assign assign_lex lx)"

definition compound_assign_ops :: "(char \<times> token_type \<times> string \<times> token_type \<times> string) list" where
  "compound_assign_ops =
     [(CHR ''*'', Operator Star, ''*'', Operator StarEquals, ''*=''),
      (CHR ''%'', Operator Percent, ''%'', Operator PercentEquals, ''%=''),
      (CHR ''='', Operator Equals, ''='', Operator EqualsEquals, ''=='')]"

definition try_scan_compound_assign :: "char \<Rightarrow> lexer \<Rightarrow> lexer option" where
  "try_scan_compound_assign character lx =
     (case map_of compound_assign_ops character of
        Some (single, single_lex, compound, compound_lex) \<Rightarrow>
          Some (emit_compound_assign single single_lex compound compound_lex lx)
      | None \<Rightarrow> None)"

definition double_or_assign_ops ::
    "(char \<times> char \<times> token_type \<times> string \<times> token_type \<times> string \<times> token_type \<times> string) list" where
  "double_or_assign_ops =
     [(CHR ''+'', CHR ''+'', Operator Plus, ''+'', Operator PlusPlus, ''++'', Operator PlusEquals, ''+=''),
      (CHR ''!'', CHR ''>'', Operator Bang, ''!'', Operator BangGreater, ''!>'', Operator BangEquals, ''!='')]"

definition try_scan_double_or_assign :: "char \<Rightarrow> lexer \<Rightarrow> lexer option" where
  "try_scan_double_or_assign character lx =
     (case map_of double_or_assign_ops character of
        Some (second, single, single_lex, doubled, doubled_lex, assign, assign_lex) \<Rightarrow>
          Some (emit_double_then_compound second single single_lex doubled doubled_lex assign assign_lex lx)
      | None \<Rightarrow> None)"

definition emit_removed_bitwise_op :: "string \<Rightarrow> string \<Rightarrow> source_location \<Rightarrow> lexer \<Rightarrow> lexer" where
  "emit_removed_bitwise_op lexeme suggestion location lx =
     add_token ErrorToken lexeme None
       (emit_syntax_error (''bitwise '' @ in_quotes lexeme @ '' is not an operator; use '' @ suggestion) location
          ''the bitwise operators moved to the Bits module (Bits.and/or/xor/not/shift_left/shift_right)''
          Unexpected_Token lx)"

text \<open>The chains of \<^verbatim>\<open>match\<close> in the multi-character emitters.\<close>

fun first_match :: "(char \<times> token_type \<times> string) list \<Rightarrow> (lexer \<Rightarrow> lexer) \<Rightarrow> lexer \<Rightarrow> lexer" where
  "first_match [] otherwise lx = otherwise lx"
| "first_match ((c, type, lexeme) # rest) otherwise lx =
     (let (matched, lx) = match_char c lx
      in if matched then add_token type lexeme None lx else first_match rest otherwise lx)"

definition emit_minus_op :: "lexer \<Rightarrow> lexer" where
  "emit_minus_op =
     first_match [(CHR ''-'', Operator MinusMinus, ''--''), (CHR ''='', Operator MinusEquals, ''-=''),
         (CHR ''>'', Operator Arrow, ''->'')]
       (add_token (Operator Minus) ''-'' None)"

definition emit_less_op :: "lexer \<Rightarrow> lexer" where
  "emit_less_op = emit_compound_assign (Operator Less) ''<'' (Operator LessEquals) ''<=''"

definition emit_greater_op :: "lexer \<Rightarrow> lexer" where
  "emit_greater_op =
     first_match [(CHR ''>'', Operator GreaterGreater, ''>>'')]
       (emit_compound_assign (Operator Greater) ''>'' (Operator GreaterEquals) ''>='')"

definition emit_pipe_op :: "lexer \<Rightarrow> lexer" where
  "emit_pipe_op =
     first_match [(CHR ''>'', Operator PipeGreater, ''|>''), (CHR ''|'', Operator PipePipe, ''||'')]
       (add_token (Operator Pipe) ''|'' None)"

definition emit_question_op :: "lexer \<Rightarrow> lexer" where
  "emit_question_op =
     first_match [(CHR ''.'', Operator QuestionDot, ''?.''), (CHR ''?'', Operator QuestionQuestion, ''??''),
         (CHR ''['', Operator QuestionBracket, ''?['')]
       (add_token (Operator QuestionMark) ''?'' None)"

definition emit_dot_op :: "lexer \<Rightarrow> lexer" where
  "emit_dot_op lx =
     (let (matched, lx) = match_char CHR ''.'' lx
      in if matched then emit_compound_assign (Operator DotDot) ''..'' (Operator DotDotEquals) ''..='' lx
         else add_token (Punctuation Dot) ''.'' None lx)"

text \<open>\<^verbatim>\<open>++interpolation_state_.back().brace_depth\<close> when an interpolation is open.\<close>

definition open_brace :: "lexer \<Rightarrow> lexer" where
  "open_brace lx =
     (if lx_interpolation lx = [] then lx
      else lx\<lparr>lx_interpolation := butlast (lx_interpolation lx) @
             [(last (lx_interpolation lx))\<lparr>is_brace_depth := is_brace_depth (last (lx_interpolation lx)) + 1\<rparr>]\<rparr>)"

definition scan_operator :: "char \<Rightarrow> source_location \<Rightarrow> lexer \<Rightarrow> lexer" where
  "scan_operator character location lx =
     (case try_scan_compound_assign character lx of
        Some lx \<Rightarrow> lx
      | None \<Rightarrow>
          (case try_scan_double_or_assign character lx of
             Some lx \<Rightarrow> lx
           | None \<Rightarrow>
               if character = CHR ''-'' then emit_minus_op lx
               else if character = CHR ''/'' then
                 (let (matched, lx) = match_char CHR ''/'' lx
                  in if matched
                     then emit_compound_assign (Operator SlashSlash) ''//'' (Operator SlashSlashEquals) ''//='' lx
                     else emit_compound_assign (Operator Slash) ''/'' (Operator SlashEquals) ''/='' lx)
               else if character = CHR ''<'' then
                 (let (matched, lx) = match_char CHR ''<'' lx
                  in if matched then emit_removed_bitwise_op ''<<'' ''Bits.shift_left(v, n)'' location lx
                     else emit_less_op lx)
               else if character = CHR ''>'' then emit_greater_op lx
               else if character = CHR ''&'' then
                 (let (matched, lx) = match_char CHR ''&'' lx
                  in if matched then add_token (Operator AmpersandAmpersand) ''&&'' None lx
                     else emit_removed_bitwise_op ''&'' ''Bits.and(a, b)'' location lx)
               else if character = CHR 0x5E then
                 emit_removed_bitwise_op [CHR 0x5E] ''Bits.xor(a, b)'' location lx
               else if character = CHR ''~'' then emit_removed_bitwise_op ''~'' ''Bits.not(a)'' location lx
               else if character = CHR ''|'' then emit_pipe_op lx
               else if character = CHR ''?'' then emit_question_op lx
               else if character = CHR ''.'' then emit_dot_op lx
               else if character = CHR ''('' then add_token (Punctuation LeftParen) ''('' None lx
               else if character = CHR '')'' then add_token (Punctuation RightParen) '')'' None lx
               else if character = CHR ''{'' then add_token (Punctuation LeftBrace) ''{'' None (open_brace lx)
               else if character = CHR ''}'' then add_token (Punctuation RightBrace) ''}'' None lx
               else if character = CHR ''['' then add_token (Punctuation LeftBracket) ''['' None lx
               else if character = CHR '']'' then add_token (Punctuation RightBracket) '']'' None lx
               else if character = CHR '','' then add_token (Punctuation Comma) '','' None lx
               else if character = CHR '':'' then
                 (let (matched, lx) = match_char CHR '':'' lx
                  in if matched then add_token (Punctuation ColonColon) ''::'' None lx
                     else add_token (Punctuation Colon) '':'' None lx)
               else add_token ErrorToken [character] None
                      (emit_syntax_error (''unexpected character '' @ in_quotes (sanitize_for_terminal [character]))
                         location ''only letters, digits, and standard operators are allowed''
                         Unexpected_Token lx)))"

section \<open>Escapes and dedentation\<close>

definition escape_value :: "char \<Rightarrow> char option" where
  "escape_value character =
     map_of [(CHR ''n'', CHR 0x0A), (CHR ''t'', CHR 0x09), (CHR ''r'', CHR 0x0D), (CHR ''0'', CHR 0x00),
       (CHR 0x5C, CHR 0x5C), (CHR 0x22, CHR 0x22), (CHR ''$'', CHR ''$'')] character"

definition is_space_or_tab :: "char \<Rightarrow> bool" where
  "is_space_or_tab c \<longleftrightarrow> c = CHR '' '' \<or> c = CHR 0x09"

record dedent_line =
  dl_begin :: nat
  dl_end :: nat
  dl_indent :: nat
  dl_is_blank :: bool

definition fill_false :: "bool list \<Rightarrow> nat \<Rightarrow> nat \<Rightarrow> bool list" where
  "fill_false keep a b = take a keep @ replicate (b - a) False @ drop b keep"

fun piece_starts :: "nat \<Rightarrow> string list \<Rightarrow> nat list" where
  "piece_starts n [] = [n]"
| "piece_starts n (piece # pieces) = n # piece_starts (n + length piece) pieces"

text \<open>
  One line of the combined text, from \<^verbatim>\<open>begin\<close> to the line feed or the end: the mask without the
  carriage return before the line feed, and the line.
\<close>

definition dedent_line_at :: "string \<Rightarrow> nat list \<Rightarrow> nat \<Rightarrow> bool list \<Rightarrow> bool list \<times> dedent_line" where
  "dedent_line_at combined interpolations start keep =
     (let newline = find_char CHR 0x0A combined start;
          line_end = (case newline of None \<Rightarrow> length combined | Some n \<Rightarrow> n);
          crlf = (newline \<noteq> None \<and> start < line_end \<and> combined ! (line_end - 1) = CHR 0x0D);
          keep = (if crlf then keep[line_end - 1 := False] else keep);
          content_end = (if crlf then line_end - 1 else line_end);
          interpolation = find (\<lambda>i. start \<le> i) interpolations;
          has_interpolation = (case interpolation of None \<Rightarrow> False | Some i \<Rightarrow> i \<le> line_end);
          indent_end = (if has_interpolation then the interpolation else content_end);
          indent = length (takeWhile is_space_or_tab (take (indent_end - start) (drop start combined)))
      in (keep, \<lparr>dl_begin = start, dl_end = content_end, dl_indent = indent,
                 dl_is_blank = (\<not> has_interpolation \<and> start + indent = content_end)\<rparr>))"

function dedent_lines ::
    "string \<Rightarrow> nat list \<Rightarrow> nat \<Rightarrow> bool list \<Rightarrow> dedent_line list \<Rightarrow> bool list \<times> dedent_line list" where
  "dedent_lines combined interpolations start keep lines =
     (let (keep, l) = dedent_line_at combined interpolations start keep; lines = lines @ [l]
      in case find_char CHR 0x0A combined start of
           None \<Rightarrow> (keep, lines)
         | Some newline \<Rightarrow> dedent_lines combined interpolations (newline + 1) keep lines)"
  by pat_completeness auto
termination
  by (relation "measure (\<lambda>(combined, _, start, _). length combined - start)") (auto dest!: find_char_Some)

declare dedent_lines.simps [simp del]

definition common_indent :: "dedent_line list \<Rightarrow> nat" where
  "common_indent lines =
     (case map dl_indent (filter (\<lambda>l. \<not> dl_is_blank l) lines) of
        [] \<Rightarrow> 0 | i # is \<Rightarrow> fold min is i)"

definition dedent_mask :: "string list \<Rightarrow> bool list" where
  "dedent_mask pieces =
     (let combined = concat pieces; interpolations = butlast (tl (piece_starts 0 pieces));
          (keep, lines) = dedent_lines combined interpolations 0 (replicate (length combined) True) [];
          drop_first = dl_is_blank (hd lines);
          keep = (if drop_first then fill_false keep 0 (min (dl_end (hd lines) + 1) (length combined)) else keep);
          drop_last = (1 < length lines \<and> dl_is_blank (last lines));
          keep = (if drop_last then fill_false keep (dl_begin (last lines) - 1) (length keep) else keep);
          kept = (if drop_first then tl lines else lines);
          kept = (if drop_last \<and> kept \<noteq> [] then butlast kept else kept);
          common = common_indent kept
      in fold (\<lambda>l keep. fill_false keep (dl_begin l) (dl_begin l + min common (dl_indent l))) kept keep)"

definition dedent_pieces :: "string list \<Rightarrow> string list" where
  "dedent_pieces pieces =
     (let combined = concat pieces; starts = piece_starts 0 pieces; keep = dedent_mask pieces
      in map (\<lambda>i. map (\<lambda>p. combined ! p) (filter (\<lambda>p. keep ! p) [starts ! i..<starts ! (i + 1)]))
           [0..<length pieces])"

fun resolve_escapes :: "string \<Rightarrow> string" where
  "resolve_escapes [] = []"
| "resolve_escapes [c] = (if c = CHR 0x5C then [] else [c])"
| "resolve_escapes (c # d # cs) =
     (if c = CHR 0x5C
      then (case escape_value d of Some v \<Rightarrow> v | None \<Rightarrow> CHR ''?'') # resolve_escapes cs
      else c # resolve_escapes (d # cs))"

section \<open>Strings\<close>

definition unterminated_string :: string where "unterminated_string = ''unterminated string''"

definition close_quote_hint :: string where
  "close_quote_hint = ''add a closing '' @ in_quotes [CHR 0x22] @ '' to end the string''"

definition newline_in_string_hint :: string where
  "newline_in_string_hint =
     ''single-line strings cannot contain newlines '' @ [CHR 0xE2, CHR 0x80, CHR 0x94] @
     '' use a triple-quoted string ('' @ replicate 3 CHR 0x22 @ ''...'' @ replicate 3 CHR 0x22 @
     '') for multi-line text''"

definition close_triple_quote_hint :: string where
  "close_triple_quote_hint = ''add closing '' @ in_quotes (replicate 3 CHR 0x22) @ '' to end the multi-line string''"

definition interpolation_depth_exceeded :: string where
  "interpolation_depth_exceeded = ''maximum string interpolation nesting depth exceeded''"

definition interpolation_depth_hint :: string where
  "interpolation_depth_hint =
     ''reduce the nesting of interpolated expressions, or extract inner values into variables''"

definition check_interpolation_depth :: "lexer_env \<Rightarrow> lexer \<Rightarrow> bool \<times> lexer" where
  "check_interpolation_depth env lx =
     (if le_max_interpolation_depth env \<le> int (length (lx_interpolation lx))
      then (False, emit_syntax_error interpolation_depth_exceeded (lexer_location lx)
                     interpolation_depth_hint Unexpected_Token lx)
      else (True, lx))"

definition begin_interpolation :: "lexer_env \<Rightarrow> bool \<Rightarrow> lexer \<Rightarrow> bool \<times> lexer" where
  "begin_interpolation env triple lx =
     (let (allowed, lx) = check_interpolation_depth env lx
      in if \<not> allowed then (False, lx)
         else let lx = lx\<lparr>lx_token_start := lexer_location lx\<rparr>;
                  lx = add_token InterpolationStart ''${'' None (advance (advance lx))
              in (True, lx\<lparr>lx_interpolation := lx_interpolation lx @
                             [\<lparr>is_brace_depth = 1, is_triple_quoted = triple\<rparr>]\<rparr>))"

definition scan_escape_char :: "lexer \<Rightarrow> char \<times> lexer" where
  "scan_escape_char lx =
     (let here = lexer_location lx;
          backslash_location = here\<lparr>column := max 1 (column here - 1)\<rparr>;
          character = current lx; lx = advance lx
      in case escape_value character of
           Some v \<Rightarrow> (v, lx)
         | None \<Rightarrow> (CHR ''?'',
             emit_syntax_error (''unknown escape sequence '' @ [CHR 0x27, CHR 0x5C] @
                                sanitize_for_terminal [character] @ [CHR 0x27])
               backslash_location
               (''valid escape sequences are '' @ [CHR 0x5C] @ ''n, '' @ [CHR 0x5C] @ ''t, '' @ [CHR 0x5C] @
                ''r, '' @ [CHR 0x5C] @ ''0, '' @ [CHR 0x5C, CHR 0x5C] @ '', '' @ [CHR 0x5C, CHR 0x22] @
                '' and '' @ [CHR 0x5C] @ ''$'') Unexpected_Token lx))"

definition scan_escape_sequence :: "lexer \<Rightarrow> char option \<times> lexer" where
  "scan_escape_sequence lx =
     (let lx = advance lx
      in if is_at_end lx
         then (None, emit_syntax_error unterminated_string (lx_segment_start lx) close_quote_hint
                       Unterminated_String lx)
         else let (c, lx) = scan_escape_char lx in (Some c, lx))"

text \<open>How the scan of a string segment ended.\<close>

datatype string_end = Has_Interpolation | Is_Terminated | Not_Terminated

lemma scan_escape_char_fields [simp]: "lx_cursor (snd (scan_escape_char lx)) = cursor_advance (lx_cursor lx)"
  by (simp add: scan_escape_char_def Let_def split: option.split)

lemma scan_escape_sequence_progress:
  "lx_source (snd (scan_escape_sequence lx)) = lx_source lx \<and>
   lx_position lx < lx_position (snd (scan_escape_sequence lx))"
  using scan_escape_char_fields [of "advance lx"]
  by (cases "scan_escape_char (advance lx)") (simp add: scan_escape_sequence_def Let_def)

lemma scan_escape_sequence_moves:
  "(r, lx') = scan_escape_sequence lx \<Longrightarrow> lx_source lx' = lx_source lx \<and> lx_position lx < lx_position lx'"
  using scan_escape_sequence_progress [of lx] by (metis snd_conv)

function scan_string_loop :: "string \<Rightarrow> lexer \<Rightarrow> (string \<times> string_end) \<times> lexer" where
  "scan_string_loop txt lx =
     (if is_at_end lx
      then ((txt, Not_Terminated),
            emit_syntax_error unterminated_string (lx_segment_start lx) close_quote_hint Unterminated_String lx)
      else if current lx = CHR 0x22 then ((txt, Is_Terminated), advance lx)
      else if current lx = CHR 0x5C then
        (case scan_escape_sequence lx of
           (None, lx') \<Rightarrow> ((txt, Not_Terminated), lx')
         | (Some c, lx') \<Rightarrow> scan_string_loop (txt @ [c]) lx')
      else if current lx = CHR ''$'' \<and> peek_next lx = CHR ''{'' then ((txt, Has_Interpolation), lx)
      else if current lx = CHR 0x0A
      then ((txt, Not_Terminated),
            emit_syntax_error unterminated_string (lx_segment_start lx) newline_in_string_hint
              Unterminated_String lx)
      else scan_string_loop (txt @ [current lx]) (advance lx))"
  by pat_completeness auto
termination
  by (relation "measure (\<lambda>(_, lx). length (lx_source lx) - lx_position lx)")
    (auto simp: is_at_end_iff dest!: scan_escape_sequence_moves)

declare scan_string_loop.simps [simp del]

definition scan_string_content :: "lexer \<Rightarrow> (string \<times> string_end) \<times> lexer" where
  "scan_string_content lx = scan_string_loop [] lx"

definition add_terminal_string_token :: "bool \<Rightarrow> string \<Rightarrow> lexer \<Rightarrow> lexer" where
  "add_terminal_string_token is_continuation txt lx =
     restamp_last (lx_segment_start lx)
       (if is_continuation then add_token StringEnd txt None lx
        else add_token StringLiteral txt (Some (Lit_String txt)) lx)"

definition triple_quoted_segment_open_type :: "bool \<Rightarrow> lexer \<Rightarrow> token_type" where
  "triple_quoted_segment_open_type is_continuation lx =
     (if is_continuation then StringMiddle
      else if lx_tokens lx = [] \<or> tk_type (last (lx_tokens lx)) \<noteq> InterpolationEnd then StringStart
      else StringMiddle)"

definition emit_string_tokens :: "lexer_env \<Rightarrow> bool \<Rightarrow> lexer \<Rightarrow> lexer" where
  "emit_string_tokens env is_continuation lx =
     (let ((txt, ending), lx) = scan_string_content lx
      in if ending = Has_Interpolation
         then snd (begin_interpolation env False
                (restamp_last (lx_segment_start lx)
                   (add_token (if is_continuation then StringMiddle else StringStart) txt None lx)))
         else add_terminal_string_token is_continuation txt lx)"

definition scan_string :: "lexer_env \<Rightarrow> lexer \<Rightarrow> lexer" where
  "scan_string env lx = emit_string_tokens env False lx"

definition scan_string_continuation :: "lexer_env \<Rightarrow> lexer \<Rightarrow> lexer" where
  "scan_string_continuation env lx = emit_string_tokens env True lx"

section \<open>Triple-in_quotes strings\<close>

text \<open>After the first of two quotes: whether three were there, with the raw text so far.\<close>

definition try_consume_triple_quote :: "string \<Rightarrow> lexer \<Rightarrow> bool \<times> string \<times> lexer" where
  "try_consume_triple_quote raw lx =
     (let lx = advance lx
      in if is_at_end lx \<or> current lx \<noteq> CHR 0x22 then (False, raw @ [CHR 0x22], lx)
         else let lx = advance lx
              in if is_at_end lx \<or> current lx \<noteq> CHR 0x22 then (False, raw @ [CHR 0x22, CHR 0x22], lx)
                 else (True, raw, advance lx))"

definition record_triple_quoted_piece :: "string \<Rightarrow> lexer \<Rightarrow> lexer" where
  "record_triple_quoted_piece raw lx =
     (let stack = (if lx_open_triple lx = [] then [[]] else lx_open_triple lx)
      in lx\<lparr>lx_open_triple := butlast stack @ [last stack @ [(length (lx_tokens lx) - 1, raw)]]\<rparr>)"

definition rewrite_piece :: "string \<Rightarrow> token \<Rightarrow> token" where
  "rewrite_piece txt t =
     (let t = (if tk_type t = StringLiteral then t\<lparr>tk_literal := Some (Lit_String txt)\<rparr> else t)
      in t\<lparr>tk_lexeme := txt\<rparr>)"

definition finish_triple_quoted_string :: "lexer \<Rightarrow> lexer" where
  "finish_triple_quoted_string lx =
     (let pieces = last (lx_open_triple lx); lx = lx\<lparr>lx_open_triple := butlast (lx_open_triple lx)\<rparr>
      in if pieces = [] then lx
         else let dedented = dedent_pieces (map snd pieces)
              in lx\<lparr>lx_tokens := fold (\<lambda>((index, _), d) tokens.
                      tokens[index := rewrite_piece (resolve_escapes d) (tokens ! index)])
                    (zip pieces dedented) (lx_tokens lx)\<rparr>)"

text \<open>The loop over the body: it either finished the segment or ran out of source with the raw text.\<close>

datatype triple_end = Triple_Done lexer | Triple_Broke string lexer

lemma try_consume_moves:
  "(b, raw', lx') = try_consume_triple_quote raw lx \<Longrightarrow>
   lx_source lx' = lx_source lx \<and> lx_position lx < lx_position lx'"
  by (auto simp: try_consume_triple_quote_def Let_def split: if_splits)

definition interpolate_triple :: "lexer_env \<Rightarrow> bool \<Rightarrow> string \<Rightarrow> lexer \<Rightarrow> lexer" where
  "interpolate_triple env is_continuation raw lx =
     (let lx = restamp_last (lx_segment_start lx)
                 (add_token (triple_quoted_segment_open_type is_continuation lx) [] None lx);
          lx = record_triple_quoted_piece raw lx;
          (begun, lx) = begin_interpolation env True lx
      in if begun then lx else finish_triple_quoted_string lx)"

definition close_triple :: "bool \<Rightarrow> string \<Rightarrow> lexer \<Rightarrow> lexer" where
  "close_triple is_continuation raw lx =
     finish_triple_quoted_string
       (record_triple_quoted_piece raw (add_terminal_string_token is_continuation [] lx))"

function triple_loop :: "lexer_env \<Rightarrow> bool \<Rightarrow> string \<Rightarrow> lexer \<Rightarrow> triple_end" where
  "triple_loop env is_continuation raw lx =
     (if is_at_end lx then Triple_Broke raw lx
      else if current lx = CHR 0x22 \<and> peek_next lx = CHR 0x22 then
        (case try_consume_triple_quote raw lx of
           (True, raw', lx') \<Rightarrow> Triple_Done (close_triple is_continuation raw' lx')
         | (False, raw', lx') \<Rightarrow> triple_loop env is_continuation raw' lx')
      else if current lx = CHR 0x5C then
        (let raw = raw @ [current lx]; lx = advance lx
         in if is_at_end lx then Triple_Broke raw lx
            else triple_loop env is_continuation (raw @ [current lx]) (snd (scan_escape_char lx)))
      else if current lx = CHR ''$'' \<and> peek_next lx = CHR ''{''
      then Triple_Done (interpolate_triple env is_continuation raw lx)
      else triple_loop env is_continuation (raw @ [current lx]) (advance lx))"
  by pat_completeness auto
termination
  by (relation "measure (\<lambda>(_, _, _, lx). length (lx_source lx) - lx_position lx)")
    (auto simp: is_at_end_iff dest!: try_consume_moves)

declare triple_loop.simps [simp del]

definition scan_triple_quoted_string_body :: "lexer_env \<Rightarrow> bool \<Rightarrow> lexer \<Rightarrow> lexer" where
  "scan_triple_quoted_string_body env is_continuation lx =
     (let lx = (if is_continuation then lx else lx\<lparr>lx_open_triple := lx_open_triple lx @ [[]]\<rparr>)
      in case triple_loop env is_continuation [] lx of
           Triple_Done lx \<Rightarrow> lx
         | Triple_Broke raw lx \<Rightarrow>
             close_triple is_continuation raw
               (emit_syntax_error unterminated_string (lx_segment_start lx) close_triple_quote_hint
                  Unterminated_String lx))"

section \<open>Tokens\<close>

definition try_close_interpolation :: "lexer_env \<Rightarrow> lexer \<Rightarrow> bool \<times> lexer" where
  "try_close_interpolation env lx =
     (let state = last (lx_interpolation lx); state = state\<lparr>is_brace_depth := is_brace_depth state - 1\<rparr>
      in if is_brace_depth state = 0
         then let lx = lx\<lparr>lx_interpolation := butlast (lx_interpolation lx)\<rparr>;
                  lx = add_token InterpolationEnd ''}'' None (advance lx);
                  lx = lx\<lparr>lx_segment_start := lexer_location lx\<rparr>
              in (True, if is_triple_quoted state then scan_triple_quoted_string_body env True lx
                        else scan_string_continuation env lx)
         else (False, lx\<lparr>lx_interpolation := butlast (lx_interpolation lx) @ [state]\<rparr>))"

text \<open>The part of \<^verbatim>\<open>scan_token\<close> after the check for a closing brace.\<close>

definition scan_plain_token :: "lexer_env \<Rightarrow> lexer \<Rightarrow> lexer" where
  "scan_plain_token env lx =
     (let character = current lx; location = lexer_location lx
      in if is_digit character
         then (if lx_tokens lx \<noteq> [] \<and> (tk_type (last (lx_tokens lx)) = Punctuation Dot \<or>
                                        tk_type (last (lx_tokens lx)) = Operator QuestionDot)
               then scan_member_index lx else scan_number env lx)
         else if 0 < identifier_char_width False lx then scan_identifier lx
         else if k_utf8_ascii_max \<le> (of_char character :: byte) then scan_invalid_non_ascii location lx
         else if character = CHR 0x22 then
           (let lx = advance (lx\<lparr>lx_segment_start := location\<rparr>)
            in if \<not> is_at_end lx \<and> current lx = CHR 0x22 \<and> peek_next lx = CHR 0x22
               then scan_triple_quoted_string_body env False (advance (advance lx))
               else scan_string env lx)
         else if character = CHR ''@'' then scan_annotation lx
         else scan_operator character location (advance lx))"

definition scan_token :: "lexer_env \<Rightarrow> lexer \<Rightarrow> lexer" where
  "scan_token env lx =
     (let (closed, lx) = (if lx_interpolation lx \<noteq> [] \<and> current lx = CHR ''}''
                          then try_close_interpolation env lx else (False, lx))
      in if closed then lx else scan_plain_token env lx)"

section \<open>Every token moves the cursor\<close>

definition moves :: "lexer \<Rightarrow> lexer \<Rightarrow> bool" where
  "moves lx lx' \<longleftrightarrow> lx_source lx' = lx_source lx \<and> lx_position lx < lx_position lx'"

lemma moves_advance [simp]: "moves lx (advance lx)" by (simp add: moves_def)

lemma moves_onward: "moves a b \<Longrightarrow> onward b c \<Longrightarrow> moves a c" by (simp add: moves_def onward_def)

lemma onward_moves: "onward a b \<Longrightarrow> moves b c \<Longrightarrow> moves a c" by (simp add: moves_def onward_def)

lemma moves_imp_onward: "moves a b \<Longrightarrow> onward a b" by (simp add: moves_def onward_def)

text \<open>Only the cursor matters.\<close>

lemma onward_cursor: "lx_cursor a = lx_cursor a' \<Longrightarrow> lx_cursor b = lx_cursor b' \<Longrightarrow> onward a b = onward a' b'"
  by (simp add: onward_def)

lemma moves_cursor: "lx_cursor a = lx_cursor a' \<Longrightarrow> lx_cursor b = lx_cursor b' \<Longrightarrow> moves a b = moves a' b'"
  by (simp add: moves_def)

lemma onward_state [simp]:
  "onward a (emit_error loc m h c b) = onward a b" "onward a (emit_warning loc m h b) = onward a b"
  "onward a (emit_syntax_error m loc h c b) = onward a b" "onward a (add_token t l lit b) = onward a b"
  "onward a (restamp_last loc b) = onward a b" "onward a (b\<lparr>lx_interpolation := i\<rparr>) = onward a b"
  "onward a (b\<lparr>lx_open_triple := o1\<rparr>) = onward a b" "onward a (b\<lparr>lx_token_start := t1\<rparr>) = onward a b"
  "onward a (b\<lparr>lx_segment_start := t1\<rparr>) = onward a b" "onward a (b\<lparr>lx_newline_pending := n\<rparr>) = onward a b"
  "onward a (b\<lparr>lx_tokens := ts\<rparr>) = onward a b"
  by (simp_all add: onward_def)

lemma onward_from [simp]:
  "onward (a\<lparr>lx_interpolation := i\<rparr>) b = onward a b" "onward (a\<lparr>lx_open_triple := o1\<rparr>) b = onward a b"
  "onward (a\<lparr>lx_token_start := t1\<rparr>) b = onward a b" "onward (a\<lparr>lx_segment_start := t1\<rparr>) b = onward a b"
  "onward (emit_syntax_error m loc h c a) b = onward a b" "onward (add_token t l lit a) b = onward a b"
  by (simp_all add: onward_def)

lemma consume_identifier_chars_onward [simp]: "onward lx (consume_identifier_chars lx)"
proof (induction lx rule: consume_identifier_chars.induct)
  case (1 lx)
  then show ?case
    by (subst consume_identifier_chars.simps) (auto simp: Let_def onward_def)
qed

lemma identifier_width_moves:
  "0 < identifier_char_width False lx \<Longrightarrow> moves lx (consume_identifier_chars lx)"
proof -
  assume a: "0 < identifier_char_width False lx"
  then have "0 < identifier_char_width True lx" by (auto simp: identifier_char_width_def Let_def split: if_splits)
  moreover have "onward (advance_by (identifier_char_width True lx) lx)
      (consume_identifier_chars (advance_by (identifier_char_width True lx) lx))" by simp
  ultimately show ?thesis by (subst consume_identifier_chars.simps) (auto simp: Let_def onward_def moves_def)
qed

lemma advance_while_moves: "\<not> is_at_end lx \<Longrightarrow> p (current lx) \<Longrightarrow> moves lx (advance_while p lx)"
  by (subst advance_while.simps) (simp add: moves_onward [OF moves_advance])

lemma suffix_onward [simp]: "onward lx (snd (consume_invalid_number_suffix k st lx))"
  by (simp add: consume_invalid_number_suffix_def Let_def)

lemma suffix_onward_from: "onward a lx \<Longrightarrow> onward a (snd (consume_invalid_number_suffix k st lx))"
  using onward_trans [OF _ suffix_onward] .

lemma parse_cursor [simp]:
  "lx_cursor (snd (parse_integer_literal l b lx)) = lx_cursor lx"
  "lx_cursor (snd (parse_float_literal env l lx)) = lx_cursor lx"
  by (simp_all add: parse_integer_literal_def parse_float_literal_def parse_error_def split: stod_result.split)

text \<open>Scanners, one by one.\<close>

lemma scan_identifier_moves: "0 < identifier_char_width False lx \<Longrightarrow> moves lx (scan_identifier lx)"
  using identifier_width_moves [of lx] by (simp add: scan_identifier_def Let_def moves_def)

lemma scan_annotation_moves: "moves lx (scan_annotation lx)"
  using consume_identifier_chars_onward [of "advance lx"]
  by (auto simp: scan_annotation_def Let_def moves_def onward_def)

lemma scan_invalid_moves: "\<not> is_at_end lx \<Longrightarrow> moves lx (scan_invalid_non_ascii loc lx)"
  using advance_while_onward [of "advance lx" "\<lambda>c. is_utf8_continuation (of_char c)"]
  by (auto simp: scan_invalid_non_ascii_def Let_def moves_def onward_def)

lemma scan_prefixed_moves: "moves lx (scan_prefixed_literal p b k h st lx)"
proof -
  let ?l1 = "advance_while p (advance (advance lx))"
  let ?l2 = "snd (consume_invalid_number_suffix k (lx_token_start ?l1) ?l1)"
  have "onward (advance (advance lx)) ?l2"
    by (intro suffix_onward_from advance_while_onward)
  then have "moves lx ?l2" by (simp add: moves_def onward_def)
  then show ?thesis
    by (auto simp: scan_prefixed_literal_def Let_def moves_def split: prod.splits)
      (metis snd_conv parse_cursor(1))+
qed

lemma digits_move: "\<not> is_at_end lx \<Longrightarrow> is_digit (current lx) \<Longrightarrow> moves lx (advance_while is_digit lx)"
  by (rule advance_while_moves)

lemma scan_member_index_moves:
  assumes "\<not> is_at_end lx" and "is_digit (current lx)"
  shows "moves lx (scan_member_index lx)"
proof -
  let ?l1 = "advance_while is_digit lx"
  let ?l2 = "snd (consume_invalid_number_suffix ''tuple index'' (lx_token_start ?l1) ?l1)"
  have "moves lx ?l2" by (rule moves_onward [OF digits_move [OF assms] suffix_onward])
  then show ?thesis
    by (auto simp: scan_member_index_def Let_def moves_def split: prod.splits)
      (metis snd_conv parse_cursor(1))+
qed

lemma consume_exponent_onward [simp]: "onward lx (consume_exponent lx)"
proof -
  have "onward lx (advance_while p (advance lx))" "onward lx (advance_while p (advance (advance lx)))" for p
    by (rule onward_trans [OF _ advance_while_onward], simp add: onward_def)+
  then show ?thesis by (simp add: consume_exponent_def Let_def)
qed

text \<open>The decimal branch of \<^verbatim>\<open>scan_number\<close> in steps.\<close>

definition fraction :: "lexer \<Rightarrow> bool \<times> lexer" where
  "fraction lx =
     (if \<not> is_at_end lx \<and> current lx = CHR ''.'' \<and> is_digit (peek_next lx)
      then (True, advance_while is_digit (advance lx)) else (False, lx))"

lemma fraction_onward [simp]: "onward lx (snd (fraction lx))"
  by (auto simp: fraction_def intro: onward_trans [OF onward_advance])

lemma scan_number_moves:
  assumes "\<not> is_at_end lx" and "is_digit (current lx)"
  shows "moves lx (scan_number env lx)"
proof -
  let ?l1 = "advance_while is_digit lx"
  define l2 where "l2 = snd (fraction ?l1)"
  define l3 where "l3 = (if has_valid_exponent l2 then consume_exponent l2 else l2)"
  have m3: "moves lx l3"
    using moves_onward [OF digits_move [OF assms] fraction_onward]
    by (auto simp: l3_def l2_def intro: moves_onward)
  have m4: "moves lx (snd (consume_invalid_number_suffix k (lx_token_start l3) l3))" for k
    by (rule moves_onward [OF m3 suffix_onward])
  obtain f2 where f2: "fraction ?l1 = (f2, l2)" by (metis l2_def prod.collapse)
  show ?thesis
  proof (cases "is_prefixed_literal CHR ''x'' CHR ''X'' lx \<or> is_prefixed_literal CHR ''o'' CHR ''O'' lx \<or>
      is_prefixed_literal CHR ''b'' CHR ''B'' lx")
    case True
    then show ?thesis by (auto simp: scan_number_def Let_def scan_prefixed_moves)
  next
    case False
    define f3 where "f3 = (has_valid_exponent l2 \<or> f2)"
    have f3: "(if has_valid_exponent l2 then (True, consume_exponent l2) else (f2, l2)) = (f3, l3)"
      by (simp add: l3_def f3_def)
    have "lx_cursor (scan_number env lx) =
        lx_cursor (snd (consume_invalid_number_suffix (if f3 then ''number'' else ''integer'') (lx_token_start l3) l3))"
      using False f2 f3
      by (simp add: scan_number_def Let_def flip: fraction_def split: prod.split)
        (metis snd_conv parse_cursor)
    with m4 show ?thesis by (simp add: moves_def)
  qed
qed

lemma string_loop_onward: "onward lx (snd (scan_string_loop str lx))"
proof (induction str lx rule: scan_string_loop.induct)
  case (1 str lx)
  show ?case
  proof (cases "scan_escape_sequence lx")
    case (Pair r lx')
    then have "onward lx lx'" using scan_escape_sequence_moves [of r lx' lx] by (simp add: onward_def)
    with 1 Pair show ?thesis
      by (subst scan_string_loop.simps) (auto intro: onward_trans onward_trans [OF onward_advance] split: option.split)
  qed
qed

lemma begin_interpolation_onward [simp]: "onward lx (snd (begin_interpolation env t lx))"
  by (auto simp: begin_interpolation_def check_interpolation_depth_def Let_def onward_def)

lemma begin_interpolation_onward_from: "onward a lx \<Longrightarrow> onward a (snd (begin_interpolation env t lx))"
  using onward_trans [OF _ begin_interpolation_onward] .

lemma emit_string_tokens_onward [simp]: "onward lx (emit_string_tokens env c lx)"
  using string_loop_onward [of lx "[]"]
  by (auto simp: emit_string_tokens_def scan_string_content_def add_terminal_string_token_def Let_def
      split: prod.split intro!: begin_interpolation_onward_from)

lemma finish_triple_cursor [simp]: "lx_cursor (finish_triple_quoted_string lx) = lx_cursor lx"
  by (simp add: finish_triple_quoted_string_def Let_def)

lemma record_piece_cursor [simp]: "lx_cursor (record_triple_quoted_piece raw lx) = lx_cursor lx"
  by (simp add: record_triple_quoted_piece_def Let_def)

lemma close_triple_cursor [simp]: "lx_cursor (close_triple c raw lx) = lx_cursor lx"
  by (simp add: close_triple_def add_terminal_string_token_def)

lemma interpolate_triple_onward [simp]: "onward lx (interpolate_triple env c raw lx)"
proof -
  let ?l = "record_triple_quoted_piece raw (restamp_last (lx_segment_start lx)
      (add_token (triple_quoted_segment_open_type c lx) [] None lx))"
  have "onward ?l (snd (begin_interpolation env True ?l))" by simp
  then show ?thesis
    by (auto simp: interpolate_triple_def Let_def onward_def split: prod.split)
qed

primrec triple_end_lexer :: "triple_end \<Rightarrow> lexer" where
  "triple_end_lexer (Triple_Done lx) = lx"
| "triple_end_lexer (Triple_Broke raw lx) = lx"

lemma triple_loop_onward: "onward lx (triple_end_lexer (triple_loop env c raw lx))"
proof (induction env c raw lx rule: triple_loop.induct)
  case (1 env c raw lx)
  obtain b raw' lx' where t: "try_consume_triple_quote raw lx = (b, raw', lx')" by (metis prod_cases3)
  then have o: "onward lx lx'" using try_consume_moves [of b raw' lx' raw lx] by (simp add: onward_def)
  have e: "onward lx (snd (scan_escape_char (advance lx)))" by (simp add: onward_def)
  show ?case
  proof (cases "is_at_end lx \<or> (current lx = CHR 0x5C \<and> is_at_end (advance lx)) \<or>
      (current lx = CHR ''$'' \<and> peek_next lx = CHR ''{'')")
    case True
    then show ?thesis by (subst triple_loop.simps) (auto simp: Let_def)
  next
    case False
    then consider (quote) "current lx = CHR 0x22" "peek_next lx = CHR 0x22" "\<not> is_at_end lx"
      | (escape) "current lx = CHR 0x5C" "\<not> is_at_end (advance lx)" "\<not> is_at_end lx"
      | (plain) "\<not> is_at_end lx" "\<not> (current lx = CHR 0x22 \<and> peek_next lx = CHR 0x22)"
          "current lx \<noteq> CHR 0x5C" "\<not> (current lx = CHR ''$'' \<and> peek_next lx = CHR ''{'')" by blast
    then show ?thesis
    proof cases
      case quote
      with 1(1) [OF quote(3) conjI [OF quote(1,2)] t [symmetric]] t o show ?thesis
        by (subst triple_loop.simps) (auto intro: onward_trans onward_cursor [THEN iffD1, of lx lx lx'] split: bool.split)
    next
      case escape
      with 1(2) [OF escape(3) _ escape(1) refl refl escape(2)] e show ?thesis
        by (subst triple_loop.simps) (auto simp: Let_def intro: onward_trans)
    next
      case plain
      with 1(3) [OF plain] show ?thesis
        by (subst triple_loop.simps) (auto intro: onward_trans [OF onward_advance])
    qed
  qed
qed


lemma triple_body_onward [simp]: "onward lx (scan_triple_quoted_string_body env c lx)"
proof -
  let ?l = "if c then lx else lx\<lparr>lx_open_triple := lx_open_triple lx @ [[]]\<rparr>"
  have "onward lx (triple_end_lexer (triple_loop env c [] ?l))"
    using triple_loop_onward [of ?l env c "[]"] by (cases c) simp_all
  then show ?thesis
    by (cases "triple_loop env c [] ?l") (simp_all add: scan_triple_quoted_string_body_def onward_def)
qed

lemma match_onward_from: "onward a lx \<Longrightarrow> onward a (snd (match_char c lx))"
  using onward_trans [OF _ match_char_onward] .

lemma compound_onward: "onward a lx \<Longrightarrow> onward a (emit_compound_assign t l t' l' lx)"
  using match_onward_from [of a lx "CHR ''=''"] by (auto simp: emit_compound_assign_def split: prod.split)

lemma double_onward: "onward a lx \<Longrightarrow> onward a (emit_double_then_compound c t l t' l' t'' l'' lx)"
  using match_onward_from [of a lx c] by (auto simp: emit_double_then_compound_def compound_onward split: prod.split)

lemma first_match_onward:
  assumes "\<And>lx. onward a lx \<Longrightarrow> onward a (f lx)" and "onward a lx"
  shows "onward a (first_match rows f lx)"
  using assms(2)
proof (induction rows arbitrary: lx)
  case (Cons row rest)
  obtain c t l where row: "row = (c, t, l)" by (metis prod_cases3)
  obtain b lx' where m: "match_char c lx = (b, lx')" by fastforce
  then have "onward a lx'" using match_onward_from [OF Cons.prems, of c] by simp
  with Cons.IH m row show ?case by simp
qed (use assms(1) in simp)

lemma scan_operator_onward [simp]: "onward lx (scan_operator c loc lx)"
proof -
  have m: "onward lx (snd (match_char d lx))" for d by simp
  note emitters = emit_minus_op_def emit_less_op_def emit_greater_op_def emit_pipe_op_def emit_question_op_def
    emit_removed_bitwise_op_def open_brace_def
  have one: "onward lx l \<Longrightarrow> onward lx (emit_minus_op l)" "onward lx l \<Longrightarrow> onward lx (emit_less_op l)"
    "onward lx l \<Longrightarrow> onward lx (emit_greater_op l)" "onward lx l \<Longrightarrow> onward lx (emit_pipe_op l)"
    "onward lx l \<Longrightarrow> onward lx (emit_question_op l)" for l
    by (simp_all only: emitters) (auto intro!: first_match_onward compound_onward simp del: first_match.simps)
  have tables: "onward lx l" if "try_scan_compound_assign c lx = Some l \<or> try_scan_double_or_assign c lx = Some l" for l
    using that
    by (auto simp: try_scan_compound_assign_def try_scan_double_or_assign_def compound_onward double_onward
        split: option.splits)
  have two: "onward lx (case match_char d lx of (b, l) \<Rightarrow> if b then f l else g l)"
    if "\<And>l. onward lx l \<Longrightarrow> onward lx (f l)" "\<And>l. onward lx l \<Longrightarrow> onward lx (g l)" for d f g
    using that m [of d] by (cases "match_char d lx") simp
  have dot: "onward lx (emit_dot_op lx)"
    unfolding emit_dot_op_def Let_def by (intro two compound_onward) simp_all
  show ?thesis
  proof (cases "try_scan_compound_assign c lx = None \<and> try_scan_double_or_assign c lx = None")
    case False
    then show ?thesis
      using tables by (cases "try_scan_compound_assign c lx"; cases "try_scan_double_or_assign c lx")
        (simp_all add: scan_operator_def)
  next
    case True
    then show ?thesis
      unfolding scan_operator_def Let_def
      by (simp add: one dot two compound_onward open_brace_def emit_removed_bitwise_op_def)
  qed
qed

lemma scan_plain_token_moves:
  assumes "\<not> is_at_end lx"
  shows "moves lx (scan_plain_token env lx)"
proof -
  have string: "onward (advance (lx\<lparr>lx_segment_start := loc\<rparr>)) (scan_string env (advance (lx\<lparr>lx_segment_start := loc\<rparr>)))" for loc
    by (simp add: scan_string_def)
  have triple: "onward (advance (advance (advance (lx\<lparr>lx_segment_start := loc\<rparr>))))
      (scan_triple_quoted_string_body env False (advance (advance (advance (lx\<lparr>lx_segment_start := loc\<rparr>)))))" for loc
    by simp
  have "onward (advance lx) (scan_operator c loc (advance lx))" for c loc by simp
  then have operator: "moves lx (scan_operator c loc (advance lx))" for c loc
    by (rule moves_onward [OF moves_advance])
  let ?q = "advance (lx\<lparr>lx_segment_start := lexer_location lx\<rparr>)"
  have quote: "moves lx (scan_string env ?q)" "moves lx (scan_triple_quoted_string_body env False (advance (advance ?q)))"
    using string [of "lexer_location lx"] triple [of "lexer_location lx"] by (simp_all add: moves_def onward_def)
  show ?thesis
    unfolding scan_plain_token_def Let_def
    using assms
    by (simp add: scan_member_index_moves scan_number_moves scan_identifier_moves
        scan_invalid_moves scan_annotation_moves operator quote split: if_split)
qed

lemma try_close_onward:
  assumes "lx_interpolation lx \<noteq> []"
  shows "onward lx (snd (try_close_interpolation env lx))"
    and "fst (try_close_interpolation env lx) \<Longrightarrow> moves lx (snd (try_close_interpolation env lx))"
    and "\<not> fst (try_close_interpolation env lx) \<Longrightarrow> lx_cursor (snd (try_close_interpolation env lx)) = lx_cursor lx"
proof -
  let ?l0 = "add_token InterpolationEnd ''}'' None (advance (lx\<lparr>lx_interpolation := butlast (lx_interpolation lx)\<rparr>))"
  let ?l = "?l0\<lparr>lx_segment_start := lexer_location ?l0\<rparr>"
  have "onward ?l (scan_triple_quoted_string_body env True ?l)" by simp
  moreover have "onward ?l (scan_string_continuation env ?l)" by (simp add: scan_string_continuation_def)
  ultimately have m: "moves lx (scan_triple_quoted_string_body env True ?l)" "moves lx (scan_string_continuation env ?l)"
    by (simp_all add: moves_def onward_def)
  show moves: "fst (try_close_interpolation env lx) \<Longrightarrow> moves lx (snd (try_close_interpolation env lx))"
    using m by (auto simp: try_close_interpolation_def Let_def split: if_splits)
  show keeps: "\<not> fst (try_close_interpolation env lx) \<Longrightarrow> lx_cursor (snd (try_close_interpolation env lx)) = lx_cursor lx"
    by (auto simp: try_close_interpolation_def Let_def split: if_splits)
  show "onward lx (snd (try_close_interpolation env lx))"
    using moves_imp_onward [OF moves] keeps by (cases "fst (try_close_interpolation env lx)") (simp_all add: onward_def)
qed

lemma scan_token_moves:
  assumes "\<not> is_at_end lx"
  shows "moves lx (scan_token env lx)"
proof (cases "lx_interpolation lx \<noteq> [] \<and> current lx = CHR ''}''")
  case False
  then show ?thesis using scan_plain_token_moves [OF assms] by (auto simp: scan_token_def)
next
  case True
  obtain b l where l: "try_close_interpolation env lx = (b, l)" by fastforce
  show ?thesis
  proof (cases b)
    case True
    then show ?thesis using try_close_onward(2) [of lx env] \<open>_ \<and> _\<close> l by (simp add: scan_token_def)
  next
    case False
    then have c: "lx_cursor l = lx_cursor lx" using try_close_onward(3) [of lx env] \<open>_ \<and> _\<close> l by simp
    then have "moves l (scan_plain_token env l)"
      using assms by (intro scan_plain_token_moves) (simp add: is_at_end_def)
    then show ?thesis using c False l \<open>_ \<and> _\<close> by (simp add: scan_token_def moves_def)
  qed
qed

lemma skip_blank_onward [simp]: "onward lx (skip_blank lx w)"
proof (induction lx w rule: skip_blank.induct)
  case (1 lx w)
  show ?case
  proof (cases "is_at_end lx \<or> skip_line_break_or_blank lx w = None")
    case True
    then show ?thesis by (subst skip_blank.simps) auto
  next
    case False
    then obtain lx' w' where s: "skip_line_break_or_blank lx w = Some (lx', w')" by auto
    then have "onward lx lx'" using skip_step_onward [OF s] False by (simp add: onward_def)
    with 1 [OF _ s refl] False s show ?thesis by (subst skip_blank.simps) (auto intro: onward_trans)
  qed
qed

section \<open>The whole source\<close>

function tokenize_loop :: "lexer_env \<Rightarrow> lexer \<Rightarrow> lexer" where
  "tokenize_loop env lx =
     (if is_at_end lx then lx
      else let lx = skip_whitespace_and_comments lx
           in if is_at_end lx \<or> k_max_lex_errors \<le> lx_error_count lx then lx
              else tokenize_loop env (scan_token env (lx\<lparr>lx_token_start := lexer_location lx\<rparr>)))"
  by pat_completeness auto
termination
proof (relation "measure (\<lambda>(_, lx). length (lx_source lx) - lx_position lx)")
  fix env :: lexer_env and lx l1
  assume a: "\<not> is_at_end lx" "l1 = skip_whitespace_and_comments lx"
    "\<not> (is_at_end l1 \<or> k_max_lex_errors \<le> lx_error_count l1)"
  let ?l2 = "l1\<lparr>lx_token_start := lexer_location l1\<rparr>"
  have "onward lx l1" using a(2) by (simp add: skip_whitespace_and_comments_def)
  moreover have "moves ?l2 (scan_token env ?l2)"
    using a(3) by (intro scan_token_moves) (simp add: is_at_end_def)
  ultimately show "((env, scan_token env ?l2), env, lx) \<in> measure (\<lambda>(_, lx). length (lx_source lx) - lx_position lx)"
    using a(3) by (auto simp: onward_def moves_def is_at_end_iff)
qed simp

declare tokenize_loop.simps [simp del]

fun finish_open :: "nat \<Rightarrow> lexer \<Rightarrow> lexer" where
  "finish_open 0 lx = lx"
| "finish_open (Suc n) lx = finish_open n (finish_triple_quoted_string lx)"

text \<open>
  The final state has the tokens returned and the diagnostics flushed to the collector; its counters are
  those before the flush, which resets them.
\<close>

definition tokenize :: "lexer_env \<Rightarrow> lexer \<Rightarrow> lexer" where
  "tokenize env lx =
     (let lx = tokenize_loop env (lx\<lparr>lx_tokens := []\<rparr>);
          lx = finish_open (length (lx_open_triple lx)) lx;
          lx = lx\<lparr>lx_token_start := lexer_location lx\<rparr>
      in stamp_token_starts (add_token EndOfFile [] None lx))"

definition lex :: "lexer_env \<Rightarrow> string \<Rightarrow> lexer" where
  "lex env s = tokenize env (new_lexer s 0)"

end
