(* ===== verification/Lexer_Spec.thy ===== *)
theory Lexer_Spec
  imports Lexer
begin

text \<open>
  What the scanners may do, as relations: \<open>scan_steps\<close> (the cursor advances inside the source and
  bounded diagnostics are added; nothing else changes), \<open>string_step\<close> and \<open>triple_step\<close> (one segment
  of a string), \<open>token_step\<close> (one call of \<^verbatim>\<open>scan_token\<close>).  The refinement lemmas say that every
  scanner of the code implements them; the properties of the lexer are proved by rule induction and by
  cases on these relations.
\<close>

section \<open>Scanning without tokens\<close>

inductive scan_steps :: "lexer \<Rightarrow> lexer \<Rightarrow> bool" for lx where
  Steps_Refl: "scan_steps lx lx"
| Steps_Advance: "scan_steps lx l \<Longrightarrow> \<not> is_at_end l \<Longrightarrow> scan_steps lx (advance l)"
| Steps_Warning: "scan_steps lx l \<Longrightarrow> scan_steps lx (emit_warning loc m h l)"
| Steps_Error: "scan_steps lx l \<Longrightarrow> scan_steps lx (emit_syntax_error m loc h c l)"

declare scan_steps.intros [intro] Steps_Refl [simp]

lemma scan_steps_trans:
  assumes "scan_steps a b" and "scan_steps b c"
  shows "scan_steps a c"
  using assms(2) by induction (auto intro: assms(1))

lemma steps_advance [simp]: "\<not> is_at_end lx \<Longrightarrow> scan_steps lx (advance lx)" by auto

lemma steps_frame:
  assumes "scan_steps lx l"
  shows "lx_tokens l = lx_tokens lx" "lx_interpolation l = lx_interpolation lx"
    "lx_open_triple l = lx_open_triple lx" "lx_token_start l = lx_token_start lx"
    "lx_segment_start l = lx_segment_start lx" "lx_file_id l = lx_file_id lx"
    "lx_source l = lx_source lx" "lx_position lx \<le> lx_position l"
    "lx_newline_pending l = lx_newline_pending lx"
  using assms
  by induction (auto simp: advance_def emit_warning_def emit_syntax_error_def emit_error_def cursor_advance_def Let_def)

lemma advance_while_steps [simp]: "scan_steps lx (advance_while p lx)"
proof (induction p lx rule: advance_while.induct)
  case (1 p lx)
  then show ?case by (subst advance_while.simps) (auto intro: scan_steps_trans [OF steps_advance])
qed

lemma advance_Suc: "advance_by (Suc n) lx = advance_by n (advance lx)"
  by (simp add: advance_by_def funpow_swap1)

lemma advance_by_steps:
  "lx_position lx + n \<le> length (lx_source lx) \<Longrightarrow> scan_steps lx (advance_by n lx)"
proof (induction n arbitrary: lx)
  case (Suc n)
  then show ?case
    by (auto simp: advance_Suc is_at_end_iff intro: scan_steps_trans [OF steps_advance])
qed (simp add: advance_by_def)

lemma identifier_width_inside:
  "lx_position lx + identifier_char_width d lx \<le> length (lx_source lx) \<or> identifier_char_width d lx = 0"
  using well_formed_utf8_length_inside [of "lx_position lx" "lx_source lx"]
  by (auto simp: identifier_char_width_def Let_def is_at_end_iff)

lemma consume_identifier_steps [simp]: "scan_steps lx (consume_identifier_chars lx)"
proof (induction lx rule: consume_identifier_chars.induct)
  case (1 lx)
  then show ?case
    using identifier_width_inside [of lx True]
    by (subst consume_identifier_chars.simps)
      (auto simp: Let_def intro: scan_steps_trans [OF advance_by_steps])
qed

lemma match_char_steps [simp]: "scan_steps lx (snd (match_char c lx))"
  by (simp add: match_char_def)

lemma suffix_steps [simp]: "scan_steps lx (snd (consume_invalid_number_suffix k st lx))"
  by (auto simp: consume_invalid_number_suffix_def Let_def)

lemma exponent_steps: "has_valid_exponent lx \<Longrightarrow> scan_steps lx (consume_exponent lx)"
proof -
  assume "has_valid_exponent lx"
  then have e: "\<not> is_at_end lx" by (simp add: has_valid_exponent_def split: if_splits)
  have s: "scan_steps lx (advance (advance lx))" if "\<not> is_at_end (advance lx)"
    using e that by auto
  show ?thesis using e s
    by (auto simp: consume_exponent_def Let_def intro: scan_steps_trans [OF _ advance_while_steps])
qed

lemma escape_char_steps [simp]: "\<not> is_at_end lx \<Longrightarrow> scan_steps lx (snd (scan_escape_char lx))"
  by (auto simp: scan_escape_char_def Let_def split: option.split)

lemma escape_sequence_steps: "\<not> is_at_end lx \<Longrightarrow> scan_steps lx (snd (scan_escape_sequence lx))"
  by (auto simp: scan_escape_sequence_def Let_def split: prod.split intro: scan_steps_trans [OF steps_advance])
    (metis escape_char_steps scan_steps_trans snd_conv steps_advance)

section \<open>One plain token\<close>

text \<open>The literal payload of a token by its type, as the parser reads it.\<close>

fun literal_fits :: "token_type \<Rightarrow> string \<Rightarrow> token_literal option \<Rightarrow> bool" where
  "literal_fits IntegerLiteral w lit \<longleftrightarrow> (\<exists>n. lit = Some (Lit_Integer n) \<and> 0 \<le> n \<and> n < 2 ^ 63)"
| "literal_fits NumberLiteral w lit \<longleftrightarrow> (\<exists>x. lit = Some (Lit_Number x))"
| "literal_fits BooleanLiteral w lit \<longleftrightarrow> lit = Some (Lit_Bool (w = ''true''))"
| "literal_fits StringLiteral w lit \<longleftrightarrow> lit = Some (Lit_String w)"
| "literal_fits _ w lit \<longleftrightarrow> lit = None"

text \<open>Types a plain scanner produces: no part of a string, no interpolation, no end of file.\<close>

fun is_plain_type :: "token_type \<Rightarrow> bool" where
  "is_plain_type StringLiteral = False"
| "is_plain_type InterpolationEnd = False"
| "is_plain_type InterpolationStart = False"
| "is_plain_type StringEnd = False"
| "is_plain_type StringMiddle = False"
| "is_plain_type StringStart = False"
| "is_plain_type EndOfFile = False"
| "is_plain_type _ = True"

text \<open>The lexeme is the text of the source; an annotation leaves out the \<^verbatim>\<open>@\<close>.\<close>

definition lexeme_fits :: "token_type \<Rightarrow> string \<Rightarrow> string \<Rightarrow> bool" where
  "lexeme_fits t w src \<longleftrightarrow> src = (if t = Annotation then CHR ''@'' # w else w)"

text \<open>A plain token that starts at offset \<open>p\<close>; a bad number adds its diagnostic past the cap.\<close>

inductive adds_token :: "nat \<Rightarrow> lexer \<Rightarrow> lexer \<Rightarrow> bool" for p lx where
  Adds: "scan_steps lx l \<Longrightarrow> is_plain_type t \<Longrightarrow> literal_fits t w lit \<Longrightarrow> lexeme_fits t w (text_from p l) \<Longrightarrow>
    adds_token p lx (add_token t w lit l)"
| Adds_Bad_Number: "scan_steps lx l \<Longrightarrow> is_plain_type t \<Longrightarrow> literal_fits t w lit \<Longrightarrow> lexeme_fits t w (text_from p l) \<Longrightarrow>
    adds_token p lx (add_token t w lit (parse_error k o1 x l))"

lemma adds_token_from: "scan_steps lx l \<Longrightarrow> adds_token p l l' \<Longrightarrow> adds_token p lx l'"
  by (erule adds_token.cases) (auto intro: scan_steps_trans adds_token.intros)

lemma text_from_state [simp]:
  "text_from p (emit_warning loc m h lx) = text_from p lx" "text_from p (emit_syntax_error m loc h c lx) = text_from p lx"
  "text_from p (parse_error k o1 x lx) = text_from p lx" "text_from p (add_token t w lit lx) = text_from p lx"
  by (simp_all add: text_from_def parse_error_def)

lemma text_from_advance:
  "\<not> is_at_end l \<Longrightarrow> p \<le> lx_position l \<Longrightarrow> text_from p (advance l) = text_from p l @ [current l]"
  by (simp add: text_from_def is_at_end_iff current_def cursor_current_def cursor_at_end_def Suc_diff_le
      take_Suc_conv_app_nth)

lemma text_from_here [simp]: "text_from (lx_position lx) lx = []"
  by (simp add: text_from_def)

lemma text_from_split:
  assumes "p \<le> q" "q \<le> lx_position l"
  shows "text_from p l = take (q - p) (drop p (lx_source l)) @ text_from q l"
proof -
  have "lx_position l - p = (q - p) + (lx_position l - q)" "drop (q - p) (drop p (lx_source l)) = drop q (lx_source l)"
    using assms by simp_all
  then show ?thesis using take_add [of "q - p" "lx_position l - q" "drop p (lx_source l)"] by (simp add: text_from_def)
qed

lemma fits_word [simp]: "t \<noteq> Annotation \<Longrightarrow> lexeme_fits t w src \<longleftrightarrow> src = w"
  by (simp add: lexeme_fits_def)

lemma keyword_type_plain: "is_plain_type (keyword_type w)" "keyword_type w \<noteq> Annotation"
  and keyword_type_literal: "keyword_type w \<noteq> BooleanLiteral \<Longrightarrow> literal_fits (keyword_type w) w None"
proof -
  have table: "is_plain_type t \<and> t \<noteq> Annotation \<and> (t \<noteq> BooleanLiteral \<longrightarrow> literal_fits t w None)"
    if "(s, t, k) \<in> set k_keywords" for s t k
    using that by (auto simp: k_keywords_def)
  have "(s, t, k) \<in> set k_keywords" if "lower_bound fst k_keywords w = Some (s, t, k)" for s t k
    using that by (auto simp: lower_bound_def split: list.splits) (metis list.set_intros(1) set_dropWhileD)
  with table show "is_plain_type (keyword_type w)" "keyword_type w \<noteq> Annotation"
    "keyword_type w \<noteq> BooleanLiteral \<Longrightarrow> literal_fits (keyword_type w) w None"
    by (fastforce simp: keyword_type_def split: option.splits prod.splits if_splits)+
qed

lemma identifier_adds: "adds_token (lx_position lx) lx (scan_identifier lx)"
proof -
  let ?w = "text_from (lx_position lx) (consume_identifier_chars lx)"
  have "scan_steps lx (emit_warning loc m h (consume_identifier_chars lx))"
    "scan_steps lx (emit_warning loc' m' h' (emit_warning loc m h (consume_identifier_chars lx)))" for loc m h loc' m' h'
    by (intro Steps_Warning consume_identifier_steps)+
  with keyword_type_plain [of ?w] keyword_type_literal [of ?w] show ?thesis
    by (auto simp: scan_identifier_def Let_def intro!: Adds)
qed

lemma annotation_adds:
  assumes "\<not> is_at_end lx" and "current lx = CHR ''@''"
  shows "adds_token (lx_position lx) lx (scan_annotation lx)"
proof -
  let ?l = "if \<not> is_at_end (advance lx) \<and> 0 < identifier_char_width False (advance lx)
    then consume_identifier_chars (advance lx) else advance lx"
  have s: "scan_steps (advance lx) ?l" by simp
  have t: "take 1 (drop (lx_position lx) (lx_source lx)) = ''@''"
    using assms by (simp add: is_at_end_iff current_def cursor_current_def cursor_at_end_def take_Suc_conv_app_nth split: if_splits)
  have "text_from (lx_position lx) ?l = take 1 (drop (lx_position lx) (lx_source ?l)) @ text_from (lx_position lx + 1) ?l"
    using text_from_split [of "lx_position lx" "lx_position lx + 1" ?l] steps_frame(8) [OF s] by simp
  then have w: "text_from (lx_position lx) ?l = CHR ''@'' # text_from (lx_position lx + 1) ?l"
    using t steps_frame(7) [OF s] by simp
  have s': "scan_steps lx ?l" by (rule scan_steps_trans [OF steps_advance [OF assms(1)] s])
  show ?thesis
  proof (cases "lx_position ?l = lx_position lx + 1")
    case True
    then have "text_from (lx_position lx + 1) ?l = []" by (simp add: text_from_def)
    with w True s' show ?thesis
      by (simp add: scan_annotation_def Let_def) (auto intro!: Adds Steps_Error)
  next
    case False
    with w s' show ?thesis by (simp add: scan_annotation_def Let_def) (auto intro!: Adds simp: lexeme_fits_def)
  qed
qed

lemma invalid_adds: "\<not> is_at_end lx \<Longrightarrow> adds_token (lx_position lx) lx (scan_invalid_non_ascii loc lx)"
  using well_formed_utf8_length_inside [of "lx_position lx" "lx_source lx"]
  by (auto simp: scan_invalid_non_ascii_def Let_def intro!: Adds Steps_Error advance_by_steps
      intro: scan_steps_trans [OF steps_advance])

text \<open>Numbers.\<close>

lemma parse_integer_adds:
  assumes "parse_integer_literal d b l = (lit, l')" and "scan_steps lx l" and "w = text_from p l"
  shows "adds_token p lx (add_token IntegerLiteral w (Some lit) l')"
  using assms
  by (auto simp: parse_integer_literal_def int64_literal_max_def intro!: Adds Adds_Bad_Number split: if_splits)

lemma parse_float_adds:
  assumes "parse_float_literal env d l = (lit, l')" and "scan_steps lx l" and "w = text_from p l"
  shows "adds_token p lx (add_token NumberLiteral w (Some lit) l')"
  using assms
  by (auto simp: parse_float_literal_def intro!: Adds Adds_Bad_Number split: stod_result.splits)

lemma suffix_steps_from:
  "scan_steps lx l \<Longrightarrow> consume_invalid_number_suffix k st l = (b, l') \<Longrightarrow> scan_steps lx l'"
  by (metis scan_steps_trans snd_conv suffix_steps)

lemma member_index_adds: "adds_token (lx_position lx) lx (scan_member_index lx)"
  by (auto simp: scan_member_index_def Let_def split: prod.split
      intro!: parse_integer_adds suffix_steps_from [OF advance_while_steps])

lemma prefixed_adds:
  assumes "lx_position lx + 1 < length (lx_source lx)"
  shows "adds_token st lx (scan_prefixed_literal p b k h st lx)"
proof -
  have a: "scan_steps lx (advance_while p (advance (advance lx)))"
    using assms by (intro scan_steps_trans [OF _ advance_while_steps])
      (auto simp: is_at_end_iff intro!: Steps_Advance)
  let ?l1 = "advance_while p (advance (advance lx))"
  obtain bad l2 where l2: "consume_invalid_number_suffix k (lx_token_start ?l1) ?l1 = (bad, l2)" by fastforce
  have s2: "scan_steps lx l2" by (rule suffix_steps_from [OF a l2])
  then have bad: "adds_token st lx (add_token IntegerLiteral (text_from st l2) (Some (Lit_Integer 0)) l2)"
    "adds_token st lx (add_token IntegerLiteral (text_from st l2) (Some (Lit_Integer 0)) (emit_syntax_error m loc h' c l2))" for m loc h' c
    by (auto intro!: Adds Steps_Error)
  have good: "adds_token st lx (case parse_integer_literal d b l2 of
      (lit, l) \<Rightarrow> add_token IntegerLiteral (text_from st l2) (Some lit) l)" for d
    using s2 by (auto intro: parse_integer_adds split: prod.split)
  show ?thesis
    by (simp only: scan_prefixed_literal_def Let_def l2 split_conv) (simp add: bad good)
qed

lemma number_adds: "adds_token (lx_position lx) lx (scan_number env lx)"
proof (cases "is_prefixed_literal CHR ''x'' CHR ''X'' lx \<or> is_prefixed_literal CHR ''o'' CHR ''O'' lx \<or>
    is_prefixed_literal CHR ''b'' CHR ''B'' lx")
  case True
  then have "lx_position lx + 1 < length (lx_source lx)" by (auto simp: is_prefixed_literal_def)
  with True show ?thesis using prefixed_adds by (auto simp: scan_number_def Let_def)
next
  case False
  let ?l1 = "advance_while is_digit lx"
  have f: "scan_steps ?l1 (snd (fraction ?l1))"
    by (auto simp: fraction_def intro: scan_steps_trans [OF steps_advance])
  obtain f2 l2 where l2: "fraction ?l1 = (f2, l2)" by fastforce
  have s2: "scan_steps lx l2" using f l2 by (auto intro: scan_steps_trans [OF advance_while_steps])
  obtain f3 l3 where l3: "(if has_valid_exponent l2 then (True, consume_exponent l2) else (f2, l2)) = (f3, l3)"
    by fastforce
  have s3: "scan_steps lx l3" using l3 s2 exponent_steps [of l2] by (auto intro: scan_steps_trans split: if_splits)
  show ?thesis
    using False l2 l3 suffix_steps_from [OF s3]
    by (auto simp: scan_number_def Let_def simp flip: fraction_def split: prod.split if_split
        intro!: parse_integer_adds parse_float_adds)
qed

text \<open>Operators: the text read so far grows with each character matched.\<close>

definition read_so_far :: "nat \<Rightarrow> lexer \<Rightarrow> string \<Rightarrow> lexer \<Rightarrow> bool" where
  "read_so_far p lx w l \<longleftrightarrow> scan_steps lx l \<and> p \<le> lx_position lx \<and> text_from p l = w"

lemma match_adds:
  assumes "read_so_far p lx w l0"
    and "\<And>l. read_so_far p lx (w @ [c]) l \<Longrightarrow> adds_token p lx (f l)"
    and "\<And>l. read_so_far p lx w l \<Longrightarrow> adds_token p lx (g l)"
  shows "adds_token p lx (case match_char c l0 of (b, l) \<Rightarrow> if b then f l else g l)"
proof (cases "is_at_end l0 \<or> current l0 \<noteq> c")
  case True
  then show ?thesis using assms(1,3) by (simp add: match_char_def)
next
  case False
  then have "read_so_far p lx (w @ [c]) (advance l0)"
    using assms(1) steps_frame(8) [of lx l0] by (auto simp: read_so_far_def text_from_advance)
  with False assms(2) show ?thesis by (simp add: match_char_def)
qed

lemma plain_add:
  "read_so_far p lx w l \<Longrightarrow> is_plain_type t \<Longrightarrow> literal_fits t w None \<Longrightarrow> t \<noteq> Annotation \<Longrightarrow>
   adds_token p lx (add_token t w None l)"
  by (rule Adds) (auto simp: read_so_far_def)

lemma compound_adds:
  assumes "read_so_far p lx w l" "is_plain_type t" "literal_fits t w None" "t \<noteq> Annotation"
    "is_plain_type t'" "literal_fits t' w' None" "t' \<noteq> Annotation" "w' = w @ ''=''"
  shows "adds_token p lx (emit_compound_assign t w t' w' l)"
  unfolding emit_compound_assign_def Let_def using assms(8)
  by (intro match_adds [OF assms(1)] plain_add assms) simp_all

lemma double_adds:
  assumes "read_so_far p lx w l" "is_plain_type t" "literal_fits t w None" "t \<noteq> Annotation"
    "is_plain_type t'" "literal_fits t' w' None" "t' \<noteq> Annotation" "w' = w @ [c]"
    "is_plain_type t''" "literal_fits t'' w'' None" "t'' \<noteq> Annotation" "w'' = w @ ''=''"
  shows "adds_token p lx (emit_double_then_compound c t w t' w' t'' w'' l)"
  unfolding emit_double_then_compound_def Let_def using assms(8)
  by (intro match_adds [OF assms(1)] plain_add compound_adds assms) simp_all

lemma first_match_adds:
  assumes "read_so_far p lx w l" and "\<And>l. read_so_far p lx w l \<Longrightarrow> adds_token p lx (f l)"
    and "\<forall>(c, t, w') \<in> set rows. is_plain_type t \<and> literal_fits t w' None \<and> t \<noteq> Annotation \<and> w' = w @ [c]"
  shows "adds_token p lx (first_match rows f l)"
  using assms(1,3)
proof (induction rows arbitrary: l)
  case (Cons row rest)
  obtain c t w' where row: "row = (c, t, w')" by (metis prod_cases3)
  show ?case
    unfolding row first_match.simps Let_def
    by (rule match_adds [OF Cons.prems(1)]) (use Cons row in \<open>auto intro: plain_add\<close>)
qed (use assms(2) in simp)

lemma removed_adds: "read_so_far p lx w l \<Longrightarrow> adds_token p lx (emit_removed_bitwise_op w s loc l)"
  by (auto simp: emit_removed_bitwise_op_def read_so_far_def intro!: plain_add Steps_Error)

lemma emitter_adds:
  shows "read_so_far p lx ''-'' l \<Longrightarrow> adds_token p lx (emit_minus_op l)"
    "read_so_far p lx ''<'' l \<Longrightarrow> adds_token p lx (emit_less_op l)"
    "read_so_far p lx ''>'' l \<Longrightarrow> adds_token p lx (emit_greater_op l)"
    "read_so_far p lx ''|'' l \<Longrightarrow> adds_token p lx (emit_pipe_op l)"
    "read_so_far p lx ''?'' l \<Longrightarrow> adds_token p lx (emit_question_op l)"
  unfolding emit_minus_op_def emit_less_op_def emit_greater_op_def emit_pipe_op_def emit_question_op_def
  by ((erule first_match_adds compound_adds; auto intro: compound_adds plain_add))+

lemma dot_adds: "read_so_far p lx ''.'' l \<Longrightarrow> adds_token p lx (emit_dot_op l)"
  unfolding emit_dot_op_def Let_def
  by (erule match_adds) (auto intro: plain_add compound_adds)

lemma adds_if:
  "(b \<Longrightarrow> adds_token p lx x) \<Longrightarrow> (\<not> b \<Longrightarrow> adds_token p lx y) \<Longrightarrow> adds_token p lx (if b then x else y)"
  by simp

lemma operator_adds:
  assumes "c \<noteq> CHR ''{''" and r: "read_so_far p lx [c] l0"
  shows "adds_token p lx (scan_operator c loc l0)"
proof -
  have one: "adds_token p lx l" if "try_scan_compound_assign c l0 = Some l" for l
    using that r by (auto simp: try_scan_compound_assign_def compound_assign_ops_def intro!: compound_adds split: if_splits)
  have two: "adds_token p lx l" if "try_scan_double_or_assign c l0 = Some l" for l
    using that r by (auto simp: try_scan_double_or_assign_def double_or_assign_ops_def intro!: double_adds split: if_splits)
  have slash: "adds_token p lx (case match_char CHR ''/'' l0 of (b, l) \<Rightarrow>
      if b then emit_compound_assign (Operator SlashSlash) ''//'' (Operator SlashSlashEquals) ''//='' l
      else emit_compound_assign (Operator Slash) ''/'' (Operator SlashEquals) ''/='' l)" if "c = CHR ''/''"
    by (rule match_adds [OF r]) (auto simp: that intro: compound_adds)
  have angle: "adds_token p lx (case match_char CHR ''<'' l0 of (b, l) \<Rightarrow>
      if b then emit_removed_bitwise_op ''<<'' ''Bits.shift_left(v, n)'' loc l else emit_less_op l)" if "c = CHR ''<''"
    by (rule match_adds [OF r]) (auto simp: that intro: removed_adds emitter_adds)
  have amp: "adds_token p lx (case match_char CHR ''&'' l0 of (b, l) \<Rightarrow>
      if b then add_token (Operator AmpersandAmpersand) ''&&'' None l
      else emit_removed_bitwise_op ''&'' ''Bits.and(a, b)'' loc l)" if "c = CHR ''&''"
    by (rule match_adds [OF r]) (auto simp: that intro: removed_adds plain_add)
  have colon: "adds_token p lx (case match_char CHR '':'' l0 of (b, l) \<Rightarrow>
      if b then add_token (Punctuation ColonColon) ''::'' None l else add_token (Punctuation Colon) '':'' None l)" if "c = CHR '':''"
    by (rule match_adds [OF r]) (auto simp: that intro: plain_add)
  have bad: "adds_token p lx (add_token ErrorToken [c] None (emit_syntax_error m loc h x l0))" for m h x
    using r by (auto simp: read_so_far_def intro!: plain_add Steps_Error)
  show ?thesis
  proof (cases "try_scan_compound_assign c l0 = None \<and> try_scan_double_or_assign c l0 = None")
    case False
    then show ?thesis
      using one two by (cases "try_scan_compound_assign c l0"; cases "try_scan_double_or_assign c l0")
        (simp_all add: scan_operator_def)
  next
    case True
    have "adds_token p lx (add_token (Punctuation LeftBrace) ''{'' None (open_brace l0))" if "c = CHR ''{''"
      using that assms(1) by simp
    with True r show ?thesis
      unfolding scan_operator_def Let_def
      by (simp only: option.case, intro adds_if; (simp only: slash angle amp colon bad dot_adds emitter_adds removed_adds)?)
        (auto intro: plain_add)
  qed
qed

lemma brace_open_token: "scan_operator CHR ''{'' loc lx = add_token (Punctuation LeftBrace) ''{'' None (open_brace lx)"
  by (simp add: scan_operator_def try_scan_compound_assign_def try_scan_double_or_assign_def
      compound_assign_ops_def double_or_assign_ops_def)

lemma brace_close_token: "scan_operator CHR ''}'' loc lx = add_token (Punctuation RightBrace) ''}'' None lx"
  by (simp add: scan_operator_def try_scan_compound_assign_def try_scan_double_or_assign_def
      compound_assign_ops_def double_or_assign_ops_def)

section \<open>Segments of strings\<close>

text \<open>
  A segment of a plain string ends at its closing quote (or where the string breaks off), or at
  \<^verbatim>\<open>${\<close>; so does a segment of a triple-quoted literal.
\<close>

inductive string_step :: "lexer_env \<Rightarrow> bool \<Rightarrow> lexer \<Rightarrow> lexer \<Rightarrow> bool" for env c lx where
  String_Closes: "scan_steps lx l \<Longrightarrow> string_step env c lx (add_terminal_string_token c w l)"
| String_Opens: "scan_steps lx l \<Longrightarrow> current l = CHR ''$'' \<Longrightarrow> peek_next l = CHR ''{'' \<Longrightarrow> t = (if c then StringMiddle else StringStart) \<Longrightarrow>
    string_step env c lx (snd (begin_interpolation env False (restamp_last (lx_segment_start l) (add_token t w None l))))"

inductive triple_step :: "lexer_env \<Rightarrow> bool \<Rightarrow> lexer \<Rightarrow> lexer \<Rightarrow> bool" for env c lx where
  Triple_Closes: "scan_steps lx l \<Longrightarrow> triple_step env c lx (close_triple c raw l)"
| Triple_Opens: "scan_steps lx l \<Longrightarrow> current l = CHR ''$'' \<Longrightarrow> peek_next l = CHR ''{'' \<Longrightarrow>
    triple_step env c lx (interpolate_triple env c raw l)"

lemma string_loop_steps:
  "scan_steps lx (snd (scan_string_loop w lx)) \<and>
   (snd (fst (scan_string_loop w lx)) = Has_Interpolation \<longrightarrow>
      current (snd (scan_string_loop w lx)) = CHR ''$'' \<and> peek_next (snd (scan_string_loop w lx)) = CHR ''{'')"
proof (induction w lx rule: scan_string_loop.induct)
  case (1 w lx)
  obtain r lx' where e: "scan_escape_sequence lx = (r, lx')" by fastforce
  have s: "scan_steps lx lx'" if "\<not> is_at_end lx" using escape_sequence_steps [OF that] e by simp
  note unroll = scan_string_loop.simps [of w lx]
  show ?case
  proof (cases "\<not> is_at_end lx \<and> current lx = CHR 0x5C")
    case True
    then show ?thesis
      using 1(1) [of r lx'] e s by (cases r) (auto simp: unroll intro: scan_steps_trans)
  next
    case False
    then show ?thesis
      using 1(2) by (auto simp: unroll intro: scan_steps_trans [OF steps_advance])
  qed
qed

lemma emit_string_step: "string_step env c lx (emit_string_tokens env c lx)"
  using string_loop_steps [of lx "[]"]
  by (auto simp: emit_string_tokens_def scan_string_content_def Let_def split: prod.splits
      intro: String_Closes String_Opens)

lemma triple_quote_steps:
  "\<not> is_at_end lx \<Longrightarrow> scan_steps lx (snd (snd (try_consume_triple_quote raw lx)))"
  by (auto simp: try_consume_triple_quote_def Let_def)

text \<open>How the loop over the body of a triple-quoted literal ends.\<close>

inductive triple_outcome :: "lexer_env \<Rightarrow> bool \<Rightarrow> lexer \<Rightarrow> triple_end \<Rightarrow> bool" for env c lx where
  Outcome_Broke: "scan_steps lx l \<Longrightarrow> triple_outcome env c lx (Triple_Broke raw l)"
| Outcome_Closes: "scan_steps lx l \<Longrightarrow> triple_outcome env c lx (Triple_Done (close_triple c raw l))"
| Outcome_Opens: "scan_steps lx l \<Longrightarrow> current l = CHR ''$'' \<Longrightarrow> peek_next l = CHR ''{'' \<Longrightarrow>
    triple_outcome env c lx (Triple_Done (interpolate_triple env c raw l))"

lemma triple_outcome_from: "scan_steps a b \<Longrightarrow> triple_outcome env c b r \<Longrightarrow> triple_outcome env c a r"
  by (erule triple_outcome.cases) (auto intro: scan_steps_trans triple_outcome.intros)

lemma triple_loop_outcome: "triple_outcome env c lx (triple_loop env c raw lx)"
proof (induction env c raw lx rule: triple_loop.induct)
  case (1 env c raw lx)
  obtain b raw' lx' where t: "try_consume_triple_quote raw lx = (b, raw', lx')" by (metis prod_cases3)
  note unroll = triple_loop.simps [of env c raw lx]
  show ?case
  proof (cases "is_at_end lx")
    case True
    then show ?thesis by (simp add: unroll Outcome_Broke)
  next
    case e: False
    then have q: "scan_steps lx lx'" using triple_quote_steps [OF e, of raw] t by simp
    consider (quote) "current lx = CHR 0x22" "peek_next lx = CHR 0x22"
      | (escape) "current lx = CHR 0x5C"
      | (opens) "current lx = CHR ''$''" "peek_next lx = CHR ''{''"
      | (plain) "\<not> (current lx = CHR 0x22 \<and> peek_next lx = CHR 0x22)"
          "current lx \<noteq> CHR 0x5C" "\<not> (current lx = CHR ''$'' \<and> peek_next lx = CHR ''{'')" by blast
    then show ?thesis
    proof cases
      case quote
      then show ?thesis
        using triple_outcome_from [OF q 1(1) [OF e conjI [OF quote] t [symmetric] _ refl]] e t
        by (cases b) (simp_all add: unroll Outcome_Closes q)
    next
      case escape
      show ?thesis
      proof (cases "is_at_end (advance lx)")
        case True
        then show ?thesis using e escape by (simp add: unroll Let_def Outcome_Broke)
      next
        case False
        then have s: "scan_steps lx (snd (scan_escape_char (advance lx)))"
          using e by (intro scan_steps_trans [OF steps_advance escape_char_steps])
        have "\<not> (current lx = CHR 0x22 \<and> peek_next lx = CHR 0x22)" using escape by simp
        from triple_outcome_from [OF s 1(2) [OF e this escape refl refl False]] e escape False show ?thesis
          by (simp add: unroll Let_def)
      qed
    next
      case opens
      then show ?thesis using e by (simp add: unroll Outcome_Opens)
    next
      case plain
      from triple_outcome_from [OF steps_advance [OF e] 1(3) [OF e plain]] e plain show ?thesis
        by (auto simp: unroll)
    qed
  qed
qed

definition open_triple :: "bool \<Rightarrow> lexer \<Rightarrow> lexer" where
  "open_triple c lx = (if c then lx else lx\<lparr>lx_open_triple := lx_open_triple lx @ [[]]\<rparr>)"

lemma triple_body_step: "triple_step env c (open_triple c lx) (scan_triple_quoted_string_body env c lx)"
proof -
  have "triple_outcome env c (open_triple c lx) (triple_loop env c [] (open_triple c lx))"
    by (rule triple_loop_outcome)
  then show ?thesis
    by cases (simp_all add: scan_triple_quoted_string_body_def Let_def Triple_Opens Triple_Closes Steps_Error
        flip: open_triple_def)
qed

section \<open>One call of \<^verbatim>\<open>scan_token\<close>\<close>

text \<open>The state after the closing brace of an interpolation, and the start of a string.\<close>

definition close_interpolation :: "lexer \<Rightarrow> lexer" where
  "close_interpolation lx =
     (let lx = add_token InterpolationEnd ''}'' None
                 (advance (lx\<lparr>lx_interpolation := butlast (lx_interpolation lx)\<rparr>))
      in lx\<lparr>lx_segment_start := lexer_location lx\<rparr>)"

definition lower_brace :: "lexer \<Rightarrow> lexer" where
  "lower_brace lx =
     lx\<lparr>lx_interpolation := butlast (lx_interpolation lx) @
       [(last (lx_interpolation lx))\<lparr>is_brace_depth := is_brace_depth (last (lx_interpolation lx)) - 1\<rparr>]\<rparr>"

definition open_string :: "lexer \<Rightarrow> lexer" where
  "open_string lx = advance (lx\<lparr>lx_segment_start := lexer_location lx\<rparr>)"

inductive token_step :: "lexer_env \<Rightarrow> lexer \<Rightarrow> lexer \<Rightarrow> bool" for env lx where
  Token_Plain: "\<not> is_at_end lx \<Longrightarrow> adds_token (lx_position lx) lx lx' \<Longrightarrow> token_step env lx lx'"
| Token_Left_Brace: "\<not> is_at_end lx \<Longrightarrow> current lx = CHR ''{'' \<Longrightarrow>
    token_step env lx (add_token (Punctuation LeftBrace) ''{'' None (open_brace (advance lx)))"
| Token_Right_Brace: "\<not> is_at_end lx \<Longrightarrow> current lx = CHR ''}'' \<Longrightarrow> lx_interpolation lx \<noteq> [] \<Longrightarrow>
    is_brace_depth (last (lx_interpolation lx)) \<noteq> 1 \<Longrightarrow>
    token_step env lx (add_token (Punctuation RightBrace) ''}'' None (advance (lower_brace lx)))"
| Token_String: "\<not> is_at_end lx \<Longrightarrow> string_step env False (open_string lx) lx' \<Longrightarrow> token_step env lx lx'"
| Token_Triple: "lx_position lx + 2 < length (lx_source lx) \<Longrightarrow>
    triple_step env False (open_triple False (advance (advance (open_string lx)))) lx' \<Longrightarrow> token_step env lx lx'"
| Token_Close: "\<not> is_at_end lx \<Longrightarrow> current lx = CHR ''}'' \<Longrightarrow> lx_interpolation lx \<noteq> [] \<Longrightarrow>
    is_brace_depth (last (lx_interpolation lx)) = 1 \<Longrightarrow> \<not> is_triple_quoted (last (lx_interpolation lx)) \<Longrightarrow>
    string_step env True (close_interpolation lx) lx' \<Longrightarrow> token_step env lx lx'"
| Token_Close_Triple: "\<not> is_at_end lx \<Longrightarrow> current lx = CHR ''}'' \<Longrightarrow> lx_interpolation lx \<noteq> [] \<Longrightarrow>
    is_brace_depth (last (lx_interpolation lx)) = 1 \<Longrightarrow> is_triple_quoted (last (lx_interpolation lx)) \<Longrightarrow>
    triple_step env True (close_interpolation lx) lx' \<Longrightarrow> token_step env lx lx'"

lemma peek_inside: "\<not> is_at_end lx \<Longrightarrow> peek_next (advance lx) = CHR 0x22 \<Longrightarrow> lx_position lx + 2 < length (lx_source lx)"
  by (auto simp: peek_next_def cursor_peek_next_def split: if_splits)

lemma plain_token_step:
  assumes "\<not> is_at_end lx"
  shows "token_step env lx (scan_plain_token env lx)"
proof -
  note plain = Token_Plain [OF assms]
  let ?c = "current lx"
  have o1: "adds_token (lx_position lx) lx (scan_operator ?c loc (advance lx))" if "?c \<noteq> CHR ''{''" for loc
    using assms by (intro operator_adds [OF that]) (simp add: read_so_far_def text_from_advance)
  have op: "token_step env lx (scan_operator ?c loc (advance lx))" for loc
    using plain [OF o1] Token_Left_Brace [OF assms] by (cases "?c = CHR ''{''") (simp_all add: brace_open_token)
  have st: "token_step env lx (scan_string env (open_string lx))"
    using emit_string_step by (intro Token_String) (simp_all add: scan_string_def assms)
  have tr: "token_step env lx (scan_triple_quoted_string_body env False (advance (advance (open_string lx))))"
    if "peek_next (open_string lx) = CHR 0x22"
    using that triple_body_step peek_inside [OF assms]
    by (intro Token_Triple) (simp_all add: open_string_def peek_next_def)
  show ?thesis
    unfolding scan_plain_token_def Let_def open_string_def [symmetric]
    by (simp add: op st tr plain identifier_adds annotation_adds invalid_adds member_index_adds number_adds assms)
qed

lemma right_brace_plain: "current lx = CHR ''}'' \<Longrightarrow> scan_plain_token env lx = add_token (Punctuation RightBrace) ''}'' None (advance lx)"
  by (simp add: scan_plain_token_def Let_def brace_close_token is_digit_def code_in_def identifier_char_width_def
      is_ascii_alpha_def k_utf8_ascii_max_def)

theorem scan_token_refines:
  assumes "\<not> is_at_end lx"
  shows "token_step env lx (scan_token env lx)"
proof (cases "lx_interpolation lx \<noteq> [] \<and> current lx = CHR ''}''")
  case False
  then show ?thesis using plain_token_step [OF assms] by (auto simp: scan_token_def)
next
  case True
  show ?thesis
  proof (cases "is_brace_depth (last (lx_interpolation lx)) = 1")
    case True
    show ?thesis
    proof (cases "is_triple_quoted (last (lx_interpolation lx))")
      case q: True
      have "scan_token env lx = scan_triple_quoted_string_body env True (close_interpolation lx)"
        using \<open>_ \<and> _\<close> True q by (simp add: scan_token_def try_close_interpolation_def close_interpolation_def Let_def)
      then show ?thesis
        using Token_Close_Triple [OF assms _ _ True q] triple_body_step [of env True] \<open>_ \<and> _\<close>
        by (simp add: open_triple_def)
    next
      case q: False
      have "scan_token env lx = emit_string_tokens env True (close_interpolation lx)"
        using \<open>_ \<and> _\<close> True q
        by (simp add: scan_token_def try_close_interpolation_def close_interpolation_def Let_def scan_string_continuation_def)
      then show ?thesis
        using Token_Close [OF assms _ _ True q] emit_string_step [of env True] \<open>_ \<and> _\<close> by simp
    qed
  next
    case False
    then have "try_close_interpolation env lx = (False, lower_brace lx)"
      by (simp add: try_close_interpolation_def lower_brace_def Let_def)
    moreover have "current (lower_brace lx) = current lx" by (simp add: lower_brace_def current_def)
    ultimately show ?thesis
      using Token_Right_Brace [OF assms _ _ False] True by (simp add: scan_token_def right_brace_plain)
  qed
qed

end
