(* ===== verification/Lexer_Stacks.thy ===== *)
theory Lexer_Stacks
  imports Lexer_Spec
begin

text \<open>
  The stacks of the lexer and the literal payload of its tokens: the interpolation stack stays within
  its limit, each of its triple-quoted levels has exactly one open literal, whose recorded pieces are
  string tokens already emitted, and every token carries the payload its type promises.
\<close>

section \<open>Adding and rewriting tokens\<close>

definition token_here :: "token_type \<Rightarrow> string \<Rightarrow> token_literal option \<Rightarrow> source_location \<Rightarrow> lexer \<Rightarrow> token" where
  "token_here t w lit start lx =
     \<lparr>tk_type = t, tk_lexeme = w, tk_literal = lit, tk_location = lexer_location lx,
      tk_start_location = start, tk_preceded_by_newline = lx_newline_pending lx\<rparr>"

lemma token_here_fields [simp]:
  "tk_type (token_here t w lit st lx) = t" "tk_lexeme (token_here t w lit st lx) = w"
  "tk_literal (token_here t w lit st lx) = lit" "tk_location (token_here t w lit st lx) = lexer_location lx"
  "tk_start_location (token_here t w lit st lx) = st"
  by (simp_all add: token_here_def)

lemma added_token [simp]:
  "lx_tokens (add_token t w lit lx) = lx_tokens lx @ [token_here t w lit (lx_token_start lx) lx]"
  "lx_tokens (restamp_last loc (add_token t w lit lx)) = lx_tokens lx @ [token_here t w lit loc lx]"
  by (simp_all add: add_token_def restamp_last_def token_here_def)

lemma added_frame [simp]:
  "lx_interpolation (add_token t w lit lx) = lx_interpolation lx" "lx_open_triple (add_token t w lit lx) = lx_open_triple lx"
  "lx_interpolation (restamp_last loc lx) = lx_interpolation lx" "lx_open_triple (restamp_last loc lx) = lx_open_triple lx"
  "lx_interpolation (parse_error k o1 x lx) = lx_interpolation lx" "lx_open_triple (parse_error k o1 x lx) = lx_open_triple lx"
  "lx_tokens (parse_error k o1 x lx) = lx_tokens lx" "lx_token_start (parse_error k o1 x lx) = lx_token_start lx"
  "lx_cursor (parse_error k o1 x lx) = lx_cursor lx" "lx_file_id (parse_error k o1 x lx) = lx_file_id lx"
  "lx_file_id (add_token t w lit lx) = lx_file_id lx" "lx_file_id (restamp_last loc lx) = lx_file_id lx"
  "lx_token_start (add_token t w lit lx) = lx_token_start lx" "lx_token_start (restamp_last loc lx) = lx_token_start lx"
  by (simp_all add: add_token_def restamp_last_def parse_error_def emit_error_def)

fun is_string_part :: "token_type \<Rightarrow> bool" where
  "is_string_part StringLiteral = True"
| "is_string_part StringStart = True"
| "is_string_part StringMiddle = True"
| "is_string_part StringEnd = True"
| "is_string_part _ = False"

text \<open>What finishing a triple-quoted literal may do to a token: give a string part its text.\<close>

definition retexts :: "token \<Rightarrow> token \<Rightarrow> bool" where
  "retexts t t' \<longleftrightarrow> t' = t \<or> is_string_part (tk_type t) \<and> (\<exists>w. t' = rewrite_piece w t)"

lemma rewrite_fields [simp]:
  "tk_type (rewrite_piece w t) = tk_type t" "tk_location (rewrite_piece w t) = tk_location t"
  "tk_start_location (rewrite_piece w t) = tk_start_location t" "tk_lexeme (rewrite_piece w t) = w"
  "tk_literal (rewrite_piece w t) = (if tk_type t = StringLiteral then Some (Lit_String w) else tk_literal t)"
  by (simp_all add: rewrite_piece_def Let_def)

lemma rewrite_twice: "rewrite_piece w (rewrite_piece v t) = rewrite_piece w t"
  by (simp add: rewrite_piece_def Let_def)

lemma retexts_refl [simp]: "retexts t t" by (simp add: retexts_def)

lemma retexts_trans: "retexts a b \<Longrightarrow> retexts b c \<Longrightarrow> retexts a c"
  by (auto simp: retexts_def rewrite_twice)

lemma retexts_fields:
  assumes "retexts t t'"
  shows "tk_type t' = tk_type t" "tk_location t' = tk_location t" "tk_start_location t' = tk_start_location t"
    "\<not> is_string_part (tk_type t) \<Longrightarrow> t' = t"
  using assms by (auto simp: retexts_def)

lemma retexts_literal:
  "retexts t t' \<Longrightarrow> literal_fits (tk_type t) (tk_lexeme t) (tk_literal t) \<Longrightarrow>
   literal_fits (tk_type t') (tk_lexeme t') (tk_literal t')"
  by (cases "tk_type t") (auto simp: retexts_def)

lemma retexts_all_refl: "list_all2 retexts ts ts" by (simp add: list_all2_refl)

lemma rewrite_one:
  assumes "i < length ts" and "is_string_part (tk_type (ts ! i))"
  shows "list_all2 retexts ts (ts[i := rewrite_piece w (ts ! i)])"
  using assms by (auto simp: list_all2_conv_all_nth nth_list_update retexts_def)

lemma rewrite_all:
  assumes "\<forall>(i, _) \<in> set (map fst ps). i < length ts \<and> is_string_part (tk_type (ts ! i))"
  shows "list_all2 retexts ts
    (fold (\<lambda>((i, _), d) ts. ts[i := rewrite_piece (resolve_escapes d) (ts ! i)]) ps ts)"
  using assms
proof (induction ps arbitrary: ts)
  case Nil
  then show ?case by (simp add: list_all2_refl)
next
  case (Cons p ps)
  obtain i r d where p: "p = ((i, r), d)" by (metis prod.collapse)
  let ?ts = "ts[i := rewrite_piece (resolve_escapes d) (ts ! i)]"
  have one: "list_all2 retexts ts ?ts" using Cons.prems p by (intro rewrite_one) auto
  have "\<forall>(j, _) \<in> set (map fst ps). j < length ?ts \<and> is_string_part (tk_type (?ts ! j))"
  proof -
    have "tk_type (?ts ! j) = tk_type (ts ! j)" for j by (cases "i < length ts") (auto simp: nth_list_update list_update_beyond)
    with Cons.prems show ?thesis by simp
  qed
  then have "list_all2 retexts ?ts (fold (\<lambda>((i, _), d) ts. ts[i := rewrite_piece (resolve_escapes d) (ts ! i)]) ps ?ts)"
    by (rule Cons.IH)
  with one show ?case by (simp add: p list_all2_trans [OF retexts_trans])
qed

section \<open>The invariant of the stacks\<close>

definition pieces_ok :: "lexer \<Rightarrow> bool" where
  "pieces_ok lx \<longleftrightarrow>
     (\<forall>ps \<in> set (lx_open_triple lx). \<forall>(i, _) \<in> set ps.
        i < length (lx_tokens lx) \<and> is_string_part (tk_type (lx_tokens lx ! i)))"

definition triple_levels :: "lexer \<Rightarrow> nat" where
  "triple_levels lx = length (filter is_triple_quoted (lx_interpolation lx))"

text \<open>With \<open>k\<close> literals open beyond those of the interpolation stack.\<close>

definition stacks :: "nat \<Rightarrow> lexer_env \<Rightarrow> lexer \<Rightarrow> bool" where
  "stacks k env lx \<longleftrightarrow>
     int (length (lx_interpolation lx)) \<le> max 0 (le_max_interpolation_depth env) \<and>
     (\<forall>s \<in> set (lx_interpolation lx). 1 \<le> is_brace_depth s) \<and>
     length (lx_open_triple lx) = triple_levels lx + k \<and> pieces_ok lx"

definition tokens_typed :: "lexer \<Rightarrow> bool" where
  "tokens_typed lx \<longleftrightarrow>
     (\<forall>t \<in> set (lx_tokens lx). tk_type t \<noteq> EndOfFile \<and> literal_fits (tk_type t) (tk_lexeme t) (tk_literal t))"

lemma stacks_cong:
  assumes "lx_tokens l = lx_tokens lx @ ts" "lx_interpolation l = lx_interpolation lx" "lx_open_triple l = lx_open_triple lx"
  shows "stacks k env lx \<Longrightarrow> stacks k env l"
  using assms by (fastforce simp: stacks_def pieces_ok_def triple_levels_def nth_append)

lemma stacks_steps: "scan_steps lx l \<Longrightarrow> stacks k env lx \<Longrightarrow> stacks k env l"
  by (rule stacks_cong [where ts = "[]"]) (simp_all add: steps_frame)

lemma stacks_add [simp]:
  "stacks k env lx \<Longrightarrow> stacks k env (add_token t w lit lx)"
  "stacks k env lx \<Longrightarrow> stacks k env (restamp_last loc (add_token t w lit lx))"
  by (erule stacks_cong [rotated -1]; simp)+

lemma stacks_set [simp]:
  "stacks k env (lx\<lparr>lx_token_start := t1\<rparr>) = stacks k env lx" "stacks k env (lx\<lparr>lx_segment_start := t1\<rparr>) = stacks k env lx"
  "stacks k env (advance lx) = stacks k env lx" "stacks k env (parse_error p b1 x lx) = stacks k env lx"
  by (simp_all add: stacks_def pieces_ok_def triple_levels_def)

lemma typed_steps: "scan_steps lx l \<Longrightarrow> tokens_typed l = tokens_typed lx"
  by (simp add: tokens_typed_def steps_frame)

lemma typed_add [simp]:
  "tokens_typed (add_token t w lit lx) \<longleftrightarrow> tokens_typed lx \<and> t \<noteq> EndOfFile \<and> literal_fits t w lit"
  "tokens_typed (restamp_last loc (add_token t w lit lx)) \<longleftrightarrow> tokens_typed lx \<and> t \<noteq> EndOfFile \<and> literal_fits t w lit"
  by (auto simp: tokens_typed_def)

lemma typed_set [simp]:
  "tokens_typed (lx\<lparr>lx_token_start := t1\<rparr>) = tokens_typed lx" "tokens_typed (lx\<lparr>lx_segment_start := t1\<rparr>) = tokens_typed lx"
  "tokens_typed (lx\<lparr>lx_interpolation := i1\<rparr>) = tokens_typed lx" "tokens_typed (lx\<lparr>lx_open_triple := o1\<rparr>) = tokens_typed lx"
  "tokens_typed (advance lx) = tokens_typed lx" "tokens_typed (parse_error p b1 x lx) = tokens_typed lx"
  by (simp_all add: tokens_typed_def)

text \<open>Opening an interpolation, recording a piece, finishing a literal.\<close>

lemma begin_cases:
  obtains (full) m loc h c where "begin_interpolation env q lx = (False, emit_syntax_error m loc h c lx)"
    | (room) l where "int (length (lx_interpolation lx)) < le_max_interpolation_depth env"
      "l = add_token InterpolationStart ''${'' None (advance (advance (lx\<lparr>lx_token_start := lexer_location lx\<rparr>)))"
      "begin_interpolation env q lx =
         (True, l\<lparr>lx_interpolation := lx_interpolation lx @ [\<lparr>is_brace_depth = 1, is_triple_quoted = q\<rparr>]\<rparr>)"
  by (cases "le_max_interpolation_depth env \<le> int (length (lx_interpolation lx))")
    (auto simp: begin_interpolation_def check_interpolation_depth_def Let_def)

lemma error_frame [simp]:
  "lx_tokens (emit_syntax_error m loc h c lx) = lx_tokens lx"
  "lx_interpolation (emit_syntax_error m loc h c lx) = lx_interpolation lx"
  "lx_open_triple (emit_syntax_error m loc h c lx) = lx_open_triple lx"
  "lx_token_start (emit_syntax_error m loc h c lx) = lx_token_start lx"
  "lx_segment_start (emit_syntax_error m loc h c lx) = lx_segment_start lx"
  "lx_file_id (emit_syntax_error m loc h c lx) = lx_file_id lx"
  by (simp_all add: emit_syntax_error_def emit_error_def)

lemma begin_stacks:
  assumes "stacks k env lx"
  shows "\<not> fst (begin_interpolation env q lx) \<Longrightarrow> stacks k env (snd (begin_interpolation env q lx))"
    and "fst (begin_interpolation env True lx) \<Longrightarrow> k = 1 \<Longrightarrow> stacks 0 env (snd (begin_interpolation env True lx))"
    and "fst (begin_interpolation env False lx) \<Longrightarrow> stacks k env (snd (begin_interpolation env False lx))"
proof -
  note s = stacks_def pieces_ok_def triple_levels_def nth_append
  show "\<not> fst (begin_interpolation env q lx) \<Longrightarrow> stacks k env (snd (begin_interpolation env q lx))"
    using assms by (cases rule: begin_cases [of env q lx]) (auto simp: s)
  show "fst (begin_interpolation env True lx) \<Longrightarrow> k = 1 \<Longrightarrow> stacks 0 env (snd (begin_interpolation env True lx))"
    using assms by (cases rule: begin_cases [of env True lx]) (fastforce simp: s)+
  show "fst (begin_interpolation env False lx) \<Longrightarrow> stacks k env (snd (begin_interpolation env False lx))"
    using assms by (cases rule: begin_cases [of env False lx]) (fastforce simp: s)+
qed

lemma begin_typed: "tokens_typed lx \<Longrightarrow> tokens_typed (snd (begin_interpolation env q lx))"
  by (cases rule: begin_cases [of env q lx]) (auto simp: tokens_typed_def)

lemma record_frame [simp]:
  "lx_tokens (record_triple_quoted_piece raw lx) = lx_tokens lx"
  "lx_interpolation (record_triple_quoted_piece raw lx) = lx_interpolation lx"
  "lx_file_id (record_triple_quoted_piece raw lx) = lx_file_id lx"
  "tokens_typed (record_triple_quoted_piece raw lx) = tokens_typed lx"
  by (simp_all add: record_triple_quoted_piece_def Let_def)

text \<open>The open literal is never missing: \<open>stacks 1\<close> is what recording and finishing start from.\<close>

lemma record_stacks:
  assumes "stacks (Suc k) env lx" and "lx_tokens lx \<noteq> []" and "is_string_part (tk_type (last (lx_tokens lx)))"
  shows "stacks (Suc k) env (record_triple_quoted_piece raw lx)"
proof -
  have open1: "lx_open_triple lx \<noteq> []" using assms(1) by (auto simp: stacks_def)
  then have "set (butlast (lx_open_triple lx)) \<subseteq> set (lx_open_triple lx)" "last (lx_open_triple lx) \<in> set (lx_open_triple lx)"
    by (auto dest: in_set_butlastD)
  moreover have "lx_open_triple (record_triple_quoted_piece raw lx) =
      butlast (lx_open_triple lx) @ [last (lx_open_triple lx) @ [(length (lx_tokens lx) - 1, raw)]]"
    using open1 by (simp add: record_triple_quoted_piece_def Let_def)
  ultimately have "pieces_ok (record_triple_quoted_piece raw lx)"
    using assms by (fastforce simp: stacks_def pieces_ok_def last_conv_nth)
  with assms open1 show ?thesis
    by (auto simp: stacks_def triple_levels_def record_triple_quoted_piece_def Let_def)
qed

lemma finish_retexts:
  assumes "pieces_ok lx" and "lx_open_triple lx \<noteq> []"
  shows "list_all2 retexts (lx_tokens lx) (lx_tokens (finish_triple_quoted_string lx))"
proof -
  let ?ps = "last (lx_open_triple lx)"
  have "?ps \<in> set (lx_open_triple lx)" using assms(2) by simp
  then have "\<forall>(i, _) \<in> set ?ps. i < length (lx_tokens lx) \<and> is_string_part (tk_type (lx_tokens lx ! i))"
    using assms(1) by (auto simp: pieces_ok_def)
  then have "\<forall>(i, _) \<in> set (map fst (zip ?ps ds)). i < length (lx_tokens lx) \<and> is_string_part (tk_type (lx_tokens lx ! i))" for ds
    by (force dest: set_zip_leftD)
  from rewrite_all [OF this] show ?thesis
    by (simp add: finish_triple_quoted_string_def Let_def retexts_all_refl)
qed

lemma finish_frame [simp]:
  "lx_interpolation (finish_triple_quoted_string lx) = lx_interpolation lx"
  "lx_open_triple (finish_triple_quoted_string lx) = butlast (lx_open_triple lx)"
  "lx_file_id (finish_triple_quoted_string lx) = lx_file_id lx"
  "lx_error_count (finish_triple_quoted_string lx) = lx_error_count lx"
  by (simp_all add: finish_triple_quoted_string_def Let_def)

lemma finish_pieces:
  assumes "pieces_ok lx" and "lx_open_triple lx \<noteq> []"
  shows "pieces_ok (finish_triple_quoted_string lx)"
  using finish_retexts [OF assms] assms
  by (fastforce simp: pieces_ok_def list_all2_conv_all_nth dest: in_set_butlastD retexts_fields(1))

lemma stacks_open: "stacks (Suc k) env lx \<Longrightarrow> pieces_ok lx" "stacks (Suc k) env lx \<Longrightarrow> lx_open_triple lx \<noteq> []"
  by (auto simp: stacks_def)

lemma finish_stacks:
  assumes "stacks (Suc k) env lx"
  shows "stacks k env (finish_triple_quoted_string lx)"
  using finish_pieces [OF stacks_open [OF assms]] assms by (simp add: stacks_def triple_levels_def)

lemma retexts_typed:
  assumes "list_all2 retexts (lx_tokens lx) (lx_tokens l)" and "tokens_typed lx"
  shows "tokens_typed l"
  unfolding tokens_typed_def
proof
  fix t'
  assume "t' \<in> set (lx_tokens l)"
  then obtain t where t: "t \<in> set (lx_tokens lx)" "retexts t t'"
    using assms(1) by (metis in_set_conv_nth list_all2_conv_all_nth)
  then show "tk_type t' \<noteq> EndOfFile \<and> literal_fits (tk_type t') (tk_lexeme t') (tk_literal t')"
    using assms(2) retexts_literal [OF t(2)] retexts_fields(1) [OF t(2)] by (simp add: tokens_typed_def)
qed

lemma finish_typed: "stacks (Suc k) env lx \<Longrightarrow> tokens_typed lx \<Longrightarrow> tokens_typed (finish_triple_quoted_string lx)"
  by (rule retexts_typed [OF finish_retexts [OF stacks_open]])

text \<open>The end of a segment, and one token.\<close>

lemma terminal_stacks [simp]: "stacks k env lx \<Longrightarrow> stacks k env (add_terminal_string_token c w lx)"
  by (simp add: add_terminal_string_token_def)

lemma terminal_typed [simp]: "tokens_typed (add_terminal_string_token c w lx) = tokens_typed lx"
  by (simp add: add_terminal_string_token_def)

lemma terminal_last [simp]:
  "lx_tokens (add_terminal_string_token c w lx) =
     lx_tokens lx @ [token_here (if c then StringEnd else StringLiteral) w (if c then None else Some (Lit_String w))
       (lx_segment_start lx) lx]"
  by (simp add: add_terminal_string_token_def)

lemma string_step_inv:
  assumes "string_step env c lx lx'" and "stacks 0 env lx" and "tokens_typed lx"
  shows "stacks 0 env lx' \<and> tokens_typed lx'"
  using assms(1)
proof cases
  case (String_Closes l w)
  then show ?thesis using assms stacks_steps [of lx l] typed_steps [of lx l] by simp
next
  case (String_Opens l t w)
  let ?l = "restamp_last (lx_segment_start l) (add_token t w None l)"
  have l: "stacks 0 env ?l" "tokens_typed ?l"
    using String_Opens assms stacks_steps [of lx l] typed_steps [of lx l] by simp_all
  then show ?thesis
    using begin_stacks(1,3) [OF l(1)] begin_typed [OF l(2)] String_Opens by blast
qed

lemma close_triple_inv:
  assumes "stacks (Suc k) env l" and "tokens_typed l"
  shows "stacks k env (close_triple c raw l) \<and> tokens_typed (close_triple c raw l)"
proof -
  let ?l = "record_triple_quoted_piece raw (add_terminal_string_token c [] l)"
  have "stacks (Suc k) env ?l" "tokens_typed ?l"
    using assms by (auto intro: record_stacks)
  then show ?thesis unfolding close_triple_def using finish_stacks finish_typed by blast
qed

lemma triple_open_type: "is_string_part (triple_quoted_segment_open_type c l)"
    "triple_quoted_segment_open_type c l \<noteq> EndOfFile" "literal_fits (triple_quoted_segment_open_type c l) w None"
  by (simp_all add: triple_quoted_segment_open_type_def)

lemma interpolate_triple_inv:
  assumes "stacks 1 env l" and "tokens_typed l"
  shows "stacks 0 env (interpolate_triple env c raw l) \<and> tokens_typed (interpolate_triple env c raw l)"
proof -
  let ?l = "record_triple_quoted_piece raw (restamp_last (lx_segment_start l)
      (add_token (triple_quoted_segment_open_type c l) [] None l))"
  have l: "stacks (Suc 0) env ?l" "tokens_typed ?l"
    using assms by (auto intro: record_stacks simp: triple_open_type)
  show ?thesis
    using begin_stacks(1,2) [OF l(1)] begin_typed [OF l(2)] finish_stacks [of 0] finish_typed [of 0]
    by (simp add: interpolate_triple_def Let_def split: prod.split) (metis fst_conv snd_conv)
qed

lemma triple_step_inv:
  assumes "triple_step env c lx lx'" and "stacks 1 env lx" and "tokens_typed lx"
  shows "stacks 0 env lx' \<and> tokens_typed lx'"
  using assms(1)
proof cases
  case (Triple_Closes l raw)
  then have "stacks (Suc 0) env l" "tokens_typed l"
    using assms(2,3) stacks_steps [of lx l] typed_steps [of lx l] by simp_all
  then show ?thesis using close_triple_inv Triple_Closes(1) by blast
next
  case (Triple_Opens l raw)
  then have "stacks 1 env l" "tokens_typed l"
    using assms(2,3) stacks_steps [of lx l] typed_steps [of lx l] by simp_all
  then show ?thesis using interpolate_triple_inv Triple_Opens(1) by blast
qed

section \<open>Tokens and the states of \<^verbatim>\<open>tokenize\<close>\<close>

lemma plain_not_end: "is_plain_type t \<Longrightarrow> t \<noteq> EndOfFile" by auto

lemma adds_token_inv:
  assumes "adds_token p lx lx'" and "stacks k env lx" and "tokens_typed lx"
  shows "stacks k env lx' \<and> tokens_typed lx'"
  using assms(1)
  by cases (use assms(2,3) in \<open>auto simp: stacks_steps typed_steps plain_not_end\<close>)

lemma levels_split:
  "lx_interpolation lx \<noteq> [] \<Longrightarrow>
   triple_levels lx = length (filter is_triple_quoted (butlast (lx_interpolation lx))) +
     (if is_triple_quoted (last (lx_interpolation lx)) then 1 else 0)"
  by (cases "lx_interpolation lx" rule: rev_cases) (simp_all add: triple_levels_def)

lemma stacks_brace:
  assumes "stacks k env lx" and "lx_interpolation lx \<noteq> []"
    and "1 \<le> is_brace_depth s" and "is_triple_quoted s = is_triple_quoted (last (lx_interpolation lx))"
  shows "stacks k env (lx\<lparr>lx_interpolation := butlast (lx_interpolation lx) @ [s]\<rparr>)"
proof -
  have "Suc (length (butlast (lx_interpolation lx))) = length (lx_interpolation lx)"
    using assms(2) by (cases "lx_interpolation lx") simp_all
  moreover have "triple_levels (lx\<lparr>lx_interpolation := butlast (lx_interpolation lx) @ [s]\<rparr>) = triple_levels lx"
    using assms(4) levels_split [OF assms(2)] by (simp add: triple_levels_def)
  ultimately show ?thesis
    using assms by (auto simp: stacks_def pieces_ok_def dest: in_set_butlastD)
qed

lemma close_interpolation_stacks:
  assumes "stacks 0 env lx" and "lx_interpolation lx \<noteq> []"
  shows "stacks (if is_triple_quoted (last (lx_interpolation lx)) then 1 else 0) env (close_interpolation lx)"
proof -
  let ?l = "lx\<lparr>lx_interpolation := butlast (lx_interpolation lx)\<rparr>"
  have "triple_levels ?l = length (filter is_triple_quoted (butlast (lx_interpolation lx)))"
    by (simp add: triple_levels_def)
  then have "stacks (if is_triple_quoted (last (lx_interpolation lx)) then 1 else 0) env ?l"
    using assms(1) levels_split [OF assms(2)] by (auto simp: stacks_def pieces_ok_def dest: in_set_butlastD)
  then show ?thesis by (simp add: close_interpolation_def Let_def)
qed

lemma close_interpolation_typed: "tokens_typed lx \<Longrightarrow> tokens_typed (close_interpolation lx)"
  by (simp add: close_interpolation_def Let_def)

lemma token_step_inv:
  assumes "token_step env lx lx'" and "stacks 0 env lx" and "tokens_typed lx"
  shows "stacks 0 env lx' \<and> tokens_typed lx'"
  using assms(1)
proof cases
  case Token_Plain
  then show ?thesis using adds_token_inv assms by blast
next
  case Token_Left_Brace
  let ?i = "lx_interpolation lx"
  have d: "\<forall>s \<in> set ?i. 1 \<le> is_brace_depth s" using assms(2) by (simp add: stacks_def)
  have "stacks 0 env (open_brace (advance lx))"
  proof (cases "?i = []")
    case True
    then show ?thesis using assms(2) by (simp add: open_brace_def)
  next
    case False
    then have "1 \<le> is_brace_depth (last ?i)" using d by simp
    then show ?thesis
      using stacks_brace [of 0 env "advance lx" "(last ?i)\<lparr>is_brace_depth := is_brace_depth (last ?i) + 1\<rparr>"]
        False assms(2) by (simp add: open_brace_def)
  qed
  moreover have "tokens_typed (open_brace (advance lx))" using assms(3) by (simp add: open_brace_def)
  ultimately show ?thesis using Token_Left_Brace by simp
next
  case Token_Right_Brace
  let ?i = "lx_interpolation lx"
  have "1 \<le> is_brace_depth (last ?i)" using assms(2) Token_Right_Brace by (simp add: stacks_def)
  then have "stacks 0 env (lower_brace lx)"
    using stacks_brace [of 0 env lx "(last ?i)\<lparr>is_brace_depth := is_brace_depth (last ?i) - 1\<rparr>"]
      Token_Right_Brace assms(2) by (simp add: lower_brace_def)
  moreover have "tokens_typed (lower_brace lx)" using assms(3) by (simp add: lower_brace_def)
  ultimately show ?thesis using Token_Right_Brace by simp
next
  case Token_String
  then show ?thesis using assms by (intro string_step_inv [of env False "open_string lx"]) (simp_all add: open_string_def)
next
  case Token_Triple
  have "stacks 1 env (open_triple False (advance (advance (open_string lx))))"
    using assms(2) by (auto simp: stacks_def open_triple_def open_string_def pieces_ok_def triple_levels_def)
  moreover have "tokens_typed (open_triple False (advance (advance (open_string lx))))"
    using assms(3) by (simp add: open_triple_def open_string_def)
  ultimately show ?thesis using triple_step_inv [OF Token_Triple(2)] by blast
next
  case Token_Close
  then show ?thesis using close_interpolation_stacks [OF assms(2)] close_interpolation_typed [OF assms(3)] string_step_inv by simp
next
  case Token_Close_Triple
  then show ?thesis using close_interpolation_stacks [OF assms(2)] close_interpolation_typed [OF assms(3)] triple_step_inv by simp
qed

text \<open>White space: the tokens and the stacks stay.\<close>

lemma skip_frame [simp]:
  "lx_tokens (skip_blank lx w) = lx_tokens lx" "lx_interpolation (skip_blank lx w) = lx_interpolation lx"
  "lx_open_triple (skip_blank lx w) = lx_open_triple lx" "lx_error_count (skip_blank lx w) = lx_error_count lx"
  "lx_file_id (skip_blank lx w) = lx_file_id lx"
proof -
  have while: "lx_tokens (advance_while p lx) = lx_tokens lx \<and> lx_interpolation (advance_while p lx) = lx_interpolation lx \<and>
      lx_open_triple (advance_while p lx) = lx_open_triple lx \<and> lx_error_count (advance_while p lx) = lx_error_count lx \<and>
      lx_file_id (advance_while p lx) = lx_file_id lx" for p lx
  proof (induction p lx rule: advance_while.induct)
    case (1 p lx)
    then show ?case by (subst (1 2 3 4 5) advance_while.simps) simp
  qed
  have "lx_tokens (skip_blank lx w) = lx_tokens lx \<and> lx_interpolation (skip_blank lx w) = lx_interpolation lx \<and>
      lx_open_triple (skip_blank lx w) = lx_open_triple lx \<and> lx_error_count (skip_blank lx w) = lx_error_count lx \<and>
      lx_file_id (skip_blank lx w) = lx_file_id lx"
  proof (induction lx w rule: skip_blank.induct)
    case (1 lx w)
    note unroll = skip_blank.simps [of lx w]
    show ?case
    proof (cases "is_at_end lx \<or> skip_line_break_or_blank lx w = None")
      case True
      then show ?thesis by (auto simp: unroll)
    next
      case False
      then obtain lx' w' where s: "skip_line_break_or_blank lx w = Some (lx', w')" by auto
      then have "lx_tokens lx' = lx_tokens lx \<and> lx_interpolation lx' = lx_interpolation lx \<and>
          lx_open_triple lx' = lx_open_triple lx \<and> lx_error_count lx' = lx_error_count lx \<and> lx_file_id lx' = lx_file_id lx"
        by (auto simp: skip_line_break_or_blank_def Let_def emit_warning_def while split: if_splits)
      with 1 [OF _ s refl] False s show ?thesis by (simp add: unroll)
    qed
  qed
  then show "lx_tokens (skip_blank lx w) = lx_tokens lx" "lx_interpolation (skip_blank lx w) = lx_interpolation lx"
    "lx_open_triple (skip_blank lx w) = lx_open_triple lx" "lx_error_count (skip_blank lx w) = lx_error_count lx"
    "lx_file_id (skip_blank lx w) = lx_file_id lx" by simp_all
qed

lemma skip_stacks [simp]: "stacks k env (skip_whitespace_and_comments lx) = stacks k env lx"
  by (simp add: stacks_def pieces_ok_def triple_levels_def skip_whitespace_and_comments_def)

lemma skip_typed [simp]: "tokens_typed (skip_whitespace_and_comments lx) = tokens_typed lx"
  by (simp add: tokens_typed_def skip_whitespace_and_comments_def)

lemma skip_count [simp]: "lx_error_count (skip_whitespace_and_comments lx) = lx_error_count lx"
  by (simp add: skip_whitespace_and_comments_def)

text \<open>The states between tokens, and how the loop ends.\<close>

definition at_token :: "lexer \<Rightarrow> lexer" where
  "at_token lx = (let lx = skip_whitespace_and_comments lx in lx\<lparr>lx_token_start := lexer_location lx\<rparr>)"

inductive reaches :: "lexer_env \<Rightarrow> lexer \<Rightarrow> lexer \<Rightarrow> bool" for env lx where
  Reaches_Start: "reaches env lx lx"
| Reaches_Token: "reaches env lx l \<Longrightarrow> \<not> is_at_end (at_token l) \<Longrightarrow> lx_error_count l < k_max_lex_errors \<Longrightarrow>
    reaches env lx (scan_token env (at_token l))"

inductive_cases reaches_cases: "reaches env lx l"

lemma reaches_from: "reaches env l l' \<Longrightarrow> reaches env lx l \<Longrightarrow> reaches env lx l'"
  by (induction rule: reaches.induct) (auto intro: reaches.intros)

lemma tokenize_loop_reaches:
  "\<exists>l. reaches env lx l \<and> tokenize_loop env lx = skip_whitespace_and_comments l \<and>
     (is_at_end (tokenize_loop env lx) \<or> k_max_lex_errors \<le> lx_error_count (tokenize_loop env lx))"
proof (induction env lx rule: tokenize_loop.induct)
  case (1 env lx)
  note unroll = tokenize_loop.simps [of env lx]
  let ?s = "skip_whitespace_and_comments lx"
  show ?case
  proof (cases "is_at_end lx \<or> is_at_end ?s \<or> k_max_lex_errors \<le> lx_error_count ?s")
    case True
    then have "tokenize_loop env lx = ?s"
      by (auto simp: unroll Let_def skip_whitespace_and_comments_def skip_blank.simps [of lx])
    with True show ?thesis
      by (intro exI [of _ lx]) (auto simp: Reaches_Start skip_whitespace_and_comments_def skip_blank.simps [of lx])
  next
    case False
    then have t: "tokenize_loop env lx = tokenize_loop env (scan_token env (at_token lx))"
      by (simp add: unroll Let_def at_token_def)
    have r: "reaches env lx (scan_token env (at_token lx))"
      using False by (intro Reaches_Token Reaches_Start) (simp_all add: at_token_def Let_def is_at_end_def)
    have "\<exists>l. reaches env (scan_token env (at_token lx)) l \<and>
        tokenize_loop env (scan_token env (at_token lx)) = skip_whitespace_and_comments l \<and>
        (is_at_end (tokenize_loop env (scan_token env (at_token lx))) \<or>
         k_max_lex_errors \<le> lx_error_count (tokenize_loop env (scan_token env (at_token lx))))"
      using 1 [OF _ refl] False by (simp add: at_token_def Let_def)
    with r t show ?thesis using reaches_from by metis
  qed
qed

text \<open>The literals still open at the end.\<close>

lemma finish_open_retexts:
  assumes "pieces_ok lx" and "length (lx_open_triple lx) = n"
  shows "list_all2 retexts (lx_tokens lx) (lx_tokens (finish_open n lx)) \<and> lx_open_triple (finish_open n lx) = [] \<and>
    lx_cursor (finish_open n lx) = lx_cursor lx \<and> lx_file_id (finish_open n lx) = lx_file_id lx \<and>
    lx_error_count (finish_open n lx) = lx_error_count lx"
  using assms
proof (induction n arbitrary: lx)
  case 0
  then show ?case by (simp add: retexts_all_refl)
next
  case (Suc n)
  then have o: "lx_open_triple lx \<noteq> []" by auto
  have "length (lx_open_triple (finish_triple_quoted_string lx)) = n" using Suc.prems(2) by simp
  from Suc.IH [OF finish_pieces [OF Suc.prems(1) o] this] finish_retexts [OF Suc.prems(1) o] show ?case
    by (auto intro: list_all2_trans [OF retexts_trans])
qed

lemma reaches_inv:
  assumes "reaches env lx l" and "stacks 0 env lx" and "tokens_typed lx"
  shows "stacks 0 env l \<and> tokens_typed l"
  using assms(1)
proof induction
  case (Reaches_Token l)
  then have "stacks 0 env (at_token l)" "tokens_typed (at_token l)" by (simp_all add: at_token_def Let_def)
  with token_step_inv [OF scan_token_refines] Reaches_Token show ?case by blast
qed (use assms(2,3) in simp)

end
