(* ===== verification/Lexer_Tiling.thy ===== *)
theory Lexer_Tiling
  imports Lexer_Stacks
begin

text \<open>
  The tokens tile the source: each token knows the exact line and column (in code points) of its two
  ends, a token that is not part of a string has the text between them as its lexeme, and only
  white space, semicolons and comments lie between two tokens.
\<close>

section \<open>Lines and columns\<close>

definition line_of :: "string \<Rightarrow> nat \<Rightarrow> int" where
  "line_of s i = 1 + int (length (filter (\<lambda>c. c = CHR 0x0A) (take i s)))"

definition column_of :: "string \<Rightarrow> nat \<Rightarrow> int" where
  "column_of s i =
     1 + int (length (filter (\<lambda>c. \<not> is_utf8_continuation (of_char c)) (takeWhile (\<lambda>c. c \<noteq> CHR 0x0A) (rev (take i s)))))"

definition place :: "int \<Rightarrow> string \<Rightarrow> nat \<Rightarrow> source_location" where
  "place fid s i = default_location\<lparr>file_id := fid, line := line_of s i, column := column_of s i\<rparr>"

definition span_text :: "string \<Rightarrow> nat \<Rightarrow> nat \<Rightarrow> string" where
  "span_text s i j = take (j - i) (drop i s)"

lemma slice_same [simp]: "span_text s i i = []" by (simp add: span_text_def)

lemma slice_append: "i \<le> j \<Longrightarrow> j \<le> k \<Longrightarrow> span_text s i j @ span_text s j k = span_text s i k"
  using take_add [of "j - i" "k - j" "drop i s"] by (simp add: span_text_def)

lemma slice_Cons: "i < j \<Longrightarrow> j \<le> length s \<Longrightarrow> span_text s i j = s ! i # span_text s (Suc i) j"
  by (simp add: span_text_def flip: Cons_nth_drop_Suc) (simp add: Suc_diff_Suc take_Cons')

lemma text_from_slice: "text_from p lx = span_text (lx_source lx) p (lx_position lx)"
  by (simp add: text_from_def span_text_def)

definition cursor_ok :: "lexer_cursor \<Rightarrow> bool" where
  "cursor_ok c \<longleftrightarrow> cu_position c \<le> length (cu_source c) \<and>
     cu_line c = line_of (cu_source c) (cu_position c) \<and> cu_column c = column_of (cu_source c) (cu_position c)"

lemma cursor_ok_start: "cursor_ok (cursor_start s)"
  by (simp add: cursor_ok_def cursor_start_def line_of_def column_of_def)

lemma cursor_ok_advance:
  assumes "cursor_ok c" and "\<not> cursor_at_end c"
  shows "cursor_ok (cursor_advance c)"
proof -
  have p: "cu_position c < length (cu_source c)" using assms(2) by (simp add: cursor_at_end_def)
  then have t: "take (Suc (cu_position c)) (cu_source c) = take (cu_position c) (cu_source c) @ [cu_source c ! cu_position c]"
    by (rule take_Suc_conv_app_nth)
  show ?thesis
    using assms p
    by (auto simp: cursor_ok_def cursor_advance_def cursor_current_def Let_def line_of_def column_of_def t)
qed

lemma place_here:
  "cursor_ok (lx_cursor lx) \<Longrightarrow> lexer_location lx = place (lx_file_id lx) (lx_source lx) (lx_position lx)"
  by (simp add: lexer_location_def cursor_location_def place_def cursor_ok_def)

lemma cursor_ok_steps: "scan_steps lx l \<Longrightarrow> cursor_ok (lx_cursor lx) \<Longrightarrow> cursor_ok (lx_cursor l)"
  by (induction rule: scan_steps.induct) (simp_all add: cursor_ok_advance is_at_end_def)

section \<open>White space\<close>

text \<open>Blanks, semicolons and comments; a comment ends at a line feed, or at the end of the source.\<close>

fun trivia :: "bool \<Rightarrow> bool \<Rightarrow> string \<Rightarrow> bool" where
  "trivia at_end inside [] \<longleftrightarrow> (inside \<longrightarrow> at_end)"
| "trivia at_end inside (c # cs) \<longleftrightarrow>
     (if inside then trivia at_end (c \<noteq> CHR 0x0A) cs
      else if c = CHR ''#'' then trivia at_end True cs
      else c \<in> {CHR 0x0A, CHR '' '', CHR 0x09, CHR 0x0D, CHR '';''} \<and> trivia at_end False cs)"

lemma trivia_comment: "CHR 0x0A \<notin> set v \<Longrightarrow> trivia e True (v @ w) = trivia e True w"
  by (induction v) auto

lemma comment_end:
  assumes "cursor_ok (lx_cursor lx)"
  shows "cursor_ok (lx_cursor (advance_while (\<lambda>c. c \<noteq> CHR 0x0A) lx)) \<and>
    CHR 0x0A \<notin> set (span_text (lx_source lx) (lx_position lx) (lx_position (advance_while (\<lambda>c. c \<noteq> CHR 0x0A) lx))) \<and>
    (is_at_end (advance_while (\<lambda>c. c \<noteq> CHR 0x0A) lx) \<or> current (advance_while (\<lambda>c. c \<noteq> CHR 0x0A) lx) = CHR 0x0A)"
  using assms
proof (induction "\<lambda>c::char. c \<noteq> CHR 0x0A" lx rule: advance_while.induct)
  case (1 lx)
  let ?p = "\<lambda>c::char. c \<noteq> CHR 0x0A"
  show ?case
  proof (cases "is_at_end lx \<or> current lx = CHR 0x0A")
    case True
    then have "advance_while ?p lx = lx" by (subst advance_while.simps) auto
    with True 1(2) show ?thesis by simp
  next
    case False
    let ?l = "advance_while ?p (advance lx)"
    have l: "advance_while ?p lx = ?l" using False by (subst advance_while.simps) auto
    have c: "cursor_ok (lx_cursor (advance lx))"
      using 1(2) False by (simp add: cursor_ok_advance is_at_end_def)
    have IH: "cursor_ok (lx_cursor ?l)" "CHR 0x0A \<notin> set (span_text (lx_source lx) (lx_position lx + 1) (lx_position ?l))"
      "is_at_end ?l \<or> current ?l = CHR 0x0A"
      using 1(1) [OF _ c] False by simp_all
    have o: "lx_source ?l = lx_source lx" "lx_position lx < lx_position ?l"
      using advance_while_onward [of "advance lx" ?p] by (simp_all add: onward_def)
    have "span_text (lx_source lx) (lx_position lx) (lx_position ?l) =
        current lx # span_text (lx_source lx) (lx_position lx + 1) (lx_position ?l)"
      using slice_Cons [OF o(2)] IH(1) o(1) False
      by (simp add: cursor_ok_def current_def cursor_current_def is_at_end_def)
    with IH l False show ?thesis by (simp add: eq_commute)
  qed
qed

text \<open>What the white space of \<^verbatim>\<open>skip_whitespace_and_comments\<close> is.\<close>

lemma skip_trivia:
  assumes "cursor_ok (lx_cursor lx)"
  shows "cursor_ok (lx_cursor (skip_blank lx w)) \<and>
    trivia (is_at_end (skip_blank lx w)) False (span_text (lx_source lx) (lx_position lx) (lx_position (skip_blank lx w)))"
  using assms
proof (induction lx w rule: skip_blank.induct)
  case (1 lx w)
  note unroll = skip_blank.simps [of lx w]
  show ?case
  proof (cases "is_at_end lx \<or> skip_line_break_or_blank lx w = None")
    case True
    then have "skip_blank lx w = lx" by (auto simp: unroll)
    with 1(2) show ?thesis by simp
  next
    case False
    then obtain lx' w' where s: "skip_line_break_or_blank lx w = Some (lx', w')" by auto
    have e: "\<not> is_at_end lx" using False by simp
    let ?l = "skip_blank lx' w'"
    have l: "skip_blank lx w = ?l" using s e by (simp add: unroll)
    have on: "lx_source ?l = lx_source lx'" "lx_position lx' \<le> lx_position ?l"
      using skip_blank_onward [of lx' w'] by (simp_all add: onward_def)
    have src: "lx_source lx' = lx_source lx" "lx_position lx < lx_position lx'"
      using skip_step_onward [OF s e] by simp_all
    have blank: ?thesis if lx': "lx_cursor lx' = cursor_advance (lx_cursor lx)"
      and c: "current lx \<in> {CHR 0x0A, CHR '' '', CHR 0x09, CHR 0x0D, CHR '';''}"
    proof -
      have "cursor_ok (lx_cursor lx')" using 1(2) e lx' by (simp add: cursor_ok_advance is_at_end_def)
      note IH = 1(1) [OF e s refl this]
      have "span_text (lx_source lx) (lx_position lx) (lx_position ?l) = current lx # span_text (lx_source lx) (lx_position lx') (lx_position ?l)"
        using slice_Cons [of "lx_position lx" "lx_position ?l" "lx_source lx"] IH on src lx' e
        by (simp add: cursor_ok_def current_def cursor_current_def is_at_end_def)
      with IH c l src show ?thesis by auto
    qed
    show ?thesis
    proof (cases "current lx = CHR ''#''")
      case False
      with s blank show ?thesis
        by (auto simp: skip_line_break_or_blank_def Let_def split: if_splits)
    next
      case True
      then have lx': "lx' = advance_while (\<lambda>c. c \<noteq> CHR 0x0A) lx"
        using s by (auto simp: skip_line_break_or_blank_def Let_def split: if_splits)
      note ce = comment_end [OF 1(2), folded lx']
      note IH = 1(1) [OF e s refl conjunct1 [OF ce]]
      let ?v = "span_text (lx_source lx) (lx_position lx) (lx_position lx')"
      let ?w = "span_text (lx_source lx) (lx_position lx') (lx_position ?l)"
      have whole: "span_text (lx_source lx) (lx_position lx) (lx_position ?l) = ?v @ ?w"
        using slice_append [of "lx_position lx" "lx_position lx'" "lx_position ?l"] src on by simp
      have v: "?v = CHR ''#'' # tl ?v"
        using slice_Cons [of "lx_position lx" "lx_position lx'" "lx_source lx"] src ce True e
        by (simp add: cursor_ok_def current_def cursor_current_def is_at_end_def)
      have nl: "CHR 0x0A \<notin> set (tl ?v)" using ce v by (metis list.set_intros(2))
      have rest: "trivia (is_at_end ?l) True ?w"
      proof (cases "is_at_end lx'")
        case True
        then have "?l = lx'" by (simp add: skip_blank.simps [of lx'])
        with True show ?thesis by simp
      next
        case False
        then have c: "current lx' = CHR 0x0A" using ce by simp
        then obtain lx2 w2 where s2: "skip_line_break_or_blank lx' w' = Some (lx2, w2)"
          by (auto simp: skip_line_break_or_blank_def Let_def)
        then have "?l = skip_blank lx2 w2" using False by (simp add: skip_blank.simps [of lx'])
        then have p: "lx_position lx' < lx_position ?l"
          using skip_step_onward [OF s2 False] skip_blank_onward [of lx2 w2] by (simp add: onward_def)
        then have "?w = CHR 0x0A # span_text (lx_source lx) (Suc (lx_position lx')) (lx_position ?l)"
          using slice_Cons [OF p, of "lx_source lx"] IH on src c False
          by (simp add: cursor_ok_def current_def cursor_current_def is_at_end_def)
        with IH src show ?thesis by simp
      qed
      have "trivia (is_at_end ?l) False (?v @ ?w)"
        by (subst v) (simp add: trivia_comment [OF nl] rest)
      with IH l whole show ?thesis by simp
    qed
  qed
qed

section \<open>Tilings\<close>

text \<open>Spans that follow each other up to an offset, with white space between them.\<close>

inductive tiles :: "string \<Rightarrow> (nat \<times> nat) list \<Rightarrow> nat \<Rightarrow> bool" for s where
  Tiles_None: "tiles s [] 0"
| Tiles_Snoc: "tiles s spans e \<Longrightarrow> e \<le> i \<Longrightarrow> i \<le> j \<Longrightarrow> j \<le> length s \<Longrightarrow> trivia False False (span_text s e i) \<Longrightarrow>
    tiles s (spans @ [(i, j)]) j"

definition token_at :: "int \<Rightarrow> string \<Rightarrow> token \<Rightarrow> nat \<times> nat \<Rightarrow> bool" where
  "token_at fid s t span \<longleftrightarrow>
     tk_start_location t = place fid s (fst span) \<and> tk_location t = place fid s (snd span) \<and>
     (is_string_part (tk_type t) \<or> lexeme_fits (tk_type t) (tk_lexeme t) (span_text s (fst span) (snd span)))"

text \<open>The tokens so far tile the source up to white space before \<open>k\<close>.\<close>

definition tiled_to :: "nat \<Rightarrow> lexer \<Rightarrow> bool" where
  "tiled_to k lx \<longleftrightarrow>
     cursor_ok (lx_cursor lx) \<and> k \<le> lx_position lx \<and>
     (\<exists>spans e. tiles (lx_source lx) spans e \<and> e \<le> k \<and> trivia False False (span_text (lx_source lx) e k) \<and>
        list_all2 (token_at (lx_file_id lx) (lx_source lx)) (lx_tokens lx) spans)"

definition tiled :: "lexer \<Rightarrow> bool" where
  "tiled lx \<longleftrightarrow> cursor_ok (lx_cursor lx) \<and>
     (\<exists>spans. tiles (lx_source lx) spans (lx_position lx) \<and>
        list_all2 (token_at (lx_file_id lx) (lx_source lx)) (lx_tokens lx) spans)"

lemma tiled_here: "tiled lx \<Longrightarrow> tiled_to (lx_position lx) lx"
proof -
  assume "tiled lx"
  then obtain spans where "tiles (lx_source lx) spans (lx_position lx)"
    "list_all2 (token_at (lx_file_id lx) (lx_source lx)) (lx_tokens lx) spans" "cursor_ok (lx_cursor lx)"
    by (auto simp: tiled_def)
  then show ?thesis
    unfolding tiled_to_def by (intro conjI exI [of _ spans] exI [of _ "lx_position lx"]) simp_all
qed

lemma tiled_cursor: "tiled lx \<Longrightarrow> cursor_ok (lx_cursor lx)" "tiled_to k lx \<Longrightarrow> cursor_ok (lx_cursor lx)"
  by (simp_all add: tiled_def tiled_to_def)

lemma tiled_steps: "scan_steps lx l \<Longrightarrow> tiled_to k lx \<Longrightarrow> tiled_to k l"
  using steps_frame [of lx l] cursor_ok_steps [of lx l] by (auto simp: tiled_to_def)

text \<open>States that differ in nothing the tiling reads.\<close>

lemma tiled_cong:
  assumes "lx_cursor l = lx_cursor lx" "lx_file_id l = lx_file_id lx" "lx_tokens l = lx_tokens lx"
  shows "tiled l = tiled lx" "tiled_to k l = tiled_to k lx"
  using assms by (simp_all add: tiled_def tiled_to_def)

lemma tiled_retexts:
  assumes "list_all2 retexts (lx_tokens lx) (lx_tokens l)" "lx_cursor l = lx_cursor lx" "lx_file_id l = lx_file_id lx"
    and "tiled lx"
  shows "tiled l"
proof -
  have t: "token_at fid s t' x" if "retexts t t'" "token_at fid s t x" for fid s t t' x
    using that(2) retexts_fields [OF that(1)] by (auto simp: token_at_def)
  obtain spans where "tiles (lx_source lx) spans (lx_position lx)"
    "list_all2 (token_at (lx_file_id lx) (lx_source lx)) (lx_tokens lx) spans"
    using assms(4) by (auto simp: tiled_def)
  moreover from this(2) have "list_all2 (token_at (lx_file_id lx) (lx_source lx)) (lx_tokens l) spans"
    using assms(1) t by (simp add: list_all2_conv_all_nth) metis
  ultimately show ?thesis using assms(2,3,4) by (auto simp: tiled_def)
qed

lemma finish_tiled:
  assumes "stacks (Suc k) env lx" and "tiled lx"
  shows "tiled (finish_triple_quoted_string lx)"
  by (rule tiled_retexts [OF finish_retexts [OF stacks_open [OF assms(1)]] _ _ assms(2)]) simp_all

lemma tiled_add:
  assumes "tiled_to k lx" and "st = place (lx_file_id lx) (lx_source lx) k"
    and "is_string_part t \<or> lexeme_fits t w (text_from k lx)"
    and "lx_tokens l = lx_tokens lx @ [token_here t w lit st lx]" "lx_cursor l = lx_cursor lx" "lx_file_id l = lx_file_id lx"
  shows "tiled l"
proof -
  obtain spans e where s: "tiles (lx_source lx) spans e" "e \<le> k" "trivia False False (span_text (lx_source lx) e k)"
    "list_all2 (token_at (lx_file_id lx) (lx_source lx)) (lx_tokens lx) spans"
    and k: "k \<le> lx_position lx" and c: "cursor_ok (lx_cursor lx)"
    using assms(1) by (auto simp: tiled_to_def)
  have "tiles (lx_source lx) (spans @ [(k, lx_position lx)]) (lx_position lx)"
    using s k c by (intro Tiles_Snoc) (auto simp: cursor_ok_def)
  moreover have "token_at (lx_file_id lx) (lx_source lx) (token_here t w lit st lx) (k, lx_position lx)"
    using assms(2,3) place_here [OF c] by (simp add: token_at_def text_from_slice)
  ultimately show ?thesis
    using s c assms(4,5,6) by (auto simp: tiled_def intro!: exI [of _ "spans @ [(k, lx_position lx)]"] list_all2_appendI)
qed

lemma tiled_plain:
  assumes "adds_token k lx lx'" and "tiled_to k lx" and "lx_token_start lx = place (lx_file_id lx) (lx_source lx) k"
  shows "tiled lx'"
  using assms(1)
proof cases
  case (Adds l t w lit)
  then show ?thesis
    using assms(2,3) steps_frame [of lx l] tiled_steps [of lx l k]
    by (intro tiled_add [of k l _ t w _ lit]) auto
next
  case (Adds_Bad_Number l t w lit o1 b x)
  let ?l = "parse_error o1 b x l"
  have "tiled_to k ?l" using assms(2) Adds_Bad_Number tiled_steps [of lx l k] by (simp add: tiled_cong(2) [of ?l l])
  then show ?thesis
    using assms(3) steps_frame [of lx l] Adds_Bad_Number
    by (intro tiled_add [of k ?l _ t w _ lit]) auto
qed

lemma advance_starts [simp]:
  "lx_token_start (advance lx) = lx_token_start lx" "lx_segment_start (advance lx) = lx_segment_start lx"
  by (simp_all add: advance_def)

text \<open>Opening an interpolation at \<^verbatim>\<open>${\<close>.\<close>

lemma tiled_begin:
  assumes "tiled lx" and "current lx = CHR ''$''" and "peek_next lx = CHR ''{''"
  shows "tiled (snd (begin_interpolation env q lx))"
proof (cases rule: begin_cases [of env q lx])
  case (full m loc h c)
  then show ?thesis using assms(1) tiled_cong(1) [of "snd (begin_interpolation env q lx)" lx] by simp
next
  case (room l)
  let ?l0 = "lx\<lparr>lx_token_start := lexer_location lx\<rparr>"
  let ?l2 = "advance (advance ?l0)"
  have e: "\<not> is_at_end ?l0" "\<not> is_at_end (advance ?l0)"
    using assms(2,3) by (auto simp: is_at_end_def cursor_at_end_def current_def cursor_current_def
        peek_next_def cursor_peek_next_def split: if_splits)
  then have st: "scan_steps ?l0 ?l2" by auto
  have cur: "current ?l0 = CHR ''$''" "current (advance ?l0) = CHR ''{''"
    using assms(2,3) by (auto simp: current_def cursor_current_def peek_next_def cursor_peek_next_def
        cursor_at_end_def split: if_splits)
  have "tiled_to (lx_position lx) ?l0" using tiled_here [OF assms(1)] tiled_cong(2) [of ?l0 lx] by simp
  then have "tiled_to (lx_position lx) ?l2" by (rule tiled_steps [OF st])
  moreover have "text_from (lx_position lx) ?l2 = ''${''"
  proof -
    have "text_from (lx_position lx) ?l0 = []" using text_from_here [of ?l0] by simp
    then have "text_from (lx_position lx) (advance ?l0) = ''$''"
      using text_from_advance [OF e(1), of "lx_position lx"] cur(1) by simp
    then show ?thesis using text_from_advance [OF e(2), of "lx_position lx"] cur(2) by simp
  qed
  ultimately have "tiled l"
    using room(2) place_here [OF tiled_cursor(1) [OF assms(1)]]
    by (intro tiled_add [of "lx_position lx" ?l2 _ InterpolationStart "''${''" _ None]) simp_all
  then show ?thesis using tiled_cong(1) [of "snd (begin_interpolation env q lx)" l] by (simp add: room(3))
qed

lemma tiled_string_part:
  assumes "tiled_to k l" and "lx_segment_start l = place (lx_file_id l) (lx_source l) k" and "is_string_part t"
  shows "tiled (restamp_last (lx_segment_start l) (add_token t w lit l))"
  using assms by (intro tiled_add [of k l _ t w _ lit]) simp_all

lemma current_cong: "lx_cursor l = lx_cursor lx \<Longrightarrow> current l = current lx \<and> peek_next l = peek_next lx"
  by (simp add: current_def peek_next_def)

lemma string_step_tiled:
  assumes "string_step env c lx lx'" and "tiled_to k lx"
    and "lx_segment_start lx = place (lx_file_id lx) (lx_source lx) k"
  shows "tiled lx'"
  using assms(1)
proof cases
  case (String_Closes l w)
  have l: "tiled_to k l" "lx_segment_start l = place (lx_file_id l) (lx_source l) k"
    using assms(2,3) tiled_steps [OF String_Closes(2)] steps_frame [OF String_Closes(2)] by simp_all
  show ?thesis
    using tiled_string_part [OF l] String_Closes(1) by (simp add: add_terminal_string_token_def)
next
  case (String_Opens l t w)
  have l: "tiled_to k l" "lx_segment_start l = place (lx_file_id l) (lx_source l) k"
    using assms(2,3) tiled_steps [OF String_Opens(2)] steps_frame [OF String_Opens(2)] by simp_all
  let ?t = "restamp_last (lx_segment_start l) (add_token t w None l)"
  have "tiled ?t" using tiled_string_part [OF l] String_Opens(5) by simp
  then show ?thesis
    unfolding String_Opens(1) using String_Opens(3,4) current_cong [of ?t l] by (intro tiled_begin) simp_all
qed

lemma triple_step_tiled:
  assumes "triple_step env c lx lx'" and "stacks 1 env lx" and "tiled_to k lx"
    and "lx_segment_start lx = place (lx_file_id lx) (lx_source lx) k"
  shows "tiled lx'"
  using assms(1)
proof cases
  case (Triple_Closes l raw)
  have l: "tiled_to k l" "lx_segment_start l = place (lx_file_id l) (lx_source l) k" "stacks (Suc 0) env l"
    using assms(2-4) tiled_steps [OF Triple_Closes(2)] steps_frame [OF Triple_Closes(2)] stacks_steps [OF Triple_Closes(2)]
    by simp_all
  let ?t = "add_terminal_string_token c [] l"
  let ?r = "record_triple_quoted_piece raw ?t"
  have "tiled ?t" using tiled_string_part [OF l(1,2)] by (simp add: add_terminal_string_token_def)
  then have "tiled ?r" by (simp add: tiled_cong(1) [of ?r ?t])
  moreover have "stacks (Suc 0) env ?r" using l(3) by (auto intro: record_stacks)
  ultimately show ?thesis
    unfolding Triple_Closes(1) close_triple_def by (intro finish_tiled)
next
  case (Triple_Opens l raw)
  have l: "tiled_to k l" "lx_segment_start l = place (lx_file_id l) (lx_source l) k" "stacks (Suc 0) env l"
    using assms(2-4) tiled_steps [OF Triple_Opens(2)] steps_frame [OF Triple_Opens(2)] stacks_steps [OF Triple_Opens(2)]
    by simp_all
  let ?t = "restamp_last (lx_segment_start l) (add_token (triple_quoted_segment_open_type c l) [] None l)"
  let ?r = "record_triple_quoted_piece raw ?t"
  have "tiled ?t" using tiled_string_part [OF l(1,2)] by (simp add: triple_open_type)
  then have "tiled ?r" by (simp add: tiled_cong(1) [of ?r ?t])
  then have b: "tiled (snd (begin_interpolation env True ?r))"
    using Triple_Opens(3,4) current_cong [of ?r l] by (intro tiled_begin) simp_all
  have s: "stacks (Suc 0) env ?r" using l(3) by (auto intro: record_stacks simp: triple_open_type)
  obtain ok b1 where r: "begin_interpolation env True ?r = (ok, b1)" by fastforce
  have "tiled (finish_triple_quoted_string b1)" if "\<not> ok"
    using that b begin_stacks(1) [OF s, of True] r by (intro finish_tiled [of 0 env]) simp_all
  then show ?thesis
    using b r Triple_Opens(1) by (auto simp: interpolate_triple_def Let_def)
qed

section \<open>Tokens and the states of \<^verbatim>\<open>tokenize\<close>\<close>

lemma finish_cursor_fields [simp]: "lx_segment_start (finish_triple_quoted_string lx) = lx_segment_start lx"
  by (simp add: finish_triple_quoted_string_def Let_def)

lemma one_char:
  assumes "\<not> is_at_end lx" and "current lx = c" and "lx_cursor l = lx_cursor lx"
  shows "text_from (lx_position lx) (advance l) = [c]"
proof -
  have "text_from (lx_position lx) l = []" using assms(3) by (simp add: text_from_def)
  moreover have "\<not> is_at_end l" "current l = c" using assms by (simp_all add: is_at_end_def current_def)
  ultimately show ?thesis using text_from_advance [of l "lx_position lx"] assms(3) by simp
qed

lemma tiled_advance: "tiled_to k l \<Longrightarrow> \<not> is_at_end l \<Longrightarrow> tiled_to k (advance l)"
  by (rule tiled_steps [OF steps_advance])

lemma tiled_brace:
  assumes "\<not> is_at_end lx" and "current lx = c" and "tiled_to (lx_position lx) lx"
    and "lx_token_start lx = place (lx_file_id lx) (lx_source lx) (lx_position lx)"
    and "l = lx\<lparr>lx_interpolation := i\<rparr>" and "t \<noteq> Annotation" and "l' = add_token t [c] None (advance l)"
  shows "tiled l'"
proof -
  have "tiled_to (lx_position lx) l" using assms(3,5) tiled_cong(2) [of l lx] by simp
  then have "tiled_to (lx_position lx) (advance l)" using assms(1,5) by (intro tiled_advance) (simp_all add: is_at_end_def)
  then show ?thesis
    using assms(4-7) one_char [OF assms(1,2), of l]
    by (intro tiled_add [of "lx_position lx" "advance l" _ t "[c]" _ None]) simp_all
qed

lemma open_brace_form: "\<exists>i. open_brace lx = lx\<lparr>lx_interpolation := i\<rparr>"
  by (cases "lx_interpolation lx = []") (auto simp: open_brace_def intro: exI [of _ "[]"])

lemma open_brace_advance: "open_brace (advance lx) = advance (open_brace lx)"
  by (simp add: open_brace_def advance_def)

lemma close_tiled:
  assumes "\<not> is_at_end lx" and "current lx = CHR ''}''" and "tiled_to (lx_position lx) lx"
    and "lx_token_start lx = place (lx_file_id lx) (lx_source lx) (lx_position lx)"
  shows "tiled_to (lx_position (close_interpolation lx)) (close_interpolation lx) \<and>
    lx_segment_start (close_interpolation lx) =
      place (lx_file_id (close_interpolation lx)) (lx_source (close_interpolation lx)) (lx_position (close_interpolation lx))"
proof -
  let ?l = "add_token InterpolationEnd ''}'' None (advance (lx\<lparr>lx_interpolation := butlast (lx_interpolation lx)\<rparr>))"
  have t: "tiled ?l" by (rule tiled_brace [OF assms refl _ refl]) simp
  then have "tiled (close_interpolation lx)"
    using tiled_cong(1) [of "close_interpolation lx" ?l] by (simp add: close_interpolation_def Let_def)
  moreover have "lx_segment_start (close_interpolation lx) =
      place (lx_file_id (close_interpolation lx)) (lx_source (close_interpolation lx)) (lx_position (close_interpolation lx))"
    using place_here [OF tiled_cursor(1) [OF t]] by (simp add: close_interpolation_def Let_def)
  ultimately show ?thesis by (simp add: tiled_here)
qed

lemma token_step_tiled:
  assumes "token_step env lx lx'" and "stacks 0 env lx" and t: "tiled_to (lx_position lx) lx"
    and s: "lx_token_start lx = place (lx_file_id lx) (lx_source lx) (lx_position lx)"
  shows "tiled lx'"
  using assms(1)
proof cases
  case Token_Plain
  then show ?thesis using tiled_plain t s by blast
next
  case Token_Left_Brace
  obtain i where "open_brace (advance lx) = advance (lx\<lparr>lx_interpolation := i\<rparr>)"
    using open_brace_form [of lx] by (metis open_brace_advance)
  then show ?thesis
    using tiled_brace [OF Token_Left_Brace(2,3) t s refl] Token_Left_Brace(1) by simp
next
  case Token_Right_Brace
  then show ?thesis
    using tiled_brace [OF Token_Right_Brace(2,3) t s] Token_Right_Brace(1) by (simp add: lower_brace_def)
next
  case Token_String
  let ?l = "lx\<lparr>lx_segment_start := lexer_location lx\<rparr>"
  have "tiled_to (lx_position lx) ?l" using t tiled_cong(2) [of ?l lx] by simp
  then have "tiled_to (lx_position lx) (open_string lx)"
    unfolding open_string_def using Token_String(1) by (intro tiled_advance) (simp_all add: is_at_end_def)
  then show ?thesis
    using string_step_tiled [OF Token_String(2)] place_here [OF tiled_cursor(2) [OF t]]
    by (simp add: open_string_def)
next
  case Token_Triple
  let ?l = "lx\<lparr>lx_segment_start := lexer_location lx\<rparr>"
  let ?l3 = "open_triple False (advance (advance (open_string lx)))"
  have "tiled_to (lx_position lx) ?l" using t tiled_cong(2) [of ?l lx] by simp
  then have "tiled_to (lx_position lx) (advance (advance (open_string lx)))"
    unfolding open_string_def using Token_Triple(1) by (intro tiled_advance) (simp_all add: is_at_end_iff)
  then have "tiled_to (lx_position lx) ?l3"
    using tiled_cong(2) [of ?l3 "advance (advance (open_string lx))"] by (simp add: open_triple_def)
  moreover have "stacks 1 env ?l3"
    using assms(2) by (auto simp: stacks_def open_triple_def open_string_def pieces_ok_def triple_levels_def)
  ultimately show ?thesis
    using triple_step_tiled [OF Token_Triple(2)] place_here [OF tiled_cursor(2) [OF t]]
    by (simp add: open_string_def open_triple_def)
next
  case Token_Close
  then show ?thesis using string_step_tiled close_tiled [OF _ _ t s] by blast
next
  case Token_Close_Triple
  have "stacks 1 env (close_interpolation lx)"
    using close_interpolation_stacks [OF assms(2) Token_Close_Triple(3)] Token_Close_Triple(5) by simp
  then show ?thesis
    using triple_step_tiled [OF Token_Close_Triple(6)] close_tiled [OF Token_Close_Triple(1,2) t s] by blast
qed

text \<open>Between two tokens the tiling is exact; white space leads to the next one.\<close>

lemma at_token_tiled:
  assumes "tiled l" and "\<not> is_at_end (at_token l)"
  shows "tiled_to (lx_position (at_token l)) (at_token l)"
    and "lx_token_start (at_token l) = place (lx_file_id (at_token l)) (lx_source (at_token l)) (lx_position (at_token l))"
proof -
  let ?s = "skip_whitespace_and_comments l"
  have sk: "cursor_ok (lx_cursor ?s)" "trivia (is_at_end ?s) False (span_text (lx_source l) (lx_position l) (lx_position ?s))"
    using skip_trivia [OF tiled_cursor(1) [OF assms(1)]] by (simp_all add: skip_whitespace_and_comments_def)
  have on: "lx_source ?s = lx_source l" "lx_position l \<le> lx_position ?s" "lx_tokens ?s = lx_tokens l" "lx_file_id ?s = lx_file_id l"
    using skip_blank_onward [of l False] by (simp_all add: onward_def skip_whitespace_and_comments_def)
  have "\<not> is_at_end ?s" using assms(2) by (simp add: at_token_def Let_def is_at_end_def)
  with sk on assms(1) have "tiled_to (lx_position ?s) ?s" by (auto simp: tiled_def tiled_to_def)
  moreover have c: "lx_cursor (at_token l) = lx_cursor ?s" "lx_file_id (at_token l) = lx_file_id ?s" "lx_tokens (at_token l) = lx_tokens ?s"
    by (simp_all add: at_token_def Let_def)
  ultimately show "tiled_to (lx_position (at_token l)) (at_token l)" using tiled_cong(2) [OF c] by simp
  show "lx_token_start (at_token l) = place (lx_file_id (at_token l)) (lx_source (at_token l)) (lx_position (at_token l))"
    using place_here [OF sk(1)] by (simp add: at_token_def Let_def)
qed

lemma reaches_tiled:
  assumes "reaches env lx l" and "stacks 0 env lx" and "tokens_typed lx" and "tiled lx"
  shows "tiled l"
  using assms(1)
proof induction
  case (Reaches_Token l)
  have "stacks 0 env (at_token l)"
    using reaches_inv [OF Reaches_Token(1) assms(2,3)] by (simp add: at_token_def Let_def)
  then show ?case
    using token_step_tiled [OF scan_token_refines] at_token_tiled [OF Reaches_Token(4)] Reaches_Token(2) by blast
qed (rule assms(4))

end
