(* ===== verification/Lexer_Props.thy ===== *)
theory Lexer_Props
  imports Lexer_Tiling
begin

text \<open>
  The properties of \<^verbatim>\<open>tokenize\<close>: the tokens tile the source, carry the payload of their type and end
  with one end-of-file token; the stacks are balanced and bounded; so is the number of errors; a quoted
  string lexes back; the binary search of keywords is a lookup.
\<close>

section \<open>The whole run\<close>

lemma new_lexer_inv: "stacks 0 env (new_lexer s fid)" "tokens_typed (new_lexer s fid)" "tiled (new_lexer s fid)"
  by (auto simp: stacks_def pieces_ok_def triple_levels_def tokens_typed_def tiled_def new_lexer_def
      cursor_ok_start intro!: exI [of _ "[]"] Tiles_None)
    (simp_all add: cursor_start_def Tiles_None)

lemma file_frame:
  "lx_file_id (snd (begin_interpolation env q lx)) = lx_file_id lx"
  "lx_file_id (close_triple c raw lx) = lx_file_id lx" "lx_file_id (interpolate_triple env c raw lx) = lx_file_id lx"
  "lx_file_id (close_interpolation lx) = lx_file_id lx" "lx_file_id (open_brace lx) = lx_file_id lx"
proof -
  show b: "lx_file_id (snd (begin_interpolation env q lx)) = lx_file_id lx" for q lx
    by (cases rule: begin_cases [of env q lx]) simp_all
  show "lx_file_id (close_triple c raw lx) = lx_file_id lx"
    by (simp add: close_triple_def add_terminal_string_token_def)
  show "lx_file_id (interpolate_triple env c raw lx) = lx_file_id lx"
    using b [of True] by (auto simp: interpolate_triple_def Let_def split: prod.split) (metis (no_types, lifting) added_frame(11,12) record_frame(3) snd_conv)+
qed (simp_all add: close_interpolation_def Let_def open_brace_def)

lemma string_step_file: "string_step env c lx lx' \<Longrightarrow> lx_file_id lx' = lx_file_id lx"
  by (erule string_step.cases) (simp_all add: file_frame steps_frame add_terminal_string_token_def)

lemma triple_step_file: "triple_step env c lx lx' \<Longrightarrow> lx_file_id lx' = lx_file_id lx"
  by (erule triple_step.cases) (simp_all add: file_frame steps_frame)

lemma token_step_file:
  assumes "token_step env lx lx'"
  shows "lx_file_id lx' = lx_file_id lx"
  using assms
proof cases
  case Token_Plain
  then show ?thesis by (auto elim!: adds_token.cases simp: steps_frame)
qed (auto simp: file_frame lower_brace_def open_string_def open_triple_def dest!: string_step_file triple_step_file)

lemma reaches_frame: "reaches env lx l \<Longrightarrow> lx_file_id l = lx_file_id lx \<and> lx_source l = lx_source lx"
proof (induction rule: reaches.induct)
  case (Reaches_Token l)
  have "onward l (skip_whitespace_and_comments l)" by (simp add: skip_whitespace_and_comments_def)
  then show ?case
    using Reaches_Token token_step_file [OF scan_token_refines [OF Reaches_Token(2)]] scan_token_moves [OF Reaches_Token(2), of env]
    by (simp add: moves_def onward_def at_token_def Let_def skip_whitespace_and_comments_def)
qed simp

text \<open>The state when the loop has ended, and the end of the run.\<close>

lemma lex_cases:
  obtains l l2 l3 where "reaches env (new_lexer s 0) l" "l2 = skip_whitespace_and_comments l"
    "is_at_end l2 \<or> k_max_lex_errors \<le> lx_error_count l2"
    "list_all2 retexts (lx_tokens l2) (lx_tokens l3)" "lx_open_triple l3 = []" "lx_cursor l3 = lx_cursor l2"
    "lx_file_id l3 = lx_file_id l2" "lx_error_count l3 = lx_error_count l2"
    "l3 = finish_open (length (lx_open_triple l2)) l2"
    "lex env s = stamp_token_starts (add_token EndOfFile [] None (l3\<lparr>lx_token_start := lexer_location l3\<rparr>))"
proof -
  let ?n = "new_lexer s 0"
  obtain l where l: "reaches env ?n l" "tokenize_loop env ?n = skip_whitespace_and_comments l"
    "is_at_end (tokenize_loop env ?n) \<or> k_max_lex_errors \<le> lx_error_count (tokenize_loop env ?n)"
    using tokenize_loop_reaches by blast
  let ?l2 = "skip_whitespace_and_comments l"
  have "pieces_ok ?l2"
    using reaches_inv [OF l(1) new_lexer_inv(1,2)] skip_stacks [of 0 env l] by (simp add: stacks_def)
  note f = finish_open_retexts [OF this refl]
  have n: "?n\<lparr>lx_tokens := []\<rparr> = ?n" by (simp add: new_lexer_def)
  show ?thesis
    using f l by (intro that [OF l(1) refl]) (simp_all add: lex_def tokenize_def n Let_def)
qed

section \<open>Payloads\<close>

definition payload_fits :: "token \<Rightarrow> bool" where
  "payload_fits t \<longleftrightarrow> literal_fits (tk_type t) (tk_lexeme t) (tk_literal t)"

lemma stamp_fields [simp]:
  "tk_type (stamp_token t) = tk_type t" "tk_lexeme (stamp_token t) = tk_lexeme t" "tk_literal (stamp_token t) = tk_literal t"
  "tk_start_location (stamp_token t) = tk_start_location t"
  by (simp_all add: stamp_token_def)

text \<open>C19: every token carries the payload its type promises (an integer literal below \<open>2 ^ 63\<close>, a string
  literal its own text, a truth value its spelling, any other token nothing), and exactly one
  end-of-file token ends the list.\<close>

theorem lex_tokens_typed:
  "\<exists>ts e. lx_tokens (lex env s) = ts @ [e] \<and> tk_type e = EndOfFile \<and>
     list_all (\<lambda>t. tk_type t \<noteq> EndOfFile \<and> payload_fits t) ts"
proof -
  obtain l l2 l3 where l: "reaches env (new_lexer s 0) l" "l2 = skip_whitespace_and_comments l"
    "list_all2 retexts (lx_tokens l2) (lx_tokens l3)"
    and e: "lex env s = stamp_token_starts (add_token EndOfFile [] None (l3\<lparr>lx_token_start := lexer_location l3\<rparr>))"
    by (rule lex_cases)
  have "tokens_typed l3"
    using reaches_inv [OF l(1) new_lexer_inv(1,2)] retexts_typed [OF l(3)] l(2) by simp
  then show ?thesis
    by (intro exI [of _ "map stamp_token (lx_tokens l3)"] exI)
      (auto simp: e stamp_token_starts_def tokens_typed_def payload_fits_def list_all_iff)
qed

section \<open>Tiling\<close>

text \<open>A token of the result covers a span: its start, its end with the start stamped in, and its text.\<close>

definition covers :: "string \<Rightarrow> token \<Rightarrow> nat \<times> nat \<Rightarrow> bool" where
  "covers s t span \<longleftrightarrow>
     tk_start_location t = place 0 s (fst span) \<and>
     tk_location t = (place 0 s (snd span))\<lparr>start_line := line_of s (fst span), start_column := column_of s (fst span)\<rparr> \<and>
     (is_string_part (tk_type t) \<or> lexeme_fits (tk_type t) (tk_lexeme t) (span_text s (fst span) (snd span)))"

lemma stamp_covers: "token_at 0 s t span \<Longrightarrow> covers s (stamp_token t) span"
proof -
  assume t: "token_at 0 s t span"
  have "0 < line_of s (fst span)" by (simp add: line_of_def)
  with t show ?thesis by (simp add: covers_def token_at_def stamp_token_def place_def)
qed

text \<open>C11: the tokens of a source tile it in order: token by token, white space (blanks, semicolons,
  comments) and then a span with the exact start and end of the token in lines and code points, whose
  text is the lexeme unless the token is part of a string (an annotation's lexeme leaves out its @).  The end-of-file token sits behind the last
  white space, at the end of the source unless the error cap stopped the scan.\<close>

theorem lex_tiles_source:
  "\<exists>ts e spans k n. lx_tokens (lex env s) = ts @ [e] \<and> tiles s spans k \<and> list_all2 (covers s) ts spans \<and>
     k \<le> n \<and> n \<le> length s \<and> trivia (n = length s) False (span_text s k n) \<and>
     covers s e (n, n) \<and> (n = length s \<or> 100 \<le> lx_error_count (lex env s))"
proof -
  obtain l l2 l3 where l: "reaches env (new_lexer s 0) l" "l2 = skip_whitespace_and_comments l"
    "is_at_end l2 \<or> k_max_lex_errors \<le> lx_error_count l2" "list_all2 retexts (lx_tokens l2) (lx_tokens l3)"
    "lx_cursor l3 = lx_cursor l2" "lx_file_id l3 = lx_file_id l2" "lx_error_count l3 = lx_error_count l2"
    and e: "lex env s = stamp_token_starts (add_token EndOfFile [] None (l3\<lparr>lx_token_start := lexer_location l3\<rparr>))"
    by (rule lex_cases)
  have fr: "lx_file_id l = 0" "lx_source l = s"
    using reaches_frame [OF l(1)] by (simp_all add: new_lexer_def cursor_start_def)
  have t: "tiled l" by (rule reaches_tiled [OF l(1) new_lexer_inv])
  then obtain spans where sp: "tiles s spans (lx_position l)" "list_all2 (token_at 0 s) (lx_tokens l) spans"
    using fr by (auto simp: tiled_def)
  have sk: "cursor_ok (lx_cursor l2)" "trivia (is_at_end l2) False (span_text s (lx_position l) (lx_position l2))"
    using skip_trivia [OF tiled_cursor(1) [OF t], of False] fr l(2) by (simp_all add: skip_whitespace_and_comments_def)
  have on: "lx_source l2 = s" "lx_position l \<le> lx_position l2" "lx_tokens l2 = lx_tokens l" "lx_file_id l2 = 0"
    using skip_blank_onward [of l False] fr l(2) by (simp_all add: onward_def skip_whitespace_and_comments_def)
  let ?e = "token_here EndOfFile [] None (lexer_location l3) l3"
  have p: "lexer_location l3 = place 0 s (lx_position l2)"
    using place_here [of l3] sk(1) l(5,6) on by simp
  have c: "list_all2 (covers s) (map stamp_token (lx_tokens l3)) spans"
  proof -
    have "covers s (stamp_token t') x" if "retexts t t'" "token_at 0 s t x" for t t' x
      using that(2) retexts_fields [OF that(1)] by (intro stamp_covers) (auto simp: token_at_def)
    then show ?thesis
      using l(4) sp(2) on(3) by (simp add: list_all2_conv_all_nth) metis
  qed
  have "token_at 0 s ?e (lx_position l2, lx_position l2)" using p by (simp add: token_at_def)
  note ce = stamp_covers [OF this]
  have toks: "lx_tokens (lex env s) = map stamp_token (lx_tokens l3) @ [stamp_token ?e]"
    by (simp add: e stamp_token_starts_def token_here_def lexer_location_def)
  have n: "lx_position l2 \<le> length s" using sk(1) on(1) by (simp add: cursor_ok_def)
  have at: "is_at_end l2 \<longleftrightarrow> lx_position l2 = length s" using n on(1) by (auto simp: is_at_end_iff)
  have cnt: "lx_error_count (lex env s) = lx_error_count l2"
    by (simp add: e stamp_token_starts_def add_token_def l(7))
  show ?thesis
    using sp(1) c on(2) n sk(2) ce toks l(3) at cnt
    by (intro exI [of _ "map stamp_token (lx_tokens l3)"] exI [of _ "stamp_token ?e"] exI [of _ spans]
        exI [of _ "lx_position l"] exI [of _ "lx_position l2"] conjI) (auto simp: k_max_lex_errors_def)
qed

section \<open>Stacks\<close>

text \<open>C12: in every state between two tokens the interpolation stack is within its limit and each brace
  depth positive, the open triple-quoted literals are exactly the triple-quoted levels (so the literal a
  closing brace resumes is there), and each recorded piece is a string token already emitted; at the end
  no literal is open.\<close>

theorem lex_stacks_balanced:
  "lx_open_triple (lex env s) = [] \<and>
   (reaches env (new_lexer s 0) lx \<longrightarrow>
      int (length (lx_interpolation lx)) \<le> max 0 (le_max_interpolation_depth env) \<and>
      list_all (\<lambda>level. 1 \<le> is_brace_depth level) (lx_interpolation lx) \<and>
      length (lx_open_triple lx) = length (filter is_triple_quoted (lx_interpolation lx)) \<and>
      list_all (list_all (\<lambda>(i, _). i < length (lx_tokens lx) \<and> is_string_part (tk_type (lx_tokens lx ! i))))
        (lx_open_triple lx))"
proof -
  obtain l3 where "lx_open_triple l3 = []"
    "lex env s = stamp_token_starts (add_token EndOfFile [] None (l3\<lparr>lx_token_start := lexer_location l3\<rparr>))"
    by (rule lex_cases)
  then have "lx_open_triple (lex env s) = []" by (simp add: stamp_token_starts_def)
  moreover have "stacks 0 env lx" if "reaches env (new_lexer s 0) lx"
    using reaches_inv [OF that new_lexer_inv(1,2)] by simp
  ultimately show ?thesis
    by (auto simp: stacks_def pieces_ok_def triple_levels_def list_all_iff)
qed

definition example_env :: lexer_env where
  "example_env = \<lparr>le_max_interpolation_depth = 1, le_stod = (\<lambda>_. Invalid_Argument)\<rparr>"

definition example_source :: string where
  "example_source = [CHR 0x22, CHR 0x22, CHR 0x22, CHR ''$'', CHR ''{'']"

lemma example_depth: "length (lx_interpolation (scan_token example_env (at_token (new_lexer example_source 0)))) = 1"
  by code_simp

theorem lex_stacks_balanced_witness:
  "\<exists>lx. reaches example_env (new_lexer example_source 0) lx \<and>
     length (lx_interpolation lx) = 1 \<and> length (lx_open_triple lx) = length (filter is_triple_quoted (lx_interpolation lx))"
proof -
  let ?lx = "scan_token example_env (at_token (new_lexer example_source 0))"
  have "\<not> is_at_end (at_token (new_lexer example_source 0))" "lx_error_count (new_lexer example_source 0) < k_max_lex_errors"
    by code_simp+
  then have "reaches example_env (new_lexer example_source 0) ?lx"
    by (intro Reaches_Token Reaches_Start)
  with lex_stacks_balanced [of example_env example_source ?lx] example_depth show ?thesis by blast
qed

section \<open>Errors\<close>

definition count_errors :: "diagnostic list \<Rightarrow> nat" where
  "count_errors ds = length (filter (\<lambda>d. dg_severity d = Error_Severity) ds)"

text \<open>The counter is the number of error diagnostics, at most \<open>n\<close> of them.\<close>

definition errors_upto :: "nat \<Rightarrow> lexer \<Rightarrow> bool" where
  "errors_upto n lx \<longleftrightarrow> lx_error_count lx = count_errors (lx_diagnostics lx) \<and> lx_error_count lx \<le> n"

lemma errors_emit [simp]:
  "errors_upto n (emit_warning loc m h lx) = errors_upto n lx"
  "errors_upto n lx \<Longrightarrow> errors_upto (Suc n) (parse_error k o1 x lx)"
  by (auto simp: errors_upto_def count_errors_def emit_warning_def parse_error_def emit_error_def build_diagnostic_def)

lemma errors_syntax: "k_max_lex_errors \<le> n \<Longrightarrow> errors_upto n lx \<Longrightarrow> errors_upto n (emit_syntax_error m loc h c lx)"
  by (auto simp: errors_upto_def count_errors_def emit_syntax_error_def emit_error_def build_diagnostic_def)

lemma errors_cong:
  "lx_error_count l = lx_error_count lx \<Longrightarrow> lx_diagnostics l = lx_diagnostics lx \<Longrightarrow> errors_upto n l = errors_upto n lx"
  by (simp add: errors_upto_def)

lemma errors_set [simp]:
  "errors_upto n (advance lx) = errors_upto n lx" "errors_upto n (add_token t w lit lx) = errors_upto n lx"
  "errors_upto n (restamp_last loc lx) = errors_upto n lx" "errors_upto n (add_terminal_string_token c w lx) = errors_upto n lx"
  "errors_upto n (record_triple_quoted_piece raw lx) = errors_upto n lx" "errors_upto n (finish_triple_quoted_string lx) = errors_upto n lx"
  "errors_upto n (lx\<lparr>lx_token_start := t1\<rparr>) = errors_upto n lx" "errors_upto n (lx\<lparr>lx_segment_start := t1\<rparr>) = errors_upto n lx"
  "errors_upto n (lx\<lparr>lx_interpolation := i1\<rparr>) = errors_upto n lx" "errors_upto n (lx\<lparr>lx_open_triple := p1\<rparr>) = errors_upto n lx"
  "errors_upto n (lx\<lparr>lx_newline_pending := b1\<rparr>) = errors_upto n lx"
  by (auto intro!: errors_cong simp: advance_def add_token_def restamp_last_def add_terminal_string_token_def
      record_triple_quoted_piece_def finish_triple_quoted_string_def Let_def)

lemma errors_Suc: "errors_upto n lx \<Longrightarrow> errors_upto (Suc n) lx" by (simp add: errors_upto_def)

lemma errors_steps:
  "scan_steps lx l \<Longrightarrow> k_max_lex_errors \<le> n \<Longrightarrow> errors_upto n lx \<Longrightarrow> errors_upto n l"
  by (induction rule: scan_steps.induct) (simp_all add: errors_syntax)

lemma errors_begin:
  "k_max_lex_errors \<le> n \<Longrightarrow> errors_upto n lx \<Longrightarrow> errors_upto n (snd (begin_interpolation env q lx))"
  by (cases rule: begin_cases [of env q lx]) (simp_all add: errors_syntax)

lemma errors_string: "string_step env c lx lx' \<Longrightarrow> k_max_lex_errors \<le> n \<Longrightarrow> errors_upto n lx \<Longrightarrow> errors_upto n lx'"
  by (erule string_step.cases) (simp_all add: errors_steps errors_begin)

lemma errors_triple: "triple_step env c lx lx' \<Longrightarrow> k_max_lex_errors \<le> n \<Longrightarrow> errors_upto n lx \<Longrightarrow> errors_upto n lx'"
proof (erule triple_step.cases)
  fix l raw
  assume n: "k_max_lex_errors \<le> n" "errors_upto n lx" and l: "scan_steps lx l"
    and lx': "lx' = interpolate_triple env c raw l"
  let ?r = "record_triple_quoted_piece raw (restamp_last (lx_segment_start l)
      (add_token (triple_quoted_segment_open_type c l) [] None l))"
  have "errors_upto n (snd (begin_interpolation env True ?r))" using errors_steps [OF l n] n(1) by (intro errors_begin) simp_all
  then show "errors_upto n lx'"
    by (cases "begin_interpolation env True ?r") (simp add: lx' interpolate_triple_def Let_def)
qed (simp add: close_triple_def errors_steps)

lemma errors_token:
  assumes "token_step env lx lx'" and "errors_upto k_max_lex_errors lx"
  shows "errors_upto (Suc k_max_lex_errors) lx'"
proof -
  have up: "errors_upto (Suc k_max_lex_errors) lx" using assms(2) by (rule errors_Suc)
  from assms(1) show ?thesis
  proof cases
    case Token_Plain
    from Token_Plain(2) show ?thesis
    proof cases
      case (Adds l t w lit)
      then have "errors_upto k_max_lex_errors l" using errors_steps [of lx l k_max_lex_errors] assms(2) by simp
      then show ?thesis using Adds(1) by (simp add: errors_Suc)
    next
      case (Adds_Bad_Number l t w lit k o1 x)
      then show ?thesis using errors_steps [of lx l k_max_lex_errors] assms(2) by simp
    qed
  next
    case Token_Left_Brace
    then show ?thesis using up by (simp add: open_brace_def)
  next
    case Token_Right_Brace
    then show ?thesis using up by (simp add: lower_brace_def)
  next
    case Token_String
    then show ?thesis using up by (intro errors_string [OF Token_String(2)]) (simp_all add: open_string_def)
  next
    case Token_Triple
    then show ?thesis using up
      by (intro errors_triple [OF Token_Triple(2)]) (simp_all add: open_string_def open_triple_def)
  next
    case Token_Close
    then show ?thesis using up
      by (intro errors_string [OF Token_Close(6)]) (simp_all add: close_interpolation_def Let_def)
  next
    case Token_Close_Triple
    then show ?thesis using up
      by (intro errors_triple [OF Token_Close_Triple(6)]) (simp_all add: close_interpolation_def Let_def)
  qed
qed

lemma errors_skip: "errors_upto n (skip_whitespace_and_comments lx) = errors_upto n lx"
proof -
  have while: "errors_upto n (advance_while p lx) = errors_upto n lx" for p lx
  proof (induction p lx rule: advance_while.induct)
    case (1 p lx)
    then show ?case by (subst advance_while.simps) simp
  qed
  have "errors_upto n (skip_blank lx w) = errors_upto n lx" for w
  proof (induction lx w rule: skip_blank.induct)
    case (1 lx w)
    note unroll = skip_blank.simps [of lx w]
    show ?case
    proof (cases "is_at_end lx \<or> skip_line_break_or_blank lx w = None")
      case True
      then show ?thesis by (auto simp: unroll)
    next
      case False
      then obtain lx' w' where s: "skip_line_break_or_blank lx w = Some (lx', w')" by auto
      then have "errors_upto n lx' = errors_upto n lx"
        by (auto simp: skip_line_break_or_blank_def Let_def while split: if_splits)
      with 1 [OF _ s refl] False s show ?thesis by (simp add: unroll)
    qed
  qed
  then show ?thesis by (simp add: skip_whitespace_and_comments_def)
qed

text \<open>C39: at most 101 error diagnostics come out of any source: the cap of 100, past which only the
  numeric literal of the token being scanned can add one.\<close>

theorem lex_errors_bounded:
  "count_errors (lx_diagnostics (lex env s)) \<le> 101 \<and>
   lx_error_count (lex env s) = count_errors (lx_diagnostics (lex env s))"
proof -
  obtain l l2 l3 where l: "reaches env (new_lexer s 0) l" "l2 = skip_whitespace_and_comments l"
    "l3 = finish_open (length (lx_open_triple l2)) l2"
    and e: "lex env s = stamp_token_starts (add_token EndOfFile [] None (l3\<lparr>lx_token_start := lexer_location l3\<rparr>))"
    by (rule lex_cases)
  from l(1) have "errors_upto (Suc k_max_lex_errors) l"
  proof induction
    case Reaches_Start
    show ?case by (simp add: errors_upto_def count_errors_def new_lexer_def)
  next
    case (Reaches_Token l)
    then have "errors_upto k_max_lex_errors (at_token l)"
      using errors_skip [of "Suc k_max_lex_errors" l] by (simp add: at_token_def Let_def errors_upto_def)
    then show ?case using errors_token scan_token_refines Reaches_Token(2) by blast
  qed
  then have "errors_upto (Suc k_max_lex_errors) l2" by (simp add: l(2) errors_skip)
  moreover have "errors_upto n (finish_open k lx) = errors_upto n lx" for n k lx
    by (induction k arbitrary: lx) simp_all
  ultimately have "errors_upto (Suc k_max_lex_errors) l3" using l(3) by blast
  then show ?thesis
    by (simp add: e errors_upto_def stamp_token_starts_def add_token_def k_max_lex_errors_def)
qed

section \<open>Keywords\<close>

lemma sv_less_irrefl [simp]: "\<not> sv_less w w" by (induction w) auto

lemma sv_less_trans: "sv_less a b \<Longrightarrow> sv_less b c \<Longrightarrow> sv_less a c"
proof (induction a b arbitrary: c rule: sv_less.induct)
  case (3 a as b bs)
  then show ?case by (cases c) auto
qed (auto elim: sv_less.elims)

lemma sv_less_total: "sv_less a b \<or> a = b \<or> sv_less b a"
  by (induction a b rule: sv_less.induct) (auto simp: neq_Nil_conv linorder_neq_iff dest: injD [OF inj_of_char] elim: sv_less.elims)

lemma lower_bound_lookup:
  assumes "sorted_wrt sv_less (map key xs)"
  shows "(case lower_bound key xs w of Some e \<Rightarrow> if key e = w then Some e else None | None \<Rightarrow> None) =
    find (\<lambda>e. key e = w) xs"
  using assms
proof (induction xs)
  case (Cons e xs)
  show ?case
  proof (cases "sv_less (key e) w")
    case True
    then have "key e \<noteq> w" by auto
    with True Cons show ?thesis by (simp add: lower_bound_def)
  next
    case False
    have "find (\<lambda>e. key e = w) xs = None" if "key e \<noteq> w"
    proof -
      have "sv_less w (key e)" using False that sv_less_total by blast
      then have "key e' \<noteq> w" if "e' \<in> set xs" for e'
        using Cons.prems that sv_less_trans [of w "key e" "key e'"] by auto
      then show ?thesis by (auto simp: find_None_iff)
    qed
    with False show ?thesis by (simp add: lower_bound_def)
  qed
qed (simp add: lower_bound_def)

lemma table_sorted: "keywords_are_sorted"
proof -
  have "successively sv_less (map fst k_keywords)" by code_simp
  then show ?thesis
    unfolding keywords_are_sorted_def
    using successively_conv_sorted_wrt [of sv_less] sv_less_trans by (metis transpI)
qed

text \<open>The binary search of the keyword table, which is sorted, is the lookup of the word: its token
  type if it is a keyword, an identifier otherwise.\<close>

theorem keyword_type_is_lookup:
  "keyword_type w =
     (case map_of (map (\<lambda>(spelling, type, _). (spelling, type)) k_keywords) w of
        Some type \<Rightarrow> type | None \<Rightarrow> Identifier)"
proof -
  have s: "sorted_wrt sv_less (map fst k_keywords)" using table_sorted by (simp add: keywords_are_sorted_def)
  have m: "map_of (map (\<lambda>(spelling, type, _). (spelling, type)) xs) w =
      map_option (\<lambda>(_, type, _). type) (find (\<lambda>e. fst e = w) xs)" for xs :: "keyword_spelling list"
    by (induction xs) auto
  show ?thesis
    unfolding m lower_bound_lookup [OF s, symmetric] keyword_type_def
    by (auto split: option.split prod.split)
qed

section \<open>Strings\<close>

text \<open>How a text is written as a literal.\<close>

definition escape_char :: "char \<Rightarrow> string" where
  "escape_char c =
     (if c = CHR 0x0A then [CHR 0x5C, CHR ''n''] else if c = CHR 0x09 then [CHR 0x5C, CHR ''t'']
      else if c = CHR 0x0D then [CHR 0x5C, CHR ''r''] else if c = CHR 0x00 then [CHR 0x5C, CHR ''0'']
      else if c \<in> {CHR 0x5C, CHR 0x22, CHR ''$''} then [CHR 0x5C, c] else [c])"

definition string_source :: "string \<Rightarrow> string" where
  "string_source w = [CHR 0x22] @ concat (map escape_char w) @ [CHR 0x22]"

lemma advance_by_add: "advance_by n (advance_by m lx) = advance_by (m + n) lx"
  by (simp add: advance_by_def funpow_add add.commute [of m])

lemma advance_one: "advance lx = advance_by 1 lx"
  by (simp add: advance_by_def)

lemma rest_current:
  assumes "drop (lx_position lx) (lx_source lx) = c # rest"
  shows "\<not> is_at_end lx" "current lx = c" "drop (lx_position (advance lx)) (lx_source (advance lx)) = rest"
proof -
  have p: "lx_position lx < length (lx_source lx)" using assms by (metis drop_all list.distinct(1) not_le_imp_less)
  then show "\<not> is_at_end lx" by (simp add: is_at_end_iff)
  then show "current lx = c"
    using assms by (simp add: current_def cursor_current_def is_at_end_def) (metis nth_via_drop)
  show "drop (lx_position (advance lx)) (lx_source (advance lx)) = rest"
    using assms by (simp add: drop_Suc) (metis drop_Suc drop_eq_Nil list.sel(3) tl_drop)
qed

lemma escape_char_head: "escape_char c \<noteq> [] \<and> hd (escape_char c) \<noteq> CHR 0x22" by (simp add: escape_char_def)

lemma escaped_step:
  assumes "drop (lx_position lx) (lx_source lx) = escape_char c @ rest"
  shows "scan_string_loop pre lx = scan_string_loop (pre @ [c]) (advance_by (length (escape_char c)) lx)"
proof -
  note unroll = scan_string_loop.simps [of pre lx]
  show ?thesis
  proof (cases "length (escape_char c) = 1")
    case True
    then have e: "escape_char c = [c]" "c \<noteq> CHR 0x22" "c \<noteq> CHR 0x5C" "c \<noteq> CHR ''$''" "c \<noteq> CHR 0x0A"
      by (auto simp: escape_char_def split: if_splits)
    with assms rest_current [of lx c rest] show ?thesis by (simp add: unroll advance_by_def)
  next
    case False
    then obtain d where e: "escape_char c = [CHR 0x5C, d]" "escape_value d = Some c"
      by (auto simp: escape_char_def escape_value_def split: if_splits)
    have r: "\<not> is_at_end lx" "current lx = CHR 0x5C" "drop (lx_position (advance lx)) (lx_source (advance lx)) = d # rest"
      using rest_current [of lx "CHR 0x5C" "d # rest"] assms e(1) by simp_all
    note r2 = rest_current [OF r(3)]
    have "scan_escape_sequence lx = (Some c, advance (advance lx))"
      using r2(1,2) e(2) by (simp add: scan_escape_sequence_def scan_escape_char_def Let_def)
    with r e(1) show ?thesis by (simp add: unroll advance_by_def numeral_2_eq_2)
  qed
qed

lemma escaped_loop:
  "drop (lx_position lx) (lx_source lx) = concat (map escape_char w) @ CHR 0x22 # rest \<Longrightarrow>
   scan_string_loop pre lx =
     ((pre @ w, Is_Terminated), advance_by (length (concat (map escape_char w)) + 1) lx)"
proof (induction w arbitrary: pre lx)
  case Nil
  with rest_current [of lx "CHR 0x22" rest] show ?case
    by (simp add: scan_string_loop.simps [of pre lx] advance_by_def)
next
  case (Cons c w)
  let ?l = "advance_by (length (escape_char c)) lx"
  have d: "drop (lx_position lx) (lx_source lx) = escape_char c @ concat (map escape_char w) @ CHR 0x22 # rest"
    using Cons.prems by simp
  then have "drop (length (escape_char c)) (drop (lx_position lx) (lx_source lx)) = concat (map escape_char w) @ CHR 0x22 # rest"
    by simp
  then have "drop (lx_position ?l) (lx_source ?l) = concat (map escape_char w) @ CHR 0x22 # rest"
    by (simp add: add.commute)
  from Cons.IH [OF this, of "pre @ [c]"] escaped_step [OF d, of pre] show ?case
    by (simp add: advance_by_add add.assoc)
qed

lemma advance_diagnostics [simp]: "lx_diagnostics (advance lx) = lx_diagnostics lx" by (simp add: advance_def)

lemma advance_by_frame [simp]:
  "lx_tokens (advance_by n lx) = lx_tokens lx" "lx_diagnostics (advance_by n lx) = lx_diagnostics lx"
  "lx_interpolation (advance_by n lx) = lx_interpolation lx" "lx_open_triple (advance_by n lx) = lx_open_triple lx"
  "lx_error_count (advance_by n lx) = lx_error_count lx"
  by (induction n) (simp_all add: advance_by_def)

lemma quote_token:
  assumes "current lx = CHR 0x22" and "lx_interpolation lx = []"
    and "\<not> (current (open_string lx) = CHR 0x22 \<and> peek_next (open_string lx) = CHR 0x22)"
  shows "scan_token env lx = emit_string_tokens env False (open_string lx)"
proof -
  have w: "identifier_char_width False lx = 0" "\<not> is_digit (current lx)"
    using assms(1) by (simp_all add: identifier_char_width_def is_ascii_alpha_def is_digit_def code_in_def k_utf8_ascii_max_def)
  have b: "\<not> k_utf8_ascii_max \<le> (of_char (current lx) :: byte)" using assms(1) by (simp add: k_utf8_ascii_max_def)
  show ?thesis
    using w b assms
    by (simp only: scan_token_def scan_plain_token_def Let_def scan_string_def flip: open_string_def) auto
qed

lemma loop_end: "is_at_end lx \<Longrightarrow> tokenize_loop env lx = lx"
  by (simp add: tokenize_loop.simps [of env lx])

text \<open>C20: every text, written as a literal with the escapes of the language, lexes back to one string
  literal that holds it, without a diagnostic.\<close>

theorem string_literal_round_trip:
  "map (\<lambda>t. (tk_type t, tk_lexeme t, tk_literal t)) (lx_tokens (lex env (string_source w))) =
     [(StringLiteral, w, Some (Lit_String w)), (EndOfFile, [], None)] \<and>
   lx_diagnostics (lex env (string_source w)) = []"
proof -
  let ?s = "string_source w"
  let ?n = "new_lexer ?s 0"
  let ?q = "open_string (at_token ?n)"
  have s: "drop (lx_position ?n) (lx_source ?n) = CHR 0x22 # concat (map escape_char w) @ [CHR 0x22]"
    by (simp add: new_lexer_def cursor_start_def string_source_def)
  note r = rest_current [OF s]
  have nf: "lx_source ?n = ?s" "lx_position ?n = 0" by (simp_all add: new_lexer_def cursor_start_def)
  have "skip_line_break_or_blank ?n False = None" using r(2) by (simp add: skip_line_break_or_blank_def)
  then have k: "skip_whitespace_and_comments ?n = ?n"
    by (simp add: skip_whitespace_and_comments_def skip_blank.simps [of ?n])
  have c: "lx_cursor (at_token ?n) = lx_cursor ?n" by (simp add: at_token_def k Let_def)
  have q: "lx_cursor ?q = lx_cursor (advance ?n)" by (simp add: open_string_def c)
  have d: "drop (lx_position ?q) (lx_source ?q) = concat (map escape_char w) @ [CHR 0x22]"
    using r(3) by (simp add: q)
  have not_triple: "\<not> (current ?q = CHR 0x22 \<and> peek_next ?q = CHR 0x22)"
  proof (cases w)
    case Nil
    have "lx_position ?q = 1" "length (lx_source ?q) = length ?s" by (simp_all only: q) (simp_all add: nf)
    with Nil have "lx_position ?q + 1 = length (lx_source ?q)" by (simp add: string_source_def)
    then show ?thesis by (simp add: peek_next_def cursor_peek_next_def)
  next
    case (Cons a as)
    obtain b bs where e: "escape_char a = b # bs" "b \<noteq> CHR 0x22"
      using escape_char_head [of a] by (cases "escape_char a") simp_all
    then show ?thesis using rest_current(2) [of ?q b] d Cons by simp
  qed
  define len where "len = length (concat (map escape_char w)) + 1"
  let ?l = "advance_by len ?q"
  have cur: "current (at_token ?n) = CHR 0x22" using r(2) by (simp add: current_def c)
  have i: "lx_interpolation (at_token ?n) = []" by (simp add: at_token_def k Let_def) (simp add: new_lexer_def)
  have t: "scan_token env (at_token ?n) = add_terminal_string_token False w ?l"
    using escaped_loop [OF d, of "[]", folded len_def]
    by (simp add: quote_token [OF cur i not_triple] emit_string_tokens_def scan_string_content_def)
  have f: "lx_tokens ?l = []" "lx_diagnostics ?l = []" "lx_open_triple ?l = []" "lx_error_count ?n = 0"
    by (simp_all add: open_string_def at_token_def k Let_def) (simp_all add: new_lexer_def)
  let ?t = "add_terminal_string_token False w ?l"
  have tf: "lx_cursor ?t = lx_cursor ?l" "lx_diagnostics ?t = []" "lx_open_triple ?t = []"
    using f by (simp_all add: add_terminal_string_token_def restamp_last_def add_token_def)
  have "lx_position ?l = length ?s" "lx_source ?l = ?s"
    by (simp_all only: advance_by_fields q advance_fields cursor_advance_fields nf) (simp add: string_source_def len_def)
  then have "is_at_end ?t" unfolding is_at_end_iff tf(1) by simp
  then have "tokenize_loop env ?t = ?t" by (rule loop_end)
  moreover have "tokenize_loop env ?n = tokenize_loop env (scan_token env (at_token ?n))"
    using r(1) f(4) by (simp add: tokenize_loop.simps [of env ?n] k at_token_def Let_def k_max_lex_errors_def)
  ultimately have loop: "tokenize_loop env ?n = ?t" using t by simp
  have n: "?n\<lparr>lx_tokens := []\<rparr> = ?n" by (simp add: new_lexer_def)
  have l: "lex env ?s = stamp_token_starts (add_token EndOfFile [] None (?t\<lparr>lx_token_start := lexer_location ?t\<rparr>))"
    by (simp add: lex_def tokenize_def n loop tf(3) Let_def)
  show ?thesis
    using tf f by (simp add: l stamp_token_starts_def) (simp add: add_token_def)
qed

end
