(* ===== verification/Lexer_Dedent.thy ===== *)
theory Lexer_Dedent
  imports Lexer "HOL-Library.Sublist"
begin

text \<open>
  The dedentation of triple-quoted literals: the mask that \<^verbatim>\<open>dedent_pieces\<close> computes over the joined
  text drops spaces, tabs and line ends only, so each piece keeps its other characters in order.
\<close>

definition is_blank_char :: "char \<Rightarrow> bool" where
  "is_blank_char c \<longleftrightarrow> c \<in> {CHR '' '', CHR 0x09, CHR 0x0A, CHR 0x0D}"

definition drops_blank :: "string \<Rightarrow> bool list \<Rightarrow> bool" where
  "drops_blank s keep \<longleftrightarrow>
     length keep = length s \<and> (\<forall>p < length s. keep ! p \<or> is_blank_char (s ! p))"

lemma space_is_blank: "is_space_or_tab c \<Longrightarrow> is_blank_char c"
  by (auto simp: is_space_or_tab_def is_blank_char_def)

lemma fill_false_drops:
  assumes "drops_blank s keep" and "a \<le> b" and "b \<le> length s"
    and "\<And>p. a \<le> p \<Longrightarrow> p < b \<Longrightarrow> is_blank_char (s ! p)"
  shows "drops_blank s (fill_false keep a b)"
proof -
  have "fill_false keep a b ! p \<or> is_blank_char (s ! p)" if p: "p < length s" for p
  proof -
    consider "p < a" | "a \<le> p" "p < b" | "b \<le> p" by linarith
    then show ?thesis
    proof cases
      case 1
      then show ?thesis using assms p by (simp add: fill_false_def drops_blank_def nth_append)
    next
      case 2
      then show ?thesis using assms(4) by simp
    next
      case 3
      then have "\<not> p < a" "\<not> p - a < b - a" "b + (p - a - (b - a)) = p" using assms(2) by linarith+
      then have "fill_false keep a b ! p = keep ! p"
        using assms p by (simp add: fill_false_def drops_blank_def nth_append)
      then show ?thesis using assms(1) p by (simp add: drops_blank_def)
    qed
  qed
  then show ?thesis using assms(1,2,3) by (simp add: drops_blank_def fill_false_def)
qed

section \<open>Lines\<close>

definition dedent_line_ok :: "string \<Rightarrow> dedent_line \<Rightarrow> bool" where
  "dedent_line_ok s l \<longleftrightarrow>
     dl_begin l + dl_indent l \<le> length s \<and> dl_begin l \<le> dl_end l \<and> dl_end l \<le> length s \<and>
     (\<forall>p. dl_begin l \<le> p \<and> p < dl_begin l + dl_indent l \<longrightarrow> is_space_or_tab (s ! p)) \<and>
     (dl_is_blank l \<longrightarrow> dl_begin l + dl_indent l = dl_end l) \<and>
     (dl_end l < length s \<longrightarrow> is_blank_char (s ! dl_end l))"

text \<open>The lines from an offset on: the first starts there, each other one behind a line feed.\<close>

definition dedent_lines_ok :: "string \<Rightarrow> nat \<Rightarrow> dedent_line list \<Rightarrow> bool" where
  "dedent_lines_ok s start lines \<longleftrightarrow>
     lines \<noteq> [] \<and> list_all (dedent_line_ok s) lines \<and> dl_begin (hd lines) = start \<and>
     list_all (\<lambda>l. 0 < dl_begin l \<and> is_blank_char (s ! (dl_begin l - 1))) (tl lines) \<and>
     dl_end (last lines) = length s"

lemma find_char_is: "find_char c s start = Some n \<Longrightarrow> s ! n = c"
  using nth_length_takeWhile [of "\<lambda>x. x \<noteq> c" "drop start s"]
  by (auto simp: find_char_def Let_def split: if_splits)

lemma leading_blanks:
  assumes "start \<le> length s" and "p < start + length (takeWhile q (take n (drop start s)))" and "start \<le> p"
  shows "q (s ! p)"
proof -
  let ?w = "takeWhile q (take n (drop start s))"
  have i: "p - start < length ?w" using assms(2,3) by linarith
  then have "?w ! (p - start) = take n (drop start s) ! (p - start)" by (rule takeWhile_nth)
  moreover have "p - start < length (take n (drop start s))"
    using i length_takeWhile_le [of q "take n (drop start s)"] by linarith
  ultimately have "?w ! (p - start) = s ! p" using assms(1,3) by simp
  moreover have "?w ! (p - start) \<in> set ?w" using i by (rule nth_mem)
  ultimately show ?thesis using set_takeWhileD by metis
qed

lemma dedent_line_at_ok:
  assumes "start \<le> length s" and "drops_blank s keep" and "dedent_line_at s ips start keep = (keep', l)"
  shows "drops_blank s keep' \<and> dedent_line_ok s l \<and> dl_begin l = start \<and>
    (find_char CHR 0x0A s start = None \<longrightarrow> dl_end l = length s)"
proof -
  define newline where "newline = find_char CHR 0x0A s start"
  define line_end where "line_end = (case newline of None \<Rightarrow> length s | Some n \<Rightarrow> n)"
  define crlf where "crlf = (newline \<noteq> None \<and> start < line_end \<and> s ! (line_end - 1) = CHR 0x0D)"
  define content_end where "content_end = (if crlf then line_end - 1 else line_end)"
  define ip where "ip = find (\<lambda>i. start \<le> i) ips"
  define has where "has = (case ip of None \<Rightarrow> False | Some i \<Rightarrow> i \<le> line_end)"
  define stop where "stop = (if has then the ip else content_end)"
  define indent where "indent = length (takeWhile is_space_or_tab (take (stop - start) (drop start s)))"
  have l: "keep' = (if crlf then keep[line_end - 1 := False] else keep)"
    "l = \<lparr>dl_begin = start, dl_end = content_end, dl_indent = indent, dl_is_blank = (\<not> has \<and> start + indent = content_end)\<rparr>"
  proof -
    have "dedent_line_at s ips start keep = (if crlf then keep[line_end - 1 := False] else keep,
        \<lparr>dl_begin = start, dl_end = content_end, dl_indent = indent, dl_is_blank = (\<not> has \<and> start + indent = content_end)\<rparr>)"
      unfolding dedent_line_at_def Let_def newline_def line_end_def crlf_def content_end_def ip_def has_def stop_def indent_def
      by (rule refl)
    then show "keep' = (if crlf then keep[line_end - 1 := False] else keep)"
      "l = \<lparr>dl_begin = start, dl_end = content_end, dl_indent = indent, dl_is_blank = (\<not> has \<and> start + indent = content_end)\<rparr>"
      using assms(3) by simp_all
  qed
  have le: "start \<le> line_end" "line_end \<le> length s"
    using assms(1) find_char_Some [of "CHR 0x0A" s start] by (auto simp: line_end_def newline_def split: option.split)
  have nl: "line_end < length s \<Longrightarrow> s ! line_end = CHR 0x0A"
    using find_char_is [of "CHR 0x0A" s start] by (auto simp: line_end_def newline_def split: option.splits)
  have ce: "start \<le> content_end" "content_end \<le> length s" "content_end < length s \<Longrightarrow> is_blank_char (s ! content_end)"
    using le nl by (auto simp: content_end_def crlf_def is_blank_char_def)
  have "start + indent \<le> length s"
  proof -
    have "indent \<le> length s - start"
      using length_takeWhile_le [of is_space_or_tab "take (stop - start) (drop start s)"] by (simp add: indent_def)
    then show ?thesis using assms(1) by linarith
  qed
  moreover have "is_space_or_tab (s ! p)" if "start \<le> p" "p < start + indent" for p
    using leading_blanks [OF assms(1)] that by (simp add: indent_def)
  ultimately have ok: "dedent_line_ok s l" using ce l(2) by (simp add: dedent_line_ok_def)
  have "drops_blank s keep'"
    using assms(2) le unfolding l(1) drops_blank_def crlf_def
    by (auto simp: nth_list_update is_blank_char_def)
  moreover have "newline = None \<Longrightarrow> dl_end l = length s" by (simp add: l(2) content_end_def crlf_def line_end_def)
  ultimately show ?thesis using ok l(2) by (simp add: newline_def)
qed

lemma dedent_lines_spec:
  assumes "start \<le> length s" and "drops_blank s keep" and "dedent_lines s ips start keep acc = (keep', lines)"
  shows "drops_blank s keep' \<and> (\<exists>new. lines = acc @ new \<and> dedent_lines_ok s start new)"
  using assms
proof (induction s ips start keep acc arbitrary: keep' lines rule: dedent_lines.induct)
  case (1 s ips start keep acc)
  obtain k1 l where a: "dedent_line_at s ips start keep = (k1, l)" by fastforce
  note ok = dedent_line_at_ok [OF 1(2,3) a]
  note unroll = dedent_lines.simps [of s ips start keep acc]
  show ?case
  proof (cases "find_char CHR 0x0A s start")
    case None
    then have "keep' = k1" "lines = acc @ [l]" using 1(4) a by (simp_all add: unroll)
    with ok None show ?thesis by (auto simp: dedent_lines_ok_def)
  next
    case (Some n)
    then have n: "n + 1 \<le> length s" "start \<le> n" "s ! n = CHR 0x0A"
      using find_char_Some [of "CHR 0x0A" s start n] find_char_is [OF Some] by simp_all
    have r: "dedent_lines s ips (n + 1) k1 (acc @ [l]) = (keep', lines)" using 1(4) a Some by (simp add: unroll)
    from 1(1) [OF refl a [symmetric] refl Some n(1) _ r] ok obtain new where new: "drops_blank s keep'"
      "lines = (acc @ [l]) @ new" "dedent_lines_ok s (n + 1) new" by blast
    have "dedent_lines_ok s start (l # new)"
      using ok new(3) n(3) by (cases new) (auto simp: dedent_lines_ok_def is_blank_char_def)
    with new show ?thesis by (intro conjI exI [of _ "l # new"]) simp_all
  qed
qed

section \<open>The mask\<close>

lemma strip_drops:
  assumes "drops_blank s keep" and "dedent_line_ok s l"
  shows "drops_blank s (fill_false keep (dl_begin l) (dl_begin l + min common (dl_indent l)))"
  using assms by (intro fill_false_drops) (auto simp: dedent_line_ok_def intro: space_is_blank)

lemma strip_all_drops:
  "drops_blank s keep \<Longrightarrow> list_all (dedent_line_ok s) ls \<Longrightarrow>
   drops_blank s (fold (\<lambda>l keep. fill_false keep (dl_begin l) (dl_begin l + min common (dl_indent l))) ls keep)"
  by (induction ls arbitrary: keep) (simp_all add: strip_drops)

lemma dedent_mask_drops: "drops_blank (concat pieces) (dedent_mask pieces)"
proof -
  let ?s = "concat pieces"
  obtain keep lines where r: "dedent_lines ?s (butlast (tl (piece_starts 0 pieces))) 0 (replicate (length ?s) True) [] = (keep, lines)"
    by fastforce
  have "drops_blank ?s (replicate (length ?s) True)" by (simp add: drops_blank_def)
  from dedent_lines_spec [OF _ this r] have k0: "drops_blank ?s keep" and ok: "dedent_lines_ok ?s 0 lines" by auto
  then have ne: "lines \<noteq> []" and all: "list_all (dedent_line_ok ?s) lines" and first: "dl_begin (hd lines) = 0"
    by (simp_all add: dedent_lines_ok_def)
  have hdok: "dedent_line_ok ?s (hd lines)" and lastok: "dedent_line_ok ?s (last lines)"
    using ne all by (auto simp: list_all_iff)
  define drop_first where "drop_first = dl_is_blank (hd lines)"
  define k1 where "k1 = (if drop_first then fill_false keep 0 (min (dl_end (hd lines) + 1) (length ?s)) else keep)"
  define drop_last where "drop_last = (1 < length lines \<and> dl_is_blank (last lines))"
  define k2 where "k2 = (if drop_last then fill_false k1 (dl_begin (last lines) - 1) (length k1) else k1)"
  define kept where "kept = (let kept = if drop_first then tl lines else lines in if drop_last \<and> kept \<noteq> [] then butlast kept else kept)"
  have "is_blank_char (?s ! p)" if "drop_first" "p < min (dl_end (hd lines) + 1) (length ?s)" for p
  proof (cases "p = dl_end (hd lines)")
    case True
    then show ?thesis using hdok that by (simp add: dedent_line_ok_def)
  next
    case False
    then show ?thesis using hdok that first by (auto simp: dedent_line_ok_def drop_first_def intro!: space_is_blank)
  qed
  then have k1: "drops_blank ?s k1" using k0 by (auto simp: k1_def intro: fill_false_drops)
  have "is_blank_char (?s ! p)" if d: "drop_last" and p: "dl_begin (last lines) - 1 \<le> p" "p < length ?s" for p
  proof -
    have "last lines \<in> set (tl lines)" using d by (cases lines) (auto simp: drop_last_def)
    then have b: "0 < dl_begin (last lines)" "is_blank_char (?s ! (dl_begin (last lines) - 1))"
      using ok by (auto simp: dedent_lines_ok_def list_all_iff)
    show ?thesis
    proof (cases "p = dl_begin (last lines) - 1")
      case False
      then have "dl_begin (last lines) \<le> p" using p(1) by linarith
      then show ?thesis
        using lastok ok d p(2) by (auto simp: dedent_line_ok_def dedent_lines_ok_def drop_last_def intro!: space_is_blank)
    qed (use b in simp)
  qed
  moreover have "dl_begin (last lines) - 1 \<le> length ?s" using lastok unfolding dedent_line_ok_def by linarith
  moreover have "length k1 = length ?s" using k1 by (simp add: drops_blank_def)
  ultimately have k2: "drops_blank ?s k2" using k1 by (auto simp: k2_def intro!: fill_false_drops)
  have "set kept \<subseteq> set lines"
    using ne by (auto simp: kept_def Let_def dest: in_set_butlastD list.set_sel(2))
  then have "list_all (dedent_line_ok ?s) kept" using all by (auto simp: list_all_iff)
  note final = strip_all_drops [OF k2 this, of "common_indent kept"]
  have "dedent_mask pieces = fold (\<lambda>l keep. fill_false keep (dl_begin l) (dl_begin l + min (common_indent kept) (dl_indent l))) kept k2"
    unfolding dedent_mask_def Let_def r split_conv
    unfolding k2_def k1_def kept_def drop_first_def drop_last_def Let_def by (rule refl)
  then show ?thesis using final by simp
qed

section \<open>Pieces\<close>

lemma piece_starts_nth:
  "i \<le> length pieces \<Longrightarrow> piece_starts n pieces ! i = n + length (concat (take i pieces))"
proof (induction pieces arbitrary: n i)
  case (Cons p ps)
  then show ?case by (cases i) simp_all
qed simp

lemma piece_text:
  assumes "i < length pieces"
  shows "map ((!) (concat pieces)) [piece_starts 0 pieces ! i..<piece_starts 0 pieces ! (i + 1)] = pieces ! i"
proof -
  let ?a = "concat (take i pieces)"
  have "pieces = take i pieces @ pieces ! i # drop (Suc i) pieces" by (rule id_take_nth_drop [OF assms])
  then have c: "concat pieces = ?a @ pieces ! i @ concat (drop (Suc i) pieces)"
    by (metis concat.simps(2) concat_append)
  have e: "piece_starts 0 pieces ! (i + 1) = length ?a + length (pieces ! i)"
    using assms by (simp add: piece_starts_nth take_Suc_conv_app_nth)
  have b: "piece_starts 0 pieces ! i = length ?a" using assms by (simp add: piece_starts_nth)
  show ?thesis
    unfolding e b by (rule nth_equalityI) (simp_all add: c nth_append)
qed

text \<open>C40: dedenting a triple-quoted literal keeps the number of its pieces; each piece loses characters
  only, in place, and none but spaces, tabs and line ends.\<close>

theorem dedent_keeps_text:
  "length (dedent_pieces pieces) = length pieces \<and>
   list_all2 (\<lambda>d p. subseq d p \<and> filter (\<lambda>c. \<not> is_blank_char c) d = filter (\<lambda>c. \<not> is_blank_char c) p)
     (dedent_pieces pieces) pieces"
proof -
  let ?s = "concat pieces" and ?keep = "dedent_mask pieces"
  have "subseq (dedent_pieces pieces ! i) (pieces ! i) \<and>
      filter (\<lambda>c. \<not> is_blank_char c) (dedent_pieces pieces ! i) = filter (\<lambda>c. \<not> is_blank_char c) (pieces ! i)"
    if i: "i < length pieces" for i
  proof -
    let ?r = "[piece_starts 0 pieces ! i..<piece_starts 0 pieces ! (i + 1)]"
    have d: "dedent_pieces pieces ! i = map ((!) ?s) (filter ((!) ?keep) ?r)" using i by (simp add: dedent_pieces_def Let_def)
    have "concat pieces = concat (take (i + 1) pieces) @ concat (drop (i + 1) pieces)"
      by (metis append_take_drop_id concat_append)
    then have "p < length ?s" if "p \<in> set ?r" for p
      using that i piece_starts_nth [of "i + 1" pieces 0] by simp
    then have "filter (\<lambda>p. \<not> is_blank_char (?s ! p) \<and> ?keep ! p) ?r = filter (\<lambda>p. \<not> is_blank_char (?s ! p)) ?r"
      using dedent_mask_drops [of pieces] by (intro filter_cong) (auto simp: drops_blank_def)
    then have "filter (\<lambda>c. \<not> is_blank_char c) (dedent_pieces pieces ! i) =
        filter (\<lambda>c. \<not> is_blank_char c) (map ((!) ?s) ?r)"
      by (simp add: d filter_map comp_def conj_commute)
    moreover have "subseq (dedent_pieces pieces ! i) (map ((!) ?s) ?r)"
      unfolding d by (intro subseq_map) simp
    ultimately show ?thesis by (simp only: piece_text [OF i])
  qed
  moreover have "length (dedent_pieces pieces) = length pieces" by (simp add: dedent_pieces_def Let_def)
  ultimately show ?thesis by (simp add: list_all2_conv_all_nth)
qed

text \<open>With CRLF line ends the blank first line loses its carriage return but not its line feed.\<close>

lemma crlf_first_line_kept:
  "dedent_pieces [[CHR 0x0D, CHR 0x0A] @ ''  a''] = [[CHR 0x0A] @ ''a'']"
  "dedent_pieces [[CHR 0x0A] @ ''  a''] = [''a'']"
  by code_simp+

end
