(* ===== verification/Spec2Isabelle.thy ===== *)
theory Spec2Isabelle
  imports Verifier_Sound Serializer_Safe VM_Machine VM_Liveness Optimizer_Correct Decimal_Props Utf8_Props Codec_Props Lru_Cache String_Utils_Props Lexer_Props Lexer_Dedent
begin

text \<open>
  A verification development of the Luma language: its lexer, bytecode, its verifier, its optimizer,
  its file format and the virtual machine that runs it, and the exact decimals, text codecs and containers of
  the common library.  The sections below say which theory models which file, what the lemmas show and what is
  left out; the theorems are in the theories named there.
\<close>

section \<open>The program\<close>

text \<open>
  Luma is a language implementation in C++ (\<^verbatim>\<open>src/core\<close>).  Source text is compiled to bytecode in a
  \<^verbatim>\<open>Chunk\<close> per function (\<^verbatim>\<open>runtime/compiler\<close>), the optimizer rewrites the bytecode, the verifier
  checks it, the serializer stores it in \<^verbatim>\<open>.lumc\<close> files and reads it back, and the stack machine of
  \<^verbatim>\<open>runtime/vm\<close> runs it.  Values, strings and exact decimals come from \<^verbatim>\<open>runtime/interpreter\<close> and
  \<^verbatim>\<open>core/common\<close>.  In front of this the lexer (\<^verbatim>\<open>analysis/lexer\<close>) turns source text into tokens for
  the parser.  This development models the lexer, the back end from the chunk to its execution, and the
  algorithmic part of \<^verbatim>\<open>core/common\<close>.

  How the parts meet.  The compiler fills a chunk through the constant pool, the name table and the source
  map; the optimizer edits the code bytes of a chunk in place, pass by pass, leaving dead bytes that
  compaction removes; the verifier accepts a function or lists errors; the deserializer sets the verified
  bit of a function from the verifier alone, and with that bit the machine reads operands without checking
  them.  So the verifier is the interface between untrusted bytes and the machine, and most theorems are
  about one side of it.
\<close>

section \<open>Theories\<close>

text \<open>
  Shared: \<^verbatim>\<open>Luma_Prelude\<close> has the machine types, message formatting and generic lemmas;
  \<^verbatim>\<open>Byte_Utils\<close> the big- and little-endian accessors, FNV-1a and CRC-32 (\<^verbatim>\<open>byte_utils.hpp\<close>,
  \<^verbatim>\<open>hash.hpp\<close>, \<^verbatim>\<open>crc32.hpp\<close>); \<^verbatim>\<open>Overflow\<close> the overflow predicates (\<^verbatim>\<open>overflow.hpp\<close>).

  Bytecode: \<^verbatim>\<open>Opcode\<close> is the enumeration and the metadata table (\<^verbatim>\<open>opcode.hpp\<close>,
  \<^verbatim>\<open>opcode_metadata.hpp\<close>).  \<^verbatim>\<open>Intern_Table\<close> states as locales what a table of handles promises;
  \<^verbatim>\<open>Chunk\<close> models the chunk and its tables (\<^verbatim>\<open>chunk.hpp\<close>, \<^verbatim>\<open>constant_pool.hpp\<close>,
  \<^verbatim>\<open>name_table.hpp\<close>, \<^verbatim>\<open>source_map.hpp\<close>, \<^verbatim>\<open>string_interner.hpp\<close>) and interprets the locales on
  them.

  Verifier: \<^verbatim>\<open>Verifier\<close> is \<^verbatim>\<open>verifier.cpp\<close>, the linear pass, the deferred jump check and the
  depth walk with its work list; its result is an option, since the walk reads past its vector on some code,
  which is undefined behaviour.  \<^verbatim>\<open>Verifier_Sound\<close> relates it to the flow relation of the code: what an
  accepted function may rely on, what an error report means, when the result is undefined, and where
  acceptance promises less than the comments say.

  Serializer: \<^verbatim>\<open>Bytecode_Serializer\<close> is \<^verbatim>\<open>bytecode_serializer.cpp\<close> as a state monad over the
  cursor; \<^verbatim>\<open>Serializer_Round_Trip\<close> proves write and read inverse element by element through the locale
  of codecs; \<^verbatim>\<open>Serializer_Safe\<close> treats arbitrary input: no exception, when the outcome is undefined, limits respected, the
  verified bit.

  Machine: \<^verbatim>\<open>VM_Stack\<close> has the state as a record and the stack primitives (\<^verbatim>\<open>vm_stack.hpp\<close>,
  \<^verbatim>\<open>vm.cpp\<close>, \<^verbatim>\<open>vm_helpers.cpp\<close>); \<^verbatim>\<open>VM_Arithmetic\<close> and \<^verbatim>\<open>VM_Dispatch\<close> the handlers of
  \<^verbatim>\<open>vm_dispatch_arithmetic.cpp\<close> and the dispatch table; \<^verbatim>\<open>VM_Control\<close> calls, returns, closures,
  loops, exceptions, cancellation and the turn of \<^verbatim>\<open>run()\<close> with its catch clauses
  (\<^verbatim>\<open>vm_dispatch_control_flow.cpp\<close>, \<^verbatim>\<open>vm_exception_manager.cpp\<close>, \<^verbatim>\<open>vm_exception_handler.cpp\<close>).
  \<^verbatim>\<open>VM_Props\<close> shows what the arithmetic handlers compute, \<^verbatim>\<open>VM_Verified\<close> that the handlers of
  \<^verbatim>\<open>VM_Dispatch\<close> follow the verifier's flow relation, \<^verbatim>\<open>VM_Control_Props\<close> the machine invariant (locales of
  invariants that an operation keeps, also when it throws) and what exceptions, calls and returns
  guarantee, \<^verbatim>\<open>VM_Machine\<close> that every turn inside a frame follows the flow relation and that whole runs,
  with calls and caught exceptions, keep every frame where the verifier expects it, \<^verbatim>\<open>VM_Liveness\<close> that
  running a frame comes to an end.

  Optimizer: \<^verbatim>\<open>Optimizer\<close> is every pass, the compaction, the fixed-point loop and the inliner
  (\<^verbatim>\<open>optimizer*.cpp\<close>).  \<^verbatim>\<open>Optimizer_Steps\<close> defines what running a frame is, \<^verbatim>\<open>Optimizer_Sim\<close> the
  simulation between code before and after a rewrite of a window, \<^verbatim>\<open>Optimizer_Rules\<close> the rewrite rules one
  by one, \<^verbatim>\<open>Optimizer_Peephole\<close>, \<^verbatim>\<open>Optimizer_Folds\<close>, \<^verbatim>\<open>Optimizer_Passes\<close> and
  \<^verbatim>\<open>Optimizer_Compact\<close> the passes, \<^verbatim>\<open>Optimizer_Correct\<close> the whole.

  Lexer: \<^verbatim>\<open>Lexer_Core\<close> has UTF-8 validation (\<^verbatim>\<open>utf8_validation.hpp\<close>), the sanitizer
  (\<^verbatim>\<open>display_text.hpp\<close>), tokens and keywords (\<^verbatim>\<open>token.hpp\<close>, \<^verbatim>\<open>token_type.hpp\<close>), the diagnostic
  buffer, the cursor and the state; \<^verbatim>\<open>Lexer\<close> every scanner of \<^verbatim>\<open>lexer*.cpp\<close> and \<^verbatim>\<open>tokenize\<close>.
  \<^verbatim>\<open>Lexer_Spec\<close> gives the abstract steps (scanning without tokens, a segment of a string, one token) and
  shows that \<^verbatim>\<open>scan_token\<close> refines them; \<^verbatim>\<open>Lexer_Stacks\<close> the invariant of the stacks and the payloads,
  \<^verbatim>\<open>Lexer_Tiling\<close> that of lines, columns and text, \<^verbatim>\<open>Lexer_Dedent\<close> the dedentation, \<^verbatim>\<open>Lexer_Props\<close>
  what \<^verbatim>\<open>tokenize\<close> guarantees.

  Common: \<^verbatim>\<open>Decimal\<close>, \<^verbatim>\<open>Magnitude_Props\<close>, \<^verbatim>\<open>Decimal_Props\<close> are \<^verbatim>\<open>decimal.hpp\<close> and
  \<^verbatim>\<open>decimal.cpp\<close>; \<^verbatim>\<open>Bit_Numbers\<close> turns bit operations into arithmetic for the codecs; \<^verbatim>\<open>Utf8\<close>
  and \<^verbatim>\<open>Utf8_Props\<close> are \<^verbatim>\<open>utf8.hpp\<close> and \<^verbatim>\<open>utf8_iterator.hpp\<close>; \<^verbatim>\<open>Text_Codecs\<close> and
  \<^verbatim>\<open>Codec_Props\<close> base64, hexadecimal and percent-encoding; \<^verbatim>\<open>Lru_Cache\<close> the bounded cache;
  \<^verbatim>\<open>String_Utils\<close> and \<^verbatim>\<open>String_Utils_Props\<close> the string helpers.
\<close>

section \<open>How code and model correspond\<close>

text \<open>
  A struct is a record, an enumeration a datatype (opcodes stay bytes, since the code casts bytes to them),
  an integer of fixed width a word, a container size a natural number, a double its 64-bit pattern.  A
  handler that may throw yields the error together with the machine as it is when the exception leaves it,
  so a catch clause sees the state the code would see.  The verifier and the passes that walk over code are
  functions with a termination proof on the offset, the loops of the lexer on the distance of the cursor to
  the end of the source; the depth walk and the optimizer loop carry the step
  budget of the source, and no further fuel is used.  The deserializer is a state monad that can also throw.
  Heap objects are identities; what the code asks of them is a field of the environment record.

  Parameters, documented behaviour of code that is not modelled: the double operations, string forms,
  equality and names of heap objects, native calls and the result type's parts (fields of \<^verbatim>\<open>vm_env\<close>),
  and for the optimizer's theorem that the double of integer 0 is the pattern of 0.0 and that the machine's
  string limit is not below the length up to which the optimizer concatenates (\<^verbatim>\<open>folding_env\<close>).
  The lexer takes the interpolation limit and \<^verbatim>\<open>std::stod\<close> (\<^verbatim>\<open>lexer_env\<close>), without a hypothesis
  on them; its line and column counters are unbounded, since sources are capped far below their range.
\<close>

section \<open>What is shown\<close>

text \<open>
  Verifier and machine.  Accepted code has valid instructions whose categorised operands are in range
  (\<^verbatim>\<open>MakeRecord\<close>, \<^verbatim>\<open>RecordWith\<close> and \<^verbatim>\<open>MakeClosure\<close> have no category), control stays at instruction starts, and
  after each instruction a frame has at most 65536 values; before one it can have one more, at the entry of
  an exception handler.  Every turn at a modelled opcode that stays in its frame follows an edge of the flow
  relation, so this holds for executions, which go through calls, tail calls, returns, closures, loops and
  caught exceptions; excluded is a \<^verbatim>\<open>JumpIfFalse\<close> right after an iterator step.  A turn, with its catch
  clauses, keeps the machine well formed, provided that a frame that makes a tail call owns what it passes.
  A thrown error resumes at the innermost handler with exactly what it recorded; a return undoes its call.
  Inside a frame only \<^verbatim>\<open>Loop\<close> moves backward and it spends the iteration budget, so within (remaining
  budget) passes over the code a frame run ends, in an error, at an opcode that enters or leaves a frame, or
  at one without a modelled handler; a tail call is not limited by that budget.  A shallower path into a
  merge point may underflow in accepted code: the guarantees are about the paths as the verifier counts them
  and do not exclude the runtime's underflow error.

  Files.  Reading undoes writing for functions within the format limits; any input yields a result or an
  error code, except that the outcome is undefined when a function that was read reaches a backward jump of
  length 0 at the end of its code; the verified bit means the verifier accepted.  At most 100000 functions
  are accepted, more than the compiler's own 65536.

  Optimizer.  For functions the verifier accepts, at every level, after all passes, rounds and compaction:
  when the frame of the original runs to its end with instructions of its own, without a call or an error,
  the optimized function ends its frame in the same machine.  The optimizer always returns.

  Lexer.  It always returns; its tokens tile the source with exact positions and texts and end with one
  end-of-file token; each carries the payload its type promises; the interpolation stack and the open
  triple-quoted literals stay in step and within the limit; at most 101 errors are reported; a text written as
  a literal lexes back; dedentation drops white space only.

  Common.  Decimal operations are the exact operations on the values, rounded as the mode says, and yield
  normal forms (sums are not held to the digit cap); UTF-8 decoding accepts exactly the encodings of scalar
  values, and counting them overflows its \<^verbatim>\<open>int\<close> from 2147483648 on; the codecs are inverse; the cache refines a list
  by recency; the edit distance is the least number of edits; the glob matcher means what the pattern means
  as long as the text has no asterisk.
\<close>

section \<open>Not modelled\<close>

text \<open>
  The front end behind the lexer (parser, type checker, linter, code generator): it works on syntax trees,
  and the development goes on at bytecode.
  The handlers of collections, records, iterators, globals, tasks and the concurrency runtime: they work on
  reference-counted containers and threads; a turn at such an opcode is \<^verbatim>\<open>Unmodelled\<close>, and the verifier
  treats it by its metadata like any other.  That inlining keeps behaviour is not shown, since calls are not
  steps of a frame.  Calls, errors and cancellation inside a frame are outside the optimizer's theorem.
  File-system access (\<^verbatim>\<open>write_file\<close>, the compilation cache), the standard library's native functions,
  the command line, the REPL, the debugger and the language server are input and output around this core.
  Conversions between decimals and doubles only call the C++ library.
\<close>

end
